(* ===== verification/Prelude.thy ===== *)
theory Prelude
  imports Main "HOL-Library.Word"
begin

unbundle bit_operations_syntax

text \<open>
  Shared material of the development: the machine integer types of the C sources, checked
  list access (a C array read or write is only meaningful in bounds), big-endian packing of
  bytes into words, 64-bit signed wrap-around, and the named collections that the component
  theories extend.
\<close>

section \<open>Machine integers\<close>

type_synonym u8 = "8 word"
type_synonym u16 = "16 word"
type_synonym u32 = "32 word"
type_synonym u64 = "64 word"

text \<open>
  \<open>model_defs\<close> collects the definitions of helpers that proofs about a component unfold,
  \<open>frame_simps\<close> the equations that say which part of a state an operation leaves alone.
\<close>

named_theorems model_defs \<open>definitions of small helpers\<close>
named_theorems frame_simps \<open>state components an operation does not change\<close>

text \<open>The value of a signed 64-bit variable after storing the mathematical integer \<open>x\<close>.\<close>

definition wrap64 :: "int \<Rightarrow> int" where
  "wrap64 x = (x + 2 ^ 63) mod 2 ^ 64 - 2 ^ 63"

lemma wrap64_id [simp]: "- (2 ^ 63) \<le> x \<Longrightarrow> x < 2 ^ 63 \<Longrightarrow> wrap64 x = x"
  by (simp add: wrap64_def)

lemma wrap64_range: "- (2 ^ 63) \<le> wrap64 x \<and> wrap64 x < 2 ^ 63"
  by (simp add: wrap64_def)

section \<open>Checked array access\<close>

text \<open>A read of a C array: \<open>None\<close> stands for an access outside the object.\<close>

definition rd :: "'a list \<Rightarrow> nat \<Rightarrow> 'a option" where
  "rd xs i = (if i < length xs then Some (xs ! i) else None)"

definition wr :: "'a list \<Rightarrow> nat \<Rightarrow> 'a \<Rightarrow> 'a list option" where
  "wr xs i v = (if i < length xs then Some (xs[i := v]) else None)"

lemma rd_Some [simp]: "i < length xs \<Longrightarrow> rd xs i = Some (xs ! i)"
  by (simp add: rd_def)

lemma rd_None_iff [simp]: "rd xs i = None \<longleftrightarrow> length xs \<le> i"
  by (auto simp: rd_def)

lemma rd_eq_Some_iff: "rd xs i = Some x \<longleftrightarrow> i < length xs \<and> xs ! i = x"
  by (auto simp: rd_def)

lemma wr_Some [simp]: "i < length xs \<Longrightarrow> wr xs i v = Some (xs[i := v])"
  by (simp add: wr_def)

lemma wr_None_iff [simp]: "wr xs i v = None \<longleftrightarrow> length xs \<le> i"
  by (auto simp: wr_def)

lemma wr_length: "wr xs i v = Some ys \<Longrightarrow> length ys = length xs"
  by (auto simp: wr_def split: if_splits)

lemma rd_append_left: "i < length xs \<Longrightarrow> rd (xs @ ys) i = rd xs i"
  by (simp add: rd_def nth_append)

lemma rd_append_right: "rd (xs @ ys) (length xs + i) = rd ys i"
  by (simp add: rd_def)

section \<open>Byte packing\<close>

text \<open>
  \<open>be16\<close> and \<open>be32\<close> are the shift-and-or packing of bytes, most significant first,
  that the sources write out by hand; \<open>byte_at n w\<close> is \<open>(w >> n) & 0xff\<close>.
\<close>

definition be16 :: "u8 \<Rightarrow> u8 \<Rightarrow> u16" where
  "be16 a b = push_bit 8 (ucast a) OR ucast b"

definition be32 :: "u8 \<Rightarrow> u8 \<Rightarrow> u8 \<Rightarrow> u8 \<Rightarrow> u32" where
  "be32 a b c d =
     push_bit 24 (ucast a) OR push_bit 16 (ucast b) OR push_bit 8 (ucast c) OR ucast d"

definition byte_at :: "nat \<Rightarrow> 'a::len word \<Rightarrow> u8" where
  "byte_at n w = ucast (drop_bit n w)"

definition bytes_be32 :: "u32 \<Rightarrow> u8 list" where
  "bytes_be32 w = [byte_at 24 w, byte_at 16 w, byte_at 8 w, byte_at 0 w]"

lemma bit_byte_at: "bit (byte_at n w) i \<longleftrightarrow> i < 8 \<and> bit w (n + i)"
  by (auto simp: byte_at_def bit_simps)

lemma bit_be32:
  "bit (be32 a b c d) i \<longleftrightarrow>
     (if i < 8 then bit d i else if i < 16 then bit c (i - 8)
      else if i < 24 then bit b (i - 16) else bit a (i - 24))"
  using bit_imp_le_length [of d i] bit_imp_le_length [of c "i - 8"]
    bit_imp_le_length [of b "i - 16"] bit_imp_le_length [of a "i - 24"]
  by (auto simp: be32_def bit_simps)

lemma byte_at_be32 [simp]:
  "byte_at 24 (be32 a b c d) = a"
  "byte_at 16 (be32 a b c d) = b"
  "byte_at 8 (be32 a b c d) = c"
  "byte_at 0 (be32 a b c d) = d"
  by (rule bit_word_eqI, simp add: bit_byte_at bit_be32)+

lemma be32_byte_at [simp]: "be32 (byte_at 24 w) (byte_at 16 w) (byte_at 8 w) (byte_at 0 w) = w"
  by (rule bit_word_eqI) (auto simp: bit_byte_at bit_be32)

lemma length_bytes_be32 [simp]: "length (bytes_be32 w) = 4"
  by (simp add: bytes_be32_def)

lemma unat_u8_less [simp]: "unat (b :: u8) < 256"
  using unsigned_less [where 'b = 8 and 'a = nat, of b] by simp

lemma unat_ucast_u8_u32 [simp]: "unat (ucast (b :: u8) :: u32) = unat b"
  using less_trans [OF unat_u8_less [of b], of 4294967296]
  by (simp add: unsigned_ucast_eq take_bit_nat_eq_self_iff)

section \<open>Step machines\<close>

text \<open>
  The outcome of one turn of an interpreter loop, and the interface of a loop that runs such
  turns: if an invariant rules faults out and every turn that continues keeps the invariant and
  decreases a measure, the loop returns a value, after at most as many turns as the measure says.
\<close>

datatype ('s, 'v, 'f) outcome = Continue 's | Return 'v | Fault 'f

locale bounded_machine =
  fixes step :: "'s \<Rightarrow> ('s, 'v, 'f) outcome"
    and run :: "'s \<Rightarrow> 'f + 'v"
    and inv :: "'s \<Rightarrow> bool"
    and fuel :: "'s \<Rightarrow> nat"
  assumes run_unfold: "run s =
      (case step s of Continue s' \<Rightarrow> run s' | Return v \<Rightarrow> Inr v | Fault f \<Rightarrow> Inl f)"
    and no_fault: "inv s \<Longrightarrow> step s \<noteq> Fault f"
    and keeps: "inv s \<Longrightarrow> step s = Continue s' \<Longrightarrow> inv s' \<and> fuel s' < fuel s"
begin

fun steps :: "nat \<Rightarrow> 's \<Rightarrow> 'v option" where
  "steps 0 s = None"
| "steps (Suc n) s = (case step s of Continue s' \<Rightarrow> steps n s' | Return v \<Rightarrow> Some v | Fault f \<Rightarrow> None)"

lemma run_steps: "inv s \<Longrightarrow> fuel s < n \<Longrightarrow> \<exists>v. run s = Inr v \<and> steps n s = Some v"
proof (induction n arbitrary: s)
  case 0
  then show ?case by simp
next
  case (Suc n)
  show ?case
  proof (cases "step s")
    case (Continue s')
    with keeps [OF Suc.prems(1)] have "inv s'" "fuel s' < fuel s" by auto
    with Suc Continue show ?thesis by (subst run_unfold) auto
  qed (use Suc.prems no_fault in \<open>auto simp: run_unfold [of s]\<close>)
qed

lemma run_returns: "inv s \<Longrightarrow> \<exists>v. run s = Inr v"
  using run_steps [of s "Suc (fuel s)"] by auto

end

end
