(* ===== verification/Wwan.thy ===== *)
theory Wwan
  imports Prelude
begin

text \<open>
  The one first-party C file of the repository, \<^verbatim>\<open>Apple Sample Code/wwanconnect.c\<close>:
  opening and closing the socket stream pair that brings a wireless WAN connection up.
  The CoreFoundation calls are not part of the repository. What the code learns from them
  (does the allocation succeed, does setting the client succeed, does the open succeed, which
  event is delivered first, ...) is the record \<open>cf_env\<close>, and what the code does to them is a
  trace of \<open>action\<close>s in program order.
\<close>

section \<open>State\<close>

type_synonym stream_ref = nat

record MyStreamInfo =
  wStreamRef :: "stream_ref option"
  rStreamRef :: "stream_ref option"
  clientCB :: "nat option"
  refCon :: nat
  error :: "int \<times> int"   \<comment> \<open>\<^verbatim>\<open>CFStreamError\<close>: domain and code\<close>
  errorOccurred :: bool
  isConnected :: bool
  isStreamInitd :: bool
  isClientSet :: bool

datatype cf_event =
    EventOpenCompleted
  | EventErrorOccurred "int \<times> int"  \<comment> \<open>with the error that \<^verbatim>\<open>CFWriteStreamGetError\<close> would return\<close>
  | EventOther nat          \<comment> \<open>any other type, for instance \<^verbatim>\<open>kCFStreamEventEndEncountered\<close>\<close>

datatype action =
    CreatePairFromAddress
  | CreatePairFromHost
  | SetCloseNativeSocket "stream_ref option"
  | SetClient "stream_ref option"
  | ClearClient "stream_ref option"
  | Schedule "stream_ref option"
  | Unschedule "stream_ref option"
  | OpenStream "stream_ref option"
  | RunLoopRun
  | RunLoopStop
  | CallTestGetIFAddrs
  | CallClient nat nat
  | CloseRead stream_ref
  | CloseWrite stream_ref
  | Release "stream_ref option"
  | FreeInfo

record cf_env =
  env_malloc_ok :: bool
  env_inet_addr :: "u32"              \<comment> \<open>\<^verbatim>\<open>inet_addr(kTestHost)\<close>\<close>
  env_rstream :: stream_ref           \<comment> \<open>the pair the creation call stores\<close>
  env_wstream :: stream_ref
  env_set_client_ok :: bool
  env_open_ok :: bool
  env_first_event :: "cf_event option" \<comment> \<open>first event delivered while the run loop runs\<close>

definition INADDR_NONE :: u32 where
  "INADDR_NONE = 0xffffffff"

text \<open>The outcome of \<open>StartWWAN\<close>: a returned pointer (\<open>None\<close> is NULL), or a run loop that is
  never stopped because no event arrives.\<close>

datatype start_result =
    Started "MyStreamInfo option"
  | RunLoopNeverStops

section \<open>TestGetIFAddrs\<close>

datatype sa_family = AF_INET | AF_INET6 | AF_OTHER

record ifaddrs =
  ifa_name :: string
  ifa_addr :: "sa_family option"  \<comment> \<open>\<open>None\<close> is a NULL \<^verbatim>\<open>ifa_addr\<close> pointer\<close>
  ifa_netmask :: bool             \<comment> \<open>is the pointer non-NULL\<close>
  ifa_dstaddr :: bool

text \<open>
  The output lines (as the pieces printed for one entry), whether \<^verbatim>\<open>freeifaddrs\<close> is called,
  and the result. \<open>None\<close> is the dereference of a NULL \<^verbatim>\<open>ifa_addr\<close>.
\<close>

datatype piece = V4Source string | V4Netmask | V4Dest | V6Source string

record ifaddrs_result =
  found :: bool
  freed :: bool
  printed :: "piece list"

text \<open>\<^verbatim>\<open>memcmp(ifa_name, "lo0/0", 3)\<close> on a NUL-terminated name.\<close>

definition not_loopback :: "string \<Rightarrow> bool" where
  "not_loopback name = (take 3 (name @ [CHR 0x00]) \<noteq> ''lo0'')"

fun scan_ifaddrs :: "ifaddrs list \<Rightarrow> piece list \<Rightarrow> ifaddrs_result option" where
  "scan_ifaddrs [] out = Some \<lparr>found = False, freed = True, printed = out\<rparr>"
| "scan_ifaddrs (i # is) out =
    (case ifa_addr i of
       None \<Rightarrow> None
     | Some AF_INET \<Rightarrow>
         (if not_loopback (ifa_name i)
          then Some \<lparr>found = True, freed = False,
                 printed = out @ [V4Source (ifa_name i)]
                   @ (if ifa_netmask i then [V4Netmask] else [])
                   @ (if ifa_dstaddr i then [V4Dest] else [])\<rparr>
          else scan_ifaddrs is out)
     | Some AF_INET6 \<Rightarrow> scan_ifaddrs is (out @ [V6Source (ifa_name i)])
     | Some AF_OTHER \<Rightarrow> scan_ifaddrs is out)"

text \<open>\<^verbatim>\<open>if (ifbase) freeifaddrs(ifbase)\<close>: an empty list is a NULL \<open>ifbase\<close>.\<close>

definition TestGetIFAddrs :: "ifaddrs list \<Rightarrow> ifaddrs_result option" where
  "TestGetIFAddrs ifbase =
     map_option (\<lambda>r. if ifbase = [] then r\<lparr>freed := False\<rparr> else r) (scan_ifaddrs ifbase [])"

section \<open>The client callback, cleanup and close\<close>

definition MyCFWriteStreamClientCallBack ::
  "cf_event \<Rightarrow> MyStreamInfo \<Rightarrow> MyStreamInfo \<times> action list" where
  "MyCFWriteStreamClientCallBack ev info =
     (case ev of
        EventOpenCompleted \<Rightarrow>
          (info\<lparr>isConnected := True\<rparr>,
           [CallTestGetIFAddrs]
           @ (case clientCB info of None \<Rightarrow> [] | Some cb \<Rightarrow> [CallClient cb (refCon info)])
           @ [RunLoopStop])
      | EventErrorOccurred e \<Rightarrow>
          (info\<lparr>errorOccurred := True, error := e\<rparr>, [RunLoopStop])
      | EventOther _ \<Rightarrow> (info, [RunLoopStop]))"

definition CleanupAfterWAAN :: "MyStreamInfo \<Rightarrow> MyStreamInfo \<times> action list" where
  "CleanupAfterWAAN info =
     (if isClientSet info
      then (info\<lparr>isClientSet := False\<rparr>,
            [ClearClient (wStreamRef info), Unschedule (wStreamRef info)])
      else (info, []))"

definition CloseStreams :: "MyStreamInfo \<Rightarrow> MyStreamInfo \<times> action list" where
  "CloseStreams info =
     (let (i1, t1) = (case rStreamRef info of
                        None \<Rightarrow> (info, [])
                      | Some r \<Rightarrow> (info\<lparr>rStreamRef := None\<rparr>, [CloseRead r]));
          (i2, t2) = (case wStreamRef i1 of
                        None \<Rightarrow> (i1, [])
                      | Some w \<Rightarrow> (i1\<lparr>wStreamRef := None\<rparr>, [CloseWrite w]))
      in (i2, t1 @ t2))"

section \<open>StartWWAN and StopWWAN\<close>

text \<open>\<^verbatim>\<open>memset(myInfoPtr, 0, ...)\<close> and the two stores after it.\<close>

definition init_info :: "nat option \<Rightarrow> nat \<Rightarrow> MyStreamInfo" where
  "init_info cb rc =
     \<lparr>wStreamRef = None, rStreamRef = None, clientCB = cb, refCon = rc, error = (0, 0),
      errorOccurred = False, isConnected = False, isStreamInitd = False, isClientSet = False\<rparr>"

definition create_streams ::
  "cf_env \<Rightarrow> MyStreamInfo \<Rightarrow> MyStreamInfo \<times> action list" where
  "create_streams env info =
     (info\<lparr>rStreamRef := Some (env_rstream env), wStreamRef := Some (env_wstream env),
           isConnected := False, isStreamInitd := True, isClientSet := False\<rparr>,
      [if env_inet_addr env \<noteq> INADDR_NONE then CreatePairFromAddress else CreatePairFromHost,
       SetCloseNativeSocket (Some (env_wstream env))])"

text \<open>The error exit: lines 196 to 210.\<close>

definition start_fail :: "MyStreamInfo \<Rightarrow> action list" where
  "start_fail info =
     (let (i1, t1) = CleanupAfterWAAN (info\<lparr>isConnected := False\<rparr>);
          (i2, t2) = CloseStreams i1
      in t1 @ t2
         @ (if isStreamInitd i2 then [Release (rStreamRef i2), Release (wStreamRef i2)] else [])
         @ [FreeInfo])"

definition StartWWAN :: "cf_env \<Rightarrow> nat option \<Rightarrow> nat \<Rightarrow> start_result \<times> action list" where
  "StartWWAN env cb rc =
     (if \<not> env_malloc_ok env then (Started None, [])
      else
        let (i1, t1) = create_streams env (init_info cb rc);
            t2 = t1 @ [SetClient (wStreamRef i1)]
        in if \<not> env_set_client_ok env then (Started None, t2 @ start_fail i1)
           else
             let i2 = i1\<lparr>isClientSet := True\<rparr>;
                 t3 = t2 @ [Schedule (wStreamRef i2), OpenStream (wStreamRef i2)]
             in if \<not> env_open_ok env then (Started None, t3 @ start_fail i2)
                else
                  case env_first_event env of
                    None \<Rightarrow> (RunLoopNeverStops, t3 @ [RunLoopRun])
                  | Some ev \<Rightarrow>
                      let (i3, t4) = MyCFWriteStreamClientCallBack ev i2;
                          t5 = t3 @ [RunLoopRun] @ t4
                      in if errorOccurred i3 then (Started None, t5 @ start_fail i3)
                         else (Started (Some i3), t5))"

definition StopWWAN :: "MyStreamInfo \<Rightarrow> action list" where
  "StopWWAN info =
     (let (i1, t1) = CleanupAfterWAAN (info\<lparr>isConnected := False\<rparr>);
          (i2, t2) = CloseStreams i1
      in t1 @ t2 @ [FreeInfo])"

section \<open>The life of a stream pair\<close>

text \<open>
  What a caller of the stream calls must respect: a client is set and scheduled on a live write
  stream before it is opened, it is cleared and unscheduled before the streams are closed, no call
  touches a closed stream, and the info block is freed last and once.
\<close>

record life =
  created :: bool
  client :: bool
  scheduled :: bool
  opened :: bool
  r_open :: bool
  w_open :: bool
  info_freed :: bool

definition unborn :: life where
  "unborn = \<lparr>created = False, client = False, scheduled = False, opened = False,
     r_open = False, w_open = False, info_freed = False\<rparr>"

inductive life_step :: "stream_ref \<Rightarrow> stream_ref \<Rightarrow> life \<Rightarrow> action \<Rightarrow> life \<Rightarrow> bool"
  for r w where
  create: "\<not> created l \<Longrightarrow> a \<in> {CreatePairFromAddress, CreatePairFromHost} \<Longrightarrow>
    life_step r w l a (l\<lparr>created := True, r_open := True, w_open := True\<rparr>)"
| set_property: "w_open l \<Longrightarrow> \<not> opened l \<Longrightarrow> life_step r w l (SetCloseNativeSocket (Some w)) l"
| set_client: "w_open l \<Longrightarrow> \<not> opened l \<Longrightarrow> life_step r w l (SetClient (Some w)) (l\<lparr>client := True\<rparr>)"
| schedule: "w_open l \<Longrightarrow> client l \<Longrightarrow> \<not> scheduled l \<Longrightarrow>
    life_step r w l (Schedule (Some w)) (l\<lparr>scheduled := True\<rparr>)"
| do_open: "w_open l \<Longrightarrow> scheduled l \<Longrightarrow> \<not> opened l \<Longrightarrow>
    life_step r w l (OpenStream (Some w)) (l\<lparr>opened := True\<rparr>)"
| loop: "opened l \<Longrightarrow> a \<in> {RunLoopRun, RunLoopStop, CallTestGetIFAddrs} \<Longrightarrow> life_step r w l a l"
| user: "opened l \<Longrightarrow> \<not> info_freed l \<Longrightarrow> life_step r w l (CallClient cb rc) l"
| clear: "w_open l \<Longrightarrow> client l \<Longrightarrow> life_step r w l (ClearClient (Some w)) (l\<lparr>client := False\<rparr>)"
| unschedule: "w_open l \<Longrightarrow> scheduled l \<Longrightarrow> \<not> client l \<Longrightarrow>
    life_step r w l (Unschedule (Some w)) (l\<lparr>scheduled := False\<rparr>)"
| close_read: "r_open l \<Longrightarrow> life_step r w l (CloseRead r) (l\<lparr>r_open := False\<rparr>)"
| close_write: "w_open l \<Longrightarrow> \<not> client l \<Longrightarrow> \<not> scheduled l \<Longrightarrow>
    life_step r w l (CloseWrite w) (l\<lparr>w_open := False\<rparr>)"
| free: "\<not> r_open l \<Longrightarrow> \<not> w_open l \<Longrightarrow> \<not> info_freed l \<Longrightarrow>
    life_step r w l FreeInfo (l\<lparr>info_freed := True\<rparr>)"

inductive_simps life_step_simps [simp]:
  "life_step r w l CreatePairFromAddress l'"
  "life_step r w l CreatePairFromHost l'"
  "life_step r w l (SetCloseNativeSocket s) l'"
  "life_step r w l (SetClient s) l'"
  "life_step r w l (Schedule s) l'"
  "life_step r w l (OpenStream s) l'"
  "life_step r w l RunLoopRun l'"
  "life_step r w l RunLoopStop l'"
  "life_step r w l CallTestGetIFAddrs l'"
  "life_step r w l (CallClient cb rc) l'"
  "life_step r w l (ClearClient s) l'"
  "life_step r w l (Unschedule s) l'"
  "life_step r w l (CloseRead r') l'"
  "life_step r w l (CloseWrite w') l'"
  "life_step r w l FreeInfo l'"

inductive_cases release_stepE [elim!]: "life_step r w l (Release s) l'"

fun life_run :: "stream_ref \<Rightarrow> stream_ref \<Rightarrow> life \<Rightarrow> action list \<Rightarrow> life \<Rightarrow> bool" where
  "life_run r w l [] l' \<longleftrightarrow> l = l'"
| "life_run r w l (a # as) l' \<longleftrightarrow> (\<exists>m. life_step r w l a m \<and> life_run r w m as l')"

lemma life_run_append: "life_run r w l (xs @ ys) l' \<longleftrightarrow> (\<exists>m. life_run r w l xs m \<and> life_run r w m ys l')"
  by (induction xs arbitrary: l) auto

lemmas wwan_defs = StartWWAN_def StopWWAN_def start_fail_def create_streams_def init_info_def
  CleanupAfterWAAN_def CloseStreams_def MyCFWriteStreamClientCallBack_def Let_def

text \<open>The environments in which the connection attempt gets through to a first event.\<close>

definition reaches_event :: "cf_env \<Rightarrow> cf_event \<Rightarrow> bool" where
  "reaches_event env ev \<longleftrightarrow> env_malloc_ok env \<and> env_set_client_ok env \<and> env_open_ok env
    \<and> env_first_event env = Some ev"

lemma StartWWAN_event:
  "reaches_event env ev \<Longrightarrow>
    StartWWAN env cb rc =
      (let (i1, t1) = create_streams env (init_info cb rc);
           i2 = i1\<lparr>isClientSet := True\<rparr>;
           (i3, t4) = MyCFWriteStreamClientCallBack ev i2;
           t = t1 @ [SetClient (wStreamRef i1), Schedule (wStreamRef i2), OpenStream (wStreamRef i2),
                     RunLoopRun] @ t4
       in if errorOccurred i3 then (Started None, t @ start_fail i3) else (Started (Some i3), t))"
  by (cases ev) (simp_all add: reaches_event_def wwan_defs)

section \<open>Properties\<close>

text \<open>\<open>StartWWAN\<close> returns a session exactly when the allocation, the registration of the
  client and the open succeed and the first event is not an error; the session is marked connected
  exactly when that event was the completed open, and its client is still registered.\<close>

theorem StartWWAN_result:
  "fst (StartWWAN env cb rc) = Started (Some info) \<Longrightarrow>
    (\<exists>ev. reaches_event env ev \<and> (\<forall>e. ev \<noteq> EventErrorOccurred e)
      \<and> (isConnected info \<longleftrightarrow> ev = EventOpenCompleted))
    \<and> isClientSet info \<and> isStreamInitd info \<and> \<not> errorOccurred info
    \<and> wStreamRef info = Some (env_wstream env) \<and> rStreamRef info = Some (env_rstream env)
    \<and> clientCB info = cb \<and> refCon info = rc"
  by (auto simp: wwan_defs reaches_event_def split: if_splits option.splits cf_event.splits)

definition good_env :: "cf_event \<Rightarrow> cf_env" where
  "good_env ev = \<lparr>env_malloc_ok = True, env_inet_addr = INADDR_NONE, env_rstream = 1, env_wstream = 2,
     env_set_client_ok = True, env_open_ok = True, env_first_event = Some ev\<rparr>"

definition connected_info :: MyStreamInfo where
  "connected_info = \<lparr>wStreamRef = Some 2, rStreamRef = Some 1, clientCB = Some 7, refCon = 9,
     error = (0, 0), errorOccurred = False, isConnected = True, isStreamInitd = True, isClientSet = True\<rparr>"

lemma good_env_start: "fst (StartWWAN (good_env EventOpenCompleted) (Some 7) 9) = Started (Some connected_info)"
  by (simp add: wwan_defs good_env_def connected_info_def)

theorem StartWWAN_result_witness:
  "(\<exists>ev. reaches_event (good_env EventOpenCompleted) ev \<and> (\<forall>e. ev \<noteq> EventErrorOccurred e)
      \<and> (isConnected connected_info \<longleftrightarrow> ev = EventOpenCompleted)) \<and> isClientSet connected_info"
  using StartWWAN_result [OF good_env_start] by blast

text \<open>C23: the calls of a successful \<open>StartWWAN\<close> followed by \<open>StopWWAN\<close> respect the life cycle of
  the stream pair from creation to the end: afterwards both streams are closed, the client is
  cleared and unscheduled, and the info block has been freed exactly once.\<close>

theorem session_lifecycle:
  assumes "StartWWAN env cb rc = (Started (Some info), t)"
  shows "\<exists>l. life_run (env_rstream env) (env_wstream env) unborn (t @ StopWWAN info) l
    \<and> created l \<and> info_freed l \<and> \<not> client l \<and> \<not> scheduled l \<and> \<not> r_open l \<and> \<not> w_open l"
  using assms
  by (auto simp: wwan_defs unborn_def split: if_splits option.splits cf_event.splits)

theorem session_lifecycle_witness:
  "\<exists>l. life_run 1 2 unborn (snd (StartWWAN (good_env EventOpenCompleted) (Some 7) 9) @ StopWWAN connected_info) l
    \<and> created l \<and> info_freed l \<and> \<not> client l \<and> \<not> scheduled l \<and> \<not> r_open l \<and> \<not> w_open l"
  using session_lifecycle [of "good_env EventOpenCompleted" "Some 7" 9 connected_info
      "snd (StartWWAN (good_env EventOpenCompleted) (Some 7) 9)"] good_env_start
  by (simp add: good_env_def prod_eq_iff)

text \<open>Every failing start that got as far as creating the streams ends by releasing two NULL
  references (\<open>CloseStreams\<close> has cleared them) and freeing the block; the two streams themselves
  are never released.\<close>

theorem failed_start_releases_null:
  assumes "StartWWAN env cb rc = (Started None, t)" and "env_malloc_ok env"
  shows "\<exists>t0. t = t0 @ [CloseRead (env_rstream env), CloseWrite (env_wstream env),
      Release None, Release None, FreeInfo] \<and> (\<forall>s. Release s \<notin> set t0)"
  using assms
  by (auto simp: wwan_defs split: if_splits option.splits cf_event.splits)

theorem failed_start_releases_null_witness:
  "\<exists>t0. snd (StartWWAN (good_env (EventErrorOccurred (1, 2))) None 0) = t0 @
      [CloseRead 1, CloseWrite 2, Release None, Release None, FreeInfo] \<and> (\<forall>s. Release s \<notin> set t0)"
  using failed_start_releases_null [of "good_env (EventErrorOccurred (1, 2))" None 0
      "snd (StartWWAN (good_env (EventErrorOccurred (1, 2))) None 0)"]
  by (simp add: good_env_def wwan_defs)

lemma scan_ifaddrs_found:
  "\<forall>i \<in> set is. ifa_addr i \<noteq> None \<Longrightarrow>
    \<exists>r. scan_ifaddrs is out = Some r \<and> freed r = (\<not> found r)
      \<and> (found r \<longleftrightarrow> (\<exists>i \<in> set is. ifa_addr i = Some AF_INET \<and> not_loopback (ifa_name i)))"
proof (induction "is" arbitrary: out)
  case (Cons i "is")
  then obtain fam where "ifa_addr i = Some fam" by auto
  with Cons show ?case by (cases fam) auto
qed simp

text \<open>\<open>TestGetIFAddrs\<close>, on a list in which every entry has an address, reports whether some
  interface other than the loopback has an IPv4 address; when it reports one it returns without
  freeing the list.\<close>

theorem TestGetIFAddrs_leak:
  assumes "\<forall>i \<in> set ifbase. ifa_addr i \<noteq> None" and "ifbase \<noteq> []"
  shows "\<exists>r. TestGetIFAddrs ifbase = Some r \<and> freed r = (\<not> found r)
    \<and> (found r \<longleftrightarrow> (\<exists>i \<in> set ifbase. ifa_addr i = Some AF_INET \<and> not_loopback (ifa_name i)))"
  using scan_ifaddrs_found [OF assms(1), of "[]"] assms(2) by (auto simp: TestGetIFAddrs_def)

theorem TestGetIFAddrs_leak_witness:
  "\<exists>r. TestGetIFAddrs [\<lparr>ifa_name = ''en0'', ifa_addr = Some AF_INET, ifa_netmask = True, ifa_dstaddr = False\<rparr>]
      = Some r \<and> freed r = (\<not> found r)"
  using TestGetIFAddrs_leak [of "[\<lparr>ifa_name = ''en0'', ifa_addr = Some AF_INET, ifa_netmask = True, ifa_dstaddr = False\<rparr>]"]
  by auto

end
