(* ===== verification/Rangelist.thy ===== *)
theory Rangelist
  imports Prelude
begin

text \<open>
  The HFS range lists of \<^verbatim>\<open>hfs/rangelist.c\<close> (invalid file ranges). A circular queue of
  entries becomes the list of its entries in queue order, and a pointer to an entry becomes the
  index of the entry. Offsets are signed 64-bit numbers, with \<open>RL_INFINITY = -1\<close> as an open
  end; the additions and subtractions of the code wrap (\<open>wrap64\<close>).
\<close>

section \<open>Data\<close>

record rl_entry =
  rl_start :: int
  rl_end :: int

type_synonym rl_head = "rl_entry list"

datatype rl_overlaptype =
    RL_NOOVERLAP
  | RL_MATCHINGOVERLAP
  | RL_OVERLAPCONTAINSRANGE
  | RL_OVERLAPISCONTAINED
  | RL_OVERLAPSTARTSBEFORE
  | RL_OVERLAPENDSAFTER

definition RL_INFINITY :: int where
  "RL_INFINITY = -1"

definition mk_entry :: "int \<Rightarrow> int \<Rightarrow> rl_entry" where
  "mk_entry s e = \<lparr>rl_start = s, rl_end = e\<rparr>"

text \<open>\<^verbatim>\<open>CIRCLEQ_REMOVE\<close> and \<^verbatim>\<open>CIRCLEQ_INSERT_AFTER\<close> on the entry at index \<open>i\<close>.\<close>

definition remove_at :: "nat \<Rightarrow> 'a list \<Rightarrow> 'a list" where
  "remove_at i xs = take i xs @ drop (Suc i) xs"

definition insert_after :: "nat \<Rightarrow> 'a \<Rightarrow> 'a list \<Rightarrow> 'a list" where
  "insert_after i x xs = take (Suc i) xs @ x # drop (Suc i) xs"

section \<open>Diagnostics\<close>

text \<open>\<open>rl_verify\<close> of a diagnostic kernel: \<open>False\<close> is a panic.\<close>

fun rl_verify_loop :: "int \<Rightarrow> rl_head \<Rightarrow> bool" where
  "rl_verify_loop limit [] = True"
| "rl_verify_loop limit (r # rs) =
    (if limit > 0 \<and> rl_start r \<le> limit then False
     else if rl_end r < rl_start r then False
     else rl_verify_loop (rl_end r) rs)"

definition rl_verify :: "rl_head \<Rightarrow> bool" where
  "rl_verify rangelist = rl_verify_loop 0 rangelist"

section \<open>Scanning\<close>

definition rl_init :: rl_head where
  "rl_init = []"

text \<open>The test of one entry. \<open>None\<close> is the fall-through the source comments as unreachable,
  where the loop would spin on the same entry.\<close>

definition rl_classify :: "rl_entry \<Rightarrow> int \<Rightarrow> int \<Rightarrow> rl_overlaptype option" where
  "rl_classify entry start fin =
    (if (rl_end entry \<noteq> RL_INFINITY \<and> start > rl_end entry)
        \<or> (fin \<noteq> RL_INFINITY \<and> rl_start entry > fin) then Some RL_NOOVERLAP
     else if rl_start entry = start \<and> rl_end entry = fin then Some RL_MATCHINGOVERLAP
     else if rl_start entry \<le> start \<and> fin \<noteq> RL_INFINITY
        \<and> (rl_end entry \<ge> fin \<or> rl_end entry = RL_INFINITY) then Some RL_OVERLAPCONTAINSRANGE
     else if start \<le> rl_start entry
        \<and> (fin = RL_INFINITY \<or> (rl_end entry \<noteq> RL_INFINITY \<and> fin \<ge> rl_end entry))
       then Some RL_OVERLAPISCONTAINED
     else if rl_start entry < start \<and> (rl_end entry \<ge> start \<or> rl_end entry = RL_INFINITY)
       then Some RL_OVERLAPSTARTSBEFORE
     else if rl_start entry > start \<and> fin \<noteq> RL_INFINITY
        \<and> (rl_end entry > fin \<or> rl_end entry = RL_INFINITY) then Some RL_OVERLAPENDSAFTER
     else None)"

text \<open>The loop of \<open>rl_scan_from\<close> from the entry at index \<open>i\<close>: the case and \<^verbatim>\<open>*overlap\<close>.
  \<open>None\<close>: the loop spins, or the pointer is not an entry of the list.\<close>

function rl_scan_loop ::
  "rl_head \<Rightarrow> int \<Rightarrow> int \<Rightarrow> nat \<Rightarrow> (rl_overlaptype \<times> nat) option" where
  "rl_scan_loop rangelist start fin i =
    (if i < length rangelist then
       (case rl_classify (rangelist ! i) start fin of
          None \<Rightarrow> None
        | Some RL_NOOVERLAP \<Rightarrow>
            (if fin \<noteq> RL_INFINITY \<and> rl_start (rangelist ! i) > fin then Some (RL_NOOVERLAP, i)
             else if i = length rangelist - 1 then Some (RL_NOOVERLAP, i)
             else rl_scan_loop rangelist start fin (Suc i))
        | Some c \<Rightarrow> Some (c, i))
     else None)"
  by pat_completeness auto
termination
  by (relation "measure (\<lambda>(l, s, e, i). length l - i)") auto

declare rl_scan_loop.simps [simp del]

definition rl_scan_from ::
  "rl_head \<Rightarrow> int \<Rightarrow> int \<Rightarrow> nat \<Rightarrow> (rl_overlaptype \<times> nat option) option" where
  "rl_scan_from rangelist start fin entry =
    (if rangelist = [] then Some (RL_NOOVERLAP, None)
     else map_option (\<lambda>(c, i). (c, Some i)) (rl_scan_loop rangelist start fin entry))"

definition rl_scan ::
  "rl_head \<Rightarrow> int \<Rightarrow> int \<Rightarrow> (rl_overlaptype \<times> nat option) option" where
  "rl_scan rangelist start fin =
    (if rangelist = [] then Some (RL_NOOVERLAP, None)
     else rl_scan_from rangelist start fin 0)"

section \<open>Collapsing neighbours\<close>

function rl_collapse_forwards :: "rl_head \<Rightarrow> nat \<Rightarrow> rl_head" where
  "rl_collapse_forwards rangelist entry =
    (if Suc entry < length rangelist then
       (if rl_end (rangelist ! entry) \<noteq> RL_INFINITY
           \<and> rl_end (rangelist ! entry) < wrap64 (rl_start (rangelist ! Suc entry) - 1)
        then rangelist
        else rl_collapse_forwards
               (remove_at (Suc entry)
                 (rangelist[entry := (rangelist ! entry)\<lparr>rl_end := rl_end (rangelist ! Suc entry)\<rparr>]))
               entry)
     else rangelist)"
  by pat_completeness auto
termination
  by (relation "measure (\<lambda>(l, i). length l)") (auto simp: remove_at_def)

function rl_collapse_backwards :: "rl_head \<Rightarrow> nat \<Rightarrow> rl_head" where
  "rl_collapse_backwards rangelist entry =
    (if 0 < entry \<and> entry < length rangelist then
       (if rl_end (rangelist ! (entry - 1)) < wrap64 (rl_start (rangelist ! entry) - 1)
        then rangelist
        else rl_collapse_backwards
               (remove_at (entry - 1)
                 (rangelist[entry := (rangelist ! entry)\<lparr>rl_start := rl_start (rangelist ! (entry - 1))\<rparr>]))
               (entry - 1))
     else rangelist)"
  by pat_completeness auto
termination
  by (relation "measure (\<lambda>(l, i). i)") auto

declare rl_collapse_forwards.simps [simp del] rl_collapse_backwards.simps [simp del]

definition rl_collapse_neighbors :: "rl_head \<Rightarrow> nat \<Rightarrow> rl_head" where
  "rl_collapse_neighbors rangelist entry =
    rl_collapse_backwards (rl_collapse_forwards rangelist entry) entry"

section \<open>Adding and removing ranges\<close>

definition rl_add :: "int \<Rightarrow> int \<Rightarrow> rl_head \<Rightarrow> rl_head option" where
  "rl_add start fin rangelist =
    (case rl_scan rangelist start fin of
       None \<Rightarrow> None
     | Some (RL_NOOVERLAP, overlap) \<Rightarrow>
         (case overlap of
            Some i \<Rightarrow>
              Some (rl_collapse_neighbors (insert_after i (mk_entry start fin) rangelist) (Suc i))
          | None \<Rightarrow> Some (rl_collapse_neighbors (mk_entry start fin # rangelist) 0))
     | Some (RL_MATCHINGOVERLAP, _) \<Rightarrow> Some rangelist
     | Some (RL_OVERLAPCONTAINSRANGE, _) \<Rightarrow> Some rangelist
     | Some (RL_OVERLAPISCONTAINED, Some i) \<Rightarrow>
         Some (rl_collapse_neighbors (rangelist[i := mk_entry start fin]) i)
     | Some (RL_OVERLAPSTARTSBEFORE, Some i) \<Rightarrow>
         Some (rl_collapse_forwards (rangelist[i := (rangelist ! i)\<lparr>rl_end := fin\<rparr>]) i)
     | Some (RL_OVERLAPENDSAFTER, Some i) \<Rightarrow>
         Some (rl_collapse_backwards (rangelist[i := (rangelist ! i)\<lparr>rl_start := start\<rparr>]) i)
     | Some (_, None) \<Rightarrow> None)"

lemma rl_scan_loop_index:
  "rl_scan_loop l s e i = Some (c, j) \<Longrightarrow> i \<le> j \<and> j < length l"
proof (induction l s e i rule: rl_scan_loop.induct)
  case (1 l s e i)
  then show ?case
    by (subst (asm) (2) rl_scan_loop.simps)
      (fastforce split: if_splits option.splits rl_overlaptype.splits)
qed

function rl_remove_loop :: "int \<Rightarrow> int \<Rightarrow> rl_head \<Rightarrow> nat \<Rightarrow> rl_head option" where
  "rl_remove_loop start fin rangelist entry =
    (case rl_scan_loop rangelist start fin entry of
       None \<Rightarrow> None
     | Some (RL_NOOVERLAP, _) \<Rightarrow> Some rangelist
     | Some (RL_MATCHINGOVERLAP, i) \<Rightarrow> Some (remove_at i rangelist)
     | Some (RL_OVERLAPCONTAINSRANGE, i) \<Rightarrow>
         (let overlap = rangelist ! i
          in if rl_start overlap = start
             then Some (rangelist[i := overlap\<lparr>rl_start := wrap64 (fin + 1)\<rparr>])
             else if rl_end overlap = fin
             then Some (rangelist[i := overlap\<lparr>rl_end := wrap64 (start - 1)\<rparr>])
             else Some (insert_after i (mk_entry (wrap64 (fin + 1)) (rl_end overlap))
                         (rangelist[i := overlap\<lparr>rl_end := wrap64 (start - 1)\<rparr>])))
     | Some (RL_OVERLAPISCONTAINED, i) \<Rightarrow>
         (if i \<noteq> length rangelist - 1
          then rl_remove_loop start fin (remove_at i rangelist) i
          else Some (remove_at i rangelist))
     | Some (RL_OVERLAPSTARTSBEFORE, i) \<Rightarrow>
         (let l' = rangelist[i := (rangelist ! i)\<lparr>rl_end := wrap64 (start - 1)\<rparr>]
          in if i \<noteq> length rangelist - 1 then rl_remove_loop start fin l' (Suc i) else Some l')
     | Some (RL_OVERLAPENDSAFTER, i) \<Rightarrow>
         Some (rangelist[i := (rangelist ! i)\<lparr>rl_start :=
                 (if fin = RL_INFINITY then RL_INFINITY else wrap64 (fin + 1))\<rparr>]))"
  by pat_completeness auto
termination
  by (relation "measure (\<lambda>(s, e, l, i). length l - i)")
    (auto simp: remove_at_def dest!: rl_scan_loop_index)

declare rl_remove_loop.simps [simp del]

definition rl_remove :: "int \<Rightarrow> int \<Rightarrow> rl_head \<Rightarrow> rl_head option" where
  "rl_remove start fin rangelist =
    (if rangelist = [] then Some [] else rl_remove_loop start fin rangelist 0)"

section \<open>The set of offsets and the invariant\<close>

definition covers :: "rl_entry \<Rightarrow> int set" where
  "covers r = {x. rl_start r \<le> x \<and> (rl_end r = RL_INFINITY \<or> x \<le> rl_end r)}"

definition rl_ranges :: "rl_head \<Rightarrow> int set" where
  "rl_ranges l = (\<Union>r \<in> set l. covers r)"

abbreviation range_span :: "int \<Rightarrow> int \<Rightarrow> int set" where
  "range_span s f \<equiv> covers (mk_entry s f)"

text \<open>A range of file offsets: non-empty, and its end can be incremented.\<close>

definition range_ok :: "int \<Rightarrow> int \<Rightarrow> bool" where
  "range_ok s f \<longleftrightarrow> 0 \<le> s \<and> s < 2 ^ 63 \<and> (f = RL_INFINITY \<or> (s \<le> f \<and> f < 2 ^ 63 - 1))"

definition gap :: "rl_entry \<Rightarrow> rl_entry \<Rightarrow> bool" where
  "gap a b \<longleftrightarrow> rl_end a \<noteq> RL_INFINITY \<and> rl_end a + 1 < rl_start b"

abbreviation entry_ok :: "rl_entry \<Rightarrow> bool" where
  "entry_ok r \<equiv> range_ok (rl_start r) (rl_end r)"

text \<open>Sorted, disjoint and not even adjacent: the canonical list of a set of offsets.\<close>

definition rl_inv :: "rl_head \<Rightarrow> bool" where
  "rl_inv l \<longleftrightarrow> (\<forall>r \<in> set l. entry_ok r) \<and> sorted_wrt gap l"

lemmas range_defs = covers_def range_ok_def gap_def RL_INFINITY_def mk_entry_def

lemma mk_entry_sel [simp]: "rl_start (mk_entry s f) = s" "rl_end (mk_entry s f) = f"
  by (simp_all add: mk_entry_def)

lemma rl_ranges_simps [simp]:
  "rl_ranges [] = {}"
  "rl_ranges (r # rs) = covers r \<union> rl_ranges rs"
  "rl_ranges (xs @ ys) = rl_ranges xs \<union> rl_ranges ys"
  by (auto simp: rl_ranges_def)

lemma rl_ranges_rev [simp]: "rl_ranges (rev xs) = rl_ranges xs"
  by (simp add: rl_ranges_def)

lemma remove_at_append [simp]: "remove_at (length xs) (xs @ y # ys) = xs @ ys"
  by (simp add: remove_at_def)

lemma remove_at_append_Suc [simp]: "remove_at (Suc (length xs)) (xs @ x # y # ys) = xs @ x # ys"
  using remove_at_append [of "xs @ [x]" y ys] by simp

lemma insert_after_append [simp]: "insert_after (length xs) z (xs @ y # ys) = xs @ y # z # ys"
  by (simp add: insert_after_def)

section \<open>What a scan finds\<close>

text \<open>The comment that control never reaches the end of the loop body is right, on any input.\<close>

lemma rl_classify_total: "rl_classify r s f \<noteq> None"
  by (simp add: rl_classify_def) linarith

definition before :: "rl_entry \<Rightarrow> int \<Rightarrow> bool" where
  "before q s \<longleftrightarrow> rl_end q \<noteq> RL_INFINITY \<and> rl_end q < s"

definition after :: "int \<Rightarrow> rl_entry \<Rightarrow> bool" where
  "after f r \<longleftrightarrow> f \<noteq> RL_INFINITY \<and> f < rl_start r"

lemma rl_classify_NOOVERLAP_iff:
  "rl_classify r s f = Some RL_NOOVERLAP \<longleftrightarrow> before r s \<or> after f r"
  by (simp add: rl_classify_def before_def after_def)

lemma rl_scan_loop_split:
  assumes "post \<noteq> []"
  shows "\<exists>qs r rs c. post = qs @ r # rs \<and> (\<forall>q \<in> set qs. before q s)
    \<and> rl_scan_loop (pre @ post) s f (length pre) = Some (c, length (pre @ qs))
    \<and> rl_classify r s f = Some c \<and> (c = RL_NOOVERLAP \<longrightarrow> after f r \<or> rs = [])"
  using assms
proof (induction post arbitrary: pre)
  case Nil
  then show ?case by simp
next
  case (Cons r rs)
  obtain c where c: "rl_classify r s f = Some c"
    using rl_classify_total by blast
  show ?case
  proof (cases "c = RL_NOOVERLAP \<and> \<not> after f r \<and> rs \<noteq> []")
    case False
    with c have "rl_scan_loop (pre @ r # rs) s f (length pre) = Some (c, length pre)"
      by (subst rl_scan_loop.simps) (auto simp: after_def split: rl_overlaptype.splits)
    with c False show ?thesis
      by (intro exI [of _ "[]"] exI [of _ r] exI [of _ rs] exI [of _ c]) auto
  next
    case True
    with c have b: "before r s"
      using rl_classify_NOOVERLAP_iff by blast
    have "rl_scan_loop (pre @ r # rs) s f (length pre)
        = rl_scan_loop ((pre @ [r]) @ rs) s f (length (pre @ [r]))"
      using True c by (subst rl_scan_loop.simps) (auto simp: after_def)
    moreover from Cons.IH [of "pre @ [r]"] True obtain qs r' rs' c' where
      "rs = qs @ r' # rs'" "\<forall>q \<in> set qs. before q s"
      "rl_scan_loop ((pre @ [r]) @ rs) s f (length (pre @ [r])) = Some (c', length ((pre @ [r]) @ qs))"
      "rl_classify r' s f = Some c'" "c' = RL_NOOVERLAP \<longrightarrow> after f r' \<or> rs' = []"
      by blast
    ultimately show ?thesis using b
      by (intro exI [of _ "r # qs"] exI [of _ r'] exI [of _ rs'] exI [of _ c']) auto
  qed
qed

section \<open>Removal against its specification\<close>

text \<open>What is left of one entry once \<open>[s..f]\<close> is taken out of it.\<close>

definition rem1 :: "int \<Rightarrow> int \<Rightarrow> rl_entry \<Rightarrow> rl_head" where
  "rem1 s f r =
    (if before r s \<or> after f r then [r]
     else (if rl_start r < s then [mk_entry (rl_start r) (s - 1)] else [])
        @ (if f \<noteq> RL_INFINITY \<and> (rl_end r = RL_INFINITY \<or> f < rl_end r)
           then [mk_entry (f + 1) (rl_end r)] else []))"

lemma rem1_id [simp]: "before r s \<or> after f r \<Longrightarrow> rem1 s f r = [r]"
  by (simp add: rem1_def)

lemma covers_rem1:
  assumes "entry_ok r" and "range_ok s f"
  shows "rl_ranges (rem1 s f r) = covers r - covers (mk_entry s f)"
  using assms by (auto simp: rem1_def range_defs before_def after_def)

lemma entry_ok_rem1:
  assumes "entry_ok r" and "range_ok s f" and "p \<in> set (rem1 s f r)"
  shows "entry_ok p"
  using assms by (auto simp: rem1_def range_defs before_def after_def split: if_splits)

lemma rem1_within:
  assumes "entry_ok r" and "range_ok s f" and "p \<in> set (rem1 s f r)"
  shows "rl_start r \<le> rl_start p
    \<and> (rl_end r \<noteq> RL_INFINITY \<longrightarrow> rl_end p \<noteq> RL_INFINITY \<and> rl_end p \<le> rl_end r)"
  using assms by (auto simp: rem1_def range_defs before_def after_def split: if_splits)

lemma sorted_rem1:
  assumes "entry_ok r" and "range_ok s f"
  shows "sorted_wrt gap (rem1 s f r)"
  using assms by (auto simp: rem1_def range_defs before_def after_def)

lemma gap_rem1:
  assumes "gap a b" "entry_ok a" "entry_ok b" "range_ok s f"
    and "p \<in> set (rem1 s f a)" "q \<in> set (rem1 s f b)"
  shows "gap p q"
  using rem1_within [OF assms(2,4,5)] rem1_within [OF assms(3,4,6)] assms(1)
  by (auto simp: gap_def)

definition rem_list :: "int \<Rightarrow> int \<Rightarrow> rl_head \<Rightarrow> rl_head" where
  "rem_list s f l = concat (map (rem1 s f) l)"

lemma rem_list_simps [simp]:
  "rem_list s f [] = []"
  "rem_list s f (r # rs) = rem1 s f r @ rem_list s f rs"
  "rem_list s f (xs @ ys) = rem_list s f xs @ rem_list s f ys"
  by (simp_all add: rem_list_def)

lemma rem_list_before: "\<forall>q \<in> set qs. before q s \<Longrightarrow> rem_list s f qs = qs"
  by (induction qs) auto

lemma rem_list_after: "\<forall>q \<in> set qs. after f q \<Longrightarrow> rem_list s f qs = qs"
  by (induction qs) auto

lemma rem_list_spec:
  assumes "rl_inv l" and "range_ok s f"
  shows "rl_inv (rem_list s f l) \<and> rl_ranges (rem_list s f l) = rl_ranges l - covers (mk_entry s f)"
  using assms(1)
proof (induction l)
  case Nil
  then show ?case by (simp add: rl_inv_def)
next
  case (Cons r rs)
  then have r: "entry_ok r" and rs: "\<forall>b \<in> set rs. gap r b" "\<forall>b \<in> set rs. entry_ok b"
    and IH: "rl_inv (rem_list s f rs)"
      "rl_ranges (rem_list s f rs) = rl_ranges rs - covers (mk_entry s f)"
    by (auto simp: rl_inv_def)
  have "gap p q" if "p \<in> set (rem1 s f r)" "q \<in> set (rem_list s f rs)" for p q
    using that rs gap_rem1 [OF _ r _ assms(2)] by (auto simp: rem_list_def)
  then show ?case
    using IH r assms(2) covers_rem1 [OF r assms(2)]
    by (auto simp: rl_inv_def sorted_wrt_append sorted_rem1 dest: entry_ok_rem1)
qed

lemma after_tail:
  assumes "rl_inv (r # rs)" and "rl_end r = RL_INFINITY \<or> (f \<noteq> RL_INFINITY \<and> f \<le> rl_end r)"
    and "q \<in> set rs"
  shows "after f q"
  using assms by (auto simp: rl_inv_def gap_def after_def)

lemma rl_classify_cases:
  assumes "rl_classify r s f = Some c" "entry_ok r" "range_ok s f"
  shows "case c of
      RL_NOOVERLAP \<Rightarrow> before r s \<or> after f r
    | RL_MATCHINGOVERLAP \<Rightarrow> rl_start r = s \<and> rl_end r = f \<and> rem1 s f r = []
    | RL_OVERLAPCONTAINSRANGE \<Rightarrow>
        f \<noteq> RL_INFINITY \<and> rl_start r \<le> s \<and> (rl_end r = RL_INFINITY \<or> f \<le> rl_end r)
        \<and> \<not> before r s \<and> \<not> after f r \<and> (rl_start r = s \<longrightarrow> rl_end r \<noteq> f)
    | RL_OVERLAPISCONTAINED \<Rightarrow> rem1 s f r = []
    | RL_OVERLAPSTARTSBEFORE \<Rightarrow>
        rl_start r < s \<and> rem1 s f r = [mk_entry (rl_start r) (s - 1)]
        \<and> (f = RL_INFINITY \<or> rl_end r \<noteq> RL_INFINITY \<and> rl_end r < f)
    | RL_OVERLAPENDSAFTER \<Rightarrow>
        f \<noteq> RL_INFINITY \<and> s < rl_start r \<and> (rl_end r = RL_INFINITY \<or> f < rl_end r)
        \<and> rem1 s f r = [mk_entry (f + 1) (rl_end r)]"
  using assms
  by (auto simp: rl_classify_def rem1_def range_defs before_def after_def
      split: if_splits rl_overlaptype.splits)

lemma wrap64_simps [simp]:
  "range_ok s f \<Longrightarrow> f \<noteq> RL_INFINITY \<Longrightarrow> wrap64 (f + 1) = f + 1"
  "range_ok s f \<Longrightarrow> wrap64 (s - 1) = s - 1"
  by (rule wrap64_id; auto simp: range_ok_def)+

lemma rl_inv_appendD: "rl_inv (xs @ ys) \<Longrightarrow> rl_inv xs \<and> rl_inv ys"
  by (auto simp: rl_inv_def sorted_wrt_append)

lemma rl_end_update_eq: "r\<lparr>rl_end := e\<rparr> = mk_entry (rl_start r) e"
  by (simp add: mk_entry_def)

lemma rl_start_update_eq: "r\<lparr>rl_start := b\<rparr> = mk_entry b (rl_end r)"
  by (simp add: mk_entry_def)

lemmas entry_updates = rl_end_update_eq rl_start_update_eq

lemma rl_remove_loop_eq:
  assumes "rl_inv post" and "range_ok s f" and "post \<noteq> []"
  shows "rl_remove_loop s f (pre @ post) (length pre) = Some (pre @ rem_list s f post)"
  using assms(1,3)
proof (induction "length post" arbitrary: pre post rule: less_induct)
  case less
  obtain qs r rs c where post: "post = qs @ r # rs" and qs: "\<forall>q \<in> set qs. before q s"
    and scan: "rl_scan_loop (pre @ post) s f (length pre) = Some (c, length (pre @ qs))"
    and c: "rl_classify r s f = Some c" "c = RL_NOOVERLAP \<longrightarrow> after f r \<or> rs = []"
    using rl_scan_loop_split [OF less.prems(2)] by blast
  have inv: "rl_inv (r # rs)" "entry_ok r"
    using less.prems(1) by (auto simp: post rl_inv_def sorted_wrt_append)
  have rs: "rl_inv rs"
    using inv by (auto simp: rl_inv_def)
  have tail: "rem_list s f rs = rs"
    if "rl_end r = RL_INFINITY \<or> (f \<noteq> RL_INFINITY \<and> f \<le> rl_end r)"
    using after_tail [OF inv(1) that] by (simp add: rem_list_after)
  have tail': "rem_list s f rs = rs" if "after f r"
    using that inv(1) by (intro rem_list_after) (auto simp: rl_inv_def gap_def after_def range_ok_def)
  obtain ps where ps: "ps = pre @ qs" by blast
  have eq: "pre @ post = ps @ r # rs" "pre @ rem_list s f post = ps @ rem1 s f r @ rem_list s f rs"
    using qs by (simp_all add: post rem_list_before ps)
  have shorter: "length rs < length post" by (simp add: post)
  note IH = less.hyps [OF shorter rs, of ps]
    less.hyps [OF shorter rs, of "ps @ [mk_entry (rl_start r) (s - 1)]"]
  note scan = scan [unfolded eq ps [symmetric]]
  note cls = rl_classify_cases [OF c(1) inv(2) assms(2)]
  show ?case
    unfolding eq
  proof (cases c)
    case RL_NOOVERLAP
    then have "rem1 s f r = [r]" "rem_list s f rs = rs"
      using cls c(2) tail' by auto
    then show "rl_remove_loop s f (ps @ r # rs) (length pre) = Some (ps @ rem1 s f r @ rem_list s f rs)"
      using scan RL_NOOVERLAP by (subst rl_remove_loop.simps) simp
  next
    case RL_MATCHINGOVERLAP
    with cls tail assms(2) have "rem_list s f rs = rs"
      by (auto simp: range_ok_def RL_INFINITY_def)
    with RL_MATCHINGOVERLAP cls
    show "rl_remove_loop s f (ps @ r # rs) (length pre) = Some (ps @ rem1 s f r @ rem_list s f rs)"
      using scan by (subst rl_remove_loop.simps) simp
  next
    case RL_OVERLAPCONTAINSRANGE
    with cls tail have "rem_list s f rs = rs" by auto
    with RL_OVERLAPCONTAINSRANGE cls
    show "rl_remove_loop s f (ps @ r # rs) (length pre) = Some (ps @ rem1 s f r @ rem_list s f rs)"
      using scan assms(2)
      by (subst rl_remove_loop.simps) (auto simp: entry_updates rem1_def Let_def)
  next
    case RL_OVERLAPISCONTAINED
    with cls show "rl_remove_loop s f (ps @ r # rs) (length pre) = Some (ps @ rem1 s f r @ rem_list s f rs)"
      using scan IH(1) by (subst rl_remove_loop.simps) (cases rs; simp)
  next
    case RL_OVERLAPSTARTSBEFORE
    with cls show "rl_remove_loop s f (ps @ r # rs) (length pre) = Some (ps @ rem1 s f r @ rem_list s f rs)"
      using scan IH(2) assms(2)
      by (subst rl_remove_loop.simps) (cases rs; simp add: entry_updates Let_def)
  next
    case RL_OVERLAPENDSAFTER
    with cls tail have "rem_list s f rs = rs" by auto
    with RL_OVERLAPENDSAFTER cls
    show "rl_remove_loop s f (ps @ r # rs) (length pre) = Some (ps @ rem1 s f r @ rem_list s f rs)"
      using scan assms(2) by (subst rl_remove_loop.simps) (auto simp: entry_updates)
  qed
qed

theorem rl_remove_eq:
  assumes "rl_inv l" and "range_ok s f"
  shows "rl_remove s f l = Some (rem_list s f l)"
  using rl_remove_loop_eq [OF assms, of "[]"] by (auto simp: rl_remove_def)

section \<open>Collapsing against its specification\<close>

fun fwd :: "rl_entry \<Rightarrow> rl_head \<Rightarrow> rl_entry \<times> rl_head" where
  "fwd r [] = (r, [])"
| "fwd r (n # ns) =
    (if rl_end r \<noteq> RL_INFINITY \<and> rl_end r < wrap64 (rl_start n - 1) then (r, n # ns)
     else fwd (mk_entry (rl_start r) (rl_end n)) ns)"

fun bwd :: "rl_head \<Rightarrow> rl_entry \<Rightarrow> rl_head \<times> rl_entry" where
  "bwd [] r = ([], r)"
| "bwd (p # ps) r =
    (if rl_end p < wrap64 (rl_start r - 1) then (p # ps, r)
     else bwd ps (mk_entry (rl_start p) (rl_end r)))"

lemma rl_collapse_forwards_eq:
  "rl_collapse_forwards (pre @ r # post) (length pre) = (let (r', post') = fwd r post in pre @ r' # post')"
  by (induction post arbitrary: r)
    (subst rl_collapse_forwards.simps; simp add: nth_append entry_updates Let_def)+

lemma rl_collapse_backwards_eq:
  "rl_collapse_backwards (rev ps @ r # post) (length ps) = (let (ps', r') = bwd ps r in rev ps' @ r' # post)"
proof (induction ps arbitrary: r)
  case Nil
  then show ?case by (subst rl_collapse_backwards.simps) simp
next
  case (Cons p ps)
  have "remove_at (length ps) (rev ps @ p # x # post) = rev ps @ x # post" for x
    using remove_at_append [of "rev ps"] by simp
  with Cons show ?case
    by (subst rl_collapse_backwards.simps)
      (simp add: nth_append list_update_append entry_updates Let_def)
qed

text \<open>Only the first following entry can be merged, when it reaches at least as far.\<close>

lemma fwd_spec:
  assumes "rl_inv ns" "entry_ok r" "\<forall>n \<in> set ns. rl_start r \<le> rl_start n"
    and "\<forall>n \<in> set ns. rl_end r \<noteq> RL_INFINITY \<and> (rl_end n = RL_INFINITY \<or> rl_end r \<le> rl_end n)"
    and "fwd r ns = (r', ns')"
  shows "rl_inv (r' # ns') \<and> rl_start r' = rl_start r
    \<and> covers r' \<union> rl_ranges ns' = covers r \<union> rl_ranges ns"
  using assms
proof (induction ns arbitrary: r)
  case Nil
  then show ?case by (simp add: rl_inv_def)
next
  case (Cons n ns)
  from Cons.prems(1) have n: "entry_ok n" "rl_inv ns" "\<forall>b \<in> set ns. gap n b"
    by (simp_all add: rl_inv_def)
  then have w: "wrap64 (rl_start n - 1) = rl_start n - 1"
    by (intro wrap64_id) (auto simp: range_ok_def)
  show ?case
  proof (cases "rl_end r < rl_start n - 1")
    case True
    with Cons.prems w have "r' = r" "ns' = n # ns" by simp_all
    moreover have "gap r b" if "b \<in> set (n # ns)" for b
      using that True Cons.prems(4) n by (auto simp: gap_def range_ok_def RL_INFINITY_def)
    ultimately show ?thesis
      using Cons.prems by (auto simp: rl_inv_def)
  next
    case False
    let ?m = "mk_entry (rl_start r) (rl_end n)"
    have m: "entry_ok ?m" and cov: "covers ?m = covers r \<union> covers n"
      using False Cons.prems n by (auto simp: range_defs)
    have "fwd ?m ns = (r', ns')"
      using Cons.prems False w by simp
    moreover have "\<forall>b \<in> set ns. rl_start ?m \<le> rl_start b"
      using Cons.prems by simp
    moreover have "\<forall>b \<in> set ns. rl_end ?m \<noteq> RL_INFINITY \<and> (rl_end b = RL_INFINITY \<or> rl_end ?m \<le> rl_end b)"
      using n Cons.prems(1) by (force simp: gap_def range_ok_def rl_inv_def)
    ultimately show ?thesis
      using Cons.IH [OF n(2) m] cov by auto
  qed
qed

lemma bwd_spec:
  assumes "rl_inv (rev ps)" "entry_ok r" "\<forall>p \<in> set ps. before p (rl_start r)"
    and "bwd ps r = (ps', r')"
  shows "rl_inv (rev ps' @ [r']) \<and> rl_end r' = rl_end r \<and> rl_start r' \<le> rl_start r
    \<and> rl_ranges ps' \<union> covers r' = rl_ranges ps \<union> covers r"
  using assms
proof (induction ps arbitrary: r)
  case Nil
  then show ?case by (simp add: rl_inv_def)
next
  case (Cons p ps)
  from Cons.prems(1,3)
  have p: "entry_ok p" "rl_inv (rev ps)" "\<forall>b \<in> set ps. gap b p" "before p (rl_start r)"
    by (simp_all add: rl_inv_def sorted_wrt_append)
  have w: "wrap64 (rl_start r - 1) = rl_start r - 1"
    using Cons.prems(2) by (intro wrap64_id) (auto simp: range_ok_def)
  show ?case
  proof (cases "rl_end p < rl_start r - 1")
    case True
    with Cons.prems w have "ps' = p # ps" "r' = r" by simp_all
    moreover have "gap b r" if "b \<in> set (p # ps)" for b
      using that True Cons.prems p by (auto simp: gap_def before_def range_ok_def RL_INFINITY_def)
    ultimately show ?thesis
      using Cons.prems by (auto simp: rl_inv_def sorted_wrt_append)
  next
    case False
    let ?m = "mk_entry (rl_start p) (rl_end r)"
    have m: "entry_ok ?m" and cov: "covers ?m = covers p \<union> covers r"
      using False Cons.prems(2) p(1,4) by (auto simp: range_defs before_def)
    have "bwd ps ?m = (ps', r')"
      using Cons.prems False w by simp
    moreover have "\<forall>b \<in> set ps. before b (rl_start ?m)"
      using p(3) by (auto simp: gap_def before_def)
    ultimately show ?thesis
      using Cons.IH [OF p(2) m] cov p(1,4) by (auto simp: range_ok_def before_def)
  qed
qed

lemma rl_inv_join:
  assumes "rl_inv (xs @ [r])" "rl_inv (r' # ys)" "rl_end r' = rl_end r" "rl_start r \<le> rl_start r'"
  shows "rl_inv (xs @ r # ys)"
proof -
  have r: "entry_ok r" "\<forall>y \<in> set ys. gap r y"
    using assms by (auto simp: rl_inv_def gap_def sorted_wrt_append)
  moreover have "gap x y" if "x \<in> set xs" "y \<in> set ys" for x y
    using that assms(1) r by (force simp: rl_inv_def sorted_wrt_append gap_def range_ok_def RL_INFINITY_def)
  ultimately show ?thesis
    using assms by (auto simp: rl_inv_def sorted_wrt_append)
qed

text \<open>The common shape of every insertion: entries before, the new entry, entries that reach
  at least as far.\<close>

lemma collapse_neighbors_spec:
  assumes "rl_inv qs" "rl_inv rs" "entry_ok r" "\<forall>q \<in> set qs. before q (rl_start r)"
    and "\<forall>n \<in> set rs. rl_start r \<le> rl_start n \<and> rl_end r \<noteq> RL_INFINITY
           \<and> (rl_end n = RL_INFINITY \<or> rl_end r \<le> rl_end n)"
  shows "rl_inv (rl_collapse_neighbors (qs @ r # rs) (length qs))
    \<and> rl_ranges (rl_collapse_neighbors (qs @ r # rs) (length qs))
      = rl_ranges qs \<union> covers r \<union> rl_ranges rs"
proof -
  obtain r1 rs' where f: "fwd r rs = (r1, rs')" by fastforce
  obtain ps r2 where b: "bwd (rev qs) r1 = (ps, r2)" by fastforce
  have F: "rl_inv (r1 # rs')" "rl_start r1 = rl_start r"
    "covers r1 \<union> rl_ranges rs' = covers r \<union> rl_ranges rs"
    using fwd_spec [OF assms(2,3) _ _ f] assms(5) by auto
  then have "entry_ok r1" by (simp add: rl_inv_def)
  with b F(2) assms(1,4) have B: "rl_inv (rev ps @ [r2])" "rl_end r2 = rl_end r1"
    "rl_start r2 \<le> rl_start r1" "rl_ranges ps \<union> covers r2 = rl_ranges qs \<union> covers r1"
    using bwd_spec [of "rev qs" r1 ps r2] by auto
  have l': "rl_collapse_neighbors (qs @ r # rs) (length qs) = rev ps @ r2 # rs'"
    using rl_collapse_forwards_eq [of qs r rs] rl_collapse_backwards_eq [of "rev qs" r1 rs'] f b
    by (simp add: rl_collapse_neighbors_def)
  show ?thesis
    unfolding l' using rl_inv_join [OF B(1) F(1)] B F by auto
qed

section \<open>Adding a range\<close>

text \<open>
  The situations in which \<open>rl_add\<close> keeps the list canonical and complete. Let \<open>o\<close> be the
  first entry that does not lie before the new range: there is no such entry, or \<open>o\<close> overlaps
  the range and every entry behind \<open>o\<close> reaches at least as far as the range does. In the other
  situations the code loses offsets (see the counterexamples in the root theory).
\<close>

definition rl_addable :: "int \<Rightarrow> int \<Rightarrow> rl_head \<Rightarrow> bool" where
  "rl_addable s f l =
    (case dropWhile (\<lambda>q. rl_end q \<noteq> RL_INFINITY \<and> rl_end q < s) l of
       [] \<Rightarrow> True
     | r # rs \<Rightarrow> (f = RL_INFINITY \<or> rl_start r \<le> f)
         \<and> list_all (\<lambda>n. f \<noteq> RL_INFINITY \<and> (rl_end n = RL_INFINITY \<or> f \<le> rl_end n)) rs)"

lemma rl_addable_split:
  assumes "\<forall>q \<in> set qs. before q s"
  shows "rl_addable s f (qs @ r # rs) \<longleftrightarrow>
    (if before r s then rl_addable s f rs
     else (f = RL_INFINITY \<or> rl_start r \<le> f)
       \<and> (\<forall>n \<in> set rs. f \<noteq> RL_INFINITY \<and> (rl_end n = RL_INFINITY \<or> f \<le> rl_end n)))"
  using assms
  by (induction qs) (auto simp: rl_addable_def before_def list_all_iff)

lemma covers_absorb:
  assumes "entry_ok r" "range_ok s f" "rl_classify r s f = Some c"
  shows "c \<in> {RL_MATCHINGOVERLAP, RL_OVERLAPCONTAINSRANGE} \<Longrightarrow> covers (mk_entry s f) \<subseteq> covers r"
    and "c = RL_OVERLAPISCONTAINED \<Longrightarrow> covers r \<subseteq> covers (mk_entry s f)"
    and "c = RL_OVERLAPSTARTSBEFORE \<Longrightarrow>
      covers (mk_entry (rl_start r) f) = covers r \<union> covers (mk_entry s f)
      \<and> rl_start r < s \<and> entry_ok (mk_entry (rl_start r) f)"
    and "c = RL_OVERLAPENDSAFTER \<Longrightarrow>
      covers (mk_entry s (rl_end r)) = covers r \<union> covers (mk_entry s f)
      \<and> s < rl_start r \<and> entry_ok (mk_entry s (rl_end r))"
    and "c = RL_OVERLAPISCONTAINED \<Longrightarrow> s \<le> rl_start r"
  using assms by (auto simp: rl_classify_def range_defs split: if_splits)

lemma rl_scan_split:
  assumes "l \<noteq> []"
  obtains qs r rs c where "l = qs @ r # rs" "\<forall>q \<in> set qs. before q s"
    "rl_scan l s f = Some (c, Some (length qs))" "rl_classify r s f = Some c"
    "c = RL_NOOVERLAP \<longrightarrow> after f r \<or> rs = []"
  using rl_scan_loop_split [OF assms, of s "[]" f] assms
  by (auto simp: rl_scan_def rl_scan_from_def)

lemma rl_add_spec:
  assumes inv: "rl_inv l" and ok: "range_ok s f" and add: "rl_addable s f l"
  shows "\<exists>l'. rl_add s f l = Some l' \<and> rl_inv l' \<and> rl_ranges l' = rl_ranges l \<union> covers (mk_entry s f)"
proof (cases "l = []")
  case True
  then show ?thesis
    using collapse_neighbors_spec [of "[]" "[]" "mk_entry s f"] ok
    by (simp add: rl_add_def rl_scan_def rl_inv_def)
next
  case False
  obtain qs r rs c where l: "l = qs @ r # rs" and qs: "\<forall>q \<in> set qs. before q s"
    and scan: "rl_scan l s f = Some (c, Some (length qs))" "rl_classify r s f = Some c"
    and last: "c = RL_NOOVERLAP \<longrightarrow> after f r \<or> rs = []"
    using rl_scan_split [OF False] .
  have r: "entry_ok r" "rl_inv qs" "rl_inv rs" "rl_inv (r # rs)" "rl_inv (qs @ [r])"
    using inv by (auto simp: l rl_inv_def sorted_wrt_append)
  have rs: "rl_start r \<le> rl_start n" if "n \<in> set rs" for n
    using that r(1,4) by (auto simp: rl_inv_def gap_def range_ok_def RL_INFINITY_def)
  note absorb = covers_absorb [OF r(1) ok scan(2)]
  have apart: "\<not> (before r s \<and> after f r)"
    using r(1) ok by (auto simp: before_def after_def range_ok_def)
  have add': "\<not> before r s \<Longrightarrow> (f = RL_INFINITY \<or> rl_start r \<le> f)
      \<and> (\<forall>n \<in> set rs. f \<noteq> RL_INFINITY \<and> (rl_end n = RL_INFINITY \<or> f \<le> rl_end n))"
    using add by (simp add: l rl_addable_split [OF qs])
  show ?thesis
  proof (cases c)
    case RL_NOOVERLAP
    with scan(2) have "before r s" "rs = []"
      using last apart add' by (auto simp: rl_classify_NOOVERLAP_iff after_def)
    let ?l' = "rl_collapse_neighbors ((qs @ [r]) @ [mk_entry s f]) (length (qs @ [r]))"
    have "rl_add s f l = Some ?l'"
      using RL_NOOVERLAP scan(1) \<open>rs = []\<close> by (simp add: rl_add_def l)
    moreover have "rl_inv ?l' \<and> rl_ranges ?l' = rl_ranges (qs @ [r]) \<union> range_span s f \<union> rl_ranges []"
      using r(5) ok qs \<open>before r s\<close> by (intro collapse_neighbors_spec) (simp_all add: rl_inv_def)
    ultimately show ?thesis
      by (simp add: l \<open>rs = []\<close>)
  next
    case RL_MATCHINGOVERLAP
    then show ?thesis using scan absorb(1) inv by (auto simp: rl_add_def l)
  next
    case RL_OVERLAPCONTAINSRANGE
    then show ?thesis using scan absorb(1) inv by (auto simp: rl_add_def l)
  next
    case RL_OVERLAPISCONTAINED
    then have "\<not> before r s"
      using scan(2) by (auto simp: rl_classify_def before_def split: if_splits)
    note later = add' [OF this]
    let ?l' = "rl_collapse_neighbors (qs @ mk_entry s f # rs) (length qs)"
    have "rl_add s f l = Some ?l'"
      using RL_OVERLAPISCONTAINED scan(1) by (simp add: rl_add_def l)
    moreover have "rl_inv ?l' \<and> rl_ranges ?l' = rl_ranges qs \<union> range_span s f \<union> rl_ranges rs"
    proof (rule collapse_neighbors_spec)
      show "\<forall>n \<in> set rs. rl_start (mk_entry s f) \<le> rl_start n \<and> rl_end (mk_entry s f) \<noteq> RL_INFINITY
          \<and> (rl_end n = RL_INFINITY \<or> rl_end (mk_entry s f) \<le> rl_end n)"
        using later rs absorb(5) [OF RL_OVERLAPISCONTAINED] by fastforce
    qed (use r(2,3) ok qs in simp_all)
    ultimately show ?thesis
      using absorb(2) [OF RL_OVERLAPISCONTAINED] by (auto simp: l)
  next
    case RL_OVERLAPSTARTSBEFORE
    let ?m = "mk_entry (rl_start r) f"
    obtain r1 rs' where fw: "fwd ?m rs = (r1, rs')" by fastforce
    have "\<not> before r s"
      using RL_OVERLAPSTARTSBEFORE scan(2) by (auto simp: rl_classify_def before_def split: if_splits)
    from add' [OF this] rs absorb(3) [OF RL_OVERLAPSTARTSBEFORE]
    have F: "rl_inv (r1 # rs')" "rl_start r1 = rl_start r" "covers r1 \<union> rl_ranges rs' = covers ?m \<union> rl_ranges rs"
      using fwd_spec [OF r(3) _ _ _ fw] by auto
    moreover have "rl_inv (qs @ [r1])"
      using r(5) F by (auto simp: rl_inv_def sorted_wrt_append gap_def)
    ultimately have "rl_inv (qs @ r1 # rs')"
      using rl_inv_join [of qs r1 r1 rs'] by simp
    moreover have "rl_add s f l = Some (qs @ r1 # rs')"
      using scan(1) RL_OVERLAPSTARTSBEFORE rl_collapse_forwards_eq [of qs ?m rs] fw
      by (simp add: rl_add_def l entry_updates)
    ultimately show ?thesis
      using F(3) absorb(3) [OF RL_OVERLAPSTARTSBEFORE] by (auto simp: l)
  next
    case RL_OVERLAPENDSAFTER
    let ?m = "mk_entry s (rl_end r)"
    obtain ps r1 where bw: "bwd (rev qs) ?m = (ps, r1)" by fastforce
    have B: "rl_inv (rev ps @ [r1])" "rl_end r1 = rl_end r" "rl_start r1 \<le> s"
      "rl_ranges ps \<union> covers r1 = rl_ranges qs \<union> covers ?m"
      using bwd_spec [OF _ _ _ bw] r(2) qs absorb(4) [OF RL_OVERLAPENDSAFTER] by auto
    then have "rl_inv (rev ps @ r1 # rs)"
      using rl_inv_join [OF B(1) r(4)] absorb(4) [OF RL_OVERLAPENDSAFTER] by auto
    moreover have "rl_add s f l = Some (rev ps @ r1 # rs)"
      using scan(1) RL_OVERLAPENDSAFTER rl_collapse_backwards_eq [of "rev qs" ?m rs] bw
      by (simp add: rl_add_def l entry_updates)
    ultimately show ?thesis
      using B(4) absorb(4) [OF RL_OVERLAPENDSAFTER] by (auto simp: l)
  qed
qed

section \<open>The interface a file system client uses\<close>

text \<open>
  A store of offset ranges: what \<open>hfs_vnops\<close> relies on when it marks parts of a file invalid
  and valid again. \<open>run\<close> is a client's sequence of calls.
\<close>

datatype range_op = Add int int | Del int int

fun op_args :: "range_op \<Rightarrow> int \<times> int" where
  "op_args (Add s f) = (s, f)"
| "op_args (Del s f) = (s, f)"

locale range_store =
  fixes empty :: 's
    and add :: "int \<Rightarrow> int \<Rightarrow> 's \<Rightarrow> 's option"
    and del :: "int \<Rightarrow> int \<Rightarrow> 's \<Rightarrow> 's option"
    and addable :: "int \<Rightarrow> int \<Rightarrow> 's \<Rightarrow> bool"
    and offsets :: "'s \<Rightarrow> int set"
    and invar :: "'s \<Rightarrow> bool"
    and arg_ok :: "int \<Rightarrow> int \<Rightarrow> bool"
    and span :: "int \<Rightarrow> int \<Rightarrow> int set"
  assumes empty: "invar empty \<and> offsets empty = {}"
    and add: "invar l \<Longrightarrow> arg_ok s f \<Longrightarrow> addable s f l \<Longrightarrow>
      \<exists>l'. add s f l = Some l' \<and> invar l' \<and> offsets l' = offsets l \<union> span s f"
    and del: "invar l \<Longrightarrow> arg_ok s f \<Longrightarrow>
      \<exists>l'. del s f l = Some l' \<and> invar l' \<and> offsets l' = offsets l - span s f"
begin

fun run :: "range_op list \<Rightarrow> 's \<Rightarrow> 's option" where
  "run [] l = Some l"
| "run (Add s f # ops) l = Option.bind (add s f l) (run ops)"
| "run (Del s f # ops) l = Option.bind (del s f l) (run ops)"

text \<open>Every range is well formed, and every addition happens where the store supports it.\<close>

fun supported :: "range_op list \<Rightarrow> 's \<Rightarrow> bool" where
  "supported [] l = True"
| "supported (Add s f # ops) l =
    (arg_ok s f \<and> addable s f l \<and> (case add s f l of None \<Rightarrow> False | Some l' \<Rightarrow> supported ops l'))"
| "supported (Del s f # ops) l =
    (arg_ok s f \<and> (case del s f l of None \<Rightarrow> False | Some l' \<Rightarrow> supported ops l'))"

fun effect :: "range_op list \<Rightarrow> int set \<Rightarrow> int set" where
  "effect [] X = X"
| "effect (Add s f # ops) X = effect ops (X \<union> span s f)"
| "effect (Del s f # ops) X = effect ops (X - span s f)"

lemma run_effect:
  "invar l \<Longrightarrow> supported ops l \<Longrightarrow>
    \<exists>l'. run ops l = Some l' \<and> invar l' \<and> offsets l' = effect ops (offsets l)"
proof (induction ops l rule: run.induct)
  case (1 l)
  then show ?case by simp
next
  case (2 s f ops l)
  then obtain l' where l': "add s f l = Some l'" "invar l'" "offsets l' = offsets l \<union> span s f"
    using add by fastforce
  with 2 show ?case by auto
next
  case (3 s f ops l)
  then obtain l' where l': "del s f l = Some l'" "invar l'" "offsets l' = offsets l - span s f"
    using del by fastforce
  with 3 show ?case by auto
qed

end

lemma rl_remove_spec:
  assumes "rl_inv l" and "range_ok s f"
  shows "\<exists>l'. rl_remove s f l = Some l' \<and> rl_inv l' \<and> rl_ranges l' = rl_ranges l - range_span s f"
  using rl_remove_eq [OF assms] rem_list_spec [OF assms] by simp

interpretation rls: range_store rl_init rl_add rl_remove rl_addable rl_ranges rl_inv range_ok range_span
  by unfold_locales (use rl_add_spec rl_remove_spec in \<open>auto simp: rl_init_def rl_inv_def\<close>)

section \<open>Properties\<close>

lemma rl_classify_disjoint:
  assumes "entry_ok r" "range_ok s f"
  shows "rl_classify r s f = Some RL_NOOVERLAP \<longleftrightarrow> covers r \<inter> range_span s f = {}"
proof
  assume "covers r \<inter> range_span s f = {}"
  then have "max (rl_start r) s \<notin> covers r \<inter> range_span s f" by simp
  with assms show "rl_classify r s f = Some RL_NOOVERLAP"
    by (auto simp: rl_classify_NOOVERLAP_iff before_def after_def range_defs max_def split: if_splits)
qed (use assms in \<open>auto simp: rl_classify_NOOVERLAP_iff before_def after_def range_defs\<close>)

text \<open>C1: removing a range from a canonical range list succeeds, leaves a canonical list, and
  takes exactly the offsets of the range out of the covered set, for every overlap case,
  bounded or up to \<open>RL_INFINITY\<close>.\<close>

theorem rl_remove_correct:
  assumes "rl_inv l" and "range_ok s f"
  shows "\<exists>l'. rl_remove s f l = Some l' \<and> rl_inv l' \<and> rl_ranges l' = rl_ranges l - range_span s f"
  by (rule rls.del [OF assms])

theorem rl_remove_correct_witness:
  "\<exists>l'. rl_remove 5 15 [mk_entry 0 10, mk_entry 12 20] = Some l' \<and> rl_inv l'
    \<and> rl_ranges l' = rl_ranges [mk_entry 0 10, mk_entry 12 20] - range_span 5 15"
  by (rule rl_remove_correct) (simp_all add: rl_inv_def gap_def range_ok_def RL_INFINITY_def)

text \<open>C2: adding a range to a canonical range list in one of the supported situations succeeds,
  merges touching entries into a canonical list, and adds exactly the offsets of the range.\<close>

theorem rl_add_correct:
  assumes "rl_inv l" and "range_ok s f" and "rl_addable s f l"
  shows "\<exists>l'. rl_add s f l = Some l' \<and> rl_inv l' \<and> rl_ranges l' = rl_ranges l \<union> range_span s f"
  by (rule rls.add [OF assms])

theorem rl_add_correct_witness:
  "\<exists>l'. rl_add 11 25 [mk_entry 0 10, mk_entry 20 30] = Some l' \<and> rl_inv l'
    \<and> rl_ranges l' = rl_ranges [mk_entry 0 10, mk_entry 20 30] \<union> range_span 11 25"
  by (rule rl_add_correct)
    (simp_all add: rl_inv_def gap_def range_ok_def RL_INFINITY_def rl_addable_def)

text \<open>\<open>rl_scan\<close> on a canonical non-empty list always returns, reports no overlap exactly
  when the range is disjoint from the covered offsets, and otherwise points at the first entry
  that overlaps the range.\<close>

theorem rl_scan_correct:
  assumes "rl_inv l" and "range_ok s f" and "l \<noteq> []"
  shows "\<exists>c i. rl_scan l s f = Some (c, Some i) \<and> i < length l
    \<and> (c = RL_NOOVERLAP \<longleftrightarrow> rl_ranges l \<inter> range_span s f = {})
    \<and> (c \<noteq> RL_NOOVERLAP \<longrightarrow> covers (l ! i) \<inter> range_span s f \<noteq> {}
         \<and> rl_ranges (take i l) \<inter> range_span s f = {})"
proof -
  obtain qs r rs c where l: "l = qs @ r # rs" and qs: "\<forall>q \<in> set qs. before q s"
    and scan: "rl_scan l s f = Some (c, Some (length qs))" "rl_classify r s f = Some c"
    and last: "c = RL_NOOVERLAP \<longrightarrow> after f r \<or> rs = []"
    using rl_scan_split [OF assms(3)] .
  have ok: "entry_ok r" "\<forall>q \<in> set qs. entry_ok q" "\<forall>n \<in> set rs. entry_ok n" "\<forall>n \<in> set rs. gap r n"
    using assms(1) by (auto simp: l rl_inv_def sorted_wrt_append)
  have front: "rl_ranges qs \<inter> range_span s f = {}"
    using qs by (auto simp: rl_ranges_def before_def covers_def)
  have tail: "rl_ranges rs \<inter> range_span s f = {}" if "c = RL_NOOVERLAP"
    using last that ok by (auto simp: rl_ranges_def after_def gap_def range_ok_def covers_def)
  show ?thesis
    using scan(1) front tail rl_classify_disjoint [OF ok(1) assms(2)] scan(2)
    by (intro exI [of _ c] exI [of _ "length qs"]) (auto simp: l)
qed

theorem rl_scan_correct_witness:
  "\<exists>c i. rl_scan [mk_entry 0 10] 5 6 = Some (c, Some i) \<and> i < length [mk_entry 0 10]
    \<and> (c = RL_NOOVERLAP \<longleftrightarrow> rl_ranges [mk_entry 0 10] \<inter> range_span 5 6 = {})
    \<and> (c \<noteq> RL_NOOVERLAP \<longrightarrow> covers ([mk_entry 0 10] ! i) \<inter> range_span 5 6 \<noteq> {}
         \<and> rl_ranges (take i [mk_entry 0 10]) \<inter> range_span 5 6 = {})"
  by (rule rl_scan_correct) (simp_all add: rl_inv_def range_ok_def RL_INFINITY_def)

text \<open>Outside the supported situations \<open>rl_add\<close> loses offsets: a range in front of an
  existing entry is linked behind it and merged into an entry that ends before it starts, and a
  range over two entries shrinks to the end of the second one.\<close>

theorem rl_add_loses_offsets:
  "rl_add 50 60 [mk_entry 0 10, mk_entry 100 200] = Some [mk_entry 0 10, mk_entry 100 60]
    \<and> rl_add 0 100 [mk_entry 5 6, mk_entry 10 20] = Some [mk_entry 0 20]"
  by (simp_all add: rl_add_def rl_scan_def rl_scan_from_def rl_scan_loop.simps rl_classify_def
      RL_INFINITY_def rl_collapse_neighbors_def rl_collapse_forwards.simps
      rl_collapse_backwards.simps insert_after_def remove_at_def entry_updates)

end
