(* ===== verification/Lockf.thy ===== *)
theory Lockf
  imports Rangelist
begin

text \<open>
  Advisory byte-range locks, \<^verbatim>\<open>kern/kern_lockf.c\<close>. The chain of \<^verbatim>\<open>struct lockf\<close> that hangs off a
  vnode becomes the list of the locks in chain order. The code walks the chain with a pointer to a link
  (\<^verbatim>\<open>prev\<close>) and a pointer to the lock behind that link (\<^verbatim>\<open>overlap\<close>, \<^verbatim>\<open>block\<close>); both are one position
  here. A lock structure keeps its identity in \<open>lf_addr\<close>, which is how waiting requests are named.
  \<open>None\<close> as a result is a state the C code cannot come back from: the panic in \<open>lf_findoverlap\<close> or a
  chain that has become circular. The arithmetic on offsets wraps at 64 bits.
\<close>

section \<open>Data\<close>

abbreviation "F_RDLCK \<equiv> 1 :: int"
abbreviation "F_UNLCK \<equiv> 2 :: int"
abbreviation "F_WRLCK \<equiv> 3 :: int"
abbreviation "F_GETLK \<equiv> 7 :: int"
abbreviation "F_SETLK \<equiv> 8 :: int"
abbreviation "F_WAIT \<equiv> 0x010 :: u16"
abbreviation "F_FLOCK \<equiv> 0x020 :: u16"
abbreviation "F_POSIX \<equiv> 0x040 :: u16"
abbreviation "SEEK_SET \<equiv> 0 :: int"
abbreviation "SEEK_CUR \<equiv> 1 :: int"
abbreviation "SEEK_END \<equiv> 2 :: int"

record lockf =
  lf_flags :: u16
  lf_type :: int
  lf_start :: int
  lf_end :: int             \<comment> \<open>\<open>-1\<close> is the end of the file, wherever it will be\<close>
  lf_id :: nat
  lf_addr :: nat
  lf_blkhd :: "nat list"    \<comment> \<open>the requests that wait for this lock\<close>

datatype overlap_t =
    OVERLAP_NONE
  | OVERLAP_EQUALS_LOCK
  | OVERLAP_CONTAINS_LOCK
  | OVERLAP_CONTAINED_BY_LOCK
  | OVERLAP_STARTS_BEFORE_LOCK
  | OVERLAP_ENDS_AFTER_LOCK

datatype lf_check = SELF | OTHERS

datatype lf_errno = EAGAIN | EDEADLK | ENOLCK | EINVAL | EOVERFLOW | Errno int

definition MAXDEPTH :: nat where "MAXDEPTH = 50"
definition OFF_MAX :: int where "OFF_MAX = 0x7fffffffffffffff"

section \<open>Finding overlaps\<close>

text \<open>The tests on one lock, in order; \<open>None\<close> is the panic behind them.\<close>

definition lf_overlap :: "lockf \<Rightarrow> lockf \<Rightarrow> overlap_t option" where
  "lf_overlap lf lock =
    (let start = lf_start lock; fin = lf_end lock
     in if (lf_end lf \<noteq> -1 \<and> start > lf_end lf) \<or> (fin \<noteq> -1 \<and> lf_start lf > fin) then Some OVERLAP_NONE
        else if lf_start lf = start \<and> lf_end lf = fin then Some OVERLAP_EQUALS_LOCK
        else if lf_start lf \<le> start \<and> fin \<noteq> -1 \<and> (lf_end lf \<ge> fin \<or> lf_end lf = -1)
          then Some OVERLAP_CONTAINS_LOCK
        else if start \<le> lf_start lf \<and> (fin = -1 \<or> (lf_end lf \<noteq> -1 \<and> fin \<ge> lf_end lf))
          then Some OVERLAP_CONTAINED_BY_LOCK
        else if lf_start lf < start \<and> (lf_end lf \<ge> start \<or> lf_end lf = -1)
          then Some OVERLAP_STARTS_BEFORE_LOCK
        else if lf_start lf > start \<and> fin \<noteq> -1 \<and> (lf_end lf > fin \<or> lf_end lf = -1)
          then Some OVERLAP_ENDS_AFTER_LOCK
        else None)"

definition lf_skips :: "lf_check \<Rightarrow> lockf \<Rightarrow> lockf \<Rightarrow> bool" where
  "lf_skips check lf lock =
    ((check = SELF \<and> lf_id lf \<noteq> lf_id lock) \<or> (check = OTHERS \<and> lf_id lf = lf_id lock))"

text \<open>The search from position \<open>i\<close>: the case, and the position the pointers are left at.\<close>

function lf_findoverlap :: "lockf list \<Rightarrow> lockf \<Rightarrow> lf_check \<Rightarrow> nat \<Rightarrow> (overlap_t \<times> nat) option" where
  "lf_findoverlap l lock check i =
    (if i < length l then
       (if lf_skips check (l ! i) lock then lf_findoverlap l lock check (Suc i)
        else case lf_overlap (l ! i) lock of
          None \<Rightarrow> None
        | Some OVERLAP_NONE \<Rightarrow>
            (if check = SELF \<and> lf_end lock \<noteq> -1 \<and> lf_start (l ! i) > lf_end lock
             then Some (OVERLAP_NONE, i)
             else lf_findoverlap l lock check (Suc i))
        | Some c \<Rightarrow> Some (c, i))
     else Some (OVERLAP_NONE, i))"
  by pat_completeness auto
termination
  by (relation "measure (\<lambda>(l, lock, check, i). length l - i)") auto

declare lf_findoverlap.simps [simp del]

lemma lf_findoverlap_index:
  "lf_findoverlap l lock check i = Some (c, j) \<Longrightarrow> i \<le> length l \<Longrightarrow>
    i \<le> j \<and> j \<le> length l \<and> (c \<noteq> OVERLAP_NONE \<longrightarrow> j < length l)"
proof (induction l lock check i rule: lf_findoverlap.induct)
  case (1 l lock check i)
  then show ?case
    by (subst (asm) (3) lf_findoverlap.simps)
      (fastforce split: if_splits option.splits overlap_t.splits)
qed

function lf_getblock :: "lockf list \<Rightarrow> lockf \<Rightarrow> nat \<Rightarrow> nat option option" where
  "lf_getblock l lock i =
    (if i \<le> length l then
       (case lf_findoverlap l lock OTHERS i of
          None \<Rightarrow> None
        | Some (c, j) \<Rightarrow>
            if c = OVERLAP_NONE then Some None
            else if lf_type lock = F_WRLCK \<or> lf_type (l ! j) = F_WRLCK then Some (Some j)
            else lf_getblock l lock (Suc j))
     else None)"
  by pat_completeness auto
termination
  by (relation "measure (\<lambda>(l, lock, i). Suc (length l) - i)") (auto dest!: lf_findoverlap_index)

declare lf_getblock.simps [simp del]

section \<open>Splitting, waking and clearing\<close>

text \<open>\<open>lf_wakelock\<close> empties the list of waiting requests; the second component are the requests
  woken. \<open>lf_split\<close> cuts the lock at position \<open>j\<close> around \<open>lock2\<close>: the new chain and the position of
  \<open>lock2\<close> in it, \<open>None\<close> for the branch that does not link it; the outer \<open>None\<close> is \<^verbatim>\<open>ENOLCK\<close>. \<open>mem\<close>
  is the address of the structure \<^verbatim>\<open>MALLOC\<close> returns, if it does.\<close>

definition lf_wakelock :: "lockf \<Rightarrow> lockf \<times> nat list" where
  "lf_wakelock listhead = (listhead\<lparr>lf_blkhd := []\<rparr>, lf_blkhd listhead)"

definition lf_split :: "nat option \<Rightarrow> lockf list \<Rightarrow> nat \<Rightarrow> lockf \<Rightarrow> (lockf list \<times> nat option) option" where
  "lf_split mem l j lock2 =
    (let lock1 = l ! j
     in if lf_start lock1 = lf_start lock2
        then Some (l[j := lock1\<lparr>lf_start := wrap64 (lf_end lock2 + 1)\<rparr>], None)
        else if lf_end lock1 = lf_end lock2
        then Some (insert_after j lock2 (l[j := lock1\<lparr>lf_end := wrap64 (lf_start lock2 - 1)\<rparr>]), Some (Suc j))
        else case mem of
          None \<Rightarrow> None
        | Some a \<Rightarrow>
            (let splitlock = lock1\<lparr>lf_start := wrap64 (lf_end lock2 + 1), lf_blkhd := [], lf_addr := a\<rparr>
             in Some (insert_after j lock2 (insert_after j splitlock
                        (l[j := lock1\<lparr>lf_end := wrap64 (lf_start lock2 - 1)\<rparr>])), Some (Suc j))))"

type_synonym lf_result = "(lf_errno option \<times> lockf list \<times> nat list) option"

text \<open>The loop of \<open>lf_clearlock\<close> from position \<open>i\<close>, with the requests woken so far.\<close>

function clear_loop :: "nat option \<Rightarrow> lockf \<Rightarrow> lockf list \<Rightarrow> nat \<Rightarrow> nat list \<Rightarrow> lf_result" where
  "clear_loop mem unlock l i w =
    (if i \<le> length l then
       (case lf_findoverlap l unlock SELF i of
          None \<Rightarrow> None
        | Some (OVERLAP_NONE, j) \<Rightarrow> Some (None, l, w)
        | Some (c, j) \<Rightarrow>
            (let (ov, woken) = lf_wakelock (l ! j); l = l[j := ov]; w = w @ woken
             in case c of
                  OVERLAP_NONE \<Rightarrow> None
                | OVERLAP_EQUALS_LOCK \<Rightarrow> Some (None, remove_at j l, w)
                | OVERLAP_CONTAINS_LOCK \<Rightarrow>
                    if lf_start ov = lf_start unlock
                    then Some (None, l[j := ov\<lparr>lf_start := wrap64 (lf_end unlock + 1)\<rparr>], w)
                    else (case lf_split mem l j unlock of
                            None \<Rightarrow> Some (Some ENOLCK, l, w)
                          | Some (l', None) \<Rightarrow> None
                          | Some (l', Some p) \<Rightarrow> Some (None, remove_at p l', w))
                | OVERLAP_CONTAINED_BY_LOCK \<Rightarrow> clear_loop mem unlock (remove_at j l) j w
                | OVERLAP_STARTS_BEFORE_LOCK \<Rightarrow>
                    clear_loop mem unlock (l[j := ov\<lparr>lf_end := wrap64 (lf_start unlock - 1)\<rparr>]) (Suc j) w
                | OVERLAP_ENDS_AFTER_LOCK \<Rightarrow>
                    Some (None, l[j := ov\<lparr>lf_start := wrap64 (lf_end unlock + 1)\<rparr>], w)))
     else None)"
  by pat_completeness auto
termination
  by (relation "measure (\<lambda>(mem, unlock, l, i, w). Suc (length l) - i)")
    (auto simp: remove_at_def dest!: lf_findoverlap_index)

declare clear_loop.simps [simp del]

definition lf_clearlock :: "nat option \<Rightarrow> lockf \<Rightarrow> lockf list \<Rightarrow> lf_result" where
  "lf_clearlock mem unlock l = (if l = [] then Some (None, [], []) else clear_loop mem unlock l 0 [])"

section \<open>Setting a lock\<close>

text \<open>\<open>lf_coelesce_adjacent\<close> for the lock at position \<open>p\<close>, from the link at position \<open>i\<close> on.
  \<^verbatim>\<open>*lf = lock\<close> makes the link at \<open>i\<close> point to the lock, so what lies between is no longer in the
  chain; \<^verbatim>\<open>lock->lf_next = (*lf)->lf_next\<close> does the same behind the lock. In the wrong order either
  makes the chain circular.\<close>

function lf_coelesce_adjacent :: "lockf list \<Rightarrow> nat \<Rightarrow> nat \<Rightarrow> lockf list option" where
  "lf_coelesce_adjacent l p i =
    (if i < length l then
       (let lock = l ! p; lf = l ! i
        in if i = p \<or> lf_id lf \<noteq> lf_id lock \<or> lf_type lf \<noteq> lf_type lock
           then lf_coelesce_adjacent l p (Suc i)
           else if lf_end lf \<noteq> -1 \<and> wrap64 (lf_end lf + 1) = lf_start lock
           then (if i < p
                 then lf_coelesce_adjacent
                        (take i l @ lock\<lparr>lf_start := lf_start lf\<rparr> # drop (Suc p) l) i (Suc i)
                 else None)
           else if lf_end lock \<noteq> -1 \<and> wrap64 (lf_end lock + 1) = lf_start lf
           then (if p < i
                 then lf_coelesce_adjacent
                        (take p l @ lock\<lparr>lf_end := lf_end lf\<rparr> # drop (Suc i) l) p (Suc p)
                 else None)
           else lf_coelesce_adjacent l p (Suc i))
     else Some l)"
  by pat_completeness auto
termination
  by (relation "measure (\<lambda>(l, p, i). length l - i)") auto

declare lf_coelesce_adjacent.simps [simp del]

text \<open>The second half of \<open>lf_setlock\<close>, once nothing blocks the request. \<open>linked\<close> is the position of the
  lock in the chain (\<^verbatim>\<open>needtolink\<close> is its absence); the result is the chain, the position of the lock
  that stands for the request, and the requests woken. \<open>None\<close> when the lock would be linked twice.\<close>

function setlock_loop ::
  "nat option \<Rightarrow> lockf \<Rightarrow> lockf list \<Rightarrow> nat option \<Rightarrow> nat \<Rightarrow> nat list
    \<Rightarrow> (lf_errno option \<times> lockf list \<times> nat \<times> nat list) option" where
  "setlock_loop mem lock l linked i w =
    (if i \<le> length l then
       (case lf_findoverlap l lock SELF i of
          None \<Rightarrow> None
        | Some (c, j) \<Rightarrow>
            (case c of
               OVERLAP_NONE \<Rightarrow>
                 (case linked of
                    None \<Rightarrow> Some (None, take j l @ lock # drop j l, j, w)
                  | Some p \<Rightarrow> Some (None, l, p, w))
             | OVERLAP_EQUALS_LOCK \<Rightarrow>
                 (if linked \<noteq> None then None
                  else
                    let (ov, woken) = (if lf_type lock = F_RDLCK \<and> lf_type (l ! j) = F_WRLCK
                                       then lf_wakelock (l ! j) else (l ! j, []))
                    in Some (None, l[j := ov\<lparr>lf_type := lf_type lock\<rparr>], j, w @ woken))
             | OVERLAP_CONTAINS_LOCK \<Rightarrow>
                 (if linked \<noteq> None then None
                  else if lf_type (l ! j) = lf_type lock then Some (None, l, j, w)
                  else if lf_start (l ! j) = lf_start lock
                  then (let (ov, woken) = lf_wakelock (l ! j)
                        in Some (None, take j l @ lock # ov\<lparr>lf_start := wrap64 (lf_end lock + 1)\<rparr> # drop (Suc j) l,
                                 j, w @ woken))
                  else (case lf_split mem l j lock of
                          None \<Rightarrow> Some (Some ENOLCK, l, j, w)
                        | Some (l', None) \<Rightarrow> None
                        | Some (l', Some p) \<Rightarrow>
                            (let (ov, woken) = lf_wakelock (l' ! j)
                             in Some (None, l'[j := ov], p, w @ woken))))
             | OVERLAP_CONTAINED_BY_LOCK \<Rightarrow>
                 (let down = (lf_type lock = F_RDLCK \<and> lf_type (l ! j) = F_WRLCK);
                      woken = (if down then lf_blkhd (l ! j) else []);
                      taken = (if down then [] else lf_blkhd (l ! j))
                  in case linked of
                       None \<Rightarrow>
                         setlock_loop mem lock (l[j := lock\<lparr>lf_blkhd := lf_blkhd lock @ taken\<rparr>])
                           (Some j) (Suc j) (w @ woken)
                     | Some p \<Rightarrow>
                         setlock_loop mem lock
                           (remove_at j (l[p := (l ! p)\<lparr>lf_blkhd := lf_blkhd (l ! p) @ taken\<rparr>]))
                           (Some p) j (w @ woken))
             | OVERLAP_STARTS_BEFORE_LOCK \<Rightarrow>
                 (if linked \<noteq> None then None
                  else
                    let (ov, woken) = lf_wakelock (l ! j)
                    in setlock_loop mem lock
                         (insert_after j lock (l[j := ov\<lparr>lf_end := wrap64 (lf_start lock - 1)\<rparr>]))
                         (Some (Suc j)) (Suc (Suc j)) (w @ woken))
             | OVERLAP_ENDS_AFTER_LOCK \<Rightarrow>
                 (let (ov, woken) = lf_wakelock (l ! j);
                      ov = ov\<lparr>lf_start := wrap64 (lf_end lock + 1)\<rparr>
                  in case linked of
                       None \<Rightarrow> Some (None, take j l @ lock # ov # drop (Suc j) l, j, w @ woken)
                     | Some p \<Rightarrow> Some (None, l[j := ov], p, w @ woken))))
     else None)"
  by pat_completeness auto
termination
  by (relation "measure (\<lambda>(mem, lock, l, linked, i, w). Suc (length l) - i)")
    (auto simp: remove_at_def insert_after_def dest!: lf_findoverlap_index)

declare setlock_loop.simps [simp del]

text \<open>The scan for a deadlock over the threads of the blocking process. A thread that sleeps in this
  code is \<open>Some\<close> of what its request waits for: the flags and owner of that lock, \<open>None\<close> for a NULL
  \<^verbatim>\<open>lf_next\<close>. The inner loop looks at the same thread again and again; the counter \<open>n\<close> is shared.\<close>

function wait_loop :: "nat \<Rightarrow> nat \<Rightarrow> (u16 \<times> nat) option option \<Rightarrow> nat \<times> bool" where
  "wait_loop me n ut =
    (case ut of
       None \<Rightarrow> (n, False)
     | Some waitblock \<Rightarrow>
         if n < MAXDEPTH then
           (case waitblock of
              None \<Rightarrow> (Suc n, False)
            | Some (flags, owner) \<Rightarrow>
                if flags AND F_POSIX = 0 then (Suc n, False)
                else if owner = me then (Suc n, True)
                else wait_loop me (Suc n) ut)
         else (Suc n, False))"
  by pat_completeness auto
termination
  by (relation "measure (\<lambda>(me, n, ut). MAXDEPTH - n)") auto

declare wait_loop.simps [simp del]

fun lf_deadlock :: "nat \<Rightarrow> nat \<Rightarrow> (u16 \<times> nat) option option list \<Rightarrow> bool" where
  "lf_deadlock me n [] = False"
| "lf_deadlock me n (ut # uts) =
    (case wait_loop me n ut of (n', found) \<Rightarrow> found \<or> lf_deadlock me n' uts)"

datatype lf_outcome =
    Lf_return "lf_errno option" "lockf list" "nat list"
  | Lf_sleep "lockf list" nat "nat list"   \<comment> \<open>asleep, with \<^verbatim>\<open>lf_next\<close> pointing to that lock\<close>

text \<open>One turn of the loop at the top of \<open>lf_setlock\<close>; after a sleep that ends without an error the
  loop is entered again. \<open>threads\<close> are the threads of a process.\<close>

definition lf_setlock ::
  "(nat \<Rightarrow> (u16 \<times> nat) option option list) \<Rightarrow> nat option \<Rightarrow> lockf \<Rightarrow> lockf list \<Rightarrow> lf_outcome option" where
  "lf_setlock threads mem lock l =
    (case lf_getblock l lock 0 of
       None \<Rightarrow> None
     | Some (Some b) \<Rightarrow>
         (let block = l ! b
          in if lf_flags lock AND F_WAIT = 0 then Some (Lf_return (Some EAGAIN) l [])
             else if lf_flags lock AND F_POSIX \<noteq> 0 \<and> lf_flags block AND F_POSIX \<noteq> 0
               \<and> lf_deadlock (lf_id lock) 0 (threads (lf_id block))
             then Some (Lf_return (Some EDEADLK) l [])
             else
               Option.bind
                 (if lf_flags lock AND F_FLOCK \<noteq> 0 \<and> lf_type lock = F_WRLCK
                  then lf_clearlock mem (lock\<lparr>lf_type := F_UNLCK\<rparr>) l else Some (None, l, []))
                 (\<lambda>(err, l, w).
                   if err \<noteq> None then Some (Lf_return err l w)
                   else Some (Lf_sleep
                          (map (\<lambda>k. if lf_addr k = lf_addr block
                                     then k\<lparr>lf_blkhd := lf_blkhd k @ [lf_addr lock]\<rparr> else k) l)
                          (lf_addr block) w)))
     | Some None \<Rightarrow>
         (case setlock_loop mem lock l None 0 [] of
            None \<Rightarrow> None
          | Some (Some e, l, p, w) \<Rightarrow> Some (Lf_return (Some e) l w)
          | Some (None, l, p, w) \<Rightarrow>
              map_option (\<lambda>l. Lf_return None l w) (lf_coelesce_adjacent l p 0)))"
section \<open>Requests\<close>

record flock =
  l_start :: int
  l_len :: int
  l_pid :: int
  l_type :: int
  l_whence :: int

definition lf_getlock :: "(nat \<Rightarrow> int) \<Rightarrow> lockf \<Rightarrow> flock \<Rightarrow> lockf list \<Rightarrow> flock option" where
  "lf_getlock proc_pid lock fl l =
    map_option (\<lambda>blk.
        case blk of
          None \<Rightarrow> fl\<lparr>l_type := F_UNLCK\<rparr>
        | Some b \<Rightarrow>
            (let block = l ! b
             in fl\<lparr>l_type := lf_type block, l_whence := SEEK_SET, l_start := lf_start block,
                   l_len := (if lf_end block = -1 then 0 else wrap64 (wrap64 (lf_end block - lf_start block) + 1)),
                   l_pid := (if lf_flags block AND F_POSIX \<noteq> 0 then proc_pid (lf_id block) else -1)\<rparr>))
      (lf_getblock l lock 0)"

text \<open>The conversion of a \<^verbatim>\<open>struct flock\<close> into a range. \<open>vnode_size\<close> is what the file system answers:
  an error or the size as an unsigned 64-bit number.\<close>

definition lf_start_of :: "(int + u64) \<Rightarrow> flock \<Rightarrow> lf_errno + int" where
  "lf_start_of vnode_size fl =
    (if l_whence fl = SEEK_SET \<or> l_whence fl = SEEK_CUR then Inr (l_start fl)
     else if l_whence fl = SEEK_END then
       (case vnode_size of
          Inl e \<Rightarrow> Inl (Errno e)
        | Inr sz \<Rightarrow>
            if sz > word_of_int OFF_MAX
              \<or> (l_start fl > 0 \<and> sz > word_of_int (OFF_MAX - l_start fl))
            then Inl EOVERFLOW
            else Inr (sint (sz + word_of_int (l_start fl))))
     else Inl EINVAL)"

definition lf_range_of :: "int \<Rightarrow> flock \<Rightarrow> lf_errno + (int \<times> int)" where
  "lf_range_of start fl =
    (if start < 0 then Inl EINVAL
     else if l_len fl < 0 then
       (if start = 0 then Inl EINVAL
        else if start + l_len fl < 0 then Inl EINVAL
        else Inr (start + l_len fl, start - 1))
     else if l_len fl = 0 then Inr (start, -1)
     else if l_len fl - 1 > OFF_MAX - start then Inl EOVERFLOW
     else Inr (start, start + (l_len fl - 1)))"

text \<open>\<open>lf_advlock\<close>: what happens to the chain, and the \<^verbatim>\<open>struct flock\<close> afterwards. \<open>newlock\<close> is the
  address of the structure allocated for the request, if there is memory.\<close>

definition lf_advlock ::
  "(nat \<Rightarrow> (u16 \<times> nat) option option list) \<Rightarrow> (nat \<Rightarrow> int) \<Rightarrow> (int + u64) \<Rightarrow> nat option \<Rightarrow> nat option
    \<Rightarrow> int \<Rightarrow> nat \<Rightarrow> u16 \<Rightarrow> flock \<Rightarrow> lockf list \<Rightarrow> (lf_outcome \<times> flock) option" where
  "lf_advlock threads proc_pid vnode_size newlock mem op owner flags fl l =
    (if l = [] \<and> op \<noteq> F_SETLK then Some (Lf_return None l [], fl\<lparr>l_type := F_UNLCK\<rparr>)
     else case lf_start_of vnode_size fl of
       Inl e \<Rightarrow> Some (Lf_return (Some e) l [], fl)
     | Inr start \<Rightarrow>
         (case lf_range_of start fl of
            Inl e \<Rightarrow> Some (Lf_return (Some e) l [], fl)
          | Inr (start, fin) \<Rightarrow>
              (case newlock of
                 None \<Rightarrow> Some (Lf_return (Some ENOLCK) l [], fl)
               | Some a \<Rightarrow>
                   (let lock = \<lparr>lf_flags = flags, lf_type = l_type fl, lf_start = start, lf_end = fin,
                               lf_id = owner, lf_addr = a, lf_blkhd = []\<rparr>
                    in if op = F_SETLK then map_option (\<lambda>r. (r, fl)) (lf_setlock threads mem lock l)
                       else if op = F_UNLCK then
                         map_option (\<lambda>(e, l, w). (Lf_return e l w, fl)) (lf_clearlock mem lock l)
                       else if op = F_GETLK then
                         map_option (Pair (Lf_return None l [])) (lf_getlock proc_pid lock fl l)
                       else Some (Lf_return (Some EINVAL) l [], fl)))))"

section \<open>What a chain stands for\<close>

text \<open>The owner, the type and the range of a lock; the offsets it claims. A chain is well formed when
  the locks of each owner are disjoint and in ascending order. Locks of different owners come in any
  order, and may overlap.\<close>

type_synonym claim = "nat \<times> int \<times> rl_entry"

definition ent :: "lockf \<Rightarrow> rl_entry" where
  "ent k = mk_entry (lf_start k) (lf_end k)"

definition core :: "lockf \<Rightarrow> claim" where
  "core k = (lf_id k, lf_type k, ent k)"

definition claims :: "claim list \<Rightarrow> (nat \<times> int \<times> int) set" where
  "claims cs = (\<Union>(i, t, r) \<in> set cs. (\<lambda>x. (i, t, x)) ` covers r)"

definition holds :: "lockf list \<Rightarrow> (nat \<times> int \<times> int) set" where
  "holds l = claims (map core l)"

fun own_order :: "claim \<Rightarrow> claim \<Rightarrow> bool" where
  "own_order (i, t, a) (j, u, b) \<longleftrightarrow> (i = j \<longrightarrow> before a (rl_start b))"

definition claims_wf :: "claim list \<Rightarrow> bool" where
  "claims_wf cs \<longleftrightarrow> (\<forall>(i, t, r) \<in> set cs. entry_ok r) \<and> sorted_wrt own_order cs"

definition lf_wf :: "lockf list \<Rightarrow> bool" where
  "lf_wf l = claims_wf (map core l)"

text \<open>The range \<open>[s..f]\<close> taken away from one owner.\<close>

fun cut :: "nat \<Rightarrow> int \<Rightarrow> int \<Rightarrow> claim \<Rightarrow> claim list" where
  "cut me s f (i, t, r) = (if i = me then map (\<lambda>p. (i, t, p)) (rem1 s f r) else [(i, t, r)])"

definition cuts :: "nat \<Rightarrow> int \<Rightarrow> int \<Rightarrow> claim list \<Rightarrow> claim list" where
  "cuts me s f cs = concat (map (cut me s f) cs)"

lemma cuts_simps [simp]:
  "cuts me s f [] = []"
  "cuts me s f (c # cs) = cut me s f c @ cuts me s f cs"
  "cuts me s f (cs @ ds) = cuts me s f cs @ cuts me s f ds"
  by (simp_all add: cuts_def)

lemma claims_simps [simp]:
  "claims [] = {}"
  "claims ((i, t, r) # cs) = (\<lambda>x. (i, t, x)) ` covers r \<union> claims cs"
  "claims (cs @ ds) = claims cs \<union> claims ds"
  by (auto simp: claims_def)

lemma claims_wf_simps [simp]:
  "claims_wf []"
  "claims_wf ((i, t, r) # cs) \<longleftrightarrow> entry_ok r \<and> (\<forall>c \<in> set cs. own_order (i, t, r) c) \<and> claims_wf cs"
  by (auto simp: claims_wf_def)

lemma claims_wf_append:
  "claims_wf (cs @ ds) \<longleftrightarrow> claims_wf cs \<and> claims_wf ds \<and> (\<forall>c \<in> set cs. \<forall>d \<in> set ds. own_order c d)"
  by (simp add: claims_wf_def sorted_wrt_append ball_Un) blast

lemma core_order [simp]:
  "own_order (core a) (core b) \<longleftrightarrow> (lf_id a = lf_id b \<longrightarrow> before (ent a) (lf_start b))"
  by (simp add: core_def ent_def)

lemma claims_wf_core [simp]:
  "claims_wf (core k # cs) \<longleftrightarrow> entry_ok (ent k) \<and> (\<forall>c \<in> set cs. own_order (core k) c) \<and> claims_wf cs"
  by (cases "core k") (simp add: core_def)

lemma claims_wf_entry: "claims_wf (map core ks) \<Longrightarrow> k \<in> set ks \<Longrightarrow> entry_ok (ent k)"
  by (induction ks) auto

lemma core_sel [simp]: "rl_start (ent k) = lf_start k" "rl_end (ent k) = lf_end k"
  by (simp_all add: ent_def)

lemma core_update [simp]:
  "core (k\<lparr>lf_blkhd := b\<rparr>) = core k"
  "core (k\<lparr>lf_addr := a\<rparr>) = core k"
  "core (k\<lparr>lf_start := s\<rparr>) = (lf_id k, lf_type k, mk_entry s (lf_end k))"
  "core (k\<lparr>lf_end := f\<rparr>) = (lf_id k, lf_type k, mk_entry (lf_start k) f)"
  "core (k\<lparr>lf_type := t\<rparr>) = (lf_id k, t, ent k)"
  by (simp_all add: core_def ent_def)

text \<open>The six cases are those of the range lists, under other names.\<close>

fun ov_of :: "rl_overlaptype \<Rightarrow> overlap_t" where
  "ov_of RL_NOOVERLAP = OVERLAP_NONE"
| "ov_of RL_MATCHINGOVERLAP = OVERLAP_EQUALS_LOCK"
| "ov_of RL_OVERLAPCONTAINSRANGE = OVERLAP_CONTAINS_LOCK"
| "ov_of RL_OVERLAPISCONTAINED = OVERLAP_CONTAINED_BY_LOCK"
| "ov_of RL_OVERLAPSTARTSBEFORE = OVERLAP_STARTS_BEFORE_LOCK"
| "ov_of RL_OVERLAPENDSAFTER = OVERLAP_ENDS_AFTER_LOCK"

lemma lf_overlap_rl:
  "lf_overlap lf lock = map_option ov_of (rl_classify (ent lf) (lf_start lock) (lf_end lock))"
  by (simp add: lf_overlap_def rl_classify_def RL_INFINITY_def Let_def)

lemma lf_overlap_cases:
  assumes "entry_ok (ent k)" "range_ok (lf_start lock) (lf_end lock)"
  obtains c where "lf_overlap k lock = Some (ov_of c)"
    "rl_classify (ent k) (lf_start lock) (lf_end lock) = Some c"
  using rl_classify_total [of "ent k" "lf_start lock" "lf_end lock"] by (auto simp: lf_overlap_rl)

lemma lf_overlap_NONE_iff:
  "lf_overlap k lock = Some OVERLAP_NONE \<longleftrightarrow> before (ent k) (lf_start lock) \<or> after (lf_end lock) (ent k)"
  by (simp add: lf_overlap_def Let_def before_def after_def RL_INFINITY_def)

lemma lf_overlap_total: "lf_overlap k lock \<noteq> None"
  by (simp add: lf_overlap_rl rl_classify_total)

section \<open>What the search finds\<close>

lemma own_after:
  assumes "claims_wf (map core (r # rs))" and "lf_end r = -1 \<or> (f \<noteq> -1 \<and> f \<le> lf_end r) \<or> after f (ent r)"
    and "k \<in> set rs" and "lf_id k = lf_id r"
  shows "after f (ent k)"
proof -
  have "before (ent r) (lf_start k)" "entry_ok (ent r)" using assms(1,3,4) by auto
  with assms(2) show ?thesis
    by (auto simp: before_def after_def RL_INFINITY_def range_ok_def)
qed

lemma findoverlap_self:
  assumes "claims_wf (map core post)"
  shows "\<exists>qs rest c. post = qs @ rest
    \<and> lf_findoverlap (pre @ post) lock SELF (length pre) = Some (c, length pre + length qs)
    \<and> (\<forall>q \<in> set qs. lf_id q = lf_id lock \<longrightarrow> before (ent q) (lf_start lock))
    \<and> (if c = OVERLAP_NONE then \<forall>k \<in> set rest. lf_id k = lf_id lock \<longrightarrow> after (lf_end lock) (ent k)
       else \<exists>r rs. rest = r # rs \<and> lf_id r = lf_id lock \<and> lf_overlap r lock = Some c)"
  using assms
proof (induction post arbitrary: pre)
  case Nil
  then show ?case by (simp add: lf_findoverlap.simps)
next
  case (Cons r rs)
  let ?P = "\<lambda>qs rest c. r # rs = qs @ rest
    \<and> lf_findoverlap (pre @ r # rs) lock SELF (length pre) = Some (c, length pre + length qs)
    \<and> (\<forall>q \<in> set qs. lf_id q = lf_id lock \<longrightarrow> before (ent q) (lf_start lock))
    \<and> (if c = OVERLAP_NONE then \<forall>k \<in> set rest. lf_id k = lf_id lock \<longrightarrow> after (lf_end lock) (ent k)
       else \<exists>r rs. rest = r # rs \<and> lf_id r = lf_id lock \<and> lf_overlap r lock = Some c)"
  have wf: "claims_wf (map core rs)" using Cons.prems by simp
  obtain qs rest c where IH: "rs = qs @ rest"
    "lf_findoverlap ((pre @ [r]) @ rs) lock SELF (length (pre @ [r])) = Some (c, length (pre @ [r]) + length qs)"
    "\<forall>q \<in> set qs. lf_id q = lf_id lock \<longrightarrow> before (ent q) (lf_start lock)"
    "if c = OVERLAP_NONE then \<forall>k \<in> set rest. lf_id k = lf_id lock \<longrightarrow> after (lf_end lock) (ent k)
     else \<exists>r rs. rest = r # rs \<and> lf_id r = lf_id lock \<and> lf_overlap r lock = Some c"
    using Cons.IH [OF wf, of "pre @ [r]"] by blast
  have on: "?P (r # qs) rest c"
    if "lf_findoverlap (pre @ r # rs) lock SELF (length pre) = lf_findoverlap (pre @ r # rs) lock SELF (Suc (length pre))"
      and "lf_id r = lf_id lock \<longrightarrow> before (ent r) (lf_start lock)"
    using that IH by simp
  show ?case
  proof (cases "lf_id r = lf_id lock")
    case False
    then have "lf_findoverlap (pre @ r # rs) lock SELF (length pre) = lf_findoverlap (pre @ r # rs) lock SELF (Suc (length pre))"
      by (subst lf_findoverlap.simps) (simp add: lf_skips_def)
    from on [OF this] False show ?thesis by blast
  next
    case own: True
    obtain c' where c': "lf_overlap r lock = Some c'" using lf_overlap_total by blast
    show ?thesis
    proof (cases "c' = OVERLAP_NONE")
      case False
      with own c' have "lf_findoverlap (pre @ r # rs) lock SELF (length pre) = Some (c', length pre)"
        by (subst lf_findoverlap.simps) (auto simp: lf_skips_def split: overlap_t.splits)
      with own c' False have "?P [] (r # rs) c'" by simp
      then show ?thesis by blast
    next
      case none: True
      show ?thesis
      proof (cases "lf_end lock \<noteq> -1 \<and> lf_start r > lf_end lock")
        case True
        with own c' none have "lf_findoverlap (pre @ r # rs) lock SELF (length pre) = Some (OVERLAP_NONE, length pre)"
          by (subst lf_findoverlap.simps) (simp add: lf_skips_def)
        moreover have "after (lf_end lock) (ent r)" using True by (simp add: after_def RL_INFINITY_def)
        moreover have "after (lf_end lock) (ent k)" if "k \<in> set rs" "lf_id k = lf_id lock" for k
          using own_after [OF Cons.prems _ that(1)] that(2) own calculation(2) by simp
        ultimately have "?P [] (r # rs) OVERLAP_NONE" using own by simp
        then show ?thesis by blast
      next
        case False
        with own c' none have "lf_findoverlap (pre @ r # rs) lock SELF (length pre) = lf_findoverlap (pre @ r # rs) lock SELF (Suc (length pre))"
          by (subst lf_findoverlap.simps) (auto simp: lf_skips_def)
        moreover have "before (ent r) (lf_start lock)"
          using c' none False lf_overlap_NONE_iff [of r lock] by (auto simp: after_def RL_INFINITY_def)
        ultimately show ?thesis using on by blast
      qed
    qed
  qed
qed

section \<open>Clearing a range\<close>

text \<open>Locks in front of the range, and locks behind it, are not touched.\<close>

lemma cut_other: "(lf_id k = me \<longrightarrow> before (ent k) s \<or> after f (ent k)) \<Longrightarrow> cut me s f (core k) = [core k]"
  by (simp add: core_def)

lemma cuts_other:
  "(\<And>k. k \<in> set ks \<Longrightarrow> lf_id k = me \<Longrightarrow> before (ent k) s \<or> after f (ent k)) \<Longrightarrow>
    cuts me s f (map core ks) = map core ks"
  by (induction ks) (simp_all add: cut_other)

lemma cut_own: "lf_id k = me \<Longrightarrow> cut me s f (core k) = map (\<lambda>p. (me, lf_type k, p)) (rem1 s f (ent k))"
  by (simp add: core_def)

text \<open>What each case means for the lock that is found.\<close>

lemma overlap_facts:
  assumes "lf_overlap r lock = Some c" "entry_ok (ent r)" "range_ok s f" and lock: "lf_start lock = s" "lf_end lock = f"
  shows "case c of
      OVERLAP_NONE \<Rightarrow> before (ent r) s \<or> after f (ent r)
    | OVERLAP_EQUALS_LOCK \<Rightarrow> ent r = mk_entry s f \<and> rem1 s f (ent r) = []
    | OVERLAP_CONTAINS_LOCK \<Rightarrow>
        f \<noteq> -1 \<and> lf_start r \<le> s \<and> (lf_end r = -1 \<or> f \<le> lf_end r) \<and> (lf_start r = s \<longrightarrow> lf_end r \<noteq> f)
        \<and> rem1 s f (ent r) = (if lf_start r < s then [mk_entry (lf_start r) (s - 1)] else [])
           @ (if lf_end r \<noteq> f then [mk_entry (f + 1) (lf_end r)] else [])
    | OVERLAP_CONTAINED_BY_LOCK \<Rightarrow> s \<le> lf_start r \<and> rem1 s f (ent r) = []
    | OVERLAP_STARTS_BEFORE_LOCK \<Rightarrow>
        lf_start r < s \<and> (lf_end r = -1 \<or> s \<le> lf_end r) \<and> rem1 s f (ent r) = [mk_entry (lf_start r) (s - 1)]
    | OVERLAP_ENDS_AFTER_LOCK \<Rightarrow>
        f \<noteq> -1 \<and> s < lf_start r \<and> (lf_end r = -1 \<or> f < lf_end r) \<and> rem1 s f (ent r) = [mk_entry (f + 1) (lf_end r)]"
proof -
  obtain k where k: "rl_classify (ent r) s f = Some k" "c = ov_of k"
    using assms(1) lock by (auto simp: lf_overlap_rl)
  have rem: "rem1 s f (ent r) = (if lf_start r < s then [mk_entry (lf_start r) (s - 1)] else [])
      @ (if f \<noteq> -1 \<and> (lf_end r = -1 \<or> f < lf_end r) then [mk_entry (f + 1) (lf_end r)] else [])"
    if "c \<noteq> OVERLAP_NONE"
    using that assms(1) lf_overlap_NONE_iff [of r lock] lock by (auto simp: rem1_def RL_INFINITY_def)
  note facts = rl_classify_cases [OF k(1) assms(2,3)]
  show ?thesis
  proof (cases k)
    case RL_NOOVERLAP
    with facts k(2) show ?thesis by simp
  next
    case RL_MATCHINGOVERLAP
    with facts k(2) show ?thesis by (auto simp: ent_def)
  next
    case RL_OVERLAPCONTAINSRANGE
    with facts k(2) rem show ?thesis by (auto simp: RL_INFINITY_def)
  next
    case RL_OVERLAPISCONTAINED
    with facts k(2) rem show ?thesis by (auto split: if_splits)
  next
    case RL_OVERLAPSTARTSBEFORE
    have "lf_end r = -1 \<or> s \<le> lf_end r"
      using k RL_OVERLAPSTARTSBEFORE by (auto simp: rl_classify_def RL_INFINITY_def split: if_splits)
    with RL_OVERLAPSTARTSBEFORE facts k(2) show ?thesis by simp
  next
    case RL_OVERLAPENDSAFTER
    with facts k(2) show ?thesis by (simp add: RL_INFINITY_def)
  qed
qed

definition splits_lock :: "lockf \<Rightarrow> lockf \<Rightarrow> bool" where
  "splits_lock lock k \<longleftrightarrow> lf_id k = lf_id lock \<and> lf_start k < lf_start lock \<and> lf_end lock \<noteq> -1
    \<and> (lf_end k = -1 \<or> lf_end lock < lf_end k)"

lemma splits_overlap:
  assumes "splits_lock lock k" "range_ok (lf_start lock) (lf_end lock)" "entry_ok (ent k)"
  shows "lf_overlap k lock = Some OVERLAP_CONTAINS_LOCK"
  using assms by (auto simp: splits_lock_def lf_overlap_def range_ok_def RL_INFINITY_def)

text \<open>A lock that has to be split is the first one the search finds, since the locks of the owner are
  disjoint.\<close>

lemma splits_found:
  assumes wf: "claims_wf (map core l)" and ok: "range_ok (lf_start lock) (lf_end lock)"
    and k: "k \<in> set l" "splits_lock lock k"
  shows "\<exists>qs rs. l = qs @ k # rs \<and> lf_findoverlap l lock SELF 0 = Some (OVERLAP_CONTAINS_LOCK, length qs)"
proof -
  have own: "lf_id k = lf_id lock" using k(2) by (simp add: splits_lock_def)
  have meets: "\<not> before (ent k) (lf_start lock)" "\<not> after (lf_end lock) (ent k)"
    using splits_overlap [OF k(2) ok claims_wf_entry [OF wf k(1)]] lf_overlap_NONE_iff [of k lock] by auto
  obtain qs rest c where F: "l = qs @ rest" "lf_findoverlap l lock SELF 0 = Some (c, length qs)"
    "\<forall>q \<in> set qs. lf_id q = lf_id lock \<longrightarrow> before (ent q) (lf_start lock)"
    "if c = OVERLAP_NONE then \<forall>k \<in> set rest. lf_id k = lf_id lock \<longrightarrow> after (lf_end lock) (ent k)
     else \<exists>r rs. rest = r # rs \<and> lf_id r = lf_id lock \<and> lf_overlap r lock = Some c"
    using findoverlap_self [OF wf, of "[]" lock] unfolding append_Nil list.size add_0 by blast
  have "k \<notin> set qs" using F(3) own meets(1) by blast
  with k(1) F(1) have rest: "k \<in> set rest" by simp
  with F(4) own meets(2) have "c \<noteq> OVERLAP_NONE" by auto
  with F(4) obtain r rs where r: "rest = r # rs" "lf_id r = lf_id lock" "lf_overlap r lock = Some c" by auto
  have "k \<notin> set rs"
  proof
    assume "k \<in> set rs"
    then have "before (ent r) (lf_start k)" using wf F(1) r(1,2) own by (simp add: claims_wf_append)
    moreover have "lf_start k < lf_start lock" using k(2) by (simp add: splits_lock_def)
    ultimately have "before (ent r) (lf_start lock)" by (auto simp: before_def)
    with r(3) \<open>c \<noteq> OVERLAP_NONE\<close> show False using lf_overlap_NONE_iff [of r lock] by simp
  qed
  with rest r(1) have "k = r" by simp
  moreover from this have "c = OVERLAP_CONTAINS_LOCK"
    using r(3) splits_overlap [OF k(2) ok claims_wf_entry [OF wf k(1)]] by simp
  ultimately show ?thesis using F(1,2) r(1) by blast
qed

lemma nth_middle_append [simp]: "(pre @ qs @ r # rs) ! (length pre + length qs) = r"
  by (metis append.assoc length_append nth_append_length)

lemma update_middle_append [simp]: "(pre @ qs @ r # rs)[length pre + length qs := x] = pre @ qs @ x # rs"
  by (metis append.assoc length_append list_update_length)

lemma remove_middle_append [simp]: "remove_at (length pre + length qs) (pre @ qs @ r # rs) = pre @ qs @ rs"
  using remove_at_append [of "pre @ qs" r rs] by simp

lemma insert_middle_append [simp]:
  "insert_after (length pre + length qs) z (pre @ qs @ r # rs) = pre @ qs @ r # z # rs"
  using insert_after_append [of "pre @ qs" z r rs] by simp

lemma remove_middle_Suc [simp]:
  "remove_at (Suc (length pre + length qs)) (pre @ qs @ r # z # rs) = pre @ qs @ r # rs"
  using remove_at_append_Suc [of "pre @ qs" r z rs] by simp

lemma remove_after_split [simp]:
  "remove_at (Suc (length pre + length qs)) (pre @ qs @ r # z # y # rs) = pre @ qs @ r # y # rs"
  using remove_at_append_Suc [of "pre @ qs" r z "y # rs"] by simp

text \<open>One turn of the loop on the lock that was found.\<close>

lemma clear_loop_found:
  assumes "lf_findoverlap (pre @ qs @ r # rs) u SELF (length pre) = Some (c, length pre + length qs)"
    and "c \<noteq> OVERLAP_NONE"
  shows "clear_loop mem u (pre @ qs @ r # rs) (length pre) w =
    (let ov = r\<lparr>lf_blkhd := []\<rparr>; w = w @ lf_blkhd r
     in case c of
          OVERLAP_NONE \<Rightarrow> None
        | OVERLAP_EQUALS_LOCK \<Rightarrow> Some (None, pre @ qs @ rs, w)
        | OVERLAP_CONTAINS_LOCK \<Rightarrow>
            if lf_start r = lf_start u
            then Some (None, pre @ qs @ ov\<lparr>lf_start := wrap64 (lf_end u + 1)\<rparr> # rs, w)
            else if lf_end r = lf_end u
            then Some (None, pre @ qs @ ov\<lparr>lf_end := wrap64 (lf_start u - 1)\<rparr> # rs, w)
            else (case mem of
                    None \<Rightarrow> Some (Some ENOLCK, pre @ qs @ ov # rs, w)
                  | Some a \<Rightarrow>
                      Some (None, pre @ qs @ ov\<lparr>lf_end := wrap64 (lf_start u - 1)\<rparr>
                        # ov\<lparr>lf_start := wrap64 (lf_end u + 1), lf_blkhd := [], lf_addr := a\<rparr> # rs, w))
        | OVERLAP_CONTAINED_BY_LOCK \<Rightarrow> clear_loop mem u ((pre @ qs) @ rs) (length (pre @ qs)) w
        | OVERLAP_STARTS_BEFORE_LOCK \<Rightarrow>
            (let pre' = pre @ qs @ [ov\<lparr>lf_end := wrap64 (lf_start u - 1)\<rparr>]
             in clear_loop mem u (pre' @ rs) (length pre') w)
        | OVERLAP_ENDS_AFTER_LOCK \<Rightarrow>
            Some (None, pre @ qs @ ov\<lparr>lf_start := wrap64 (lf_end u + 1)\<rparr> # rs, w))"
  using assms
  by (subst clear_loop.simps)
    (cases c; simp add: lf_wakelock_def lf_split_def Let_def split: option.splits)

lemma clear_loop_spec:
  assumes "claims_wf (map core post)" and ok: "range_ok s f" and u: "lf_start u = s" "lf_end u = f"
  shows "\<exists>e l' w'. clear_loop mem u (pre @ post) (length pre) w = Some (e, l', w')
    \<and> (if e = None then map core l' = map core pre @ cuts (lf_id u) s f (map core post)
       else e = Some ENOLCK \<and> mem = None \<and> map core l' = map core (pre @ post)
         \<and> (\<exists>k \<in> set post. splits_lock u k))"
  using assms(1)
proof (induction "length post" arbitrary: pre post w rule: less_induct)
  case less
  let ?me = "lf_id u"
  obtain qs rest c where F: "post = qs @ rest"
    "lf_findoverlap (pre @ post) u SELF (length pre) = Some (c, length pre + length qs)"
    "\<forall>q \<in> set qs. lf_id q = ?me \<longrightarrow> before (ent q) s"
    "if c = OVERLAP_NONE then \<forall>k \<in> set rest. lf_id k = ?me \<longrightarrow> after f (ent k)
     else \<exists>r rs. rest = r # rs \<and> lf_id r = ?me \<and> lf_overlap r u = Some c"
    using findoverlap_self [OF less.prems, of pre u] u by blast
  have qs: "cuts ?me s f (map core qs) = map core qs" using F(3) by (intro cuts_other) blast
  show ?case
  proof (cases "c = OVERLAP_NONE")
    case True
    then have "cuts ?me s f (map core rest) = map core rest" using F(4) by (intro cuts_other) simp
    with True F(1,2) qs show ?thesis by (subst clear_loop.simps) simp
  next
    case False
    then obtain r rs where r: "rest = r # rs" "lf_id r = ?me" "lf_overlap r u = Some c" using F(4) by auto
    note l = F(1)[unfolded r(1)]
    have wf: "claims_wf (map core (r # rs))" "claims_wf (map core rs)" "entry_ok (ent r)"
      using less.prems l by (simp_all add: claims_wf_append)
    note facts = overlap_facts [OF r(3) wf(3) ok u]
    have tail: "cuts ?me s f (map core rs) = map core rs" if "lf_end r = -1 \<or> f \<noteq> -1 \<and> f \<le> lf_end r"
      using own_after [OF wf(1), of f] that unfolding r(2) by (intro cuts_other) blast
    note cut_r = cut_own [OF r(2), of s f]
    note found = clear_loop_found [OF F(2)[unfolded l] False, of mem w]
    have wrap: "wrap64 (s - 1) = s - 1" "f \<noteq> -1 \<Longrightarrow> wrap64 (f + 1) = f + 1"
      using wrap64_simps [OF ok] by (simp_all add: RL_INFINITY_def)
    have no_split: "\<not> (\<exists>k \<in> set rs. splits_lock u k)" if "s \<le> lf_start r \<or> lf_end r = -1 \<or> s \<le> lf_end r"
    proof
      assume "\<exists>k \<in> set rs. splits_lock u k"
      then obtain k where "k \<in> set rs" "lf_id k = lf_id r" "lf_start k < s"
        using r(2) u by (auto simp: splits_lock_def)
      then have "before (ent r) (lf_start k)" using wf(1) by auto
      with that \<open>lf_start k < s\<close> wf(3) show False by (auto simp: before_def range_ok_def RL_INFINITY_def)
    qed
    show ?thesis
    proof (cases c)
      case OVERLAP_NONE
      with False show ?thesis by simp
    next
      case OVERLAP_EQUALS_LOCK
      with facts have *: "rem1 s f (ent r) = []" "lf_end r = f" by (auto simp: ent_def mk_entry_def)
      with tail have "cuts ?me s f (map core rs) = map core rs" by blast
      with * qs l found OVERLAP_EQUALS_LOCK show ?thesis by (simp add: cut_r)
    next
      case OVERLAP_CONTAINS_LOCK
      with facts have *: "f \<noteq> -1" "lf_start r \<le> s" "lf_end r = -1 \<or> f \<le> lf_end r" "lf_start r = s \<longrightarrow> lf_end r \<noteq> f"
        "rem1 s f (ent r) = (if lf_start r < s then [mk_entry (lf_start r) (s - 1)] else [])
           @ (if lf_end r \<noteq> f then [mk_entry (f + 1) (lf_end r)] else [])" by simp_all
      have t: "cuts ?me s f (map core rs) = map core rs" using tail *(1,3) by blast
      note found = found[unfolded OVERLAP_CONTAINS_LOCK overlap_t.case Let_def u wrap(1) wrap(2) [OF *(1)]]
      consider "lf_start r = s" | "lf_start r < s" "lf_end r = f" | "lf_start r < s" "lf_end r \<noteq> f"
        using *(2) by linarith
      then show ?thesis
      proof cases
        case 1
        with found have "clear_loop mem u (pre @ post) (length pre) w
            = Some (None, pre @ qs @ r\<lparr>lf_blkhd := [], lf_start := f + 1\<rparr> # rs, w @ lf_blkhd r)" using l by simp
        then show ?thesis using 1 * qs l t r(2) by (simp add: cut_r)
      next
        case 2
        with found have "clear_loop mem u (pre @ post) (length pre) w
            = Some (None, pre @ qs @ r\<lparr>lf_blkhd := [], lf_end := s - 1\<rparr> # rs, w @ lf_blkhd r)" using l by simp
        then show ?thesis using 2 *(5) qs l t r(2) by (simp add: cut_r)
      next
        case 3
        show ?thesis
        proof (cases mem)
          case None
          with 3 found have "clear_loop mem u (pre @ post) (length pre) w
            = Some (Some ENOLCK, pre @ qs @ r\<lparr>lf_blkhd := []\<rparr> # rs, w @ lf_blkhd r)" using l by simp
          moreover have "splits_lock u r" using 3 * u r(2) by (auto simp: splits_lock_def)
          ultimately show ?thesis using None l by simp
        next
          case (Some a)
          with 3 found have "clear_loop mem u (pre @ post) (length pre) w
            = Some (None, pre @ qs @ r\<lparr>lf_blkhd := [], lf_end := s - 1\<rparr>
                # r\<lparr>lf_blkhd := [], lf_start := f + 1, lf_blkhd := [], lf_addr := a\<rparr> # rs, w @ lf_blkhd r)" using l by simp
          then show ?thesis using 3 *(5) qs l t r(2) by (simp add: cut_r)
        qed
      qed
    next
      case OVERLAP_CONTAINED_BY_LOCK
      with facts have *: "rem1 s f (ent r) = []" "s \<le> lf_start r" by auto
      have "length rs < length post" using l by simp
      from less.hyps [OF this wf(2), of "pre @ qs" "w @ lf_blkhd r"] obtain e l' w' where
        "clear_loop mem u ((pre @ qs) @ rs) (length (pre @ qs)) (w @ lf_blkhd r) = Some (e, l', w')"
        "if e = None then map core l' = map core (pre @ qs) @ cuts ?me s f (map core rs)
         else e = Some ENOLCK \<and> mem = None \<and> map core l' = map core ((pre @ qs) @ rs)
           \<and> (\<exists>k \<in> set rs. splits_lock u k)" by blast
      with * qs l found OVERLAP_CONTAINED_BY_LOCK no_split show ?thesis by (auto simp: cut_r split: if_splits)
    next
      case OVERLAP_STARTS_BEFORE_LOCK
      with facts have *: "lf_start r < s" "lf_end r = -1 \<or> s \<le> lf_end r"
        "rem1 s f (ent r) = [mk_entry (lf_start r) (s - 1)]" by simp_all
      let ?pre = "pre @ qs @ [r\<lparr>lf_blkhd := [], lf_end := wrap64 (lf_start u - 1)\<rparr>]"
      have "length rs < length post" using l by simp
      from less.hyps [OF this wf(2), of ?pre "w @ lf_blkhd r"] obtain e l' w' where
        "clear_loop mem u (?pre @ rs) (length ?pre) (w @ lf_blkhd r) = Some (e, l', w')"
        "if e = None then map core l' = map core ?pre @ cuts ?me s f (map core rs)
         else e = Some ENOLCK \<and> mem = None \<and> map core l' = map core (?pre @ rs)
           \<and> (\<exists>k \<in> set rs. splits_lock u k)" by blast
      with * qs l found OVERLAP_STARTS_BEFORE_LOCK no_split u wrap r(2) show ?thesis
        by (auto simp: cut_r Let_def core_def split: if_splits)
    next
      case OVERLAP_ENDS_AFTER_LOCK
      with facts have *: "f \<noteq> -1" "lf_end r = -1 \<or> f < lf_end r" "rem1 s f (ent r) = [mk_entry (f + 1) (lf_end r)]"
        by simp_all
      with tail have "cuts ?me s f (map core rs) = map core rs" by auto
      with * qs l found OVERLAP_ENDS_AFTER_LOCK u wrap r(2) show ?thesis by (simp add: cut_r Let_def)
    qed
  qed
qed

text \<open>Cutting removes exactly the offsets of the range from the claims of the owner, and keeps a chain
  well formed.\<close>

abbreviation owned :: "nat \<Rightarrow> int \<Rightarrow> int \<Rightarrow> (nat \<times> int \<times> int) set" where
  "owned me s f \<equiv> {me} \<times> UNIV \<times> range_span s f"

lemma claims_map_pieces: "claims (map (\<lambda>p. (i, t, p)) ps) = (\<lambda>x. (i, t, x)) ` rl_ranges ps"
  by (auto simp: claims_def rl_ranges_def)

lemma claims_cut:
  assumes "entry_ok r" "range_ok s f"
  shows "claims (cut me s f (i, t, r)) = (\<lambda>x. (i, t, x)) ` covers r - owned me s f"
proof (cases "i = me")
  case True
  have "(\<lambda>x. (i, t, x)) ` (covers r - range_span s f) = (\<lambda>x. (i, t, x)) ` covers r - owned me s f"
    using True by blast
  with True covers_rem1 [OF assms] show ?thesis by (simp add: claims_map_pieces)
next
  case False
  then have "(\<lambda>x. (i, t, x)) ` covers r - owned me s f = (\<lambda>x. (i, t, x)) ` covers r" by blast
  with False show ?thesis by simp
qed

lemma claims_cuts:
  assumes "claims_wf cs" "range_ok s f"
  shows "claims (cuts me s f cs) = claims cs - owned me s f"
  using assms(1)
proof (induction cs)
  case (Cons c cs)
  obtain i t r where "c = (i, t, r)" by (cases c)
  with Cons claims_cut [of r s f me i t] assms(2) show ?case by (simp add: Un_Diff)
qed simp

lemma cut_within:
  assumes "q \<in> set (cut me s f (i, t, r))" "entry_ok r" "range_ok s f"
  shows "\<exists>p. q = (i, t, p) \<and> entry_ok p \<and> rl_start r \<le> rl_start p
    \<and> (rl_end r \<noteq> -1 \<longrightarrow> rl_end p \<noteq> -1 \<and> rl_end p \<le> rl_end r)"
  using assms(1) entry_ok_rem1 [OF assms(2,3)] rem1_within [OF assms(2,3)] assms(2)
  by (auto simp: RL_INFINITY_def split: if_splits)

lemma claims_wf_pieces:
  "(\<And>p. p \<in> set ps \<Longrightarrow> entry_ok p) \<Longrightarrow> sorted_wrt gap ps \<Longrightarrow> claims_wf (map (\<lambda>p. (i, t, p)) ps)"
  by (induction ps) (auto simp: gap_def before_def)

lemma cut_wf:
  assumes "entry_ok r" "range_ok s f"
  shows "claims_wf (cut me s f (i, t, r))"
  using claims_wf_pieces [OF entry_ok_rem1 [OF assms] sorted_rem1 [OF assms]] assms(1) by simp

lemma cuts_wf:
  assumes "claims_wf cs" "range_ok s f"
  shows "claims_wf (cuts me s f cs)"
  using assms(1)
proof (induction cs)
  case (Cons c cs)
  obtain i t r where c: "c = (i, t, r)" by (cases c)
  with Cons.prems have r: "entry_ok r" and wf: "claims_wf cs" "\<forall>d \<in> set cs. own_order (i, t, r) d" by auto
  have "own_order p q" if p: "p \<in> set (cut me s f (i, t, r))" and q: "q \<in> set (cuts me s f cs)" for p q
  proof -
    obtain j u b where d: "(j, u, b) \<in> set cs" "q \<in> set (cut me s f (j, u, b))"
      using q by (auto simp: cuts_def)
    then have "entry_ok b" "own_order (i, t, r) (j, u, b)" using wf by (auto simp: claims_wf_def)
    with cut_within [OF p r assms(2)] cut_within [OF d(2) _ assms(2)] show ?thesis
      by (auto simp: before_def RL_INFINITY_def)
  qed
  with Cons.IH [OF wf(1)] cut_wf [OF r assms(2), of me i t] c show ?case
    by (simp add: claims_wf_append)
qed simp

lemma clear_loop_split:
  assumes "claims_wf (map core l)" "range_ok (lf_start u) (lf_end u)" "k \<in> set l" "splits_lock u k"
  shows "\<exists>l' w'. clear_loop None u l 0 w = Some (Some ENOLCK, l', w')"
proof -
  obtain qs rs where l: "l = qs @ k # rs" "lf_findoverlap l u SELF 0 = Some (OVERLAP_CONTAINS_LOCK, length qs)"
    using splits_found [OF assms] by blast
  moreover have "lf_start k \<noteq> lf_start u" "lf_end k \<noteq> lf_end u" using assms(4) by (auto simp: splits_lock_def)
  ultimately show ?thesis
    by (subst clear_loop.simps) (simp add: Let_def lf_wakelock_def lf_split_def)
qed

text \<open>The locks of the others stay as they are, queues included.\<close>

definition others :: "nat \<Rightarrow> lockf list \<Rightarrow> lockf list" where
  "others me l = filter (\<lambda>k. lf_id k \<noteq> me) l"

lemma others_simps [simp]:
  "others me [] = []" "others me (k # l) = (if lf_id k = me then others me l else k # others me l)"
  "others me (l @ l') = others me l @ others me l'"
  by (simp_all add: others_def)

lemma clear_loop_others:
  assumes "claims_wf (map core post)" "clear_loop mem u (pre @ post) (length pre) w = Some (e, l', w')"
  shows "others (lf_id u) l' = others (lf_id u) (pre @ post)"
  using assms
proof (induction "length post" arbitrary: pre post w rule: less_induct)
  case less
  obtain qs rest c where F: "post = qs @ rest"
    "lf_findoverlap (pre @ post) u SELF (length pre) = Some (c, length pre + length qs)"
    "if c = OVERLAP_NONE then True else \<exists>r rs. rest = r # rs \<and> lf_id r = lf_id u"
    using findoverlap_self [OF less.prems(1), of pre u] by (metis (no_types, lifting))
  show ?case
  proof (cases "c = OVERLAP_NONE")
    case True
    with F(2) less.prems(2) show ?thesis by (subst (asm) clear_loop.simps) simp
  next
    case False
    then obtain r rs where r: "rest = r # rs" "lf_id r = lf_id u" using F(3) by auto
    note l = F(1)[unfolded r(1)]
    have wf: "claims_wf (map core rs)" using less.prems(1) l by (simp add: claims_wf_append)
    note found = clear_loop_found [OF F(2)[unfolded l] False, of mem w]
    have short: "length rs < length post" using l by simp
    note IH = less.hyps [OF short wf]
    note run = less.prems(2)[unfolded l found Let_def]
    show ?thesis
    proof (cases c)
      case OVERLAP_CONTAINED_BY_LOCK
      have "others (lf_id u) l' = others (lf_id u) ((pre @ qs) @ rs)"
        by (rule IH, rule run[unfolded OVERLAP_CONTAINED_BY_LOCK overlap_t.case])
      with l r(2) show ?thesis by simp
    next
      case OVERLAP_STARTS_BEFORE_LOCK
      have "others (lf_id u) l' = others (lf_id u) ((pre @ qs @ [r\<lparr>lf_blkhd := [], lf_end := wrap64 (lf_start u - 1)\<rparr>]) @ rs)"
        by (rule IH, rule run[unfolded OVERLAP_STARTS_BEFORE_LOCK overlap_t.case])
      with l r(2) show ?thesis by simp
    qed (use run l r(2) in \<open>auto split: if_splits option.splits\<close>)
  qed
qed

lemma lf_clearlock_others:
  assumes "lf_wf l" "lf_clearlock mem u l = Some (e, l', w)"
  shows "others (lf_id u) l' = others (lf_id u) l"
  using clear_loop_others [of l mem u "[]" "[]"] assms by (auto simp: lf_clearlock_def lf_wf_def split: if_splits)

lemma lf_clearlock_spec:
  assumes "lf_wf l" and "range_ok (lf_start u) (lf_end u)"
  shows "\<exists>e l' w. lf_clearlock mem u l = Some (e, l', w) \<and> lf_wf l'
    \<and> (if mem = None \<and> (\<exists>k \<in> set l. splits_lock u k) then e = Some ENOLCK \<and> map core l' = map core l
       else e = None \<and> holds l' = holds l - owned (lf_id u) (lf_start u) (lf_end u))"
proof (cases "l = []")
  case False
  have wf: "claims_wf (map core l)" using assms(1) by (simp add: lf_wf_def)
  obtain e l' w where C: "clear_loop mem u l 0 [] = Some (e, l', w)"
    "if e = None then map core l' = cuts (lf_id u) (lf_start u) (lf_end u) (map core l)
     else e = Some ENOLCK \<and> mem = None \<and> map core l' = map core l \<and> (\<exists>k \<in> set l. splits_lock u k)"
    using clear_loop_spec [OF wf assms(2) refl refl, of mem "[]" "[]"] by auto
  moreover have "e \<noteq> None" if "mem = None" "k \<in> set l" "splits_lock u k" for k
    using clear_loop_split [OF wf assms(2) that(2,3), of "[]"] C(1) that(1) by auto
  ultimately show ?thesis
    using False wf claims_cuts [OF wf assms(2)] cuts_wf [OF wf assms(2)]
    by (cases e) (auto simp: lf_clearlock_def holds_def lf_wf_def)
qed (simp add: lf_clearlock_def holds_def lf_wf_def)

section \<open>Setting a lock, before coalescing\<close>

text \<open>Once the lock is in the chain, every later lock of the owner starts behind its start; those it
  covers are removed, one that reaches beyond its end is shortened.\<close>

lemma linked_chain [simp]:
  "(P @ k # mid @ qs @ r # rs) ! Suc (length P + (length mid + length qs)) = r"
  "(P @ k # mid @ qs @ r # rs)[Suc (length P + (length mid + length qs)) := x] = P @ k # mid @ qs @ x # rs"
  "remove_at (Suc (length P + (length mid + length qs))) (P @ k # mid @ qs @ r # rs) = P @ k # mid @ qs @ rs"
  using nth_middle_append [of "P @ k # mid" qs r rs] update_middle_append [of "P @ k # mid" qs r rs]
    remove_middle_append [of "P @ k # mid" qs r rs] by (simp_all add: add.assoc)

lemma setlock_contained:
  assumes "lf_findoverlap ((P @ k # mid) @ qs @ r # rs) lock SELF (length (P @ k # mid))
      = Some (OVERLAP_CONTAINED_BY_LOCK, length (P @ k # mid) + length qs)"
  shows "setlock_loop mem lock ((P @ k # mid) @ qs @ r # rs) (Some (length P)) (length (P @ k # mid)) w =
    (let down = (lf_type lock = F_RDLCK \<and> lf_type r = F_WRLCK)
     in setlock_loop mem lock ((P @ k\<lparr>lf_blkhd := lf_blkhd k @ (if down then [] else lf_blkhd r)\<rparr> # mid @ qs) @ rs)
          (Some (length P)) (length (P @ k # mid @ qs)) (w @ (if down then lf_blkhd r else [])))"
  using assms by (subst setlock_loop.simps) (simp add: Let_def add.assoc)

lemma setlock_ends_after:
  assumes "lf_findoverlap ((P @ k # mid) @ qs @ r # rs) lock SELF (length (P @ k # mid))
      = Some (OVERLAP_ENDS_AFTER_LOCK, length (P @ k # mid) + length qs)"
  shows "setlock_loop mem lock ((P @ k # mid) @ qs @ r # rs) (Some (length P)) (length (P @ k # mid)) w =
    Some (None, P @ k # mid @ qs @ r\<lparr>lf_blkhd := [], lf_start := wrap64 (lf_end lock + 1)\<rparr> # rs, length P, w @ lf_blkhd r)"
  using assms by (subst setlock_loop.simps) (simp add: Let_def lf_wakelock_def add.assoc)

definition all_after :: "nat \<Rightarrow> int \<Rightarrow> lockf list \<Rightarrow> bool" where
  "all_after me f ks \<longleftrightarrow> (\<forall>k \<in> set ks. lf_id k = me \<longrightarrow> after f (ent k))"

definition all_before :: "nat \<Rightarrow> int \<Rightarrow> lockf list \<Rightarrow> bool" where
  "all_before me s ks \<longleftrightarrow> (\<forall>k \<in> set ks. lf_id k = me \<longrightarrow> before (ent k) s)"

lemma all_simps [simp]:
  "all_after me f []" "all_before me s []"
  "all_after me f (k # ks) \<longleftrightarrow> (lf_id k = me \<longrightarrow> after f (ent k)) \<and> all_after me f ks"
  "all_before me s (k # ks) \<longleftrightarrow> (lf_id k = me \<longrightarrow> before (ent k) s) \<and> all_before me s ks"
  "all_after me f (ks @ ks') \<longleftrightarrow> all_after me f ks \<and> all_after me f ks'"
  "all_before me s (ks @ ks') \<longleftrightarrow> all_before me s ks \<and> all_before me s ks'"
  by (auto simp: all_after_def all_before_def)

lemma cuts_after: "all_after me f ks \<Longrightarrow> cuts me s f (map core ks) = map core ks"
  by (rule cuts_other) (auto simp: all_after_def)

lemma cuts_before: "all_before me s ks \<Longrightarrow> cuts me s f (map core ks) = map core ks"
  by (rule cuts_other) (auto simp: all_before_def)

lemma setlock_linked_spec:
  assumes "claims_wf (map core post)" and ok: "range_ok s f" and u: "lf_start lock = s" "lf_end lock = f"
    and "\<forall>q \<in> set post. lf_id q = lf_id lock \<longrightarrow> s < lf_start q"
    and "\<forall>q \<in> set mid. lf_id q \<noteq> lf_id lock"
  shows "\<exists>k' rest w'. setlock_loop mem lock ((P @ k # mid) @ post) (Some (length P)) (length (P @ k # mid)) w
      = Some (None, P @ k' # rest, length P, w')
    \<and> core k' = core k \<and> map core rest = map core mid @ cuts (lf_id lock) s f (map core post)
    \<and> all_after (lf_id lock) f rest"
  using assms(1,5,6)
proof (induction "length post" arbitrary: k mid post w rule: less_induct)
  case less
  let ?me = "lf_id lock"
  obtain qs rest c where F: "post = qs @ rest"
    "lf_findoverlap ((P @ k # mid) @ post) lock SELF (length (P @ k # mid)) = Some (c, length (P @ k # mid) + length qs)"
    "\<forall>q \<in> set qs. lf_id q = ?me \<longrightarrow> before (ent q) s"
    "if c = OVERLAP_NONE then \<forall>k \<in> set rest. lf_id k = ?me \<longrightarrow> after f (ent k)
     else \<exists>r rs. rest = r # rs \<and> lf_id r = ?me \<and> lf_overlap r lock = Some c"
    using findoverlap_self [OF less.prems(1), of "P @ k # mid" lock] u by blast
  have foreign: "lf_id q \<noteq> ?me" if "q \<in> set qs" for q
  proof
    assume q: "lf_id q = ?me"
    have "entry_ok (ent q)" by (rule claims_wf_entry [OF less.prems(1)]) (simp add: F(1) that)
    moreover have "before (ent q) s" "s < lf_start q" using F(1,3) less.prems(2) that q by auto
    ultimately show False by (auto simp: before_def range_ok_def RL_INFINITY_def)
  qed
  then have qs: "cuts ?me s f (map core qs) = map core qs" "all_after ?me f qs"
    by (auto intro!: cuts_other simp: all_after_def)
  have mid: "all_after ?me f mid" using less.prems(3) by (simp add: all_after_def)
  show ?case
  proof (cases "c = OVERLAP_NONE")
    case True
    then have "all_after ?me f rest" using F(4) by (simp add: all_after_def)
    with True F(1,2) qs mid show ?thesis by (subst setlock_loop.simps) (simp add: cuts_after)
  next
    case False
    then obtain r rs where r: "rest = r # rs" "lf_id r = ?me" "lf_overlap r lock = Some c" using F(4) by auto
    note l = F(1)[unfolded r(1)]
    have wf: "claims_wf (map core (r # rs))" "claims_wf (map core rs)" "entry_ok (ent r)"
      using less.prems(1) l by (simp_all add: claims_wf_append)
    note facts = overlap_facts [OF r(3) wf(3) ok u]
    have start: "s < lf_start r" using less.prems(2) l r(2) by simp
    have "c = OVERLAP_CONTAINED_BY_LOCK \<or> c = OVERLAP_ENDS_AFTER_LOCK"
      using facts start False by (cases c) (auto simp: ent_def mk_entry_def)
    then show ?thesis
    proof
      assume c: "c = OVERLAP_CONTAINED_BY_LOCK"
      define k2 where "k2 = k\<lparr>lf_blkhd := lf_blkhd k @ (if lf_type lock = F_RDLCK \<and> lf_type r = F_WRLCK then [] else lf_blkhd r)\<rparr>"
      define w2 where "w2 = w @ (if lf_type lock = F_RDLCK \<and> lf_type r = F_WRLCK then lf_blkhd r else [])"
      have "length rs < length post" using l by simp
      moreover have "\<forall>q \<in> set rs. lf_id q = ?me \<longrightarrow> s < lf_start q" using less.prems(2) l by simp
      moreover have "\<forall>q \<in> set (mid @ qs). lf_id q \<noteq> ?me" using less.prems(3) foreign by auto
      ultimately obtain k' rest' w' where IH: "setlock_loop mem lock ((P @ k2 # mid @ qs) @ rs) (Some (length P)) (length (P @ k2 # mid @ qs)) w2
          = Some (None, P @ k' # rest', length P, w')"
        "core k' = core k2" "map core rest' = map core (mid @ qs) @ cuts ?me s f (map core rs)" "all_after ?me f rest'"
        using less.hyps [OF _ wf(2)] by blast
      have "setlock_loop mem lock ((P @ k # mid) @ post) (Some (length P)) (length (P @ k # mid)) w
          = setlock_loop mem lock ((P @ k2 # mid @ qs) @ rs) (Some (length P)) (length (P @ k2 # mid @ qs)) w2"
        using setlock_contained [OF F(2)[unfolded l c], of mem w] l
        by (simp only: Let_def k2_def w2_def length_append list.size)
      moreover have "core k2 = core k" by (simp add: k2_def)
      moreover have "rem1 s f (ent r) = []" using facts c by simp
      ultimately show ?thesis using IH qs l by (simp add: cut_own [OF r(2)])
    next
      assume c: "c = OVERLAP_ENDS_AFTER_LOCK"
      then have *: "f \<noteq> -1" "lf_end r = -1 \<or> f < lf_end r" "rem1 s f (ent r) = [mk_entry (f + 1) (lf_end r)]"
        using facts by simp_all
      have "all_after ?me f rs"
        using own_after [OF wf(1), of f] *(1,2) r(2) by (auto simp: all_after_def)
      moreover have "wrap64 (f + 1) = f + 1" using wrap64_simps(1) [OF ok] *(1) by (simp add: RL_INFINITY_def)
      moreover have "after f (mk_entry (f + 1) (lf_end r))" using *(1) by (simp add: after_def RL_INFINITY_def)
      ultimately show ?thesis
        using setlock_ends_after [OF F(2)[unfolded l c], of mem w] * qs mid l u r(2)
        by (simp add: cut_own [OF r(2)] cuts_after ent_def)
    qed
  qed
qed

text \<open>The only reason for a failure: a lock of the owner, of the other type, that reaches beyond the
  request on both sides has to be split.\<close>

definition needs_split :: "lockf \<Rightarrow> lockf list \<Rightarrow> bool" where
  "needs_split lock l \<longleftrightarrow> (\<exists>k \<in> set l. splits_lock lock k \<and> lf_type k \<noteq> lf_type lock)"

text \<open>What \<open>setlock_loop\<close> delivers: the lock, or an old one of the same type that contains it, stands
  at position \<open>p\<close>; the rest of the chain is the old one with the range cut out of the owner's locks.\<close>

definition granted :: "lockf \<Rightarrow> lockf list \<Rightarrow> lockf list \<Rightarrow> nat \<Rightarrow> bool" where
  "granted lock l l' p \<longleftrightarrow>
    (\<exists>A k B. l' = A @ k # B \<and> p = length A \<and>
      (core k = core lock \<and> all_before (lf_id lock) (lf_start lock) A \<and> all_after (lf_id lock) (lf_end lock) B
         \<and> map core (A @ B) = cuts (lf_id lock) (lf_start lock) (lf_end lock) (map core l)
       \<or> l' = l \<and> lf_id k = lf_id lock \<and> lf_type k = lf_type lock \<and> lf_start k \<le> lf_start lock
         \<and> (lf_end k = -1 \<or> lf_end lock \<noteq> -1 \<and> lf_end lock \<le> lf_end k)))"

lemma grantedI:
  assumes "core k = core lock" "all_before (lf_id lock) (lf_start lock) A" "all_after (lf_id lock) (lf_end lock) B"
    and "map core (A @ B) = cuts (lf_id lock) (lf_start lock) (lf_end lock) (map core l)"
  shows "granted lock l (A @ k # B) (length A)"
  using assms unfolding granted_def by blast

lemma granted_same:
  assumes "l = A @ k # B" "lf_id k = lf_id lock" "lf_type k = lf_type lock" "lf_start k \<le> lf_start lock"
    and "lf_end k = -1 \<or> lf_end lock \<noteq> -1 \<and> lf_end lock \<le> lf_end k"
  shows "granted lock l l (length A)"
  using assms unfolding granted_def by blast

lemma setlock_loop_spec:
  assumes wf: "claims_wf (map core l)" and ok: "range_ok (lf_start lock) (lf_end lock)"
  shows "\<exists>e l' p w. setlock_loop mem lock l None 0 [] = Some (e, l', p, w)
    \<and> (if e = None then granted lock l l' p else e = Some ENOLCK \<and> mem = None \<and> needs_split lock l \<and> l' = l)"
proof -
  let ?me = "lf_id lock" and ?s = "lf_start lock" and ?f = "lf_end lock"
  obtain qs rest c where F: "l = qs @ rest" "lf_findoverlap l lock SELF 0 = Some (c, length qs)"
    "all_before ?me ?s qs"
    "if c = OVERLAP_NONE then all_after ?me ?f rest
     else \<exists>r rs. rest = r # rs \<and> lf_id r = ?me \<and> lf_overlap r lock = Some c"
    using findoverlap_self [OF wf, of "[]" lock]
    unfolding all_after_def all_before_def append_Nil list.size add_0 by blast
  show ?thesis
  proof (cases "c = OVERLAP_NONE")
    case True
    with F have "setlock_loop mem lock l None 0 [] = Some (None, qs @ lock # rest, length qs, [])"
      by (subst setlock_loop.simps) simp
    moreover have "granted lock l (qs @ lock # rest) (length qs)"
      using F True by (intro grantedI) (simp_all add: cuts_before cuts_after)
    ultimately show ?thesis by fastforce
  next
    case False
    then obtain r rs where r: "rest = r # rs" "lf_id r = ?me" "lf_overlap r lock = Some c" using F(4) by auto
    note l = F(1)[unfolded r(1)]
    have wfr: "claims_wf (map core (r # rs))" "claims_wf (map core rs)" "entry_ok (ent r)"
      using wf l by (simp_all add: claims_wf_append)
    note facts = overlap_facts [OF r(3) wfr(3) ok refl refl]
    have wrap: "wrap64 (?s - 1) = ?s - 1" "?f \<noteq> -1 \<Longrightarrow> wrap64 (?f + 1) = ?f + 1"
      using wrap64_simps [OF ok] by (simp_all add: RL_INFINITY_def)
    have tail: "all_after ?me ?f rs" if "lf_end r = -1 \<or> ?f \<noteq> -1 \<and> ?f \<le> lf_end r"
      using own_after [OF wfr(1), of ?f] that unfolding r(2) all_after_def by blast
    have cut_l: "cuts ?me ?s ?f (map core l) = map core qs
        @ map (\<lambda>p. (?me, lf_type r, p)) (rem1 ?s ?f (ent r)) @ cuts ?me ?s ?f (map core rs)"
      using l F(3) by (simp add: cuts_before cut_own [OF r(2)])
    have later: "\<forall>q \<in> set rs. lf_id q = ?me \<longrightarrow> ?s < lf_start q" if "?s \<le> lf_start r \<or> lf_end r = -1 \<or> ?s \<le> lf_end r"
      using that wfr(1,3) r(2) by (fastforce simp: before_def RL_INFINITY_def range_ok_def)
    have nth: "(qs @ x # rs) ! length qs = x" "(qs @ x # rs)[length qs := y] = qs @ y # rs" for x y by simp_all
    show ?thesis
    proof (cases c)
      case OVERLAP_NONE
      with False show ?thesis by simp
    next
      case OVERLAP_EQUALS_LOCK
      with facts have *: "ent r = mk_entry ?s ?f" "rem1 ?s ?f (ent r) = []" by auto
      then have "lf_end r = ?f" by (simp add: ent_def mk_entry_def)
      with tail have t: "all_after ?me ?f rs" by (cases "?f = -1") simp_all
      let ?r = "\<lambda>b. r\<lparr>lf_blkhd := b, lf_type := lf_type lock\<rparr>"
      have g: "granted lock l (qs @ ?r b # rs) (length qs)" for b
        using F(3) t * cut_l r(2) by (intro grantedI) (simp_all add: cuts_after core_def ent_def)
      have "setlock_loop mem lock l None 0 [] = (if lf_type lock = F_RDLCK \<and> lf_type r = F_WRLCK
            then Some (None, qs @ ?r [] # rs, length qs, lf_blkhd r)
            else Some (None, qs @ ?r (lf_blkhd r) # rs, length qs, []))"
        using F(2) OVERLAP_EQUALS_LOCK l by (subst setlock_loop.simps) (simp add: lf_wakelock_def)
      with g [of "[]"] g [of "lf_blkhd r"] show ?thesis by (auto split: if_splits)
    next
      case OVERLAP_CONTAINS_LOCK
      with facts have *: "?f \<noteq> -1" "lf_start r \<le> ?s" "lf_end r = -1 \<or> ?f \<le> lf_end r" "lf_start r = ?s \<longrightarrow> lf_end r \<noteq> ?f"
        "rem1 ?s ?f (ent r) = (if lf_start r < ?s then [mk_entry (lf_start r) (?s - 1)] else [])
           @ (if lf_end r \<noteq> ?f then [mk_entry (?f + 1) (lf_end r)] else [])" by simp_all
      have t: "all_after ?me ?f rs" using tail *(1,3) by blast
      have after6: "after ?f (mk_entry (?f + 1) e)" for e using *(1) by (simp add: after_def RL_INFINITY_def)
      have before_r: "before (mk_entry a (?s - 1)) ?s" if "lf_start r < ?s" for a
        using that ok wfr(3) by (simp add: before_def RL_INFINITY_def range_ok_def)
      let ?r1 = "\<lambda>b. r\<lparr>lf_blkhd := b, lf_end := ?s - 1\<rparr>"
      let ?r2 = "r\<lparr>lf_blkhd := [], lf_start := ?f + 1\<rparr>"
      consider "lf_type r = lf_type lock" | "lf_type r \<noteq> lf_type lock" "lf_start r = ?s"
        | "lf_type r \<noteq> lf_type lock" "lf_start r < ?s" "lf_end r = ?f"
        | "lf_type r \<noteq> lf_type lock" "lf_start r < ?s" "lf_end r \<noteq> ?f"
        using *(2) by linarith
      then show ?thesis
      proof cases
        case 1
        then have "setlock_loop mem lock l None 0 [] = Some (None, l, length qs, [])"
          using F(2) OVERLAP_CONTAINS_LOCK l by (subst setlock_loop.simps) simp
        with granted_same [OF l r(2) 1 *(2)] *(1,3) show ?thesis by simp
      next
        case 2
        then have "setlock_loop mem lock l None 0 [] = Some (None, qs @ lock # ?r2 # rs, length qs, lf_blkhd r)"
          using F(2) OVERLAP_CONTAINS_LOCK l wrap(2) [OF *(1)]
          by (subst setlock_loop.simps) (simp add: lf_wakelock_def Let_def)
        moreover have "granted lock l (qs @ lock # ?r2 # rs) (length qs)"
          using 2 F(3) t *(4,5) cut_l r(2) after6 by (intro grantedI) (simp_all add: cuts_after ent_def)
        ultimately show ?thesis by simp
      next
        case 3
        then have "setlock_loop mem lock l None 0 [] = Some (None, (qs @ [?r1 []]) @ lock # rs, length (qs @ [?r1 []]), lf_blkhd r)"
          using F(2) OVERLAP_CONTAINS_LOCK l wrap(1)
          by (subst setlock_loop.simps) (simp add: lf_wakelock_def lf_split_def Let_def)
        moreover have "granted lock l ((qs @ [?r1 []]) @ lock # rs) (length (qs @ [?r1 []]))"
          using 3 F(3) t *(5) cut_l r(2) before_r by (intro grantedI) (simp_all add: cuts_after ent_def)
        ultimately show ?thesis by simp
      next
        case 4
        show ?thesis
        proof (cases mem)
          case None
          with 4 have "setlock_loop mem lock l None 0 [] = Some (Some ENOLCK, l, length qs, [])"
            using F(2) OVERLAP_CONTAINS_LOCK l
            by (subst setlock_loop.simps) (simp add: lf_split_def Let_def)
          moreover have "needs_split lock l"
            using 4 * l r(2) by (auto simp: needs_split_def splits_lock_def)
          ultimately show ?thesis using None by simp
        next
          case (Some a)
          let ?r3 = "r\<lparr>lf_start := ?f + 1, lf_blkhd := [], lf_addr := a\<rparr>"
          from 4 Some have "setlock_loop mem lock l None 0 [] =
              Some (None, (qs @ [?r1 []]) @ lock # ?r3 # rs, length (qs @ [?r1 []]), lf_blkhd r)"
            using F(2) OVERLAP_CONTAINS_LOCK l wrap(1) wrap(2) [OF *(1)]
            by (subst setlock_loop.simps) (simp add: lf_wakelock_def lf_split_def Let_def)
          moreover have "granted lock l ((qs @ [?r1 []]) @ lock # ?r3 # rs) (length (qs @ [?r1 []]))"
            using 4 F(3) t *(5) cut_l r(2) before_r after6
            by (intro grantedI) (simp_all add: cuts_after ent_def core_def)
          ultimately show ?thesis by simp
        qed
      qed
    next
      case OVERLAP_CONTAINED_BY_LOCK
      with facts have *: "?s \<le> lf_start r" "rem1 ?s ?f (ent r) = []" by simp_all
      define down where "down = (lf_type lock = F_RDLCK \<and> lf_type r = F_WRLCK)"
      define k where "k = lock\<lparr>lf_blkhd := lf_blkhd lock @ (if down then [] else lf_blkhd r)\<rparr>"
      have "setlock_loop mem lock l None 0 [] =
          setlock_loop mem lock ((qs @ k # []) @ rs) (Some (length qs)) (length (qs @ k # [])) (if down then lf_blkhd r else [])"
        using F(2) OVERLAP_CONTAINED_BY_LOCK l
        by (subst setlock_loop.simps) (simp add: Let_def k_def down_def)
      then obtain k' rest' w' where S: "setlock_loop mem lock l None 0 [] = Some (None, qs @ k' # rest', length qs, w')"
        "core k' = core k" "map core rest' = cuts ?me ?s ?f (map core rs)" "all_after ?me ?f rest'"
        using setlock_linked_spec [OF wfr(2) ok refl refl, where mid = "[]" and P = qs and k = k and mem = mem
            and w = "if down then lf_blkhd r else []"] later *(1) by auto
      have "granted lock l (qs @ k' # rest') (length qs)"
        using S(2-4) F(3) cut_l * by (intro grantedI) (simp_all add: k_def)
      with S(1) show ?thesis by simp
    next
      case OVERLAP_STARTS_BEFORE_LOCK
      with facts have *: "lf_start r < ?s" "lf_end r = -1 \<or> ?s \<le> lf_end r"
        "rem1 ?s ?f (ent r) = [mk_entry (lf_start r) (?s - 1)]" by simp_all
      let ?P = "qs @ [r\<lparr>lf_blkhd := [], lf_end := ?s - 1\<rparr>]"
      have "setlock_loop mem lock l None 0 [] =
          setlock_loop mem lock ((?P @ lock # []) @ rs) (Some (length ?P)) (length (?P @ lock # [])) (lf_blkhd r)"
        using F(2) OVERLAP_STARTS_BEFORE_LOCK l wrap(1)
        by (subst setlock_loop.simps) (simp add: Let_def lf_wakelock_def)
      then obtain k' rest' w' where S: "setlock_loop mem lock l None 0 [] = Some (None, ?P @ k' # rest', length ?P, w')"
        "core k' = core lock" "map core rest' = cuts ?me ?s ?f (map core rs)" "all_after ?me ?f rest'"
        using setlock_linked_spec [OF wfr(2) ok refl refl, where mid = "[]" and P = ?P and k = lock and mem = mem
            and w = "lf_blkhd r"] later *(2) by auto
      have "before (mk_entry (lf_start r) (?s - 1)) ?s"
        using *(1) ok wfr(3) by (simp add: before_def RL_INFINITY_def range_ok_def)
      then have "granted lock l (?P @ k' # rest') (length ?P)"
        using S(2-4) F(3) cut_l * r(2) by (intro grantedI) (simp_all add: ent_def)
      with S(1) show ?thesis by simp
    next
      case OVERLAP_ENDS_AFTER_LOCK
      with facts have *: "?f \<noteq> -1" "lf_end r = -1 \<or> ?f < lf_end r" "rem1 ?s ?f (ent r) = [mk_entry (?f + 1) (lf_end r)]"
        by simp_all
      then have t: "all_after ?me ?f rs" using tail by auto
      let ?r2 = "r\<lparr>lf_blkhd := [], lf_start := ?f + 1\<rparr>"
      have "setlock_loop mem lock l None 0 [] = Some (None, qs @ lock # ?r2 # rs, length qs, lf_blkhd r)"
        using F(2) OVERLAP_ENDS_AFTER_LOCK l wrap(2) [OF *(1)]
        by (subst setlock_loop.simps) (simp add: Let_def lf_wakelock_def)
      moreover have "granted lock l (qs @ lock # ?r2 # rs) (length qs)"
        using F(3) t * cut_l r(2) by (intro grantedI) (simp_all add: cuts_after ent_def after_def RL_INFINITY_def)
      ultimately show ?thesis by simp
    qed
  qed
qed

lemma setlock_loop_split:
  assumes "claims_wf (map core l)" "range_ok (lf_start lock) (lf_end lock)" "needs_split lock l"
  shows "\<exists>p. setlock_loop None lock l None 0 [] = Some (Some ENOLCK, l, p, [])"
proof -
  obtain k where k: "k \<in> set l" "splits_lock lock k" "lf_type k \<noteq> lf_type lock"
    using assms(3) by (auto simp: needs_split_def)
  obtain qs rs where l: "l = qs @ k # rs" "lf_findoverlap l lock SELF 0 = Some (OVERLAP_CONTAINS_LOCK, length qs)"
    using splits_found [OF assms(1,2) k(1,2)] by blast
  moreover have "lf_start k \<noteq> lf_start lock" "lf_end k \<noteq> lf_end lock" using k(2) by (auto simp: splits_lock_def)
  ultimately show ?thesis
    using k(3) by (subst setlock_loop.simps) (simp add: Let_def lf_split_def)
qed

section \<open>Coalescing\<close>

text \<open>Merging two adjacent locks of one owner loses no claim of that owner: what stood between them in
  the chain belongs to others. It adds no claim.\<close>

definition thinned :: "nat \<Rightarrow> claim list \<Rightarrow> claim list \<Rightarrow> bool" where
  "thinned me cs cs' \<longleftrightarrow> claims_wf cs' \<and> claims cs' \<subseteq> claims cs
    \<and> (\<forall>t x. (me, t, x) \<in> claims cs \<longrightarrow> (me, t, x) \<in> claims cs')"

lemma thinned_refl: "claims_wf cs \<Longrightarrow> thinned me cs cs"
  by (simp add: thinned_def)

lemma thinned_trans: "thinned me cs ds \<Longrightarrow> thinned me ds es \<Longrightarrow> thinned me cs es"
  by (auto simp: thinned_def)

lemma covers_adjacent:
  assumes "entry_ok a" "entry_ok b" "rl_end a \<noteq> -1" "rl_end a + 1 = rl_start b"
  shows "covers (mk_entry (rl_start a) (rl_end b)) = covers a \<union> covers b" "entry_ok (mk_entry (rl_start a) (rl_end b))"
  using assms by (auto simp: covers_def range_ok_def RL_INFINITY_def)

lemma thinned_merge:
  assumes wf: "claims_wf (X @ (me, t, a) # M @ (me, t, b) # Z)" and adj: "rl_end a \<noteq> -1" "rl_end a + 1 = rl_start b"
  shows "thinned me (X @ (me, t, a) # M @ (me, t, b) # Z) (X @ (me, t, mk_entry (rl_start a) (rl_end b)) # Z)"
proof -
  have ok: "entry_ok a" "entry_ok b" using wf by (auto simp: claims_wf_append)
  note merged = covers_adjacent [OF ok adj]
  have "i \<noteq> me" if "(i, u, q) \<in> set M" for i u q
  proof
    assume "i = me"
    moreover have "own_order (me, t, a) (i, u, q)" "own_order (i, u, q) (me, t, b)"
      using wf that by (auto simp: claims_wf_append simp del: own_order.simps)
    moreover have "claims_wf M" using wf by (simp add: claims_wf_append)
    then have "entry_ok q" using that unfolding claims_wf_def by blast
    ultimately have "before a (rl_start q)" "before q (rl_start b)" "entry_ok q" by simp_all
    with adj show False by (auto simp: before_def range_ok_def RL_INFINITY_def)
  qed
  then have "(me, u, x) \<notin> claims M" for u x by (auto simp: claims_def)
  moreover have "claims_wf (X @ (me, t, mk_entry (rl_start a) (rl_end b)) # Z)"
  proof -
    have "own_order c (me, t, mk_entry (rl_start a) (rl_end b))" if "own_order c (me, t, a)" for c
      using that by (cases c) simp
    moreover have "own_order (me, t, mk_entry (rl_start a) (rl_end b)) c" if "own_order (me, t, b) c" for c
      using that by (cases c) (simp add: before_def)
    ultimately show ?thesis using wf merged(2) by (simp add: claims_wf_append)
  qed
  ultimately show ?thesis using merged(1) by (auto simp: thinned_def)
qed

lemma two_positions:
  assumes "i < p" "p < length l"
  obtains X M Z where "l = X @ l ! i # M @ l ! p # Z" "X = take i l" "Z = drop (Suc p) l" "length X = i"
proof
  have "l = take i l @ l ! i # drop (Suc i) l" using assms by (simp add: id_take_nth_drop)
  moreover have "drop (Suc i) l = take (p - Suc i) (drop (Suc i) l) @ l ! p # drop (Suc p) l"
    using assms id_take_nth_drop [of "p - Suc i" "drop (Suc i) l"] by simp
  ultimately show "l = take i l @ l ! i # take (p - Suc i) (drop (Suc i) l) @ l ! p # drop (Suc p) l" by simp
qed (use assms in simp_all)

lemma own_positions:
  assumes "claims_wf (map core l)" "i < p" "p < length l" "lf_id (l ! i) = lf_id (l ! p)"
  shows "before (ent (l ! i)) (lf_start (l ! p))"
proof -
  obtain X M Z where "l = X @ l ! i # M @ l ! p # Z" using two_positions [OF assms(2,3)] by metis
  then have "claims_wf (map core (X @ l ! i # M @ l ! p # Z))" using assms(1) by simp
  with assms(4) show ?thesis by (simp add: claims_wf_append)
qed

lemma coelesce_merge:
  assumes "claims_wf (map core l)" "i < j" "j < length l" "lf_id (l ! i) = lf_id (l ! j)" "lf_type (l ! i) = lf_type (l ! j)"
    and "lf_end (l ! i) \<noteq> -1" "lf_end (l ! i) + 1 = lf_start (l ! j)"
    and k: "core k = (lf_id (l ! j), lf_type (l ! j), mk_entry (lf_start (l ! i)) (lf_end (l ! j)))"
  defines "l' \<equiv> take i l @ k # drop (Suc j) l"
  shows "thinned (lf_id (l ! j)) (map core l) (map core l')" "l' ! i = k" "i < length l'"
    "length l' - Suc i = length l - Suc j"
proof -
  obtain X M Z where l: "l = X @ l ! i # M @ l ! j # Z" "X = take i l" "Z = drop (Suc j) l" "length X = i"
    using two_positions [OF assms(2,3)] by metis
  have "map core l = map core X @ (lf_id (l ! j), lf_type (l ! j), ent (l ! i)) # map core M
      @ (lf_id (l ! j), lf_type (l ! j), ent (l ! j)) # map core Z"
    by (subst (1) l(1)) (simp add: core_def assms(4,5))
  moreover have "map core l' = map core X @ (lf_id (l ! j), lf_type (l ! j), mk_entry (lf_start (l ! i)) (lf_end (l ! j))) # map core Z"
    using l(2,3) k by (simp add: l'_def)
  ultimately show "thinned (lf_id (l ! j)) (map core l) (map core l')"
    using thinned_merge [of "map core X" "lf_id (l ! j)" "lf_type (l ! j)" "ent (l ! i)" "map core M" "ent (l ! j)" "map core Z"]
      assms(1,6,7) by (simp only: core_sel simp_thms)
  have "l' = X @ k # Z" using l(2,3) by (simp add: l'_def)
  then show "l' ! i = k" "i < length l'" using l(4) by (metis nth_append_length, simp)
  show "length l' - Suc i = length l - Suc j" using assms(2,3) by (simp add: l'_def)
qed

lemma lf_coelesce_thinned:
  assumes "claims_wf (map core l)" "p < length l"
  shows "\<exists>l'. lf_coelesce_adjacent l p i = Some l' \<and> thinned (lf_id (l ! p)) (map core l) (map core l')"
  using assms
proof (induction "length l - i" arbitrary: l p i rule: less_induct)
  case less
  let ?k = "l ! p" and ?a = "l ! i" and ?me = "lf_id (l ! p)"
  have on: ?case if "i < length l" "lf_coelesce_adjacent l p i = lf_coelesce_adjacent l p (Suc i)"
    using less.hyps [of l "Suc i" p] less.prems that by simp
  have go: ?case if eq: "lf_coelesce_adjacent l p i = lf_coelesce_adjacent l' q (Suc q)"
    and l': "thinned ?me (map core l) (map core l')" "q < length l'" "lf_id (l' ! q) = ?me"
    and less': "length l' - Suc q < length l - i" for l' q
    using less.hyps [OF less' _ l'(2)] l'(1,3) eq thinned_trans [OF l'(1)] by (auto simp: thinned_def)
  show ?case
  proof (cases "i < length l \<and> i \<noteq> p \<and> lf_id ?a = ?me \<and> lf_type ?a = lf_type ?k")
    case False
    show ?thesis
    proof (cases "i < length l")
      case True
      with False have "lf_coelesce_adjacent l p i = lf_coelesce_adjacent l p (Suc i)"
        by (subst lf_coelesce_adjacent.simps) (auto simp: Let_def)
      with True show ?thesis by (rule on)
    next
      case False
      then show ?thesis using less.prems(1) by (subst lf_coelesce_adjacent.simps) (simp add: thinned_refl)
    qed
  next
    case True
    then have i: "i < length l" "i \<noteq> p" and same: "lf_id ?a = ?me" "lf_type ?a = lf_type ?k" by blast+
    have ok: "entry_ok (ent ?a)" "entry_ok (ent ?k)"
      using claims_wf_entry [OF less.prems(1)] i(1) less.prems(2) by simp_all
    have wrap: "lf_end ?a \<noteq> -1 \<Longrightarrow> wrap64 (lf_end ?a + 1) = lf_end ?a + 1"
      "lf_end ?k \<noteq> -1 \<Longrightarrow> wrap64 (lf_end ?k + 1) = lf_end ?k + 1"
      using wrap64_simps(1) [OF ok(1)] wrap64_simps(1) [OF ok(2)] by (simp_all add: RL_INFINITY_def)
    have order: "i < p \<Longrightarrow> before (ent ?a) (lf_start ?k)" "p < i \<Longrightarrow> before (ent ?k) (lf_start ?a)"
      using own_positions [OF less.prems(1)] less.prems(2) i same by simp_all
    consider (prev) "lf_end ?a \<noteq> -1" "lf_end ?a + 1 = lf_start ?k"
      | (foll) "\<not> (lf_end ?a \<noteq> -1 \<and> lf_end ?a + 1 = lf_start ?k)" "lf_end ?k \<noteq> -1" "lf_end ?k + 1 = lf_start ?a"
      | (none) "\<not> (lf_end ?a \<noteq> -1 \<and> lf_end ?a + 1 = lf_start ?k)" "\<not> (lf_end ?k \<noteq> -1 \<and> lf_end ?k + 1 = lf_start ?a)"
      by blast
    then show ?thesis
    proof cases
      case prev
      have "i < p"
        using order(2) i(2) prev ok by (cases "i < p") (auto simp: before_def range_ok_def RL_INFINITY_def)
      let ?l = "take i l @ ?k\<lparr>lf_start := lf_start ?a\<rparr> # drop (Suc p) l"
      note m = coelesce_merge [OF less.prems(1) \<open>i < p\<close> less.prems(2) same prev, of "?k\<lparr>lf_start := lf_start ?a\<rparr>"]
      have "lf_coelesce_adjacent l p i = lf_coelesce_adjacent ?l i (Suc i)"
        using i same prev wrap(1) \<open>i < p\<close> by (subst lf_coelesce_adjacent.simps) (simp add: Let_def)
      then show ?thesis by (rule go) (use m i \<open>i < p\<close> in simp_all)
    next
      case foll
      have "p < i"
        using order(1) i(2) foll ok by (cases "p < i") (auto simp: before_def range_ok_def RL_INFINITY_def)
      let ?l = "take p l @ ?k\<lparr>lf_end := lf_end ?a\<rparr> # drop (Suc i) l"
      note m = coelesce_merge [OF less.prems(1) \<open>p < i\<close> i(1) same(1) [symmetric] same(2) [symmetric] foll(2,3), of "?k\<lparr>lf_end := lf_end ?a\<rparr>"]
      have "lf_coelesce_adjacent l p i = lf_coelesce_adjacent ?l p (Suc p)"
        using i same foll wrap \<open>p < i\<close> by (subst lf_coelesce_adjacent.simps) (auto simp: Let_def)
      then show ?thesis by (rule go) (use m i same in simp_all)
    next
      case none
      then have "lf_coelesce_adjacent l p i = lf_coelesce_adjacent l p (Suc i)"
        using i wrap by (subst lf_coelesce_adjacent.simps) (auto simp: Let_def)
      with i(1) show ?thesis by (rule on)
    qed
  qed
qed

section \<open>Blocking locks and conflicts\<close>

definition blocks :: "lockf \<Rightarrow> lockf \<Rightarrow> bool" where
  "blocks lock k \<longleftrightarrow> lf_id k \<noteq> lf_id lock \<and> lf_overlap k lock \<noteq> Some OVERLAP_NONE
    \<and> (lf_type lock = F_WRLCK \<or> lf_type k = F_WRLCK)"

text \<open>No two owners hold the same offset unless both share it.\<close>

definition conflict_free :: "(nat \<times> int \<times> int) set \<Rightarrow> bool" where
  "conflict_free H \<longleftrightarrow> (\<forall>(i, t, x) \<in> H. \<forall>(j, u, y) \<in> H. i \<noteq> j \<and> x = y \<longrightarrow> t \<noteq> F_WRLCK \<and> u \<noteq> F_WRLCK)"

lemma conflict_freeI:
  "(\<And>i t x j u. (i, t, x) \<in> H \<Longrightarrow> (j, u, x) \<in> H \<Longrightarrow> i \<noteq> j \<Longrightarrow> t \<noteq> F_WRLCK) \<Longrightarrow> conflict_free H"
  unfolding conflict_free_def by blast

lemma conflict_freeD: "conflict_free H \<Longrightarrow> (i, t, x) \<in> H \<Longrightarrow> (j, u, x) \<in> H \<Longrightarrow> i \<noteq> j \<Longrightarrow> t \<noteq> F_WRLCK"
  unfolding conflict_free_def by blast

lemma conflict_free_mono: "conflict_free H \<Longrightarrow> G \<subseteq> H \<Longrightarrow> conflict_free G"
  unfolding conflict_free_def by blast

lemma findoverlap_others:
  "\<exists>qs rest c. post = qs @ rest
    \<and> lf_findoverlap (pre @ post) lock OTHERS (length pre) = Some (c, length pre + length qs)
    \<and> (\<forall>q \<in> set qs. lf_id q = lf_id lock \<or> lf_overlap q lock = Some OVERLAP_NONE)
    \<and> (if c = OVERLAP_NONE then rest = []
       else \<exists>r rs. rest = r # rs \<and> lf_id r \<noteq> lf_id lock \<and> lf_overlap r lock = Some c)"
proof (induction post arbitrary: pre)
  case Nil
  then show ?case by (simp add: lf_findoverlap.simps)
next
  case (Cons r rs)
  obtain qs rest c where IH: "rs = qs @ rest"
    "lf_findoverlap ((pre @ [r]) @ rs) lock OTHERS (length (pre @ [r])) = Some (c, length (pre @ [r]) + length qs)"
    "\<forall>q \<in> set qs. lf_id q = lf_id lock \<or> lf_overlap q lock = Some OVERLAP_NONE"
    "if c = OVERLAP_NONE then rest = []
     else \<exists>r rs. rest = r # rs \<and> lf_id r \<noteq> lf_id lock \<and> lf_overlap r lock = Some c"
    using Cons.IH [of "pre @ [r]"] by blast
  show ?case
  proof (cases "lf_id r = lf_id lock \<or> lf_overlap r lock = Some OVERLAP_NONE")
    case True
    then have "lf_findoverlap (pre @ r # rs) lock OTHERS (length pre) = lf_findoverlap (pre @ r # rs) lock OTHERS (Suc (length pre))"
      by (subst lf_findoverlap.simps) (auto simp: lf_skips_def)
    with True IH show ?thesis by (intro exI [of _ "r # qs"] exI [of _ rest] exI [of _ c]) simp
  next
    case False
    obtain c' where c': "lf_overlap r lock = Some c'" using lf_overlap_total by blast
    with False have "lf_findoverlap (pre @ r # rs) lock OTHERS (length pre) = Some (c', length pre)"
      by (subst lf_findoverlap.simps) (auto simp: lf_skips_def split: overlap_t.splits)
    with False c' show ?thesis by (intro exI [of _ "[]"] exI [of _ "r # rs"] exI [of _ c']) simp
  qed
qed

lemma lf_getblock_spec:
  "\<exists>b. lf_getblock (pre @ post) lock (length pre) = Some b
    \<and> (case b of None \<Rightarrow> \<forall>k \<in> set post. \<not> blocks lock k
       | Some j \<Rightarrow> j < length (pre @ post) \<and> length pre \<le> j \<and> blocks lock ((pre @ post) ! j))"
proof (induction "length post" arbitrary: pre post rule: less_induct)
  case less
  obtain qs rest c where F: "post = qs @ rest"
    "lf_findoverlap (pre @ post) lock OTHERS (length pre) = Some (c, length pre + length qs)"
    "\<forall>q \<in> set qs. lf_id q = lf_id lock \<or> lf_overlap q lock = Some OVERLAP_NONE"
    "if c = OVERLAP_NONE then rest = []
     else \<exists>r rs. rest = r # rs \<and> lf_id r \<noteq> lf_id lock \<and> lf_overlap r lock = Some c"
    using findoverlap_others by blast
  have qs: "\<forall>q \<in> set qs. \<not> blocks lock q" using F(3) by (auto simp: blocks_def)
  show ?case
  proof (cases "c = OVERLAP_NONE")
    case True
    with F qs show ?thesis by (subst lf_getblock.simps) simp
  next
    case False
    then obtain r rs where r: "rest = r # rs" "lf_id r \<noteq> lf_id lock" "lf_overlap r lock = Some c" using F(4) by auto
    note l = F(1)[unfolded r(1)]
    show ?thesis
    proof (cases "lf_type lock = F_WRLCK \<or> lf_type r = F_WRLCK")
      case True
      then have "lf_getblock (pre @ post) lock (length pre) = Some (Some (length pre + length qs))"
        using F(2) False l by (subst lf_getblock.simps) simp
      moreover have "blocks lock r" using True r(2,3) False by (simp add: blocks_def)
      ultimately show ?thesis using l by simp
    next
      case shared: False
      then have "lf_getblock (pre @ post) lock (length pre)
          = lf_getblock ((pre @ qs @ [r]) @ rs) lock (length (pre @ qs @ [r]))"
        using F(2) False l by (subst lf_getblock.simps) simp
      moreover have "\<not> blocks lock r" using shared by (simp add: blocks_def)
      ultimately show ?thesis
        using less.hyps [of rs "pre @ qs @ [r]"] l qs by (auto split: option.splits)
    qed
  qed
qed

lemma getblock_free: "\<forall>k \<in> set l. \<not> blocks lock k \<Longrightarrow> lf_getblock l lock 0 = Some None"
  using lf_getblock_spec [of "[]" l lock] nth_mem by (fastforce split: option.splits)

lemma getblock_blocked:
  "k \<in> set l \<Longrightarrow> blocks lock k \<Longrightarrow> \<exists>j. lf_getblock l lock 0 = Some (Some j) \<and> j < length l \<and> blocks lock (l ! j)"
  using lf_getblock_spec [of "[]" l lock] by (fastforce split: option.splits)

lemma overlap_meets:
  assumes "entry_ok (ent k)" "range_ok (lf_start lock) (lf_end lock)"
  shows "lf_overlap k lock \<noteq> Some OVERLAP_NONE \<longleftrightarrow> covers (ent k) \<inter> range_span (lf_start lock) (lf_end lock) \<noteq> {}"
proof -
  have "covers (ent k) \<inter> range_span (lf_start lock) (lf_end lock) = {} \<longleftrightarrow>
      before (ent k) (lf_start lock) \<or> after (lf_end lock) (ent k)"
  proof
    assume "covers (ent k) \<inter> range_span (lf_start lock) (lf_end lock) = {}"
    then have "max (lf_start k) (lf_start lock) \<notin> covers (ent k) \<inter> range_span (lf_start lock) (lf_end lock)" by blast
    then show "before (ent k) (lf_start lock) \<or> after (lf_end lock) (ent k)"
      using assms by (auto simp: covers_def before_def after_def RL_INFINITY_def range_ok_def)
  qed (auto simp: covers_def before_def after_def)
  then show ?thesis by (simp add: lf_overlap_NONE_iff)
qed

lemma claims_core: "(i, t, x) \<in> claims (map core l) \<longleftrightarrow> (\<exists>k \<in> set l. i = lf_id k \<and> t = lf_type k \<and> x \<in> covers (ent k))"
  by (auto simp: claims_def core_def)

text \<open>A request that no lock blocks can be granted without a conflict.\<close>

lemma grant_conflict_free:
  assumes "conflict_free (holds l)" "claims_wf (map core l)" "range_ok (lf_start lock) (lf_end lock)"
    and "\<forall>k \<in> set l. \<not> blocks lock k"
  shows "conflict_free (holds l - owned (lf_id lock) (lf_start lock) (lf_end lock)
    \<union> {lf_id lock} \<times> {lf_type lock} \<times> range_span (lf_start lock) (lf_end lock))"
proof -
  have "lf_type lock \<noteq> F_WRLCK \<and> u \<noteq> F_WRLCK"
    if "(j, u, x) \<in> holds l" "j \<noteq> lf_id lock" "x \<in> range_span (lf_start lock) (lf_end lock)" for j u x
  proof -
    note H = that
    obtain k where k: "k \<in> set l" "j = lf_id k" "u = lf_type k" "x \<in> covers (ent k)"
      using H(1) by (auto simp: holds_def claims_core)
    have "lf_overlap k lock \<noteq> Some OVERLAP_NONE"
      using overlap_meets [OF claims_wf_entry [OF assms(2) k(1)] assms(3)] k(4) H(3) by blast
    then show ?thesis using assms(4) k H(2) by (auto simp: blocks_def)
  qed
  note clash = this
  show ?thesis
  proof (rule conflict_freeI)
    fix i t x j u
    assume "(i, t, x) \<in> holds l - owned (lf_id lock) (lf_start lock) (lf_end lock)
        \<union> {lf_id lock} \<times> {lf_type lock} \<times> range_span (lf_start lock) (lf_end lock)"
      and "(j, u, x) \<in> holds l - owned (lf_id lock) (lf_start lock) (lf_end lock)
        \<union> {lf_id lock} \<times> {lf_type lock} \<times> range_span (lf_start lock) (lf_end lock)" and "i \<noteq> j"
    then consider "(i, t, x) \<in> holds l" "(j, u, x) \<in> holds l"
      | "(i, t, x) \<in> holds l" "j = lf_id lock" "x \<in> range_span (lf_start lock) (lf_end lock)"
      | "t = lf_type lock" "i = lf_id lock" "x \<in> range_span (lf_start lock) (lf_end lock)" "(j, u, x) \<in> holds l"
      by auto
    then show "t \<noteq> F_WRLCK"
    proof cases
      case 1
      then show ?thesis using conflict_freeD [OF assms(1)] \<open>i \<noteq> j\<close> by blast
    next
      case 2
      then show ?thesis using clash [of i t x] \<open>i \<noteq> j\<close> by simp
    next
      case 3
      then show ?thesis using clash [of j u x] \<open>i \<noteq> j\<close> by simp
    qed
  qed
qed

section \<open>The operations on chains\<close>

definition regranted :: "lockf \<Rightarrow> (nat \<times> int \<times> int) set \<Rightarrow> (nat \<times> int \<times> int) set" where
  "regranted lock H = H - owned (lf_id lock) (lf_start lock) (lf_end lock)
    \<union> {lf_id lock} \<times> {lf_type lock} \<times> range_span (lf_start lock) (lf_end lock)"

lemma claims_core_append [simp]:
  "claims (core k # cs) = {lf_id k} \<times> {lf_type k} \<times> covers (ent k) \<union> claims cs"
  by (auto simp: core_def)

lemma granted_spec:
  assumes wf: "claims_wf (map core l)" and ok: "range_ok (lf_start lock) (lf_end lock)" and g: "granted lock l l' p"
  shows "p < length l' \<and> lf_id (l' ! p) = lf_id lock \<and> claims_wf (map core l')
    \<and> holds l' = regranted lock (holds l)"
proof -
  let ?me = "lf_id lock" and ?s = "lf_start lock" and ?f = "lf_end lock"
  obtain A k B where l': "l' = A @ k # B" "p = length A"
    and alt: "core k = core lock \<and> all_before ?me ?s A \<and> all_after ?me ?f B
         \<and> map core (A @ B) = cuts ?me ?s ?f (map core l)
       \<or> l' = l \<and> lf_id k = ?me \<and> lf_type k = lf_type lock \<and> lf_start k \<le> ?s
         \<and> (lf_end k = -1 \<or> ?f \<noteq> -1 \<and> ?f \<le> lf_end k)"
    using g unfolding granted_def by blast
  from alt show ?thesis
  proof
    assume *: "core k = core lock \<and> all_before ?me ?s A \<and> all_after ?me ?f B
         \<and> map core (A @ B) = cuts ?me ?s ?f (map core l)"
    then have k: "lf_id k = ?me" "lf_type k = lf_type lock" "ent k = mk_entry ?s ?f"
      by (simp_all add: core_def ent_def)
    have wfAB: "claims_wf (map core (A @ B))" using cuts_wf [OF wf ok] * by metis
    have "claims_wf (map core l')"
    proof -
      have "own_order (core a) (core k)" if "a \<in> set A" for a
        using * that k by (auto simp: all_before_def core_def)
      moreover have "own_order (core k) (core b)" if "b \<in> set B" for b
        using * that k by (auto simp: all_after_def core_def after_def before_def)
      moreover have "entry_ok (ent k)" using k ok by simp
      ultimately show ?thesis using wfAB l'(1) by (auto simp: claims_wf_append)
    qed
    moreover have "holds l' = regranted lock (holds l)"
    proof -
      have "holds (A @ B) = holds l - owned ?me ?s ?f"
        using claims_cuts [OF wf ok] * unfolding holds_def by metis
      moreover have "holds l' = holds (A @ B) \<union> {?me} \<times> {lf_type lock} \<times> range_span ?s ?f"
        using l'(1) k by (auto simp: holds_def)
      ultimately show ?thesis by (simp add: regranted_def)
    qed
    ultimately show ?thesis using l' k(1) by simp
  next
    assume *: "l' = l \<and> lf_id k = ?me \<and> lf_type k = lf_type lock \<and> lf_start k \<le> ?s
         \<and> (lf_end k = -1 \<or> ?f \<noteq> -1 \<and> ?f \<le> lf_end k)"
    have l: "l = A @ k # B" using * l'(1) by simp
    have covered: "range_span ?s ?f \<subseteq> covers (ent k)"
      using * by (auto simp: covers_def RL_INFINITY_def)
    have only: "t = lf_type lock \<and> x \<in> covers (ent k)" if H: "(?me, t, x) \<in> holds l" and x: "x \<in> range_span ?s ?f" for t x
    proof -
      obtain q where q: "q \<in> set l" "lf_id q = ?me" "t = lf_type q" "x \<in> covers (ent q)"
        using H by (auto simp: holds_def claims_core)
      have "q \<notin> set A" using wf l q * x
        by (auto simp: claims_wf_append covers_def before_def)
      moreover have "q \<notin> set B" using wf l q * x
        by (auto simp: claims_wf_append covers_def before_def RL_INFINITY_def)
      ultimately show ?thesis using q l * by auto
    qed
    have "{?me} \<times> {lf_type lock} \<times> range_span ?s ?f \<subseteq> holds l"
      using l * covered by (auto simp: holds_def)
    with only have "holds l = regranted lock (holds l)" unfolding regranted_def by blast
    moreover have "length A < length l" "l ! length A = k" unfolding l by simp_all
    ultimately show ?thesis using * l'(2) wf by simp
  qed
qed

text \<open>What a completed request for a lock leaves behind: the requested range and type for the owner,
  nothing new and no conflict for the others.\<close>

definition sane :: "lockf list \<Rightarrow> bool" where
  "sane l \<longleftrightarrow> lf_wf l \<and> conflict_free (holds l)"

definition own_claims :: "nat \<Rightarrow> (nat \<times> int \<times> int) set \<Rightarrow> (int \<times> int) set" where
  "own_claims me H = {(t, x). (me, t, x) \<in> H}"

lemma holds_block_update: "holds (map (\<lambda>k. if P k then k\<lparr>lf_blkhd := f k\<rparr> else k) l) = holds l"
  "lf_wf (map (\<lambda>k. if P k then k\<lparr>lf_blkhd := f k\<rparr> else k) l) = lf_wf l"
proof -
  have "map core (map (\<lambda>k. if P k then k\<lparr>lf_blkhd := f k\<rparr> else k) l) = map core l" by simp
  then show "holds (map (\<lambda>k. if P k then k\<lparr>lf_blkhd := f k\<rparr> else k) l) = holds l"
    "lf_wf (map (\<lambda>k. if P k then k\<lparr>lf_blkhd := f k\<rparr> else k) l) = lf_wf l"
    by (simp_all only: holds_def lf_wf_def)
qed

lemma clearlock_sane:
  assumes "sane l" and "range_ok (lf_start u) (lf_end u)"
  shows "\<exists>e l' w. lf_clearlock mem u l = Some (e, l', w) \<and> sane l'
    \<and> (if mem = None \<and> (\<exists>k \<in> set l. splits_lock u k) then e = Some ENOLCK \<and> map core l' = map core l
       else e = None \<and> holds l' = holds l - owned (lf_id u) (lf_start u) (lf_end u))"
proof -
  obtain e l' w where C: "lf_clearlock mem u l = Some (e, l', w)" "lf_wf l'"
    "if mem = None \<and> (\<exists>k \<in> set l. splits_lock u k) then e = Some ENOLCK \<and> map core l' = map core l
     else e = None \<and> holds l' = holds l - owned (lf_id u) (lf_start u) (lf_end u)"
    using lf_clearlock_spec [of l u mem] assms unfolding sane_def by blast
  then have "holds l' \<subseteq> holds l" by (auto simp: holds_def split: if_splits)
  then have "conflict_free (holds l')" using assms(1) conflict_free_mono unfolding sane_def by blast
  with C show ?thesis unfolding sane_def by blast
qed

text \<open>Where no lock of the owner and the same type touches the range, nothing is coalesced.\<close>

definition apart :: "lockf \<Rightarrow> lockf list \<Rightarrow> bool" where
  "apart lock l \<longleftrightarrow> (\<forall>k \<in> set l. lf_id k = lf_id lock \<and> lf_type k = lf_type lock \<longrightarrow>
    lf_end k \<noteq> -1 \<and> lf_end k + 1 < lf_start lock \<or> lf_end lock \<noteq> -1 \<and> lf_end lock + 1 < lf_start k)"

lemma coelesce_apart:
  assumes "claims_wf (map core l)" "p < length l"
    and "\<forall>i < length l. i \<noteq> p \<longrightarrow> lf_id (l ! i) = lf_id (l ! p) \<longrightarrow> lf_type (l ! i) = lf_type (l ! p) \<longrightarrow>
      \<not> (lf_end (l ! i) \<noteq> -1 \<and> lf_end (l ! i) + 1 = lf_start (l ! p))
      \<and> \<not> (lf_end (l ! p) \<noteq> -1 \<and> lf_end (l ! p) + 1 = lf_start (l ! i))"
  shows "lf_coelesce_adjacent l p i = Some l"
proof (induction "length l - i" arbitrary: i rule: less_induct)
  case less
  show ?case
  proof (cases "i < length l")
    case True
    have ok: "entry_ok (ent (l ! i))" "entry_ok (ent (l ! p))"
      using claims_wf_entry [OF assms(1)] True assms(2) by simp_all
    have "lf_coelesce_adjacent l p i = lf_coelesce_adjacent l p (Suc i)"
      using True assms(3) wrap64_simps(1) [OF ok(1)] wrap64_simps(1) [OF ok(2)]
      by (subst lf_coelesce_adjacent.simps) (auto simp: Let_def RL_INFINITY_def)
    with less.hyps [of "Suc i"] True show ?thesis by simp
  qed (simp add: lf_coelesce_adjacent.simps)
qed

lemma granted_apart:
  assumes wf: "claims_wf (map core l)" and ok: "range_ok (lf_start lock) (lf_end lock)"
    and g: "granted lock l l' p" and ap: "apart lock l"
    and i: "i < length l'" "i \<noteq> p" "lf_id (l' ! i) = lf_id lock" "lf_type (l' ! i) = lf_type lock"
  shows "core (l' ! p) = core lock \<and> \<not> (lf_end (l' ! i) \<noteq> -1 \<and> lf_end (l' ! i) + 1 = lf_start lock)
    \<and> \<not> (lf_end lock \<noteq> -1 \<and> lf_end lock + 1 = lf_start (l' ! i))"
proof -
  let ?me = "lf_id lock" and ?s = "lf_start lock" and ?f = "lf_end lock"
  obtain A k B where l': "l' = A @ k # B" "p = length A"
    and alt: "core k = core lock \<and> all_before ?me ?s A \<and> all_after ?me ?f B
         \<and> map core (A @ B) = cuts ?me ?s ?f (map core l)
       \<or> l' = l \<and> lf_id k = ?me \<and> lf_type k = lf_type lock \<and> lf_start k \<le> ?s
         \<and> (lf_end k = -1 \<or> ?f \<noteq> -1 \<and> ?f \<le> lf_end k)"
    using g unfolding granted_def by blast
  have "\<not> (l' = l \<and> lf_id k = ?me \<and> lf_type k = lf_type lock \<and> lf_start k \<le> ?s
         \<and> (lf_end k = -1 \<or> ?f \<noteq> -1 \<and> ?f \<le> lf_end k))"
  proof
    assume same: "l' = l \<and> lf_id k = ?me \<and> lf_type k = lf_type lock \<and> lf_start k \<le> ?s
         \<and> (lf_end k = -1 \<or> ?f \<noteq> -1 \<and> ?f \<le> lf_end k)"
    then have "k \<in> set l" using l'(1) by auto
    with same ap have "lf_end k \<noteq> -1 \<and> lf_end k + 1 < ?s \<or> ?f \<noteq> -1 \<and> ?f + 1 < lf_start k"
      unfolding apart_def by blast
    with same ok show False by (auto simp: range_ok_def RL_INFINITY_def)
  qed
  with alt have *: "core k = core lock" "map core (A @ B) = cuts ?me ?s ?f (map core l)" by blast+
  have "l' ! i \<in> set (A @ B)"
    using i(1,2) l' by (auto simp: nth_append nth_Cons' split: if_splits)
  then have "core (l' ! i) \<in> set (cuts ?me ?s ?f (map core l))" using *(2) by (metis image_eqI set_map)
  then obtain q where q: "q \<in> set l" "core (l' ! i) \<in> set (cut ?me ?s ?f (core q))" by (auto simp: cuts_def)
  have "lf_id q = ?me" "lf_type q = lf_type lock"
    using q(2) i(3,4) by (auto simp: core_def split: if_splits)
  then have far: "lf_end q \<noteq> -1 \<and> lf_end q + 1 < ?s \<or> ?f \<noteq> -1 \<and> ?f + 1 < lf_start q"
    using ap q(1) by (auto simp: apart_def)
  then have "cut ?me ?s ?f (core q) = [core q]"
    by (intro cut_other) (auto simp: before_def after_def RL_INFINITY_def)
  with q(2) have "lf_start (l' ! i) = lf_start q" "lf_end (l' ! i) = lf_end q"
    by (auto simp: core_def ent_def mk_entry_def)
  with far *(1) l' claims_wf_entry [OF wf q(1)] ok show ?thesis by (auto simp: range_ok_def RL_INFINITY_def)
qed

lemma coelesce_granted_apart:
  assumes wf: "claims_wf (map core l)" and ok: "range_ok (lf_start lock) (lf_end lock)"
    and g: "granted lock l l' p" and ap: "apart lock l"
  shows "lf_coelesce_adjacent l' p 0 = Some l'"
proof (rule coelesce_apart)
  note gs = granted_spec [OF wf ok g]
  have type: "lf_type (l' ! p) = lf_type lock" using g by (auto simp: granted_def core_def)
  show "\<forall>i < length l'. i \<noteq> p \<longrightarrow> lf_id (l' ! i) = lf_id (l' ! p) \<longrightarrow> lf_type (l' ! i) = lf_type (l' ! p) \<longrightarrow>
    \<not> (lf_end (l' ! i) \<noteq> -1 \<and> lf_end (l' ! i) + 1 = lf_start (l' ! p))
    \<and> \<not> (lf_end (l' ! p) \<noteq> -1 \<and> lf_end (l' ! p) + 1 = lf_start (l' ! i))"
  proof (intro allI impI)
    fix i
    assume i: "i < length l'" "i \<noteq> p" "lf_id (l' ! i) = lf_id (l' ! p)" "lf_type (l' ! i) = lf_type (l' ! p)"
    show "\<not> (lf_end (l' ! i) \<noteq> -1 \<and> lf_end (l' ! i) + 1 = lf_start (l' ! p))
      \<and> \<not> (lf_end (l' ! p) \<noteq> -1 \<and> lf_end (l' ! p) + 1 = lf_start (l' ! i))"
      using granted_apart [OF wf ok g ap i(1,2)] i(3,4) gs type
      by (auto simp: core_def ent_def mk_entry_def)
  qed
qed (use granted_spec [OF wf ok g] in blast)+

text \<open>The requests after which the locks of the others are all still there: nothing is coalesced, or
  there is nobody else.\<close>

definition quiet :: "lockf \<Rightarrow> lockf list \<Rightarrow> bool" where
  "quiet lock l \<longleftrightarrow> apart lock l \<or> (\<forall>k \<in> set l. lf_id k = lf_id lock)"

lemma quiet_holds:
  assumes wf: "claims_wf (map core l)" and ok: "range_ok (lf_start lock) (lf_end lock)"
    and g: "granted lock l l1 p" and q: "quiet lock l"
    and l2: "lf_coelesce_adjacent l1 p 0 = Some l2" "thinned (lf_id lock) (map core l1) (map core l2)"
  shows "holds l2 = regranted lock (holds l)"
proof (cases "apart lock l")
  case True
  from coelesce_granted_apart [OF wf ok g this] l2(1) granted_spec [OF wf ok g] show ?thesis by simp
next
  case False
  with q have own: "\<forall>k \<in> set l. lf_id k = lf_id lock" by (simp add: quiet_def)
  have "i = lf_id lock" if "(i, t, x) \<in> regranted lock (holds l)" for i t x
    using that own by (auto simp: regranted_def holds_def claims_core)
  moreover have "holds l1 = regranted lock (holds l)" using granted_spec [OF wf ok g] by blast
  moreover have "holds l2 \<subseteq> holds l1" "(lf_id lock, t, x) \<in> holds l1 \<longrightarrow> (lf_id lock, t, x) \<in> holds l2" for t x
    using l2(2) by (auto simp: thinned_def holds_def)
  ultimately show ?thesis by (intro equalityI subsetI) (fastforce, metis (no_types, opaque_lifting) surj_pair)
qed

lemma setlock_unblocked:
  assumes s: "sane l" and ok: "range_ok (lf_start lock) (lf_end lock)" and free: "\<forall>k \<in> set l. \<not> blocks lock k"
  shows "\<exists>e l' w. lf_setlock threads mem lock l = Some (Lf_return e l' w) \<and> sane l'
    \<and> (if mem = None \<and> needs_split lock l then e = Some ENOLCK \<and> l' = l
       else e = None \<and> own_claims (lf_id lock) (holds l') = own_claims (lf_id lock) (regranted lock (holds l))
         \<and> holds l' \<subseteq> regranted lock (holds l) \<and> (quiet lock l \<longrightarrow> holds l' = regranted lock (holds l)))"
proof -
  have wf: "claims_wf (map core l)" and cf: "conflict_free (holds l)" using s by (simp_all add: sane_def lf_wf_def)
  have blk: "lf_getblock l lock 0 = Some None" by (rule getblock_free [OF free])
  obtain e l1 p w where L: "setlock_loop mem lock l None 0 [] = Some (e, l1, p, w)"
    "if e = None then granted lock l l1 p else e = Some ENOLCK \<and> mem = None \<and> needs_split lock l \<and> l1 = l"
    using setlock_loop_spec [OF wf ok] by blast
  show ?thesis
  proof (cases "mem = None \<and> needs_split lock l")
    case True
    then have m: "mem = None" and n: "needs_split lock l" by simp_all
    from setlock_loop_split [OF wf ok n] L(1)[unfolded m] have "e = Some ENOLCK" "l1 = l" by auto
    with L(1) blk s True show ?thesis by (simp add: lf_setlock_def)
  next
    case False
    with L(2) have e: "e = None" and g': "granted lock l l1 p" by (auto split: if_splits)
    from granted_spec [OF wf ok g'] have g: "p < length l1" "lf_id (l1 ! p) = lf_id lock" "claims_wf (map core l1)"
      "holds l1 = regranted lock (holds l)" by simp_all
    obtain l2 where l2: "lf_coelesce_adjacent l1 p 0 = Some l2" "thinned (lf_id lock) (map core l1) (map core l2)"
      using lf_coelesce_thinned [OF g(3,1), of 0] g(2) by auto
    have sub: "holds l2 \<subseteq> regranted lock (holds l)" "lf_wf l2"
      and own: "own_claims (lf_id lock) (holds l2) = own_claims (lf_id lock) (regranted lock (holds l))"
      using l2(2) g(4) by (auto simp: thinned_def holds_def lf_wf_def own_claims_def)
    have "conflict_free (holds l2)"
      using conflict_free_mono [OF grant_conflict_free [OF cf wf ok free]] sub(1) by (simp add: regranted_def)
    with sub own L(1) l2(1) blk e False quiet_holds [OF wf ok g' _ l2] show ?thesis
      by (auto simp: lf_setlock_def sane_def)
  qed
qed

lemma upgrade_sane:
  assumes "sane l" "range_ok (lf_start lock) (lf_end lock)"
  shows "\<exists>e l' w. lf_clearlock mem (lock\<lparr>lf_type := F_UNLCK\<rparr>) l = Some (e, l', w) \<and> sane l'
    \<and> others (lf_id lock) l' = others (lf_id lock) l
    \<and> (if mem = None \<and> (\<exists>k \<in> set l. splits_lock lock k) then e = Some ENOLCK \<and> map core l' = map core l
       else e = None \<and> holds l' = holds l - owned (lf_id lock) (lf_start lock) (lf_end lock))"
proof -
  have "splits_lock (lock\<lparr>lf_type := F_UNLCK\<rparr>) = splits_lock lock" by (rule ext) (simp add: splits_lock_def)
  with clearlock_sane [OF assms(1), of "lock\<lparr>lf_type := F_UNLCK\<rparr>" mem] assms
    lf_clearlock_others [of l mem "lock\<lparr>lf_type := F_UNLCK\<rparr>"] show ?thesis
    by (fastforce simp: sane_def)
qed

text \<open>A request that is blocked, with the lock at position \<open>j\<close> as the one found.\<close>

definition deadlocked :: "(nat \<Rightarrow> (u16 \<times> nat) option option list) \<Rightarrow> lockf \<Rightarrow> lockf \<Rightarrow> bool" where
  "deadlocked threads lock block \<longleftrightarrow> lf_flags lock AND F_POSIX \<noteq> 0 \<and> lf_flags block AND F_POSIX \<noteq> 0
    \<and> lf_deadlock (lf_id lock) 0 (threads (lf_id block))"

definition upgrades :: "lockf \<Rightarrow> bool" where
  "upgrades lock \<longleftrightarrow> lf_flags lock AND F_FLOCK \<noteq> 0 \<and> lf_type lock = F_WRLCK"

text \<open>Asleep: the request stands at the end of the queue of the lock that blocks it.\<close>

definition queued_at :: "lockf \<Rightarrow> lockf \<Rightarrow> lockf list \<Rightarrow> bool" where
  "queued_at lock block l \<longleftrightarrow> (\<exists>k \<in> set l. k = block\<lparr>lf_blkhd := lf_blkhd block @ [lf_addr lock]\<rparr>)"

lemma sane_core: "map core l' = map core l \<Longrightarrow> sane l \<Longrightarrow> sane l'"
  by (simp add: sane_def holds_def lf_wf_def)

lemma sane_blkhd: "sane (map (\<lambda>k. if P k then k\<lparr>lf_blkhd := g k\<rparr> else k) m) \<longleftrightarrow> sane m"
  "holds (map (\<lambda>k. if P k then k\<lparr>lf_blkhd := g k\<rparr> else k) m) = holds m"
  unfolding sane_def by (simp_all only: holds_block_update)

lemma setlock_blocked:
  assumes s: "sane l" and ok: "range_ok (lf_start lock) (lf_end lock)" and k: "k \<in> set l" "blocks lock k"
  shows "\<exists>j < length l. blocks lock (l ! j) \<and>
    (if lf_flags lock AND F_WAIT = 0 then lf_setlock threads mem lock l = Some (Lf_return (Some EAGAIN) l [])
     else if deadlocked threads lock (l ! j) then lf_setlock threads mem lock l = Some (Lf_return (Some EDEADLK) l [])
     else if upgrades lock \<and> mem = None \<and> (\<exists>k \<in> set l. splits_lock lock k)
       then \<exists>l' w. lf_setlock threads mem lock l = Some (Lf_return (Some ENOLCK) l' w) \<and> map core l' = map core l
     else \<exists>l' w. lf_setlock threads mem lock l = Some (Lf_sleep l' (lf_addr (l ! j)) w) \<and> sane l'
       \<and> queued_at lock (l ! j) l'
       \<and> holds l' = (if upgrades lock then holds l - owned (lf_id lock) (lf_start lock) (lf_end lock) else holds l))"
proof -
  obtain j where j: "lf_getblock l lock 0 = Some (Some j)" "j < length l" "blocks lock (l ! j)"
    using getblock_blocked [OF k] by blast
  obtain e l' w where C: "lf_clearlock mem (lock\<lparr>lf_type := F_UNLCK\<rparr>) l = Some (e, l', w)" "sane l'"
    "others (lf_id lock) l' = others (lf_id lock) l"
    "if mem = None \<and> (\<exists>k \<in> set l. splits_lock lock k) then e = Some ENOLCK \<and> map core l' = map core l
     else e = None \<and> holds l' = holds l - owned (lf_id lock) (lf_start lock) (lf_end lock)"
    using upgrade_sane [OF s ok] by blast
  have "l ! j \<in> set (others (lf_id lock) l)" using j(2,3) by (simp add: others_def blocks_def)
  then have stays: "l ! j \<in> set l" "l ! j \<in> set l'" using C(3) by (metis others_def filter_is_subset subsetD)+
  let ?queue = "map (\<lambda>k. if lf_addr k = lf_addr (l ! j) then k\<lparr>lf_blkhd := lf_blkhd k @ [lf_addr lock]\<rparr> else k)"
  have queued: "queued_at lock (l ! j) (?queue m)" if "l ! j \<in> set m" for m
    using that unfolding queued_at_def by force
  consider "lf_flags lock AND F_WAIT = 0"
    | "lf_flags lock AND F_WAIT \<noteq> 0" "deadlocked threads lock (l ! j)"
    | (up) "lf_flags lock AND F_WAIT \<noteq> 0" "\<not> deadlocked threads lock (l ! j)" "upgrades lock"
    | (wait) "lf_flags lock AND F_WAIT \<noteq> 0" "\<not> deadlocked threads lock (l ! j)" "\<not> upgrades lock"
    by blast
  then show ?thesis
  proof cases
    case up
    then have *: "lf_setlock threads mem lock l = Some (case e of
        None \<Rightarrow> Lf_sleep (?queue l') (lf_addr (l ! j)) w | Some _ \<Rightarrow> Lf_return e l' w)"
      using j(1) C(1) by (auto simp: lf_setlock_def deadlocked_def upgrades_def Let_def split: option.splits)
    show ?thesis
    proof (cases "mem = None \<and> (\<exists>k \<in> set l. splits_lock lock k)")
      case True
      with C(4) * up j(2,3) show ?thesis by (intro exI [of _ j]) simp
    next
      case False
      then have "e = None" "holds l' = holds l - owned (lf_id lock) (lf_start lock) (lf_end lock)" using C(4) by auto
      with False * up j(2,3) C(2) queued [OF stays(2)] sane_blkhd show ?thesis by (intro exI [of _ j]) auto
    qed
  next
    case wait
    then have "lf_setlock threads mem lock l = Some (Lf_sleep (?queue l) (lf_addr (l ! j)) [])"
      using j(1) by (auto simp: lf_setlock_def deadlocked_def upgrades_def Let_def)
    with wait j(2,3) s queued [OF stays(1)] sane_blkhd show ?thesis by (intro exI [of _ j]) auto
  qed (use j in \<open>auto simp: lf_setlock_def deadlocked_def Let_def\<close>)
qed

section \<open>The locks of a file over time\<close>

text \<open>The chain together with the requests that sleep in \<open>lf_setlock\<close> and whether they have been woken.
  Any process may ask for a lock, release one, be interrupted by a signal, or go round the loop again
  once it is awake. What a sleeping thread waits for is found by looking for its request in the queues.\<close>

record lk_sys =
  sys_locks :: "lockf list"
  sys_waiting :: "(lockf \<times> bool) list"

definition wake_all :: "nat list \<Rightarrow> (lockf \<times> bool) list \<Rightarrow> (lockf \<times> bool) list" where
  "wake_all w = map (\<lambda>(r, b). (r, b \<or> lf_addr r \<in> set w))"

definition sys_threads :: "lk_sys \<Rightarrow> nat \<Rightarrow> (u16 \<times> nat) option option list" where
  "sys_threads sys p =
    map (\<lambda>(r, b). Some (map_option (\<lambda>k. (lf_flags k, lf_id k))
                        (List.find (\<lambda>k. lf_addr r \<in> set (lf_blkhd k)) (sys_locks sys))))
      (filter (\<lambda>(r, b). lf_id r = p) (sys_waiting sys))"

definition settle :: "lf_outcome \<Rightarrow> lockf \<Rightarrow> (lockf \<times> bool) list \<Rightarrow> lk_sys" where
  "settle r lock waiting =
    (case r of
       Lf_return e l w \<Rightarrow> \<lparr>sys_locks = l, sys_waiting = wake_all w waiting\<rparr>
     | Lf_sleep l b w \<Rightarrow> \<lparr>sys_locks = l, sys_waiting = wake_all w waiting @ [(lock, False)]\<rparr>)"

inductive lk_step :: "lk_sys \<Rightarrow> lk_sys \<Rightarrow> bool" where
  ask: "range_ok (lf_start lock) (lf_end lock) \<Longrightarrow>
    lf_setlock (sys_threads sys) mem lock (sys_locks sys) = Some r \<Longrightarrow>
    lk_step sys (settle r lock (sys_waiting sys))"
| again: "sys_waiting sys = ws @ (lock, True) # ws' \<Longrightarrow>
    lf_setlock (sys_threads (sys\<lparr>sys_waiting := ws @ ws'\<rparr>)) mem lock (sys_locks sys) = Some r \<Longrightarrow>
    lk_step sys (settle r lock (ws @ ws'))"
| interrupted: "sys_waiting sys = ws @ (lock, b) # ws' \<Longrightarrow>
    lk_step sys \<lparr>sys_locks = map (\<lambda>k. if lf_addr lock \<in> set (lf_blkhd k)
                                      then k\<lparr>lf_blkhd := remove1 (lf_addr lock) (lf_blkhd k)\<rparr> else k) (sys_locks sys),
                 sys_waiting = ws @ ws'\<rparr>"
| release: "range_ok (lf_start unlock) (lf_end unlock) \<Longrightarrow>
    lf_clearlock mem unlock (sys_locks sys) = Some (e, l, w) \<Longrightarrow>
    lk_step sys \<lparr>sys_locks = l, sys_waiting = wake_all w (sys_waiting sys)\<rparr>"

definition sys_inv :: "lk_sys \<Rightarrow> bool" where
  "sys_inv sys \<longleftrightarrow> sane (sys_locks sys)
    \<and> (\<forall>(r, b) \<in> set (sys_waiting sys). range_ok (lf_start r) (lf_end r))"

lemma setlock_sane:
  assumes "sane l" "range_ok (lf_start lock) (lf_end lock)" "lf_setlock threads mem lock l = Some r"
  shows "case r of Lf_return e l' w \<Rightarrow> sane l' | Lf_sleep l' b w \<Rightarrow> sane l'"
proof (cases "\<forall>k \<in> set l. \<not> blocks lock k")
  case True
  then show ?thesis using setlock_unblocked [OF assms(1,2) True, of threads mem] assms(3) by auto
next
  case False
  then obtain k where "k \<in> set l" "blocks lock k" by blast
  note blocked = setlock_blocked [OF assms(1,2) this, of threads mem, unfolded assms(3) option.inject]
  show ?thesis
    using blocked assms(1) by (elim exE conjE) (auto dest: sane_core split: if_split_asm)
qed

lemma wake_all_requests: "fst ` set (wake_all w ws) = fst ` set ws"
  by (force simp: wake_all_def)

lemma sys_inv_requests:
  "sys_inv \<lparr>sys_locks = l, sys_waiting = ws\<rparr> \<longleftrightarrow> sane l \<and> (\<forall>r \<in> fst ` set ws. range_ok (lf_start r) (lf_end r))"
  by (auto simp: sys_inv_def)

lemma settle_inv:
  assumes "sane (sys_locks sys)" "range_ok (lf_start lock) (lf_end lock)"
    and "lf_setlock threads mem lock (sys_locks sys) = Some r"
    and "\<forall>r \<in> fst ` set ws. range_ok (lf_start r) (lf_end r)"
  shows "sys_inv (settle r lock ws)"
  using setlock_sane [OF assms(1-3)] assms(2,4)
  by (cases r) (auto simp: settle_def sys_inv_requests wake_all_requests simp del: image_Un)

lemma lk_step_inv: "lk_step sys sys' \<Longrightarrow> sys_inv sys \<Longrightarrow> sys_inv sys'"
proof (induction rule: lk_step.induct)
  case (ask lock sys mem r)
  then show ?case by (intro settle_inv) (auto simp: sys_inv_def)
next
  case (again sys ws lock ws' mem r)
  then show ?case by (intro settle_inv) (auto simp: sys_inv_def)
next
  case (interrupted sys ws lock b ws')
  then show ?case
    unfolding sys_inv_requests sane_def holds_block_update by (auto simp: sys_inv_def sane_def)
next
  case (release unlock mem sys e l w)
  then have "sane l"
    using clearlock_sane [of "sys_locks sys" unlock mem] by (auto simp: sys_inv_def)
  moreover have "\<forall>r \<in> fst ` set (sys_waiting sys). range_ok (lf_start r) (lf_end r)"
    using release(3) by (auto simp: sys_inv_def)
  ultimately show ?case unfolding sys_inv_requests wake_all_requests by blast
qed

lemma lk_reachable_inv: "lk_step\<^sup>*\<^sup>* sys sys' \<Longrightarrow> sys_inv sys \<Longrightarrow> sys_inv sys'"
  by (induction rule: rtranclp_induct) (auto intro: lk_step_inv)

section \<open>What the owners have been granted\<close>

text \<open>The same system together with the record an outside observer keeps from the results of the calls
  alone: who has been granted which offsets with which type and has not given them back. A request that
  returns 0 has been granted, an exclusive \<^verbatim>\<open>flock\<close> that goes to sleep has given up its old lock
  first, and a release that returns 0 has given the range back. Grants are restricted to \<open>quiet\<close>
  requests; the example \<open>lf_coelesce_loses_lock\<close> shows why.\<close>

type_synonym grants = "(nat \<times> int \<times> int) set"

definition recorded :: "lf_outcome \<Rightarrow> lockf \<Rightarrow> grants \<Rightarrow> grants" where
  "recorded r lock G =
    (case r of
       Lf_return None l w \<Rightarrow> regranted lock G
     | Lf_return (Some e) l w \<Rightarrow> G
     | Lf_sleep l b w \<Rightarrow> if upgrades lock then G - owned (lf_id lock) (lf_start lock) (lf_end lock) else G)"

definition quiet_grant :: "lockf \<Rightarrow> lockf list \<Rightarrow> bool" where
  "quiet_grant lock l \<longleftrightarrow> (\<exists>k \<in> set l. blocks lock k) \<or> quiet lock l"

inductive lk_run :: "lk_sys \<Rightarrow> grants \<Rightarrow> bool" where
  run_start: "lk_run \<lparr>sys_locks = [], sys_waiting = []\<rparr> {}"
| run_ask: "lk_run sys G \<Longrightarrow> range_ok (lf_start lock) (lf_end lock) \<Longrightarrow> quiet_grant lock (sys_locks sys) \<Longrightarrow>
    lf_setlock (sys_threads sys) mem lock (sys_locks sys) = Some r \<Longrightarrow>
    lk_run (settle r lock (sys_waiting sys)) (recorded r lock G)"
| run_again: "lk_run sys G \<Longrightarrow> sys_waiting sys = ws @ (lock, True) # ws' \<Longrightarrow> quiet_grant lock (sys_locks sys) \<Longrightarrow>
    lf_setlock (sys_threads (sys\<lparr>sys_waiting := ws @ ws'\<rparr>)) mem lock (sys_locks sys) = Some r \<Longrightarrow>
    lk_run (settle r lock (ws @ ws')) (recorded r lock G)"
| run_interrupted: "lk_run sys G \<Longrightarrow> sys_waiting sys = ws @ (lock, b) # ws' \<Longrightarrow>
    lk_run \<lparr>sys_locks = map (\<lambda>k. if lf_addr lock \<in> set (lf_blkhd k)
                                 then k\<lparr>lf_blkhd := remove1 (lf_addr lock) (lf_blkhd k)\<rparr> else k) (sys_locks sys),
            sys_waiting = ws @ ws'\<rparr> G"
| run_release: "lk_run sys G \<Longrightarrow> range_ok (lf_start unlock) (lf_end unlock) \<Longrightarrow>
    lf_clearlock mem unlock (sys_locks sys) = Some (e, l, w) \<Longrightarrow>
    lk_run \<lparr>sys_locks = l, sys_waiting = wake_all w (sys_waiting sys)\<rparr>
      (if e = None then G - owned (lf_id unlock) (lf_start unlock) (lf_end unlock) else G)"

lemma lk_run_reachable: "lk_run sys G \<Longrightarrow> lk_step\<^sup>*\<^sup>* \<lparr>sys_locks = [], sys_waiting = []\<rparr> sys"
  by (induction rule: lk_run.induct) (auto elim!: rtranclp.rtrancl_into_rtrancl intro: lk_step.intros)

lemma lk_run_inv: "lk_run sys G \<Longrightarrow> sys_inv sys"
  by (drule lk_run_reachable) (erule lk_reachable_inv, simp add: sys_inv_def sane_def lf_wf_def holds_def conflict_free_def)

lemma recorded_holds:
  assumes s: "sane l" and ok: "range_ok (lf_start lock) (lf_end lock)" and q: "quiet_grant lock l"
    and r: "lf_setlock threads mem lock l = Some r"
  shows "holds (sys_locks (settle r lock ws)) = recorded r lock (holds l)"
proof (cases "\<forall>k \<in> set l. \<not> blocks lock k")
  case True
  then have "quiet lock l" using q by (auto simp: quiet_grant_def)
  with setlock_unblocked [OF s ok True, of threads mem] r show ?thesis
    by (auto simp: settle_def recorded_def split: if_splits)
next
  case False
  then obtain k where "k \<in> set l" "blocks lock k" by blast
  from setlock_blocked [OF s ok this, of threads mem] r show ?thesis
    by (auto simp: settle_def recorded_def holds_def split: if_splits)
qed

lemma lk_run_holds: "lk_run sys G \<Longrightarrow> holds (sys_locks sys) = G"
proof (induction rule: lk_run.induct)
  case (run_ask sys G lock mem r)
  then show ?case
    using recorded_holds [of "sys_locks sys" lock "sys_threads sys" mem r] lk_run_inv [OF run_ask(1)]
    by (simp add: sys_inv_def)
next
  case (run_again sys G ws lock ws' mem r)
  then show ?case
    using recorded_holds [of "sys_locks sys" lock "sys_threads (sys\<lparr>sys_waiting := ws @ ws'\<rparr>)" mem r] lk_run_inv [OF run_again(1)]
    by (simp add: sys_inv_def)
next
  case (run_release sys G unlock mem e l w)
  then show ?case
    using clearlock_sane [of "sys_locks sys" unlock mem] lk_run_inv [OF run_release(1)]
    by (auto simp: sys_inv_def holds_def split: if_splits)
qed (simp_all add: holds_block_update, simp add: holds_def)

section \<open>Examples\<close>

definition lk :: "nat \<Rightarrow> nat \<Rightarrow> int \<Rightarrow> int \<Rightarrow> int \<Rightarrow> lockf" where
  "lk a i t s f = \<lparr>lf_flags = F_POSIX OR F_WAIT, lf_type = t, lf_start = s, lf_end = f, lf_id = i, lf_addr = a, lf_blkhd = []\<rparr>"

lemma lk_sel [simp]:
  "lf_type (lk a i t s f) = t" "lf_start (lk a i t s f) = s" "lf_end (lk a i t s f) = f"
  "lf_id (lk a i t s f) = i" "lf_addr (lk a i t s f) = a" "lf_blkhd (lk a i t s f) = []"
  by (simp_all add: lk_def)

lemma covers_mk [simp]: "x \<in> covers (mk_entry s f) \<longleftrightarrow> s \<le> x \<and> (f = -1 \<or> x \<le> f)"
  by (simp add: covers_def RL_INFINITY_def)

definition two_readers :: "lockf list" where
  "two_readers = [lk 1 1 F_RDLCK 0 9, lk 2 2 F_RDLCK 5 20]"

lemma sane_shared: "sane two_readers"
  by (auto simp: two_readers_def sane_def lf_wf_def holds_def core_def ent_def range_ok_def RL_INFINITY_def intro: conflict_freeI)

section \<open>Properties\<close>

text \<open>C3: mutual exclusion. \<open>G\<close> is what the results of the calls say: the offsets each owner has been
  granted and has not given back. Starting from a file without locks, whatever requests, releases,
  signals and wake-ups happen in whatever order, the chain holds exactly \<open>G\<close>, no two owners have been
  granted the same offset unless both share it, and the locks of each owner are disjoint and ascending.
  The one condition on the run is that a request is granted only when it overlaps or touches no lock its
  owner has with the same type, or when only its owner has locks.\<close>

theorem lf_mutual_exclusion:
  assumes "lk_run sys G"
  shows "conflict_free G \<and> holds (sys_locks sys) = G \<and> lf_wf (sys_locks sys)"
  using lk_run_inv [OF assms] lk_run_holds [OF assms] by (auto simp: sys_inv_def sane_def)

theorem lf_mutual_exclusion_witness:
  "conflict_free (regranted (lk 2 2 F_WRLCK 10 19) (regranted (lk 1 1 F_WRLCK 0 9) {}))
    \<and> holds [lk 1 1 F_WRLCK 0 9, lk 2 2 F_WRLCK 10 19]
        = regranted (lk 2 2 F_WRLCK 10 19) (regranted (lk 1 1 F_WRLCK 0 9) {})
    \<and> lf_wf [lk 1 1 F_WRLCK 0 9, lk 2 2 F_WRLCK 10 19]"
proof -
  let ?s0 = "\<lparr>sys_locks = [], sys_waiting = []\<rparr>" and ?s1 = "\<lparr>sys_locks = [lk 1 1 F_WRLCK 0 9], sys_waiting = []\<rparr>"
  have r1: "lf_setlock (sys_threads ?s0) None (lk 1 1 F_WRLCK 0 9) (sys_locks ?s0) =
      Some (Lf_return None [lk 1 1 F_WRLCK 0 9] [])"
    by (simp add: lf_setlock_def lf_getblock.simps lf_findoverlap.simps setlock_loop.simps lf_coelesce_adjacent.simps)
  have "lk_run (settle (Lf_return None [lk 1 1 F_WRLCK 0 9] []) (lk 1 1 F_WRLCK 0 9) (sys_waiting ?s0))
      (recorded (Lf_return None [lk 1 1 F_WRLCK 0 9] []) (lk 1 1 F_WRLCK 0 9) {})"
    by (rule lk_run.run_ask [OF lk_run.run_start _ _ r1]) (simp_all add: quiet_grant_def quiet_def range_ok_def RL_INFINITY_def)
  then have one: "lk_run ?s1 (regranted (lk 1 1 F_WRLCK 0 9) {})"
    by (simp add: settle_def wake_all_def recorded_def)
  have r2: "lf_setlock (sys_threads ?s1) None (lk 2 2 F_WRLCK 10 19) (sys_locks ?s1) =
      Some (Lf_return None [lk 1 1 F_WRLCK 0 9, lk 2 2 F_WRLCK 10 19] [])"
    by (simp add: lf_setlock_def lf_getblock.simps lf_findoverlap.simps lf_skips_def lf_overlap_def setlock_loop.simps
        lf_coelesce_adjacent.simps)
  have "lk_run (settle (Lf_return None [lk 1 1 F_WRLCK 0 9, lk 2 2 F_WRLCK 10 19] []) (lk 2 2 F_WRLCK 10 19) (sys_waiting ?s1))
      (recorded (Lf_return None [lk 1 1 F_WRLCK 0 9, lk 2 2 F_WRLCK 10 19] []) (lk 2 2 F_WRLCK 10 19)
        (regranted (lk 1 1 F_WRLCK 0 9) {}))"
    by (rule lk_run.run_ask [OF one _ _ r2]) (simp_all add: quiet_grant_def quiet_def apart_def range_ok_def RL_INFINITY_def)
  then have "lk_run \<lparr>sys_locks = [lk 1 1 F_WRLCK 0 9, lk 2 2 F_WRLCK 10 19], sys_waiting = []\<rparr>
      (regranted (lk 2 2 F_WRLCK 10 19) (regranted (lk 1 1 F_WRLCK 0 9) {}))"
    by (simp add: settle_def wake_all_def recorded_def)
  from lf_mutual_exclusion [OF this] show ?thesis by simp
qed

text \<open>C4: on a well-formed chain without conflicts a request for an admissible range that no other owner
  blocks fails, with \<^verbatim>\<open>ENOLCK\<close> and the chain as before, exactly
  when there is no memory and it has to split a lock: a lock of the owner, of the other type, that
  reaches beyond the request on both sides. In every other case it is granted: afterwards the owner holds
  exactly the requested range with the requested type and its old locks outside the range, nobody gains
  anything else, and there is no conflict. Everybody else keeps what he has when the request is
  \<open>quiet\<close>, that is when it touches no lock of its owner of the same type or when nobody else has locks;
  the example \<open>lf_coelesce_loses_lock\<close> shows what coalescing does otherwise.\<close>

theorem lf_setlock_grants:
  assumes "sane l" and "range_ok (lf_start lock) (lf_end lock)" and "\<forall>k \<in> set l. \<not> blocks lock k"
  shows "\<exists>e l' w. lf_setlock threads mem lock l = Some (Lf_return e l' w) \<and> sane l'
    \<and> (if mem = None \<and> needs_split lock l then e = Some ENOLCK \<and> l' = l
       else e = None \<and> own_claims (lf_id lock) (holds l') = own_claims (lf_id lock) (regranted lock (holds l))
         \<and> holds l' \<subseteq> regranted lock (holds l) \<and> (quiet lock l \<longrightarrow> holds l' = regranted lock (holds l)))"
  by (rule setlock_unblocked [OF assms])

theorem lf_setlock_grants_witness:
  "\<exists>e l' w. lf_setlock (\<lambda>p. []) None (lk 3 1 F_RDLCK 10 30) two_readers = Some (Lf_return e l' w) \<and> sane l'
    \<and> (if (None :: nat option) = None \<and> needs_split (lk 3 1 F_RDLCK 10 30) two_readers then e = Some ENOLCK \<and> l' = two_readers
       else e = None \<and> own_claims (lf_id (lk 3 1 F_RDLCK 10 30)) (holds l')
             = own_claims (lf_id (lk 3 1 F_RDLCK 10 30)) (regranted (lk 3 1 F_RDLCK 10 30) (holds two_readers))
         \<and> holds l' \<subseteq> regranted (lk 3 1 F_RDLCK 10 30) (holds two_readers)
         \<and> (quiet (lk 3 1 F_RDLCK 10 30) two_readers \<longrightarrow> holds l' = regranted (lk 3 1 F_RDLCK 10 30) (holds two_readers)))"
  by (rule lf_setlock_grants [OF sane_shared]) (simp_all add: two_readers_def range_ok_def RL_INFINITY_def blocks_def)

text \<open>Coalescing can lose the lock of somebody else. Owner 1 holds bytes 0 to 9, then owner 2 locks
  bytes 100 to 109; when owner 1 extends its lock by bytes 10 to 19 the link that is redirected skips the
  lock of owner 2, and owner 1 can take those bytes too.\<close>

theorem lf_coelesce_loses_lock:
  "lf_setlock threads mem (lk 3 1 F_WRLCK 10 19) [lk 1 1 F_WRLCK 0 9, lk 2 2 F_WRLCK 100 109] =
      Some (Lf_return None [lk 3 1 F_WRLCK 0 19] [])
    \<and> lf_setlock threads mem (lk 4 1 F_WRLCK 100 109) [lk 3 1 F_WRLCK 0 19] =
      Some (Lf_return None [lk 3 1 F_WRLCK 0 19, lk 4 1 F_WRLCK 100 109] [])"
  by (simp add: lf_setlock_def lf_getblock.simps lf_findoverlap.simps lf_skips_def lf_overlap_def setlock_loop.simps
      lf_coelesce_adjacent.simps lk_def wrap64_def)

text \<open>Coalescing can lose a sleeper. Owner 2 sleeps because owner 1 has bytes 0 to 9. Owner 1 then
  locks bytes 10 to 19, the first lock is freed with its queue, nobody is woken, and when owner 1 gives
  everything back there is no queue left to wake.\<close>

theorem lf_coelesce_loses_sleeper:
  "lf_setlock (\<lambda>p. []) mem (lk 2 2 F_WRLCK 0 9) [lk 1 1 F_WRLCK 0 9] = Some (Lf_sleep [(lk 1 1 F_WRLCK 0 9)\<lparr>lf_blkhd := [2]\<rparr>] 1 [])
    \<and> lf_setlock (\<lambda>p. []) mem (lk 3 1 F_WRLCK 10 19) [(lk 1 1 F_WRLCK 0 9)\<lparr>lf_blkhd := [2]\<rparr>] =
      Some (Lf_return None [lk 3 1 F_WRLCK 0 19] [])
    \<and> lf_clearlock mem (lk 5 1 F_UNLCK 0 (-1)) [lk 3 1 F_WRLCK 0 19] = Some (None, [], [])"
  by (simp add: lf_setlock_def lf_clearlock_def lf_getblock.simps lf_findoverlap.simps lf_skips_def lf_overlap_def
      setlock_loop.simps clear_loop.simps lf_wakelock_def lf_coelesce_adjacent.simps remove_at_def lk_def wrap64_def)

text \<open>C34: a request for an admissible range that somebody blocks, on a well-formed chain without conflicts.
  The search finds a lock that blocks it. Without \<^verbatim>\<open>F_WAIT\<close> the
  request fails with \<^verbatim>\<open>EAGAIN\<close> and nothing changes; with \<^verbatim>\<open>F_WAIT\<close> it fails with \<^verbatim>\<open>EDEADLK\<close> when the scan
  finds a deadlock, and nothing changes. Otherwise it goes to sleep, at the end of the queue of the lock
  that was found, and what is held stays, but for the range of an exclusive \<^verbatim>\<open>flock\<close>, which the owner
  gives up first; that needs a split without memory in the one case of \<^verbatim>\<open>ENOLCK\<close>.\<close>

theorem lf_setlock_blocks:
  assumes "sane l" and "range_ok (lf_start lock) (lf_end lock)" and "k \<in> set l" and "blocks lock k"
  shows "\<exists>j < length l. blocks lock (l ! j) \<and>
    (if lf_flags lock AND F_WAIT = 0 then lf_setlock threads mem lock l = Some (Lf_return (Some EAGAIN) l [])
     else if deadlocked threads lock (l ! j) then lf_setlock threads mem lock l = Some (Lf_return (Some EDEADLK) l [])
     else if upgrades lock \<and> mem = None \<and> (\<exists>k \<in> set l. splits_lock lock k)
       then \<exists>l' w. lf_setlock threads mem lock l = Some (Lf_return (Some ENOLCK) l' w) \<and> map core l' = map core l
     else \<exists>l' w. lf_setlock threads mem lock l = Some (Lf_sleep l' (lf_addr (l ! j)) w) \<and> sane l'
       \<and> queued_at lock (l ! j) l'
       \<and> holds l' = (if upgrades lock then holds l - owned (lf_id lock) (lf_start lock) (lf_end lock) else holds l))"
  by (rule setlock_blocked [OF assms])

theorem lf_setlock_blocks_witness:
  "\<exists>j < length two_readers. blocks (lk 3 3 F_WRLCK 8 8) (two_readers ! j) \<and>
    (if lf_flags (lk 3 3 F_WRLCK 8 8) AND F_WAIT = 0
     then lf_setlock (\<lambda>p. []) None (lk 3 3 F_WRLCK 8 8) two_readers = Some (Lf_return (Some EAGAIN) two_readers [])
     else if deadlocked (\<lambda>p. []) (lk 3 3 F_WRLCK 8 8) (two_readers ! j)
       then lf_setlock (\<lambda>p. []) None (lk 3 3 F_WRLCK 8 8) two_readers = Some (Lf_return (Some EDEADLK) two_readers [])
     else if upgrades (lk 3 3 F_WRLCK 8 8) \<and> (None :: nat option) = None
         \<and> (\<exists>k \<in> set two_readers. splits_lock (lk 3 3 F_WRLCK 8 8) k)
       then \<exists>l' w. lf_setlock (\<lambda>p. []) None (lk 3 3 F_WRLCK 8 8) two_readers = Some (Lf_return (Some ENOLCK) l' w)
         \<and> map core l' = map core two_readers
     else \<exists>l' w. lf_setlock (\<lambda>p. []) None (lk 3 3 F_WRLCK 8 8) two_readers
           = Some (Lf_sleep l' (lf_addr (two_readers ! j)) w) \<and> sane l'
       \<and> queued_at (lk 3 3 F_WRLCK 8 8) (two_readers ! j) l'
       \<and> holds l' = (if upgrades (lk 3 3 F_WRLCK 8 8)
            then holds two_readers - owned (lf_id (lk 3 3 F_WRLCK 8 8)) (lf_start (lk 3 3 F_WRLCK 8 8)) (lf_end (lk 3 3 F_WRLCK 8 8))
            else holds two_readers))"
proof (rule lf_setlock_blocks [OF sane_shared])
  show "lk 1 1 F_RDLCK 0 9 \<in> set two_readers" by (simp add: two_readers_def)
  show "blocks (lk 3 3 F_WRLCK 8 8) (lk 1 1 F_RDLCK 0 9)"
    by (simp add: blocks_def lf_overlap_def)
qed (simp_all add: range_ok_def RL_INFINITY_def)

text \<open>C5: on a well-formed chain without conflicts the release of an admissible range fails, with \<^verbatim>\<open>ENOLCK\<close> and owners, types and ranges of all locks as before, exactly
  when there is no memory and a lock of the owner reaches beyond the range on both sides, so that it has
  to be split. In every other case it takes exactly that range away from the owner, whatever the locks it
  is spread over, and leaves everybody else alone.\<close>

theorem lf_clearlock_releases:
  assumes "sane l" and "range_ok (lf_start unlock) (lf_end unlock)"
  shows "\<exists>e l' w. lf_clearlock mem unlock l = Some (e, l', w) \<and> sane l'
    \<and> (if mem = None \<and> (\<exists>k \<in> set l. splits_lock unlock k) then e = Some ENOLCK \<and> map core l' = map core l
       else e = None \<and> holds l' = holds l - owned (lf_id unlock) (lf_start unlock) (lf_end unlock))"
  by (rule clearlock_sane [OF assms])

theorem lf_clearlock_releases_witness:
  "\<exists>e l' w. lf_clearlock None (lk 9 2 F_UNLCK 7 8) two_readers = Some (e, l', w) \<and> sane l'
    \<and> (if (None :: nat option) = None \<and> (\<exists>k \<in> set two_readers. splits_lock (lk 9 2 F_UNLCK 7 8) k)
       then e = Some ENOLCK \<and> map core l' = map core two_readers
       else e = None \<and> holds l' = holds two_readers
           - owned (lf_id (lk 9 2 F_UNLCK 7 8)) (lf_start (lk 9 2 F_UNLCK 7 8)) (lf_end (lk 9 2 F_UNLCK 7 8)))"
  by (rule lf_clearlock_releases [OF sane_shared]) (simp add: range_ok_def RL_INFINITY_def)

text \<open>The offsets a request names by a start and a length.\<close>

definition region :: "int \<Rightarrow> int \<Rightarrow> int set" where
  "region start len = (if 0 < len then {start ..< start + len} else if len < 0 then {start + len ..< start} else {start ..})"

text \<open>The range of a request. For 64-bit arguments the conversion accepts a region exactly when it
  lies within the file offsets (up to the largest one when it has an end), and the range it hands on
  covers exactly the region.\<close>

theorem lf_range_accepts:
  assumes "- (2 ^ 63) \<le> start" "start < 2 ^ 63"
  shows "(\<exists>s f. lf_range_of start fl = Inr (s, f) \<and> range_span s f = region start (l_len fl))
    \<longleftrightarrow> region start (l_len fl) \<subseteq> {0 ..} \<and> (l_len fl \<noteq> 0 \<longrightarrow> region start (l_len fl) \<subseteq> {.. OFF_MAX})"
proof (cases "l_len fl = 0")
  case True
  then show ?thesis
    by (auto simp: lf_range_of_def region_def covers_def RL_INFINITY_def OFF_MAX_def)
next
  case False
  consider "0 < l_len fl" | "l_len fl < 0" using False by linarith
  then show ?thesis
  proof cases
    case 1
    have "range_span start (start + (l_len fl - 1)) = {start ..< start + l_len fl}" if "0 \<le> start"
      using 1 that by (auto simp: RL_INFINITY_def)
    moreover have "{start ..< start + l_len fl} \<subseteq> {0 ..} \<longleftrightarrow> 0 \<le> start"
      "{start ..< start + l_len fl} \<subseteq> {.. OFF_MAX} \<longleftrightarrow> start + l_len fl - 1 \<le> OFF_MAX"
      using 1 by (auto simp: subset_iff)
    ultimately show ?thesis
      using 1 by (auto simp: lf_range_of_def region_def)
  next
    case 2
    have "range_span (start + l_len fl) (start - 1) = {start + l_len fl ..< start}" if "0 < start"
      using 2 that by (auto simp: RL_INFINITY_def)
    moreover have "{start + l_len fl ..< start} \<subseteq> {0 ..} \<longleftrightarrow> 0 \<le> start + l_len fl"
      "{start + l_len fl ..< start} \<subseteq> {.. OFF_MAX}"
      using 2 assms by (auto simp: subset_iff OFF_MAX_def)
    ultimately show ?thesis
      using 2 by (auto simp: lf_range_of_def region_def)
  qed
qed

theorem lf_range_accepts_witness:
  "(\<exists>s f. lf_range_of 10 \<lparr>l_start = 10, l_len = -4, l_pid = 0, l_type = F_RDLCK, l_whence = SEEK_SET\<rparr> = Inr (s, f)
      \<and> range_span s f = region 10 (l_len \<lparr>l_start = 10, l_len = -4, l_pid = 0, l_type = F_RDLCK, l_whence = SEEK_SET\<rparr>))
    \<longleftrightarrow> region 10 (l_len \<lparr>l_start = 10, l_len = -4, l_pid = 0, l_type = F_RDLCK, l_whence = SEEK_SET\<rparr>) \<subseteq> {0 ..}
      \<and> (l_len \<lparr>l_start = 10, l_len = -4, l_pid = 0, l_type = F_RDLCK, l_whence = SEEK_SET\<rparr> \<noteq> 0
         \<longrightarrow> region 10 (l_len \<lparr>l_start = 10, l_len = -4, l_pid = 0, l_type = F_RDLCK, l_whence = SEEK_SET\<rparr>) \<subseteq> {.. OFF_MAX})"
  by (rule lf_range_accepts) simp_all

text \<open>The query. \<open>F_GETLK\<close> answers \<^verbatim>\<open>F_UNLCK\<close> exactly when the request would not be blocked;
  otherwise it describes a lock that blocks it, by type, range and, for a process lock, owner.\<close>

theorem lf_getlock_answers:
  assumes "sane l"
  shows "\<exists>fl'. lf_getlock proc_pid lock fl l = Some fl' \<and>
    (if \<forall>k \<in> set l. \<not> blocks lock k then fl' = fl\<lparr>l_type := F_UNLCK\<rparr>
     else \<exists>k \<in> set l. blocks lock k \<and> l_type fl' = lf_type k \<and> l_whence fl' = SEEK_SET
       \<and> region (l_start fl') (l_len fl') = covers (ent k)
       \<and> l_pid fl' = (if lf_flags k AND F_POSIX \<noteq> 0 then proc_pid (lf_id k) else -1))"
proof -
  have wf: "claims_wf (map core l)" using assms(1) by (simp add: sane_def lf_wf_def)
  show ?thesis
  proof (cases "\<forall>k \<in> set l. \<not> blocks lock k")
    case True
    then show ?thesis by (simp add: lf_getlock_def getblock_free)
  next
    case False
    then obtain j where j: "lf_getblock l lock 0 = Some (Some j)" "j < length l" "blocks lock (l ! j)"
      using getblock_blocked by blast
    let ?k = "l ! j"
    have k: "?k \<in> set l" using j(2) by simp
    have "entry_ok (ent ?k)" by (rule claims_wf_entry [OF wf k])
    then have ok: "0 \<le> lf_start ?k" "lf_end ?k = -1 \<or> lf_start ?k \<le> lf_end ?k \<and> lf_end ?k < 2 ^ 63 - 1"
      by (simp_all add: range_ok_def RL_INFINITY_def)
    have "wrap64 (wrap64 (lf_end ?k - lf_start ?k) + 1) = lf_end ?k - lf_start ?k + 1" if "lf_end ?k \<noteq> -1"
      using ok that by simp
    then have "region (lf_start ?k) (if lf_end ?k = -1 then 0 else wrap64 (wrap64 (lf_end ?k - lf_start ?k) + 1)) = covers (ent ?k)"
      using ok by (auto simp: region_def covers_def RL_INFINITY_def)
    with False j k show ?thesis
      by (auto simp: lf_getlock_def Let_def intro!: bexI [of _ ?k])
  qed
qed

definition ask_byte8 :: flock where
  "ask_byte8 = \<lparr>l_start = 8, l_len = 1, l_pid = 0, l_type = F_WRLCK, l_whence = SEEK_SET\<rparr>"

theorem lf_getlock_answers_witness:
  "\<exists>fl'. lf_getlock int (lk 3 3 F_WRLCK 8 8) ask_byte8 two_readers = Some fl' \<and>
    (if \<forall>k \<in> set two_readers. \<not> blocks (lk 3 3 F_WRLCK 8 8) k then fl' = ask_byte8\<lparr>l_type := F_UNLCK\<rparr>
     else \<exists>k \<in> set two_readers. blocks (lk 3 3 F_WRLCK 8 8) k \<and> l_type fl' = lf_type k
       \<and> l_whence fl' = SEEK_SET \<and> region (l_start fl') (l_len fl') = covers (ent k)
       \<and> l_pid fl' = (if lf_flags k AND F_POSIX \<noteq> 0 then int (lf_id k) else -1))"
  by (rule lf_getlock_answers [OF sane_shared])

text \<open>The deadlock scan. It looks only at the threads of the process that blocks the request: it
  reports a deadlock when one of them sleeps on a process lock of the requester, no thread before it
  sleeps on somebody else's process lock, and fewer than \<open>MAXDEPTH\<close> threads before it sleep at all.\<close>

definition waits_for :: "nat \<Rightarrow> (u16 \<times> nat) option option \<Rightarrow> bool" where
  "waits_for p ut \<longleftrightarrow> (\<exists>flags. ut = Some (Some (flags, p)) \<and> flags AND F_POSIX \<noteq> 0)"

lemma wait_loop_spec:
  "wait_loop me n ut =
    (if ut = None then (n, False)
     else if n < MAXDEPTH \<and> (\<exists>p. waits_for p ut)
     then (if waits_for me ut then (Suc n, True) else (Suc MAXDEPTH, False))
     else (Suc n, False))"
proof (induction me n ut rule: wait_loop.induct)
  case (1 me n ut)
  then show ?case
    by (subst wait_loop.simps) (auto simp: waits_for_def split: option.splits)
qed

lemma lf_deadlock_from:
  "lf_deadlock me n uts \<longleftrightarrow>
    (\<exists>before ut later. uts = before @ ut # later \<and> waits_for me ut
      \<and> (\<forall>u \<in> set before. \<forall>p. \<not> waits_for p u) \<and> n + length (filter (\<lambda>u. u \<noteq> None) before) < MAXDEPTH)"
proof (induction uts arbitrary: n)
  case (Cons u us)
  let ?R = "\<lambda>n us. \<exists>before ut later. us = before @ ut # later \<and> waits_for me ut
      \<and> (\<forall>u \<in> set before. \<forall>p. \<not> waits_for p u) \<and> n + length (filter (\<lambda>u. u \<noteq> None) before) < MAXDEPTH"
  have skip: "?R n (u # us) \<longleftrightarrow> ?R (if u = None then n else Suc n) us" if "\<forall>p. \<not> waits_for p u"
  proof
    assume "?R n (u # us)"
    then obtain b t r where b: "u # us = b @ t # r" "waits_for me t" "\<forall>u \<in> set b. \<forall>p. \<not> waits_for p u"
      "n + length (filter (\<lambda>u. u \<noteq> None) b) < MAXDEPTH" by blast
    with that obtain b' where "b = u # b'" by (cases b) auto
    with b show "?R (if u = None then n else Suc n) us" by (intro exI [of _ b'] exI [of _ t] exI [of _ r]) auto
  next
    assume "?R (if u = None then n else Suc n) us"
    then obtain b t r where "us = b @ t # r" "waits_for me t" "\<forall>u \<in> set b. \<forall>p. \<not> waits_for p u"
      "(if u = None then n else Suc n) + length (filter (\<lambda>u. u \<noteq> None) b) < MAXDEPTH" by blast
    with that show "?R n (u # us)" by (intro exI [of _ "u # b"] exI [of _ t] exI [of _ r]) auto
  qed
  show ?case
  proof (cases "\<exists>p. waits_for p u")
    case False
    then show ?thesis using skip Cons.IH by (simp add: wait_loop_spec)
  next
    case True
    then have u: "u \<noteq> None" by (auto simp: waits_for_def)
    have late: "\<not> ?R m us" if "MAXDEPTH \<le> m" for m using that by auto
    show ?thesis
    proof (cases "n < MAXDEPTH \<and> waits_for me u")
      case True
      then have "?R n (u # us)" by (intro exI [of _ "[]"] exI [of _ u] exI [of _ us]) simp
      moreover have "lf_deadlock me n (u # us)" using True u by (auto simp: wait_loop_spec)
      ultimately show ?thesis by simp
    next
      case no: False
      have "\<not> ?R n (u # us)"
      proof
        assume "?R n (u # us)"
        then obtain b t r where b: "u # us = b @ t # r" "waits_for me t" "\<forall>u \<in> set b. \<forall>p. \<not> waits_for p u"
          "n + length (filter (\<lambda>u. u \<noteq> None) b) < MAXDEPTH" by blast
        with True no show False by (cases b) auto
      qed
      moreover have "\<not> lf_deadlock me n (u # us)"
        using u True no Cons.IH late by (auto simp: wait_loop_spec)
      ultimately show ?thesis by blast
    qed
  qed
qed simp

theorem lf_deadlock_iff:
  "lf_deadlock me 0 uts \<longleftrightarrow>
    (\<exists>before ut later. uts = before @ ut # later \<and> waits_for me ut
      \<and> (\<forall>u \<in> set before. \<forall>p. \<not> waits_for p u) \<and> length (filter (\<lambda>u. u \<noteq> None) before) < MAXDEPTH)"
  using lf_deadlock_from [of me 0 uts] by simp

text \<open>Process \<open>a\<close> sleeps, not woken, in the queue of a lock of process \<open>b\<close> that blocks its request.\<close>

definition waits_on :: "lk_sys \<Rightarrow> nat \<Rightarrow> nat \<Rightarrow> bool" where
  "waits_on sys a b \<longleftrightarrow> (\<exists>w \<in> set (sys_waiting sys). \<not> snd w \<and> lf_id (fst w) = a
    \<and> (\<exists>k \<in> set (sys_locks sys). lf_id k = b \<and> blocks (fst w) k \<and> lf_addr (fst w) \<in> set (lf_blkhd k)))"

definition lk_cycle :: "nat \<Rightarrow> nat \<Rightarrow> nat \<Rightarrow> lk_sys" where
  "lk_cycle p q r =
    \<lparr>sys_locks = [(lk 1 p F_WRLCK 0 9)\<lparr>lf_blkhd := [5]\<rparr>, (lk 2 q F_WRLCK 20 29)\<lparr>lf_blkhd := [6]\<rparr>,
        (lk 3 r F_WRLCK 40 49)\<lparr>lf_blkhd := [4]\<rparr>],
     sys_waiting = [(lk 4 q F_WRLCK 40 49, False), (lk 5 r F_WRLCK 0 9, False), (lk 6 p F_WRLCK 20 29, False)]\<rparr>"

lemma lk_run_asks:
  assumes "lk_step\<^sup>*\<^sup>* s0 sys" "lf_setlock (sys_threads sys) None lock (sys_locks sys) = Some r"
    and "range_ok (lf_start lock) (lf_end lock)"
  shows "lk_step\<^sup>*\<^sup>* s0 (settle r lock (sys_waiting sys))"
  using assms(1) lk_step.ask [OF assms(3,2)] by (rule rtranclp.rtrancl_into_rtrancl)

lemmas run_simps = lf_setlock_def lf_getblock.simps lf_findoverlap.simps lf_skips_def lf_overlap_def
  setlock_loop.simps lf_coelesce_adjacent.simps

lemma three_locks:
  assumes "distinct [p, q, r]"
  shows "lk_step\<^sup>*\<^sup>* \<lparr>sys_locks = [], sys_waiting = []\<rparr>
    \<lparr>sys_locks = [lk 1 p F_WRLCK 0 9, lk 2 q F_WRLCK 20 29, lk 3 r F_WRLCK 40 49], sys_waiting = []\<rparr>"
proof -
  let ?p = "lk 1 p F_WRLCK 0 9" and ?q = "lk 2 q F_WRLCK 20 29" and ?r = "lk 3 r F_WRLCK 40 49"
  let ?start = "\<lparr>sys_locks = [], sys_waiting = []\<rparr>"
  have "lk_step\<^sup>*\<^sup>* ?start (settle (Lf_return None [?p] []) ?p (sys_waiting ?start))"
    by (rule lk_run_asks) (simp_all add: run_simps range_ok_def RL_INFINITY_def)
  then have 1: "lk_step\<^sup>*\<^sup>* ?start \<lparr>sys_locks = [?p], sys_waiting = []\<rparr>" (is "lk_step\<^sup>*\<^sup>* _ ?s1")
    by (simp add: settle_def wake_all_def)
  have "lk_step\<^sup>*\<^sup>* ?start (settle (Lf_return None [?p, ?q] []) ?q (sys_waiting ?s1))"
    using assms by (intro lk_run_asks [OF 1]) (simp_all add: run_simps range_ok_def RL_INFINITY_def)
  then have 2: "lk_step\<^sup>*\<^sup>* ?start \<lparr>sys_locks = [?p, ?q], sys_waiting = []\<rparr>" (is "lk_step\<^sup>*\<^sup>* _ ?s2")
    by (simp add: settle_def wake_all_def)
  have "lk_step\<^sup>*\<^sup>* ?start (settle (Lf_return None [?p, ?q, ?r] []) ?r (sys_waiting ?s2))"
    using assms by (intro lk_run_asks [OF 2]) (simp_all add: run_simps range_ok_def RL_INFINITY_def)
  then show ?thesis by (simp add: settle_def wake_all_def)
qed

lemma three_sleepers:
  assumes "distinct [p, q, r]"
  shows "lk_step\<^sup>*\<^sup>* \<lparr>sys_locks = [], sys_waiting = []\<rparr> (lk_cycle p q r)"
proof -
  let ?start = "\<lparr>sys_locks = [], sys_waiting = []\<rparr>"
  let ?p = "\<lambda>b. (lk 1 p F_WRLCK 0 9)\<lparr>lf_blkhd := b\<rparr>" and ?q = "\<lambda>b. (lk 2 q F_WRLCK 20 29)\<lparr>lf_blkhd := b\<rparr>"
    and ?r = "\<lambda>b. (lk 3 r F_WRLCK 40 49)\<lparr>lf_blkhd := b\<rparr>"
  let ?q' = "lk 4 q F_WRLCK 40 49" and ?r' = "lk 5 r F_WRLCK 0 9" and ?p' = "lk 6 p F_WRLCK 20 29"
  have ne: "p \<noteq> q" "q \<noteq> r" "p \<noteq> r" "q \<noteq> p" "r \<noteq> q" "r \<noteq> p" using assms by auto
  have blank: "(lk a i t s f)\<lparr>lf_blkhd := []\<rparr> = lk a i t s f" for a i t s f by (simp add: lk_def)
  have 3: "lk_step\<^sup>*\<^sup>* ?start \<lparr>sys_locks = [?p [], ?q [], ?r []], sys_waiting = []\<rparr>" (is "lk_step\<^sup>*\<^sup>* _ ?s3")
    using three_locks [OF assms] by (simp add: blank)
  have flags: "lf_flags (lk a i t s f) = 0x50" for a i t s f by (simp add: lk_def)
  have "lk_step\<^sup>*\<^sup>* ?start (settle (Lf_sleep [?p [], ?q [], ?r [4]] 3 []) ?q' (sys_waiting ?s3))"
    using ne by (intro lk_run_asks [OF 3])
      (simp_all add: run_simps flags sys_threads_def range_ok_def RL_INFINITY_def)
  then have 4: "lk_step\<^sup>*\<^sup>* ?start \<lparr>sys_locks = [?p [], ?q [], ?r [4]], sys_waiting = [(?q', False)]\<rparr>" (is "lk_step\<^sup>*\<^sup>* _ ?s4")
    by (simp add: settle_def wake_all_def)
  have "lk_step\<^sup>*\<^sup>* ?start (settle (Lf_sleep [?p [5], ?q [], ?r [4]] 1 []) ?r' (sys_waiting ?s4))"
    using ne by (intro lk_run_asks [OF 4])
      (simp_all add: run_simps flags sys_threads_def range_ok_def RL_INFINITY_def)
  then have 5: "lk_step\<^sup>*\<^sup>* ?start \<lparr>sys_locks = [?p [5], ?q [], ?r [4]], sys_waiting = [(?q', False), (?r', False)]\<rparr>" (is "lk_step\<^sup>*\<^sup>* _ ?s5")
    by (simp add: settle_def wake_all_def)
  have "lk_step\<^sup>*\<^sup>* ?start (settle (Lf_sleep [?p [5], ?q [6], ?r [4]] 2 []) ?p' (sys_waiting ?s5))"
    using ne by (intro lk_run_asks [OF 5])
      (simp_all add: run_simps flags sys_threads_def wait_loop_spec waits_for_def range_ok_def RL_INFINITY_def)
  then show ?thesis by (simp add: settle_def wake_all_def lk_cycle_def)
qed

text \<open>C38: longer cycles are missed. For any three processes there is a run from a file without locks in
  which each of them locks ten bytes and then asks for the bytes of another; the scan reports no deadlock,
  and in the end \<open>p\<close> sleeps on \<open>q\<close>, \<open>q\<close> on \<open>r\<close> and \<open>r\<close> on \<open>p\<close>.\<close>

theorem lf_deadlock_misses_cycle:
  assumes "distinct [p, q, r]"
  shows "lk_step\<^sup>*\<^sup>* \<lparr>sys_locks = [], sys_waiting = []\<rparr> (lk_cycle p q r)
    \<and> waits_on (lk_cycle p q r) p q \<and> waits_on (lk_cycle p q r) q r \<and> waits_on (lk_cycle p q r) r p"
  using three_sleepers [OF assms] assms by (simp add: waits_on_def lk_cycle_def blocks_def lf_overlap_def)

theorem lf_deadlock_misses_cycle_witness:
  "lk_step\<^sup>*\<^sup>* \<lparr>sys_locks = [], sys_waiting = []\<rparr> (lk_cycle 7 8 9)
    \<and> waits_on (lk_cycle 7 8 9) 7 8 \<and> waits_on (lk_cycle 7 8 9) 8 9 \<and> waits_on (lk_cycle 7 8 9) 9 7"
  by (rule lf_deadlock_misses_cycle) simp

end
