(* ===== verification/Bpf.thy ===== *)
theory Bpf
  imports Prelude
begin

text \<open>
  The packet filter machine of \<^verbatim>\<open>net/bpf_filter.c\<close> (kernel build) and the validator that is
  meant to make running a user program safe. What C leaves undefined is visible in the model:
  an access outside \<^verbatim>\<open>mem\<close> or outside the program and a division by zero are faults, the
  uninitialised \<^verbatim>\<open>mem\<close> and the value of a shift by 32 or more are arguments.
\<close>

section \<open>Instructions\<close>

record bpf_insn =
  insn_code :: u16
  insn_jt :: u8
  insn_jf :: u8
  insn_k :: u32

abbreviation "BPF_LD \<equiv> 0x00 :: u16"
abbreviation "BPF_LDX \<equiv> 0x01 :: u16"
abbreviation "BPF_ST \<equiv> 0x02 :: u16"
abbreviation "BPF_STX \<equiv> 0x03 :: u16"
abbreviation "BPF_ALU \<equiv> 0x04 :: u16"
abbreviation "BPF_JMP \<equiv> 0x05 :: u16"
abbreviation "BPF_RET \<equiv> 0x06 :: u16"
abbreviation "BPF_MISC \<equiv> 0x07 :: u16"
abbreviation "BPF_W \<equiv> 0x00 :: u16"
abbreviation "BPF_H \<equiv> 0x08 :: u16"
abbreviation "BPF_B \<equiv> 0x10 :: u16"
abbreviation "BPF_IMM \<equiv> 0x00 :: u16"
abbreviation "BPF_ABS \<equiv> 0x20 :: u16"
abbreviation "BPF_IND \<equiv> 0x40 :: u16"
abbreviation "BPF_MEM \<equiv> 0x60 :: u16"
abbreviation "BPF_LEN \<equiv> 0x80 :: u16"
abbreviation "BPF_MSH \<equiv> 0xa0 :: u16"
abbreviation "BPF_ADD \<equiv> 0x00 :: u16"
abbreviation "BPF_SUB \<equiv> 0x10 :: u16"
abbreviation "BPF_MUL \<equiv> 0x20 :: u16"
abbreviation "BPF_DIV \<equiv> 0x30 :: u16"
abbreviation "BPF_OR \<equiv> 0x40 :: u16"
abbreviation "BPF_AND \<equiv> 0x50 :: u16"
abbreviation "BPF_LSH \<equiv> 0x60 :: u16"
abbreviation "BPF_RSH \<equiv> 0x70 :: u16"
abbreviation "BPF_NEG \<equiv> 0x80 :: u16"
abbreviation "BPF_JA \<equiv> 0x00 :: u16"
abbreviation "BPF_JEQ \<equiv> 0x10 :: u16"
abbreviation "BPF_JGT \<equiv> 0x20 :: u16"
abbreviation "BPF_JGE \<equiv> 0x30 :: u16"
abbreviation "BPF_JSET \<equiv> 0x40 :: u16"
abbreviation "BPF_K \<equiv> 0x00 :: u16"
abbreviation "BPF_X \<equiv> 0x08 :: u16"
abbreviation "BPF_A \<equiv> 0x10 :: u16"
abbreviation "BPF_TAX \<equiv> 0x00 :: u16"
abbreviation "BPF_TXA \<equiv> 0x80 :: u16"

definition BPF_MEMWORDS :: nat where
  "BPF_MEMWORDS = 16"

definition BPF_CLASS :: "u16 \<Rightarrow> u16" where
  "BPF_CLASS c = c AND 0x07"

definition BPF_OP :: "u16 \<Rightarrow> u16" where
  "BPF_OP c = c AND 0xf0"

definition BPF_MODE :: "u16 \<Rightarrow> u16" where
  "BPF_MODE c = c AND 0xe0"

datatype operand = SrcK | SrcX
datatype width = W | H | B
datatype cond = JGT | JGE | JEQ | JSET
datatype alu_op = ADD | SUB | MUL | DIV | AND' | OR' | LSH | RSH

text \<open>The \<^verbatim>\<open>case\<close> labels of the interpreter's \<^verbatim>\<open>switch\<close>.\<close>

datatype opcode =
    Op_RET_K | Op_RET_A
  | Op_LD_ABS width | Op_LD_IND width
  | Op_LD_LEN | Op_LDX_LEN | Op_LDX_MSH
  | Op_LD_IMM | Op_LDX_IMM | Op_LD_MEM | Op_LDX_MEM | Op_ST | Op_STX
  | Op_JA | Op_J cond operand
  | Op_ALU alu_op operand | Op_NEG
  | Op_TAX | Op_TXA

text \<open>The labels in source order; \<open>None\<close> is the \<^verbatim>\<open>default\<close> label.\<close>

definition opcode_table :: "(u16 \<times> opcode) list" where
  "opcode_table =
    [(BPF_RET OR BPF_K, Op_RET_K),
     (BPF_RET OR BPF_A, Op_RET_A),
     (BPF_LD OR BPF_W OR BPF_ABS, Op_LD_ABS W),
     (BPF_LD OR BPF_H OR BPF_ABS, Op_LD_ABS H),
     (BPF_LD OR BPF_B OR BPF_ABS, Op_LD_ABS B),
     (BPF_LD OR BPF_W OR BPF_LEN, Op_LD_LEN),
     (BPF_LDX OR BPF_W OR BPF_LEN, Op_LDX_LEN),
     (BPF_LD OR BPF_W OR BPF_IND, Op_LD_IND W),
     (BPF_LD OR BPF_H OR BPF_IND, Op_LD_IND H),
     (BPF_LD OR BPF_B OR BPF_IND, Op_LD_IND B),
     (BPF_LDX OR BPF_MSH OR BPF_B, Op_LDX_MSH),
     (BPF_LD OR BPF_IMM, Op_LD_IMM),
     (BPF_LDX OR BPF_IMM, Op_LDX_IMM),
     (BPF_LD OR BPF_MEM, Op_LD_MEM),
     (BPF_LDX OR BPF_MEM, Op_LDX_MEM),
     (BPF_ST, Op_ST),
     (BPF_STX, Op_STX),
     (BPF_JMP OR BPF_JA, Op_JA),
     (BPF_JMP OR BPF_JGT OR BPF_K, Op_J JGT SrcK),
     (BPF_JMP OR BPF_JGE OR BPF_K, Op_J JGE SrcK),
     (BPF_JMP OR BPF_JEQ OR BPF_K, Op_J JEQ SrcK),
     (BPF_JMP OR BPF_JSET OR BPF_K, Op_J JSET SrcK),
     (BPF_JMP OR BPF_JGT OR BPF_X, Op_J JGT SrcX),
     (BPF_JMP OR BPF_JGE OR BPF_X, Op_J JGE SrcX),
     (BPF_JMP OR BPF_JEQ OR BPF_X, Op_J JEQ SrcX),
     (BPF_JMP OR BPF_JSET OR BPF_X, Op_J JSET SrcX),
     (BPF_ALU OR BPF_ADD OR BPF_X, Op_ALU ADD SrcX),
     (BPF_ALU OR BPF_SUB OR BPF_X, Op_ALU SUB SrcX),
     (BPF_ALU OR BPF_MUL OR BPF_X, Op_ALU MUL SrcX),
     (BPF_ALU OR BPF_DIV OR BPF_X, Op_ALU DIV SrcX),
     (BPF_ALU OR BPF_AND OR BPF_X, Op_ALU AND' SrcX),
     (BPF_ALU OR BPF_OR OR BPF_X, Op_ALU OR' SrcX),
     (BPF_ALU OR BPF_LSH OR BPF_X, Op_ALU LSH SrcX),
     (BPF_ALU OR BPF_RSH OR BPF_X, Op_ALU RSH SrcX),
     (BPF_ALU OR BPF_ADD OR BPF_K, Op_ALU ADD SrcK),
     (BPF_ALU OR BPF_SUB OR BPF_K, Op_ALU SUB SrcK),
     (BPF_ALU OR BPF_MUL OR BPF_K, Op_ALU MUL SrcK),
     (BPF_ALU OR BPF_DIV OR BPF_K, Op_ALU DIV SrcK),
     (BPF_ALU OR BPF_AND OR BPF_K, Op_ALU AND' SrcK),
     (BPF_ALU OR BPF_OR OR BPF_K, Op_ALU OR' SrcK),
     (BPF_ALU OR BPF_LSH OR BPF_K, Op_ALU LSH SrcK),
     (BPF_ALU OR BPF_RSH OR BPF_K, Op_ALU RSH SrcK),
     (BPF_ALU OR BPF_NEG, Op_NEG),
     (BPF_MISC OR BPF_TAX, Op_TAX),
     (BPF_MISC OR BPF_TXA, Op_TXA)]"

definition decode :: "u16 \<Rightarrow> opcode option" where
  "decode c = map_of opcode_table c"

section \<open>Reading packet bytes\<close>

text \<open>
  A packet is a contiguous buffer, or, when the buffer length is 0, a chain of mbufs: the data
  of the first mbuf and of the mbufs behind it. A zero-length mbuf has no first byte; reading it
  is the fault \<open>Stale_mbuf_byte\<close>.
\<close>

record packet =
  pkt_buf :: "u8 list"
  m_first :: "u8 list"
  m_next :: "u8 list list"

datatype bpf_fault =
    Mem_out_of_range
  | Pc_out_of_program
  | Division_by_zero
  | Stale_mbuf_byte
  | Packet_out_of_range

text \<open>The loop of \<^verbatim>\<open>MINDEX\<close>, \<^verbatim>\<open>m_xword\<close> and \<^verbatim>\<open>m_xhalf\<close>: the mbuf that holds
  offset \<open>k\<close>, what follows it, and the offset within it.\<close>

fun MINDEX :: "u8 list \<Rightarrow> u8 list list \<Rightarrow> nat \<Rightarrow> (u8 list \<times> u8 list list \<times> nat) option" where
  "MINDEX m ms k =
    (if k < length m then Some (m, ms, k)
     else case ms of [] \<Rightarrow> None | m' # ms' \<Rightarrow> MINDEX m' ms' (k - length m))"

declare MINDEX.simps [simp del]

text \<open>The value and \<^verbatim>\<open>*err\<close>.\<close>

definition m_xword :: "u8 list \<Rightarrow> u8 list list \<Rightarrow> nat \<Rightarrow> u32 \<times> bool" where
  "m_xword first rest k0 =
    (case MINDEX first rest k0 of
       None \<Rightarrow> (0, True)
     | Some (m, ms, k) \<Rightarrow>
         if length m - k \<ge> 4
         then (be32 (m ! k) (m ! (k + 1)) (m ! (k + 2)) (m ! (k + 3)), False)
         else case ms of
                [] \<Rightarrow> (0, True)
              | m0 # _ \<Rightarrow>
                  if length m0 + length m - k < 4 then (0, True)
                  else if length m - k = 1
                  then (be32 (m ! k) (m0 ! 0) (m0 ! 1) (m0 ! 2), False)
                  else if length m - k = 2
                  then (be32 (m ! k) (m ! (k + 1)) (m0 ! 0) (m0 ! 1), False)
                  else (be32 (m ! k) (m ! (k + 1)) (m ! (k + 2)) (m0 ! 0), False))"

definition m_xhalf :: "u8 list \<Rightarrow> u8 list list \<Rightarrow> nat \<Rightarrow> bpf_fault + (u16 \<times> bool)" where
  "m_xhalf first rest k0 =
    (case MINDEX first rest k0 of
       None \<Rightarrow> Inr (0, True)
     | Some (m, ms, k) \<Rightarrow>
         if length m - k \<ge> 2 then Inr (be16 (m ! k) (m ! (k + 1)), False)
         else case ms of
                [] \<Rightarrow> Inr (0, True)
              | [] # _ \<Rightarrow> Inl Stale_mbuf_byte
              | (b # _) # _ \<Rightarrow> Inr (be16 (m ! k) b, False))"

text \<open>The three kinds of packet load. \<open>oob\<close> is the range test of the \<^verbatim>\<open>case\<close> at hand;
  when it holds, a contiguous packet is rejected and an mbuf chain is searched.
  A read of the contiguous buffer outside its bytes would be \<open>Packet_out_of_range\<close>.\<close>

datatype load = Value u32 | Reject | LoadFault bpf_fault

definition EXTRACT_LONG :: "u8 list \<Rightarrow> nat \<Rightarrow> load" where
  "EXTRACT_LONG p i =
    (if i + 3 < length p then Value (be32 (p ! i) (p ! (i + 1)) (p ! (i + 2)) (p ! (i + 3)))
     else LoadFault Packet_out_of_range)"

definition EXTRACT_SHORT :: "u8 list \<Rightarrow> nat \<Rightarrow> load" where
  "EXTRACT_SHORT p i =
    (if i + 1 < length p then Value (ucast (be16 (p ! i) (p ! (i + 1))))
     else LoadFault Packet_out_of_range)"

definition ld_word :: "packet \<Rightarrow> bool \<Rightarrow> u32 \<Rightarrow> load" where
  "ld_word p oob k =
    (if oob then
       (if pkt_buf p \<noteq> [] then Reject
        else case m_xword (m_first p) (m_next p) (unat k) of
               (v, merr) \<Rightarrow> if merr then Reject else Value v)
     else EXTRACT_LONG (pkt_buf p) (unat k))"

definition ld_half :: "packet \<Rightarrow> bool \<Rightarrow> bool \<Rightarrow> u32 \<Rightarrow> load" where
  "ld_half p check_merr oob k =
    (if oob then
       (if pkt_buf p \<noteq> [] then Reject
        else case m_xhalf (m_first p) (m_next p) (unat k) of
               Inl f \<Rightarrow> LoadFault f
             | Inr (v, merr) \<Rightarrow> if check_merr \<and> merr then Reject else Value (ucast v))
     else EXTRACT_SHORT (pkt_buf p) (unat k))"

definition ld_byte :: "packet \<Rightarrow> bool \<Rightarrow> u32 \<Rightarrow> load" where
  "ld_byte p oob k =
    (if oob then
       (if pkt_buf p \<noteq> [] then Reject
        else case MINDEX (m_first p) (m_next p) (unat k) of
               None \<Rightarrow> Reject
             | Some (m, _, i) \<Rightarrow> Value (ucast (m ! i)))
     else (case rd (pkt_buf p) (unat k) of
             None \<Rightarrow> LoadFault Packet_out_of_range
           | Some b \<Rightarrow> Value (ucast b)))"

definition buflen :: "packet \<Rightarrow> u32" where
  "buflen p = of_nat (length (pkt_buf p))"

fun ld_abs :: "packet \<Rightarrow> width \<Rightarrow> u32 \<Rightarrow> load" where
  "ld_abs p W k = ld_word p (k > buflen p \<or> 4 > buflen p - k) k"
| "ld_abs p H k = ld_half p False (k > buflen p \<or> 2 > buflen p - k) k"
| "ld_abs p B k = ld_byte p (k \<ge> buflen p) k"

fun ld_ind :: "packet \<Rightarrow> width \<Rightarrow> u32 \<Rightarrow> u32 \<Rightarrow> load" where
  "ld_ind p W x pck =
    (let k = x + pck
     in ld_word p (pck > buflen p \<or> x > buflen p - pck \<or> 4 > buflen p - k) k)"
| "ld_ind p H x pck =
    (let k = x + pck
     in ld_half p True (x > buflen p \<or> pck > buflen p - x \<or> 2 > buflen p - k) k)"
| "ld_ind p B x pck =
    (let k = x + pck
     in ld_byte p (pck \<ge> buflen p \<or> x \<ge> buflen p - pck) k)"

section \<open>The machine\<close>

record bpf_env =
  wirelen :: u32
  undef_shl :: "u32 \<Rightarrow> u32 \<Rightarrow> u32"
  undef_shr :: "u32 \<Rightarrow> u32 \<Rightarrow> u32"

record bpf_state =
  pc :: nat
  A :: u32
  X :: u32
  mem :: "u32 list"

type_synonym bpf_outcome = "(bpf_state, u32, bpf_fault) outcome"

datatype alu_result = AluValue u32 | AluReject | AluFault

text \<open>The register case of a division tests for 0 at run time, the constant case leaves that
  to the validator.\<close>

fun alu :: "bpf_env \<Rightarrow> alu_op \<Rightarrow> operand \<Rightarrow> u32 \<Rightarrow> u32 \<Rightarrow> alu_result" where
  "alu env ADD _ a b = AluValue (a + b)"
| "alu env SUB _ a b = AluValue (a - b)"
| "alu env MUL _ a b = AluValue (a * b)"
| "alu env DIV SrcX a b = (if b = 0 then AluReject else AluValue (a div b))"
| "alu env DIV SrcK a b = (if b = 0 then AluFault else AluValue (a div b))"
| "alu env AND' _ a b = AluValue (a AND b)"
| "alu env OR' _ a b = AluValue (a OR b)"
| "alu env LSH _ a b =
    AluValue (if b < 32 then push_bit (unat b) a else undef_shl env a b)"
| "alu env RSH _ a b =
    AluValue (if b < 32 then drop_bit (unat b) a else undef_shr env a b)"

fun holds :: "cond \<Rightarrow> u32 \<Rightarrow> u32 \<Rightarrow> bool" where
  "holds JGT a b \<longleftrightarrow> a > b"
| "holds JGE a b \<longleftrightarrow> a \<ge> b"
| "holds JEQ a b \<longleftrightarrow> a = b"
| "holds JSET a b \<longleftrightarrow> a AND b \<noteq> 0"

definition src :: "operand \<Rightarrow> bpf_insn \<Rightarrow> bpf_state \<Rightarrow> u32" where
  "src s i st = (case s of SrcK \<Rightarrow> insn_k i | SrcX \<Rightarrow> X st)"

text \<open>\<^verbatim>\<open>++pc\<close> at the top of the loop, with \<open>d\<close> added before by a jump.\<close>

definition goto :: "nat \<Rightarrow> bpf_state \<Rightarrow> bpf_outcome" where
  "goto d st = Continue (st\<lparr>pc := pc st + d + 1\<rparr>)"

definition load_A :: "load \<Rightarrow> bpf_state \<Rightarrow> bpf_outcome" where
  "load_A l st =
    (case l of Value v \<Rightarrow> goto 0 (st\<lparr>A := v\<rparr>) | Reject \<Rightarrow> Return 0 | LoadFault f \<Rightarrow> Fault f)"

definition load_msh :: "load \<Rightarrow> bpf_state \<Rightarrow> bpf_outcome" where
  "load_msh l st =
    (case l of
       Value v \<Rightarrow> goto 0 (st\<lparr>X := push_bit 2 (v AND 0xf)\<rparr>)
     | Reject \<Rightarrow> Return 0
     | LoadFault f \<Rightarrow> Fault f)"

definition exec :: "bpf_env \<Rightarrow> packet \<Rightarrow> bpf_insn \<Rightarrow> bpf_state \<Rightarrow> bpf_outcome" where
  "exec env p i st =
    (case decode (insn_code i) of
       None \<Rightarrow> Return 0
     | Some Op_RET_K \<Rightarrow> Return (insn_k i)
     | Some Op_RET_A \<Rightarrow> Return (A st)
     | Some (Op_LD_ABS w) \<Rightarrow> load_A (ld_abs p w (insn_k i)) st
     | Some (Op_LD_IND w) \<Rightarrow> load_A (ld_ind p w (X st) (insn_k i)) st
     | Some Op_LD_LEN \<Rightarrow> goto 0 (st\<lparr>A := wirelen env\<rparr>)
     | Some Op_LDX_LEN \<Rightarrow> goto 0 (st\<lparr>X := wirelen env\<rparr>)
     | Some Op_LDX_MSH \<Rightarrow> load_msh (ld_abs p B (insn_k i)) st
     | Some Op_LD_IMM \<Rightarrow> goto 0 (st\<lparr>A := insn_k i\<rparr>)
     | Some Op_LDX_IMM \<Rightarrow> goto 0 (st\<lparr>X := insn_k i\<rparr>)
     | Some Op_LD_MEM \<Rightarrow>
         (case rd (mem st) (unat (insn_k i)) of
            None \<Rightarrow> Fault Mem_out_of_range | Some v \<Rightarrow> goto 0 (st\<lparr>A := v\<rparr>))
     | Some Op_LDX_MEM \<Rightarrow>
         (case rd (mem st) (unat (insn_k i)) of
            None \<Rightarrow> Fault Mem_out_of_range | Some v \<Rightarrow> goto 0 (st\<lparr>X := v\<rparr>))
     | Some Op_ST \<Rightarrow>
         (case wr (mem st) (unat (insn_k i)) (A st) of
            None \<Rightarrow> Fault Mem_out_of_range | Some m \<Rightarrow> goto 0 (st\<lparr>mem := m\<rparr>))
     | Some Op_STX \<Rightarrow>
         (case wr (mem st) (unat (insn_k i)) (X st) of
            None \<Rightarrow> Fault Mem_out_of_range | Some m \<Rightarrow> goto 0 (st\<lparr>mem := m\<rparr>))
     | Some Op_JA \<Rightarrow> goto (unat (insn_k i)) st
     | Some (Op_J c s) \<Rightarrow>
         goto (unat (if holds c (A st) (src s i st) then insn_jt i else insn_jf i)) st
     | Some (Op_ALU f s) \<Rightarrow>
         (case alu env f s (A st) (src s i st) of
            AluValue v \<Rightarrow> goto 0 (st\<lparr>A := v\<rparr>)
          | AluReject \<Rightarrow> Return 0
          | AluFault \<Rightarrow> Fault Division_by_zero)
     | Some Op_NEG \<Rightarrow> goto 0 (st\<lparr>A := - A st\<rparr>)
     | Some Op_TAX \<Rightarrow> goto 0 (st\<lparr>X := A st\<rparr>)
     | Some Op_TXA \<Rightarrow> goto 0 (st\<lparr>A := X st\<rparr>))"

definition bpf_step :: "bpf_env \<Rightarrow> bpf_insn list \<Rightarrow> packet \<Rightarrow> bpf_state \<Rightarrow> bpf_outcome" where
  "bpf_step env prog p st =
    (case rd prog (pc st) of None \<Rightarrow> Fault Pc_out_of_program | Some i \<Rightarrow> exec env p i st)"

text \<open>Every step that continues moves \<open>pc\<close> forward, so the loop always stops.\<close>

lemma goto_pc: "goto d st = Continue st' \<Longrightarrow> pc st < pc st'"
  by (auto simp: goto_def)

lemma exec_pc: "exec env p i st = Continue st' \<Longrightarrow> pc st < pc st'"
proof (cases "decode (insn_code i)")
  case (Some op)
  assume "exec env p i st = Continue st'"
  with Some show ?thesis
    by (cases op) (auto simp: exec_def goto_def load_A_def load_msh_def
        split: option.splits load.splits alu_result.splits)
qed (simp add: exec_def)

function bpf_run :: "bpf_env \<Rightarrow> bpf_insn list \<Rightarrow> packet \<Rightarrow> bpf_state \<Rightarrow> bpf_fault + u32" where
  "bpf_run env prog p st =
    (case bpf_step env prog p st of
       Continue st' \<Rightarrow> bpf_run env prog p st'
     | Return v \<Rightarrow> Inr v
     | Fault f \<Rightarrow> Inl f)"
  by pat_completeness auto
termination
  by (relation "measure (\<lambda>(env, prog, p, st). length prog - pc st)")
    (auto simp: bpf_step_def rd_def split: if_splits dest!: exec_pc)

declare bpf_run.simps [simp del]

text \<open>\<open>bpf_filter\<close>: the NULL program accepts all; \<open>mem0\<close> is what the uninitialised
  array happens to hold.\<close>

definition bpf_filter ::
  "bpf_env \<Rightarrow> u32 list \<Rightarrow> bpf_insn list option \<Rightarrow> packet \<Rightarrow> bpf_fault + u32" where
  "bpf_filter env mem0 prog p =
    (case prog of
       None \<Rightarrow> Inr 0xffffffff
     | Some f \<Rightarrow> bpf_run env f p \<lparr>pc = 0, A = 0, X = 0, mem = mem0\<rparr>)"

section \<open>The validator\<close>

text \<open>The body of the loop of \<open>bpf_validate\<close> for instruction \<open>i\<close> of a program of \<open>len\<close>
  instructions: \<open>False\<close> is \<^verbatim>\<open>return 0\<close>.\<close>

definition validate_insn :: "nat \<Rightarrow> nat \<Rightarrow> bpf_insn \<Rightarrow> bool" where
  "validate_insn len i p =
    (let from = i + 1
     in (if BPF_CLASS (insn_code p) = BPF_JMP then
           (if BPF_OP (insn_code p) = BPF_JA
            then \<not> (from \<ge> len \<or> insn_k p \<ge> of_nat (len - from))
            else \<not> (from \<ge> len \<or> unat (insn_jt p) \<ge> len - from \<or> unat (insn_jf p) \<ge> len - from))
         else True)
      \<and> \<not> ((BPF_CLASS (insn_code p) = BPF_ST
            \<or> (BPF_CLASS (insn_code p) = BPF_LD \<and> BPF_MODE (insn_code p) = BPF_MEM))
           \<and> insn_k p \<ge> of_nat BPF_MEMWORDS)
      \<and> \<not> (insn_code p = BPF_ALU OR BPF_DIV OR BPF_K \<and> insn_k p = 0))"

fun validate_loop :: "nat \<Rightarrow> nat \<Rightarrow> bpf_insn list \<Rightarrow> bool" where
  "validate_loop len i [] = True"
| "validate_loop len i (p # ps) = (validate_insn len i p \<and> validate_loop len (i + 1) ps)"

text \<open>\<open>None\<close> is the read of \<^verbatim>\<open>f[-1]\<close> for a program of length 0.\<close>

definition bpf_validate :: "bpf_insn list \<Rightarrow> bool option" where
  "bpf_validate f =
    (if validate_loop (length f) 0 f
     then (if f = [] then None else Some (BPF_CLASS (insn_code (last f)) = BPF_RET))
     else Some False)"

section \<open>What the labels say about the class of a code\<close>

lemma decode_in_table: "decode c = Some op \<Longrightarrow> (c, op) \<in> set opcode_table"
  by (simp add: decode_def map_of_SomeD)

lemma decode_class:
  assumes "decode c = Some op"
  shows "case op of
      Op_JA \<Rightarrow> BPF_CLASS c = BPF_JMP \<and> BPF_OP c = BPF_JA
    | Op_J cnd s \<Rightarrow> BPF_CLASS c = BPF_JMP \<and> BPF_OP c \<noteq> BPF_JA
    | Op_LD_MEM \<Rightarrow> BPF_CLASS c = BPF_LD \<and> BPF_MODE c = BPF_MEM
    | Op_ST \<Rightarrow> BPF_CLASS c = BPF_ST
    | Op_ALU f s \<Rightarrow> f = DIV \<longrightarrow> s = SrcK \<longrightarrow> c = BPF_ALU OR BPF_DIV OR BPF_K
    | _ \<Rightarrow> True"
proof -
  have "(c, op) \<in> set opcode_table"
    using assms by (rule decode_in_table)
  then show ?thesis
    unfolding opcode_table_def
    by (auto simp: BPF_CLASS_def BPF_OP_def BPF_MODE_def)
qed

lemma class_RET_returns:
  assumes "BPF_CLASS (insn_code i) = BPF_RET"
  shows "\<exists>v. exec env p i st = Return v"
proof -
  have "decode (insn_code i) \<in> {None, Some Op_RET_K, Some Op_RET_A}"
  proof (rule ccontr)
    assume n: "decode (insn_code i) \<notin> {None, Some Op_RET_K, Some Op_RET_A}"
    then obtain op where op: "decode (insn_code i) = Some op" by auto
    then have "(insn_code i, op) \<in> set opcode_table" by (rule decode_in_table)
    with assms n op show False
      unfolding opcode_table_def by (auto simp: BPF_CLASS_def)
  qed
  then show ?thesis by (auto simp: exec_def)
qed

section \<open>Safety of validated programs\<close>

text \<open>A packet as the network stack passes it: its length fits 32 bits, and the mbufs behind the
  first one are not empty.\<close>

definition packet_ok :: "packet \<Rightarrow> bool" where
  "packet_ok p \<longleftrightarrow> length (pkt_buf p) < 2 ^ 32 \<and> (\<forall>m \<in> set (m_next p). m \<noteq> [])"

lemma word_fits:
  assumes "\<not> n > (l :: u32)" and "\<not> c > l - n"
  shows "unat n + unat c \<le> unat l"
  using assms by (simp add: not_less word_le_nat_alt unat_sub)

lemma word_fits_strict:
  assumes "\<not> n \<ge> (l :: u32)" and "\<not> c \<ge> l - n"
  shows "unat n + unat c < unat l"
  using assms by (simp add: not_le word_less_nat_alt unat_sub word_le_nat_alt)

lemma word_sum:
  assumes "unat (n :: u32) + unat c \<le> unat (l :: u32)"
  shows "unat (n + c) = unat n + unat c"
  using assms unsigned_less [where 'a = nat and 'b = 32, of l] by (simp add: unat_word_ariths)

lemma unat_buflen: "packet_ok p \<Longrightarrow> unat (buflen p) = length (pkt_buf p)"
  by (simp add: buflen_def packet_ok_def unsigned_of_nat take_bit_nat_eq_self)

lemma MINDEX_Some:
  "MINDEX m ms k = Some (m', ms', k') \<Longrightarrow>
    k' < length m' \<and> (\<exists>pre. pre @ m' # ms' = m # ms \<and> k = length (concat pre) + k')"
proof (induction m ms k arbitrary: rule: MINDEX.induct)
  case (1 m ms k)
  show ?case
  proof (cases "k < length m")
    case True
    with "1.prems" show ?thesis by (subst (asm) MINDEX.simps) (auto intro: exI [of _ "[]"])
  next
    case False
    with "1.prems" obtain m2 ms2 where ms: "ms = m2 # ms2" "MINDEX m2 ms2 (k - length m) = Some (m', ms', k')"
      by (subst (asm) MINDEX.simps) (auto split: list.splits)
    from "1.IH" [OF False ms] obtain pre where
      "k' < length m'" "pre @ m' # ms' = m2 # ms2" "k - length m = length (concat pre) + k'" by auto
    with False ms show ?thesis by (intro conjI exI [of _ "m # pre"]) auto
  qed
qed

lemma MINDEX_rest: "MINDEX m ms k = Some (m', ms', k') \<Longrightarrow> set ms' \<subseteq> set ms"
  using MINDEX_Some [of m ms k m' ms' k'] by (auto simp: append_eq_Cons_conv)

lemma m_xhalf_no_fault: "\<forall>m \<in> set rest. m \<noteq> [] \<Longrightarrow> m_xhalf first rest k \<noteq> Inl f"
proof (cases "MINDEX first rest k")
  case (Some r)
  obtain m ms k' where r: "r = (m, ms, k')" by (cases r)
  assume "\<forall>m \<in> set rest. m \<noteq> []"
  with Some r MINDEX_rest [of first rest k m ms k'] have "[] \<notin> set ms" by auto
  with Some r show ?thesis by (auto simp: m_xhalf_def split: list.split)
qed (simp add: m_xhalf_def)

lemma ld_word_ok:
  "(\<not> oob \<Longrightarrow> unat n + 4 \<le> length (pkt_buf p)) \<Longrightarrow> ld_word p oob n \<noteq> LoadFault f"
  by (auto simp: ld_word_def EXTRACT_LONG_def split: prod.splits)

lemma ld_half_ok:
  "packet_ok p \<Longrightarrow> (\<not> oob \<Longrightarrow> unat n + 2 \<le> length (pkt_buf p)) \<Longrightarrow>
    ld_half p c oob n \<noteq> LoadFault f"
proof -
  assume p: "packet_ok p" and b: "\<not> oob \<Longrightarrow> unat n + 2 \<le> length (pkt_buf p)"
  from p obtain v where "m_xhalf (m_first p) (m_next p) (unat n) = Inr v"
    using m_xhalf_no_fault [of "m_next p" "m_first p" "unat n"]
    by (cases "m_xhalf (m_first p) (m_next p) (unat n)") (auto simp: packet_ok_def)
  with b show ?thesis
    by (cases oob) (simp_all add: ld_half_def EXTRACT_SHORT_def split: prod.split)
qed

lemma ld_byte_ok:
  "(\<not> oob \<Longrightarrow> unat n < length (pkt_buf p)) \<Longrightarrow> ld_byte p oob n \<noteq> LoadFault f"
  by (auto simp: ld_byte_def split: option.splits)

lemma ld_abs_ok:
  assumes "packet_ok p"
  shows "ld_abs p w n \<noteq> LoadFault f"
proof (cases w)
  case W
  show ?thesis unfolding W ld_abs.simps
    by (rule ld_word_ok) (use word_fits [of "buflen p" n 4] unat_buflen [OF assms] in auto)
next
  case H
  show ?thesis unfolding H ld_abs.simps
    by (rule ld_half_ok [OF assms]) (use word_fits [of "buflen p" n 2] unat_buflen [OF assms] in auto)
next
  case B
  show ?thesis unfolding B ld_abs.simps
    by (rule ld_byte_ok) (use unat_buflen [OF assms] in \<open>simp add: word_less_nat_alt not_le\<close>)
qed

lemma ld_ind_ok:
  assumes "packet_ok p"
  shows "ld_ind p w x y \<noteq> LoadFault f"
proof (cases w)
  case W
  show ?thesis unfolding W ld_ind.simps Let_def
  proof (rule ld_word_ok)
    assume n: "\<not> (y > buflen p \<or> x > buflen p - y \<or> 4 > buflen p - (x + y))"
    then have "unat y + unat x \<le> unat (buflen p)" by (intro word_fits) auto
    then have "\<not> x + y > buflen p"
      using word_sum [of x y "buflen p"] by (simp add: word_less_nat_alt)
    with n word_fits [of "buflen p" "x + y" 4] show "unat (x + y) + 4 \<le> length (pkt_buf p)"
      using unat_buflen [OF assms] by simp
  qed
next
  case H
  show ?thesis unfolding H ld_ind.simps Let_def
  proof (rule ld_half_ok [OF assms])
    assume n: "\<not> (x > buflen p \<or> y > buflen p - x \<or> 2 > buflen p - (x + y))"
    then have "unat x + unat y \<le> unat (buflen p)" by (intro word_fits) auto
    then have "\<not> x + y > buflen p"
      using word_sum [of x y "buflen p"] by (simp add: word_less_nat_alt)
    with n word_fits [of "buflen p" "x + y" 2] show "unat (x + y) + 2 \<le> length (pkt_buf p)"
      using unat_buflen [OF assms] by simp
  qed
next
  case B
  show ?thesis unfolding B ld_ind.simps Let_def
  proof (rule ld_byte_ok)
    assume "\<not> (y \<ge> buflen p \<or> x \<ge> buflen p - y)"
    then have "unat y + unat x < unat (buflen p)" by (intro word_fits_strict) auto
    then show "unat (x + y) < length (pkt_buf p)"
      using word_sum [of x y "buflen p"] unat_buflen [OF assms] by simp
  qed
qed

text \<open>What the validator does not check: the memory index of \<^verbatim>\<open>BPF_STX\<close> and of
  \<^verbatim>\<open>BPF_LDX|BPF_MEM\<close>.\<close>

definition index_mem_ok :: "bpf_insn \<Rightarrow> bool" where
  "index_mem_ok i \<longleftrightarrow>
    decode (insn_code i) \<in> {Some Op_STX, Some Op_LDX_MEM} \<longrightarrow> unat (insn_k i) < BPF_MEMWORDS"

definition bpf_inv :: "bpf_insn list \<Rightarrow> bpf_state \<Rightarrow> bool" where
  "bpf_inv prog st \<longleftrightarrow> pc st < length prog \<and> length (mem st) = BPF_MEMWORDS"

definition bpf_safe :: "bpf_insn list \<Rightarrow> packet \<Rightarrow> bool" where
  "bpf_safe prog p \<longleftrightarrow> bpf_validate prog = Some True \<and> length prog < 2 ^ 31
    \<and> list_all index_mem_ok prog \<and> packet_ok p"

lemma validate_loop_nth:
  "validate_loop len j ps \<Longrightarrow> i < length ps \<Longrightarrow> validate_insn len (j + i) (ps ! i)"
proof (induction ps arbitrary: i j)
  case (Cons q qs)
  then show ?case by (cases i) fastforce+
qed simp

lemma bpf_validate_nth:
  assumes "bpf_validate prog = Some True"
  shows "prog \<noteq> [] \<and> BPF_CLASS (insn_code (last prog)) = BPF_RET
    \<and> (\<forall>i < length prog. validate_insn (length prog) i (prog ! i))"
  using assms validate_loop_nth [of "length prog" 0 prog]
  by (auto simp: bpf_validate_def split: if_splits)

lemma validated_mem:
  assumes "validate_insn len n i" "index_mem_ok i"
    and "decode (insn_code i) \<in> {Some Op_LD_MEM, Some Op_LDX_MEM, Some Op_ST, Some Op_STX}"
  shows "unat (insn_k i) < 16"
  using assms decode_class [of "insn_code i" Op_LD_MEM] decode_class [of "insn_code i" Op_ST]
  by (auto simp: validate_insn_def index_mem_ok_def BPF_MEMWORDS_def word_less_nat_alt not_le Let_def)

lemma validated_jump:
  assumes "validate_insn len n i" "len < 2 ^ 31"
  shows "decode (insn_code i) = Some Op_JA \<Longrightarrow> n + unat (insn_k i) + 1 < len"
    and "decode (insn_code i) = Some (Op_J cnd s) \<Longrightarrow>
      n + unat (insn_jt i) + 1 < len \<and> n + unat (insn_jf i) + 1 < len"
proof -
  have "unat (of_nat (len - Suc n) :: u32) = len - Suc n"
    using assms(2) by (simp add: unsigned_of_nat take_bit_nat_eq_self)
  then show "decode (insn_code i) = Some Op_JA \<Longrightarrow> n + unat (insn_k i) + 1 < len"
    using assms(1) decode_class [of "insn_code i" Op_JA]
    by (auto simp: validate_insn_def Let_def word_less_nat_alt not_le)
  show "decode (insn_code i) = Some (Op_J cnd s) \<Longrightarrow>
      n + unat (insn_jt i) + 1 < len \<and> n + unat (insn_jf i) + 1 < len"
    using assms(1) decode_class [of "insn_code i" "Op_J cnd s"]
    by (auto simp: validate_insn_def Let_def)
qed

lemma validated_div:
  assumes "validate_insn len n i" "decode (insn_code i) = Some (Op_ALU f s)"
  shows "alu env f s a (src s i st) \<noteq> AluFault"
proof -
  have "insn_k i \<noteq> 0" if "f = DIV" "s = SrcK"
    using assms decode_class [of "insn_code i" "Op_ALU f s"] that
    by (auto simp: validate_insn_def Let_def)
  then show ?thesis by (cases f; cases s) (auto simp: src_def)
qed

lemma safe_insn:
  assumes "bpf_safe prog p" "n < length prog"
  shows "validate_insn (length prog) n (prog ! n)" "index_mem_ok (prog ! n)" "length prog < 2 ^ 31"
    "Suc n = length prog \<Longrightarrow> BPF_CLASS (insn_code (prog ! n)) = BPF_RET"
proof -
  note v = bpf_validate_nth [of prog]
  show "validate_insn (length prog) n (prog ! n)" "index_mem_ok (prog ! n)" "length prog < 2 ^ 31"
    using assms v by (auto simp: bpf_safe_def list_all_length)
  assume "Suc n = length prog"
  then have "n = length prog - 1" by simp
  with assms v last_conv_nth [of prog] show "BPF_CLASS (insn_code (prog ! n)) = BPF_RET"
    by (auto simp: bpf_safe_def)
qed

lemma exec_safe:
  assumes "bpf_safe prog p" "bpf_inv prog st"
  shows "exec env p (prog ! pc st) st \<noteq> Fault f"
    and "exec env p (prog ! pc st) st = Continue st' \<Longrightarrow> bpf_inv prog st'"
proof -
  let ?i = "prog ! pc st"
  have n: "pc st < length prog" "length (mem st) = 16"
    using assms(2) by (auto simp: bpf_inv_def BPF_MEMWORDS_def)
  note safe = safe_insn [OF assms(1) n(1)]
  have pk: "packet_ok p" using assms(1) by (simp add: bpf_safe_def)
  note memk = validated_mem [OF safe(1,2)]
  note divk = validated_div [OF safe(1), of _ _ env "A st" st]
  show "exec env p ?i st \<noteq> Fault f"
  proof (cases "decode (insn_code ?i)")
    case (Some op)
    with memk divk n ld_abs_ok [OF pk] ld_ind_ok [OF pk] show ?thesis
      by (cases op) (auto simp: exec_def goto_def load_A_def load_msh_def
          simp del: ld_abs.simps split: option.split load.split alu_result.split)
  qed (simp add: exec_def)
  assume cont: "exec env p ?i st = Continue st'"
  then have "BPF_CLASS (insn_code ?i) \<noteq> BPF_RET"
    using class_RET_returns [of ?i env p st] by auto
  with safe(4) n(1) have next_pc: "pc st + 1 < length prog" by (cases "Suc (pc st) = length prog") auto
  show "bpf_inv prog st'"
  proof (cases "decode (insn_code ?i)")
    case None
    with cont show ?thesis by (simp add: exec_def)
  next
    case (Some op)
    with cont next_pc n validated_jump [OF safe(1,3)] show ?thesis
      by (cases op) (auto simp: exec_def goto_def load_A_def load_msh_def bpf_inv_def BPF_MEMWORDS_def
          wr_def split: option.splits load.splits alu_result.splits if_splits)
  qed
qed

text \<open>The filter as an instance of the step machine interface; the measure is the number of
  instructions ahead of \<open>pc\<close>.\<close>

interpretation bpf: bounded_machine "bpf_step env prog p" "bpf_run env prog p"
  "\<lambda>st. bpf_safe prog p \<and> bpf_inv prog st" "\<lambda>st. length prog - pc st"
  for env prog p
proof
  fix st st' f
  show "bpf_run env prog p st = (case bpf_step env prog p st of
      Continue st' \<Rightarrow> bpf_run env prog p st' | Return v \<Rightarrow> Inr v | Fault f \<Rightarrow> Inl f)"
    by (rule bpf_run.simps)
  assume inv: "bpf_safe prog p \<and> bpf_inv prog st"
  then have st: "bpf_step env prog p st = exec env p (prog ! pc st) st"
    by (simp add: bpf_step_def bpf_inv_def)
  with inv show "bpf_step env prog p st \<noteq> Fault f"
    by (simp add: exec_safe(1))
  assume "bpf_step env prog p st = Continue st'"
  with st have cont: "exec env p (prog ! pc st) st = Continue st'" by simp
  with inv exec_safe(2) [of prog p st env st'] exec_pc [OF cont]
  show "(bpf_safe prog p \<and> bpf_inv prog st') \<and> length prog - pc st' < length prog - pc st"
    by (auto simp: bpf_inv_def)
qed

section \<open>Packets in mbufs against packets in one buffer\<close>

lemma nth_concat_MINDEX:
  assumes "MINDEX m ms k = Some (m', ms', k')"
  shows "drop k (concat (m # ms)) = drop k' m' @ concat ms'" "k' < length m'"
proof -
  obtain pre where pre: "pre @ m' # ms' = m # ms" "k = length (concat pre) + k'" "k' < length m'"
    using MINDEX_Some [OF assms] by auto
  have "concat (m # ms) = concat pre @ m' @ concat ms'"
    by (simp flip: pre(1))
  with pre(2,3) show "drop k (concat (m # ms)) = drop k' m' @ concat ms'" "k' < length m'"
    by simp_all
qed

lemma nth_of_drop: "drop k xs = ys \<Longrightarrow> i < length ys \<Longrightarrow> xs ! (k + i) = ys ! i \<and> k + i < length xs"
  by auto

lemma m_xword_bytes:
  assumes "m_xword m ms k = (w, False)"
  shows "\<exists>a b c d. take 4 (drop k (concat (m # ms))) = [a, b, c, d] \<and> w = be32 a b c d"
proof -
  obtain m' ms' k' where M: "MINDEX m ms k = Some (m', ms', k')"
    using assms by (auto simp: m_xword_def split: option.splits)
  obtain a as where a: "drop k' m' = a # as" "m' ! k' = a"
    using nth_concat_MINDEX(2) [OF M] by (metis Cons_nth_drop_Suc)
  have n: "m' ! (k' + i) = (a # as) ! i" if "i < length (a # as)" for i
    using that a(1) by (metis nth_drop length_drop less_or_eq_imp_le nth_concat_MINDEX(2) [OF M])
  have len: "length m' - k' = Suc (length as)"
    using a(1) by (metis length_Cons length_drop)
  have len': "length m0 + length m' - k' = length m0 + Suc (length as)" for m0 :: "u8 list"
    using len nth_concat_MINDEX(2) [OF M] by simp
  have bytes: "drop k (concat (m # ms)) = a # as @ concat ms'"
    using nth_concat_MINDEX(1) [OF M] a(1) by simp
  note n1 = n [of 1] n [of 2] n [of 3]
  note simps = len len' a(2) numeral_eq_Suc not_less Suc_le_length_iff neq_Nil_conv
  consider "as = []" | b where "as = [b]" | b c where "as = [b, c]" | b c d r where "as = b # c # d # r"
    by (metis list.exhaust)
  then show ?thesis
    using assms M n1 unfolding bytes m_xword_def
    by cases (auto simp: simps split: if_splits list.splits)
qed

definition no_relative_or_half_load :: "bpf_insn \<Rightarrow> bool" where
  "no_relative_or_half_load i \<longleftrightarrow>
    (case decode (insn_code i) of
       Some (Op_LD_IND _) \<Rightarrow> False | Some (Op_LD_ABS H) \<Rightarrow> False | _ \<Rightarrow> True)"

definition contiguous :: "u8 list \<Rightarrow> packet" where
  "contiguous b = \<lparr>pkt_buf = b, m_first = [], m_next = []\<rparr>"

definition single_mbuf :: "u8 list \<Rightarrow> packet" where
  "single_mbuf b = \<lparr>pkt_buf = [], m_first = b, m_next = []\<rparr>"

lemma MINDEX_single: "MINDEX b [] n = (if n < length b then Some (b, [], n) else None)"
  by (subst MINDEX.simps) simp

lemma word_fits_iff: "\<not> (n > (l :: u32) \<or> c > l - n) \<longleftrightarrow> unat n + unat c \<le> unat l"
proof
  assume h: "unat n + unat c \<le> unat l"
  then have "n \<le> l" by (simp add: word_le_nat_alt)
  with h show "\<not> (n > l \<or> c > l - n)" by (auto simp: not_less word_le_nat_alt unat_sub)
qed (use word_fits in blast)

lemma ld_abs_single_mbuf:
  assumes "b \<noteq> []" "length b < 2 ^ 32" "w \<noteq> H"
  shows "ld_abs (contiguous b) w n = ld_abs (single_mbuf b) w n"
proof (cases w)
  case W
  have l: "unat (buflen (contiguous b)) = length b"
    using assms(2) by (intro trans [OF unat_buflen]) (auto simp: packet_ok_def contiguous_def)
  have o2: "n > buflen (single_mbuf b) \<or> 4 > buflen (single_mbuf b) - n"
    by (cases "n = 0") (auto simp: buflen_def single_mbuf_def word_gt_0)
  have o1: "(n > buflen (contiguous b) \<or> 4 > buflen (contiguous b) - n) \<longleftrightarrow> length b < unat n + 4"
    using word_fits_iff [where n = n and l = "buflen (contiguous b)" and c = 4] l by auto
  show ?thesis
    unfolding W ld_abs.simps ld_word_def o1 if_P [OF o2] using assms(1)
    by (auto simp: contiguous_def single_mbuf_def m_xword_def MINDEX_single EXTRACT_LONG_def)
next
  case B
  have l: "unat (buflen (contiguous b)) = length b"
    using assms(2) by (intro trans [OF unat_buflen]) (auto simp: packet_ok_def contiguous_def)
  have o1: "n \<ge> buflen (contiguous b) \<longleftrightarrow> length b \<le> unat n"
    using l by (simp add: word_le_nat_alt)
  show ?thesis
    unfolding B ld_abs.simps ld_byte_def o1 using assms(1)
    by (auto simp: contiguous_def single_mbuf_def MINDEX_single buflen_def)
qed (use assms(3) in simp)

lemma exec_single_mbuf:
  assumes "b \<noteq> []" "length b < 2 ^ 32" "no_relative_or_half_load i"
  shows "exec env (contiguous b) i st = exec env (single_mbuf b) i st"
proof (cases "decode (insn_code i)")
  case (Some op)
  with assms ld_abs_single_mbuf [OF assms(1,2)] show ?thesis
    by (cases op) (auto simp: exec_def no_relative_or_half_load_def simp del: ld_abs.simps split: width.splits)
qed (simp add: exec_def)

lemma bpf_run_single_mbuf:
  assumes "b \<noteq> []" "length b < 2 ^ 32" "list_all no_relative_or_half_load prog"
  shows "bpf_run env prog (contiguous b) st = bpf_run env prog (single_mbuf b) st"
proof (induction "length prog - pc st" arbitrary: st rule: less_induct)
  case less
  have step: "bpf_step env prog (contiguous b) st = bpf_step env prog (single_mbuf b) st"
    using exec_single_mbuf [OF assms(1,2)] assms(3)
    by (auto simp: bpf_step_def rd_def list_all_length)
  have "length prog - pc st' < length prog - pc st" if "bpf_step env prog (single_mbuf b) st = Continue st'" for st'
    using that by (auto simp: bpf_step_def rd_def split: if_splits dest!: exec_pc)
  with less step show ?case
    by (subst (1 2) bpf_run.simps) (auto split: outcome.split)
qed

section \<open>Properties\<close>

definition insn :: "u16 \<Rightarrow> u8 \<Rightarrow> u8 \<Rightarrow> u32 \<Rightarrow> bpf_insn" where
  "insn c t f n = \<lparr>insn_code = c, insn_jt = t, insn_jf = f, insn_k = n\<rparr>"

definition plain_env :: bpf_env where
  "plain_env = \<lparr>wirelen = 20, undef_shl = (\<lambda>a b. 0), undef_shr = (\<lambda>a b. 0)\<rparr>"

lemmas filter_eval = bpf_filter_def bpf_run.simps bpf_step_def exec_def decode_def opcode_table_def
  insn_def goto_def load_A_def src_def

text \<open>C6: a program the validator accepts, of fewer than \<open>2 ^ 31\<close> instructions and with the indices of
  \<^verbatim>\<open>BPF_STX\<close> and \<^verbatim>\<open>BPF_LDX|BPF_MEM\<close> in range, which the validator does not check, returns a
  value on every packet shorter than \<open>2 ^ 32\<close> bytes in which no mbuf behind the first one is empty: no read
  outside the packet, the scratch memory or the program, no division by zero, whatever the scratch memory
  holds at the start.\<close>

theorem bpf_validated_returns:
  assumes "bpf_validate prog = Some True" and "length prog < 2 ^ 31"
    and "list_all index_mem_ok prog" and "packet_ok p" and "length mem0 = BPF_MEMWORDS"
  shows "\<exists>v. bpf_filter env mem0 (Some prog) p = Inr v"
proof -
  have "bpf_safe prog p \<and> bpf_inv prog \<lparr>pc = 0, A = 0, X = 0, mem = mem0\<rparr>"
    using assms bpf_validate_nth [OF assms(1)] by (simp add: bpf_safe_def bpf_inv_def)
  from bpf.run_returns [OF this, of env] show ?thesis
    by (simp add: bpf_filter_def)
qed

theorem bpf_validated_returns_witness:
  "\<exists>v. bpf_filter plain_env (replicate 16 0)
      (Some [insn 0x30 0 0 9, insn 0x15 0 1 6, insn 0x06 0 0 96, insn 0x06 0 0 0])
      (contiguous (replicate 20 6)) = Inr v"
  by (rule bpf_validated_returns)
    (simp_all add: bpf_validate_def validate_insn_def BPF_CLASS_def BPF_OP_def BPF_MODE_def
      BPF_MEMWORDS_def insn_def index_mem_ok_def decode_def opcode_table_def packet_ok_def
      contiguous_def Let_def)

text \<open>Without that side condition the validator does not keep the kernel safe: it accepts a
  program that stores \<^verbatim>\<open>X\<close> behind the end of the scratch memory, and one that loads \<^verbatim>\<open>X\<close> from
  there.\<close>

theorem bpf_validate_misses_index:
  "bpf_validate [insn BPF_STX 0 0 16, insn BPF_RET 0 0 0] = Some True
    \<and> bpf_filter env (replicate 16 0) (Some [insn BPF_STX 0 0 16, insn BPF_RET 0 0 0]) p
      = Inl Mem_out_of_range
    \<and> bpf_validate [insn (BPF_LDX OR BPF_MEM) 0 0 16, insn BPF_RET 0 0 0] = Some True
    \<and> bpf_filter env (replicate 16 0) (Some [insn (BPF_LDX OR BPF_MEM) 0 0 16, insn BPF_RET 0 0 0]) p
      = Inl Mem_out_of_range"
  by (simp add: bpf_validate_def validate_insn_def BPF_CLASS_def BPF_OP_def BPF_MODE_def
      BPF_MEMWORDS_def Let_def filter_eval wr_def rd_def)

text \<open>A word load from an mbuf chain that reports success returns the four bytes, in network
  order, that stand at the offset in the concatenation of the mbufs, also across an mbuf boundary.\<close>

theorem m_xword_correct:
  assumes "m_xword m ms k = (w, False)"
  shows "\<exists>a b c d. take 4 (drop k (concat (m # ms))) = [a, b, c, d] \<and> w = be32 a b c d"
  by (rule m_xword_bytes [OF assms])

theorem m_xword_correct_witness:
  "\<exists>a b c d. take 4 (drop 1 (concat [[1, 2, 3], [4, 5]])) = [a, b, c, d]
    \<and> be32 2 3 4 5 = be32 a b c d"
  by (rule m_xword_correct) (simp add: m_xword_def MINDEX.simps numeral_eq_Suc)

text \<open>A program with absolute word and byte loads only gives the same verdict for a packet in
  one buffer and for the same packet in one mbuf.\<close>

theorem bpf_filter_contiguous_mbuf:
  assumes "b \<noteq> []" and "length b < 2 ^ 32" and "list_all no_relative_or_half_load prog"
  shows "bpf_filter env mem0 (Some prog) (contiguous b) = bpf_filter env mem0 (Some prog) (single_mbuf b)"
  using bpf_run_single_mbuf [OF assms] by (simp add: bpf_filter_def)

theorem bpf_filter_contiguous_mbuf_witness:
  "bpf_filter plain_env (replicate 16 0) (Some [insn 0x30 0 0 9, insn 0x16 0 0 0]) (contiguous (replicate 20 6))
    = bpf_filter plain_env (replicate 16 0) (Some [insn 0x30 0 0 9, insn 0x16 0 0 0]) (single_mbuf (replicate 20 6))"
  by (rule bpf_filter_contiguous_mbuf)
    (simp_all add: no_relative_or_half_load_def insn_def decode_def opcode_table_def)

text \<open>The two other kinds of load do depend on how the packet is stored. An absolute half-word
  load behind the end of an mbuf chain is not rejected but loads 0, and an indexed byte load whose
  offset wraps around 32 bits is served from the wrapped offset.\<close>

theorem bpf_filter_storage_dependent:
  "bpf_filter env mem0 (Some [insn (BPF_LD OR BPF_H OR BPF_ABS) 0 0 0, insn BPF_RET 0 0 1]) (contiguous [7]) = Inr 0
    \<and> bpf_filter env mem0 (Some [insn (BPF_LD OR BPF_H OR BPF_ABS) 0 0 0, insn BPF_RET 0 0 1]) (single_mbuf [7]) = Inr 1
    \<and> bpf_filter env mem0 (Some [insn (BPF_LDX OR BPF_IMM) 0 0 0xffffffff,
      insn (BPF_LD OR BPF_B OR BPF_IND) 0 0 1, insn (BPF_RET OR BPF_A) 0 0 0]) (contiguous [7]) = Inr 0
    \<and> bpf_filter env mem0 (Some [insn (BPF_LDX OR BPF_IMM) 0 0 0xffffffff,
      insn (BPF_LD OR BPF_B OR BPF_IND) 0 0 1, insn (BPF_RET OR BPF_A) 0 0 0]) (single_mbuf [7]) = Inr 7"
  by (simp_all add: filter_eval contiguous_def single_mbuf_def ld_half_def ld_byte_def buflen_def
      m_xhalf_def MINDEX_single Let_def)

end
