(* ===== verification/Dhcp_Options.thy ===== *)
theory Dhcp_Options
  imports Prelude
begin

text \<open>
  DHCP option areas, \<^verbatim>\<open>netinet/dhcp_options.c\<close>: the growable pointer array
  (\<^verbatim>\<open>ptrlist_*\<close>), the parser of received option areas (\<^verbatim>\<open>dhcpol_*\<close>) and the writer of new
  ones (\<^verbatim>\<open>dhcpoa_*\<close>). A pointer into a packet is its offset in the list of packet bytes; a read
  or write outside an object is the outcome \<open>None\<close>. Allocation waits (\<^verbatim>\<open>M_WAITOK\<close>) and does not
  fail. Byte counts are C \<^verbatim>\<open>int\<close>s below \<^verbatim>\<open>2^31\<close> and modelled without overflow.
\<close>

section \<open>Growable arrays of pointers\<close>

text \<open>A slot of a freshly allocated array holds no defined value.\<close>

datatype 'a slot = Uninit | Elem 'a

record 'a ptrlist =
  pl_array :: "'a slot list option"
  pl_size :: nat
  pl_count :: nat

definition PTRLIST_NUMBER :: nat where
  "PTRLIST_NUMBER = 16"

definition SIZEOF_PTR :: nat where
  "SIZEOF_PTR = 4"

definition my_malloc :: "nat \<Rightarrow> 'a slot list" where
  "my_malloc bytes = replicate (bytes div SIZEOF_PTR) Uninit"

text \<open>\<^verbatim>\<open>bcopy(oldptr, data, oldsize)\<close> copies \<^verbatim>\<open>oldsize\<close> bytes: that many whole pointers.\<close>

definition my_realloc :: "'a slot list \<Rightarrow> nat \<Rightarrow> nat \<Rightarrow> 'a slot list" where
  "my_realloc old oldsize newsize =
    (let n = oldsize div SIZEOF_PTR
     in take n old @ replicate (newsize div SIZEOF_PTR - n) Uninit)"

definition ptrlist_init :: "'a ptrlist" where
  "ptrlist_init = \<lparr>pl_array = None, pl_size = 0, pl_count = 0\<rparr>"

definition ptrlist_free :: "'a ptrlist \<Rightarrow> 'a ptrlist" where
  "ptrlist_free l = ptrlist_init"

definition ptrlist_count :: "'a ptrlist \<Rightarrow> nat" where
  "ptrlist_count l = (if pl_array l = None then 0 else pl_count l)"

text \<open>\<open>None\<close> is NULL.\<close>

definition ptrlist_element :: "'a ptrlist \<Rightarrow> nat \<Rightarrow> 'a slot option" where
  "ptrlist_element l i =
    (case pl_array l of
       None \<Rightarrow> None
     | Some a \<Rightarrow> if i < pl_count l then Some (a ! i) else None)"

definition ptrlist_grow :: "'a ptrlist \<Rightarrow> 'a ptrlist" where
  "ptrlist_grow l =
    (case pl_array l of
       None \<Rightarrow>
         (let sz = (if pl_size l = 0 then PTRLIST_NUMBER else pl_size l)
          in l\<lparr>pl_size := sz, pl_count := 0, pl_array := Some (my_malloc (SIZEOF_PTR * sz))\<rparr>)
     | Some a \<Rightarrow>
         if pl_size l = pl_count l
         then l\<lparr>pl_array := Some (my_realloc a (SIZEOF_PTR * pl_size l) (SIZEOF_PTR * pl_size l * 2)),
                pl_size := pl_size l * 2\<rparr>
         else l)"

definition ptrlist_add :: "'a ptrlist \<Rightarrow> 'a \<Rightarrow> 'a ptrlist" where
  "ptrlist_add l x =
    (let g = ptrlist_grow l
     in g\<lparr>pl_array := map_option (\<lambda>a. a[pl_count g := Elem x]) (pl_array g),
          pl_count := Suc (pl_count g)\<rparr>)"

text \<open>\<^verbatim>\<open>ptrlist_concat\<close>: the old array is copied with the element count as its byte count.\<close>

definition ptrlist_concat :: "'a ptrlist \<Rightarrow> 'a ptrlist \<Rightarrow> 'a ptrlist" where
  "ptrlist_concat l extra =
    (if pl_count extra = 0 then l
     else
       let l1 = (if pl_count extra + pl_count l > pl_size l then
                   let sz = pl_count extra + pl_count l
                   in l\<lparr>pl_size := sz,
                        pl_array := Some (case pl_array l of
                            None \<Rightarrow> my_malloc (SIZEOF_PTR * sz)
                          | Some a \<Rightarrow> my_realloc a (pl_size l) (SIZEOF_PTR * sz))\<rparr>
                 else l)
       in case (pl_array l1, pl_array extra) of
            (Some a, Some e) \<Rightarrow>
              l1\<lparr>pl_array := Some (take (pl_count l1) a @ take (pl_count extra) e
                              @ drop (pl_count l1 + pl_count extra) a),
                 pl_count := pl_count l1 + pl_count extra\<rparr>
          | _ \<Rightarrow> l1)"

section \<open>Parsing option areas\<close>

definition DHCP_TAG_OFFSET :: nat where "DHCP_TAG_OFFSET = 0"
definition DHCP_LEN_OFFSET :: nat where "DHCP_LEN_OFFSET = 1"
definition DHCP_OPTION_OFFSET :: nat where "DHCP_OPTION_OFFSET = 2"
definition DHCP_OPTION_SIZE_MAX :: int where "DHCP_OPTION_SIZE_MAX = 255"

abbreviation "dhcptag_pad_e \<equiv> 0 :: u8"
abbreviation "dhcptag_end_e \<equiv> 255 :: u8"
abbreviation "dhcptag_option_overload_e \<equiv> 52 :: u8"
abbreviation "dhcptag_dhcp_message_type_e \<equiv> 53 :: u8"

lemmas offset_defs [simp] = DHCP_TAG_OFFSET_def DHCP_LEN_OFFSET_def DHCP_OPTION_OFFSET_def

type_synonym dhcpol = "nat ptrlist"

lemma option_advances: "- uint (n :: u8) < 2"
proof -
  have "0 \<le> uint n" by simp
  then show ?thesis by linarith
qed

text \<open>The scanning loop: option list, \<^verbatim>\<open>scan\<close>, \<^verbatim>\<open>len\<close> and the last tag read.\<close>

function dhcpol_parse_loop ::
  "u8 list \<Rightarrow> dhcpol \<Rightarrow> nat \<Rightarrow> int \<Rightarrow> u8 \<Rightarrow> (dhcpol \<times> int) option" where
  "dhcpol_parse_loop m list scan len tag =
    (if tag \<noteq> dhcptag_end_e \<and> len > 0 then
       (case rd m (scan + DHCP_TAG_OFFSET) of
          None \<Rightarrow> None
        | Some tag' \<Rightarrow>
            if tag' = dhcptag_end_e
            then dhcpol_parse_loop m (ptrlist_add list scan) (scan + 1) (len - 1) tag'
            else if tag' = dhcptag_pad_e
            then dhcpol_parse_loop m list (scan + 1) (len - 1) tag'
            else (case rd m (scan + DHCP_LEN_OFFSET) of
                    None \<Rightarrow> None
                  | Some option_len \<Rightarrow>
                      dhcpol_parse_loop m (ptrlist_add list scan)
                        (scan + (unat option_len + 2)) (len - (int (unat option_len) + 2)) tag'))
     else Some (list, len))"
  by pat_completeness auto
termination
  by (relation "measure (\<lambda>(m, l, s, len, t). nat len)") (auto simp: option_advances)

declare dhcpol_parse_loop.simps [simp del]

text \<open>\<open>dhcpol_parse_buffer\<close> on the \<open>length\<close> bytes that start at offset \<open>buffer\<close>.\<close>

definition dhcpol_parse_buffer :: "u8 list \<Rightarrow> nat \<Rightarrow> int \<Rightarrow> (bool \<times> dhcpol) option" where
  "dhcpol_parse_buffer m buffer len =
    (case dhcpol_parse_loop m ptrlist_init buffer len dhcptag_pad_e of
       None \<Rightarrow> None
     | Some (list, left) \<Rightarrow>
         if left < 0 then Some (False, ptrlist_free list) else Some (True, list))"

text \<open>\<open>dhcpol_find\<close>: outer \<open>None\<close> is a bad access, the result is the option data pointer,
  its length and the next start index, or NULL.\<close>

function dhcpol_find_loop ::
  "u8 list \<Rightarrow> dhcpol \<Rightarrow> int \<Rightarrow> nat \<Rightarrow> (nat \<times> nat \<times> nat) option option" where
  "dhcpol_find_loop m list tag i =
    (if i < ptrlist_count list then
       (case ptrlist_element list i of
          Some (Elem option) \<Rightarrow>
            (case rd m (option + DHCP_TAG_OFFSET) of
               None \<Rightarrow> None
             | Some t \<Rightarrow>
                 if int (unat t) = tag
                 then (case rd m (option + DHCP_LEN_OFFSET) of
                         None \<Rightarrow> None
                       | Some n \<Rightarrow> Some (Some (option + DHCP_OPTION_OFFSET, unat n, i + 1)))
                 else dhcpol_find_loop m list tag (i + 1))
        | _ \<Rightarrow> None)
     else Some None)"
  by pat_completeness auto
termination
  by (relation "measure (\<lambda>(m, l, t, i). ptrlist_count l - i)") auto

declare dhcpol_find_loop.simps [simp del]

definition dhcpol_find ::
  "u8 list \<Rightarrow> dhcpol \<Rightarrow> int \<Rightarrow> nat option \<Rightarrow> (nat \<times> nat \<times> nat) option option" where
  "dhcpol_find m list tag start =
    (if tag = 255 \<or> tag = 0 then Some None
     else dhcpol_find_loop m list tag (case start of None \<Rightarrow> 0 | Some i \<Rightarrow> i))"

text \<open>The layout of \<^verbatim>\<open>struct dhcp\<close> in \<^verbatim>\<open>netinet/dhcp.h\<close>.\<close>

definition SIZEOF_DHCP :: nat where "SIZEOF_DHCP = 236"
definition DP_SNAME :: nat where "DP_SNAME = 44"
definition DP_FILE :: nat where "DP_FILE = 108"
definition RFC_OPTIONS_MAGIC :: "u8 list" where "RFC_OPTIONS_MAGIC = [99, 130, 83, 99]"

definition merge_area :: "u8 list \<Rightarrow> nat \<Rightarrow> int \<Rightarrow> dhcpol \<Rightarrow> dhcpol option" where
  "merge_area pkt area sz options =
    (case dhcpol_parse_buffer pkt area sz of
       None \<Rightarrow> None
     | Some (ok, extra) \<Rightarrow> Some (if ok then ptrlist_concat options extra else options))"

text \<open>\<open>dhcpol_parse_packet\<close>; the length test compares as unsigned 32-bit numbers.\<close>

definition dhcpol_parse_packet :: "u8 list \<Rightarrow> int \<Rightarrow> (bool \<times> dhcpol) option" where
  "dhcpol_parse_packet pkt len =
    (if len mod 2 ^ 32 < int SIZEOF_DHCP + 4 then Some (False, ptrlist_init)
     else if length pkt < SIZEOF_DHCP + 4 then None
     else if take 4 (drop SIZEOF_DHCP pkt) \<noteq> RFC_OPTIONS_MAGIC then Some (False, ptrlist_init)
     else case dhcpol_parse_buffer pkt (SIZEOF_DHCP + 4) (len - int SIZEOF_DHCP - 4) of
       None \<Rightarrow> None
     | Some (False, options) \<Rightarrow> Some (False, options)
     | Some (True, options) \<Rightarrow>
         (case dhcpol_find pkt options (int (unat dhcptag_option_overload_e)) None of
            None \<Rightarrow> None
          | Some None \<Rightarrow> Some (True, options)
          | Some (Some (overload, overload_len, _)) \<Rightarrow>
              if overload_len \<noteq> 1 then Some (True, options)
              else (case rd pkt overload of
                      None \<Rightarrow> None
                    | Some v \<Rightarrow>
                        map_option (Pair True)
                          (Option.bind (if v = 1 \<or> v = 3 then merge_area pkt DP_FILE 128 options
                                        else Some options)
                             (\<lambda>o1. if v = 2 \<or> v = 3 then merge_area pkt DP_SNAME 64 o1 else Some o1)))))"

section \<open>Writing option areas\<close>

record dhcpoa =
  oa_buffer :: "u8 list"
  oa_size :: int
  oa_offset :: int
  oa_end_tag :: bool
  oa_option_count :: int
  oa_reserve :: int

datatype dhcpoa_ret = dhcpoa_success_e | dhcpoa_failed_e | dhcpoa_full_e

definition dhcpoa_init_common :: "u8 list \<Rightarrow> int \<Rightarrow> int \<Rightarrow> dhcpoa" where
  "dhcpoa_init_common buffer sz reserve =
    \<lparr>oa_buffer = buffer, oa_size = sz, oa_offset = 0, oa_end_tag = False,
     oa_option_count = 0, oa_reserve = reserve\<rparr>"

definition dhcpoa_init_no_end :: "u8 list \<Rightarrow> int \<Rightarrow> dhcpoa" where
  "dhcpoa_init_no_end buffer sz = dhcpoa_init_common buffer sz 0"

definition dhcpoa_init :: "u8 list \<Rightarrow> int \<Rightarrow> dhcpoa" where
  "dhcpoa_init buffer sz = dhcpoa_init_common buffer sz 1"

text \<open>A store of consecutive bytes; \<open>None\<close> outside the buffer.\<close>

definition store :: "int \<Rightarrow> u8 list \<Rightarrow> u8 list \<Rightarrow> u8 list option" where
  "store i bs m =
    (if 0 \<le> i \<and> nat i + length bs \<le> length m
     then Some (take (nat i) m @ bs @ drop (nat i + length bs) m) else None)"

text \<open>\<open>dhcpoa_add\<close>: \<open>option\<close> is the memory at the data pointer, of which \<open>len\<close> bytes are
  copied; a negative \<open>len\<close> becomes a huge copy.\<close>

definition dhcpoa_add ::
  "dhcpoa \<Rightarrow> u8 \<Rightarrow> int \<Rightarrow> u8 list \<Rightarrow> (dhcpoa_ret \<times> dhcpoa) option" where
  "dhcpoa_add oa tag len option =
    (if len > DHCP_OPTION_SIZE_MAX then Some (dhcpoa_failed_e, oa)
     else if oa_end_tag oa then Some (dhcpoa_failed_e, oa)
     else if tag = dhcptag_end_e then
       (if oa_offset oa + 1 > oa_size oa then Some (dhcpoa_failed_e, oa)
        else map_option (\<lambda>b. (dhcpoa_success_e,
               oa\<lparr>oa_buffer := b, oa_offset := oa_offset oa + 1, oa_end_tag := True,
                  oa_option_count := oa_option_count oa + 1\<rparr>))
               (store (oa_offset oa) [tag] (oa_buffer oa)))
     else if tag = dhcptag_pad_e then
       (if oa_offset oa + oa_reserve oa + 1 > oa_size oa then Some (dhcpoa_full_e, oa)
        else map_option (\<lambda>b. (dhcpoa_success_e,
               oa\<lparr>oa_buffer := b, oa_offset := oa_offset oa + 1,
                  oa_option_count := oa_option_count oa + 1\<rparr>))
               (store (oa_offset oa) [tag] (oa_buffer oa)))
     else
       (if oa_offset oa + len + 2 + oa_reserve oa > oa_size oa then Some (dhcpoa_full_e, oa)
        else if len < 0 \<or> int (length option) < len then None
        else map_option (\<lambda>b. (dhcpoa_success_e,
               oa\<lparr>oa_buffer := b, oa_offset := oa_offset oa + (len + 2),
                  oa_option_count := oa_option_count oa + 1\<rparr>))
               (store (oa_offset oa) (tag # word_of_int len # take (nat len) option) (oa_buffer oa))))"

definition dhcpoa_add_dhcpmsg :: "dhcpoa \<Rightarrow> u8 \<Rightarrow> (dhcpoa_ret \<times> dhcpoa) option" where
  "dhcpoa_add_dhcpmsg oa msgtype = dhcpoa_add oa dhcptag_dhcp_message_type_e 1 [msgtype]"

definition dhcpoa_used :: "dhcpoa \<Rightarrow> int" where
  "dhcpoa_used oa = oa_offset oa"

definition dhcpoa_freespace :: "dhcpoa \<Rightarrow> int" where
  "dhcpoa_freespace oa =
    (let freespace = oa_size oa - oa_offset oa - oa_reserve oa
     in if freespace < 0 then 0 else freespace)"

section \<open>The pointer array as a list\<close>

definition pl_repr :: "'a ptrlist \<Rightarrow> 'a list \<Rightarrow> bool" where
  "pl_repr l xs \<longleftrightarrow>
    (case pl_array l of
       None \<Rightarrow> xs = [] \<and> pl_size l = 0 \<and> pl_count l = 0
     | Some a \<Rightarrow> pl_count l = length xs \<and> length xs \<le> length a \<and> length a = pl_size l
         \<and> 0 < pl_size l \<and> take (length xs) a = map Elem xs)"

text \<open>What the parser relies on: an array that starts empty and can be extended at its end, whose
  elements can be counted and read back.\<close>

locale dyn_array =
  fixes init :: 's
    and add :: "'s \<Rightarrow> 'a \<Rightarrow> 's"
    and count :: "'s \<Rightarrow> nat"
    and element :: "'s \<Rightarrow> nat \<Rightarrow> 'a slot option"
    and repr :: "'s \<Rightarrow> 'a list \<Rightarrow> bool"
  assumes init: "repr init []"
    and add: "repr l xs \<Longrightarrow> repr (add l x) (xs @ [x])"
    and count: "repr l xs \<Longrightarrow> count l = length xs"
    and element: "repr l xs \<Longrightarrow>
      element l i = (if i < length xs then Some (Elem (xs ! i)) else None)"
begin

lemma fold_add: "repr l xs \<Longrightarrow> repr (foldl add l ys) (xs @ ys)"
proof (induction ys arbitrary: l xs)
  case (Cons y ys)
  from Cons.IH [OF add [OF Cons.prems, of y]] show ?case by simp
qed simp

lemma add_all: "repr (foldl add init ys) ys"
  using fold_add [OF init] by simp

end

lemma pl_repr_init: "pl_repr ptrlist_init []"
  by (simp add: pl_repr_def ptrlist_init_def)

lemma pl_repr_grow:
  assumes "pl_repr l xs"
  shows "pl_repr (ptrlist_grow l) xs \<and> length xs < pl_size (ptrlist_grow l)
    \<and> (\<exists>a. pl_array (ptrlist_grow l) = Some a)"
  using assms
  by (auto simp: pl_repr_def ptrlist_grow_def my_malloc_def my_realloc_def SIZEOF_PTR_def
      PTRLIST_NUMBER_def Let_def split: option.splits)

lemma pl_repr_add: "pl_repr l xs \<Longrightarrow> pl_repr (ptrlist_add l x) (xs @ [x])"
  using pl_repr_grow [of l xs]
  by (auto simp: pl_repr_def ptrlist_add_def Let_def take_Suc_conv_app_nth split: option.splits)

lemma pl_repr_element:
  "pl_repr l xs \<Longrightarrow> ptrlist_element l i = (if i < length xs then Some (Elem (xs ! i)) else None)"
  by (auto simp: pl_repr_def ptrlist_element_def split: option.splits)
    (metis nth_map nth_take)

interpretation pl: dyn_array ptrlist_init ptrlist_add ptrlist_count ptrlist_element pl_repr
  by unfold_locales
    (auto simp: pl_repr_init pl_repr_add pl_repr_element,
     simp add: pl_repr_def ptrlist_count_def split: option.splits)

text \<open>Concatenation is right when the old array need not be copied.\<close>

lemma pl_repr_concat:
  assumes l: "pl_repr l xs" and e: "pl_repr extra ys"
    and room: "pl_array l = None \<or> length xs + length ys \<le> pl_size l"
  shows "pl_repr (ptrlist_concat l extra) (xs @ ys)"
proof (cases "ys = []")
  case True
  with l e show ?thesis
    by (auto simp: pl_repr_def ptrlist_concat_def split: option.splits)
next
  case False
  with e obtain b where b: "pl_array extra = Some b" "pl_count extra = length ys" "take (length ys) b = map Elem ys"
    "length ys \<le> length b"
    by (auto simp: pl_repr_def split: option.splits)
  show ?thesis
  proof (cases "pl_array l")
    case None
    with l b False show ?thesis
      by (auto simp: pl_repr_def ptrlist_concat_def my_malloc_def SIZEOF_PTR_def Let_def)
  next
    case (Some a)
    with l b False room show ?thesis
      by (auto simp: pl_repr_def ptrlist_concat_def Let_def min_def)
  qed
qed

section \<open>Option areas as lists of items\<close>

datatype item = Pad | End | Opt u8 "u8 list"

fun item_ok :: "item \<Rightarrow> bool" where
  "item_ok Pad = True"
| "item_ok End = True"
| "item_ok (Opt tag d) \<longleftrightarrow> tag \<noteq> dhcptag_pad_e \<and> tag \<noteq> dhcptag_end_e \<and> length d \<le> 255"

fun encode :: "item \<Rightarrow> u8 list" where
  "encode Pad = [dhcptag_pad_e]"
| "encode End = [dhcptag_end_e]"
| "encode (Opt tag d) = tag # of_nat (length d) # d"

definition encode_all :: "item list \<Rightarrow> u8 list" where
  "encode_all is = concat (map encode is)"

text \<open>The option a pointer stands for.\<close>

definition decode_at :: "u8 list \<Rightarrow> nat \<Rightarrow> item" where
  "decode_at m p =
    (if m ! p = dhcptag_end_e then End
     else Opt (m ! p) (take (unat (m ! (p + 1))) (drop (p + 2) m)))"

text \<open>Where the parser puts its pointers: at every item that is not a pad, up to an end item.\<close>

fun starts :: "nat \<Rightarrow> item list \<Rightarrow> nat list" where
  "starts p [] = []"
| "starts p (Pad # is) = starts (p + 1) is"
| "starts p (End # is) = [p]"
| "starts p (Opt t d # is) = p # starts (p + length d + 2) is"

text \<open>The items a reader sees.\<close>

fun visible :: "item list \<Rightarrow> item list" where
  "visible [] = []"
| "visible (Pad # is) = visible is"
| "visible (End # is) = [End]"
| "visible (Opt t d # is) = Opt t d # visible is"

lemma encode_all_simps [simp]:
  "encode_all [] = []"
  "encode_all (i # is) = encode i @ encode_all is"
  "encode_all (xs @ ys) = encode_all xs @ encode_all ys"
  by (simp_all add: encode_all_def)

lemma unat_of_nat_u8 [simp]: "n \<le> 255 \<Longrightarrow> unat (of_nat n :: u8) = n"
  by (simp add: unsigned_of_nat take_bit_nat_eq_self)

lemma decode_starts:
  "\<forall>i \<in> set is. item_ok i \<Longrightarrow>
    map (decode_at (pre @ encode_all is @ post)) (starts (length pre) is) = visible is"
proof (induction "is" arbitrary: pre)
  case (Cons i "is")
  note IH = Cons.IH [of "pre @ encode i"]
  show ?case
  proof (cases i)
    case Pad
    with IH Cons.prems show ?thesis by simp
  next
    case End
    then show ?thesis by (simp add: decode_at_def nth_append)
  next
    case (Opt t d)
    with IH Cons.prems show ?thesis
      by (simp add: decode_at_def nth_append)
  qed
qed simp

lemma dhcpol_parse_loop_items:
  assumes "\<forall>i \<in> set is. item_ok i" and "tag \<noteq> dhcptag_end_e"
  shows "\<exists>left. dhcpol_parse_loop (pre @ encode_all is @ post) list (length pre) (int (length (encode_all is))) tag
    = Some (foldl ptrlist_add list (starts (length pre) is), left) \<and> 0 \<le> left"
  using assms
proof (induction "is" arbitrary: pre list tag)
  case Nil
  then show ?case by (simp add: dhcpol_parse_loop.simps)
next
  case (Cons i "is")
  note IH = Cons.IH [of _ "pre @ encode i"]
  show ?case
  proof (cases i)
    case Pad
    with IH [of dhcptag_pad_e list] Cons.prems show ?thesis
      by (subst dhcpol_parse_loop.simps) (simp add: rd_def nth_append)
  next
    case End
    with Cons.prems show ?thesis
      by (subst dhcpol_parse_loop.simps, subst dhcpol_parse_loop.simps) (simp add: rd_def nth_append)
  next
    case (Opt t d)
    with IH [of t "ptrlist_add list (length pre)"] Cons.prems show ?thesis
      by (subst dhcpol_parse_loop.simps) (simp add: rd_def nth_append algebra_simps)
  qed
qed

lemma parse_encoded:
  assumes "\<forall>i \<in> set is. item_ok i"
  shows "\<exists>l ptrs. dhcpol_parse_buffer (pre @ encode_all is @ post) (length pre) (int (length (encode_all is)))
      = Some (True, l) \<and> pl_repr l ptrs
      \<and> map (decode_at (pre @ encode_all is @ post)) ptrs = visible is"
  using dhcpol_parse_loop_items [OF assms, of dhcptag_pad_e pre post ptrlist_init]
    pl.add_all [of "starts (length pre) is"] decode_starts [OF assms, of pre post]
  by (fastforce simp: dhcpol_parse_buffer_def)

section \<open>Received areas\<close>

text \<open>An option pointer into the area of \<open>len\<close> bytes at \<open>b\<close>.\<close>

definition within_area :: "u8 list \<Rightarrow> nat \<Rightarrow> int \<Rightarrow> nat \<Rightarrow> bool" where
  "within_area m b len p \<longleftrightarrow> b \<le> p \<and> int p < int b + len \<and> p < length m
    \<and> (m ! p \<noteq> dhcptag_end_e \<longrightarrow> p + 1 < length m \<and> int p + 2 + int (unat (m ! (p + 1))) \<le> int b + len)"

lemma within_area_mono:
  "within_area m b' len' p \<Longrightarrow> b \<le> b' \<Longrightarrow> int b' + len' \<le> int b + len \<Longrightarrow> within_area m b len p"
  by (auto simp: within_area_def)

lemma parse_loop_within:
  assumes "dhcpol_parse_loop m list scan len tag = Some (l, left)" "0 \<le> left" "pl_repr list xs"
  shows "left \<le> len \<and> (\<exists>ys. pl_repr l (xs @ ys) \<and> (\<forall>p \<in> set ys. within_area m scan len p))"
  using assms
proof (induction m list scan len tag arbitrary: xs rule: dhcpol_parse_loop.induct)
  case (1 m list scan len tag)
  show ?case
  proof (cases "tag \<noteq> dhcptag_end_e \<and> len > 0")
    case False
    with "1.prems" show ?thesis
      by (subst (asm) dhcpol_parse_loop.simps) (auto intro: exI [of _ "[]"])
  next
    case True
    then obtain t where t: "rd m scan = Some t"
      using "1.prems"(1) by (subst (asm) dhcpol_parse_loop.simps) (auto split: option.splits)
    consider (e) "t = dhcptag_end_e" | (p) "t = dhcptag_pad_e" | (o) "t \<noteq> dhcptag_end_e" "t \<noteq> dhcptag_pad_e" by auto
    then show ?thesis
    proof cases
      case e
      with True t "1.prems" have "l = ptrlist_add list scan" "left = len - 1"
        by (subst (asm) dhcpol_parse_loop.simps, subst (asm) dhcpol_parse_loop.simps, simp)+
      with True t e pl_repr_add [OF "1.prems"(3), of scan] show ?thesis
        by (auto intro!: exI [of _ "[scan]"] simp: within_area_def rd_def split: if_splits)
    next
      case p
      have "dhcpol_parse_loop m list (scan + 1) (len - 1) t = Some (l, left)"
        using True t p "1.prems"(1) by (subst (asm) dhcpol_parse_loop.simps) simp
      with "1.IH"(2) [of t xs] True t p "1.prems" obtain ys where
        "left \<le> len - 1" "pl_repr l (xs @ ys)" "\<forall>p \<in> set ys. within_area m (scan + 1) (len - 1) p" by auto
      then show ?thesis
        by (intro conjI exI [of _ ys]) (auto intro: within_area_mono)
    next
      case o
      then obtain n where n: "rd m (Suc scan) = Some n"
        using True t "1.prems"(1) by (subst (asm) dhcpol_parse_loop.simps) (auto split: option.splits)
      let ?s = "scan + (unat n + 2)" and ?l = "len - (int (unat n) + 2)"
      have "dhcpol_parse_loop m (ptrlist_add list scan) ?s ?l t = Some (l, left)"
        using True t o n "1.prems"(1) by (subst (asm) dhcpol_parse_loop.simps) simp
      with "1.IH"(3) [of t n "xs @ [scan]"] True t o n "1.prems" pl_repr_add [OF "1.prems"(3), of scan]
      obtain ys where ys: "left \<le> ?l" "pl_repr l (xs @ scan # ys)" "\<forall>p \<in> set ys. within_area m ?s ?l p"
        by auto
      have "within_area m scan len scan"
        using True t o n ys(1) "1.prems"(2) option_advances [of n] by (auto simp: within_area_def rd_def split: if_splits)
      moreover have "\<forall>p \<in> set ys. within_area m scan len p"
        using ys(3) by (auto elim!: within_area_mono)
      ultimately show ?thesis
        using ys option_advances [of n] by (intro conjI exI [of _ "scan # ys"]) auto
    qed
  qed
qed

lemma parse_loop_no_overread:
  assumes "int scan + len < int (length m)"
  shows "dhcpol_parse_loop m list scan len tag \<noteq> None"
  using assms
proof (induction m list scan len tag rule: dhcpol_parse_loop.induct)
  case (1 m list scan len tag)
  then show ?case
    by (subst dhcpol_parse_loop.simps) (auto split: option.split)
qed

lemma dhcpol_find_loop_safe:
  assumes "pl_repr l ptrs" and "\<forall>p \<in> set ptrs. within_area m b len p" and "tag \<noteq> 255"
  shows "\<exists>r. dhcpol_find_loop m l tag i = Some r
    \<and> (\<forall>d n j. r = Some (d, n, j) \<longrightarrow> i < j \<and> j \<le> length ptrs \<and> d = ptrs ! (j - 1) + 2
        \<and> int (unat (m ! (ptrs ! (j - 1)))) = tag \<and> int d + int n \<le> int b + len)"
  using assms
proof (induction "length ptrs - i" arbitrary: i rule: less_induct)
  case less
  show ?case
  proof (cases "i < length ptrs")
    case False
    with pl.count [OF less.prems(1)] show ?thesis by (subst dhcpol_find_loop.simps) simp
  next
    case True
    then have w: "within_area m b len (ptrs ! i)" using less.prems(2) by simp
    show ?thesis
    proof (cases "int (unat (m ! (ptrs ! i))) = tag")
      case hit: True
      then have "m ! (ptrs ! i) \<noteq> dhcptag_end_e" using less.prems(3) by auto
      with hit w True less.prems(1) pl.count [OF less.prems(1)] pl_repr_element [OF less.prems(1), of i] show ?thesis
        by (subst dhcpol_find_loop.simps) (auto simp: within_area_def)
    next
      case miss: False
      have shorter: "length ptrs - (i + 1) < length ptrs - i" using True by simp
      obtain r where
        r: "dhcpol_find_loop m l tag (i + 1) = Some r"
          "\<forall>d n j. r = Some (d, n, j) \<longrightarrow> i + 1 < j \<and> j \<le> length ptrs \<and> d = ptrs ! (j - 1) + 2
        \<and> int (unat (m ! (ptrs ! (j - 1)))) = tag \<and> int d + int n \<le> int b + len"
        using less.hyps [OF shorter less.prems] by blast
      with miss w True pl.count [OF less.prems(1)] pl_repr_element [OF less.prems(1), of i] show ?thesis
        by (subst dhcpol_find_loop.simps) (auto simp: within_area_def)
    qed
  qed
qed

section \<open>Written areas\<close>

fun item_of :: "u8 \<Rightarrow> u8 list \<Rightarrow> item" where
  "item_of tag d = (if tag = dhcptag_end_e then End else if tag = dhcptag_pad_e then Pad else Opt tag d)"

text \<open>The area holds the items added so far and has room for the reserved end tag.\<close>

definition oa_holds :: "dhcpoa \<Rightarrow> item list \<Rightarrow> bool" where
  "oa_holds oa is \<longleftrightarrow>
    oa_offset oa = int (length (encode_all is)) \<and> take (length (encode_all is)) (oa_buffer oa) = encode_all is
    \<and> (\<forall>i \<in> set is. item_ok i) \<and> oa_option_count oa = int (length is)
    \<and> (oa_end_tag oa \<longleftrightarrow> End \<in> set is) \<and> End \<notin> set (butlast is)
    \<and> oa_reserve oa \<in> {0, 1} \<and> oa_size oa \<le> int (length (oa_buffer oa))
    \<and> oa_offset oa + (if oa_end_tag oa then 0 else oa_reserve oa) \<le> oa_size oa"

lemma store_append:
  assumes "take n m = pre" "length pre = n" "n + length bs \<le> length m"
  shows "\<exists>m'. store (int n) bs m = Some m' \<and> take (n + length bs) m' = pre @ bs \<and> length m' = length m"
  using assms by (auto simp: store_def)

lemma oa_holds_extend:
  assumes "oa_holds oa is" "\<not> oa_end_tag oa" "item_ok i" "encode i = bs"
    and "oa_offset oa + int (length bs) + (if i = End then 0 else oa_reserve oa) \<le> oa_size oa"
  shows "\<exists>b. store (oa_offset oa) bs (oa_buffer oa) = Some b
    \<and> oa_holds (oa\<lparr>oa_buffer := b, oa_offset := oa_offset oa + int (length bs),
        oa_end_tag := (i = End), oa_option_count := oa_option_count oa + 1\<rparr>) (is @ [i])"
proof -
  let ?n = "length (encode_all is)"
  have off: "oa_offset oa = int ?n" "take ?n (oa_buffer oa) = encode_all is"
    "oa_size oa \<le> int (length (oa_buffer oa))" "0 \<le> oa_reserve oa" "End \<notin> set is"
    using assms(1,2) by (auto simp: oa_holds_def)
  then have "?n + length bs \<le> length (oa_buffer oa)"
    using assms(5) by (auto split: if_splits)
  from store_append [OF off(2) refl this] obtain b where
    "store (int ?n) bs (oa_buffer oa) = Some b" "take (?n + length bs) b = encode_all is @ bs"
    "length b = length (oa_buffer oa)" by auto
  with off assms show ?thesis
    by (auto simp: oa_holds_def)
qed

lemma dhcpoa_add_holds:
  assumes "oa_holds oa is" and "0 \<le> len" "len \<le> int (length d)"
  shows "\<exists>r oa'. dhcpoa_add oa tag len d = Some (r, oa')
    \<and> (if r = dhcpoa_success_e then oa_holds oa' (is @ [item_of tag (take (nat len) d)]) else oa' = oa)
    \<and> oa_reserve oa' = oa_reserve oa \<and> oa_size oa' = oa_size oa"
proof -
  let ?i = "item_of tag (take (nat len) d)"
  consider (bad) "len > 255 \<or> oa_end_tag oa"
    | (good) "len \<le> 255" "\<not> oa_end_tag oa" by linarith
  then show ?thesis
  proof cases
    case bad
    then show ?thesis by (auto simp: dhcpoa_add_def DHCP_OPTION_SIZE_MAX_def)
  next
    case good
    have "nat len \<le> 255" using good(1) by simp
    then have ok: "item_ok ?i" by (auto simp: min_le_iff_disj)
    have enc: "encode ?i = (if tag = dhcptag_end_e \<or> tag = dhcptag_pad_e then [tag]
        else tag # word_of_int len # take (nat len) d)"
    proof -
      from assms(2) obtain n where n: "len = int n" using nonneg_int_cases by blast
      with assms(3) show ?thesis by (simp add: min_absorb2)
    qed
    note ext = oa_holds_extend [OF assms(1) good(2) ok refl, unfolded enc]
    have up: "oa\<lparr>oa_buffer := b, oa_offset := x, oa_end_tag := False, oa_option_count := n\<rparr>
        = oa\<lparr>oa_buffer := b, oa_offset := x, oa_option_count := n\<rparr>" for b x n
      using good(2) by (cases oa) simp
    consider "tag = dhcptag_end_e" | "tag = dhcptag_pad_e" | "tag \<noteq> dhcptag_end_e" "tag \<noteq> dhcptag_pad_e" by auto
    then show ?thesis
    proof cases
      case 1
      then show ?thesis
        using ext good by (auto simp: dhcpoa_add_def DHCP_OPTION_SIZE_MAX_def not_less)
    next
      case 2
      then show ?thesis
        using ext good by (auto simp: dhcpoa_add_def DHCP_OPTION_SIZE_MAX_def not_less up add.assoc add.commute)
    next
      case 3
      have n: "int (length (take (nat len) d)) = len" using assms(2,3) by simp
      then show ?thesis
        using ext good 3 assms(2,3)
        by (auto simp: dhcpoa_add_def DHCP_OPTION_SIZE_MAX_def not_less up algebra_simps)
    qed
  qed
qed

text \<open>A sequence of calls of \<open>dhcpoa_add\<close>, with the items of the successful ones.\<close>

fun oa_run :: "dhcpoa \<Rightarrow> (u8 \<times> u8 list) list \<Rightarrow> (dhcpoa \<times> item list) option" where
  "oa_run oa [] = Some (oa, [])"
| "oa_run oa ((tag, d) # calls) =
    (case dhcpoa_add oa tag (int (length d)) d of
       None \<Rightarrow> None
     | Some (r, oa') \<Rightarrow>
         map_option (\<lambda>(oa'', is). (oa'', if r = dhcpoa_success_e then item_of tag d # is else is))
           (oa_run oa' calls))"

lemma oa_run_holds:
  assumes "oa_holds oa is"
  shows "\<exists>oa' js. oa_run oa calls = Some (oa', js) \<and> oa_holds oa' (is @ js)
    \<and> oa_reserve oa' = oa_reserve oa \<and> oa_size oa' = oa_size oa"
  using assms
proof (induction calls arbitrary: oa "is")
  case (Cons c calls)
  obtain tag d where c: "c = (tag, d)" by (cases c)
  obtain r oa' where r: "dhcpoa_add oa tag (int (length d)) d = Some (r, oa')"
    "if r = dhcpoa_success_e then oa_holds oa' (is @ [item_of tag d]) else oa' = oa"
    "oa_reserve oa' = oa_reserve oa" "oa_size oa' = oa_size oa"
    using dhcpoa_add_holds [OF Cons.prems, of "int (length d)" d tag] unfolding nat_int take_all [OF order_refl] by auto
  show ?case
  proof (cases "r = dhcpoa_success_e")
    case True
    with r(2) have "oa_holds oa' (is @ [item_of tag d])" by simp
    from Cons.IH [OF this] True c r show ?thesis by (auto simp del: item_of.simps)
  next
    case False
    with r(2) Cons.prems have "oa_holds oa' is" by simp
    from Cons.IH [OF this] False c r show ?thesis by auto
  qed
qed simp

lemma oa_holds_init:
  "0 \<le> sz \<Longrightarrow> sz \<le> int (length buffer) \<Longrightarrow> oa_holds (dhcpoa_init_no_end buffer sz) []"
  "1 \<le> sz \<Longrightarrow> sz \<le> int (length buffer) \<Longrightarrow> oa_holds (dhcpoa_init buffer sz) []"
  by (simp_all add: oa_holds_def dhcpoa_init_def dhcpoa_init_no_end_def dhcpoa_init_common_def)

lemma visible_filter: "End \<notin> set (butlast is) \<Longrightarrow> visible is = filter (\<lambda>i. i \<noteq> Pad) is"
  by (induction "is" rule: visible.induct) (auto split: if_splits)

lemma oa_holds_parse:
  assumes "oa_holds oa is"
  shows "\<exists>l ptrs. dhcpol_parse_buffer (oa_buffer oa) 0 (dhcpoa_used oa) = Some (True, l)
    \<and> pl_repr l ptrs \<and> map (decode_at (oa_buffer oa)) ptrs = filter (\<lambda>i. i \<noteq> Pad) is"
proof -
  have ok: "\<forall>i \<in> set is. item_ok i" and b: "take (length (encode_all is)) (oa_buffer oa) = encode_all is"
    and u: "dhcpoa_used oa = int (length (encode_all is))" and e: "End \<notin> set (butlast is)"
    using assms by (auto simp: oa_holds_def dhcpoa_used_def)
  from b have "oa_buffer oa = [] @ encode_all is @ drop (length (encode_all is)) (oa_buffer oa)"
    by (metis append_Nil append_take_drop_id)
  with parse_encoded [OF ok, of "[]" "drop (length (encode_all is)) (oa_buffer oa)"] u visible_filter [OF e]
  show ?thesis by simp
qed

lemma oa_run_length: "oa_run oa calls = Some (oa', is) \<Longrightarrow> length is \<le> length calls"
proof (induction calls arbitrary: oa "is")
  case (Cons c calls)
  obtain tag d where c: "c = (tag, d)" by (cases c)
  with Cons.prems obtain r oa1 js where "oa_run oa1 calls = Some (oa', js)" "length is \<le> Suc (length js)"
    by (auto split: option.splits if_splits)
  with Cons.IH show ?case by force
qed simp

lemma dhcpol_parse_returns:
  "int buffer + len < int (length m) \<Longrightarrow> dhcpol_parse_buffer m buffer len \<noteq> None"
  using parse_loop_no_overread [of buffer len m ptrlist_init dhcptag_pad_e]
  by (auto simp: dhcpol_parse_buffer_def split: option.splits)

lemma parse_buffer_within:
  assumes "dhcpol_parse_buffer m b len = Some (True, l)"
  shows "\<exists>ptrs. pl_repr l ptrs \<and> (\<forall>p \<in> set ptrs. within_area m b len p)"
proof -
  obtain left where "dhcpol_parse_loop m ptrlist_init b len dhcptag_pad_e = Some (l, left)" "0 \<le> left"
    using assms by (auto simp: dhcpol_parse_buffer_def split: option.splits if_splits)
  from parse_loop_within [OF this pl_repr_init] show ?thesis by simp
qed

lemma dhcpol_find_in_area:
  assumes "pl_repr l ptrs" and "\<forall>p \<in> set ptrs. within_area m b len p"
  shows "\<exists>r. dhcpol_find m l tag start = Some r
    \<and> (\<forall>d n j. r = Some (d, n, j) \<longrightarrow> b + 2 \<le> d \<and> int d + int n \<le> int b + len
        \<and> int (unat (m ! (d - 2))) = tag)"
proof (cases "tag = 255 \<or> tag = 0")
  case False
  let ?i = "case start of None \<Rightarrow> 0 | Some i \<Rightarrow> i"
  obtain r where r: "dhcpol_find_loop m l tag ?i = Some r"
    "\<forall>d n j. r = Some (d, n, j) \<longrightarrow> ?i < j \<and> j \<le> length ptrs \<and> d = ptrs ! (j - 1) + 2
        \<and> int (unat (m ! (ptrs ! (j - 1)))) = tag \<and> int d + int n \<le> int b + len"
    using dhcpol_find_loop_safe [OF assms] False by blast
  have "b \<le> ptrs ! (j - 1)" if "?i < j" "j \<le> length ptrs" for j
    using assms(2) that by (auto simp: within_area_def)
  with r False show ?thesis by (auto simp: dhcpol_find_def)
qed (auto simp: dhcpol_find_def)

section \<open>Properties\<close>

text \<open>C21: writing options and reading them back. After any sequence of calls on an area set up with a
  reserved end tag, parsing the used bytes finds exactly the items of the successful calls, in order,
  pads apart.\<close>

theorem dhcpoa_roundtrip:
  assumes "1 \<le> sz" and "sz \<le> int (length buffer)"
  shows "\<exists>oa is l ptrs. oa_run (dhcpoa_init buffer sz) calls = Some (oa, is)
    \<and> dhcpol_parse_buffer (oa_buffer oa) 0 (dhcpoa_used oa) = Some (True, l)
    \<and> pl_repr l ptrs \<and> map (decode_at (oa_buffer oa)) ptrs = filter (\<lambda>i. i \<noteq> Pad) is"
proof -
  obtain oa js where "oa_run (dhcpoa_init buffer sz) calls = Some (oa, js)" "oa_holds oa js"
    using oa_run_holds [OF oa_holds_init(2) [OF assms], of calls] by auto
  with oa_holds_parse show ?thesis by blast
qed

theorem dhcpoa_roundtrip_witness:
  "\<exists>oa is l ptrs. oa_run (dhcpoa_init (replicate 8 0) 8) [(53, [2]), (0, []), (3, [1, 2, 3, 4]), (255, [])] = Some (oa, is)
    \<and> dhcpol_parse_buffer (oa_buffer oa) 0 (dhcpoa_used oa) = Some (True, l)
    \<and> pl_repr l ptrs \<and> map (decode_at (oa_buffer oa)) ptrs = filter (\<lambda>i. i \<noteq> Pad) is"
  using dhcpoa_roundtrip [of 8 "replicate 8 0" "[(53, [2]), (0, []), (3, [1, 2, 3, 4]), (255, [])]"] by simp

text \<open>The reserved byte. However the calls before it went, an area of at least one byte that has
  no end tag yet still accepts the end tag, and no call writes outside the buffer.\<close>

theorem dhcpoa_end_tag_fits:
  assumes "1 \<le> sz" and "sz \<le> int (length buffer)"
  shows "\<exists>oa is. oa_run (dhcpoa_init buffer sz) calls = Some (oa, is) \<and> length is \<le> length calls
    \<and> (oa_end_tag oa \<or> (\<exists>oa'. dhcpoa_add oa dhcptag_end_e 0 [] = Some (dhcpoa_success_e, oa')))"
proof -
  obtain oa js where r: "oa_run (dhcpoa_init buffer sz) calls = Some (oa, js)" "oa_holds oa js"
    "oa_reserve oa = 1"
    using oa_run_holds [OF oa_holds_init(2) [OF assms], of calls]
    by (auto simp: dhcpoa_init_def dhcpoa_init_common_def)
  then have "oa_end_tag oa \<or> (\<exists>oa'. dhcpoa_add oa dhcptag_end_e 0 [] = Some (dhcpoa_success_e, oa'))"
    by (auto simp: oa_holds_def dhcpoa_add_def store_def DHCP_OPTION_SIZE_MAX_def)
  with r(1) oa_run_length [OF r(1)] show ?thesis by blast
qed

theorem dhcpoa_end_tag_fits_witness:
  "\<exists>oa is. oa_run (dhcpoa_init [9, 9, 9, 9] 4) [(53, [2]), (3, [1])] = Some (oa, is)
    \<and> length is \<le> length [(53 :: u8, [2 :: u8]), (3, [1])]
    \<and> (oa_end_tag oa \<or> (\<exists>oa'. dhcpoa_add oa dhcptag_end_e 0 [] = Some (dhcpoa_success_e, oa')))"
  using dhcpoa_end_tag_fits [of 4 "[9, 9, 9, 9]" "[(53, [2]), (3, [1])]"] by simp

text \<open>A parse that succeeds is safe to search. Every option pointer it stores, length byte and
  data included, lies inside the given area, so \<open>dhcpol_find\<close> reads only bytes of the area and
  returns data inside it that belongs to an option with the wanted tag.\<close>

theorem dhcpol_parse_find_safe:
  assumes "dhcpol_parse_buffer m b len = Some (True, l)"
  shows "\<exists>r. dhcpol_find m l tag start = Some r
    \<and> (\<forall>d n j. r = Some (d, n, j) \<longrightarrow> b + 2 \<le> d \<and> int d + int n \<le> int b + len
        \<and> int (unat (m ! (d - 2))) = tag)"
  using parse_buffer_within [OF assms] dhcpol_find_in_area by blast

theorem dhcpol_parse_find_safe_witness:
  "\<exists>r. dhcpol_find [0, 53, 1, 2, 255] (snd (the (dhcpol_parse_buffer [0, 53, 1, 2, 255] 0 5))) 53 None = Some r
    \<and> (\<forall>d n j. r = Some (d, n, j) \<longrightarrow> 0 + 2 \<le> d \<and> int d + int n \<le> int 0 + 5
        \<and> int (unat (([0, 53, 1, 2, 255] :: u8 list) ! (d - 2))) = 53)"
proof -
  have "dhcpol_parse_buffer [0, 53, 1, 2, 255] 0 5
    = Some (True, snd (the (dhcpol_parse_buffer [0, 53, 1, 2, 255] 0 5)))"
    by (simp add: dhcpol_parse_buffer_def dhcpol_parse_loop.simps rd_def)
  then show ?thesis by (rule dhcpol_parse_find_safe)
qed

text \<open>The parser reads at most one byte past its area. When that byte is readable it always
  returns, whatever the bytes are.\<close>

theorem dhcpol_parse_reads:
  assumes "int buffer + len < int (length m)"
  shows "dhcpol_parse_buffer m buffer len \<noteq> None"
  using assms by (rule dhcpol_parse_returns)

theorem dhcpol_parse_reads_witness: "dhcpol_parse_buffer [1, 200, 7] 0 2 \<noteq> None"
  by (rule dhcpol_parse_reads) simp

text \<open>It does read that byte. A tag in the last byte of the area makes the loop fetch the length
  byte behind it, outside a buffer that ends with the area.\<close>

theorem dhcpol_parse_overreads:
  "int (unat tag) \<in> {1..254} \<longrightarrow> dhcpol_parse_buffer [tag] 0 1 = None"
proof
  assume t: "int (unat tag) \<in> {1..254}"
  have "tag \<noteq> 0" "tag \<noteq> 255" using t by auto
  then show "dhcpol_parse_buffer [tag] 0 1 = None"
    by (simp add: dhcpol_parse_buffer_def dhcpol_parse_loop.simps rd_def)
qed

theorem dhcpol_parse_overreads_witness: "dhcpol_parse_buffer [53] 0 1 = None"
  using dhcpol_parse_overreads [of 53] by simp

text \<open>A whole packet. With one readable byte behind it, parsing a packet of any content and any
  length from 0 up returns, the overloaded areas included.\<close>

theorem dhcpol_parse_packet_reads:
  assumes "0 \<le> len" and "len < int (length pkt)" and "length pkt < 2 ^ 31"
  shows "dhcpol_parse_packet pkt len \<noteq> None"
proof (cases "len < int SIZEOF_DHCP + 4 \<or> take 4 (drop SIZEOF_DHCP pkt) \<noteq> RFC_OPTIONS_MAGIC")
  case True
  with assms show ?thesis by (auto simp: dhcpol_parse_packet_def)
next
  case False
  then have len: "240 \<le> len" by (simp add: SIZEOF_DHCP_def)
  have merge: "merge_area pkt DP_FILE 128 o1 \<noteq> None" "merge_area pkt DP_SNAME 64 o1 \<noteq> None" for o1
    using dhcpol_parse_returns [of DP_FILE 128 pkt] dhcpol_parse_returns [of DP_SNAME 64 pkt] len assms(2)
    by (auto simp: merge_area_def DP_FILE_def DP_SNAME_def split: option.splits)
  then have both: "Option.bind (merge_area pkt DP_FILE 128 o1) (merge_area pkt DP_SNAME 64) \<noteq> None" for o1
    by (simp add: bind_eq_None_conv del: not_None_eq)
  obtain ok l where p: "dhcpol_parse_buffer pkt (SIZEOF_DHCP + 4) (len - int SIZEOF_DHCP - 4) = Some (ok, l)"
    using dhcpol_parse_returns [of "SIZEOF_DHCP + 4" "len - int SIZEOF_DHCP - 4" pkt] assms(2) by force
  show ?thesis
  proof (cases ok)
    case False
    with p assms show ?thesis by (auto simp: dhcpol_parse_packet_def)
  next
    case True
    with p have p': "dhcpol_parse_buffer pkt (SIZEOF_DHCP + 4) (len - int SIZEOF_DHCP - 4) = Some (True, l)" by simp
    obtain ptrs where "pl_repr l ptrs" "\<forall>q \<in> set ptrs. within_area pkt (SIZEOF_DHCP + 4) (len - int SIZEOF_DHCP - 4) q"
      using parse_buffer_within [OF p'] by blast
    from dhcpol_find_in_area [OF this, of "int (unat dhcptag_option_overload_e)" None]
    obtain r where r: "dhcpol_find pkt l (int (unat dhcptag_option_overload_e)) None = Some r"
      "\<forall>d n j. r = Some (d, n, j) \<longrightarrow> int d + int n \<le> len"
      by (auto simp: SIZEOF_DHCP_def)
    with p' assms merge both show ?thesis
      by (auto simp: dhcpol_parse_packet_def rd_def split: option.splits)
  qed
qed

theorem dhcpol_parse_packet_reads_witness:
  "dhcpol_parse_packet (replicate 236 0 @ [99, 130, 83, 99, 52, 1, 3, 255, 0]) 244 \<noteq> None"
  by (rule dhcpol_parse_packet_reads) simp_all

text \<open>Concatenation loses options. When the destination is full its old array is copied with the
  number of elements as the number of bytes: of sixteen pointers four survive.\<close>

theorem ptrlist_concat_drops:
  "\<exists>l extra. pl_repr l [0 ..< 16] \<and> pl_repr extra [16]
    \<and> ptrlist_element (ptrlist_concat l extra) 3 = Some (Elem 3)
    \<and> ptrlist_element (ptrlist_concat l extra) 4 = Some Uninit"
proof -
  let ?l = "foldl ptrlist_add ptrlist_init [0 ..< 16]" and ?e = "foldl ptrlist_add ptrlist_init [16]"
  have "pl_repr ?l [0 ..< 16]" "pl_repr ?e [16]"
    using pl.add_all by blast+
  moreover have "ptrlist_element (ptrlist_concat ?l ?e) 3 = Some (Elem 3)"
    "ptrlist_element (ptrlist_concat ?l ?e) 4 = Some Uninit"
    by code_simp+
  ultimately show ?thesis by blast
qed

end
