(* ===== verification/Ciphers.thy ===== *)
theory Ciphers
  imports Prelude
begin

text \<open>
  The two interfaces the symmetric ciphers of \<^verbatim>\<open>crypto/\<close> rest on: a Feistel network, whose
  decryption is its encryption with the round keys in reverse order, and a stream cipher, whose
  output is the data combined with a key stream that does not depend on the data.
\<close>

section \<open>Feistel networks\<close>

locale feistel =
  fixes F :: "'k \<Rightarrow> 'w \<Rightarrow> 'w"
    and mix :: "'w \<Rightarrow> 'w \<Rightarrow> 'w"
  assumes mix_mix: "mix (mix a b) b = a"
begin

definition enc_round :: "'k \<Rightarrow> 'w \<times> 'w \<Rightarrow> 'w \<times> 'w" where
  "enc_round k s = (snd s, mix (fst s) (F k (snd s)))"

definition dec_round :: "'k \<Rightarrow> 'w \<times> 'w \<Rightarrow> 'w \<times> 'w" where
  "dec_round k s = (mix (snd s) (F k (fst s)), fst s)"

lemma dec_enc_round: "dec_round k (enc_round k s) = s"
  by (simp add: enc_round_def dec_round_def mix_mix)

lemma enc_dec_round: "enc_round k (dec_round k s) = s"
  by (simp add: enc_round_def dec_round_def mix_mix)

lemma dec_enc: "fold dec_round (rev ks) (fold enc_round ks s) = s"
  by (induction ks arbitrary: s) (simp_all add: dec_enc_round)

lemma enc_dec: "fold enc_round ks (fold dec_round (rev ks) s) = s"
  by (induction ks arbitrary: s rule: rev_induct) (simp_all add: enc_dec_round)

end

section \<open>Stream ciphers\<close>

text \<open>\<open>key_step\<close> yields a key stream byte and the next state; \<open>crypt\<close> works on a whole buffer.\<close>

locale stream_cipher =
  fixes key_step :: "'s \<Rightarrow> 'w \<times> 's"
    and mix :: "'w \<Rightarrow> 'w \<Rightarrow> 'w"
    and crypt :: "'s \<Rightarrow> 'w list \<Rightarrow> 'w list \<times> 's"
    and inv :: "'s \<Rightarrow> bool"
  assumes mix_mix: "mix (mix a b) b = a"
    and crypt_Nil: "crypt s [] = ([], s)"
    and crypt_Cons: "crypt s (x # xs) =
      (case key_step s of (k, s') \<Rightarrow> case crypt s' xs of (ys, s'') \<Rightarrow> (mix x k # ys, s''))"
    and keeps: "inv s \<Longrightarrow> inv (snd (key_step s))"
begin

lemma crypt_length: "length (fst (crypt s xs)) = length xs"
  by (induction xs arbitrary: s) (auto simp: crypt_Nil crypt_Cons split: prod.splits, metis fst_conv)

lemma crypt_state: "length xs = length ys \<Longrightarrow> snd (crypt s xs) = snd (crypt s ys)"
proof (induction xs ys arbitrary: s rule: list_induct2)
  case (Cons x xs y ys)
  show ?case
    using Cons.IH [of "snd (key_step s)"] by (simp add: crypt_Cons split_beta)
qed simp

lemma crypt_crypt: "fst (crypt s (fst (crypt s xs))) = xs"
proof (induction xs arbitrary: s)
  case (Cons x xs)
  show ?case
    using Cons.IH [of "snd (key_step s)"] by (simp add: crypt_Cons mix_mix split_beta)
qed (simp add: crypt_Nil)

lemma crypt_append:
  "crypt s (xs @ ys) = (fst (crypt s xs) @ fst (crypt (snd (crypt s xs)) ys), snd (crypt (snd (crypt s xs)) ys))"
  by (induction xs arbitrary: s) (simp_all add: crypt_Nil crypt_Cons split_beta)

lemma crypt_inv: "inv s \<Longrightarrow> inv (snd (crypt s xs))"
proof (induction xs arbitrary: s)
  case (Cons x xs)
  show ?case
    using Cons.IH [OF keeps [OF Cons.prems]] by (simp add: crypt_Cons split_beta)
qed (simp add: crypt_Nil)

end

end
