(* ===== verification/Rc4.thy ===== *)
theory Rc4
  imports Ciphers "HOL-Library.Multiset"
begin

text \<open>
  The RC4 stream cipher, \<^verbatim>\<open>crypto/rc4/rc4.c\<close>. The two indices are bytes, so every access to the
  256-byte permutation is in bounds; \<open>None\<close> is a read outside the key or the input buffer, or
  the division by a key length of 0.
\<close>

section \<open>The cipher\<close>

record rc4_state =
  perm :: "u8 list"
  index1 :: u8
  index2 :: u8

definition swap_bytes :: "'a list \<Rightarrow> nat \<Rightarrow> nat \<Rightarrow> 'a list" where
  "swap_bytes p a b = (let temp = p ! a in (p[a := p ! b])[b := temp])"

definition rc4_identity :: "u8 list" where
  "rc4_identity = map of_nat [0 ..< 256]"

text \<open>The loop of \<open>rc4_init\<close> from index \<open>i\<close> on.\<close>

function rc4_init_loop :: "u8 list \<Rightarrow> int \<Rightarrow> nat \<Rightarrow> u8 \<Rightarrow> u8 list \<Rightarrow> u8 list option" where
  "rc4_init_loop key keylen i j p =
    (if i < 256 then
       (if keylen = 0 then None
        else case rd key (nat (int i mod \<bar>keylen\<bar>)) of
          None \<Rightarrow> None
        | Some k \<Rightarrow>
            (let j = j + (p ! i + k)
             in rc4_init_loop key keylen (i + 1) j (swap_bytes p i (unat j))))
     else Some p)"
  by pat_completeness auto
termination
  by (relation "measure (\<lambda>(key, keylen, i, j, p). 256 - i)") auto

declare rc4_init_loop.simps [simp del]

definition rc4_init :: "u8 list \<Rightarrow> int \<Rightarrow> rc4_state option" where
  "rc4_init key keylen =
    map_option (\<lambda>p. \<lparr>perm = p, index1 = 0, index2 = 0\<rparr>)
      (rc4_init_loop key keylen 0 0 rc4_identity)"

text \<open>One turn of the loop of \<open>rc4_crypt\<close>: the key byte and the new state.\<close>

definition rc4_step :: "rc4_state \<Rightarrow> u8 \<times> rc4_state" where
  "rc4_step st =
    (let i1 = index1 st + 1;
         i2 = index2 st + perm st ! unat i1;
         p = swap_bytes (perm st) (unat i1) (unat i2);
         j = p ! unat i1 + p ! unat i2
     in (p ! unat j, \<lparr>perm = p, index1 = i1, index2 = i2\<rparr>))"

fun rc4_bytes :: "rc4_state \<Rightarrow> u8 list \<Rightarrow> u8 list \<times> rc4_state" where
  "rc4_bytes st [] = ([], st)"
| "rc4_bytes st (x # xs) =
    (case rc4_step st of (k, st') \<Rightarrow> case rc4_bytes st' xs of (ys, st'') \<Rightarrow> ((x XOR k) # ys, st''))"

definition rc4_crypt :: "rc4_state \<Rightarrow> u8 list \<Rightarrow> int \<Rightarrow> (u8 list \<times> rc4_state) option" where
  "rc4_crypt st inbuf buflen =
    (if buflen \<le> int (length inbuf) then Some (rc4_bytes st (take (nat buflen) inbuf)) else None)"

section \<open>The permutation\<close>

text \<open>The state is a permutation of the 256 bytes.\<close>

definition rc4_inv :: "rc4_state \<Rightarrow> bool" where
  "rc4_inv st \<longleftrightarrow> mset (perm st) = mset rc4_identity"

lemma length_rc4_identity [simp]: "length rc4_identity = 256"
  by (simp add: rc4_identity_def)

lemma distinct_rc4_identity: "distinct rc4_identity"
  by (auto simp: rc4_identity_def distinct_map inj_on_def unsigned_of_nat of_nat_eq_iff
      dest: arg_cong [of _ _ unat] simp: take_bit_nat_eq_self)

lemma set_rc4_identity: "set rc4_identity = UNIV"
proof -
  have "w \<in> set rc4_identity" for w :: u8
    using unat_u8_less [of w] by (auto simp: rc4_identity_def intro!: image_eqI [of _ _ "unat w"])
  then show ?thesis by auto
qed

lemma rc4_inv_perm: "rc4_inv st \<Longrightarrow> length (perm st) = 256 \<and> distinct (perm st) \<and> set (perm st) = UNIV"
  unfolding rc4_inv_def
  by (metis distinct_rc4_identity set_rc4_identity length_rc4_identity mset_eq_imp_distinct_iff
      mset_eq_length mset_eq_setD)

lemma mset_swap_bytes: "a < length p \<Longrightarrow> b < length p \<Longrightarrow> mset (swap_bytes p a b) = mset p"
  by (simp add: swap_bytes_def Let_def mset_swap)

lemma length_swap_bytes [simp]: "length (swap_bytes p a b) = length p"
  by (simp add: swap_bytes_def Let_def)

lemma rc4_step_inv: "rc4_inv st \<Longrightarrow> rc4_inv (snd (rc4_step st))"
  using rc4_inv_perm [of st] by (simp add: rc4_step_def Let_def rc4_inv_def mset_swap_bytes)

interpretation rc4: stream_cipher rc4_step "(XOR)" rc4_bytes rc4_inv
  by unfold_locales (simp_all add: rc4_step_inv xor.assoc)

lemma rc4_init_loop_perm:
  assumes "keylen \<noteq> 0" "\<bar>keylen\<bar> \<le> int (length key)" "length p = 256"
  shows "\<exists>q. rc4_init_loop key keylen i j p = Some q \<and> mset q = mset p"
  using assms
proof (induction "256 - i" arbitrary: i j p rule: less_induct)
  case less
  show ?case
  proof (cases "i < 256")
    case True
    define k where "k = nat (int i mod \<bar>keylen\<bar>)"
    have "0 \<le> int i mod \<bar>keylen\<bar>" "int i mod \<bar>keylen\<bar> < \<bar>keylen\<bar>" using less.prems(1) by simp_all
    then have k: "k < length key" using less.prems(2) unfolding k_def by linarith
    let ?j = "j + (p ! i + key ! k)"
    have shorter: "256 - (i + 1) < 256 - i" using True by simp
    obtain q where "rc4_init_loop key keylen (i + 1) ?j (swap_bytes p i (unat ?j)) = Some q"
      "mset q = mset (swap_bytes p i (unat ?j))"
      using less.hyps [OF shorter less.prems(1,2), of "swap_bytes p i (unat ?j)" ?j] less.prems(3) by auto
    moreover have "mset (swap_bytes p i (unat ?j)) = mset p"
      using True less.prems(3) by (intro mset_swap_bytes) simp_all
    ultimately show ?thesis
      using True less.prems(1) k by (subst rc4_init_loop.simps) (simp add: k_def Let_def)
  qed (simp add: rc4_init_loop.simps)
qed

lemma rc4_init_inv:
  assumes "keylen \<noteq> 0" "\<bar>keylen\<bar> \<le> int (length key)"
  shows "\<exists>st. rc4_init key keylen = Some st \<and> rc4_inv st"
  using rc4_init_loop_perm [OF assms, of rc4_identity 0 0]
  by (auto simp: rc4_init_def rc4_inv_def)

section \<open>Properties\<close>

text \<open>C39: one routine encrypts and decrypts. Every key of nonzero length sets up a permutation of the
  256 bytes; encrypting any data keeps it one, and running the same initial state over the result gives
  the data back.\<close>

theorem rc4_decrypts:
  assumes "keylen \<noteq> 0" and "\<bar>keylen\<bar> \<le> int (length key)"
  shows "\<exists>st st' ct. rc4_init key keylen = Some st
    \<and> rc4_crypt st pt (int (length pt)) = Some (ct, st')
    \<and> rc4_crypt st ct (int (length pt)) = Some (pt, st')
    \<and> distinct (perm st') \<and> set (perm st') = UNIV"
proof -
  obtain st where st: "rc4_init key keylen = Some st" "rc4_inv st"
    using rc4_init_inv [OF assms] by blast
  let ?r = "rc4_bytes st pt"
  have len: "length (fst ?r) = length pt" by (rule rc4.crypt_length)
  have "rc4_bytes st (fst ?r) = (pt, snd ?r)"
    using rc4.crypt_crypt [of st pt] rc4.crypt_state [OF len, of st] by (metis prod.collapse)
  with len have "rc4_crypt st pt (int (length pt)) = Some (fst ?r, snd ?r)"
    "rc4_crypt st (fst ?r) (int (length pt)) = Some (pt, snd ?r)"
    by (simp_all add: rc4_crypt_def)
  with st rc4_inv_perm [OF rc4.crypt_inv [OF st(2)], of pt] show ?thesis by blast
qed

theorem rc4_decrypts_witness:
  "\<exists>st st' ct. rc4_init [75, 101, 121] 3 = Some st
    \<and> rc4_crypt st [1, 2, 3] (int (length [1 :: u8, 2, 3])) = Some (ct, st')
    \<and> rc4_crypt st ct (int (length [1 :: u8, 2, 3])) = Some ([1, 2, 3], st')
    \<and> distinct (perm st') \<and> set (perm st') = UNIV"
  by (rule rc4_decrypts) simp_all

text \<open>The stream can be cut anywhere. Encrypting a buffer in two calls, the second on the state the
  first one left, gives the same bytes and the same state as one call on the whole.\<close>

theorem rc4_crypt_chunks:
  "rc4_crypt st (xs @ ys) (int (length xs + length ys)) =
    (case rc4_crypt st xs (int (length xs)) of None \<Rightarrow> None
     | Some (a, st') \<Rightarrow> map_option (\<lambda>(b, st''). (a @ b, st'')) (rc4_crypt st' ys (int (length ys))))"
  by (simp add: rc4_crypt_def rc4.crypt_append split_beta)

text \<open>The key length is not checked. A key of length 0 divides by zero in the first turn.\<close>

theorem rc4_init_empty_key: "rc4_init key 0 = None"
  by (simp add: rc4_init_def rc4_init_loop.simps)

end
