(* ===== verification/Strtol.thy ===== *)
theory Strtol
  imports Prelude
begin

text \<open>
  String to integer conversion, \<^verbatim>\<open>libkern/strtol.c\<close>, for the 32-bit \<^verbatim>\<open>long\<close> of this
  system. A string is its characters, the terminating NUL included; a read past the end of the list
  is \<open>None\<close>. A character enters the C code as an \<^verbatim>\<open>int\<close>; whether \<^verbatim>\<open>char\<close> is signed makes no
  difference, since only ASCII characters belong to a class. \<^verbatim>\<open>errno\<close> does not exist here (the
  assignments are commented out in the source). A result is the value and the offset stored
  through \<^verbatim>\<open>endptr\<close>.
\<close>

section \<open>The code\<close>

definition isupper :: "int \<Rightarrow> bool" where
  "isupper c \<longleftrightarrow> 65 \<le> c \<and> c \<le> 90"

definition isalpha :: "int \<Rightarrow> bool" where
  "isalpha c \<longleftrightarrow> (65 \<le> c \<and> c \<le> 90) \<or> (97 \<le> c \<and> c \<le> 122)"

text \<open>Blank, tab, newline, and newline again: \<^verbatim>\<open>'\12'\<close> is octal.\<close>

definition isspace :: "int \<Rightarrow> bool" where
  "isspace c \<longleftrightarrow> c = 32 \<or> c = 9 \<or> c = 10 \<or> c = 10"

definition isdigit :: "int \<Rightarrow> bool" where
  "isdigit c \<longleftrightarrow> 48 \<le> c \<and> c \<le> 57"

definition getc :: "char list \<Rightarrow> nat \<Rightarrow> int option" where
  "getc str i = map_option of_char (rd str i)"

text \<open>\<^verbatim>\<open>do c = *s++; while (isspace(c))\<close>: the character and the new \<^verbatim>\<open>s\<close>.\<close>

function skip_space :: "char list \<Rightarrow> nat \<Rightarrow> (int \<times> nat) option" where
  "skip_space str s =
    (case getc str s of
       None \<Rightarrow> None
     | Some c \<Rightarrow> if isspace c then skip_space str (s + 1) else Some (c, s + 1))"
  by pat_completeness auto
termination
  by (relation "measure (\<lambda>(str, s). length str - s)") (auto simp: getc_def rd_def split: if_splits)

declare skip_space.simps [simp del]

text \<open>The sign: \<^verbatim>\<open>neg\<close>, \<^verbatim>\<open>c\<close> and \<^verbatim>\<open>s\<close>.\<close>

definition scan_sign :: "char list \<Rightarrow> int \<Rightarrow> nat \<Rightarrow> (bool \<times> int \<times> nat) option" where
  "scan_sign str c s =
    (if c = 45 then map_option (\<lambda>c'. (True, c', s + 1)) (getc str s)
     else if c = 43 then map_option (\<lambda>c'. (False, c', s + 1)) (getc str s)
     else Some (False, c, s))"

text \<open>The base prefix: \<^verbatim>\<open>base\<close>, \<^verbatim>\<open>c\<close> and \<^verbatim>\<open>s\<close>. \<^verbatim>\<open>*s\<close> is only read behind a \<^verbatim>\<open>0\<close> that may start
  a prefix, \<^verbatim>\<open>s[1]\<close> only behind the letter.\<close>

definition is_letter :: "char list \<Rightarrow> nat \<Rightarrow> int \<Rightarrow> int \<Rightarrow> bool option" where
  "is_letter str s lower upper = map_option (\<lambda>d. d = lower \<or> d = upper) (getc str s)"

definition scan_prefix :: "char list \<Rightarrow> int \<Rightarrow> int \<Rightarrow> nat \<Rightarrow> (int \<times> int \<times> nat) option" where
  "scan_prefix str base c s =
    Option.bind (if (base = 0 \<or> base = 16) \<and> c = 48 then is_letter str s 120 88 else Some False)
      (\<lambda>hex. if hex then map_option (\<lambda>c'. (16, c', s + 2)) (getc str (s + 1))
        else Option.bind (if (base = 0 \<or> base = 2) \<and> c = 48 then is_letter str s 98 66 else Some False)
          (\<lambda>bin. if bin then map_option (\<lambda>c'. (2, c', s + 2)) (getc str (s + 1))
            else Some (if base = 0 then (if c = 48 then 8 else 10) else base, c, s)))"

text \<open>The value of a digit or letter; other characters end the number.\<close>

definition digit_of :: "int \<Rightarrow> int option" where
  "digit_of c =
    (if isdigit c then Some (c - 48)
     else if isalpha c then Some (c - (if isupper c then 55 else 87))
     else None)"

function digit_loop ::
  "char list \<Rightarrow> int \<Rightarrow> u32 \<Rightarrow> int \<Rightarrow> int \<Rightarrow> nat \<Rightarrow> u32 \<Rightarrow> int \<Rightarrow> (u32 \<times> int \<times> nat) option" where
  "digit_loop str base cutoff cutlim c s acc any =
    (case digit_of c of
       None \<Rightarrow> Some (acc, any, s)
     | Some d \<Rightarrow>
         if d \<ge> base then Some (acc, any, s)
         else
           (case getc str s of
              None \<Rightarrow> None
            | Some c' \<Rightarrow>
                if any < 0 \<or> acc > cutoff \<or> acc = cutoff \<and> d > cutlim
                then digit_loop str base cutoff cutlim c' (s + 1) acc (- 1)
                else digit_loop str base cutoff cutlim c' (s + 1) (acc * word_of_int base + word_of_int d) 1))"
  by pat_completeness auto
termination
  by (relation "measure (\<lambda>(str, base, cutoff, cutlim, c, s, acc, any). length str - s)")
    (auto simp: getc_def rd_def split: if_splits)

declare digit_loop.simps [simp del]

definition LONG_MAX :: int where "LONG_MAX = 2 ^ 31 - 1"
definition LONG_MIN :: int where "LONG_MIN = - (2 ^ 31)"
definition ULONG_MAX :: int where "ULONG_MAX = 2 ^ 32 - 1"

definition strtol :: "char list \<Rightarrow> int \<Rightarrow> (int \<times> nat) option" where
  "strtol nptr base =
    Option.bind (skip_space nptr 0) (\<lambda>(c, s).
    Option.bind (scan_sign nptr c s) (\<lambda>(neg, c, s).
    Option.bind (scan_prefix nptr base c s) (\<lambda>(base, c, s).
      let limit = (if neg then - word_of_int LONG_MIN else word_of_int LONG_MAX) :: u32;
          cutlim = sint (limit mod word_of_int base);
          cutoff = limit div word_of_int base
      in map_option (\<lambda>(acc, any, s).
           (sint (if any < 0 then word_of_int (if neg then LONG_MIN else LONG_MAX)
                  else if neg then - acc else acc),
            if any \<noteq> 0 then s - 1 else 0))
         (digit_loop nptr base cutoff cutlim c s 0 0))))"

definition strtoul :: "char list \<Rightarrow> int \<Rightarrow> (u32 \<times> nat) option" where
  "strtoul nptr base =
    Option.bind (skip_space nptr 0) (\<lambda>(c, s).
    Option.bind (scan_sign nptr c s) (\<lambda>(neg, c, s).
    Option.bind (scan_prefix nptr base c s) (\<lambda>(base, c, s).
      let cutoff = word_of_int ULONG_MAX div word_of_int base;
          cutlim = sint (word_of_int ULONG_MAX mod word_of_int base :: u32)
      in map_option (\<lambda>(acc, any, s).
           (if any < 0 then word_of_int ULONG_MAX else if neg then - acc else acc,
            if any \<noteq> 0 then s - 1 else 0))
         (digit_loop nptr base cutoff cutlim c s 0 0))))"

section \<open>Numerals\<close>

text \<open>A digit character of a base, and the number a digit string stands for.\<close>

definition is_digit :: "int \<Rightarrow> char \<Rightarrow> bool" where
  "is_digit base ch \<longleftrightarrow> (\<exists>d. digit_of (of_char ch) = Some d \<and> d < base)"

definition digit_val :: "char \<Rightarrow> int" where
  "digit_val ch = the (digit_of (of_char ch))"

definition numeral_value :: "int \<Rightarrow> int \<Rightarrow> char list \<Rightarrow> int" where
  "numeral_value base v ds = foldl (\<lambda>a ch. a * base + digit_val ch) v ds"

lemma digit_of_nonneg: "digit_of c = Some d \<Longrightarrow> 0 \<le> d \<and> d < 36"
  by (auto simp: digit_of_def isdigit_def isalpha_def isupper_def split: if_splits)

lemma is_digitD:
  assumes "is_digit base ch"
  shows "digit_of (of_char ch) = Some (digit_val ch)" "0 \<le> digit_val ch" "digit_val ch < base"
    "digit_val ch < 36"
  using assms digit_of_nonneg by (auto simp: is_digit_def digit_val_def)

lemma is_digit_char: "is_digit base ch \<Longrightarrow> \<not> isspace (of_char ch) \<and> of_char ch \<noteq> (45 :: int) \<and> of_char ch \<noteq> (43 :: int)"
  by (auto simp: is_digit_def digit_of_def isdigit_def isalpha_def isspace_def split: if_splits)

lemma numeral_value_mono:
  assumes "0 \<le> v" "1 \<le> base" "\<forall>ch \<in> set ds. is_digit base ch"
  shows "v \<le> numeral_value base v ds"
  using assms
proof (induction ds arbitrary: v)
  case (Cons ch ds)
  have d: "0 \<le> digit_val ch" using Cons.prems(3) is_digitD(2) by auto
  have "v * 1 \<le> v * base" using Cons.prems(1,2) by (intro mult_left_mono) auto
  with d Cons.prems Cons.IH [of "v * base + digit_val ch"] show ?case
    by (simp add: numeral_value_def)
qed (simp add: numeral_value_def)

lemma getc_append: "getc (xs @ ch # ys) (length xs) = Some (of_char ch)"
  by (simp add: getc_def rd_def)

lemma getc_append_Suc: "getc (xs @ a # ch # ys) (Suc (length xs)) = Some (of_char ch)"
  by (simp add: getc_def rd_def nth_append)

section \<open>The overflow test\<close>

text \<open>\<open>cutoff\<close> and \<open>cutlim\<close> are quotient and remainder of the limit: the test of the loop asks
  whether the next value would exceed it, and otherwise the arithmetic does not wrap.\<close>

lemma small_uint:
  assumes "0 \<le> b" "b < 36" shows "uint (word_of_int b :: u32) = b"
  using assms by (simp add: uint_word_of_int)

lemma cutoff_test:
  fixes acc L :: u32
  assumes b: "1 \<le> b" "b \<le> 36" and d: "0 \<le> d" "d < b"
  shows "(acc > L div word_of_int b \<or> acc = L div word_of_int b \<and> d > sint (L mod word_of_int b))
    \<longleftrightarrow> uint L < uint acc * b + d"
proof -
  have ub: "uint (word_of_int b :: u32) = b" using b by (simp add: uint_word_of_int)
  define q where "q = uint L div b"
  define r where "r = uint L mod b"
  have q: "uint (L div word_of_int b) = q" by (simp add: uint_div ub q_def)
  have r: "uint (L mod word_of_int b) = r" by (simp add: uint_mod ub r_def)
  have rb: "0 \<le> r" "r < b" using b by (simp_all add: r_def)
  then have s: "sint (L mod word_of_int b) = r"
    using r b by (simp add: sint_uint signed_take_bit_int_eq_self)
  have L: "uint L = q * b + r" by (simp add: q_def r_def)
  have "(q < uint acc \<or> q = uint acc \<and> r < d) \<longleftrightarrow> q * b + r < uint acc * b + d"
  proof (cases "uint acc" q rule: linorder_cases)
    case less
    then have "(uint acc + 1) * b \<le> q * b" using b by (intro mult_right_mono) auto
    then have "uint acc * b + b \<le> q * b" by (simp add: distrib_right)
    with less rb d show ?thesis by auto
  next
    case greater
    then have "(q + 1) * b \<le> uint acc * b" using b by (intro mult_right_mono) auto
    then have "q * b + b \<le> uint acc * b" by (simp add: distrib_right)
    with greater rb d show ?thesis by auto
  qed simp
  then have "(q < uint acc \<or> uint acc = q \<and> r < d) \<longleftrightarrow> uint L < uint acc * b + d"
    using L by auto
  then show ?thesis by (simp only: word_less_def word_uint_eq_iff q s)
qed

lemma acc_step:
  fixes acc L :: u32
  assumes b: "1 \<le> b" "b \<le> 36" and d: "0 \<le> d" "d < b" and fits: "uint acc * b + d \<le> uint L"
  shows "uint (acc * word_of_int b + word_of_int d) = uint acc * b + d"
proof -
  have "uint acc * b + d < 2 ^ 32" using fits uint_lt2p [of L] by simp
  moreover have "0 \<le> uint acc * b + d" using b d by simp
  moreover have "acc * word_of_int b + word_of_int d = word_of_int (uint acc * b + d)" by simp
  ultimately show ?thesis
    by (simp only: uint_word_of_int) (simp add: mod_pos_pos_trivial)
qed

section \<open>The digit loop\<close>

definition acc_holds :: "u32 \<Rightarrow> int \<Rightarrow> u32 \<Rightarrow> int \<Rightarrow> bool" where
  "acc_holds L v acc any \<longleftrightarrow> (if any < 0 then uint L < v else uint acc = v \<and> v \<le> uint L)"

lemma digit_loop_digit:
  assumes "digit_of c = Some d" "d < base" "getc str s = Some c'"
  shows "digit_loop str base cutoff cutlim c s acc any =
    (if any < 0 \<or> acc > cutoff \<or> acc = cutoff \<and> d > cutlim
     then digit_loop str base cutoff cutlim c' (s + 1) acc (- 1)
     else digit_loop str base cutoff cutlim c' (s + 1) (acc * word_of_int base + word_of_int d) 1)"
  using assms by (subst digit_loop.simps) simp

lemma digit_loop_spec:
  assumes b: "1 \<le> base" "base \<le> 36" and t: "\<not> is_digit base t"
    and ds: "\<forall>ch \<in> set ds. is_digit base ch" and "acc_holds L v acc any" and "0 \<le> v"
  shows "\<exists>acc' any'. digit_loop (pre @ ds @ t # rest) base (L div word_of_int base) (sint (L mod word_of_int base))
      (of_char (hd (ds @ [t]))) (Suc (length pre)) acc any
      = Some (acc', any', Suc (length pre + length ds))
    \<and> acc_holds L (numeral_value base v ds) acc' any' \<and> (any' = 0 \<longleftrightarrow> ds = [] \<and> any = 0)"
  using assms(4-6)
proof (induction ds arbitrary: pre acc any v)
  case Nil
  from t have "digit_of (of_char t) = None \<or> (\<exists>d. digit_of (of_char t) = Some d \<and> d \<ge> base)"
    by (cases "digit_of (of_char t)") (auto simp: is_digit_def)
  with Nil show ?case by (subst digit_loop.simps) (auto simp: numeral_value_def)
next
  case (Cons ch ds)
  let ?d = "digit_val ch" and ?str = "pre @ ch # ds @ t # rest"
  let ?acc = "acc * word_of_int base + word_of_int ?d"
  note d = is_digitD [of base ch]
  have ch: "is_digit base ch" using Cons.prems(1) by simp
  note dd = d [OF ch]
  have next_c: "getc ?str (Suc (length pre)) = Some (of_char (hd (ds @ [t])))"
    using getc_append_Suc [of pre ch _ "tl (ds @ [t]) @ rest"] by (cases ds) (simp_all add: getc_append_Suc)
  have test: "(acc > L div word_of_int base \<or> acc = L div word_of_int base \<and> ?d > sint (L mod word_of_int base))
    \<longleftrightarrow> uint L < uint acc * base + ?d"
    by (rule cutoff_test [OF b dd(2,3)])
  note step = digit_loop_digit [OF dd(1,3) next_c, where acc = acc and any = any
      and cutoff = "L div word_of_int base" and cutlim = "sint (L mod word_of_int base)", unfolded test]
  have ds: "\<forall>ch \<in> set ds. is_digit base ch" and v': "0 \<le> v * base + ?d"
    using Cons.prems b dd by auto
  have grow: "v \<le> v * base" using mult_left_mono [of 1 base v] b Cons.prems(3) by simp
  show ?case
  proof (cases "any < 0 \<or> uint L < uint acc * base + ?d")
    case True
    then have "uint L < v * base + ?d"
      using Cons.prems(2) grow dd(2) by (auto simp: acc_holds_def split: if_splits)
    then have "acc_holds L (v * base + ?d) acc (- 1)" by (simp add: acc_holds_def)
    from Cons.IH [OF ds this v', of "pre @ [ch]"] True step show ?thesis
      by (simp add: numeral_value_def)
  next
    case False
    then have "acc_holds L (v * base + ?d) ?acc 1"
      using Cons.prems(2) acc_step [OF b dd(2,3), of acc L] by (simp add: acc_holds_def)
    from Cons.IH [OF ds this v', of "pre @ [ch]"] False step show ?thesis
      by (simp add: numeral_value_def)
  qed
qed

section \<open>Blanks, sign and prefix\<close>

lemma skip_space_spec:
  assumes "\<forall>ch \<in> set ws. isspace (of_char ch)" and "\<not> isspace (of_char ch)"
  shows "skip_space (pre @ ws @ ch # rest) (length pre) = Some (of_char ch, Suc (length pre + length ws))"
  using assms(1)
proof (induction ws arbitrary: pre)
  case Nil
  with assms(2) show ?case by (subst skip_space.simps) (simp add: getc_append)
next
  case (Cons w ws)
  with Cons.IH [of "pre @ [w]"] show ?case
    by (subst skip_space.simps) (simp add: getc_append)
qed

text \<open>The base a prefix or a leading zero selects, and when the characters \<open>px\<close> are the prefix of
  the digits \<open>ds\<close> in front of \<open>t\<close>: an empty prefix must not look like another one.\<close>

definition effective_base :: "int \<Rightarrow> char list \<Rightarrow> char list \<Rightarrow> int" where
  "effective_base base px ds =
    (if px = ''0x'' \<or> px = ''0X'' then 16 else if px = ''0b'' \<or> px = ''0B'' then 2
     else if base = 0 then (if hd ds = CHR ''0'' then 8 else 10) else base)"

definition prefix_ok :: "int \<Rightarrow> char list \<Rightarrow> char list \<Rightarrow> char \<Rightarrow> bool" where
  "prefix_ok base px ds t \<longleftrightarrow>
    (base = 0 \<or> base = 16) \<and> (px = ''0x'' \<or> px = ''0X'')
    \<or> (base = 0 \<or> base = 2) \<and> (px = ''0b'' \<or> px = ''0B'')
    \<or> px = [] \<and> (hd ds = CHR ''0'' \<longrightarrow>
         (base = 0 \<or> base = 16 \<longrightarrow> hd (tl ds @ [t]) \<notin> {CHR ''x'', CHR ''X''})
         \<and> (base = 0 \<or> base = 2 \<longrightarrow> hd (tl ds @ [t]) \<notin> {CHR ''b'', CHR ''B''}))"

lemma of_char_eq_literal:
  "(of_char ch = (120 :: int)) = (ch = CHR ''x'')" "(of_char ch = (88 :: int)) = (ch = CHR ''X'')"
  "(of_char ch = (98 :: int)) = (ch = CHR ''b'')" "(of_char ch = (66 :: int)) = (ch = CHR ''B'')"
  "(of_char ch = (48 :: int)) = (ch = CHR ''0'')" "(of_char ch = (45 :: int)) = (ch = CHR ''-'')"
  "(of_char ch = (43 :: int)) = (ch = CHR ''+'')"
  by (simp_all add: of_char_eq_iff [where 'a = int, symmetric])

lemma scan_prefix_spec:
  assumes "prefix_ok base px ds t" and "ds \<noteq> []"
  shows "scan_prefix (pre @ px @ ds @ t # rest) base (of_char (hd (px @ ds))) (Suc (length pre))
    = Some (effective_base base px ds, of_char (hd ds), Suc (length pre + length px))"
proof -
  obtain d ds' where ds: "ds = d # ds'" using assms(2) by (cases ds) auto
  have c1: "getc (pre @ d # ds' @ t # rest) (Suc (length pre)) = Some (of_char (hd (ds' @ [t])))"
    by (cases ds') (simp_all add: getc_append_Suc)
  have c2: "getc (pre @ z # x # d # ds' @ t # rest) (Suc (length pre)) = Some (of_char x)"
    "getc (pre @ z # x # d # ds' @ t # rest) (Suc (Suc (length pre))) = Some (of_char d)" for z x
    using getc_append [of "pre @ [z, x]" d] by (simp_all add: getc_append_Suc)
  consider (hex) x where "base = 0 \<or> base = 16" "px = [CHR ''0'', x]" "x = CHR ''x'' \<or> x = CHR ''X''"
    | (bin) x where "base = 0 \<or> base = 2" "px = [CHR ''0'', x]" "x = CHR ''b'' \<or> x = CHR ''B''"
    | (none) "px = []"
    using assms(1) by (auto simp: prefix_ok_def)
  then show ?thesis
  proof cases
    case hex
    with c2 show ?thesis
      by (auto simp: scan_prefix_def is_letter_def effective_base_def of_char_eq_literal ds)
  next
    case bin
    with c2 show ?thesis
      by (auto simp: scan_prefix_def is_letter_def effective_base_def of_char_eq_literal ds)
  next
    case none
    show ?thesis
    proof (cases "d = CHR ''0''")
      case True
      with none c1 assms(1) show ?thesis
        by (simp add: prefix_ok_def scan_prefix_def is_letter_def effective_base_def of_char_eq_literal ds)
    next
      case False
      with none show ?thesis
        by (simp add: scan_prefix_def effective_base_def of_char_eq_literal ds)
    qed
  qed
qed

lemma scan_sign_spec:
  assumes "sg \<in> {'''', ''-'', ''+''}" and "ch \<noteq> CHR ''-''" "ch \<noteq> CHR ''+''"
  shows "scan_sign (pre @ sg @ ch # rest) (of_char (hd (sg @ [ch]))) (Suc (length pre))
    = Some (sg = ''-'', of_char ch, Suc (length pre + length sg))"
  using assms by (auto simp: scan_sign_def of_char_eq_literal getc_append_Suc)

text \<open>The part of both routines in front of the digits.\<close>

lemma front_spec:
  fixes rest :: "char list"
  assumes ws: "\<forall>ch \<in> set ws. isspace (of_char ch)" and sg: "sg \<in> {'''', ''-'', ''+''}"
    and px: "prefix_ok base px ds t" and ds: "ds \<noteq> []" "is_digit b (hd ds)"
  defines "str \<equiv> ws @ sg @ px @ ds @ t # rest"
  shows "\<exists>c1 s1 c2 s2. skip_space str 0 = Some (c1, s1) \<and> scan_sign str c1 s1 = Some (sg = ''-'', c2, s2)
    \<and> scan_prefix str base c2 s2
        = Some (effective_base base px ds, of_char (hd ds), Suc (length (ws @ sg @ px)))"
proof -
  obtain ch tl where first: "px @ ds = ch # tl" "ch = hd (px @ ds)" using ds(1) by (cases "px @ ds") auto
  have "hd ds \<noteq> CHR ''-''" "hd ds \<noteq> CHR ''+''" "\<not> isspace (of_char (hd ds))"
    using is_digit_char [OF ds(2)] by (auto simp: of_char_eq_literal)
  then have ch: "ch \<noteq> CHR ''-''" "ch \<noteq> CHR ''+''" "\<not> isspace (of_char ch)"
    using px first ds(1) by (auto simp: prefix_ok_def isspace_def)
  obtain c' rest' where front: "sg @ ch # tl @ t # rest = c' # rest'" "c' = hd (sg @ [ch])"
    by (cases sg) auto
  have "\<not> isspace (of_char c')" using sg ch front(2) by (auto simp: isspace_def)
  have "px @ ds @ t # rest = ch # tl @ t # rest" using first(1) by (metis append_Cons append_assoc)
  then have str2: "str = ws @ sg @ ch # tl @ t # rest" by (simp only: str_def)
  then have str1: "str = ws @ c' # rest'" using front(1) by (simp only:)
  have 1: "skip_space str 0 = Some (of_char (hd (sg @ [ch])), Suc (length ws))"
    using skip_space_spec [OF ws \<open>\<not> isspace (of_char c')\<close>, of "[]" rest'] front(2) str1 by simp
  have 2: "scan_sign str (of_char (hd (sg @ [ch]))) (Suc (length ws)) = Some (sg = ''-'', of_char ch, Suc (length ws + length sg))"
    using scan_sign_spec [OF sg ch(1,2), of ws "tl @ t # rest"] str2 by simp
  have 3: "scan_prefix str base (of_char ch) (Suc (length ws + length sg))
      = Some (effective_base base px ds, of_char (hd ds), Suc (length (ws @ sg @ px)))"
    using scan_prefix_spec [OF px ds(1), of "ws @ sg" rest] first(2) by (simp add: str_def)
  from 1 2 3 show ?thesis by blast
qed

lemma digits_after_front:
  fixes rest :: "char list"
  assumes "1 \<le> b" "b \<le> 36" and "\<not> is_digit b t" and "ds \<noteq> []" "\<forall>ch \<in> set ds. is_digit b ch"
  shows "\<exists>acc any. digit_loop (pre @ ds @ t # rest) b (L div word_of_int b) (sint (L mod word_of_int b))
      (of_char (hd ds)) (Suc (length pre)) 0 0 = Some (acc, any, Suc (length pre + length ds))
    \<and> any \<noteq> 0 \<and> (if any < 0 then uint L < numeral_value b 0 ds
         else uint acc = numeral_value b 0 ds \<and> numeral_value b 0 ds \<le> uint L)"
proof -
  have "acc_holds L 0 0 0" by (simp add: acc_holds_def)
  from digit_loop_spec [OF assms(1-3,5) this, of pre rest] assms(4)
  obtain acc any where "digit_loop (pre @ ds @ t # rest) b (L div word_of_int b) (sint (L mod word_of_int b))
      (of_char (hd ds)) (Suc (length pre)) 0 0 = Some (acc, any, Suc (length pre + length ds))"
    "acc_holds L (numeral_value b 0 ds) acc any" "any \<noteq> 0"
    by auto
  then show ?thesis unfolding acc_holds_def by blast
qed

lemma sint_small:
  fixes acc :: u32
  assumes "uint acc = v"
  shows "v \<le> 2 ^ 31 - 1 \<Longrightarrow> sint acc = v" "v \<le> 2 ^ 31 \<Longrightarrow> sint (- acc) = - v"
proof -
  have "0 \<le> v" using assms by auto
  then show "v \<le> 2 ^ 31 - 1 \<Longrightarrow> sint acc = v"
    using assms by (simp add: sint_uint signed_take_bit_int_eq_self)
  assume "v \<le> 2 ^ 31"
  then have "signed_take_bit 31 (- v) = - v"
    using \<open>0 \<le> v\<close> by (simp add: signed_take_bit_int_eq_self)
  moreover have "- acc = word_of_int (- v)" using assms by auto
  moreover have "sint (word_of_int (- v) :: u32) = signed_take_bit 31 (- v)"
    by (simp only: signed_of_int) simp
  ultimately show "sint (- acc) = - v" by (simp only:)
qed

lemma effective_base_range:
  assumes "base = 0 \<or> 1 \<le> base \<and> base \<le> 36"
  shows "1 \<le> effective_base base px ds \<and> effective_base base px ds \<le> 36"
  using assms by (auto simp: effective_base_def)

section \<open>Properties\<close>

text \<open>C26: \<open>strtol\<close> on a numeral: blanks, an optional sign, a prefix the base allows, and at least one
  digit of the base, followed by a character that is none. The result is the number, cut off at
  \<open>LONG_MIN\<close> and \<open>LONG_MAX\<close> instead of wrapping around, and \<^verbatim>\<open>endptr\<close> points behind the last digit.\<close>

theorem strtol_correct:
  fixes rest :: "char list"
  assumes "base = 0 \<or> 1 \<le> base \<and> base \<le> 36" and "\<forall>ch \<in> set ws. isspace (of_char ch)"
    and "sg \<in> {'''', ''-'', ''+''}" and "prefix_ok base px ds t" and "ds \<noteq> []"
    and "\<forall>ch \<in> set ds. is_digit (effective_base base px ds) ch"
    and "\<not> is_digit (effective_base base px ds) t"
  shows "strtol (ws @ sg @ px @ ds @ t # rest) base =
    (let v = numeral_value (effective_base base px ds) 0 ds
     in Some (if sg = ''-'' then max LONG_MIN (- v) else min LONG_MAX v, length (ws @ sg @ px @ ds)))"
proof -
  let ?b = "effective_base base px ds" and ?str = "ws @ sg @ px @ ds @ t # rest"
  let ?L = "(if sg = ''-'' then - word_of_int LONG_MIN else word_of_int LONG_MAX) :: u32"
  have first: "is_digit ?b (hd ds)" using assms(5,6) by simp
  note b = effective_base_range [OF assms(1), of px ds]
  obtain acc any where d: "digit_loop ((ws @ sg @ px) @ ds @ t # rest) ?b (?L div word_of_int ?b) (sint (?L mod word_of_int ?b))
      (of_char (hd ds)) (Suc (length (ws @ sg @ px))) 0 0 = Some (acc, any, Suc (length (ws @ sg @ px) + length ds))"
    "any \<noteq> 0" "if any < 0 then uint ?L < numeral_value ?b 0 ds
         else uint acc = numeral_value ?b 0 ds \<and> numeral_value ?b 0 ds \<le> uint ?L"
    using digits_after_front [OF b [THEN conjunct1] b [THEN conjunct2] assms(7,5,6), of "ws @ sg @ px" rest ?L] by blast
  define v where "v = numeral_value ?b 0 ds"
  have L: "uint ?L = (if sg = ''-'' then 2 ^ 31 else 2 ^ 31 - 1)" by (simp add: LONG_MIN_def LONG_MAX_def)
  have "sint (if any < 0 then word_of_int (if sg = ''-'' then LONG_MIN else LONG_MAX) else if sg = ''-'' then - acc else acc)
    = (if sg = ''-'' then max LONG_MIN (- v) else min LONG_MAX v)"
    using d(3) sint_small [of acc v] unfolding L v_def [symmetric]
    by (auto simp: LONG_MIN_def LONG_MAX_def split: if_splits)
  with front_spec [OF assms(2-5) first, of rest] d(1,2) show ?thesis
    by (auto simp: strtol_def Let_def v_def)
qed

theorem strtol_correct_witness:
  "strtol (''  '' @ ''-'' @ ''0x'' @ ''80000001'' @ CHR 0x00 # []) 0 =
    (let v = numeral_value (effective_base 0 ''0x'' ''80000001'') 0 ''80000001''
     in Some (if ''-'' = ''-'' then max LONG_MIN (- v) else min LONG_MAX v, length (''  '' @ ''-'' @ ''0x'' @ ''80000001'')))"
  by (rule strtol_correct)
    (simp_all add: isspace_def prefix_ok_def effective_base_def is_digit_def digit_of_def isdigit_def isalpha_def)

text \<open>\<open>strtoul\<close> on a numeral: a value above \<open>ULONG_MAX\<close> is cut off there, sign or no sign; a
  smaller one behind a minus sign is negated modulo the word size.\<close>

theorem strtoul_correct:
  fixes rest :: "char list"
  assumes "base = 0 \<or> 1 \<le> base \<and> base \<le> 36" and "\<forall>ch \<in> set ws. isspace (of_char ch)"
    and "sg \<in> {'''', ''-'', ''+''}" and "prefix_ok base px ds t" and "ds \<noteq> []"
    and "\<forall>ch \<in> set ds. is_digit (effective_base base px ds) ch"
    and "\<not> is_digit (effective_base base px ds) t"
  shows "map_option (\<lambda>(w, e). (uint w, e)) (strtoul (ws @ sg @ px @ ds @ t # rest) base) =
    (let v = numeral_value (effective_base base px ds) 0 ds
     in Some (if v > ULONG_MAX then ULONG_MAX else if sg = ''-'' then (- v) mod 2 ^ 32 else v,
          length (ws @ sg @ px @ ds)))"
proof -
  let ?b = "effective_base base px ds" and ?str = "ws @ sg @ px @ ds @ t # rest"
  let ?L = "word_of_int ULONG_MAX :: u32"
  have first: "is_digit ?b (hd ds)" using assms(5,6) by simp
  note b = effective_base_range [OF assms(1), of px ds]
  obtain acc any where d: "digit_loop ((ws @ sg @ px) @ ds @ t # rest) ?b (?L div word_of_int ?b) (sint (?L mod word_of_int ?b))
      (of_char (hd ds)) (Suc (length (ws @ sg @ px))) 0 0 = Some (acc, any, Suc (length (ws @ sg @ px) + length ds))"
    "any \<noteq> 0" "if any < 0 then uint ?L < numeral_value ?b 0 ds
         else uint acc = numeral_value ?b 0 ds \<and> numeral_value ?b 0 ds \<le> uint ?L"
    using digits_after_front [OF b [THEN conjunct1] b [THEN conjunct2] assms(7,5,6), of "ws @ sg @ px" rest ?L] by blast
  define v where "v = numeral_value ?b 0 ds"
  have L: "uint ?L = ULONG_MAX" by (simp add: ULONG_MAX_def)
  have "uint (if any < 0 then ?L else if sg = ''-'' then - acc else acc)
    = (if v > ULONG_MAX then ULONG_MAX else if sg = ''-'' then (- v) mod 2 ^ 32 else v)"
    using d(3) unfolding L v_def [symmetric]
    by (auto simp: L uint_word_ariths(4) split: if_splits)
  with front_spec [OF assms(2-5) first, of rest] d(1,2) show ?thesis
    by (auto simp: strtoul_def Let_def v_def)
qed

theorem strtoul_correct_witness:
  "map_option (\<lambda>(w, e). (uint w, e)) (strtoul ('' '' @ ''+'' @ '''' @ ''0755'' @ CHR '';'' # []) 0) =
    (let v = numeral_value (effective_base 0 '''' ''0755'') 0 ''0755''
     in Some (if v > ULONG_MAX then ULONG_MAX else if ''+'' = ''-'' then (- v) mod 2 ^ 32 else v,
          length ('' '' @ ''+'' @ '''' @ ''0755'')))"
  by (rule strtoul_correct)
    (simp_all add: isspace_def prefix_ok_def effective_base_def is_digit_def digit_of_def isdigit_def isalpha_def)

text \<open>A hexadecimal prefix with no digit behind it. Where the leading \<open>0\<close> alone is a numeral, the
  code has already consumed it and reports that nothing was converted: value 0 and \<^verbatim>\<open>endptr\<close> at the
  start of the string.\<close>

theorem strtol_bare_prefix:
  assumes "base = 0 \<or> base = 16" and "x = CHR ''x'' \<or> x = CHR ''X''" and "\<not> is_digit 16 t"
  shows "strtol (CHR ''0'' # x # t # rest) base = Some (0, 0)"
proof -
  have "digit_of (of_char t) = None \<or> (\<exists>d. digit_of (of_char t) = Some d \<and> d \<ge> 16)"
    using assms(3) by (cases "digit_of (of_char t)") (auto simp: is_digit_def)
  then have "digit_loop (CHR ''0'' # x # t # rest) 16 cutoff cutlim (of_char t) 3 0 0 = Some (0, 0, 3)" for cutoff cutlim
    by (subst digit_loop.simps) auto
  with assms(1,2) show ?thesis
    by (auto simp: strtol_def skip_space.simps getc_def rd_def isspace_def scan_sign_def scan_prefix_def
        is_letter_def Let_def numeral_eq_Suc)
qed

theorem strtol_bare_prefix_witness: "strtol (CHR ''0'' # CHR ''x'' # CHR ''g'' # [CHR 0x00]) 0 = Some (0, 0)"
  by (rule strtol_bare_prefix) (simp_all add: is_digit_def digit_of_def isdigit_def isalpha_def isupper_def)

end
