(* ===== verification/Libkern_Str.thy ===== *)
theory Libkern_Str
  imports Strtol
begin

text \<open>
  The string and byte-scanning routines of \<^verbatim>\<open>libkern\<close>: \<^verbatim>\<open>strsep.c\<close>, \<^verbatim>\<open>rindex.c\<close>,
  \<^verbatim>\<open>scanc.c\<close>, \<^verbatim>\<open>skpc.c\<close>, \<^verbatim>\<open>locc.c\<close>, \<^verbatim>\<open>bcmp.c\<close>, and the BCD tables of \<^verbatim>\<open>bcd.c\<close>. A pointer
  into a string is its offset; strings carry their terminating NUL, and running past the end of
  the memory is \<open>None\<close>.
\<close>

abbreviation "NUL \<equiv> CHR 0x00"

section \<open>Tokens\<close>

text \<open>The inner loop of \<open>strsep\<close>: does \<open>c\<close> occur in \<open>delim\<close>, its NUL included?\<close>

fun span_delim :: "char list \<Rightarrow> char \<Rightarrow> bool option" where
  "span_delim [] c = None"
| "span_delim (sc # delim) c =
    (if sc = c then Some True else if sc \<noteq> NUL then span_delim delim c else Some False)"

text \<open>The outer loop from \<open>s\<close> on: the offset of the character that ends the token.\<close>

function strsep_loop :: "char list \<Rightarrow> char list \<Rightarrow> nat \<Rightarrow> nat option" where
  "strsep_loop mem delim s =
    (case rd mem s of
       None \<Rightarrow> None
     | Some c \<Rightarrow>
         (case span_delim delim c of
            None \<Rightarrow> None
          | Some True \<Rightarrow> Some s
          | Some False \<Rightarrow> strsep_loop mem delim (s + 1)))"
  by pat_completeness auto
termination
  by (relation "measure (\<lambda>(mem, delim, s). length mem - s)") (auto simp: rd_def split: if_splits)

declare strsep_loop.simps [simp del]

text \<open>\<open>strsep\<close>: the token (NULL is \<open>None\<close>), the new \<^verbatim>\<open>*stringp\<close> and the memory.\<close>

definition strsep ::
  "char list \<Rightarrow> nat option \<Rightarrow> char list \<Rightarrow> (nat option \<times> nat option \<times> char list) option" where
  "strsep mem stringp delim =
    (case stringp of
       None \<Rightarrow> Some (None, None, mem)
     | Some tok \<Rightarrow>
         map_option (\<lambda>e. if mem ! e = NUL then (Some tok, None, mem)
                          else (Some tok, Some (e + 1), mem[e := NUL]))
           (strsep_loop mem delim tok))"

section \<open>Scans\<close>

function rindex_loop :: "char list \<Rightarrow> int \<Rightarrow> nat \<Rightarrow> nat option \<Rightarrow> nat option option" where
  "rindex_loop mem ch p save =
    (case getc mem p of
       None \<Rightarrow> None
     | Some c \<Rightarrow>
         (let save' = (if c = ch then Some p else save)
          in if c = 0 then Some save' else rindex_loop mem ch (p + 1) save'))"
  by pat_completeness auto
termination
  by (relation "measure (\<lambda>(mem, ch, p, save). length mem - p)")
    (auto simp: getc_def rd_def split: if_splits)

declare rindex_loop.simps [simp del]

text \<open>\<open>rindex\<close> (7-bit characters); the result is a pointer or NULL.\<close>

definition rindex :: "char list \<Rightarrow> int \<Rightarrow> nat \<Rightarrow> nat option option" where
  "rindex mem ch p = rindex_loop mem ch p None"

text \<open>The three scans return how many bytes are left from the first hit on, 0 for none. The loop
  condition is read on each byte before the pointer reaches \<^verbatim>\<open>end\<close>.\<close>

fun scan_left :: "(u8 \<Rightarrow> bool) \<Rightarrow> u8 list \<Rightarrow> nat \<Rightarrow> nat option" where
  "scan_left go mem 0 = Some 0"
| "scan_left go [] (Suc n) = None"
| "scan_left go (b # mem) (Suc n) = (if go b then scan_left go mem n else Some (Suc n))"

definition scanc :: "nat \<Rightarrow> u8 list \<Rightarrow> u8 list \<Rightarrow> int \<Rightarrow> nat option" where
  "scanc n cp table mask0 = scan_left (\<lambda>b. (table ! unat b) AND word_of_int mask0 = 0) cp n"

definition skpc :: "int \<Rightarrow> nat \<Rightarrow> u8 list \<Rightarrow> nat option" where
  "skpc mask0 n cp = scan_left (\<lambda>b. b = word_of_int mask0) cp n"

definition locc :: "int \<Rightarrow> u8 list \<Rightarrow> nat \<Rightarrow> nat option" where
  "locc mask0 cp n = scan_left (\<lambda>b. b \<noteq> word_of_int mask0) cp n"

text \<open>\<open>bcmp\<close>: the number of bytes left at the first difference, that one included.\<close>

fun bcmp_loop :: "u8 list \<Rightarrow> u8 list \<Rightarrow> nat \<Rightarrow> nat option" where
  "bcmp_loop (a # p1) (b # p2) (Suc n) =
    (if a \<noteq> b then Some (Suc n) else if n = 0 then Some 0 else bcmp_loop p1 p2 n)"
| "bcmp_loop _ _ _ = None"

definition bcmp :: "u8 list \<Rightarrow> u8 list \<Rightarrow> nat \<Rightarrow> nat option" where
  "bcmp b1 b2 len = (if len = 0 then Some 0 else bcmp_loop b1 b2 len)"

section \<open>Reference: splitting a string\<close>

fun split_on :: "(char \<Rightarrow> bool) \<Rightarrow> char list \<Rightarrow> char list list" where
  "split_on P [] = [[]]"
| "split_on P (c # cs) =
    (if P c then [] # split_on P cs
     else (case split_on P cs of [] \<Rightarrow> [[c]] | t # ts \<Rightarrow> (c # t) # ts))"

lemma split_on_ne [simp]: "split_on P cs \<noteq> []"
  by (induction cs) (auto split: list.splits)

lemma split_on_prefix: "\<forall>c \<in> set t. \<not> P c \<Longrightarrow> split_on P (t @ d # cs) = (if P d then t # split_on P cs else split_on P (t @ d # cs))"
  by (induction t) auto

lemma split_on_none: "\<forall>c \<in> set t. \<not> P c \<Longrightarrow> split_on P t = [t]"
  by (induction t) auto

text \<open>The characters of a NUL-terminated string.\<close>

definition cstring :: "char list \<Rightarrow> nat \<Rightarrow> char list" where
  "cstring mem p = takeWhile (\<lambda>c. c \<noteq> NUL) (drop p mem)"

text \<open>Calling \<open>strsep\<close> until \<^verbatim>\<open>*stringp\<close> is NULL, with the tokens as they read afterwards.\<close>

fun strsep_all :: "nat \<Rightarrow> char list \<Rightarrow> nat option \<Rightarrow> char list \<Rightarrow> (char list list \<times> char list) option" where
  "strsep_all 0 mem p delim = None"
| "strsep_all (Suc fuel) mem p delim =
    (case strsep mem p delim of
       None \<Rightarrow> None
     | Some (None, _, mem') \<Rightarrow> Some ([], mem')
     | Some (Some tok, p', mem') \<Rightarrow>
         map_option (\<lambda>(ts, m). (cstring mem' tok # ts, m)) (strsep_all fuel mem' p' delim))"

lemma span_delim_spec:
  "NUL \<notin> set ds \<Longrightarrow> span_delim (ds @ [NUL]) c = Some (c = NUL \<or> c \<in> set ds)"
  by (induction ds) auto

lemma strsep_loop_spec:
  assumes "NUL \<notin> set ds" and "\<forall>c \<in> set t. c \<noteq> NUL \<and> c \<notin> set ds" and "d = NUL \<or> d \<in> set ds"
  shows "strsep_loop (pre @ t @ d # rest) (ds @ [NUL]) (length pre) = Some (length pre + length t)"
  using assms(2)
proof (induction t arbitrary: pre)
  case Nil
  with assms(1,3) show ?case
    by (subst strsep_loop.simps) (auto simp: rd_def span_delim_spec nth_append)
next
  case (Cons c t)
  with Cons.IH [of "pre @ [c]"] assms(1) show ?case
    by (subst strsep_loop.simps) (auto simp: rd_def span_delim_spec nth_append)
qed

lemma token_split:
  "\<exists>t d cs. s @ [NUL] = t @ d # cs \<and> (\<forall>c \<in> set t. \<not> P c \<and> c \<noteq> NUL) \<and> (d = NUL \<and> cs = [] \<and> t = s \<or> P d \<and> d \<noteq> NUL \<and> (\<exists>s'. s = t @ d # s' \<and> cs = s' @ [NUL]))"
  if "NUL \<notin> set s"
proof (cases "\<exists>c \<in> set s. P c")
  case True
  from split_list_first_prop [OF this] obtain t d s' where "s = t @ d # s'" "P d" "\<forall>c \<in> set t. \<not> P c" by blast
  with that show ?thesis by (intro exI [of _ t] exI [of _ d] exI [of _ "s' @ [NUL]"]) auto
next
  case False
  with that show ?thesis by (intro exI [of _ s] exI [of _ NUL] exI [of _ "[]"]) auto
qed

lemma cstring_at: "NUL \<notin> set t \<Longrightarrow> cstring (pre @ t @ NUL # rest) (length pre) = t"
  unfolding cstring_def by (induction t) auto

lemma strsep_all_spec:
  assumes ds: "NUL \<notin> set ds" and "NUL \<notin> set s" and "length s + 2 \<le> fuel"
  shows "strsep_all fuel (pre @ s @ [NUL]) (Some (length pre)) (ds @ [NUL]) =
    Some (split_on (\<lambda>c. c \<in> set ds) s, pre @ map (\<lambda>c. if c \<in> set ds then NUL else c) s @ [NUL])"
  using assms(2,3)
proof (induction "length s" arbitrary: s pre fuel rule: less_induct)
  case less
  obtain f where fuel: "fuel = Suc (Suc f)" using less.prems(2) by (cases fuel; cases "fuel - 1") auto
  obtain t d cs where t: "s @ [NUL] = t @ d # cs" "\<forall>c \<in> set t. c \<notin> set ds \<and> c \<noteq> NUL"
    and d: "d = NUL \<and> cs = [] \<and> t = s \<or> d \<in> set ds \<and> d \<noteq> NUL \<and> (\<exists>s'. s = t @ d # s' \<and> cs = s' @ [NUL])"
    using token_split [OF less.prems(1), of "\<lambda>c. c \<in> set ds"] by blast
  have loop: "strsep_loop (pre @ s @ [NUL]) (ds @ [NUL]) (length pre) = Some (length pre + length t)"
    unfolding t(1) using t(2) d ds by (intro strsep_loop_spec) auto
  have same: "map (\<lambda>c. if c \<in> set ds then NUL else c) t = t"
    using t(2) by (intro map_idI) auto
  have nonul: "NUL \<notin> set t" using t(2) by auto
  from d show ?case
  proof (elim disjE conjE exE)
    assume "d = NUL" "cs = []" "t = s"
    with loop same t(2) nonul show ?thesis
      using cstring_at [of s pre "[]"]
      by (simp add: fuel strsep_def nth_append split_on_none)
  next
    fix s' assume s': "d \<in> set ds" "d \<noteq> NUL" "s = t @ d # s'" "cs = s' @ [NUL]"
    let ?pre = "pre @ t @ [NUL]"
    have "strsep (pre @ s @ [NUL]) (Some (length pre)) (ds @ [NUL])
        = Some (Some (length pre), Some (length ?pre), ?pre @ s' @ [NUL])"
      using loop s' by (simp add: strsep_def nth_append list_update_append)
    moreover have "cstring (?pre @ s' @ [NUL]) (length pre) = t"
      using cstring_at [OF nonul, of pre "s' @ [NUL]"] by simp
    moreover have "strsep_all (Suc f) (?pre @ s' @ [NUL]) (Some (length ?pre)) (ds @ [NUL]) =
        Some (split_on (\<lambda>c. c \<in> set ds) s', ?pre @ map (\<lambda>c. if c \<in> set ds then NUL else c) s' @ [NUL])"
      using less.prems s' fuel by (intro less.hyps) auto
    moreover have "split_on (\<lambda>c. c \<in> set ds) s = t # split_on (\<lambda>c. c \<in> set ds) s'"
      using split_on_prefix [of t "\<lambda>c. c \<in> set ds" d s'] t(2) s' by simp
    ultimately show ?thesis
      using same s' by (simp add: fuel)
  qed
qed

section \<open>BCD tables\<close>

definition bcd2bin_data :: "u8 list" where
  "bcd2bin_data =
    [0, 1, 2, 3, 4, 5, 6, 7, 8, 9, 0, 0, 0, 0, 0, 0,
     10, 11, 12, 13, 14, 15, 16, 17, 18, 19, 0, 0, 0, 0, 0, 0,
     20, 21, 22, 23, 24, 25, 26, 27, 28, 29, 0, 0, 0, 0, 0, 0,
     30, 31, 32, 33, 34, 35, 36, 37, 38, 39, 0, 0, 0, 0, 0, 0,
     40, 41, 42, 43, 44, 45, 46, 47, 48, 49, 0, 0, 0, 0, 0, 0,
     50, 51, 52, 53, 54, 55, 56, 57, 58, 59, 0, 0, 0, 0, 0, 0,
     60, 61, 62, 63, 64, 65, 66, 67, 68, 69, 0, 0, 0, 0, 0, 0,
     70, 71, 72, 73, 74, 75, 76, 77, 78, 79, 0, 0, 0, 0, 0, 0,
     80, 81, 82, 83, 84, 85, 86, 87, 88, 89, 0, 0, 0, 0, 0, 0,
     90, 91, 92, 93, 94, 95, 96, 97, 98, 99]"

definition bin2bcd_data :: "u8 list" where
  "bin2bcd_data =
    [0x00, 0x01, 0x02, 0x03, 0x04, 0x05, 0x06, 0x07, 0x08, 0x09,
     0x10, 0x11, 0x12, 0x13, 0x14, 0x15, 0x16, 0x17, 0x18, 0x19,
     0x20, 0x21, 0x22, 0x23, 0x24, 0x25, 0x26, 0x27, 0x28, 0x29,
     0x30, 0x31, 0x32, 0x33, 0x34, 0x35, 0x36, 0x37, 0x38, 0x39,
     0x40, 0x41, 0x42, 0x43, 0x44, 0x45, 0x46, 0x47, 0x48, 0x49,
     0x50, 0x51, 0x52, 0x53, 0x54, 0x55, 0x56, 0x57, 0x58, 0x59,
     0x60, 0x61, 0x62, 0x63, 0x64, 0x65, 0x66, 0x67, 0x68, 0x69,
     0x70, 0x71, 0x72, 0x73, 0x74, 0x75, 0x76, 0x77, 0x78, 0x79,
     0x80, 0x81, 0x82, 0x83, 0x84, 0x85, 0x86, 0x87, 0x88, 0x89,
     0x90, 0x91, 0x92, 0x93, 0x94, 0x95, 0x96, 0x97, 0x98, 0x99]"

definition hex2ascii_data :: string where
  "hex2ascii_data = ''0123456789abcdefghijklmnopqrstuvwxyz''"

text \<open>The macros of \<^verbatim>\<open>libkern.h\<close>: plain indexing, with no test of the index.\<close>

definition bcd2bin :: "nat \<Rightarrow> u8 option" where
  "bcd2bin bcd = rd bcd2bin_data bcd"

definition bin2bcd :: "nat \<Rightarrow> u8 option" where
  "bin2bcd bin = rd bin2bcd_data bin"

definition hex2ascii :: "nat \<Rightarrow> char option" where
  "hex2ascii hex = rd hex2ascii_data hex"

text \<open>The tables as functions of the index.\<close>

lemma bin2bcd_table: "bin2bcd_data = map (\<lambda>n. of_nat (16 * (n div 10) + n mod 10)) [0 ..< 100]"
  by code_simp

lemma bcd2bin_table:
  "bcd2bin_data = map (\<lambda>b. if b mod 16 < 10 then of_nat (10 * (b div 16) + b mod 16) else 0) [0 ..< 154]"
  by code_simp

section \<open>Scan results\<close>

lemma scan_left_spec:
  "n \<le> length mem \<Longrightarrow> scan_left go mem n = Some (n - length (takeWhile go (take n mem)))"
proof (induction go mem n rule: scan_left.induct)
  case (3 go b mem n)
  have "length (takeWhile go (take n mem)) \<le> n"
    using length_takeWhile_le [of go "take n mem"] by simp
  with 3 show ?case by (auto simp: Suc_diff_le)
qed simp_all

lemma bcmp_loop_zero:
  "0 < n \<Longrightarrow> n \<le> length p1 \<Longrightarrow> n \<le> length p2 \<Longrightarrow>
    \<exists>k \<le> n. bcmp_loop p1 p2 n = Some k \<and> (k = 0 \<longleftrightarrow> take n p1 = take n p2)"
proof (induction p1 p2 n rule: bcmp_loop.induct)
  case (1 a p1 b p2 n)
  then show ?case by (cases "n = 0") (auto intro: le_SucI)
qed auto

text \<open>The pointer \<open>rindex\<close> returns: the last place of \<open>ch\<close>, if there is one.\<close>

fun last_index :: "char \<Rightarrow> char list \<Rightarrow> nat option" where
  "last_index ch [] = None"
| "last_index ch (c # cs) =
    (case last_index ch cs of Some i \<Rightarrow> Some (Suc i) | None \<Rightarrow> if c = ch then Some 0 else None)"

lemma rindex_loop_spec:
  assumes "NUL \<notin> set s" and "ch \<noteq> NUL"
  shows "rindex_loop (pre @ s @ NUL # rest) (of_char ch) (length pre) save =
    Some (case last_index ch s of Some i \<Rightarrow> Some (length pre + i) | None \<Rightarrow> save)"
  using assms(1)
proof (induction s arbitrary: pre save)
  case Nil
  have "(0 :: int) \<noteq> of_char ch" using assms(2) of_char_eq_iff [of NUL ch, where 'a = int] by auto
  then show ?case by (subst rindex_loop.simps) (simp add: getc_append Let_def)
next
  case (Cons c s)
  have "(of_char c :: int) \<noteq> 0" using Cons.prems of_char_eq_iff [of c NUL, where 'a = int] by auto
  with Cons.IH [of "pre @ [c]"] Cons.prems show ?case
    by (subst rindex_loop.simps) (auto simp: getc_append Let_def split: option.splits)
qed

lemma last_index_Some:
  "last_index ch s = Some i \<Longrightarrow> i < length s \<and> s ! i = ch \<and> (\<forall>j. i < j \<and> j < length s \<longrightarrow> s ! j \<noteq> ch)"
proof (induction s arbitrary: i)
  case (Cons c s)
  show ?case
  proof (cases "last_index ch s")
    case None
    then have "ch \<notin> set s" by (induction s) (auto split: option.splits if_splits)
    with None Cons.prems show ?thesis by (auto simp: nth_Cons split: if_splits nat.splits)
  next
    case (Some k)
    with Cons show ?thesis by (auto simp: nth_Cons split: nat.splits)
  qed
qed simp

section \<open>Properties\<close>

text \<open>Tokenizing a string. Calling \<open>strsep\<close> until it has no more tokens yields the pieces between
  the delimiter characters, empty ones included, in order, and leaves the memory with every delimiter
  replaced by a NUL and nothing else changed.\<close>

theorem strsep_tokens:
  assumes "NUL \<notin> set ds" and "NUL \<notin> set s"
  shows "strsep_all (length s + 2) (pre @ s @ [NUL]) (Some (length pre)) (ds @ [NUL]) =
    Some (split_on (\<lambda>c. c \<in> set ds) s, pre @ map (\<lambda>c. if c \<in> set ds then NUL else c) s @ [NUL])"
  by (rule strsep_all_spec [OF assms order_refl])

theorem strsep_tokens_witness:
  "strsep_all (length ''a,,b c'' + 2) (''x'' @ ''a,,b c'' @ [NUL]) (Some (length ''x'')) ('', '' @ [NUL]) =
    Some (split_on (\<lambda>c. c \<in> set '', '') ''a,,b c'', ''x'' @ map (\<lambda>c. if c \<in> set '', '' then NUL else c) ''a,,b c'' @ [NUL])"
  by (rule strsep_tokens) simp_all

text \<open>\<open>rindex\<close> on a NUL-terminated string returns NULL exactly when the character does not occur,
  and otherwise a pointer to its last occurrence.\<close>

theorem rindex_correct:
  assumes "NUL \<notin> set s" and "ch \<noteq> NUL"
  shows "\<exists>r. rindex (pre @ s @ NUL # rest) (of_char ch) (length pre) = Some r
    \<and> (case r of None \<Rightarrow> ch \<notin> set s
       | Some p \<Rightarrow> \<exists>i < length s. p = length pre + i \<and> s ! i = ch \<and> (\<forall>j. i < j \<and> j < length s \<longrightarrow> s ! j \<noteq> ch))"
proof (cases "last_index ch s")
  case None
  then have "ch \<notin> set s" by (induction s) (auto split: option.splits if_splits)
  with None show ?thesis by (simp add: rindex_def rindex_loop_spec [OF assms])
next
  case (Some i)
  with last_index_Some [OF this] show ?thesis by (simp add: rindex_def rindex_loop_spec [OF assms])
qed

theorem rindex_correct_witness:
  "\<exists>r. rindex (''/'' @ ''a/b/c'' @ NUL # ''/'') (of_char (CHR ''/'')) (length ''/'') = Some r
    \<and> (case r of None \<Rightarrow> CHR ''/'' \<notin> set ''a/b/c''
       | Some p \<Rightarrow> \<exists>i < length ''a/b/c''. p = length ''/'' + i \<and> ''a/b/c'' ! i = CHR ''/''
           \<and> (\<forall>j. i < j \<and> j < length ''a/b/c'' \<longrightarrow> ''a/b/c'' ! j \<noteq> CHR ''/''))"
  by (rule rindex_correct) simp_all

text \<open>The scans. Within a readable buffer \<open>locc\<close>, \<open>skpc\<close> and \<open>scanc\<close> return the number of bytes
  that remain from the first byte equal to the mask, different from it, or with a table entry that
  shares a bit with it.\<close>

theorem scans_correct:
  assumes "n \<le> length cp"
  shows "locc mask0 cp n = Some (n - length (takeWhile (\<lambda>b. b \<noteq> word_of_int mask0) (take n cp)))
    \<and> skpc mask0 n cp = Some (n - length (takeWhile (\<lambda>b. b = word_of_int mask0) (take n cp)))
    \<and> scanc n cp table mask0 =
      Some (n - length (takeWhile (\<lambda>b. (table ! unat b) AND word_of_int mask0 = 0) (take n cp)))"
  by (simp add: scan_left_spec [OF assms] locc_def skpc_def scanc_def)

theorem scans_correct_witness:
  "locc 7 [1, 2, 7, 3] 4 = Some (4 - length (takeWhile (\<lambda>b :: u8. b \<noteq> word_of_int 7) (take 4 [1, 2, 7, 3])))
    \<and> skpc 7 4 [1, 2, 7, 3] = Some (4 - length (takeWhile (\<lambda>b :: u8. b = word_of_int 7) (take 4 [1, 2, 7, 3])))
    \<and> scanc 4 [1, 2, 7, 3] (replicate 256 1) 7 =
      Some (4 - length (takeWhile (\<lambda>b :: u8. (replicate 256 1 ! unat b) AND (word_of_int 7 :: u8) = 0) (take 4 [1, 2, 7, 3])))"
  by (rule scans_correct) simp

text \<open>\<open>bcmp\<close> returns 0 exactly when the two buffers agree on the whole length.\<close>

theorem bcmp_correct:
  assumes "n \<le> length b1" and "n \<le> length b2"
  shows "\<exists>k \<le> n. bcmp b1 b2 n = Some k \<and> (k = 0 \<longleftrightarrow> take n b1 = take n b2)"
  using bcmp_loop_zero [OF _ assms] by (cases "n = 0") (auto simp: bcmp_def)

theorem bcmp_correct_witness:
  "\<exists>k \<le> 2. bcmp [1, 2, 3] [1, 4] 2 = Some k \<and> (k = 0 \<longleftrightarrow> take 2 [1, 2, 3 :: u8] = take 2 [1, 4])"
  by (rule bcmp_correct) simp_all

text \<open>The BCD tables. For every number below 100 the BCD byte has its decimal digits as its two
  nibbles and is converted back; a byte with a nibble above 9 reads as 0 or, from 0x9A on, lies outside
  the table.\<close>

theorem bcd_tables:
  "(\<forall>n < 100. bin2bcd n = Some (of_nat (16 * (n div 10) + n mod 10)) \<and> bcd2bin (16 * (n div 10) + n mod 10) = Some (of_nat n))
    \<and> (\<forall>b < 256. 9 < b mod 16 \<longrightarrow> bcd2bin b = (if b < 0x9A then Some 0 else None))
    \<and> (\<forall>n \<ge> 100. bin2bcd n = None)"
proof -
  have 1: "bcd2bin (16 * (n div 10) + n mod 10) = Some (of_nat n)" if "n < 100" for n
  proof -
    have d: "n div 10 < 10" "n mod 10 < 10" using that by auto
    then have i: "16 * (n div 10) + n mod 10 < 154" by linarith
    have "(16 * (n div 10) + n mod 10) mod 16 = n mod 10" "(16 * (n div 10) + n mod 10) div 16 = n div 10"
      using d by auto
    with d i show ?thesis by (simp add: bcd2bin_def bcd2bin_table rd_def del: of_nat_add of_nat_mult)
  qed
  have 2: "bin2bcd n = Some (of_nat (16 * (n div 10) + n mod 10))" if "n < 100" for n
    using that by (simp add: bin2bcd_def bin2bcd_table rd_def)
  have 3: "bcd2bin b = (if b < 0x9A then Some 0 else None)" if "9 < b mod 16" for b
    using that by (simp add: bcd2bin_def bcd2bin_table rd_def)
  from 1 2 3 show ?thesis by (auto simp: bin2bcd_def bin2bcd_table rd_def)
qed

theorem bcd_tables_witness:
  "bin2bcd 42 = Some 0x42 \<and> bcd2bin 0x42 = Some 42 \<and> bcd2bin 0x1B = Some 0 \<and> bcd2bin 0xFF = None \<and> bin2bcd 100 = None"
  using bcd_tables by (auto dest: spec [of _ 42] spec [of _ "0x1B"] spec [of _ "0xFF"] spec [of _ 100])

end
