(* ===== verification/Inet_Ntop.thy ===== *)
theory Inet_Ntop
  imports Libkern_Str
begin

text \<open>
  Printing addresses, \<^verbatim>\<open>libkern/inet_ntop.c\<close>. An address is its bytes in network order. A result
  \<open>Some s\<close> is the string written to the buffer, \<open>None\<close> the NULL the C code returns when the buffer
  is too small (or the pointer is NULL). \<^verbatim>\<open>snprintf\<close> prints \<^verbatim>\<open>%d\<close> of a byte as its decimal
  digits and \<^verbatim>\<open>%s\<close> as the string.
\<close>

section \<open>The code\<close>

definition MAX_IPv4_STR_LEN :: nat where "MAX_IPv4_STR_LEN = 16"
definition MAX_IPv6_STR_LEN :: nat where "MAX_IPv6_STR_LEN = 64"
definition AF_INET :: int where "AF_INET = 2"
definition AF_INET6 :: int where "AF_INET6 = 30"

definition hexchars :: string where
  "hexchars = ''0123456789abcdef''"

fun dec :: "nat \<Rightarrow> string" where
  "dec n = (if n < 10 then [hexchars ! n] else dec (n div 10) @ [hexchars ! (n mod 10)])"

declare dec.simps [simp del]

definition inet_ntop4 :: "u8 list \<Rightarrow> u32 \<Rightarrow> string option" where
  "inet_ntop4 ap len =
    (let tmp = dec (unat (ap ! 0)) @ ''.'' @ dec (unat (ap ! 1)) @ ''.''
               @ dec (unat (ap ! 2)) @ ''.'' @ dec (unat (ap ! 3))
     in if int (length tmp) \<ge> sint len then None else Some tmp)"

definition IN6_IS_ADDR_V4MAPPED :: "u8 list \<Rightarrow> bool" where
  "IN6_IS_ADDR_V4MAPPED a \<longleftrightarrow> take 8 a = replicate 8 0 \<and> take 4 (drop 8 a) = [0, 0, 0xff, 0xff]"

definition IN6_IS_ADDR_V4COMPAT :: "u8 list \<Rightarrow> bool" where
  "IN6_IS_ADDR_V4COMPAT a \<longleftrightarrow> take 12 a = replicate 12 0
    \<and> take 4 (drop 12 a) \<noteq> [0, 0, 0, 0] \<and> take 4 (drop 12 a) \<noteq> [0, 0, 0, 1]"

text \<open>One group of \<^verbatim>\<open>hexa\<close>: leading zero digits are skipped, the last digit never.\<close>

definition hex_group :: "u8 \<Rightarrow> u8 \<Rightarrow> string" where
  "hex_group b0 b1 =
    (let h0 = drop_bit 4 b0; h1 = b0 AND 0x0f; h2 = drop_bit 4 b1; h3 = b1 AND 0x0f;
         skip0 = (h0 = 0);
         skip1 = (skip0 \<and> h1 = 0)
     in (if skip0 then [] else [hexchars ! unat h0])
        @ (if skip1 then [] else [hexchars ! unat h1])
        @ (if skip1 \<and> h2 = 0 then [] else [hexchars ! unat h2])
        @ [hexchars ! unat h3])"

definition hexa :: "u8 list \<Rightarrow> string list" where
  "hexa a = map (\<lambda>k. hex_group (a ! (2 * k)) (a ! (2 * k + 1))) [0 ..< 8]"

definition zero_words :: "u8 list \<Rightarrow> bool list" where
  "zero_words a = map (\<lambda>k. a ! (2 * k) = 0 \<and> a ! (2 * k + 1) = 0) [0 ..< 8]"

text \<open>\<open>zr\<close>, filled from the last word down: how many zero words start here.\<close>

fun zero_runs :: "bool list \<Rightarrow> nat list" where
  "zero_runs [] = []"
| "zero_runs (z # zs) =
    (let r = zero_runs zs; j = (case r of [] \<Rightarrow> 0 | n # _ \<Rightarrow> n)
     in (if z then j + 1 else 0) # r)"

fun longest_run :: "nat \<Rightarrow> nat list \<Rightarrow> nat option \<Rightarrow> nat \<Rightarrow> nat option" where
  "longest_run i [] k j = k"
| "longest_run i (z # zs) k j =
    (if z > j then longest_run (i + 1) zs (Some i) z else longest_run (i + 1) zs k j)"

definition only_run :: "nat option \<Rightarrow> nat list \<Rightarrow> nat list" where
  "only_run k zr = map (\<lambda>i. if Some i \<noteq> k then 0 else zr ! i) [0 ..< 8]"

function text_loop :: "string list \<Rightarrow> nat list \<Rightarrow> nat \<Rightarrow> string" where
  "text_loop hx zr i =
    (if i < 8 then
       (if zr ! i \<noteq> 0
        then (if i = 0 then '':'' else '''') @ '':'' @ text_loop hx zr (i + (zr ! i - 1) + 1)
        else hx ! i @ (if i \<noteq> 7 then '':'' else '''') @ text_loop hx zr (i + 1))
     else '''')"
  by pat_completeness auto
termination
  by (relation "measure (\<lambda>(hx, zr, i). 8 - i)") auto

declare text_loop.simps [simp del]

definition inet_ntop6 :: "u8 list option \<Rightarrow> u32 \<Rightarrow> string option" where
  "inet_ntop6 addr sz =
    (case addr of
       None \<Rightarrow> None
     | Some a \<Rightarrow>
         if IN6_IS_ADDR_V4MAPPED a \<or> IN6_IS_ADDR_V4COMPAT a then
           (case inet_ntop4 (drop 12 a) 16 of
              None \<Rightarrow> None
            | Some tmp2 \<Rightarrow>
                (let tmp = ''::'' @ (if IN6_IS_ADDR_V4MAPPED a then ''ffff:'' else '''') @ tmp2
                 in if length tmp \<ge> unat sz then None else Some tmp))
         else
           (let zr = zero_runs (zero_words a);
                tmp = text_loop (hexa a) (only_run (longest_run 0 zr None 0) zr) 0
            in if length tmp + 1 > unat sz then None else Some tmp))"

definition inet_ntop :: "int \<Rightarrow> u8 list \<Rightarrow> u32 \<Rightarrow> string option" where
  "inet_ntop af addr len =
    (if af = AF_INET6 then inet_ntop6 (Some addr) len
     else if af = AF_INET then inet_ntop4 addr len
     else None)"

section \<open>Digits\<close>

lemma hexchars_table:
  "list_all (\<lambda>n. digit_of (of_char (hexchars ! n)) = Some (int n) \<and> hexchars ! n \<noteq> CHR '':'') [0 ..< 16]"
  by code_simp

lemma hexchar_digit:
  assumes "n < 16"
  shows "is_digit 16 (hexchars ! n)" "digit_val (hexchars ! n) = int n" "hexchars ! n \<noteq> CHR '':''"
    "n < 10 \<Longrightarrow> is_digit 10 (hexchars ! n)"
proof -
  have "digit_of (of_char (hexchars ! n)) = Some (int n)" "hexchars ! n \<noteq> CHR '':''"
    using hexchars_table assms by (auto simp: list_all_iff)
  then show "is_digit 16 (hexchars ! n)" "digit_val (hexchars ! n) = int n" "hexchars ! n \<noteq> CHR '':''"
    "n < 10 \<Longrightarrow> is_digit 10 (hexchars ! n)"
    using assms by (simp_all add: is_digit_def digit_val_def)
qed

lemma nibbles:
  "unat (drop_bit 4 b :: u8) = unat b div 16" "unat (b AND 0x0f :: u8) = unat b mod 16"
proof -
  have "b AND 0x0f = take_bit 4 b" by (simp add: take_bit_eq_mask mask_eq_exp_minus_1)
  then show "unat (b AND 0x0f) = unat b mod 16"
    by (simp only: unsigned_take_bit_eq) (simp add: take_bit_eq_mod)
  show "unat (drop_bit 4 b :: u8) = unat b div 16"
    by (simp only: unat_drop_bit_eq) (simp add: drop_bit_eq_div)
qed

lemma nibble_less: "unat (drop_bit 4 b :: u8) < 16" "unat (b AND 0x0f :: u8) < 16"
  using unat_u8_less [of b] by (auto simp: nibbles less_mult_imp_div_less)

text \<open>The number a hexadecimal string stands for.\<close>

definition hex_value :: "string \<Rightarrow> nat" where
  "hex_value s = nat (numeral_value 16 0 s)"

lemma numeral_value_snoc: "numeral_value b v (ds @ [d]) = numeral_value b v ds * b + digit_val d"
  by (simp add: numeral_value_def)

lemma hex_group_value: "hex_value (hex_group b0 b1) = 256 * unat b0 + unat b1"
proof -
  let ?h0 = "drop_bit 4 b0" and ?h1 = "b0 AND 0x0f" and ?h2 = "drop_bit 4 b1" and ?h3 = "b1 AND 0x0f"
  have "numeral_value 16 0 (hex_group b0 b1) = ((int (unat ?h0) * 16 + int (unat ?h1)) * 16 + int (unat ?h2)) * 16 + int (unat ?h3)"
    using nibble_less [of b0] nibble_less [of b1]
    by (simp add: hex_group_def Let_def numeral_value_def hexchar_digit(2))
  moreover have "unat b = unat (drop_bit 4 b) * 16 + unat (b AND 0x0f)" for b :: u8
    unfolding nibbles by simp
  then have "unat b0 = unat ?h0 * 16 + unat ?h1" "unat b1 = unat ?h2 * 16 + unat ?h3" by blast+
  ultimately have "numeral_value 16 0 (hex_group b0 b1) = int (256 * unat b0 + unat b1)"
    by (simp only: of_nat_add of_nat_mult of_nat_numeral) (simp add: algebra_simps)
  then show ?thesis by (simp only: hex_value_def nat_int)
qed

lemma hex_group_shape:
  "hex_group b0 b1 \<noteq> []" "length (hex_group b0 b1) \<le> 4" "\<forall>c \<in> set (hex_group b0 b1). c \<noteq> CHR '':''"
  "\<forall>c \<in> set (hex_group b0 b1). is_digit 16 c"
  using nibble_less [of b0] nibble_less [of b1]
  by (auto simp: hex_group_def Let_def hexchar_digit(1,3))

section \<open>The text of an IPv6 address\<close>

lemma length_zero_runs [simp]: "length (zero_runs zs) = length zs"
  by (induction zs) (auto simp: Let_def)

lemma zero_runs_nth:
  "zero_runs (z # zs) ! 0 = (if z then Suc (if zs = [] then 0 else zero_runs zs ! 0) else 0)"
  "zero_runs (z # zs) ! Suc k = zero_runs zs ! k"
  using length_zero_runs [of zs] by (auto simp: Let_def simp del: length_zero_runs split: list.splits)

lemma zero_runs_spec:
  "i < length zs \<Longrightarrow> i + zero_runs zs ! i \<le> length zs \<and> (\<forall>j < zero_runs zs ! i. zs ! (i + j))"
proof (induction zs arbitrary: i)
  case (Cons z zs)
  show ?case
  proof (cases i)
    case 0
    show ?thesis
    proof (cases "z \<and> zs \<noteq> []")
      case True
      with Cons.IH [of 0] 0 show ?thesis
        by (auto simp: zero_runs_nth nth_Cons' simp del: zero_runs.simps)
    next
      case False
      with 0 show ?thesis by (auto simp: zero_runs_nth simp del: zero_runs.simps)
    qed
  next
    case (Suc k)
    with Cons show ?thesis by (auto simp: zero_runs_nth simp del: zero_runs.simps)
  qed
qed simp

lemma longest_run_Some:
  "longest_run i zs k j = Some m \<Longrightarrow> k = Some m \<or> i \<le> m \<and> m < i + length zs \<and> 0 < zs ! (m - i)"
proof (induction zs arbitrary: i k j)
  case (Cons z zs)
  have "longest_run (i + 1) zs (if z > j then Some i else k) (if z > j then z else j) = Some m"
    using Cons.prems by (auto split: if_splits)
  from Cons.IH [OF this] show ?case
    by (auto split: if_splits simp: nth_Cons' Suc_le_eq)
qed simp

lemma split_on_join:
  "\<forall>g \<in> set gs. \<forall>c \<in> set g. \<not> P c \<Longrightarrow> P d \<Longrightarrow>
    split_on P (concat (map (\<lambda>g. g @ [d]) gs) @ rest) = gs @ split_on P rest"
proof (induction gs)
  case (Cons g gs)
  then show ?case
    using split_on_prefix [of g P d "concat (map (\<lambda>g. g @ [d]) gs) @ rest"] by simp
qed simp

text \<open>Groups with no run before the end.\<close>

lemma text_loop_tail:
  assumes "length hx = 8" "\<forall>g \<in> set hx. \<forall>c \<in> set g. c \<noteq> CHR '':''" "i < 8" "\<forall>j. i \<le> j \<and> j < 8 \<longrightarrow> zr ! j = 0"
  shows "split_on (\<lambda>c. c = CHR '':'') (text_loop hx zr i) = drop i hx"
  using assms(3,4)
proof (induction "8 - i" arbitrary: i rule: less_induct)
  case less
  have "hx ! i \<in> set hx" using assms(1) less.prems(1) by simp
  then have g: "\<forall>c \<in> set (hx ! i). c \<noteq> CHR '':''" using assms(2) by blast
  have d: "drop i hx = hx ! i # drop (i + 1) hx"
    using assms(1) less.prems(1) by (simp add: Cons_nth_drop_Suc)
  show ?case
  proof (cases "i = 7")
    case True
    have "text_loop hx zr 8 = []" by (simp add: text_loop.simps)
    then have "text_loop hx zr i = hx ! i" using less.prems True by (subst text_loop.simps) simp
    with g d True assms(1) show ?thesis by (simp add: split_on_none)
  next
    case False
    then have "split_on (\<lambda>c. c = CHR '':'') (text_loop hx zr (i + 1)) = drop (i + 1) hx"
      using less.prems by (intro less.hyps) auto
    with False less.prems g d split_on_prefix [of "hx ! i" "\<lambda>c. c = CHR '':''" "CHR '':''" "text_loop hx zr (i + 1)"]
    show ?thesis by (subst text_loop.simps) simp
  qed
qed

text \<open>The groups in front of position \<open>k\<close>.\<close>

lemma text_loop_front:
  assumes "length hx = 8" "k < 8" "i \<le> k" "\<forall>j. i \<le> j \<and> j < k \<longrightarrow> zr ! j = 0"
  shows "text_loop hx zr i = concat (map (\<lambda>g. g @ '':'') (take (k - i) (drop i hx))) @ text_loop hx zr k"
  using assms(3,4)
proof (induction "k - i" arbitrary: i rule: less_induct)
  case less
  show ?case
  proof (cases "i = k")
    case False
    with less.prems have i: "i < k" "i < 8" "i \<noteq> 7" "zr ! i = 0" using assms(2) by auto
    have "text_loop hx zr (i + 1) = concat (map (\<lambda>g. g @ '':'') (take (k - (i + 1)) (drop (i + 1) hx))) @ text_loop hx zr k"
      using less.prems i by (intro less.hyps) auto
    moreover have "take (k - i) (drop i hx) = hx ! i # take (k - (i + 1)) (drop (i + 1) hx)"
      using i assms(1) by (simp add: Cons_nth_drop_Suc [symmetric] take_Cons' )
    ultimately show ?thesis
      using i by (subst text_loop.simps) simp
  qed simp
qed

lemma text_loop_run:
  assumes hx: "length hx = 8"
    and k: "k < 8" "0 < n" "k + n \<le> 8" and zr: "zr ! k = n" "\<forall>j < 8. j \<noteq> k \<longrightarrow> zr ! j = 0"
  shows "text_loop hx zr 0 =
    concat (map (\<lambda>g. g @ '':'') (take k hx)) @ (if k = 0 then '':'' else '''') @ '':'' @ text_loop hx zr (k + n)"
proof -
  have "text_loop hx zr k = (if k = 0 then '':'' else '''') @ '':'' @ text_loop hx zr (k + n)"
    using k zr(1) by (subst text_loop.simps) simp
  moreover have "text_loop hx zr 0 = concat (map (\<lambda>g. g @ '':'') (take k hx)) @ text_loop hx zr k"
    using text_loop_front [OF hx k(1), of 0 zr] k(1) zr(2) by simp
  ultimately show ?thesis by simp
qed

section \<open>Reading an address back\<close>

text \<open>
  A reference reader with the rules of RFC 4291: groups of one to four hexadecimal digits between single
  colons, eight of them, or fewer with one double colon that stands for at least one group of
  zeros. Everything else is no address: a colon at either end, a second double colon, an
  empty group.
\<close>

fun cut_gap :: "string \<Rightarrow> (string \<times> string) option" where
  "cut_gap (c # d # cs) =
     (if c = CHR '':'' \<and> d = CHR '':'' then Some ('''', cs)
      else map_option (\<lambda>(a, b). (c # a, b)) (cut_gap (d # cs)))"
| "cut_gap s = None"

definition hex_word :: "string \<Rightarrow> nat option" where
  "hex_word g = (if g \<noteq> '''' \<and> length g \<le> 4 \<and> list_all (is_digit 16) g then Some (hex_value g) else None)"

definition read_words :: "string \<Rightarrow> nat list option" where
  "read_words s = (if s = '''' then Some [] else those (map hex_word (split_on (\<lambda>c. c = CHR '':'') s)))"

definition read6 :: "string \<Rightarrow> nat list option" where
  "read6 s =
    (case cut_gap s of
       None \<Rightarrow>
         (case read_words s of
            Some ws \<Rightarrow> if length ws = 8 then Some ws else None
          | None \<Rightarrow> None)
     | Some (a, b) \<Rightarrow>
         (case (read_words a, read_words b) of
            (Some l, Some r) \<Rightarrow>
              if length l + length r < 8 then Some (l @ replicate (8 - length l - length r) 0 @ r) else None
          | _ \<Rightarrow> None))"

lemma is_digit_code [code]:
  "is_digit b c = (case digit_of (of_char c) of None \<Rightarrow> False | Some d \<Rightarrow> d < b)"
  by (auto simp: is_digit_def split: option.split)

text \<open>The reader on texts that are no addresses, and on the two shortest that are.\<close>

lemma read6_strict:
  "read6 '':1'' = None" "read6 ''1:'' = None" "read6 ''1:::2'' = None" "read6 ''1::2::3'' = None" "read6 ''1:2'' = None"
  "read6 ''::'' = Some [0, 0, 0, 0, 0, 0, 0, 0]" "read6 ''::1'' = Some [0, 0, 0, 0, 0, 0, 0, 1]"
  by code_simp+

text \<open>Without an empty piece inside there is no double colon.\<close>

lemma cut_gap_None:
  "(\<forall>t \<in> set (butlast (tl (split_on (\<lambda>c. c = CHR '':'') s))). t \<noteq> []) \<Longrightarrow> cut_gap s = None"
proof (induction s rule: cut_gap.induct)
  case (1 c d cs)
  let ?S = "split_on (\<lambda>c. c = CHR '':'')"
  obtain t ts where t: "?S (d # cs) = t # ts" using split_on_ne [of "\<lambda>c. c = CHR '':''" "d # cs"] by (cases "?S (d # cs)") auto
  have no: "\<not> (c = CHR '':'' \<and> d = CHR '':'')" using "1.prems" by auto
  have "set (butlast ts) \<subseteq> set (butlast (tl (?S (c # d # cs))))"
    using t by (cases "c = CHR '':''") auto
  then have "cut_gap (d # cs) = None" using "1.prems" t by (intro "1.IH" [OF no]) auto
  then show ?case using no by simp
qed simp_all

lemma cut_gap_at: "cut_gap (p @ '':'') = None \<Longrightarrow> cut_gap (p @ ''::'' @ b) = Some (p, b)"
proof (induction p)
  case (Cons c p)
  obtain d q where d: "p @ [CHR '':''] = d # q" by (cases "p @ [CHR '':'']") auto
  then have d': "p @ CHR '':'' # CHR '':'' # b = d # q @ CHR '':'' # b" by (cases p) auto
  have no: "\<not> (c = CHR '':'' \<and> d = CHR '':'')" "cut_gap (p @ '':'') = None" using Cons.prems d by (auto split: if_splits)
  have e: "(c # p) @ ''::'' @ b = c # d # (q @ CHR '':'' # b)" using d' by simp
  have "cut_gap (d # (q @ CHR '':'' # b)) = Some (p, b)" using Cons.IH [OF no(2)] d' by simp
  then show ?case unfolding e using no(1) by simp
qed simp

lemma those_Some: "(\<And>g. g \<in> set gs \<Longrightarrow> f g = Some (h g)) \<Longrightarrow> those (map f gs) = Some (map h gs)"
  by (induction gs) auto

lemma read_words_groups:
  assumes "split_on (\<lambda>c. c = CHR '':'') s = gs" "\<And>g. g \<in> set gs \<Longrightarrow> hex_word g = Some (hex_value g)"
  shows "read_words s = Some (map hex_value gs)"
proof -
  have "s \<noteq> ''''" using assms by (auto simp: hex_word_def)
  then show ?thesis using assms those_Some [of gs hex_word hex_value] by (simp add: read_words_def)
qed

definition addr_words :: "u8 list \<Rightarrow> nat list" where
  "addr_words a = map (\<lambda>k. 256 * unat (a ! (2 * k)) + unat (a ! (2 * k + 1))) [0 ..< 8]"

lemma hexa_facts:
  "length (hexa a) = 8" "\<forall>g \<in> set (hexa a). g \<noteq> [] \<and> length g \<le> 4 \<and> (\<forall>c \<in> set g. c \<noteq> CHR '':'')"
  "map hex_value (hexa a) = addr_words a"
  using hex_group_shape(1-3) by (auto simp: hexa_def addr_words_def hex_group_value)

lemma hexa_words:
  assumes "g \<in> set (hexa a)"
  shows "hex_word g = Some (hex_value g)"
proof -
  obtain b0 b1 where "g = hex_group b0 b1" using assms by (auto simp: hexa_def)
  then show ?thesis using hex_group_shape [of b0 b1] by (simp add: hex_word_def list_all_iff)
qed

text \<open>The part in front of the gap, without its last colon.\<close>

lemma front_pieces:
  assumes "L \<noteq> []" and L: "\<forall>g \<in> set L. g \<noteq> [] \<and> (\<forall>c \<in> set g. c \<noteq> CHR '':'')"
  obtains p where "concat (map (\<lambda>g. g @ '':'') L) = p @ '':''" "split_on (\<lambda>c. c = CHR '':'') p = L" "cut_gap (p @ '':'') = None"
proof
  let ?p = "concat (map (\<lambda>g. g @ '':'') (butlast L)) @ last L"
  have LL: "butlast L @ [last L] = L" using assms(1) by simp
  have b: "\<forall>g \<in> set (butlast L). \<forall>c \<in> set g. c \<noteq> CHR '':''" "\<forall>c \<in> set (last L). c \<noteq> CHR '':''"
    using L in_set_butlastD [of _ L] last_in_set [OF assms(1)] by blast+
  show eq: "concat (map (\<lambda>g. g @ '':'') L) = ?p @ '':''"
    using arg_cong [OF LL, of "\<lambda>L. concat (map (\<lambda>g. g @ '':'') L)"] by simp
  have "split_on (\<lambda>c. c = CHR '':'') ?p = butlast L @ split_on (\<lambda>c. c = CHR '':'') (last L)"
    using split_on_join [of "butlast L" "\<lambda>c. c = CHR '':''" "CHR '':''" "last L"] b(1) by simp
  then show "split_on (\<lambda>c. c = CHR '':'') ?p = L" using b(2) LL by (simp add: split_on_none)
  have "split_on (\<lambda>c. c = CHR '':'') (?p @ '':'') = L @ [[]]"
    using split_on_join [of L "\<lambda>c. c = CHR '':''" "CHR '':''" "[]"] L eq by simp
  then have "butlast (tl (split_on (\<lambda>c. c = CHR '':'') (?p @ '':''))) = tl L" using assms(1) by (cases L) auto
  moreover have "\<forall>g \<in> set (tl L). g \<noteq> []" using L assms(1) by (cases L) auto
  ultimately show "cut_gap (?p @ '':'') = None" by (intro cut_gap_None) simp
qed

lemma read6_text:
  assumes "zr = only_run (longest_run 0 (zero_runs (zero_words a)) None 0) (zero_runs (zero_words a))"
  shows "read6 (text_loop (hexa a) zr 0) = Some (addr_words a)"
proof (cases "longest_run 0 (zero_runs (zero_words a)) None 0")
  case None
  then have "\<forall>j < 8. zr ! j = 0" by (simp add: assms only_run_def)
  then have sp: "split_on (\<lambda>c. c = CHR '':'') (text_loop (hexa a) zr 0) = hexa a"
    using text_loop_tail [of "hexa a" 0 zr] hexa_facts(1,2) [of a] by simp
  have "t \<noteq> []" if "t \<in> set (butlast (tl (hexa a)))" for t
    using hexa_facts(2) [of a] in_set_butlastD [OF that] by (cases "hexa a") auto
  then have "cut_gap (text_loop (hexa a) zr 0) = None" using sp by (intro cut_gap_None) simp
  then show ?thesis using read_words_groups [OF sp hexa_words] hexa_facts(1) [of a] by (simp add: read6_def flip: hexa_facts(3))
next
  case (Some k)
  let ?zs = "zero_words a" and ?hx = "hexa a"
  have lz: "length ?zs = 8" by (simp add: zero_words_def)
  have k: "k < 8" "0 < zero_runs ?zs ! k"
    using longest_run_Some [OF Some] by (auto simp: lz)
  define n where "n = zero_runs ?zs ! k"
  have n: "0 < n" "k + n \<le> 8" "\<forall>j < n. ?zs ! (k + j)"
    using zero_runs_spec [of k ?zs] k by (auto simp: n_def lz)
  have zr: "zr ! k = n" "\<forall>j < 8. j \<noteq> k \<longrightarrow> zr ! j = 0"
    using k Some by (simp_all add: assms only_run_def n_def)
  let ?tail = "text_loop ?hx zr (k + n)"
  have tail: "read_words ?tail = Some (map hex_value (drop (k + n) ?hx))"
  proof (cases "k + n = 8")
    case True
    then show ?thesis using hexa_facts(1) [of a] by (simp add: text_loop.simps read_words_def)
  next
    case False
    then have "split_on (\<lambda>c. c = CHR '':'') ?tail = drop (k + n) ?hx"
      using text_loop_tail [of ?hx "k + n" zr] hexa_facts(1,2) [of a] n zr by auto
    then show ?thesis by (rule read_words_groups) (auto intro: hexa_words dest: in_set_dropD)
  qed
  have front: "\<exists>p. text_loop ?hx zr 0 = p @ ''::'' @ ?tail \<and> cut_gap (p @ '':'') = None \<and> read_words p = Some (map hex_value (take k ?hx))"
  proof (cases "k = 0")
    case True
    then show ?thesis using text_loop_run [OF hexa_facts(1) k(1) n(1,2) zr] by (simp add: read_words_def)
  next
    case False
    have ne: "take k ?hx \<noteq> []" using False hexa_facts(1) [of a] by auto
    have "\<forall>g \<in> set (take k ?hx). g \<noteq> [] \<and> (\<forall>c \<in> set g. c \<noteq> CHR '':'')"
      using hexa_facts(2) [of a] by (auto dest: in_set_takeD)
    from front_pieces [OF ne this] obtain p where p: "concat (map (\<lambda>g. g @ '':'') (take k ?hx)) = p @ '':''"
      "split_on (\<lambda>c. c = CHR '':'') p = take k ?hx" "cut_gap (p @ '':'') = None" .
    have "read_words p = Some (map hex_value (take k ?hx))"
      by (rule read_words_groups [OF p(2)]) (auto intro: hexa_words dest: in_set_takeD)
    then show ?thesis using text_loop_run [OF hexa_facts(1) k(1) n(1,2) zr] p(1,3) False by (intro exI [of _ p]) simp
  qed
  then obtain p where p: "text_loop ?hx zr 0 = p @ ''::'' @ ?tail" "cut_gap (p @ '':'') = None"
    "read_words p = Some (map hex_value (take k ?hx))" by blast
  have "read6 (text_loop ?hx zr 0) = Some (map hex_value (take k ?hx) @ replicate n 0 @ map hex_value (drop (k + n) ?hx))"
    unfolding read6_def p(1) cut_gap_at [OF p(2)] using p(3) tail k n by (simp add: hexa_facts(1))
  also have "map hex_value (take k ?hx) @ replicate n 0 @ map hex_value (drop (k + n) ?hx) = addr_words a"
  proof (rule nth_equalityI)
    fix i assume "i < length (map hex_value (take k ?hx) @ replicate n 0 @ map hex_value (drop (k + n) ?hx))"
    then have i: "i < 8" using k n by (simp add: hexa_facts(1))
    have z: "addr_words a ! (k + j) = 0" if "j < n" for j
      using n that by (auto simp: zero_words_def addr_words_def)
    have h: "hex_value (?hx ! i) = addr_words a ! i" using i hexa_facts(1,3) [of a] by (metis nth_map)
    show "(map hex_value (take k ?hx) @ replicate n 0 @ map hex_value (drop (k + n) ?hx)) ! i = addr_words a ! i"
      using i k n h z [of "i - k"] by (auto simp: nth_append hexa_facts(1))
  qed (use k n in \<open>simp add: hexa_facts(1) addr_words_def\<close>)
  finally show ?thesis .
qed

lemma text_loop_length:
  assumes "\<forall>g \<in> set hx. length g \<le> 4" "length hx = 8"
  shows "length (text_loop hx zr i) \<le> 5 * (8 - i)"
proof (induction "8 - i" arbitrary: i rule: less_induct)
  case less
  show ?case
  proof (cases "i < 8")
    case True
    then have g: "length (hx ! i) \<le> 4" using assms nth_mem [of i hx] by auto
    have "length (text_loop hx zr (i + Suc d)) \<le> 5 * (8 - (i + Suc d))" for d
      using True by (intro less.hyps) auto
    from this [of 0] this [of "zr ! i - 1"] True g show ?thesis
      by (subst text_loop.simps) auto
  qed (simp add: text_loop.simps)
qed

section \<open>Decimal numbers\<close>

lemma dec_spec:
  "n < 1000 \<Longrightarrow> dec n \<noteq> [] \<and> length (dec n) \<le> (if n < 10 then 1 else if n < 100 then 2 else 3)
    \<and> numeral_value 10 0 (dec n) = int n \<and> (\<forall>c \<in> set (dec n). c \<noteq> CHR ''.'')"
proof (induction n rule: less_induct)
  case (less n)
  have dot: "hexchars ! k \<noteq> CHR ''.''" if "k < 10" for k
    using hexchar_digit(4) [of k] that
    by (auto simp: is_digit_def digit_of_def isdigit_def isalpha_def)
  show ?case
  proof (cases "n < 10")
    case True
    with dot [of n] hexchar_digit(2) [of n] show ?thesis
      by (subst (1 2 3 4) dec.simps) (simp add: numeral_value_def)
  next
    case False
    then have smaller: "n div 10 < n" "n div 10 < 1000" using less.prems by auto
    have IH: "dec (n div 10) \<noteq> [] \<and> length (dec (n div 10)) \<le> (if n div 10 < 10 then 1 else if n div 10 < 100 then 2 else 3)
        \<and> numeral_value 10 0 (dec (n div 10)) = int (n div 10) \<and> (\<forall>c \<in> set (dec (n div 10)). c \<noteq> CHR ''.'')"
      by (rule less.IH [OF smaller])
    have step: "dec n = dec (n div 10) @ [hexchars ! (n mod 10)]"
      using False by (subst dec.simps) simp
    have val: "int (n div 10) * 10 + int (n mod 10) = int n" by presburger
    have m: "n mod 10 < 10" "n mod 10 < 16" by auto
    have "length (dec (n div 10)) \<le> (if n < 100 then 1 else 2)"
    proof (cases "n < 100")
      case True
      then have "n div 10 < 10" by auto
      with IH True show ?thesis by simp
    next
      case False
      with less.prems have "\<not> n div 10 < 10" "n div 10 < 100" by auto
      with IH False show ?thesis by simp
    qed
    then have len: "length (dec n) \<le> (if n < 10 then 1 else if n < 100 then 2 else 3)"
      using False by (simp add: step split: if_splits)
    have "numeral_value 10 0 (dec n) = int n"
      unfolding step numeral_value_snoc hexchar_digit(2) [OF m(2)] using IH val by simp
    moreover have "\<forall>c \<in> set (dec n). c \<noteq> CHR ''.''"
      using IH dot [OF m(1)] unfolding step by simp
    ultimately show ?thesis using len step by simp
  qed
qed

section \<open>Properties\<close>

text \<open>C22: the text of an IPv6 address tells the address. For every address outside the IPv4-mapped and
  IPv4-compatible ranges, a buffer of 41 bytes is enough, and the text, read by the rules of
  RFC 4291 (which refuse a single colon at either end), gives the eight words of the address.\<close>

theorem inet_ntop6_readable:
  assumes "\<not> IN6_IS_ADDR_V4MAPPED a" and "\<not> IN6_IS_ADDR_V4COMPAT a" and "41 \<le> unat sz"
  shows "\<exists>s. inet_ntop6 (Some a) sz = Some s \<and> length s < MAX_IPv6_STR_LEN \<and> read6 s = Some (addr_words a)"
proof -
  let ?zr = "zero_runs (zero_words a)"
  let ?s = "text_loop (hexa a) (only_run (longest_run 0 ?zr None 0) ?zr) 0"
  have "length ?s \<le> 40"
    using text_loop_length [of "hexa a" _ 0] hexa_facts [of a] by auto
  with assms show ?thesis
    by (intro exI [of _ ?s]) (simp add: inet_ntop6_def Let_def read6_text MAX_IPv6_STR_LEN_def)
qed

theorem inet_ntop6_readable_witness:
  "\<exists>s. inet_ntop6 (Some [0x20, 1, 0xd, 0xb8, 0, 0, 0, 0, 0, 1, 0, 0, 0, 0, 0, 1]) 46 = Some s
    \<and> length s < MAX_IPv6_STR_LEN \<and> read6 s = Some (addr_words [0x20, 1, 0xd, 0xb8, 0, 0, 0, 0, 0, 1, 0, 0, 0, 0, 0, 1])"
  by (rule inet_ntop6_readable) (simp_all add: IN6_IS_ADDR_V4MAPPED_def IN6_IS_ADDR_V4COMPAT_def)

text \<open>An IPv4 address always fits into \<open>MAX_IPv4_STR_LEN\<close> bytes, and its text is its four bytes in
  decimal.\<close>

theorem inet_ntop4_readable:
  assumes "16 \<le> sint len"
  shows "\<exists>s. inet_ntop4 ap len = Some s \<and> length s < MAX_IPv4_STR_LEN
    \<and> map (numeral_value 10 0) (split_on (\<lambda>c. c = CHR ''.'') s)
        = [int (unat (ap ! 0)), int (unat (ap ! 1)), int (unat (ap ! 2)), int (unat (ap ! 3))]"
proof -
  let ?d = "\<lambda>i. dec (unat (ap ! i))"
  let ?s = "?d 0 @ ''.'' @ ?d 1 @ ''.'' @ ?d 2 @ ''.'' @ ?d 3"
  have d: "length (?d i) \<le> 3 \<and> numeral_value 10 0 (?d i) = int (unat (ap ! i)) \<and> (\<forall>c \<in> set (?d i). c \<noteq> CHR ''.'')" for i
  proof -
    have "unat (ap ! i) < 1000" using unat_u8_less [of "ap ! i"] by linarith
    from dec_spec [OF this] show ?thesis by (auto split: if_splits)
  qed
  have cut: "split_on (\<lambda>c. c = CHR ''.'') (?d i @ CHR ''.'' # rest) = ?d i # split_on (\<lambda>c. c = CHR ''.'') rest" for i rest
    using split_on_prefix [of "?d i" "\<lambda>c. c = CHR ''.''" "CHR ''.''" rest] d [of i] by simp
  have "split_on (\<lambda>c. c = CHR ''.'') ?s = [?d 0, ?d 1, ?d 2, ?d 3]"
    using split_on_none [of "?d 3" "\<lambda>c. c = CHR ''.''"] d [of 3] cut by simp
  moreover have "length ?s \<le> 15" using d [of 0] d [of 1] d [of 2] d [of 3] by simp
  ultimately show ?thesis
    using assms d by (intro exI [of _ ?s]) (simp add: inet_ntop4_def Let_def MAX_IPv4_STR_LEN_def)
qed

theorem inet_ntop4_readable_witness:
  "\<exists>s. inet_ntop4 [192, 168, 0, 1] 16 = Some s \<and> length s < MAX_IPv4_STR_LEN
    \<and> map (numeral_value 10 0) (split_on (\<lambda>c. c = CHR ''.'') s)
        = [int (unat ([192, 168, 0, 1] ! 0 :: u8)), int (unat ([192, 168, 0, 1] ! 1 :: u8)),
           int (unat ([192, 168, 0, 1] ! 2 :: u8)), int (unat ([192, 168, 0, 1] ! 3 :: u8))]"
  by (rule inet_ntop4_readable) simp

text \<open>Whatever the family and the buffer length, a string that is returned fits into the buffer
  together with its NUL.\<close>

theorem inet_ntop_fits:
  assumes "inet_ntop af addr len = Some s"
  shows "length s + 1 \<le> unat len"
proof -
  have v4: "length t + 1 \<le> unat n" if "inet_ntop4 ap n = Some t" for ap n t
  proof -
    have "int (length t) < sint n" using that by (auto simp: inet_ntop4_def Let_def split: if_splits)
    then have "0 \<le> sint n" by linarith
    moreover have "sint n < 2 ^ 31" using sint_less [of n] by simp
    ultimately have "uint n = sint n" by (simp add: uint_sint take_bit_int_eq_self)
    moreover have "uint n = int (unat n)" by simp
    ultimately show ?thesis using \<open>int (length t) < sint n\<close> by linarith
  qed
  show ?thesis
    using assms v4 [of addr len s]
    by (auto simp: inet_ntop_def inet_ntop6_def Let_def split: if_splits option.splits)
qed

theorem inet_ntop_fits_witness: "length ''1.2.3.4'' + 1 \<le> unat (8 + 1 :: u32)"
proof (rule inet_ntop_fits)
  show "inet_ntop AF_INET [1, 2, 3, 4] (8 + 1) = Some ''1.2.3.4''"
    by (simp add: inet_ntop_def AF_INET_def AF_INET6_def inet_ntop4_def dec.simps hexchars_def)
qed

end
