(* ===== verification/Crc32.thy ===== *)
theory Crc32
  imports Prelude
begin

text \<open>
  The CRC-32 of \<^verbatim>\<open>libkern/crc32.c\<close>: the table-driven routine, a bitwise reference, and what the
  checksum promises to a user who feeds it a buffer in pieces or wants errors detected.
\<close>

section \<open>The code\<close>

definition crc32_tab :: "u32 list" where
  "crc32_tab =
    [0x00000000, 0x77073096, 0xee0e612c, 0x990951ba, 0x076dc419, 0x706af48f,
     0xe963a535, 0x9e6495a3, 0x0edb8832, 0x79dcb8a4, 0xe0d5e91e, 0x97d2d988,
     0x09b64c2b, 0x7eb17cbd, 0xe7b82d07, 0x90bf1d91, 0x1db71064, 0x6ab020f2,
     0xf3b97148, 0x84be41de, 0x1adad47d, 0x6ddde4eb, 0xf4d4b551, 0x83d385c7,
     0x136c9856, 0x646ba8c0, 0xfd62f97a, 0x8a65c9ec, 0x14015c4f, 0x63066cd9,
     0xfa0f3d63, 0x8d080df5, 0x3b6e20c8, 0x4c69105e, 0xd56041e4, 0xa2677172,
     0x3c03e4d1, 0x4b04d447, 0xd20d85fd, 0xa50ab56b, 0x35b5a8fa, 0x42b2986c,
     0xdbbbc9d6, 0xacbcf940, 0x32d86ce3, 0x45df5c75, 0xdcd60dcf, 0xabd13d59,
     0x26d930ac, 0x51de003a, 0xc8d75180, 0xbfd06116, 0x21b4f4b5, 0x56b3c423,
     0xcfba9599, 0xb8bda50f, 0x2802b89e, 0x5f058808, 0xc60cd9b2, 0xb10be924,
     0x2f6f7c87, 0x58684c11, 0xc1611dab, 0xb6662d3d, 0x76dc4190, 0x01db7106,
     0x98d220bc, 0xefd5102a, 0x71b18589, 0x06b6b51f, 0x9fbfe4a5, 0xe8b8d433,
     0x7807c9a2, 0x0f00f934, 0x9609a88e, 0xe10e9818, 0x7f6a0dbb, 0x086d3d2d,
     0x91646c97, 0xe6635c01, 0x6b6b51f4, 0x1c6c6162, 0x856530d8, 0xf262004e,
     0x6c0695ed, 0x1b01a57b, 0x8208f4c1, 0xf50fc457, 0x65b0d9c6, 0x12b7e950,
     0x8bbeb8ea, 0xfcb9887c, 0x62dd1ddf, 0x15da2d49, 0x8cd37cf3, 0xfbd44c65,
     0x4db26158, 0x3ab551ce, 0xa3bc0074, 0xd4bb30e2, 0x4adfa541, 0x3dd895d7,
     0xa4d1c46d, 0xd3d6f4fb, 0x4369e96a, 0x346ed9fc, 0xad678846, 0xda60b8d0,
     0x44042d73, 0x33031de5, 0xaa0a4c5f, 0xdd0d7cc9, 0x5005713c, 0x270241aa,
     0xbe0b1010, 0xc90c2086, 0x5768b525, 0x206f85b3, 0xb966d409, 0xce61e49f,
     0x5edef90e, 0x29d9c998, 0xb0d09822, 0xc7d7a8b4, 0x59b33d17, 0x2eb40d81,
     0xb7bd5c3b, 0xc0ba6cad, 0xedb88320, 0x9abfb3b6, 0x03b6e20c, 0x74b1d29a,
     0xead54739, 0x9dd277af, 0x04db2615, 0x73dc1683, 0xe3630b12, 0x94643b84,
     0x0d6d6a3e, 0x7a6a5aa8, 0xe40ecf0b, 0x9309ff9d, 0x0a00ae27, 0x7d079eb1,
     0xf00f9344, 0x8708a3d2, 0x1e01f268, 0x6906c2fe, 0xf762575d, 0x806567cb,
     0x196c3671, 0x6e6b06e7, 0xfed41b76, 0x89d32be0, 0x10da7a5a, 0x67dd4acc,
     0xf9b9df6f, 0x8ebeeff9, 0x17b7be43, 0x60b08ed5, 0xd6d6a3e8, 0xa1d1937e,
     0x38d8c2c4, 0x4fdff252, 0xd1bb67f1, 0xa6bc5767, 0x3fb506dd, 0x48b2364b,
     0xd80d2bda, 0xaf0a1b4c, 0x36034af6, 0x41047a60, 0xdf60efc3, 0xa867df55,
     0x316e8eef, 0x4669be79, 0xcb61b38c, 0xbc66831a, 0x256fd2a0, 0x5268e236,
     0xcc0c7795, 0xbb0b4703, 0x220216b9, 0x5505262f, 0xc5ba3bbe, 0xb2bd0b28,
     0x2bb45a92, 0x5cb36a04, 0xc2d7ffa7, 0xb5d0cf31, 0x2cd99e8b, 0x5bdeae1d,
     0x9b64c2b0, 0xec63f226, 0x756aa39c, 0x026d930a, 0x9c0906a9, 0xeb0e363f,
     0x72076785, 0x05005713, 0x95bf4a82, 0xe2b87a14, 0x7bb12bae, 0x0cb61b38,
     0x92d28e9b, 0xe5d5be0d, 0x7cdcefb7, 0x0bdbdf21, 0x86d3d2d4, 0xf1d4e242,
     0x68ddb3f8, 0x1fda836e, 0x81be16cd, 0xf6b9265b, 0x6fb077e1, 0x18b74777,
     0x88085ae6, 0xff0f6a70, 0x66063bca, 0x11010b5c, 0x8f659eff, 0xf862ae69,
     0x616bffd3, 0x166ccf45, 0xa00ae278, 0xd70dd2ee, 0x4e048354, 0x3903b3c2,
     0xa7672661, 0xd06016f7, 0x4969474d, 0x3e6e77db, 0xaed16a4a, 0xd9d65adc,
     0x40df0b66, 0x37d83bf0, 0xa9bcae53, 0xdebb9ec5, 0x47b2cf7f, 0x30b5ffe9,
     0xbdbdf21c, 0xcabac28a, 0x53b39330, 0x24b4a3a6, 0xbad03605, 0xcdd70693,
     0x54de5729, 0x23d967bf, 0xb3667a2e, 0xc4614ab8, 0x5d681b02, 0x2a6f2b94,
     0xb40bbe37, 0xc30c8ea1, 0x5a05df1b, 0x2d02ef8d]"

definition crc32_update :: "u32 \<Rightarrow> u8 \<Rightarrow> u32" where
  "crc32_update crc p = (crc32_tab ! unat ((crc XOR ucast p) AND 0xFF)) XOR drop_bit 8 crc"

text \<open>\<open>size\<close> bytes are read from \<open>buf\<close>; \<open>None\<close> when there are fewer.\<close>

definition crc32 :: "u32 \<Rightarrow> u8 list \<Rightarrow> nat \<Rightarrow> u32 option" where
  "crc32 crc buf n =
    (if length buf < n then None
     else Some (foldl crc32_update (crc XOR NOT 0) (take n buf) XOR NOT 0))"

section \<open>The polynomial, bit by bit\<close>

definition crc_step :: "u32 \<Rightarrow> u32" where
  "crc_step c = drop_bit 1 c XOR (if bit c 0 then 0xEDB88320 else 0)"

definition crc_byte :: "u32 \<Rightarrow> u32" where
  "crc_byte c = (crc_step ^^ 8) c"

lemma crc_step_xor: "crc_step (a XOR b) = crc_step a XOR crc_step b"
  by (rule bit_word_eqI) (auto simp: crc_step_def bit_simps)

lemma crc_byte_xor: "crc_byte (a XOR b) = crc_byte a XOR crc_byte b"
proof -
  have "(crc_step ^^ n) (a XOR b) = (crc_step ^^ n) a XOR (crc_step ^^ n) b" for n
    by (induction n) (simp_all add: crc_step_xor)
  then show ?thesis by (simp add: crc_byte_def)
qed

lemma crc_step_zeros: "\<forall>i < n. \<not> bit c i \<Longrightarrow> (crc_step ^^ n) c = drop_bit n c"
proof (induction n arbitrary: c)
  case (Suc n)
  then have "crc_step c = drop_bit 1 c" by (simp add: crc_step_def)
  moreover have "\<forall>i < n. \<not> bit (drop_bit 1 c) i" using Suc.prems by (auto simp: bit_simps)
  ultimately show ?case
    using Suc.IH [of "drop_bit 1 c"] by (simp add: funpow_Suc_right del: funpow.simps)
qed simp

text \<open>Every entry of the table is eight bit steps on its index. The step is linear, so the entries
  for \<open>2 ^ k\<close> more follow from those below by one exclusive or with the entry of \<open>2 ^ k\<close>.\<close>

definition byte_table :: "nat \<Rightarrow> u32 list" where
  "byte_table k = map (\<lambda>i. crc_byte (of_nat i)) [0 ..< 2 ^ k]"

lemma of_nat_high_bit:
  assumes "i < 2 ^ k" shows "(of_nat (2 ^ k + i) :: u32) = of_nat i XOR 2 ^ k"
proof -
  have "take_bit k i = i" using assms by (simp add: take_bit_nat_eq_self)
  then have "\<not> bit i k" by (metis bit_take_bit_iff less_irrefl)
  then have "(of_nat i :: u32) AND 2 ^ k = 0"
    by (intro bit_word_eqI) (auto simp: bit_simps)
  then have "(of_nat i :: u32) + 2 ^ k = of_nat i XOR 2 ^ k" by (rule disjunctive_add_eq_xor)
  then show ?thesis by (simp add: add.commute)
qed

lemma byte_table_Suc:
  "byte_table (Suc k) = byte_table k @ map (\<lambda>w. w XOR crc_byte (2 ^ k)) (byte_table k)"
proof -
  have "[0 ..< 2 ^ Suc k] = [0 ..< 2 ^ k] @ map (\<lambda>i. 2 ^ k + i) [0 ..< 2 ^ k]"
    using upt_add_eq_append [of 0 "2 ^ k" "2 ^ k"] map_add_upt [of "2 ^ k" "2 ^ k"]
    by (simp add: mult_2 add.commute)
  moreover have "crc_byte (of_nat (2 ^ k + i)) = crc_byte (of_nat i) XOR crc_byte (2 ^ k)" if "i < 2 ^ k" for i
    by (simp only: of_nat_high_bit [OF that] crc_byte_xor)
  ultimately show ?thesis by (simp add: byte_table_def comp_def del: of_nat_add)
qed

lemma crc_byte_unfold:
  "crc_byte c = crc_step (crc_step (crc_step (crc_step (crc_step (crc_step (crc_step (crc_step c)))))))"
  by (simp add: crc_byte_def eval_nat_numeral)

lemma crc_byte_powers:
  "crc_byte 0 = 0" "crc_byte 1 = 0x77073096" "crc_byte 2 = 0xee0e612c" "crc_byte 4 = 0x076dc419" "crc_byte 8 = 0x0edb8832"
  "crc_byte 16 = 0x1db71064" "crc_byte 32 = 0x3b6e20c8" "crc_byte 64 = 0x76dc4190" "crc_byte 128 = 0xedb88320"
  by (simp_all add: crc_byte_unfold crc_step_def)

lemma crc32_tab_bitwise: "crc32_tab = byte_table 8"
proof -
  have "byte_table 0 = [0]" by (simp add: byte_table_def crc_byte_powers)
  with byte_table_Suc [of 0] byte_table_Suc [of 1] have "byte_table 2 = take 4 crc32_tab"
    by (simp add: crc_byte_powers crc32_tab_def numeral_2_eq_2)
  with byte_table_Suc [of 2] byte_table_Suc [of 3] have "byte_table 4 = take 16 crc32_tab"
    by (simp add: crc_byte_powers crc32_tab_def)
  with byte_table_Suc [of 4] byte_table_Suc [of 5] have "byte_table 6 = take 64 crc32_tab"
    by (simp add: crc_byte_powers crc32_tab_def)
  with byte_table_Suc [of 6] byte_table_Suc [of 7] show ?thesis
    by (simp add: crc_byte_powers crc32_tab_def)
qed

lemma crc32_tab_nth: "i < 256 \<Longrightarrow> crc32_tab ! i = crc_byte (of_nat i)"
  by (simp add: crc32_tab_bitwise byte_table_def)

lemma byte_mask: "(0xFF :: u32) = mask 8"
  by (simp add: mask_eq_exp_minus_1)

lemma xor_right_cancel: "(a :: u32) XOR c = b XOR c \<longleftrightarrow> a = b"
proof
  assume "a XOR c = b XOR c"
  then have "(a XOR c) XOR c = (b XOR c) XOR c" by (simp only:)
  then show "a = b" by (simp add: xor.assoc)
qed simp

text \<open>One turn of the table-driven loop is eight turns of the bitwise one.\<close>

lemma crc32_update_bitwise: "crc32_update crc p = crc_byte (crc XOR ucast p)"
proof -
  let ?x = "crc XOR ucast p :: u32"
  have split: "?x = (?x AND 0xFF) XOR (?x AND NOT 0xFF)"
    by (rule bit_word_eqI) (auto simp: bit_simps)
  have "?x AND 0xFF = take_bit 8 ?x" by (simp only: byte_mask take_bit_eq_mask)
  then have "unat (?x AND 0xFF) < 2 ^ 8" by (simp only: unsigned_take_bit_eq take_bit_nat_less_exp)
  then have low: "crc_byte (?x AND 0xFF) = crc32_tab ! unat (?x AND 0xFF)" by (simp add: crc32_tab_nth)
  have "\<forall>i < 8. \<not> bit (?x AND NOT 0xFF) i" unfolding byte_mask by (auto simp: bit_simps)
  then have "crc_byte (?x AND NOT 0xFF) = drop_bit 8 (?x AND NOT 0xFF)"
    unfolding crc_byte_def by (rule crc_step_zeros)
  also have "\<dots> = drop_bit 8 crc"
    unfolding byte_mask by (rule bit_word_eqI) (auto simp: bit_simps dest: bit_imp_le_length)
  finally show ?thesis
    using low crc_byte_xor [of "?x AND 0xFF" "?x AND NOT 0xFF"] split by (simp add: crc32_update_def)
qed

text \<open>The highest bit of the polynomial makes the step reversible.\<close>

lemma crc_step_inj: "crc_step a = crc_step b \<Longrightarrow> a = b"
proof -
  assume eq: "crc_step a = crc_step b"
  have top: "bit (crc_step c) 31 \<longleftrightarrow> bit c 0" for c
    using bit_imp_le_length [of c 32] by (auto simp: crc_step_def bit_simps)
  have "bit a 0 = bit b 0" using eq top by metis
  then have d: "drop_bit 1 a = drop_bit 1 b" using eq by (simp add: crc_step_def xor_right_cancel split: if_splits)
  have "bit a n = bit b n" for n
  proof (cases n)
    case 0
    with \<open>bit a 0 = bit b 0\<close> show ?thesis by simp
  next
    case (Suc m)
    have "bit (drop_bit 1 a) m = bit (drop_bit 1 b) m" by (simp only: d)
    with Suc show ?thesis by (simp add: bit_drop_bit_eq)
  qed
  then show "a = b" by (intro bit_word_eqI) simp
qed

lemma crc_byte_inj: "crc_byte a = crc_byte b \<longleftrightarrow> a = b"
  using crc_step_inj by (auto simp: crc_byte_unfold)

lemma foldl_update_inj: "foldl crc32_update a xs = foldl crc32_update b xs \<longleftrightarrow> a = b"
  by (induction xs arbitrary: a b) (simp_all add: crc32_update_bitwise crc_byte_inj xor_right_cancel)

section \<open>Properties\<close>

text \<open>C24: the table-driven routine computes the bitwise CRC of the polynomial \<open>EDB88320\<close> (reflected)
  on every buffer: each byte is combined with the register, which then takes eight bit steps.\<close>

theorem crc32_bitwise:
  "crc32 crc buf n =
    (if length buf < n then None
     else Some (foldl (\<lambda>c p. (crc_step ^^ 8) (c XOR ucast p)) (crc XOR NOT 0) (take n buf) XOR NOT 0))"
  by (simp add: crc32_def crc32_update_bitwise [abs_def] crc_byte_def)

text \<open>A buffer may be checksummed in pieces: the result for the first piece is the initial value for
  the second.\<close>

theorem crc32_pieces:
  "crc32 crc (xs @ ys) (length xs + length ys) =
    Option.bind (crc32 crc xs (length xs)) (\<lambda>c. crc32 c ys (length ys))"
  by (simp add: crc32_def xor.assoc)

text \<open>A change of one byte, in any buffer and at any place, changes the checksum.\<close>

theorem crc32_detects_byte:
  assumes "p \<noteq> q"
  shows "crc32 crc (xs @ p # ys) (length (xs @ p # ys)) \<noteq> crc32 crc (xs @ q # ys) (length (xs @ q # ys))"
proof -
  have neq: "(ucast p :: u32) \<noteq> ucast q"
  proof
    assume "(ucast p :: u32) = ucast q"
    then have "unat (ucast p :: u32) = unat (ucast q :: u32)" by (simp only:)
    with assms show False by (simp add: word_unat_eq_iff)
  qed
  have "crc32_update c p \<noteq> crc32_update c q" for c
    using neq by (simp add: crc32_update_bitwise crc_byte_inj xor.commute [of c] xor_right_cancel)
  then show ?thesis by (simp add: crc32_def foldl_update_inj xor_right_cancel)
qed

theorem crc32_detects_byte_witness:
  "crc32 0 ([1, 2] @ 3 # [4]) (length ([1, 2] @ 3 # [4 :: u8])) \<noteq> crc32 0 ([1, 2] @ 7 # [4]) (length ([1, 2] @ 7 # [4 :: u8]))"
  by (rule crc32_detects_byte) simp

end
