(* ===== verification/Ip_Ecn.thy ===== *)
theory Ip_Ecn
  imports Prelude
begin

text \<open>
  Explicit congestion notification across tunnels, \<^verbatim>\<open>netinet/ip_ecn.c\<close>: what encapsulation
  writes into the outer header and decapsulation into the inner one, for the TOS byte of IPv4 and the
  traffic class inside the first word of an IPv6 header. A NULL pointer argument is \<open>None\<close> and a
  panic is the result \<open>None\<close>. The machine is little-endian, so \<^verbatim>\<open>ntohl\<close> and \<^verbatim>\<open>htonl\<close> reverse the
  bytes of a word.
\<close>

section \<open>The code\<close>

definition ECN_ALLOWED :: int where "ECN_ALLOWED = 1"
definition ECN_FORBIDDEN :: int where "ECN_FORBIDDEN = 0"
definition ECN_NOCARE :: int where "ECN_NOCARE = - 1"

abbreviation "IPTOS_CE \<equiv> 0x01 :: u8"
abbreviation "IPTOS_ECT \<equiv> 0x02 :: u8"

text \<open>\<open>*outer = *inner\<close>, then the mode: the new outer byte.\<close>

definition ecn_outer :: "int \<Rightarrow> u8 \<Rightarrow> u8" where
  "ecn_outer mode inner =
    (if mode = ECN_ALLOWED then inner AND NOT IPTOS_CE
     else if mode = ECN_FORBIDDEN then inner AND NOT (IPTOS_ECT OR IPTOS_CE)
     else inner)"

definition ip_ecn_ingress :: "int \<Rightarrow> u8 option \<Rightarrow> u8 option \<Rightarrow> u8 option" where
  "ip_ecn_ingress mode outer inner =
    (case (outer, inner) of
       (Some _, Some i) \<Rightarrow> Some (ecn_outer mode i)
     | _ \<Rightarrow> None)"

text \<open>The new inner byte.\<close>

definition ecn_inner :: "int \<Rightarrow> u8 \<Rightarrow> u8 \<Rightarrow> u8" where
  "ecn_inner mode outer inner =
    (if mode = ECN_ALLOWED then (if outer AND IPTOS_CE \<noteq> 0 then inner OR IPTOS_CE else inner)
     else inner)"

definition ip_ecn_egress :: "int \<Rightarrow> u8 option \<Rightarrow> u8 option \<Rightarrow> u8 option" where
  "ip_ecn_egress mode outer inner =
    (case (outer, inner) of
       (Some v, Some i) \<Rightarrow> Some (ecn_inner mode v i)
     | _ \<Rightarrow> None)"

definition ntohl :: "u32 \<Rightarrow> u32" where
  "ntohl w = be32 (byte_at 0 w) (byte_at 8 w) (byte_at 16 w) (byte_at 24 w)"

definition htonl :: "u32 \<Rightarrow> u32" where
  "htonl w = ntohl w"

text \<open>\<open>(ntohl(w) >> 20) & 0xff\<close>, and the store of eight bits into that place.\<close>

definition traffic_class :: "u32 \<Rightarrow> u8" where
  "traffic_class w = ucast (drop_bit 20 (ntohl w) AND 0xff)"

definition put_traffic_class :: "u32 \<Rightarrow> u8 \<Rightarrow> u32" where
  "put_traffic_class w c = (w AND NOT (htonl (push_bit 20 0xff))) OR htonl (push_bit 20 (ucast c))"

definition ip6_ecn_ingress :: "int \<Rightarrow> u32 option \<Rightarrow> u32 option \<Rightarrow> u32 option" where
  "ip6_ecn_ingress mode outer inner =
    (case (outer, inner) of
       (Some v, Some i) \<Rightarrow>
         map_option (put_traffic_class v) (ip_ecn_ingress mode (Some 0) (Some (traffic_class i)))
     | _ \<Rightarrow> None)"

definition ip6_ecn_egress :: "int \<Rightarrow> u32 option \<Rightarrow> u32 option \<Rightarrow> u32 option" where
  "ip6_ecn_egress mode outer inner =
    (case (outer, inner) of
       (Some v, Some i) \<Rightarrow>
         map_option (put_traffic_class i)
           (ip_ecn_egress mode (Some (traffic_class v)) (Some (traffic_class i)))
     | _ \<Rightarrow> None)"

section \<open>Bits\<close>

lemma bit_IPTOS [simp]: "bit IPTOS_CE n \<longleftrightarrow> n = 0" "bit IPTOS_ECT n \<longleftrightarrow> n = 1"
  using bit_exp_iff [where 'a = u8, of 0 n] bit_exp_iff [where 'a = u8, of 1 n] by auto

lemma ntohl_ntohl: "ntohl (ntohl w) = w"
  by (simp add: ntohl_def)

lemma bit_ntohl:
  "bit (ntohl w) n \<longleftrightarrow>
    (if n < 8 then bit w (24 + n) else if n < 16 then bit w (16 + (n - 8))
     else if n < 24 then bit w (8 + (n - 16)) else n < 32 \<and> bit w (n - 24))"
  by (auto simp: ntohl_def bit_be32 bit_byte_at)

lemma ntohl_ops: "ntohl (a AND b) = ntohl a AND ntohl b" "ntohl (a OR b) = ntohl a OR ntohl b"
  "ntohl (NOT a) = NOT (ntohl a)"
  by (rule bit_word_eqI; auto simp: bit_ntohl bit_simps)+

lemma ntohl_put: "ntohl (put_traffic_class w c) = (ntohl w AND NOT (push_bit 20 0xff)) OR push_bit 20 (ucast c)"
  by (simp add: put_traffic_class_def htonl_def ntohl_ops ntohl_ntohl)

lemma bit_ones: "bit (0xff :: u32) n \<longleftrightarrow> n < 8"
proof -
  have "(0xff :: u32) = mask 8" by (simp add: mask_eq_exp_minus_1)
  then show ?thesis by (simp only: bit_mask_iff) auto
qed

lemma bit_traffic_class: "bit (traffic_class w) n \<longleftrightarrow> n < 8 \<and> bit (ntohl w) (20 + n)"
  by (simp only: traffic_class_def bit_ucast_iff bit_and_iff bit_drop_bit_eq bit_ones) auto

lemma traffic_class_put [simp]: "traffic_class (put_traffic_class w c) = c"
  by (rule bit_word_eqI)
    (simp only: bit_traffic_class ntohl_put bit_or_iff bit_and_iff bit_not_iff bit_push_bit_iff bit_ones bit_ucast_iff, simp)

lemma put_keeps: "n < 20 \<or> 28 \<le> n \<Longrightarrow> bit (ntohl (put_traffic_class w c)) n = bit (ntohl w) n"
  using bit_imp_le_length [of c "n - 20"] bit_imp_le_length [of "ntohl w" n]
  by (simp only: ntohl_put bit_or_iff bit_and_iff bit_not_iff bit_push_bit_iff bit_ones bit_ucast_iff) auto

section \<open>Properties\<close>

text \<open>A tunnel with ECN allowed. Encapsulation hides a congestion mark of the inner packet from the
  tunnel; decapsulation marks the inner packet exactly when it was marked before or the outer one was
  marked on the way, and changes no other bit of it.\<close>

theorem ecn_tunnel:
  shows "\<exists>outer. ip_ecn_ingress ECN_ALLOWED (Some v) (Some inner) = Some outer
    \<and> \<not> bit outer 0 \<and> drop_bit 1 outer = drop_bit 1 inner
    \<and> ip_ecn_egress ECN_ALLOWED (Some outer) (Some inner) = Some inner
    \<and> ip_ecn_egress ECN_ALLOWED (Some (outer OR IPTOS_CE)) (Some inner) = Some (inner OR IPTOS_CE)"
proof -
  let ?outer = "inner AND NOT IPTOS_CE"
  have "?outer AND IPTOS_CE = 0"
    by (rule bit_word_eqI) (simp only: bit_and_iff bit_not_iff bit_IPTOS, auto)
  moreover have "(?outer OR IPTOS_CE) AND IPTOS_CE = IPTOS_CE"
    by (rule bit_word_eqI) (simp only: bit_and_iff bit_or_iff bit_not_iff bit_IPTOS, auto)
  moreover have keep: "bit ?outer n \<longleftrightarrow> bit inner n \<and> n \<noteq> 0" for n
    using bit_imp_possible_bit [of inner n] by (simp only: bit_and_iff bit_not_iff bit_IPTOS) blast
  moreover have "drop_bit 1 ?outer = drop_bit 1 inner"
    by (rule bit_word_eqI) (simp only: bit_drop_bit_eq comp_def keep, simp)
  ultimately show ?thesis
    by (simp only: ip_ecn_ingress_def ip_ecn_egress_def ecn_outer_def ecn_inner_def prod.case option.case) auto
qed

text \<open>C40: the IPv6 forms do to the traffic class what the IPv4 forms do to the TOS byte, and leave
  version and flow label (the other bits of the first header word, in host order) as they were.\<close>

theorem ip6_ecn_refines:
  "\<exists>v' i'. ip6_ecn_ingress mode (Some v) (Some i) = Some v' \<and> ip6_ecn_egress mode (Some v) (Some i) = Some i'
    \<and> ip_ecn_ingress mode (Some (traffic_class v)) (Some (traffic_class i)) = Some (traffic_class v')
    \<and> ip_ecn_egress mode (Some (traffic_class v)) (Some (traffic_class i)) = Some (traffic_class i')
    \<and> (\<forall>n. n < 20 \<or> 28 \<le> n \<longrightarrow> bit (ntohl v') n = bit (ntohl v) n \<and> bit (ntohl i') n = bit (ntohl i) n)"
  by (simp add: ip6_ecn_ingress_def ip6_ecn_egress_def ip_ecn_ingress_def ip_ecn_egress_def put_keeps)

theorem ip6_ecn_refines_witness:
  "\<exists>v' i'. ip6_ecn_ingress ECN_ALLOWED (Some 0) (Some 0x3060) = Some v' \<and> ip6_ecn_egress ECN_ALLOWED (Some 0) (Some 0x3060) = Some i'
    \<and> ip_ecn_ingress ECN_ALLOWED (Some (traffic_class 0)) (Some (traffic_class 0x3060)) = Some (traffic_class v')
    \<and> ip_ecn_egress ECN_ALLOWED (Some (traffic_class 0)) (Some (traffic_class 0x3060)) = Some (traffic_class i')
    \<and> (\<forall>n. n < 20 \<or> 28 \<le> n \<longrightarrow> bit (ntohl v') n = bit (ntohl 0) n \<and> bit (ntohl i') n = bit (ntohl 0x3060) n)"
  by (rule ip6_ecn_refines)

end
