(* ===== verification/In_Cksum.thy ===== *)
theory In_Cksum
  imports Ip_Ecn
begin

text \<open>
  The Internet checksum, \<^verbatim>\<open>netinet/in_cksum.c\<close> (the portable branch): the routine that adds a
  packet up 16 bits at a time over a chain of buffers of any length and alignment, against the one's
  complement sum of its bytes. The machine is little-endian: a 16-bit load at bytes \<open>a\<close>, \<open>b\<close> is
  \<open>a + 256 b\<close>. A panic is \<open>None\<close>. The trace calls and the message about missing data are left out.
\<close>

section \<open>The code\<close>

text \<open>A buffer of a chain: the address of its data (only its parity matters) and the data.\<close>

record cbuf =
  cb_addr :: nat
  cb_data :: "u8 list"

definition ld16 :: "u8 \<Rightarrow> u8 \<Rightarrow> u32" where
  "ld16 c0 c1 = ucast c0 OR push_bit 8 (ucast c1)"

definition ADDCARRY :: "u32 \<Rightarrow> u32" where
  "ADDCARRY x = (if x > 65535 then x - 65535 else x)"

definition REDUCE :: "u32 \<Rightarrow> u32" where
  "REDUCE acc = ADDCARRY ((acc AND 0xffff) + drop_bit 16 acc)"

definition REDUCE16 :: "u64 \<Rightarrow> u32" where
  "REDUCE16 acc =
    (let q = (\<lambda>i. ucast (drop_bit (16 * i) acc AND 0xffff) :: u32);
         l = q 0 + q 1 + q 2 + q 3
     in ADDCARRY ((l AND 0xffff) + drop_bit 16 l))"

definition in_addword :: "u16 \<Rightarrow> u16 \<Rightarrow> u16" where
  "in_addword a b = ucast (REDUCE (ucast a + ucast b))"

definition in_pseudo :: "u32 \<Rightarrow> u32 \<Rightarrow> u32 \<Rightarrow> u16" where
  "in_pseudo a b c = ucast (REDUCE16 (ucast a + ucast b + ucast c))"

text \<open>\<^verbatim>\<open>sum += w[0]; .. sum += w[n - 1]\<close>.\<close>

fun add_words :: "nat \<Rightarrow> u8 list \<Rightarrow> u32 \<Rightarrow> u32" where
  "add_words 0 d acc = acc"
| "add_words (Suc n) d acc = add_words n (drop 2 d) (acc + ld16 (d ! 0) (d ! 1))"

text \<open>\<open>while ((mlen -= 2 * n) >= 0)\<close> with \<open>n\<close> additions in the body: the bytes that are left, and
  the sum.\<close>

function words_loop :: "nat \<Rightarrow> u8 list \<Rightarrow> u32 \<Rightarrow> u8 list \<times> u32" where
  "words_loop n d acc =
    (if 0 < n \<and> 2 * n \<le> length d then words_loop n (drop (2 * n) d) (add_words n d acc)
     else (d, acc))"
  by pat_completeness auto
termination
  by (relation "measure (\<lambda>(n, d, acc). length d)") auto

declare words_loop.simps [simp del]

text \<open>The variables that survive a turn of the loop over the chain. Of \<open>mlen\<close> only the value \<open>-1\<close>
  is looked at again: a byte waits in \<open>c[0]\<close>.\<close>

record ck =
  ck_sum :: u32
  ck_mlen :: int
  ck_c0 :: u8
  ck_len :: nat

text \<open>From \<open>skip_start\<close> to the end of the turn, on the \<open>mlen\<close> bytes \<open>d\<close> at address \<open>w\<close>.\<close>

definition ck_block :: "nat \<Rightarrow> u8 list \<Rightarrow> ck \<Rightarrow> ck" where
  "ck_block w d st =
    (let d = take (ck_len st) d;
         st = st\<lparr>ck_len := ck_len st - length d\<rparr>
     in if odd w \<and> d \<noteq> []
        then
          (let c0 = d ! 0;
               (d, acc) = words_loop 16 (tl d) (push_bit 8 (REDUCE (ck_sum st)));
               (d, acc) = words_loop 4 d acc;
               (d, acc) = words_loop 1 d (REDUCE acc);
               acc = push_bit 8 (REDUCE acc)
           in if d \<noteq> [] then st\<lparr>ck_sum := acc + ld16 c0 (d ! 0), ck_c0 := c0, ck_mlen := 0\<rparr>
              else st\<lparr>ck_sum := acc, ck_c0 := c0, ck_mlen := - 1\<rparr>)
        else
          (let (d, acc) = words_loop 16 d (ck_sum st);
               (d, acc) = words_loop 4 d acc
           in if d = [] then st\<lparr>ck_sum := acc, ck_mlen := 0\<rparr>
              else
                (let (d, acc) = words_loop 1 d (REDUCE acc)
                 in if d \<noteq> [] then st\<lparr>ck_sum := acc, ck_c0 := d ! 0, ck_mlen := - 1\<rparr>
                    else st\<lparr>ck_sum := acc, ck_mlen := - 2\<rparr>)))"

definition ck_mbuf :: "cbuf \<Rightarrow> ck \<Rightarrow> ck" where
  "ck_mbuf m st =
    (if cb_data m = [] then st
     else if ck_mlen st = - 1 then
       ck_block (cb_addr m + 1) (tl (cb_data m))
         (st\<lparr>ck_sum := ck_sum st + ld16 (ck_c0 st) (cb_data m ! 0), ck_len := ck_len st - 1\<rparr>)
     else ck_block (cb_addr m) (cb_data m) st)"

fun ck_chain :: "cbuf list \<Rightarrow> ck \<Rightarrow> ck" where
  "ck_chain [] st = st"
| "ck_chain (m # ms) st = (if ck_len st = 0 then st else ck_chain ms (ck_mbuf m st))"

text \<open>The skip loop and its jump into the loop over the chain.\<close>

fun ck_skip :: "cbuf list \<Rightarrow> nat \<Rightarrow> ck \<Rightarrow> ck" where
  "ck_skip [] skip st = st"
| "ck_skip (m # ms) skip st =
    (if skip = 0 then ck_chain (m # ms) st
     else if length (cb_data m) > skip
     then ck_chain ms (ck_block (cb_addr m + skip) (drop skip (cb_data m)) st)
     else ck_skip ms (skip - length (cb_data m)) st)"

definition ld32 :: "u8 list \<Rightarrow> nat \<Rightarrow> u32" where
  "ld32 d i = be32 (d ! (i + 3)) (d ! (i + 2)) (d ! (i + 1)) (d ! i)"

definition SIZEOF_IP :: nat where "SIZEOF_IP = 20"

text \<open>\<open>inet_cksum(m, nxt, skip, len)\<close> for the chain \<open>m # ms\<close> whose packet header says \<open>hdr_len\<close>.\<close>

definition inet_cksum :: "cbuf list \<Rightarrow> int \<Rightarrow> u32 \<Rightarrow> u32 \<Rightarrow> u32 \<Rightarrow> u16 option" where
  "inet_cksum chain hdr_len nxt skip len =
    (if word_of_int hdr_len < skip + len then None
     else if nxt \<noteq> 0 \<and> (case chain of [] \<Rightarrow> True | m # _ \<Rightarrow> length (cb_data m) < SIZEOF_IP) then None
     else
       (let acc = (if nxt \<noteq> 0
                   then (let d = cb_data (hd chain)
                         in ucast (in_pseudo (ld32 d 12) (ld32 d 16) (htonl (len + nxt))))
                   else 0);
            st = ck_skip chain (unat skip) \<lparr>ck_sum = acc, ck_mlen = 0, ck_c0 = 0, ck_len = unat len\<rparr>;
            acc = (if ck_mlen st = - 1 then ck_sum st + ld16 (ck_c0 st) 0 else ck_sum st)
        in Some (ucast (NOT (REDUCE acc) AND 0xffff))))"

section \<open>Sums in one's complement\<close>

text \<open>The little-endian 16-bit words of a byte string, the last one filled with a zero byte.\<close>

fun wsum :: "u8 list \<Rightarrow> nat" where
  "wsum [] = 0"
| "wsum [a] = unat a"
| "wsum (a # b # r) = unat a + 256 * unat b + wsum r"

text \<open>Two sums that end up as the same 16-bit one's complement number: \<open>0\<close> only for nothing.\<close>

definition ceq :: "nat \<Rightarrow> nat \<Rightarrow> bool" where
  "ceq x y \<longleftrightarrow> x mod 65535 = y mod 65535 \<and> (x = 0 \<longleftrightarrow> y = 0)"

definition canon :: "nat \<Rightarrow> nat" where
  "canon x = (if x = 0 then 0 else (x - 1) mod 65535 + 1)"

lemma ceq_refl [simp]: "ceq x x"
  by (simp add: ceq_def)

lemma ceq_sym: "ceq x y \<Longrightarrow> ceq y x"
  by (simp add: ceq_def)

lemma ceq_trans: "ceq x y \<Longrightarrow> ceq y z \<Longrightarrow> ceq x z"
  by (simp add: ceq_def)

lemma ceq_add: "ceq a b \<Longrightarrow> ceq c d \<Longrightarrow> ceq (a + c) (b + d)"
  unfolding ceq_def by (auto intro: mod_add_cong)

lemma ceq_mult: "ceq a b \<Longrightarrow> 0 < k \<Longrightarrow> ceq (k * a) (k * b)"
  unfolding ceq_def by (auto intro: mod_mult_cong)

lemma ceq_65536: "ceq (65536 * x) x"
proof -
  have "(65536 * x) mod 65535 = ((65536 mod 65535) * x) mod 65535" by (simp only: mod_mult_left_eq)
  then show ?thesis by (simp add: ceq_def)
qed

lemma canon_ceq: "ceq x y \<Longrightarrow> canon x = canon y"
proof -
  assume c: "ceq x y"
  show ?thesis
  proof (cases "x = 0")
    case True
    with c show ?thesis by (simp add: ceq_def canon_def)
  next
    case False
    with c have "y \<noteq> 0" by (simp add: ceq_def)
    with False obtain x' y' where xy: "x = Suc x'" "y = Suc y'" by (meson not0_implies_Suc)
    with c have "Suc x' mod 65535 = Suc y' mod 65535" by (simp only: ceq_def)
    then have "x' mod 65535 = y' mod 65535"
      by (simp only: mod_Suc split: if_splits)
    with xy show ?thesis by (simp add: canon_def)
  qed
qed

text \<open>The words seen from the other byte: shifting the whole string by one byte multiplies by 256.\<close>

lemma wsum_Cons: "wsum (a # r) = unat a + wsum (0 # r)"
  by (cases r) simp_all

lemma wsum_shift: "ceq (wsum (0 # r)) (256 * wsum r)"
proof (induction r rule: wsum.induct)
  case (3 a b r)
  have "wsum (0 # a # b # r) = 256 * unat a + (unat b + wsum (0 # r))"
    by (simp add: wsum_Cons [of b])
  moreover have "ceq (256 * unat a + (unat b + wsum (0 # r))) (256 * unat a + (65536 * unat b + 256 * wsum r))"
    by (intro ceq_add 3 ceq_refl ceq_sym [OF ceq_65536])
  ultimately show ?case by (simp add: algebra_simps)
qed simp_all

lemma wsum_append: "wsum (xs @ ys) = wsum xs + (if even (length xs) then wsum ys else wsum (0 # ys))"
proof (induction xs rule: wsum.induct)
  case (2 a)
  show ?case using wsum_Cons [of a ys] by simp
qed simp_all

lemma wsum_bound: "wsum d \<le> 65535 * ((length d + 1) div 2)"
proof (induction d rule: wsum.induct)
  case (2 a)
  have "unat a < 256" by (rule unat_u8_less)
  then have "unat a \<le> 65535" by linarith
  then show ?case by simp
next
  case (3 a b r)
  have "unat a < 256" "unat b < 256" by (rule unat_u8_less)+
  then have "unat a + 256 * unat b \<le> 65535" by linarith
  with 3 show ?case by simp
qed simp

section \<open>The machine arithmetic\<close>

lemma unat_ld16: "unat (ld16 a b) = unat a + 256 * unat b"
proof -
  have "(ucast a AND push_bit 8 (ucast b) :: u32) = 0"
    by (rule bit_word_eqI) (auto simp: bit_simps dest: bit_imp_le_length)
  then have "ld16 a b = ucast a + push_bit 8 (ucast b)"
    unfolding ld16_def by (rule disjunctive_add_eq_or [symmetric])
  also have "push_bit 8 (ucast b :: u32) = 256 * ucast b" by (simp add: push_bit_eq_mult)
  finally have e: "ld16 a b = ucast a + 256 * ucast b" .
  have a: "unat a < 256" "unat b < 256" by (rule unat_u8_less)+
  then have "unat b < 16777216" by linarith
  then have m: "unat (256 * ucast b :: u32) = 256 * unat b"
    by (subst unat_mult_lem [THEN iffD1]) simp_all
  have "unat a + 256 * unat b < 4294967296" using a by linarith
  then show ?thesis
    unfolding e using m by (subst unat_add_lem [THEN iffD1]) simp_all
qed

lemma unat_low16: "unat (x AND 0xffff :: u32) = unat x mod 65536"
proof -
  have "(0xffff :: u32) = mask 16" by (simp add: mask_eq_exp_minus_1)
  then have "x AND 0xffff = take_bit 16 x" by (simp only: take_bit_eq_mask)
  then show ?thesis by (simp only: unsigned_take_bit_eq) (simp add: take_bit_eq_mod)
qed

lemma unat_high16: "unat (drop_bit 16 x :: u32) = unat x div 65536"
  by (simp only: unat_drop_bit_eq) (simp add: drop_bit_eq_div)

lemma unat_ADDCARRY: "unat x < 131071 \<Longrightarrow> ceq (unat (ADDCARRY x)) (unat x) \<and> unat (ADDCARRY x) \<le> 65535 \<and> unat (ADDCARRY x) \<le> unat x"
proof (cases "x > 65535")
  case True
  then have g: "65535 < unat x" by (simp add: word_less_nat_alt)
  then have u: "unat (x - 65535) = unat x - 65535"
    by (subst unat_sub) (simp_all add: word_le_nat_alt)
  assume "unat x < 131071"
  with g u True show ?thesis by (auto simp: ADDCARRY_def ceq_def le_mod_geq)
next
  case False
  then show ?thesis by (simp add: ADDCARRY_def word_less_nat_alt)
qed

lemma ceq_halves: "ceq (x mod 65536 + x div 65536) x"
proof -
  have "ceq (x mod 65536 + x div 65536) (x mod 65536 + 65536 * (x div 65536))"
    by (intro ceq_add ceq_refl ceq_sym [OF ceq_65536])
  then show ?thesis by simp
qed

lemma unat_REDUCE: "ceq (unat (REDUCE x)) (unat x) \<and> unat (REDUCE x) \<le> 65535 \<and> unat (REDUCE x) \<le> unat x"
proof -
  have h: "unat x div 65536 < 65536"
    using unsigned_less [where 'a = nat and 'b = 32, of x] by (simp add: less_mult_imp_div_less)
  have s: "unat ((x AND 0xffff) + drop_bit 16 x) = unat x mod 65536 + unat x div 65536"
    using h by (subst unat_add_lem [THEN iffD1]) (simp_all add: unat_low16 unat_high16)
  have l: "unat x mod 65536 + unat x div 65536 < 131071"
    using h by (simp add: add_less_le_mono)
  have le: "unat x mod 65536 + unat x div 65536 \<le> unat x"
    using div_mult_mod_eq [of "unat x" 65536] by linarith
  from l have "unat ((x AND 0xffff) + drop_bit 16 x) < 131071" by (simp only: s)
  from unat_ADDCARRY [OF this] have r: "ceq (unat (REDUCE x)) (unat x mod 65536 + unat x div 65536)"
    "unat (REDUCE x) \<le> 65535" "unat (REDUCE x) \<le> unat x mod 65536 + unat x div 65536"
    unfolding REDUCE_def s by blast+
  from ceq_trans [OF r(1) ceq_halves] r(2) order_trans [OF r(3) le] show ?thesis by blast
qed

section \<open>The loops\<close>

lemma unat_add_ld16:
  "unat acc + 65535 < 2 ^ 32 \<Longrightarrow> unat (acc + ld16 a b) = unat acc + (unat a + 256 * unat b)"
proof -
  assume s: "unat acc + 65535 < 2 ^ 32"
  have "unat a < 256" "unat b < 256" by (rule unat_u8_less)+
  with s have "unat acc + unat (ld16 a b) < 2 ^ 32" unfolding unat_ld16 by linarith
  then show ?thesis unfolding unat_ld16 [symmetric] by (subst unat_add_lem [THEN iffD1]) simp_all
qed

lemma add_words_spec:
  "2 * n \<le> length d \<Longrightarrow> unat acc + 65535 * n < 2 ^ 32 \<Longrightarrow>
    unat (add_words n d acc) = unat acc + wsum (take (2 * n) d)"
proof (induction n arbitrary: d acc)
  case (Suc n)
  then obtain a b r where d: "d = a # b # r" by (cases d rule: wsum.cases) auto
  have u: "unat (acc + ld16 a b) = unat acc + (unat a + 256 * unat b)"
    using Suc.prems(2) by (intro unat_add_ld16) simp
  have ab: "unat a < 256" "unat b < 256" by (rule unat_u8_less)+
  have "unat (add_words n r (acc + ld16 a b)) = unat (acc + ld16 a b) + wsum (take (2 * n) r)"
  proof (rule Suc.IH)
    show "unat (acc + ld16 a b) + 65535 * n < 2 ^ 32"
      unfolding u using Suc.prems(2) ab by (simp only: mult_Suc_right)
  qed (use Suc.prems(1) d in simp)
  with u d show ?case by simp
qed simp

lemma words_loop_spec:
  assumes "0 < n" and "unat acc + 65535 * (length d div 2) < 2 ^ 32"
  shows "\<exists>k \<le> length d. words_loop n d acc = (drop k d, snd (words_loop n d acc)) \<and> even k \<and> length d - k < 2 * n
    \<and> unat (snd (words_loop n d acc)) = unat acc + wsum (take k d)"
  using assms(2)
proof (induction "length d" arbitrary: d acc rule: less_induct)
  case less
  show ?case
  proof (cases "2 * n \<le> length d")
    case False
    then show ?thesis by (intro exI [of _ 0]) (simp add: words_loop.simps)
  next
    case True
    let ?acc = "add_words n d acc" and ?d = "drop (2 * n) d"
    have half: "length d div 2 = n + length ?d div 2" using True by simp
    have n: "unat acc + 65535 * n < 2 ^ 32"
      using less.prems half by linarith
    note u = add_words_spec [OF True n]
    have "length (take (2 * n) d) = 2 * n" using True by simp
    with wsum_bound [of "take (2 * n) d"] have "wsum (take (2 * n) d) \<le> 65535 * n" by simp
    then have s: "unat ?acc + 65535 * (length ?d div 2) < 2 ^ 32"
      using less.prems half u by linarith
    have shorter: "length ?d < length d" using True assms(1) by simp
    from less.hyps [OF shorter s] obtain k where k: "k \<le> length ?d" "words_loop n ?d ?acc = (drop k ?d, snd (words_loop n ?d ?acc))"
      "even k" "length ?d - k < 2 * n" "unat (snd (words_loop n ?d ?acc)) = unat ?acc + wsum (take k ?d)" by blast
    have eq: "words_loop n d acc = words_loop n ?d ?acc"
      using True assms(1) by (subst words_loop.simps) simp
    have "wsum (take (2 * n + k) d) = wsum (take (2 * n) d) + wsum (take k ?d)"
      using True by (simp add: take_add wsum_append)
    with k eq u True show ?thesis
      by (intro exI [of _ "2 * n + k"]) (auto simp: add.commute)
  qed
qed

text \<open>The three loops of a block in a row, with the fold in front of the last one.\<close>

lemma words_loop_cases:
  assumes "0 < n" and "unat acc + 65535 * (length d div 2) < 2 ^ 32"
  obtains d' acc' where "words_loop n d acc = (d', acc')" "\<exists>k \<le> length d. d' = drop k d \<and> even k"
    "length d' < 2 * n" "unat acc' + wsum d' = unat acc + wsum d" "unat acc' \<le> unat acc + 65535 * ((length d - length d') div 2)"
proof -
  from words_loop_spec [OF assms] obtain k where k: "k \<le> length d" "words_loop n d acc = (drop k d, snd (words_loop n d acc))"
    "even k" "length d - k < 2 * n" "unat (snd (words_loop n d acc)) = unat acc + wsum (take k d)" by blast
  have "wsum d = wsum (take k d) + wsum (drop k d)"
    using k(1,3) wsum_append [of "take k d" "drop k d"] by simp
  moreover have "wsum (take k d) \<le> 65535 * (k div 2)"
    using wsum_bound [of "take k d"] k(1,3) by simp
  ultimately show thesis
    using k by (intro that [of "drop k d" "snd (words_loop n d acc)"]) auto
qed

section \<open>One buffer\<close>

text \<open>What the state stands for: the sum, with the waiting byte in its low half.\<close>

definition ck_value :: "ck \<Rightarrow> nat" where
  "ck_value st = unat (ck_sum st) + (if ck_mlen st = - 1 then unat (ck_c0 st) else 0)"

lemma unat_shift8:
  "unat (push_bit 8 (REDUCE x)) = 256 * unat (REDUCE x)" "unat (push_bit 8 (REDUCE x)) \<le> 16776960"
proof -
  have r: "unat (REDUCE x) \<le> 65535" using unat_REDUCE by blast
  have "push_bit 8 (REDUCE x) = 256 * REDUCE x" by (simp add: push_bit_eq_mult)
  moreover have "unat (256 * REDUCE x) = 256 * unat (REDUCE x)"
    using r by (subst unat_mult_lem [THEN iffD1]) simp_all
  ultimately show e: "unat (push_bit 8 (REDUCE x)) = 256 * unat (REDUCE x)" by (simp only:)
  show "unat (push_bit 8 (REDUCE x)) \<le> 16776960" unfolding e using r by linarith
qed

lemma short_list: "length (d :: u8 list) < 2 \<Longrightarrow> d = [] \<or> (\<exists>x. d = [x])"
  by (cases d rule: wsum.cases) auto

text \<open>The three loops of a block in a row, with the fold in front of the last one.\<close>

lemma three_loops:
  assumes "unat acc + 65535 * (length d div 2) < 2 ^ 32" "length d \<le> 65535"
  obtains d1 s1 d2 s2 d3 s3 where "words_loop 16 d acc = (d1, s1)" "words_loop 4 d1 s1 = (d2, s2)"
    "words_loop 1 d2 (REDUCE s2) = (d3, s3)" "length d2 < 8" "length d3 < 2"
    "even (length d2) = even (length d)" "even (length d3) = even (length d)"
    "unat s2 + wsum d2 = unat acc + wsum d" "unat s2 \<le> unat acc + 65535 * (length d div 2)"
    "ceq (unat s3 + wsum d3) (unat acc + wsum d)" "unat s3 \<le> unat acc + 65535 * (length d div 2)"
proof -
  obtain d1 s1 where 1: "words_loop 16 d acc = (d1, s1)" "\<exists>k \<le> length d. d1 = drop k d \<and> even k" "length d1 < 32"
    "unat s1 + wsum d1 = unat acc + wsum d" "unat s1 \<le> unat acc + 65535 * ((length d - length d1) div 2)"
    using words_loop_cases [of 16, OF _ assms(1)] by auto
  then have p1: "even (length d1) = even (length d)" "length d1 \<le> length d" by auto
  have h1: "(length d - length d1) div 2 + length d1 div 2 = length d div 2"
    using p1 by (cases "even (length d)") (auto elim!: evenE oddE simp: diff_mult_distrib2 [symmetric])
  have b1: "unat s1 + 65535 * (length d1 div 2) < 2 ^ 32" using 1(5) h1 assms(1) by linarith
  obtain d2 s2 where 2: "words_loop 4 d1 s1 = (d2, s2)" "\<exists>k \<le> length d1. d2 = drop k d1 \<and> even k" "length d2 < 8"
    "unat s2 + wsum d2 = unat s1 + wsum d1" "unat s2 \<le> unat s1 + 65535 * ((length d1 - length d2) div 2)"
    using words_loop_cases [of 4, OF _ b1] by auto
  then have p2: "even (length d2) = even (length d1)" "length d2 \<le> length d1" by auto
  have h2: "(length d1 - length d2) div 2 + length d2 div 2 = length d1 div 2"
    using p2 by (cases "even (length d1)") (auto elim!: evenE oddE simp: diff_mult_distrib2 [symmetric])
  have b2: "unat s2 + 65535 * (length d2 div 2) \<le> unat acc + 65535 * (length d div 2)" using 1(5) 2(5) h1 h2 by linarith
  have r: "ceq (unat (REDUCE s2)) (unat s2)" "unat (REDUCE s2) \<le> unat s2" using unat_REDUCE by blast+
  have b3: "unat (REDUCE s2) + 65535 * (length d2 div 2) < 2 ^ 32" using r(2) b2 assms(1) by linarith
  obtain d3 s3 where 3: "words_loop 1 d2 (REDUCE s2) = (d3, s3)" "\<exists>k \<le> length d2. d3 = drop k d2 \<and> even k" "length d3 < 2"
    "unat s3 + wsum d3 = unat (REDUCE s2) + wsum d2" "unat s3 \<le> unat (REDUCE s2) + 65535 * ((length d2 - length d3) div 2)"
    using words_loop_cases [of 1, OF _ b3] by auto
  then have p3: "even (length d3) = even (length d2)" "length d3 \<le> length d2" by auto
  have "(length d2 - length d3) div 2 \<le> length d2 div 2" by (intro div_le_mono) simp
  then have "unat s3 \<le> unat acc + 65535 * (length d div 2)" using 3(5) r(2) b2 by linarith
  moreover have "ceq (unat s3 + wsum d3) (unat acc + wsum d)"
    using ceq_add [OF r(1) ceq_refl, of "wsum d2"] 1(4) 2(4) 3(4) by simp
  moreover have "unat s2 \<le> unat acc + 65535 * (length d div 2)" using b2 by linarith
  moreover have "unat s2 + wsum d2 = unat acc + wsum d" using 1(4) 2(4) by linarith
  moreover have "even (length d2) = even (length d)" "even (length d3) = even (length d)"
    using p1(1) p2(1) p3(1) by blast+
  ultimately show thesis
    using that [OF 1(1) 2(1) 3(1) 2(3)] 3(3) by simp
qed

text \<open>A block at an even address.\<close>

lemma ck_block_even:
  assumes "even w \<or> take (ck_len st) d = []" and n: "2 * unat (ck_sum st) \<le> 2 ^ 25 + 65535 * n" "n + length (take (ck_len st) d) \<le> 65535"
  defines "D \<equiv> take (ck_len st) d" and "st' \<equiv> ck_block w d st"
  shows "ceq (ck_value st') (unat (ck_sum st) + wsum D) \<and> (ck_mlen st' = - 1 \<longleftrightarrow> odd (length D))
    \<and> ck_len st' = ck_len st - length D \<and> 2 * unat (ck_sum st') \<le> 2 ^ 25 + 65535 * (n + 2 * (length D div 2))"
proof -
  have D: "length D \<le> 65535" using n(2) by (simp only: D_def)
  have "2 * (length D div 2) \<le> length D" by simp
  with n D have "unat (ck_sum st) + 65535 * (length D div 2) < 2 ^ 32"
    unfolding D_def by simp
  then obtain d1 s1 d2 s2 d3 s3 where
    l: "words_loop 16 D (ck_sum st) = (d1, s1)" "words_loop 4 d1 s1 = (d2, s2)"
    "words_loop 1 d2 (REDUCE s2) = (d3, s3)" and e: "length d2 < 8" "length d3 < 2"
    "even (length d2) = even (length D)" "even (length d3) = even (length D)"
    and v: "unat s2 + wsum d2 = unat (ck_sum st) + wsum D" "unat s2 \<le> unat (ck_sum st) + 65535 * (length D div 2)"
    "ceq (unat s3 + wsum d3) (unat (ck_sum st) + wsum D)" "unat s3 \<le> unat (ck_sum st) + 65535 * (length D div 2)"
    by (rule three_loops [OF _ D])
  have st': "st' = (if d2 = [] then st\<lparr>ck_sum := s2, ck_mlen := 0, ck_len := ck_len st - length D\<rparr>
    else if d3 \<noteq> [] then st\<lparr>ck_sum := s3, ck_mlen := - 1, ck_c0 := d3 ! 0, ck_len := ck_len st - length D\<rparr>
    else st\<lparr>ck_sum := s3, ck_mlen := - 2, ck_len := ck_len st - length D\<rparr>)"
    using assms(1) l by (auto simp: st'_def ck_block_def Let_def D_def [symmetric])
  have bound: "2 * unat s \<le> 2 ^ 25 + 65535 * (n + 2 * (length D div 2))"
    if "unat s \<le> unat (ck_sum st) + 65535 * (length D div 2)" for s :: u32
    using n(1) that by (simp only: distrib_left)
  consider "d2 = []" | "d2 \<noteq> []" "d3 = []" | x where "d2 \<noteq> []" "d3 = [x]"
    using short_list [OF e(2)] by blast
  then show ?thesis
  proof cases
    case 1
    with e v(1) bound [OF v(2)] show ?thesis by (simp add: st' ck_value_def)
  next
    case 2
    with e v(3) bound [OF v(4)] show ?thesis by (simp add: st' ck_value_def)
  next
    case 3
    with e v(3) bound [OF v(4)] show ?thesis by (simp add: st' ck_value_def)
  qed
qed

text \<open>A block at an odd address: its first byte waits, the others are added byte-swapped.\<close>

lemma ceq_swapped:
  assumes "ceq x (256 * a + wsum T)"
  shows "ceq (256 * x + unat c) (a + wsum (c # T))"
proof -
  have "ceq (256 * x) (256 * (256 * a + wsum T))" using assms by (rule ceq_mult) simp
  also have "256 * (256 * a + wsum T) = 65536 * a + 256 * wsum T" by simp
  finally have "ceq (256 * x) (65536 * a + 256 * wsum T)" .
  moreover have "ceq (65536 * a + 256 * wsum T) (a + wsum (0 # T))"
    by (intro ceq_add ceq_65536 ceq_sym [OF wsum_shift])
  ultimately have "ceq (256 * x + unat c) (a + wsum (0 # T) + unat c)"
    using ceq_trans ceq_add [OF _ ceq_refl] by blast
  then show ?thesis by (simp add: wsum_Cons [of c T] add.commute add.left_commute)
qed

lemma ck_block_odd:
  assumes "odd w" and ne: "take (ck_len st) d \<noteq> []" and n: "length (take (ck_len st) d) \<le> 65535"
  defines "D \<equiv> take (ck_len st) d" and "st' \<equiv> ck_block w d st"
  shows "ceq (ck_value st') (unat (ck_sum st) + wsum D) \<and> (ck_mlen st' = - 1 \<longleftrightarrow> odd (length D))
    \<and> ck_len st' = ck_len st - length D \<and> 2 * unat (ck_sum st') \<le> 2 ^ 25 + 65535 * (2 * (length D div 2))"
proof -
  obtain c0 T where D: "D = c0 # T" using ne by (cases D) (auto simp: D_def)
  have T: "length T \<le> 65535" using n D by (simp add: D_def [symmetric])
  let ?s0 = "push_bit 8 (REDUCE (ck_sum st))"
  have T2: "length T div 2 \<le> 32767" using div_le_mono [OF T, of 2] by simp
  have "unat ?s0 + 65535 * (length T div 2) < 2 ^ 32"
    using unat_shift8(2) [of "ck_sum st"] T2 by simp
  then obtain d1 s1 d2 s2 d3 s3 where
    l: "words_loop 16 T ?s0 = (d1, s1)" "words_loop 4 d1 s1 = (d2, s2)"
    "words_loop 1 d2 (REDUCE s2) = (d3, s3)" and e: "length d2 < 8" "length d3 < 2"
    "even (length d2) = even (length T)" "even (length d3) = even (length T)"
    and v: "unat s2 + wsum d2 = unat ?s0 + wsum T" "unat s2 \<le> unat ?s0 + 65535 * (length T div 2)"
    "ceq (unat s3 + wsum d3) (unat ?s0 + wsum T)" "unat s3 \<le> unat ?s0 + 65535 * (length T div 2)"
    by (rule three_loops [OF _ T])
  have st': "st' = (if d3 \<noteq> [] then st\<lparr>ck_sum := push_bit 8 (REDUCE s3) + ld16 c0 (d3 ! 0), ck_c0 := c0, ck_mlen := 0,
      ck_len := ck_len st - length D\<rparr>
    else st\<lparr>ck_sum := push_bit 8 (REDUCE s3), ck_c0 := c0, ck_mlen := - 1, ck_len := ck_len st - length D\<rparr>)"
    using assms(1) ne l by (auto simp: st'_def ck_block_def Let_def D_def [symmetric] D)
  have r: "ceq (unat (REDUCE x)) (unat x)" for x using unat_REDUCE by blast
  have "ceq (unat ?s0 + wsum T) (256 * unat (ck_sum st) + wsum T)"
    unfolding unat_shift8(1) by (intro ceq_add ceq_refl ceq_mult r) simp
  with v(3) have v': "ceq (unat s3 + wsum d3) (256 * unat (ck_sum st) + wsum T)" by (rule ceq_trans)
  have v'': "ceq (256 * (unat s3 + wsum d3) + unat c0) (unat (ck_sum st) + wsum D)"
    unfolding D by (rule ceq_swapped [OF v'])
  have b: "unat (push_bit 8 (REDUCE s3)) \<le> 16776960" by (rule unat_shift8)
  consider "d3 = []" | x where "d3 = [x]" using short_list [OF e(2)] by blast
  then show ?thesis
  proof cases
    case 1
    have "ceq (256 * unat (REDUCE s3) + unat c0) (256 * (unat s3 + wsum d3) + unat c0)"
      using 1 by (intro ceq_add ceq_refl ceq_mult) (simp_all add: r)
    from ceq_trans [OF this v''] 1 e b show ?thesis
      by (simp add: st' ck_value_def unat_shift8(1) D)
  next
    case 2
    have u: "unat (push_bit 8 (REDUCE s3) + ld16 c0 x) = 256 * unat (REDUCE s3) + (unat c0 + 256 * unat x)"
      unfolding unat_shift8(1) [symmetric] using b by (intro unat_add_ld16) simp
    have "unat c0 < 256" "unat x < 256" by (rule unat_u8_less)+
    then have c: "unat c0 + 256 * unat x \<le> 65535" by linarith
    have "ceq (256 * unat (REDUCE s3) + (unat c0 + 256 * unat x)) (256 * (unat s3 + wsum d3) + unat c0)"
      using ceq_add [OF ceq_mult [OF r [of s3], of 256] ceq_refl, of "unat c0 + 256 * unat x"] 2 by (simp add: algebra_simps)
    from ceq_trans [OF this v''] have "ceq (ck_value st') (unat (ck_sum st) + wsum D)"
      using 2 by (simp add: st' ck_value_def u)
    moreover have "2 * unat (ck_sum st') \<le> 2 ^ 25 + 65535 * (2 * (length D div 2))"
    proof -
      have "odd (length T)" using e(4) 2 by simp
      then have "1 \<le> length D div 2" unfolding D by (auto elim: oddE)
      moreover have "2 * (256 * unat (REDUCE s3) + (unat c0 + 256 * unat x)) \<le> 2 ^ 25 + 65535 * 2"
        using b c unfolding unat_shift8(1) by simp
      ultimately show ?thesis using 2 by (simp add: st' u)
    qed
    moreover have "ck_mlen st' = - 1 \<longleftrightarrow> odd (length D)" "ck_len st' = ck_len st - length D"
      using 2 e by (simp_all add: st' D)
    ultimately show ?thesis by blast
  qed
qed

text \<open>Any block, on a state in which no byte waits and \<open>n\<close> bytes have been added.\<close>

lemma ck_block_spec:
  fixes w :: nat
  assumes "2 * unat (ck_sum st) \<le> 2 ^ 25 + 65535 * n" and "n + length (take (ck_len st) d) \<le> 65535"
  defines "D \<equiv> take (ck_len st) d" and "st' \<equiv> ck_block w d st"
  shows "ceq (ck_value st') (unat (ck_sum st) + wsum D) \<and> (ck_mlen st' = - 1 \<longleftrightarrow> odd (length D))
    \<and> ck_len st' = ck_len st - length D \<and> 2 * unat (ck_sum st') \<le> 2 ^ 25 + 65535 * (n + 2 * (length D div 2))"
proof (cases "even w \<or> D = []")
  case True
  with ck_block_even [OF _ assms(1,2), of w] show ?thesis unfolding D_def st'_def by blast
next
  case False
  then have "odd w" "take (ck_len st) d \<noteq> []" "length (take (ck_len st) d) \<le> 65535"
    using assms(2) by (auto simp: D_def)
  from ck_block_odd [OF this] show ?thesis unfolding D_def st'_def by auto
qed

section \<open>The chain\<close>

text \<open>\<open>n\<close> bytes have been added; a byte waits exactly when \<open>n\<close> is odd, and is not in the sum yet.\<close>

definition ck_ok :: "nat \<Rightarrow> ck \<Rightarrow> bool" where
  "ck_ok n st \<longleftrightarrow> (ck_mlen st = - 1 \<longleftrightarrow> odd n) \<and> 2 * unat (ck_sum st) \<le> 2 ^ 25 + 65535 * (2 * (n div 2))"

lemma block_ok:
  assumes "ck_ok n st'" "even n" "ck_sum st = ck_sum st'" "n + length (take (ck_len st) d) \<le> 65535"
  shows "ck_ok (n + length (take (ck_len st) d)) (ck_block w d st)
    \<and> ceq (ck_value (ck_block w d st)) (unat (ck_sum st) + wsum (take (ck_len st) d))
    \<and> ck_len (ck_block w d st) = ck_len st - length (take (ck_len st) d)"
proof -
  let ?D = "take (ck_len st) d"
  have "2 * unat (ck_sum st) \<le> 2 ^ 25 + 65535 * n"
    using assms(1-3) by (simp add: ck_ok_def)
  from ck_block_spec [OF this assms(4), of w] have b: "ceq (ck_value (ck_block w d st)) (unat (ck_sum st) + wsum ?D)"
    "ck_mlen (ck_block w d st) = - 1 \<longleftrightarrow> odd (length ?D)" "ck_len (ck_block w d st) = ck_len st - length ?D"
    "2 * unat (ck_sum (ck_block w d st)) \<le> 2 ^ 25 + 65535 * (n + 2 * (length ?D div 2))" by blast+
  have "2 * ((n + length ?D) div 2) = n + 2 * (length ?D div 2)" using assms(2) by (auto elim!: evenE)
  with b assms(2) show ?thesis by (simp only: ck_ok_def even_add) simp
qed

lemma mbuf_ok:
  fixes m :: cbuf
  assumes ok: "ck_ok n st" and len: "0 < ck_len st" "n + ck_len st \<le> 65535"
  defines "D \<equiv> take (ck_len st) (cb_data m)"
  shows "ck_ok (n + length D) (ck_mbuf m st) \<and> ck_len (ck_mbuf m st) = ck_len st - length D
    \<and> ceq (ck_value (ck_mbuf m st)) (ck_value st + (if even n then wsum D else wsum (0 # D)))"
proof (cases "cb_data m")
  case Nil
  with ok show ?thesis by (auto simp: ck_mbuf_def D_def)
next
  case (Cons x xs)
  show ?thesis
  proof (cases "even n")
    case True
    have "ck_mlen st \<noteq> - 1" using ok True by (simp add: ck_ok_def)
    moreover have "n + length D \<le> 65535" using len by (simp add: D_def)
    ultimately show ?thesis
      using block_ok [OF ok True refl, of "cb_data m" "cb_addr m"] Cons True
      by (simp add: ck_mbuf_def D_def ck_value_def)
  next
    case False
    then have m1: "ck_mlen st = - 1" using ok by (simp add: ck_ok_def)
    let ?st = "st\<lparr>ck_sum := ck_sum st + ld16 (ck_c0 st) x, ck_len := ck_len st - 1\<rparr>"
    have eq: "ck_mbuf m st = ck_block (cb_addr m + 1) xs ?st"
      using m1 Cons by (simp add: ck_mbuf_def)
    have s: "2 * unat (ck_sum st) \<le> 2 ^ 25 + 65535 * (n - 1)" using ok False by (simp add: ck_ok_def)
    have "unat (ck_sum st) + 65535 < 2 ^ 32" using s len by simp
    then have u: "unat (ck_sum st + ld16 (ck_c0 st) x) = unat (ck_sum st) + (unat (ck_c0 st) + 256 * unat x)"
      by (rule unat_add_ld16)
    have "unat (ck_c0 st) < 256" "unat x < 256" by (rule unat_u8_less)+
    then have c: "unat (ck_c0 st) + 256 * unat x \<le> 65535" by linarith
    have n1: "2 * ((n + 1) div 2) = n + 1" "n - 1 + 2 = n + 1" using False by (auto elim!: oddE)
    have "2 * unat (ck_sum st + ld16 (ck_c0 st) x) \<le> 2 ^ 25 + 65535 * (n + 1)"
      using s c False unfolding u by (auto elim!: oddE)
    then have ok': "ck_ok (n + 1) (?st\<lparr>ck_mlen := 0\<rparr>)"
      using False n1 by (simp add: ck_ok_def)
    have D: "D = x # take (ck_len st - 1) xs" using Cons len by (cases "ck_len st") (simp_all add: D_def)
    have "n + 1 + length (take (ck_len ?st) xs) \<le> 65535" using len by simp
    from block_ok [OF ok' _ _ this, of "cb_addr m + 1"] False
    have b: "ck_ok (n + 1 + length (take (ck_len ?st) xs)) (ck_mbuf m st)"
      "ceq (ck_value (ck_mbuf m st)) (unat (ck_sum ?st) + wsum (take (ck_len ?st) xs))"
      "ck_len (ck_mbuf m st) = ck_len ?st - length (take (ck_len ?st) xs)"
      unfolding eq by simp_all
    have "unat (ck_sum ?st) + wsum (take (ck_len ?st) xs) = ck_value st + wsum (0 # D)"
      using m1 by (simp add: ck_value_def u D)
    with b D False show ?thesis by (simp add: add.assoc)
  qed
qed

definition cb_bytes :: "cbuf list \<Rightarrow> u8 list" where
  "cb_bytes ms = concat (map cb_data ms)"

lemma wsum_append2: "wsum (0 # (xs @ ys)) = wsum (0 # xs) + (if even (length xs) then wsum (0 # ys) else wsum ys)"
  using wsum_append [of "0 # xs" ys] by simp

lemma chain_ok:
  assumes "ck_ok n st" "n + ck_len st \<le> 65535" "ck_len st \<le> length (cb_bytes ms)"
  shows "ck_ok (n + ck_len st) (ck_chain ms st)
    \<and> ceq (ck_value (ck_chain ms st)) (ck_value st + (if even n then wsum (take (ck_len st) (cb_bytes ms))
         else wsum (0 # take (ck_len st) (cb_bytes ms))))"
  using assms
proof (induction ms arbitrary: n st)
  case Nil
  then show ?case by (simp add: cb_bytes_def)
next
  case (Cons m ms)
  show ?case
  proof (cases "ck_len st = 0")
    case True
    with Cons.prems show ?thesis by simp
  next
    case False
    let ?D = "take (ck_len st) (cb_data m)" and ?st = "ck_mbuf m st"
    have b: "ck_ok (n + length ?D) ?st" "ck_len ?st = ck_len st - length ?D"
      "ceq (ck_value ?st) (ck_value st + (if even n then wsum ?D else wsum (0 # ?D)))"
      using mbuf_ok [OF Cons.prems(1) _ Cons.prems(2), of m] False by auto
    have lD: "length ?D \<le> ck_len st" by simp
    let ?R = "take (ck_len ?st) (cb_bytes ms)"
    have all: "take (ck_len st) (cb_bytes (m # ms)) = ?D @ ?R"
      by (simp add: cb_bytes_def b(2) min_def)
    have len: "n + length ?D + ck_len ?st = n + ck_len st" using b(2) lD by simp
    have "ck_len ?st \<le> length (cb_bytes ms)"
      using Cons.prems(3) b(2) by (simp add: cb_bytes_def min_def split: if_splits)
    moreover have "n + length ?D + ck_len ?st \<le> 65535" using len Cons.prems(2) by simp
    ultimately have "ck_ok (n + length ?D + ck_len ?st) (ck_chain ms ?st)
      \<and> ceq (ck_value (ck_chain ms ?st)) (ck_value ?st + (if even (n + length ?D) then wsum ?R else wsum (0 # ?R)))"
      by (intro Cons.IH [OF b(1)])
    then have IH: "ck_ok (n + ck_len st) (ck_chain ms ?st)"
      "ceq (ck_value (ck_chain ms ?st)) (ck_value ?st + (if even (n + length ?D) then wsum ?R else wsum (0 # ?R)))"
      unfolding len by blast+
    have v: "ck_value st + (if even n then wsum (?D @ ?R) else wsum (0 # (?D @ ?R)))
      = ck_value st + (if even n then wsum ?D else wsum (0 # ?D)) + (if even (n + length ?D) then wsum ?R else wsum (0 # ?R))"
      unfolding wsum_append2 wsum_append by auto
    have "ck_chain (m # ms) st = ck_chain ms ?st" using False by simp
    moreover have "ceq (ck_value (ck_chain ms ?st)) (ck_value st + (if even n then wsum (?D @ ?R) else wsum (0 # (?D @ ?R))))"
      unfolding v by (rule ceq_trans [OF IH(2) ceq_add [OF b(3) ceq_refl]])
    ultimately show ?thesis
      using IH(1) unfolding all by (simp only: simp_thms)
  qed
qed

lemma skip_ok:
  assumes "ck_ok 0 st" "skip + ck_len st \<le> length (cb_bytes ms)" "ck_len st \<le> 65535"
  shows "ck_ok (ck_len st) (ck_skip ms skip st)
    \<and> ceq (ck_value (ck_skip ms skip st)) (ck_value st + wsum (take (ck_len st) (drop skip (cb_bytes ms))))"
  using assms
proof (induction ms skip st rule: ck_skip.induct)
  case (1 skip st)
  then show ?case by (simp add: cb_bytes_def)
next
  case (2 m ms skip st)
  consider "skip = 0" | "skip \<noteq> 0" "length (cb_data m) > skip" | "skip \<noteq> 0" "length (cb_data m) \<le> skip" by linarith
  then show ?case
  proof cases
    case 1
    with chain_ok [of 0 st "m # ms"] "2.prems" show ?thesis by simp
  next
    case 2
    let ?d = "drop skip (cb_data m)" and ?st = "ck_block (cb_addr m + skip) (drop skip (cb_data m)) st"
    let ?D = "take (ck_len st) ?d"
    have "0 + length ?D \<le> 65535" using "2.prems"(3) by simp
    from block_ok [OF "2.prems"(1) even_zero refl this, of "cb_addr m + skip"]
    have b': "ck_ok (0 + length ?D) ?st" "ceq (ck_value ?st) (unat (ck_sum st) + wsum ?D)" "ck_len ?st = ck_len st - length ?D"
      by blast+
    have "ck_value st = unat (ck_sum st)" using "2.prems"(1) by (simp add: ck_value_def ck_ok_def)
    with b' have b: "ck_ok (length ?D) ?st" "ceq (ck_value ?st) (ck_value st + wsum ?D)" "ck_len ?st = ck_len st - length ?D"
      by (simp_all only: add_0)
    have lD: "length ?D \<le> ck_len st" by simp
    let ?R = "take (ck_len ?st) (cb_bytes ms)"
    have all: "take (ck_len st) (drop skip (cb_bytes (m # ms))) = ?D @ ?R"
      using 2 by (simp add: cb_bytes_def b(3) min_def)
    have len: "length ?D + ck_len ?st = ck_len st" using b(3) lD by simp
    have "ck_len ?st \<le> length (cb_bytes ms)"
      using "2.prems"(2) 2 b(3) by (simp add: cb_bytes_def min_def split: if_splits)
    with chain_ok [OF b(1), of ms] len "2.prems"(3)
    have c: "ck_ok (ck_len st) (ck_chain ms ?st)"
      "ceq (ck_value (ck_chain ms ?st)) (ck_value ?st + (if even (length ?D) then wsum ?R else wsum (0 # ?R)))"
      by simp_all
    from ceq_trans [OF c(2) ceq_add [OF b(2) ceq_refl]] c(1) 2 show ?thesis
      unfolding all by (simp add: wsum_append add.assoc)
  next
    case 3
    then have "drop skip (cb_bytes (m # ms)) = drop (skip - length (cb_data m)) (cb_bytes ms)"
      "skip - length (cb_data m) + ck_len st \<le> length (cb_bytes ms)"
      using "2.prems"(2) by (simp_all add: cb_bytes_def)
    with 3 "2.IH" "2.prems" show ?thesis by simp
  qed
qed

section \<open>The pseudo header\<close>

lemma unat_be32: "unat (be32 a b c d) = 16777216 * unat a + 65536 * unat b + 256 * unat c + unat d"
proof -
  have 1: "(push_bit 8 (ucast c) :: u32) OR ucast d = push_bit 8 (ucast c) + ucast d"
    by (rule disjunctive_add_eq_or [symmetric], rule bit_word_eqI) (auto simp: bit_simps dest: bit_imp_le_length)
  have 2: "(push_bit 16 (ucast b) :: u32) OR (push_bit 8 (ucast c) OR ucast d) = push_bit 16 (ucast b) + (push_bit 8 (ucast c) OR ucast d)"
    by (rule disjunctive_add_eq_or [symmetric], rule bit_word_eqI) (auto simp: bit_simps dest: bit_imp_le_length)
  have 3: "(push_bit 24 (ucast a) :: u32) OR (push_bit 16 (ucast b) OR (push_bit 8 (ucast c) OR ucast d))
      = push_bit 24 (ucast a) + (push_bit 16 (ucast b) OR (push_bit 8 (ucast c) OR ucast d))"
    by (rule disjunctive_add_eq_or [symmetric], rule bit_word_eqI) (auto simp: bit_simps dest: bit_imp_le_length)
  have "be32 a b c d = push_bit 24 (ucast a) + (push_bit 16 (ucast b) + (push_bit 8 (ucast c) + ucast d))"
    by (simp only: be32_def or.assoc, simp only: 3, simp only: 2, simp only: 1)
  also have "\<dots> = of_nat (16777216 * unat a + 65536 * unat b + 256 * unat c + unat d)"
    by (simp add: push_bit_eq_mult algebra_simps)
  finally have e: "be32 a b c d = of_nat (16777216 * unat a + 65536 * unat b + 256 * unat c + unat d)" .
  have "unat a < 256" "unat b < 256" "unat c < 256" "unat d < 256" by (rule unat_u8_less)+
  then have "16777216 * unat a + 65536 * unat b + 256 * unat c + unat d < 4294967296" by linarith
  then show ?thesis unfolding e by (simp only: unsigned_of_nat) (simp add: take_bit_nat_eq_self)
qed

lemma unat_bound: "unat (x :: u32) < 4294967296"
  using unsigned_less [where 'a = nat and 'b = 32, of x] by simp

lemma canon_id: "r \<le> 65535 \<Longrightarrow> canon r = r"
  by (simp add: canon_def)

lemma REDUCE_canon: "unat (REDUCE x) = canon (unat x)"
  using unat_REDUCE [of x] canon_ceq [of "unat (REDUCE x)" "unat x"] canon_id [of "unat (REDUCE x)"] by simp

lemma ceq_quarters:
  "ceq (x mod 65536 + x div 65536 mod 65536 + x div 4294967296 mod 65536 + x div 281474976710656) x"
proof -
  let ?y = "x div 65536" and ?z = "x div 65536 div 65536" and ?w = "x div 65536 div 65536 div 65536"
  have "ceq (?z mod 65536 + ?w) ?z" by (rule ceq_halves)
  then have "ceq (?y mod 65536 + (?z mod 65536 + ?w)) (?y mod 65536 + ?z)" by (intro ceq_add ceq_refl)
  then have "ceq (?y mod 65536 + (?z mod 65536 + ?w)) ?y" using ceq_trans [OF _ ceq_halves] by blast
  then have "ceq (x mod 65536 + (?y mod 65536 + (?z mod 65536 + ?w))) (x mod 65536 + ?y)" by (intro ceq_add ceq_refl)
  then have "ceq (x mod 65536 + (?y mod 65536 + (?z mod 65536 + ?w))) x" using ceq_trans [OF _ ceq_halves] by blast
  then show ?thesis by (simp add: div_mult2_eq [symmetric] add.assoc)
qed

lemma unat_quarter: "unat (ucast (drop_bit n x AND 0xffff :: u64) :: u32) = unat x div 2 ^ n mod 65536"
proof -
  have "(0xffff :: u64) = mask 16" by (simp add: mask_eq_exp_minus_1)
  then have "drop_bit n x AND 0xffff = take_bit 16 (drop_bit n x)" by (simp only: take_bit_eq_mask)
  then have "unat (drop_bit n x AND 0xffff) = unat x div 2 ^ n mod 65536"
    by (simp only: unsigned_take_bit_eq unat_drop_bit_eq) (simp add: take_bit_eq_mod drop_bit_eq_div)
  then show ?thesis by (simp add: unsigned_ucast_eq take_bit_nat_eq_self)
qed

lemma REDUCE16_canon: "unat (REDUCE16 x) = canon (unat x)"
proof -
  let ?q = "\<lambda>i. ucast (drop_bit (16 * i) x AND 0xffff) :: u32"
  let ?l = "?q 0 + ?q 1 + ?q 2 + ?q 3"
  have b: "unat (?q i) \<le> 65535" for i unfolding unat_quarter by (simp add: less_Suc_eq_le [symmetric])
  have l: "unat ?l = unat (?q 0) + unat (?q 1) + unat (?q 2) + unat (?q 3)"
    using b [of 0] b [of 1] b [of 2] b [of 3]
    by (simp add: unat_word_ariths(1))
  have x: "unat x < 18446744073709551616" using unsigned_less [where 'a = nat and 'b = 64, of x] by simp
  have "unat (?q 0) + unat (?q 1) + unat (?q 2) + unat (?q 3)
      = unat x mod 65536 + unat x div 65536 mod 65536 + unat x div 4294967296 mod 65536 + unat x div 281474976710656"
    using x by (simp only: unat_quarter) (simp add: less_mult_imp_div_less)
  with ceq_quarters [of "unat x"] l have c: "ceq (unat ?l) (unat x)" by simp
  have "REDUCE16 x = REDUCE ?l" by (simp add: REDUCE16_def REDUCE_def Let_def)
  with REDUCE_canon [of ?l] canon_ceq [OF c] show ?thesis by simp
qed

lemma ceq_word32:
  "ceq (unat a + 256 * unat b + 65536 * unat c + 16777216 * unat d) (wsum [a, b, c, d])"
proof -
  have "ceq (unat a + 256 * unat b + 65536 * (unat c + 256 * unat d)) (unat a + 256 * unat b + (unat c + 256 * unat d))"
    by (intro ceq_add ceq_refl ceq_65536)
  then show ?thesis by (simp add: algebra_simps)
qed

lemma ceq_ld32: "i + 4 \<le> length d \<Longrightarrow> ceq (unat (ld32 d i)) (wsum (take 4 (drop i d)))"
proof -
  assume i: "i + 4 \<le> length d"
  have "drop i d = d ! i # d ! (i + 1) # d ! (i + 2) # d ! (i + 3) # drop (i + 4) d"
    using i by (simp add: Cons_nth_drop_Suc numeral_eq_Suc)
  then have "take 4 (drop i d) = [d ! i, d ! (i + 1), d ! (i + 2), d ! (i + 3)]" by simp
  then show ?thesis
    using ceq_word32 [of "d ! i" "d ! (i + 1)" "d ! (i + 2)" "d ! (i + 3)"]
    by (simp only: ld32_def unat_be32) (simp add: algebra_simps)
qed

lemma ceq_htonl: "ceq (unat (htonl x)) (wsum (bytes_be32 x))"
  using ceq_word32 [of "byte_at 24 x" "byte_at 16 x" "byte_at 8 x" "byte_at 0 x"]
  by (simp only: htonl_def ntohl_def unat_be32 bytes_be32_def) (simp add: algebra_simps)

lemma in_pseudo_canon: "unat (in_pseudo a b c) = canon (unat a + unat b + unat c)"
proof -
  have "unat (ucast w :: u64) = unat w" for w :: u32
    using unat_bound [of w] by (simp add: unsigned_ucast_eq take_bit_nat_eq_self)
  then have "unat (ucast a + ucast b + ucast c :: u64) = unat a + unat b + unat c"
    using unat_bound [of a] unat_bound [of b] unat_bound [of c] by (simp add: unat_word_ariths(1))
  then have r: "unat (REDUCE16 (ucast a + ucast b + ucast c)) = canon (unat a + unat b + unat c)"
    by (simp only: REDUCE16_canon)
  have "canon n \<le> 65535" for n by (simp add: canon_def less_Suc_eq_le [symmetric])
  then show ?thesis
    unfolding in_pseudo_def by (simp only: unsigned_ucast_eq r) (simp add: take_bit_nat_eq_self less_Suc_eq_le [symmetric] le_less_trans)
qed

section \<open>The reference\<close>

text \<open>The pseudo header of a nonzero next-protocol argument: source and destination address out of the
  IP header at the front of the first buffer, and the sum of length and protocol in network order.\<close>

definition pseudo_bytes :: "cbuf list \<Rightarrow> u32 \<Rightarrow> u32 \<Rightarrow> u8 list" where
  "pseudo_bytes chain nxt len =
    (if nxt = 0 then [] else take 8 (drop 12 (cb_data (hd chain))) @ bytes_be32 (len + nxt))"

text \<open>The one's complement checksum of a byte string.\<close>

definition checksum :: "u8 list \<Rightarrow> u16" where
  "checksum bs = of_nat (65535 - canon (wsum bs))"

lemma canon_le: "canon n \<le> 65535"
  by (simp add: canon_def less_Suc_eq_le [symmetric])

lemma unat_checksum: "unat (checksum bs) = 65535 - canon (wsum bs)"
  by (simp add: checksum_def unsigned_of_nat take_bit_nat_eq_self)

lemma finish: "ucast (NOT x AND 0xffff :: u32) = (of_nat (65535 - unat x) :: u16)" if "unat x \<le> 65535" for x :: u32
proof -
  have "(0xffff :: u32) = mask 16" by (simp add: mask_eq_exp_minus_1)
  then have m: "NOT x AND 0xffff = take_bit 16 (NOT x)" by (simp only: take_bit_eq_mask)
  have "take_bit 16 x = x" using that by (intro word_unat_eq_iff [THEN iffD2]) (simp add: unsigned_take_bit_eq take_bit_nat_eq_self)
  then have n: "take_bit 16 (NOT x) = mask 16 - x" by (metis take_bit_not_eq_mask_diff take_bit_not_take_bit)
  have le: "x \<le> mask 16" using that by (simp add: word_le_nat_alt mask_eq_exp_minus_1)
  have "unat (mask 16 - x) = 65535 - unat x"
    using unat_sub [OF le] by (simp add: mask_eq_exp_minus_1)
  then have "unat (ucast (mask 16 - x) :: u16) = 65535 - unat x"
    by (simp only: unsigned_ucast_eq) (simp add: take_bit_nat_eq_self)
  then show ?thesis
    unfolding m n by (intro word_unat_eq_iff [THEN iffD2]) (simp add: unsigned_of_nat take_bit_nat_eq_self)
qed

lemma inet_cksum_eq:
  assumes hdr: "length (cb_bytes chain) \<le> 65535" and range: "unat skip + unat len \<le> length (cb_bytes chain)"
    and ip: "nxt = 0 \<or> (\<exists>m ms. chain = m # ms \<and> 20 \<le> length (cb_data m))"
  shows "inet_cksum chain (int (length (cb_bytes chain))) nxt skip len =
    Some (checksum (pseudo_bytes chain nxt len @ take (unat len) (drop (unat skip) (cb_bytes chain))))"
proof -
  let ?data = "take (unat len) (drop (unat skip) (cb_bytes chain))"
  have total: "unat (word_of_int (int (length (cb_bytes chain))) :: u32) = length (cb_bytes chain)"
    using hdr by (simp add: unsigned_of_nat take_bit_nat_eq_self)
  have sl: "unat (skip + len) = unat skip + unat len"
    using hdr range by (simp add: unat_word_ariths(1))
  have ok: "\<not> word_of_int (int (length (cb_bytes chain))) < skip + len"
    using range by (simp only: word_less_nat_alt total sl not_less)
  define s0 :: u32 where "s0 = (if nxt \<noteq> 0 then ucast (in_pseudo (ld32 (cb_data (hd chain)) 12) (ld32 (cb_data (hd chain)) 16) (htonl (len + nxt))) else 0)"
  have s0: "ceq (unat s0) (wsum (pseudo_bytes chain nxt len)) \<and> unat s0 \<le> 65535 \<and> even (length (pseudo_bytes chain nxt len))"
  proof (cases "nxt = 0")
    case False
    with ip obtain m ms where m: "chain = m # ms" "20 \<le> length (cb_data m)" by blast
    let ?a = "take 4 (drop 12 (cb_data m))" and ?b = "take 4 (drop 16 (cb_data m))"
    have eight: "take 8 (drop 12 (cb_data m)) = ?a @ ?b"
      using take_add [of 4 4 "drop 12 (cb_data m)"] by simp
    have la: "length ?a = 4" "length ?b = 4" using m(2) by auto
    have u: "unat s0 = canon (unat (ld32 (cb_data m) 12) + unat (ld32 (cb_data m) 16) + unat (htonl (len + nxt)))"
      using False m(1) canon_le by (simp add: s0_def in_pseudo_canon [symmetric] unsigned_ucast_eq take_bit_nat_eq_self less_trans [OF unsigned_less])
    have "ceq (unat (ld32 (cb_data m) 12) + unat (ld32 (cb_data m) 16) + unat (htonl (len + nxt)))
      (wsum ?a + wsum ?b + wsum (bytes_be32 (len + nxt)))"
      using m(2) by (intro ceq_add ceq_ld32 ceq_htonl) simp_all
    also have "wsum ?a + wsum ?b + wsum (bytes_be32 (len + nxt)) = wsum (pseudo_bytes chain nxt len)"
      using False m(1) la by (simp add: pseudo_bytes_def eight wsum_append)
    finally have c: "ceq (unat (ld32 (cb_data m) 12) + unat (ld32 (cb_data m) 16) + unat (htonl (len + nxt))) (wsum (pseudo_bytes chain nxt len))" .
    have "ceq (canon n) n" for n by (cases n) (auto simp: ceq_def canon_def mod_Suc)
    from ceq_trans [OF this c] u canon_le m(1) la False show ?thesis
      by (simp add: pseudo_bytes_def eight)
  qed (simp add: s0_def pseudo_bytes_def)
  let ?start = "\<lparr>ck_sum = s0, ck_mlen = 0, ck_c0 = 0, ck_len = unat len\<rparr>"
  let ?st = "ck_skip chain (unat skip) ?start"
  have "ck_ok 0 ?start" using s0 by (simp add: ck_ok_def)
  from skip_ok [OF this, of "unat skip" chain] hdr range
  have st: "ck_ok (unat len) ?st" "ceq (ck_value ?st) (unat s0 + wsum ?data)" by (simp_all add: ck_value_def)
  let ?sum = "if ck_mlen ?st = - 1 then ck_sum ?st + ld16 (ck_c0 ?st) 0 else ck_sum ?st"
  have "2 * unat (ck_sum ?st) \<le> 2 ^ 25 + 65535 * 65535"
    using st(1) hdr range by (auto simp: ck_ok_def)
  then have "unat ?sum = ck_value ?st"
    by (auto simp: ck_value_def unat_add_ld16)
  with ceq_trans [OF st(2) ceq_add [OF s0 [THEN conjunct1] ceq_refl]]
  have c: "ceq (unat ?sum) (wsum (pseudo_bytes chain nxt len @ ?data))"
    using s0 by (simp add: wsum_append)
  have "\<not> (nxt \<noteq> 0 \<and> (case chain of [] \<Rightarrow> True | m # _ \<Rightarrow> length (cb_data m) < SIZEOF_IP))"
    using ip by (auto simp: SIZEOF_IP_def)
  with ok have "inet_cksum chain (int (length (cb_bytes chain))) nxt skip len = Some (ucast (NOT (REDUCE ?sum) AND 0xffff))"
    by (simp only: inet_cksum_def if_False Let_def s0_def simp_thms)
  also have "\<dots> = Some (checksum (pseudo_bytes chain nxt len @ ?data))"
    using unat_REDUCE [of ?sum] by (simp only: finish REDUCE_canon canon_ceq [OF c] checksum_def)
  finally show ?thesis .
qed

lemma ceq_canon: "ceq (canon n) n"
  by (cases n) (auto simp: ceq_def canon_def mod_Suc)

section \<open>Properties\<close>

text \<open>C20: the routine computes the reference checksum. For every chain of buffers, however the packet is
  cut into pieces and at whatever addresses they lie, the result is the one's complement checksum of the
  pseudo header and the \<open>len\<close> bytes behind \<open>skip\<close>: the unrolled loops, the byte-swapped addition of
  pieces at odd addresses and the bytes carried from one buffer to the next make no difference, and the
  32-bit sum does not overflow for packets below 64 kB.\<close>

theorem inet_cksum_correct:
  assumes "length (cb_bytes chain) \<le> 65535" and "unat skip + unat len \<le> length (cb_bytes chain)"
    and "nxt = 0 \<or> (\<exists>m ms. chain = m # ms \<and> 20 \<le> length (cb_data m))"
  shows "inet_cksum chain (int (length (cb_bytes chain))) nxt skip len =
    Some (checksum (pseudo_bytes chain nxt len @ take (unat len) (drop (unat skip) (cb_bytes chain))))"
  by (rule inet_cksum_eq [OF assms])

definition odd_chain :: "cbuf list" where
  "odd_chain = [\<lparr>cb_addr = 1, cb_data = [1, 2, 3]\<rparr>, \<lparr>cb_addr = 4, cb_data = []\<rparr>, \<lparr>cb_addr = 7, cb_data = [4, 5]\<rparr>]"

theorem inet_cksum_correct_witness:
  "inet_cksum odd_chain (int (length (cb_bytes odd_chain))) 0 1 4 =
    Some (checksum (pseudo_bytes odd_chain 0 4 @ take (unat (4 :: u32)) (drop (unat (1 :: u32)) (cb_bytes odd_chain))))"
  by (rule inet_cksum_correct) (simp_all add: odd_chain_def cb_bytes_def)

text \<open>A receiver accepts what a sender computed. When the checksum of a packet with a zero checksum
  field at an even offset is stored in that field, the checksum of the packet is 0, on any other chain
  of buffers as well.\<close>

theorem inet_cksum_verifies:
  assumes "even (length a)" and "length (cb_bytes sent) \<le> 65535"
    and "cb_bytes sent = a @ [0, 0] @ b"
    and "inet_cksum sent (int (length (cb_bytes sent))) 0 0 (of_nat (length (cb_bytes sent))) = Some ck"
    and "cb_bytes received = a @ [ucast ck, ucast (drop_bit 8 ck)] @ b"
  shows "inet_cksum received (int (length (cb_bytes received))) 0 0 (of_nat (length (cb_bytes received))) = Some 0"
proof -
  have len: "length (cb_bytes received) = length (cb_bytes sent)" using assms(3,5) by simp
  have n: "unat (of_nat (length (cb_bytes sent)) :: u32) = length (cb_bytes sent)"
    using assms(2) by (simp add: unsigned_of_nat take_bit_nat_eq_self)
  have "checksum (a @ [0, 0] @ b) = ck"
    using inet_cksum_eq [of sent 0 "of_nat (length (cb_bytes sent))" 0] assms(2-4) n by (simp add: pseudo_bytes_def)
  then have ck: "unat ck = 65535 - canon (wsum (a @ [0, 0] @ b))" by (metis unat_checksum)
  let ?S = "wsum (a @ [0, 0] @ b)"
  have low: "unat (ucast ck :: u8) = unat ck mod 256"
    by (simp only: unsigned_ucast_eq) (simp add: take_bit_eq_mod)
  have lt: "unat ck < 65536" using ck by linarith
  have high: "unat (ucast (drop_bit 8 ck) :: u8) = unat ck div 256"
    using lt by (simp only: unsigned_ucast_eq unat_drop_bit_eq) (simp add: take_bit_nat_eq_self drop_bit_eq_div less_mult_imp_div_less)
  have "wsum (cb_bytes received) = ?S + unat ck"
    using assms(1,5) low high by (simp add: wsum_append)
  moreover have "ceq (?S + unat ck) (canon ?S + unat ck)"
    by (intro ceq_add ceq_refl ceq_sym [OF ceq_canon])
  moreover have "canon ?S + unat ck = 65535" using ck canon_le [of ?S] by simp
  ultimately have "ceq (wsum (cb_bytes received)) 65535" by (simp only:)
  then have "canon (wsum (cb_bytes received)) = canon 65535" by (rule canon_ceq)
  then have "canon (wsum (cb_bytes received)) = 65535" by (simp only: canon_id [of 65535] le_refl)
  then have "checksum (cb_bytes received) = 0" by (simp add: checksum_def)
  then show ?thesis
    using inet_cksum_eq [of received 0 "of_nat (length (cb_bytes received))" 0] assms(2) len n by (simp add: pseudo_bytes_def)
qed

theorem inet_cksum_verifies_witness:
  "inet_cksum [\<lparr>cb_addr = 1, cb_data = [1, 2, 0xfb, 0xfd, 3]\<rparr>] (int (length (cb_bytes [\<lparr>cb_addr = 1, cb_data = [1, 2, 0xfb, 0xfd, 3]\<rparr>])))
    0 0 (of_nat (length (cb_bytes [\<lparr>cb_addr = 1, cb_data = [1, 2, 0xfb, 0xfd, 3]\<rparr>]))) = Some 0"
proof (rule inet_cksum_verifies [where a = "[1, 2]" and b = "[3]" and ck = "0xfdfb" and sent = "[\<lparr>cb_addr = 0, cb_data = [1, 2, 0]\<rparr>, \<lparr>cb_addr = 8, cb_data = [0, 3]\<rparr>]"])
  show "inet_cksum [\<lparr>cb_addr = 0, cb_data = [1, 2, 0]\<rparr>, \<lparr>cb_addr = 8, cb_data = [0, 3]\<rparr>]
      (int (length (cb_bytes [\<lparr>cb_addr = 0, cb_data = [1, 2, 0]\<rparr>, \<lparr>cb_addr = 8, cb_data = [0, 3]\<rparr>]))) 0 0
      (of_nat (length (cb_bytes [\<lparr>cb_addr = 0, cb_data = [1, 2, 0]\<rparr>, \<lparr>cb_addr = 8, cb_data = [0, 3]\<rparr>]))) = Some 0xfdfb"
    by code_simp
qed (simp_all add: cb_bytes_def)

text \<open>\<open>in_addword\<close> and \<open>in_pseudo\<close> add in one's complement: the result is the 16-bit
  representative of the sum, and zero only for a zero sum.\<close>

theorem one_complement_adders:
  "unat (in_addword x y) = canon (unat x + unat y) \<and> unat (in_pseudo a b c) = canon (unat a + unat b + unat c)"
proof
  have w: "unat (ucast w :: u32) = unat w" for w :: u16
    using unsigned_less [where 'a = nat and 'b = 16, of w] by (simp add: unsigned_ucast_eq take_bit_nat_eq_self)
  have "unat x < 65536" "unat y < 65536"
    using unsigned_less [where 'a = nat and 'b = 16, of x] unsigned_less [where 'a = nat and 'b = 16, of y] by simp_all
  then have "unat (ucast x + ucast y :: u32) = unat x + unat y"
    by (simp add: unat_word_ariths(1) w)
  then have r: "unat (REDUCE (ucast x + ucast y)) = canon (unat x + unat y)"
    by (simp only: REDUCE_canon)
  have "canon (unat x + unat y) < 65536" using canon_le le_less_trans by fastforce
  then show "unat (in_addword x y) = canon (unat x + unat y)"
    unfolding in_addword_def by (simp only: unsigned_ucast_eq r) (simp add: take_bit_nat_eq_self)
qed (rule in_pseudo_canon)

end
