(* ===== verification/Clist.thy ===== *)
theory Clist
  imports Prelude "HOL-Library.Monad_Syntax"
begin

text \<open>
  The character queues of the terminal driver, \<^verbatim>\<open>kern/tty_subr.c\<close>: ring buffers of bytes, each with a
  quote bit. Pointers into the ring (\<^verbatim>\<open>c_cf\<close>, \<^verbatim>\<open>c_cl\<close>, \<^verbatim>\<open>c_ce\<close>) are offsets from \<^verbatim>\<open>c_cs\<close>; \<open>None\<close>
  is the NULL pointer. The quote bits are stored eight to a byte (\<^verbatim>\<open>QBITS\<close>). The operations live in
  the option monad: \<open>None\<close> is an access outside the allocated memory, through NULL, or a loop that
  makes no progress. The abstract view is a bounded queue of characters with a quote flag.
\<close>

section \<open>The data\<close>

abbreviation "TTY_QUOTE \<equiv> 0x100 :: int"
abbreviation "NBBY \<equiv> 8 :: nat"

record clist =
  c_cc :: int
  c_cn :: int
  c_cf :: "nat option"
  c_cl :: "nat option"
  c_cs :: "u8 list option"
  c_ce :: nat
  c_cq :: "u8 list option"

definition QMEM :: "nat \<Rightarrow> nat" where
  "QMEM n = (n - 1) div NBBY + 1"

section \<open>Quote bits\<close>

definition isset :: "u8 list \<Rightarrow> nat \<Rightarrow> bool option" where
  "isset a i = do { b \<leftarrow> rd a (i div NBBY); Some (b AND push_bit (i mod NBBY) 1 \<noteq> 0) }"

definition setbit :: "u8 list \<Rightarrow> nat \<Rightarrow> u8 list option" where
  "setbit a i = do { b \<leftarrow> rd a (i div NBBY); wr a (i div NBBY) (b OR push_bit (i mod NBBY) 1) }"

definition clrbit :: "u8 list \<Rightarrow> nat \<Rightarrow> u8 list option" where
  "clrbit a i = do { b \<leftarrow> rd a (i div NBBY); wr a (i div NBBY) (b AND NOT (push_bit (i mod NBBY) 1)) }"

function zero_bytes :: "u8 list \<Rightarrow> nat \<Rightarrow> nat \<Rightarrow> u8 list option" where
  "zero_bytes cp i eby = (if i < eby then wr cp i 0 \<bind> (\<lambda>cp. zero_bytes cp (Suc i) eby) else Some cp)"
  by pat_completeness auto
termination
  by (relation "measure (\<lambda>(cp, i, eby). eby - i)") auto

declare zero_bytes.simps [simp del]

definition clrbits :: "u8 list \<Rightarrow> nat \<Rightarrow> nat \<Rightarrow> u8 list option" where
  "clrbits cp off len =
    (if len = 1 then clrbit cp off
     else
       let sby = off div NBBY; sbi = off mod NBBY; eby = (off + len) div NBBY; ebi = (off + len) mod NBBY
       in if sby = eby then
            do { b \<leftarrow> rd cp sby;
                 wr cp sby (b AND NOT (push_bit sbi (push_bit (ebi - sbi) 1 - 1))) }
          else
            do { b \<leftarrow> rd cp sby;
                 cp \<leftarrow> wr cp sby (b AND (push_bit sbi 1 - 1));
                 b \<leftarrow> rd cp eby;
                 cp \<leftarrow> wr cp eby (b AND NOT (push_bit ebi 1 - 1));
                 zero_bytes cp (Suc sby) eby })"

section \<open>Allocation\<close>

text \<open>\<open>mem_s\<close> and \<open>mem_q\<close> are the arrays the two calls of \<^verbatim>\<open>MALLOC_ZONE\<close> return. Freed memory that
  a pointer still names is an array without accessible bytes.\<close>

definition bzero :: "u8 list \<Rightarrow> nat \<Rightarrow> u8 list option" where
  "bzero xs n = (if n \<le> length xs then Some (replicate n 0 @ drop n xs) else None)"

definition clalloc ::
  "u8 list option \<Rightarrow> u8 list option \<Rightarrow> clist \<Rightarrow> nat \<Rightarrow> bool \<Rightarrow> (int \<times> clist) option" where
  "clalloc mem_s mem_q clp n quot =
    (case mem_s of
       None \<Rightarrow> Some (-1, clp\<lparr>c_cs := None\<rparr>)
     | Some s \<Rightarrow>
         do { s \<leftarrow> bzero s n;
              if quot \<and> mem_q = None then Some (-1, clp\<lparr>c_cs := Some [], c_cq := None\<rparr>)
              else do { s \<leftarrow> (if quot then bzero s (QMEM n) else Some s);
                        Some (0, clp\<lparr>c_cs := Some s, c_cq := (if quot then mem_q else None),
                                     c_cf := None, c_cl := None, c_ce := n, c_cn := int n, c_cc := 0\<rparr>) } })"

definition clfree :: "clist \<Rightarrow> clist" where
  "clfree clp = clp\<lparr>c_cs := None, c_cq := None\<rparr>"

section \<open>One character at a time\<close>

text \<open>The character at a place of the ring, with its quote bit.\<close>

definition fetch :: "clist \<Rightarrow> nat \<Rightarrow> int option" where
  "fetch clp p =
    do { cs \<leftarrow> c_cs clp;
         b \<leftarrow> rd cs p;
         q \<leftarrow> (case c_cq clp of None \<Rightarrow> Some False | Some a \<Rightarrow> isset a p);
         Some (if q then uint b OR TTY_QUOTE else uint b) }"

definition getc :: "clist \<Rightarrow> (int \<times> clist) option" where
  "getc clp =
    (if c_cc clp = 0 then Some (-1, clp)
     else do { f \<leftarrow> c_cf clp;
               c \<leftarrow> fetch clp f;
               let f = (if f + 1 = c_ce clp then 0 else f + 1); cc = c_cc clp - 1
               in Some (c, if cc = 0 then clp\<lparr>c_cc := cc, c_cf := None, c_cl := None\<rparr>
                           else clp\<lparr>c_cc := cc, c_cf := Some f\<rparr>) })"

definition unputc :: "clist \<Rightarrow> (int \<times> clist) option" where
  "unputc clp =
    (if c_cc clp = 0 then Some (-1, clp)
     else do { l \<leftarrow> c_cl clp;
               let l = (if l = 0 then c_ce clp - 1 else l - 1); cc = c_cc clp - 1
               in do { c \<leftarrow> fetch clp l;
                       Some (c, if cc = 0 then clp\<lparr>c_cc := cc, c_cf := None, c_cl := None\<rparr>
                                else clp\<lparr>c_cc := cc, c_cl := Some l\<rparr>) } })"

text \<open>The start of \<open>putc\<close> and \<open>b_to_q\<close>: an empty queue gets its ring, if it has none, and its pointers;
  the flag is false when there is no memory.\<close>

definition ready :: "u8 list option \<Rightarrow> u8 list option \<Rightarrow> clist \<Rightarrow> (bool \<times> clist) option" where
  "ready mem_s mem_q clp =
    (if c_cc clp = 0 then
       do { (e, clp) \<leftarrow> (if c_cs clp = None then clalloc mem_s mem_q clp 1024 True else Some (0, clp));
            Some (if e \<noteq> 0 then (False, clp) else (True, clp\<lparr>c_cf := Some 0, c_cl := Some 0\<rparr>)) }
     else Some (True, clp))"

definition putc :: "u8 list option \<Rightarrow> u8 list option \<Rightarrow> int \<Rightarrow> clist \<Rightarrow> (int \<times> clist) option" where
  "putc mem_s mem_q c clp =
    do { (ok, clp) \<leftarrow> ready mem_s mem_q clp;
         if \<not> ok \<or> c_cc clp = c_cn clp then Some (-1, clp)
         else do { l \<leftarrow> c_cl clp;
                   cs \<leftarrow> c_cs clp;
                   cs \<leftarrow> wr cs l (word_of_int c);
                   cq \<leftarrow> (case c_cq clp of
                           None \<Rightarrow> Some None
                         | Some a \<Rightarrow> map_option Some (if c AND TTY_QUOTE \<noteq> 0 then setbit a l else clrbit a l));
                   Some (0, clp\<lparr>c_cs := Some cs, c_cq := cq, c_cc := c_cc clp + 1,
                                c_cl := Some (if l + 1 = c_ce clp then 0 else l + 1)\<rparr>) } }"

section \<open>Many characters at a time\<close>

text \<open>One turn of the loop of \<open>q_to_b\<close>: the bytes copied out, and how many are still wanted.\<close>

definition run_length :: "clist \<Rightarrow> nat \<Rightarrow> nat \<Rightarrow> int" where
  "run_length clp f l = (if l \<le> f then int (c_ce clp) - int f else int l - int f)"

definition q_to_b_turn :: "clist \<Rightarrow> int \<Rightarrow> (u8 list \<times> int \<times> clist) option" where
  "q_to_b_turn clp count =
    do { f \<leftarrow> c_cf clp; l \<leftarrow> c_cl clp; cs \<leftarrow> c_cs clp;
         let cc = (if run_length clp f l > count then count else run_length clp f l)
         in if cc \<le> 0 \<or> f + nat cc > length cs then None
            else Some (take (nat cc) (drop f cs), count - cc,
                       clp\<lparr>c_cc := c_cc clp - cc,
                           c_cf := Some (if f + nat cc = c_ce clp then 0 else f + nat cc)\<rparr>) }"

lemma q_to_b_turn_count: "q_to_b_turn clp count = Some (p, count', clp') \<Longrightarrow> count' < count"
  by (auto simp: q_to_b_turn_def Let_def bind_eq_Some_conv split: if_splits)

function q_to_b_loop :: "clist \<Rightarrow> int \<Rightarrow> (u8 list \<times> clist) option" where
  "q_to_b_loop clp count =
    (if count > 0 \<and> c_cc clp > 0 then
       (case q_to_b_turn clp count of
          None \<Rightarrow> None
        | Some (p, count, clp) \<Rightarrow> map_option (\<lambda>(ps, clp). (p @ ps, clp)) (q_to_b_loop clp count))
     else Some ([], if c_cc clp = 0 then clp\<lparr>c_cf := None, c_cl := None\<rparr> else clp))"
  by pat_completeness auto
termination
  by (relation "measure (\<lambda>(clp, count). nat count)") (auto dest: q_to_b_turn_count)

declare q_to_b_loop.simps [simp del]

definition q_to_b :: "clist \<Rightarrow> int \<Rightarrow> (u8 list \<times> clist) option" where
  "q_to_b clp count = q_to_b_loop clp count"

function ndflush_loop :: "clist \<Rightarrow> int \<Rightarrow> clist option" where
  "ndflush_loop clp count =
    (if count > 0 \<and> c_cc clp > 0 then
       do { f \<leftarrow> c_cf clp; l \<leftarrow> c_cl clp;
            let cc = (if run_length clp f l > count then count else run_length clp f l)
            in if cc \<le> 0 then None
               else ndflush_loop (clp\<lparr>c_cc := c_cc clp - cc,
                                      c_cf := Some (if f + nat cc = c_ce clp then 0 else f + nat cc)\<rparr>)
                      (count - cc) }
     else Some (if c_cc clp = 0 then clp\<lparr>c_cf := None, c_cl := None\<rparr> else clp))"
  by pat_completeness auto
termination
  by (relation "measure (\<lambda>(clp, count). nat count)") auto

declare ndflush_loop.simps [simp del]

definition ndflush :: "clist \<Rightarrow> int \<Rightarrow> clist option" where
  "ndflush clp count =
    (if count = c_cc clp then Some (clp\<lparr>c_cc := 0, c_cf := None, c_cl := None\<rparr>) else ndflush_loop clp count)"

text \<open>One turn of the loop of \<open>b_to_q\<close> on the bytes \<open>p\<close> still to be copied.\<close>

definition overwrite :: "'a list \<Rightarrow> nat \<Rightarrow> 'a list \<Rightarrow> 'a list option" where
  "overwrite xs i ys =
    (if i + length ys \<le> length xs then Some (take i xs @ ys @ drop (i + length ys) xs) else None)"

definition write_length :: "clist \<Rightarrow> nat \<Rightarrow> nat \<Rightarrow> int" where
  "write_length clp f l = (if f > l then int f - int l else int (c_ce clp) - int l)"

definition b_to_q_turn :: "u8 list \<Rightarrow> int \<Rightarrow> clist \<Rightarrow> (u8 list \<times> int \<times> clist) option" where
  "b_to_q_turn p count clp =
    do { f \<leftarrow> c_cf clp; l \<leftarrow> c_cl clp; cs \<leftarrow> c_cs clp;
         let cc = (if write_length clp f l > count then count else write_length clp f l)
         in if cc \<le> 0 \<or> nat cc > length p then None
            else do { cs \<leftarrow> overwrite cs l (take (nat cc) p);
                      cq \<leftarrow> (case c_cq clp of
                              None \<Rightarrow> Some None | Some a \<Rightarrow> map_option Some (clrbits a l (nat cc)));
                      Some (drop (nat cc) p, count - cc,
                            clp\<lparr>c_cs := Some cs, c_cq := cq, c_cc := c_cc clp + cc,
                                c_cl := Some (if l + nat cc = c_ce clp then 0 else l + nat cc)\<rparr>) } }"

lemma b_to_q_turn_count: "b_to_q_turn p count clp = Some (p', count', clp') \<Longrightarrow> count' < count"
  unfolding b_to_q_turn_def Let_def
  by (auto simp only: bind_eq_Some_conv option.inject prod.inject split: if_split_asm)

function b_to_q_loop :: "u8 list \<Rightarrow> int \<Rightarrow> clist \<Rightarrow> (int \<times> clist) option" where
  "b_to_q_loop p count clp =
    (if count > 0 \<and> c_cc clp < c_cn clp then
       (case b_to_q_turn p count clp of
          None \<Rightarrow> None
        | Some (p, count, clp) \<Rightarrow> b_to_q_loop p count clp)
     else Some (count, clp))"
  by pat_completeness auto
termination
  by (relation "measure (\<lambda>(p, count, clp). nat count)") (auto dest: b_to_q_turn_count)

declare b_to_q_loop.simps [simp del]

definition b_to_q :: "u8 list option \<Rightarrow> u8 list option \<Rightarrow> u8 list \<Rightarrow> int \<Rightarrow> clist \<Rightarrow> (int \<times> clist) option" where
  "b_to_q mem_s mem_q cp count clp =
    (if count \<le> 0 then Some (0, clp)
     else do { (ok, clp) \<leftarrow> ready mem_s mem_q clp;
               if \<not> ok \<or> c_cc clp = c_cn clp then Some (count, clp) else b_to_q_loop cp count clp })"

partial_function (option) catq ::
  "u8 list option \<Rightarrow> u8 list option \<Rightarrow> clist \<Rightarrow> clist \<Rightarrow> (clist \<times> clist) option" where
  "catq mem_s mem_q source dest =
    do { (c, source) \<leftarrow> getc source;
         if c = -1 then Some (source, dest)
         else do { (e, dest) \<leftarrow> putc mem_s mem_q c dest; catq mem_s mem_q source dest } }"

section \<open>Looking at the queue\<close>

text \<open>\<open>firstc\<close> and \<open>nextc\<close> share the static variable \<^verbatim>\<open>cc\<close>; it is an argument and a result. The
  character is the one stored through \<^verbatim>\<open>c\<close>, \<open>None\<close> as a pointer is the end.\<close>

definition firstc :: "clist \<Rightarrow> (int \<times> (nat \<times> int) option) option" where
  "firstc clp =
    (if c_cc clp = 0 then Some (0, None)
     else do { f \<leftarrow> c_cf clp; c \<leftarrow> fetch clp f; Some (c_cc clp, Some (f, c)) })"

definition nextc :: "int \<Rightarrow> clist \<Rightarrow> nat \<Rightarrow> (int \<times> (nat \<times> int) option) option" where
  "nextc cc clp cp =
    (let cc = (if c_cf clp = Some cp then c_cc clp else cc)
     in if cc = 0 then Some (cc, None)
        else if cc - 1 = 0 then Some (cc - 1, None)
        else let cp = (if cp + 1 = c_ce clp then 0 else cp + 1)
             in do { c \<leftarrow> fetch clp cp; Some (cc - 1, Some (cp, c)) })"

text \<open>The loop of \<open>ndqb\<close>: with the quote flag the bit of the \<^emph>\<open>next\<close> place is tested, since \<^verbatim>\<open>i\<close> has
  been incremented before.\<close>

function ndqb_loop :: "clist \<Rightarrow> int \<Rightarrow> nat \<Rightarrow> int \<Rightarrow> int \<Rightarrow> int option" where
  "ndqb_loop clp flag i cc count =
    (if cc > 0 then
       do { cs \<leftarrow> c_cs clp;
            b \<leftarrow> rd cs i;
            stop \<leftarrow> (if flag AND TTY_QUOTE \<noteq> 0
                      then if uint b AND (flag AND NOT TTY_QUOTE) \<noteq> 0 then Some True
                           else c_cq clp \<bind> (\<lambda>a. isset a (i + 1))
                      else Some (uint b AND flag \<noteq> 0));
            if stop then Some count
            else if int (i + 1) = c_cn clp then Some (count + 1)
            else ndqb_loop clp flag (i + 1) (cc - 1) (count + 1) }
     else Some count)"
  by pat_completeness auto
termination
  by (relation "measure (\<lambda>(clp, flag, i, cc, count). nat cc)") auto

declare ndqb_loop.simps [simp del]

definition ndqb :: "clist \<Rightarrow> int \<Rightarrow> int option" where
  "ndqb clp flag =
    (if c_cc clp = 0 then Some 0
     else if flag = 0 then
       do { f \<leftarrow> c_cf clp; l \<leftarrow> c_cl clp;
            Some (if int l - int f \<le> 0 then int (c_ce clp) - int f else int l - int f) }
     else do { f \<leftarrow> c_cf clp; ndqb_loop clp flag f (c_cc clp) 0 })"

section \<open>What the quote bits stand for\<close>

definition qbit :: "u8 list \<Rightarrow> nat \<Rightarrow> bool" where
  "qbit a i \<longleftrightarrow> bit (a ! (i div NBBY)) (i mod NBBY)"

lemma isset_Some: "i < 8 * length a \<Longrightarrow> isset a i = Some (qbit a i)"
  unfolding qbit_def bit_iff_and_push_bit_not_eq_0
  by (simp add: isset_def rd_def less_mult_imp_div_less mult.commute)

lemma qbit_update:
  assumes "i < 8 * length a"
  shows "qbit (a[k := b]) i \<longleftrightarrow> (if i div 8 = k then bit b (i mod 8) else qbit a i)"
proof -
  have "i div 8 < length a" using assms by (simp add: less_mult_imp_div_less mult.commute)
  then show ?thesis by (auto simp: qbit_def nth_list_update)
qed

lemma div_mod_8_eq: "(j :: nat) div 8 = i div 8 \<Longrightarrow> j mod 8 = i mod 8 \<longleftrightarrow> j = i"
  by (metis mult_div_mod_eq)

lemma setbit_spec:
  assumes "i < 8 * length a"
  shows "\<exists>a'. setbit a i = Some a' \<and> length a' = length a
    \<and> (\<forall>j < 8 * length a. qbit a' j \<longleftrightarrow> j = i \<or> qbit a j)"
proof -
  have "i div 8 < length a" using assms by (simp add: less_mult_imp_div_less mult.commute)
  then show ?thesis
    by (auto simp: setbit_def rd_def wr_def qbit_update bit_simps div_mod_8_eq) (auto simp: qbit_def)
qed

lemma clrbit_spec:
  assumes "i < 8 * length a"
  shows "\<exists>a'. clrbit a i = Some a' \<and> length a' = length a
    \<and> (\<forall>j < 8 * length a. qbit a' j \<longleftrightarrow> j \<noteq> i \<and> qbit a j)"
proof -
  have "i div 8 < length a" using assms by (simp add: less_mult_imp_div_less mult.commute)
  then show ?thesis
    by (auto simp: clrbit_def rd_def wr_def qbit_update bit_simps div_mod_8_eq) (auto simp: qbit_def)
qed

lemma zero_bytes_spec:
  "eby \<le> length cp \<Longrightarrow> \<exists>cp'. zero_bytes cp i eby = Some cp' \<and> length cp' = length cp
    \<and> (\<forall>k < length cp. cp' ! k = (if i \<le> k \<and> k < eby then 0 else cp ! k))"
proof (induction cp i eby rule: zero_bytes.induct)
  case (1 cp i eby)
  show ?case
  proof (cases "i < eby")
    case True
    with "1.prems" have len: "i < length cp" by simp
    from "1.IH" [OF True] len "1.prems" obtain cp' where
      "zero_bytes (cp[i := 0]) (Suc i) eby = Some cp'" "length cp' = length cp"
      "\<forall>k < length cp. cp' ! k = (if Suc i \<le> k \<and> k < eby then 0 else cp[i := 0] ! k)"
      by (auto simp: wr_def)
    then show ?thesis using True len by (subst zero_bytes.simps) (auto simp: wr_def nth_list_update)
  next
    case False
    then show ?thesis by (subst zero_bytes.simps) auto
  qed
qed

lemma push_bit_mask: "2 ^ n - 1 = (Bit_Operations.mask n :: u8)"
  by (simp add: mask_eq_exp_minus_1)

lemma digit_order:
  fixes p q r s :: nat
  assumes "r < 8" "s < 8"
  shows "8 * p + r < 8 * q + s \<longleftrightarrow> p < q \<or> (p = q \<and> r < s)"
    and "8 * p + r \<le> 8 * q + s \<longleftrightarrow> p < q \<or> (p = q \<and> r \<le> s)"
  using assms by (cases p q rule: linorder_cases; simp)+

lemma bit_order:
  fixes i j :: nat
  shows "i < j \<longleftrightarrow> i div 8 < j div 8 \<or> (i div 8 = j div 8 \<and> i mod 8 < j mod 8)"
    and "i \<le> j \<longleftrightarrow> i div 8 < j div 8 \<or> (i div 8 = j div 8 \<and> i mod 8 \<le> j mod 8)"
  using digit_order [of "i mod 8" "j mod 8" "i div 8" "j div 8"] by simp_all

lemma within_byte:
  fixes j off len :: nat
  assumes "off div 8 = (off + len) div 8"
  shows "off \<le> j \<and> j < off + len \<longleftrightarrow>
    j div 8 = off div 8 \<and> off mod 8 \<le> j mod 8 \<and> j mod 8 < (off + len) mod 8"
  unfolding bit_order [of off j] bit_order [of j "off + len"] assms [symmetric] by auto

lemma across_bytes:
  fixes j off fin :: nat
  assumes "off div 8 < fin div 8"
  shows "off \<le> j \<and> j < fin \<longleftrightarrow>
    (j div 8 = off div 8 \<and> off mod 8 \<le> j mod 8) \<or> (off div 8 < j div 8 \<and> j div 8 < fin div 8)
    \<or> (j div 8 = fin div 8 \<and> j mod 8 < fin mod 8)"
  unfolding bit_order [of off j] bit_order [of j fin] using assms by auto

lemma clrbits_spec:
  assumes "0 < len" "off + len < 8 * length a"
  shows "\<exists>a'. clrbits a off len = Some a' \<and> length a' = length a
    \<and> (\<forall>j < 8 * length a. qbit a' j \<longleftrightarrow> qbit a j \<and> \<not> (off \<le> j \<and> j < off + len))"
proof -
  have eby: "(off + len) div 8 < length a" and sby: "off div 8 < length a"
    using assms by (simp_all add: less_mult_imp_div_less mult.commute)
  consider (one) "len = 1" | (within) "len \<noteq> 1" "off div 8 = (off + len) div 8"
    | (across) "len \<noteq> 1" "off div 8 < (off + len) div 8"
    by (meson div_le_mono le_add1 le_neq_implies_less)
  then show ?thesis
  proof cases
    case one
    then show ?thesis using clrbit_spec [of off a] assms by (auto simp: clrbits_def)
  next
    case within
    let ?m = "push_bit (off mod 8) (push_bit ((off + len) mod 8 - off mod 8) 1 - 1) :: u8"
    have bit_m: "bit ?m k \<longleftrightarrow> off mod 8 \<le> k \<and> k < (off + len) mod 8" if "k < 8" for k
      using that by (auto simp: push_bit_mask bit_simps)
    have "clrbits a off len = Some (a[off div 8 := a ! (off div 8) AND NOT ?m])"
      using within sby by (simp add: clrbits_def Let_def rd_def wr_def)
    moreover have "qbit (a[off div 8 := a ! (off div 8) AND NOT ?m]) j \<longleftrightarrow>
        qbit a j \<and> \<not> (off \<le> j \<and> j < off + len)" if "j < 8 * length a" for j
      using that bit_m [of "j mod 8"] unfolding within_byte [OF within(2)] qbit_update [OF that]
      by (auto simp: bit_and_iff bit_not_iff qbit_def)
    ultimately show ?thesis by simp
  next
    case across
    let ?e = "(off + len) div 8"
    let ?a = "a[off div 8 := a ! (off div 8) AND Bit_Operations.mask (off mod 8),
                ?e := a ! ?e AND NOT (Bit_Operations.mask ((off + len) mod 8))]"
    obtain a' where a': "zero_bytes ?a (Suc (off div 8)) ?e = Some a'" "length a' = length a"
      "\<forall>k < length a. a' ! k = (if Suc (off div 8) \<le> k \<and> k < ?e then 0 else ?a ! k)"
      using zero_bytes_spec [of ?e ?a "Suc (off div 8)"] eby by auto
    have "clrbits a off len = Some a'"
      using across sby eby a'(1) by (simp add: clrbits_def Let_def rd_def wr_def push_bit_mask)
    moreover have "qbit a' j \<longleftrightarrow> qbit a j \<and> \<not> (off \<le> j \<and> j < off + len)" if "j < 8 * length a" for j
    proof -
      have "j div 8 < length a" using that by (simp add: less_mult_imp_div_less mult.commute)
      then have "a' ! (j div 8) = (if Suc (off div 8) \<le> j div 8 \<and> j div 8 < ?e then 0 else ?a ! (j div 8))"
        using a'(3) by blast
      then show ?thesis
        using across(2) \<open>j div 8 < length a\<close> sby eby unfolding across_bytes [OF across(2)] qbit_def
        by (cases "j div 8" "off div 8" rule: linorder_cases;
            cases "j div 8" "(off + len) div 8" rule: linorder_cases)
          (simp_all add: bit_simps not_le)
    qed
    ultimately show ?thesis using a'(2) by simp
  qed
qed

section \<open>The queue a ring stands for\<close>

definition slot :: "clist \<Rightarrow> nat \<Rightarrow> u8 \<times> bool" where
  "slot clp i = (the (c_cs clp) ! i, case c_cq clp of None \<Rightarrow> False | Some a \<Rightarrow> qbit a i)"

definition window :: "clist \<Rightarrow> nat \<Rightarrow> nat \<Rightarrow> (u8 \<times> bool) list" where
  "window clp f n = map (\<lambda>k. slot clp ((f + k) mod c_ce clp)) [0..<n]"

definition chars :: "clist \<Rightarrow> (u8 \<times> bool) list" where
  "chars clp = (case c_cf clp of None \<Rightarrow> [] | Some f \<Rightarrow> window clp f (nat (c_cc clp)))"

text \<open>The memory is allocated as it should be; what an operation may not change of it is its shape.\<close>

definition ring_mem :: "clist \<Rightarrow> bool" where
  "ring_mem clp \<longleftrightarrow> 0 < c_ce clp \<and> c_cn clp = int (c_ce clp) \<and> map_option length (c_cs clp) = Some (c_ce clp)
    \<and> (case c_cq clp of None \<Rightarrow> True | Some a \<Rightarrow> c_ce clp \<le> 8 * length a)"

definition shape :: "clist \<Rightarrow> nat \<times> nat option" where
  "shape clp = (c_ce clp, map_option length (c_cq clp))"

definition ring_at :: "clist \<Rightarrow> nat \<Rightarrow> bool" where
  "ring_at clp f \<longleftrightarrow> ring_mem clp \<and> f < c_ce clp \<and> c_cf clp = Some f \<and> 0 \<le> c_cc clp \<and> c_cc clp \<le> c_cn clp
    \<and> c_cl clp = Some ((f + nat (c_cc clp)) mod c_ce clp)"

definition clist_ok :: "clist \<Rightarrow> bool" where
  "clist_ok clp \<longleftrightarrow> ring_mem clp
    \<and> (if c_cc clp = 0 then c_cf clp = None \<and> c_cl clp = None else \<exists>f. ring_at clp f)"

definition encode :: "u8 \<times> bool \<Rightarrow> int" where
  "encode x = (if snd x then uint (fst x) OR TTY_QUOTE else uint (fst x))"

definition decode :: "int \<Rightarrow> u8 \<times> bool" where
  "decode c = (word_of_int c, c AND TTY_QUOTE \<noteq> 0)"

lemma and_quote: "c AND TTY_QUOTE \<noteq> 0 \<longleftrightarrow> bit c 8"
  using bit_iff_and_push_bit_not_eq_0 [of c 8] by simp

lemma bit_quote: "bit TTY_QUOTE n \<longleftrightarrow> n = 8"
proof -
  have "TTY_QUOTE = push_bit 8 1" by simp
  then show ?thesis by (simp only: bit_simps) auto
qed

lemma decode_encode [simp]: "decode (encode x) = x"
proof -
  have "word_of_int (encode x) = fst x"
    by (rule bit_word_eqI) (auto simp: encode_def bit_simps bit_quote simp flip: bit_uint_iff)
  moreover have "encode x AND TTY_QUOTE \<noteq> 0 \<longleftrightarrow> snd x"
    unfolding and_quote using bit_imp_le_length [of "fst x" 8]
    by (auto simp: encode_def bit_or_int_iff bit_quote bit_uint_iff)
  ultimately show ?thesis by (simp add: decode_def prod_eq_iff)
qed

lemma encode_nonneg [simp]: "0 \<le> encode x" and encode_neq [simp]: "encode x \<noteq> -1"
proof -
  show "0 \<le> encode x" by (simp add: encode_def)
  then show "encode x \<noteq> -1" by linarith
qed

lemma mod_wrap: "r < n \<Longrightarrow> i < n \<Longrightarrow> (r + i) mod n = (if r + i < n then r + i else r + i - (n :: nat))"
  by (simp add: le_mod_geq)

lemma mod_add_inj:
  assumes "i < n" "j < (n :: nat)"
  shows "(f + i) mod n = (f + j) mod n \<longleftrightarrow> i = j"
proof -
  have "(f mod n + i) mod n = (f mod n + j) mod n \<longleftrightarrow> i = j"
    using assms by (auto simp: mod_wrap split: if_splits)
  then show ?thesis by (simp add: mod_add_left_eq)
qed

lemma length_window [simp]: "length (window clp f n) = n"
  by (simp add: window_def)

lemma nth_window [simp]: "k < n \<Longrightarrow> window clp f n ! k = slot clp ((f + k) mod c_ce clp)"
  by (simp add: window_def)

lemma window_0 [simp]: "window clp f 0 = []"
  by (simp add: window_def)

lemma window_mod: "window clp (f mod c_ce clp) n = window clp f n"
  by (simp add: window_def mod_add_left_eq)

lemma window_add: "window clp f (m + n) = window clp f m @ window clp (f + m) n"
  by (rule nth_equalityI) (auto simp: nth_append add.assoc)

lemma window_cong:
  assumes "c_ce clp' = c_ce clp" "\<And>k. k < n \<Longrightarrow> slot clp' ((f + k) mod c_ce clp) = slot clp ((f + k) mod c_ce clp)"
  shows "window clp' f n = window clp f n"
  using assms by (simp add: window_def)

lemma window_contiguous: "f + n \<le> c_ce clp \<Longrightarrow> window clp f n = map (slot clp) [f..<f + n]"
  by (rule nth_equalityI) auto

lemma fetch_slot: "ring_mem clp \<Longrightarrow> p < c_ce clp \<Longrightarrow> fetch clp p = Some (encode (slot clp p))"
  by (auto simp: fetch_def slot_def ring_mem_def encode_def isset_Some split: option.splits)

lemma next_place: "p < n \<Longrightarrow> (if p + 1 = n then 0 else p + 1) = (p + 1) mod (n :: nat)"
  by auto

lemma chars_at: "ring_at clp f \<Longrightarrow> chars clp = window clp f (nat (c_cc clp))"
  by (simp add: chars_def ring_at_def)

lemma length_chars: "clist_ok clp \<Longrightarrow> int (length (chars clp)) = c_cc clp"
  by (auto simp: clist_ok_def chars_def ring_at_def split: if_splits)

lemma chars_Nil_iff: "clist_ok clp \<Longrightarrow> chars clp = [] \<longleftrightarrow> c_cc clp = 0"
  using length_chars [of clp] by auto

lemma clist_okE:
  assumes "clist_ok clp"
  obtains (empty) "c_cc clp = 0" "c_cf clp = None" "c_cl clp = None" "chars clp = []"
  | (at) f where "0 < c_cc clp" "ring_at clp f"
proof (cases "c_cc clp = 0")
  case True
  then show ?thesis using assms empty chars_Nil_iff [OF assms] by (auto simp: clist_ok_def)
next
  case False
  then obtain f where "ring_at clp f" using assms by (auto simp: clist_ok_def)
  then show ?thesis using False at [of f] by (auto simp: ring_at_def)
qed

lemma clist_ok_at: "ring_at clp f \<Longrightarrow> c_cc clp \<noteq> 0 \<Longrightarrow> clist_ok clp"
  by (auto simp: clist_ok_def ring_at_def)

text \<open>Leaving a loop: a queue that became empty loses its pointers.\<close>

lemma ring_done:
  assumes "ring_at clp f"
  defines "clp' \<equiv> (if c_cc clp = 0 then clp\<lparr>c_cf := None, c_cl := None\<rparr> else clp)"
  shows "clist_ok clp' \<and> chars clp' = chars clp \<and> shape clp' = shape clp"
  using assms clist_ok_at [OF assms(1)]
  by (auto simp: clp'_def clist_ok_def ring_at_def ring_mem_def shape_def chars_def split: option.splits)

section \<open>The ends of the queue\<close>

lemma ring_advance:
  assumes "ring_at clp f" "k \<le> nat (c_cc clp)" "f + k \<le> c_ce clp"
  defines "clp' \<equiv> clp\<lparr>c_cc := c_cc clp - int k, c_cf := Some (if f + k = c_ce clp then 0 else f + k)\<rparr>"
  shows "ring_at clp' ((f + k) mod c_ce clp)" and "chars clp' = drop k (chars clp)"
    and "shape clp' = shape clp" and "c_cc clp' = c_cc clp - int k"
proof -
  have place: "(if f + k = c_ce clp then 0 else f + k) = (f + k) mod c_ce clp"
    using assms(3) by auto
  have "(f + k) mod c_ce clp < c_ce clp" using assms(1) by (simp add: ring_at_def)
  moreover have "((f + k) mod c_ce clp + nat (c_cc clp - int k)) mod c_ce clp = (f + nat (c_cc clp)) mod c_ce clp"
  proof -
    have "f + k + nat (c_cc clp - int k) = f + nat (c_cc clp)" using assms(2) by simp
    then show ?thesis by (simp only: mod_add_left_eq)
  qed
  ultimately show at': "ring_at clp' ((f + k) mod c_ce clp)"
    using assms(1,2) unfolding place clp'_def ring_at_def ring_mem_def by (auto split: option.splits)
  have "window clp' ((f + k) mod c_ce clp) (nat (c_cc clp) - k) = window clp (f + k) (nat (c_cc clp) - k)"
    by (simp add: window_def clp'_def slot_def mod_add_left_eq)
  also have "\<dots> = drop k (window clp f (nat (c_cc clp)))"
    using window_add [of clp f k "nat (c_cc clp) - k"] assms(2) by simp
  finally have w: "window clp' ((f + k) mod c_ce clp) (nat (c_cc clp) - k) = drop k (window clp f (nat (c_cc clp)))" .
  have cc: "nat (c_cc clp') = nat (c_cc clp) - k" by (simp add: clp'_def)
  show "chars clp' = drop k (chars clp)"
    unfolding chars_at [OF at'] chars_at [OF assms(1)] cc by (rule w)
  show "shape clp' = shape clp" "c_cc clp' = c_cc clp - int k" by (simp_all add: clp'_def shape_def)
qed

lemma ring_retreat:
  assumes "ring_at clp f" "0 < c_cc clp"
  defines "l \<equiv> (f + nat (c_cc clp) - 1) mod c_ce clp"
  defines "clp' \<equiv> clp\<lparr>c_cc := c_cc clp - 1, c_cl := Some l\<rparr>"
  shows "ring_at clp' f" and "chars clp = chars clp' @ [slot clp l]"
    and "shape clp' = shape clp" and "c_cc clp' = c_cc clp - 1"
proof -
  have n: "nat (c_cc clp) = Suc (nat (c_cc clp - 1))" using assms(2) by simp
  then have l: "l = (f + nat (c_cc clp - 1)) mod c_ce clp" by (simp add: l_def)
  show at': "ring_at clp' f"
    using assms(1,2) l unfolding clp'_def ring_at_def ring_mem_def by (auto split: option.splits)
  have "chars clp = window clp f (nat (c_cc clp - 1) + 1)"
    unfolding chars_at [OF assms(1)] n by simp
  also have "\<dots> = window clp f (nat (c_cc clp - 1)) @ [slot clp l]"
    unfolding window_add l by (simp add: window_def)
  also have "window clp f (nat (c_cc clp - 1)) = chars clp'"
    unfolding chars_at [OF at'] by (simp add: clp'_def window_def slot_def)
  finally show "chars clp = chars clp' @ [slot clp l]" .
  show "shape clp' = shape clp" "c_cc clp' = c_cc clp - 1" by (simp_all add: clp'_def shape_def)
qed

lemma ring_append:
  assumes "ring_at clp f" "nat (c_cc clp) + length ys \<le> c_ce clp" "ring_mem clp'" "shape clp' = shape clp"
    and "c_cf clp' = c_cf clp" "c_cc clp' = c_cc clp + int (length ys)"
    and "c_cl clp' = Some ((f + nat (c_cc clp) + length ys) mod c_ce clp)"
    and new: "\<And>k. k < length ys \<Longrightarrow> slot clp' ((f + nat (c_cc clp) + k) mod c_ce clp) = ys ! k"
    and old: "\<And>k. k < nat (c_cc clp) \<Longrightarrow> slot clp' ((f + k) mod c_ce clp) = slot clp ((f + k) mod c_ce clp)"
  shows "ring_at clp' f \<and> chars clp' = chars clp @ ys"
proof
  have ce: "c_ce clp' = c_ce clp" using assms(4) by (simp add: shape_def)
  have n: "nat (c_cc clp') = nat (c_cc clp) + length ys"
    using assms(1,6) by (simp add: ring_at_def nat_add_distrib)
  show at': "ring_at clp' f"
    using assms(1-3,5-7) n ce by (auto simp: ring_at_def ring_mem_def add.assoc)
  show "chars clp' = chars clp @ ys"
    unfolding chars_at [OF at'] chars_at [OF assms(1)] n
  proof (rule nth_equalityI)
    fix i assume "i < length (window clp' f (nat (c_cc clp) + length ys))"
    then show "window clp' f (nat (c_cc clp) + length ys) ! i = (window clp f (nat (c_cc clp)) @ ys) ! i"
      using new [of "i - nat (c_cc clp)"] by (cases "i < nat (c_cc clp)") (simp_all add: nth_append ce old)
  qed simp
qed

lemma getc_empty: "clist_ok clp \<Longrightarrow> chars clp = [] \<Longrightarrow> getc clp = Some (-1, clp)"
  by (simp add: getc_def chars_Nil_iff)

lemma getc_next:
  assumes "clist_ok clp" "chars clp = x # xs"
  shows "\<exists>clp'. getc clp = Some (encode x, clp') \<and> clist_ok clp' \<and> chars clp' = xs \<and> shape clp' = shape clp"
  using assms(1)
proof (cases rule: clist_okE)
  case (at f)
  let ?c = "clp\<lparr>c_cc := c_cc clp - int 1, c_cf := Some (if f + 1 = c_ce clp then 0 else f + 1)\<rparr>"
  have "1 \<le> nat (c_cc clp)" "f + 1 \<le> c_ce clp" using at by (auto simp: ring_at_def)
  note adv = ring_advance [OF at(2) this]
  have "nat (c_cc clp) = Suc (nat (c_cc clp - 1))" using at(1) by simp
  then have "window clp f (Suc (nat (c_cc clp - 1))) = x # xs"
    using assms(2) unfolding chars_at [OF at(2)] by simp
  then have "slot clp f = x" using at(2) by (auto simp: window_def ring_at_def upt_conv_Cons simp del: upt_Suc)
  then have "getc clp = Some (encode x, if c_cc ?c = 0 then ?c\<lparr>c_cf := None, c_cl := None\<rparr> else ?c)"
    using at by (simp add: getc_def fetch_slot ring_at_def Let_def)
  with ring_done [OF adv(1)] adv(2,3) assms(2) show ?thesis by fastforce
qed (use assms(2) in simp)

lemma prev_place:
  "0 < n \<Longrightarrow> 0 < m \<Longrightarrow> (if m mod n = 0 then n - 1 else m mod n - 1) = (m - 1) mod (n :: nat)"
  by (cases m) (auto simp: mod_Suc)

lemma unputc_empty: "clist_ok clp \<Longrightarrow> chars clp = [] \<Longrightarrow> unputc clp = Some (-1, clp)"
  by (simp add: unputc_def chars_Nil_iff)

lemma unputc_last:
  assumes "clist_ok clp" "chars clp = xs @ [x]"
  shows "\<exists>clp'. unputc clp = Some (encode x, clp') \<and> clist_ok clp' \<and> chars clp' = xs \<and> shape clp' = shape clp"
  using assms(1)
proof (cases rule: clist_okE)
  case (at f)
  let ?l = "(f + nat (c_cc clp) - 1) mod c_ce clp"
  let ?c = "clp\<lparr>c_cc := c_cc clp - 1, c_cl := Some ?l\<rparr>"
  note bwd = ring_retreat [OF at(2,1)]
  have x: "slot clp ?l = x" "chars ?c = xs" using bwd(2) assms(2) by simp_all
  have ce: "0 < c_ce clp" using at(2) by (simp add: ring_at_def)
  have "(if (f + nat (c_cc clp)) mod c_ce clp = 0 then c_ce clp - 1 else (f + nat (c_cc clp)) mod c_ce clp - 1) = ?l"
    using prev_place [OF ce, of "f + nat (c_cc clp)"] at(1) by simp
  then have "unputc clp = Some (encode x, if c_cc ?c = 0 then ?c\<lparr>c_cf := None, c_cl := None\<rparr> else ?c)"
    using at x(1) ce by (simp add: unputc_def fetch_slot ring_at_def Let_def)
  with ring_done [OF bwd(1)] bwd(3) x(2) show ?thesis by fastforce
qed (use assms(2) in simp)

text \<open>The place the next character goes to.\<close>

definition put_place :: "clist \<Rightarrow> nat" where
  "put_place clp = (case c_cl clp of None \<Rightarrow> 0 | Some l \<Rightarrow> l)"

lemma ready_ok:
  assumes "clist_ok clp"
  shows "\<exists>clp' f. ready mem_s mem_q clp = Some (True, clp') \<and> ring_at clp' f \<and> chars clp' = chars clp
    \<and> shape clp' = shape clp \<and> c_cq clp' = c_cq clp \<and> c_cl clp' = Some (put_place clp)"
  using assms
proof (cases rule: clist_okE)
  case empty
  let ?c = "clp\<lparr>c_cf := Some 0, c_cl := Some 0\<rparr>"
  have mem: "ring_mem clp" using assms by (simp add: clist_ok_def)
  then have "c_cs clp \<noteq> None" by (auto simp: ring_mem_def)
  then have "ready mem_s mem_q clp = Some (True, ?c)" using empty by (auto simp: ready_def)
  moreover have "ring_at ?c 0" using mem empty by (auto simp: ring_at_def ring_mem_def split: option.splits)
  ultimately show ?thesis using empty by (auto simp: chars_def shape_def put_place_def)
next
  case (at f)
  then show ?thesis by (auto simp: ready_def put_place_def ring_at_def)
qed

definition stored :: "clist \<Rightarrow> int \<Rightarrow> u8 \<times> bool" where
  "stored clp c = (word_of_int c, c_cq clp \<noteq> None \<and> c AND TTY_QUOTE \<noteq> 0)"

lemma store_slot:
  assumes "ring_mem clp" "l < c_ce clp" "c_cs clp = Some cs"
  shows "\<exists>cq. (case c_cq clp of None \<Rightarrow> Some None
      | Some a \<Rightarrow> map_option Some (if c AND TTY_QUOTE \<noteq> 0 then setbit a l else clrbit a l)) = Some cq
    \<and> map_option length cq = map_option length (c_cq clp)
    \<and> (\<forall>clp'. c_cs clp' = Some (cs[l := word_of_int c]) \<longrightarrow> c_cq clp' = cq \<longrightarrow>
         (\<forall>i < c_ce clp. slot clp' i = (if i = l then stored clp c else slot clp i)))"
proof (cases "c_cq clp")
  case None
  then show ?thesis using assms by (auto simp: slot_def stored_def ring_mem_def nth_list_update)
next
  case (Some a)
  then have len: "c_ce clp \<le> 8 * length a" "length cs = c_ce clp" using assms by (auto simp: ring_mem_def)
  then obtain a' where a': "(if c AND TTY_QUOTE \<noteq> 0 then setbit a l else clrbit a l) = Some a'" "length a' = length a"
    "\<forall>j < 8 * length a. qbit a' j \<longleftrightarrow> (if j = l then c AND TTY_QUOTE \<noteq> 0 else qbit a j)"
    using setbit_spec [of l a] clrbit_spec [of l a] assms(2) by (cases "c AND TTY_QUOTE \<noteq> 0") auto
  then show ?thesis using Some len assms(2,3)
    by (intro exI [of _ "Some a'"]) (auto simp: slot_def stored_def nth_list_update)
qed

lemma putc_full: "clist_ok clp \<Longrightarrow> length (chars clp) = c_ce clp \<Longrightarrow> putc mem_s mem_q c clp = Some (-1, clp)"
  using length_chars [of clp] by (auto simp: putc_def ready_def clist_ok_def ring_mem_def)

lemma putc_room:
  assumes "clist_ok clp" "length (chars clp) < c_ce clp"
  shows "\<exists>clp'. putc mem_s mem_q c clp = Some (0, clp') \<and> clist_ok clp'
    \<and> chars clp' = chars clp @ [stored clp c] \<and> shape clp' = shape clp"
proof -
  obtain clp1 f where rdy: "ready mem_s mem_q clp = Some (True, clp1)" and at: "ring_at clp1 f"
    and eq: "chars clp1 = chars clp" "shape clp1 = shape clp" "c_cq clp1 = c_cq clp"
    using ready_ok [OF assms(1)] by blast
  have ce: "c_ce clp1 = c_ce clp" using eq(2) by (simp add: shape_def)
  have cc: "nat (c_cc clp1) < c_ce clp1" "c_cc clp1 \<noteq> c_cn clp1" and mem: "ring_mem clp1"
    using assms(2) at unfolding ce [symmetric] eq(1) [symmetric] chars_at [OF at] by (auto simp: ring_at_def ring_mem_def)
  define l where "l = (f + nat (c_cc clp1)) mod c_ce clp1"
  have l: "c_cl clp1 = Some l" "l < c_ce clp1" using at cc(1) by (auto simp: ring_at_def l_def)
  obtain cs where cs: "c_cs clp1 = Some cs" "length cs = c_ce clp1" using mem by (auto simp: ring_mem_def)
  obtain cq where cq: "(case c_cq clp1 of None \<Rightarrow> Some None
      | Some a \<Rightarrow> map_option Some (if c AND TTY_QUOTE \<noteq> 0 then setbit a l else clrbit a l)) = Some cq"
    and len: "map_option length cq = map_option length (c_cq clp1)"
    and slots: "\<And>clp' i. c_cs clp' = Some (cs[l := word_of_int c]) \<Longrightarrow> c_cq clp' = cq \<Longrightarrow> i < c_ce clp1 \<Longrightarrow>
      slot clp' i = (if i = l then stored clp1 c else slot clp1 i)"
    using store_slot [OF mem l(2) cs(1)] by blast
  let ?c = "clp1\<lparr>c_cs := Some (cs[l := word_of_int c]), c_cq := cq, c_cc := c_cc clp1 + 1,
                 c_cl := Some (if l + 1 = c_ce clp1 then 0 else l + 1)\<rparr>"
  have put: "putc mem_s mem_q c clp = Some (0, ?c)"
    using rdy l cs cc cq by (simp add: putc_def wr_def)
  have cl: "(if l + 1 = c_ce clp1 then 0 else l + 1) = (f + nat (c_cc clp1) + 1) mod c_ce clp1"
    using next_place [OF l(2)] by (simp add: l_def mod_Suc_eq)
  have app: "ring_at ?c f \<and> chars ?c = chars clp1 @ [stored clp1 c]"
  proof (rule ring_append [OF at, of "[stored clp1 c]" ?c])
    show "ring_mem ?c" using mem cs len by (auto simp: ring_mem_def split: option.splits)
    fix k assume "k < nat (c_cc clp1)"
    then have "(f + k) mod c_ce clp1 \<noteq> l"
      using mod_add_inj [of k "c_ce clp1" "nat (c_cc clp1)" f] cc(1) by (simp add: l_def)
    then show "slot ?c ((f + k) mod c_ce clp1) = slot clp1 ((f + k) mod c_ce clp1)"
      using slots [of ?c "(f + k) mod c_ce clp1"] cc(1) by simp
  qed (use cc cl len l slots [of ?c l] in \<open>simp_all add: shape_def l_def\<close>)
  have "c_cc ?c \<noteq> 0" using at by (simp add: ring_at_def)
  from clist_ok_at [OF conjunct1 [OF app] this] app put eq len show ?thesis by (auto simp: shape_def stored_def)
qed

section \<open>Reading many characters\<close>

lemma run_length_spec:
  assumes "ring_at clp f" "0 < c_cc clp" "c_cl clp = Some l"
  shows "0 < run_length clp f l" and "run_length clp f l \<le> c_cc clp" and "f + nat (run_length clp f l) \<le> c_ce clp"
proof -
  have "f < c_ce clp" "nat (c_cc clp) \<le> c_ce clp" and l: "l = (f + nat (c_cc clp)) mod c_ce clp"
    using assms by (auto simp: ring_at_def ring_mem_def)
  then consider "f + nat (c_cc clp) < c_ce clp" "l = f + nat (c_cc clp)"
    | "c_ce clp \<le> f + nat (c_cc clp)" "l = f + nat (c_cc clp) - c_ce clp"
    by (cases "f + nat (c_cc clp) < c_ce clp") (auto simp: le_mod_geq mod_less)
  then show "0 < run_length clp f l" "run_length clp f l \<le> c_cc clp" "f + nat (run_length clp f l) \<le> c_ce clp"
    using assms(2) \<open>f < c_ce clp\<close> \<open>nat (c_cc clp) \<le> c_ce clp\<close> by (cases; auto simp: run_length_def)+
qed

lemma window_bytes:
  assumes "ring_at clp f" "f + k \<le> c_ce clp" "k \<le> nat (c_cc clp)" "c_cs clp = Some cs"
  shows "take k (drop f cs) = map fst (take k (chars clp))"
proof -
  have "length cs = c_ce clp" using assms by (auto simp: ring_at_def ring_mem_def)
  then show ?thesis
    using assms unfolding chars_at [OF assms(1)] by (intro nth_equalityI) (auto simp: slot_def)
qed

lemma q_to_b_loop_spec:
  "ring_at clp f \<Longrightarrow> \<exists>clp'. q_to_b_loop clp count = Some (map fst (take (nat count) (chars clp)), clp')
    \<and> clist_ok clp' \<and> chars clp' = drop (nat count) (chars clp) \<and> shape clp' = shape clp"
proof (induction clp count arbitrary: f rule: q_to_b_loop.induct)
  case (1 clp count)
  show ?case
  proof (cases "count > 0 \<and> c_cc clp > 0")
    case True
    obtain l cs where mem: "c_cl clp = Some l" "c_cs clp = Some cs" "c_cf clp = Some f" "length cs = c_ce clp"
      using 1(2) by (auto simp: ring_at_def ring_mem_def)
    define k where "k = nat (min count (run_length clp f l))"
    note rl = run_length_spec [OF 1(2) _ mem(1)]
    have k: "0 < k" "k \<le> nat (c_cc clp)" "f + k \<le> c_ce clp" "int k \<le> count"
      using rl True by (auto simp: k_def min_def)
    let ?c = "clp\<lparr>c_cc := c_cc clp - int k, c_cf := Some (if f + k = c_ce clp then 0 else f + k)\<rparr>"
    have turn: "q_to_b_turn clp count = Some (take k (drop f cs), count - int k, ?c)"
      using mem rl True k by (auto simp: q_to_b_turn_def k_def min_def Let_def)
    note adv = ring_advance [OF 1(2) k(2,3)]
    obtain clp' where ih: "q_to_b_loop ?c (count - int k) =
        Some (map fst (take (nat (count - int k)) (chars ?c)), clp')"
      "clist_ok clp'" "chars clp' = drop (nat (count - int k)) (chars ?c)" "shape clp' = shape ?c"
      using 1(1) [OF True turn refl refl adv(1)] by blast
    have n: "nat count = k + nat (count - int k)" using k by simp
    have "q_to_b_loop clp count = Some (map fst (take (nat count) (chars clp)), clp')"
      using True turn ih(1) window_bytes [OF 1(2) k(3,2) mem(2)] unfolding n take_add adv(2)
      by (subst q_to_b_loop.simps) simp
    then show ?thesis using ih(2-4) adv(2,3) n by (auto simp: add.commute)
  next
    case False
    then have "nat count = 0 \<or> chars clp = []"
      using 1(2) by (auto simp: chars_def ring_at_def)
    then show ?thesis using False ring_done [OF 1(2)] by (subst q_to_b_loop.simps) auto
  qed
qed

lemma q_to_b_spec:
  assumes "clist_ok clp"
  shows "\<exists>clp'. q_to_b clp count = Some (map fst (take (nat count) (chars clp)), clp')
    \<and> clist_ok clp' \<and> chars clp' = drop (nat count) (chars clp) \<and> shape clp' = shape clp"
  using assms
proof (cases rule: clist_okE)
  case empty
  then show ?thesis using assms
    by (intro exI [of _ clp]) (auto simp: q_to_b_def q_to_b_loop.simps [of clp count])
next
  case (at f)
  then show ?thesis using q_to_b_loop_spec by (simp add: q_to_b_def)
qed

lemma ndflush_loop_spec:
  "ring_at clp f \<Longrightarrow> \<exists>clp'. ndflush_loop clp count = Some clp'
    \<and> clist_ok clp' \<and> chars clp' = drop (nat count) (chars clp) \<and> shape clp' = shape clp"
proof (induction clp count arbitrary: f rule: ndflush_loop.induct)
  case (1 clp count)
  show ?case
  proof (cases "count > 0 \<and> c_cc clp > 0")
    case True
    obtain l where mem: "c_cl clp = Some l" "c_cf clp = Some f" using 1(2) by (auto simp: ring_at_def)
    define k where "k = nat (min count (run_length clp f l))"
    note rl = run_length_spec [OF 1(2) _ mem(1)]
    have k: "0 < k" "k \<le> nat (c_cc clp)" "f + k \<le> c_ce clp" "int k \<le> count"
      and k_eq: "(if run_length clp f l > count then count else run_length clp f l) = int k"
      using rl True by (auto simp: k_def min_def)
    note adv = ring_advance [OF 1(2) k(2,3)]
    have n: "nat count = k + nat (count - int k)" using k by simp
    from 1(1) [OF True mem(2,1) k_eq [symmetric], unfolded nat_int, OF _ adv(1)] k(1) adv(2,3)
    show ?thesis unfolding n by (subst ndflush_loop.simps) (auto simp: True mem k_eq Let_def add.commute)
  next
    case False
    then have "nat count = 0 \<or> chars clp = []"
      using 1(2) by (auto simp: chars_def ring_at_def)
    then show ?thesis using False ring_done [OF 1(2)] by (subst ndflush_loop.simps) auto
  qed
qed

lemma ndflush_spec:
  assumes "clist_ok clp"
  shows "\<exists>clp'. ndflush clp count = Some clp' \<and> clist_ok clp'
    \<and> chars clp' = drop (nat count) (chars clp) \<and> shape clp' = shape clp"
proof (cases "count = c_cc clp")
  case True
  let ?c = "clp\<lparr>c_cc := 0, c_cf := None, c_cl := None\<rparr>"
  have "clist_ok ?c \<and> chars ?c = [] \<and> shape ?c = shape clp"
    using assms by (auto simp: clist_ok_def ring_mem_def chars_def shape_def split: option.splits)
  then show ?thesis using True length_chars [OF assms] by (auto simp: ndflush_def)
next
  case False
  from assms show ?thesis
  proof (cases rule: clist_okE)
    case empty
    then show ?thesis using assms False
      by (intro exI [of _ clp]) (auto simp: ndflush_def ndflush_loop.simps [of clp count])
  next
    case (at f)
    then show ?thesis using ndflush_loop_spec False by (simp add: ndflush_def)
  qed
qed

section \<open>Writing many characters\<close>

text \<open>\<open>clrbits\<close> touches the byte behind the last bit it clears. When the length of the ring is a
  multiple of eight this is a byte more of quote bits than \<open>QMEM\<close> asks for, if the bytes reach the last
  place of the ring.\<close>

definition roomy :: "clist \<Rightarrow> bool" where
  "roomy clp \<longleftrightarrow> (case c_cq clp of None \<Rightarrow> True | Some a \<Rightarrow> c_ce clp < 8 * length a)"

lemma roomy_shape: "shape clp' = shape clp \<Longrightarrow> roomy clp' = roomy clp"
  by (auto simp: roomy_def shape_def split: option.splits)

lemma overwrite_Some:
  "i + length ys \<le> length xs \<Longrightarrow> \<exists>zs. overwrite xs i ys = Some zs \<and> length zs = length xs
    \<and> (\<forall>j < length xs. zs ! j = (if i \<le> j \<and> j < i + length ys then ys ! (j - i) else xs ! j))"
  by (auto simp: overwrite_def nth_append min_def)

lemma store_slots:
  assumes "ring_mem clp" "roomy clp \<or> l + k < c_ce clp" "c_cs clp = Some cs" "0 < k" "l + k \<le> c_ce clp" "k \<le> length p"
  shows "\<exists>cs' cq. overwrite cs l (take k p) = Some cs'
    \<and> (case c_cq clp of None \<Rightarrow> Some None | Some a \<Rightarrow> map_option Some (clrbits a l k)) = Some cq
    \<and> length cs' = length cs \<and> map_option length cq = map_option length (c_cq clp)
    \<and> (\<forall>clp'. c_cs clp' = Some cs' \<longrightarrow> c_cq clp' = cq \<longrightarrow> (\<forall>i < c_ce clp.
         slot clp' i = (if l \<le> i \<and> i < l + k then (p ! (i - l), False) else slot clp i)))"
proof -
  have len: "length cs = c_ce clp" using assms by (auto simp: ring_mem_def)
  obtain cs' where cs': "overwrite cs l (take k p) = Some cs'" "length cs' = length cs"
    "\<forall>j < length cs. cs' ! j = (if l \<le> j \<and> j < l + k then p ! (j - l) else cs ! j)"
  proof -
    have tk: "length (take k p) = k" using assms(6) by simp
    from overwrite_Some [of l "take k p" cs, unfolded tk] assms(5) len that show ?thesis by fastforce
  qed
  show ?thesis
  proof (cases "c_cq clp")
    case None
    then show ?thesis using cs' len assms(3) by (auto simp: slot_def)
  next
    case (Some a)
    have "c_ce clp \<le> 8 * length a" using Some assms(1) by (simp add: ring_mem_def)
    moreover from this have "l + k < 8 * length a" using Some assms(2,5) by (auto simp: roomy_def)
    ultimately obtain a' where a': "clrbits a l k = Some a'" "length a' = length a"
      "\<forall>j < 8 * length a. qbit a' j \<longleftrightarrow> qbit a j \<and> \<not> (l \<le> j \<and> j < l + k)"
      using clrbits_spec [of k l a] assms(4) by auto
    then show ?thesis using Some cs' len assms(3) \<open>c_ce clp \<le> 8 * length a\<close>
      by (intro exI [of _ cs'] exI [of _ "Some a'"]) (auto simp: slot_def)
  qed
qed

lemma write_length_spec:
  assumes "ring_at clp f" "c_cc clp < c_cn clp"
  defines "l \<equiv> (f + nat (c_cc clp)) mod c_ce clp"
  defines "r \<equiv> write_length clp f l"
  shows "0 < r \<and> nat r \<le> c_ce clp - nat (c_cc clp) \<and> l + nat r \<le> c_ce clp"
proof -
  have "f < c_ce clp" and cc: "nat (c_cc clp) < c_ce clp" using assms(1,2) by (auto simp: ring_at_def ring_mem_def)
  then consider "f + nat (c_cc clp) < c_ce clp" "l = f + nat (c_cc clp)"
    | "c_ce clp \<le> f + nat (c_cc clp)" "l = f + nat (c_cc clp) - c_ce clp"
    unfolding l_def by (cases "f + nat (c_cc clp) < c_ce clp") (auto simp: le_mod_geq mod_less)
  then show ?thesis
    using \<open>f < c_ce clp\<close> cc by cases (auto simp: r_def write_length_def)
qed

definition stays_inside :: "clist \<Rightarrow> nat \<Rightarrow> int \<Rightarrow> bool" where
  "stays_inside clp l count \<longleftrightarrow> roomy clp \<or> l + min (nat count) (c_ce clp - nat (c_cc clp)) < c_ce clp"

lemma b_to_q_turn_spec:
  assumes "ring_at clp f" "c_cc clp < c_cn clp" "0 < count" "nat count \<le> length p"
    and room: "stays_inside clp ((f + nat (c_cc clp)) mod c_ce clp) count"
  shows "\<exists>k clp'. b_to_q_turn p count clp = Some (drop k p, count - int k, clp') \<and> 0 < k
    \<and> int k \<le> count \<and> nat (c_cc clp) + k \<le> c_ce clp \<and> c_cc clp' = c_cc clp + int k
    \<and> ring_at clp' f \<and> shape clp' = shape clp \<and> chars clp' = chars clp @ map (\<lambda>b. (b, False)) (take k p)
    \<and> stays_inside clp' ((f + nat (c_cc clp')) mod c_ce clp') (count - int k)"
proof -
  define l where "l = (f + nat (c_cc clp)) mod c_ce clp"
  define r where "r = write_length clp f l"
  have r: "0 < r" "nat r \<le> c_ce clp - nat (c_cc clp)" "l + nat r \<le> c_ce clp"
    using write_length_spec [OF assms(1,2)] unfolding r_def l_def by blast+
  define k where "k = nat (min count r)"
  have k: "0 < k" "int k \<le> count" "k \<le> nat r" "k \<le> length p" "(if r > count then count else r) = int k"
    using r assms(3,4) by (auto simp: k_def min_def)
  obtain cs where mem: "ring_mem clp" "c_cs clp = Some cs" "c_cf clp = Some f" "c_cl clp = Some l"
    "length cs = c_ce clp" "nat (c_cc clp) < c_ce clp" "0 \<le> c_cc clp"
    using assms(1,2) by (auto simp: ring_at_def ring_mem_def l_def)
  have lk: "l + k \<le> c_ce clp" using r k by linarith
  have short: "roomy clp \<or> l + k < c_ce clp"
    using room k(2,3) r(2) by (auto simp: stays_inside_def l_def [symmetric])
  obtain cs' cq where ow: "overwrite cs l (take k p) = Some cs'"
    and cq: "(case c_cq clp of None \<Rightarrow> Some None | Some a \<Rightarrow> map_option Some (clrbits a l k)) = Some cq"
    and len: "length cs' = length cs" "map_option length cq = map_option length (c_cq clp)"
    and slots: "\<And>clp' i. c_cs clp' = Some cs' \<Longrightarrow> c_cq clp' = cq \<Longrightarrow> i < c_ce clp \<Longrightarrow>
      slot clp' i = (if l \<le> i \<and> i < l + k then (p ! (i - l), False) else slot clp i)"
    using store_slots [OF mem(1) short mem(2) k(1) lk k(4)] by blast
  let ?c = "clp\<lparr>c_cs := Some cs', c_cq := cq, c_cc := c_cc clp + int k,
               c_cl := Some (if l + k = c_ce clp then 0 else l + k)\<rparr>"
  have turn: "b_to_q_turn p count clp = Some (drop k p, count - int k, ?c)"
  proof -
    have "\<not> (int k \<le> 0 \<or> nat (int k) > length p)" using k by simp
    then show ?thesis
      unfolding b_to_q_turn_def Let_def mem(2-4) bind.bind_lunit r_def [symmetric] k(5) nat_int ow cq
      by (simp only: if_False bind.bind_lunit ow cq nat_int)
  qed
  have place: "(if l + k = c_ce clp then 0 else l + k) = (f + nat (c_cc clp) + k) mod c_ce clp"
  proof -
    have "(f + nat (c_cc clp) + k) mod c_ce clp = (l + k) mod c_ce clp" by (simp only: l_def mod_add_left_eq)
    then show ?thesis using lk by auto
  qed
  have new_at: "(f + nat (c_cc clp) + i) mod c_ce clp = l + i" if "i < k" for i
  proof -
    have "(f + nat (c_cc clp) + i) mod c_ce clp = (l + i) mod c_ce clp" by (simp only: l_def mod_add_left_eq)
    also have "\<dots> = l + i" using that lk by (intro mod_less) linarith
    finally show ?thesis .
  qed
  have "ring_at ?c f \<and> chars ?c = chars clp @ map (\<lambda>b. (b, False)) (take k p)"
  proof (rule ring_append [OF assms(1), of "map (\<lambda>b. (b, False)) (take k p)" ?c])
    show "ring_mem ?c" using mem len by (auto simp: ring_mem_def split: option.splits)
    fix i assume i: "i < nat (c_cc clp)"
    have "(f + i) mod c_ce clp \<noteq> l + j" if "j < k" for j
      using mod_add_inj [of i "c_ce clp" "nat (c_cc clp) + j" f] that i r k mem(6) new_at [OF that]
      by (auto simp: add.assoc)
    then have off: "\<not> (l \<le> (f + i) mod c_ce clp \<and> (f + i) mod c_ce clp < l + k)"
      by (metis le_iff_add nat_add_left_cancel_less)
    show "slot ?c ((f + i) mod c_ce clp) = slot clp ((f + i) mod c_ce clp)"
      using slots [of ?c "(f + i) mod c_ce clp", unfolded if_not_P [OF off]] mem(6) by simp
  next
    fix i assume "i < length (map (\<lambda>b. (b, False)) (take k p))"
    then have "i < k" by simp
    then show "slot ?c ((f + nat (c_cc clp) + i) mod c_ce clp) = map (\<lambda>b. (b, False)) (take k p) ! i"
      using slots [of ?c "l + i"] lk k(4) by (simp add: new_at)
  qed (use r k mem len place in \<open>simp_all add: shape_def\<close>)
  moreover have "stays_inside ?c ((f + nat (c_cc ?c)) mod c_ce ?c) (count - int k)"
  proof (cases "roomy clp")
    case True
    moreover have "shape ?c = shape clp" using len by (simp add: shape_def)
    ultimately show ?thesis using roomy_shape [of ?c clp] by (simp add: stays_inside_def)
  next
    case False
    with short have less: "l + k < c_ce clp" by blast
    have n: "nat (c_cc clp + int k) = nat (c_cc clp) + k" using mem(7) by (simp add: nat_add_distrib)
    have at: "(f + nat (c_cc ?c)) mod c_ce ?c = l + k"
      using place less by (simp add: n add.assoc)
    have "l + min (nat count) (c_ce clp - nat (c_cc clp)) < c_ce clp"
      using room False by (simp add: stays_inside_def l_def)
    moreover have "min (nat (count - int k)) (c_ce clp - (nat (c_cc clp) + k)) + k
        \<le> min (nat count) (c_ce clp - nat (c_cc clp))"
      using k(2,3) r(2) by linarith
    ultimately have "l + k + min (nat (count - int k)) (c_ce clp - (nat (c_cc clp) + k)) < c_ce clp" by linarith
    then show ?thesis unfolding at stays_inside_def by (simp add: n)
  qed
  ultimately show ?thesis using turn k r mem len by (intro exI [of _ k] exI [of _ ?c]) (auto simp: shape_def)
qed

lemma b_to_q_loop_spec:
  "ring_at clp f \<Longrightarrow> stays_inside clp ((f + nat (c_cc clp)) mod c_ce clp) count \<Longrightarrow> nat count \<le> length p \<Longrightarrow>
    \<exists>clp' m. m = min (nat count) (c_ce clp - length (chars clp)) \<and> b_to_q_loop p count clp = Some (count - int m, clp')
      \<and> ring_at clp' f \<and> chars clp' = chars clp @ map (\<lambda>b. (b, False)) (take m p) \<and> shape clp' = shape clp
      \<and> c_cc clp' = c_cc clp + int m"
proof (induction p count clp rule: b_to_q_loop.induct)
  case (1 p count clp)
  have cc: "length (chars clp) = nat (c_cc clp)" using 1(2) by (simp add: chars_at)
  show ?case
  proof (cases "count > 0 \<and> c_cc clp < c_cn clp")
    case True
    obtain k clp' where turn: "b_to_q_turn p count clp = Some (drop k p, count - int k, clp')" "0 < k"
      "int k \<le> count" "nat (c_cc clp) + k \<le> c_ce clp" "c_cc clp' = c_cc clp + int k" "ring_at clp' f"
      "shape clp' = shape clp" "chars clp' = chars clp @ map (\<lambda>b. (b, False)) (take k p)"
      "stays_inside clp' ((f + nat (c_cc clp')) mod c_ce clp') (count - int k)"
      using b_to_q_turn_spec [OF 1(2) _ _ 1(4) 1(3)] True by blast
    have ce: "c_ce clp' = c_ce clp" using turn(7) by (simp add: shape_def)
    have "0 \<le> c_cc clp" using 1(2) by (simp add: ring_at_def)
    then have cc': "length (chars clp') = nat (c_cc clp) + k"
      using chars_at [OF turn(6)] turn(5) by (simp add: nat_add_distrib)
    define m where "m = min (nat (count - int k)) (c_ce clp - (nat (c_cc clp) + k))"
    have m: "min (nat count) (c_ce clp - length (chars clp)) = k + m"
      unfolding m_def cc using turn(3,4) by (simp add: min_def) linarith
    have "nat (count - int k) \<le> length (drop k p)" using 1(4) by auto
    from 1(1) [OF True turn(1) refl refl turn(6,9) this, unfolded ce cc', folded m_def]
    obtain clp'' where ih: "b_to_q_loop (drop k p) (count - int k) clp' = Some (count - int k - int m, clp'')"
      "ring_at clp'' f" "chars clp'' = chars clp' @ map (\<lambda>b. (b, False)) (take m (drop k p))"
      "shape clp'' = shape clp'" "c_cc clp'' = c_cc clp' + int m"
      by blast
    show ?thesis unfolding m using True turn ih
      by (intro exI [of _ clp''] exI [of _ "k + m"]) (subst b_to_q_loop.simps, simp add: take_add)
  next
    case False
    then have "min (nat count) (c_ce clp - length (chars clp)) = 0"
      using 1(2) cc by (auto simp: ring_at_def ring_mem_def)
    then show ?thesis using False 1(2) by (subst b_to_q_loop.simps) auto
  qed
qed

lemma b_to_q_spec:
  assumes "clist_ok clp" and room: "roomy clp \<or> put_place clp + min (nat count) (c_ce clp - length (chars clp)) < c_ce clp"
    and "nat count \<le> length cp"
  defines "m \<equiv> min (nat count) (c_ce clp - length (chars clp))"
  shows "\<exists>clp'. b_to_q mem_s mem_q cp count clp = Some (if count \<le> 0 then 0 else count - int m, clp')
    \<and> clist_ok clp' \<and> chars clp' = chars clp @ map (\<lambda>b. (b, False)) (take m cp) \<and> shape clp' = shape clp"
proof (cases "count \<le> 0")
  case True
  then show ?thesis using assms(1) by (simp add: b_to_q_def m_def)
next
  case False
  obtain clp1 f where rdy: "ready mem_s mem_q clp = Some (True, clp1)" and at: "ring_at clp1 f"
    and eq: "chars clp1 = chars clp" "shape clp1 = shape clp" "c_cq clp1 = c_cq clp" "c_cl clp1 = Some (put_place clp)"
    using ready_ok [OF assms(1)] by blast
  have ce: "c_ce clp1 = c_ce clp" using eq(2) by (simp add: shape_def)
  show ?thesis
  proof (cases "c_cc clp1 = c_cn clp1")
    case True
    then have "c_cc clp1 \<noteq> 0" using at by (auto simp: ring_at_def ring_mem_def)
    moreover have "m = 0" using True at chars_at [OF at] unfolding m_def eq(1) [symmetric]
      by (simp add: ring_at_def ring_mem_def ce)
    ultimately show ?thesis using rdy True False eq clist_ok_at [OF at] by (simp add: b_to_q_def)
  next
    case neq: False
    have "(f + nat (c_cc clp1)) mod c_ce clp1 = put_place clp" using at eq(4) by (simp add: ring_at_def)
    moreover have "length (chars clp) = nat (c_cc clp1)" using chars_at [OF at] eq(1) by simp
    ultimately have "stays_inside clp1 ((f + nat (c_cc clp1)) mod c_ce clp1) count"
      using room roomy_shape [OF eq(2)] by (simp add: stays_inside_def ce)
    from b_to_q_loop_spec [OF at this assms(3)]
    obtain clp' where "b_to_q_loop cp count clp1 = Some (count - int m, clp')" "ring_at clp' f"
      "chars clp' = chars clp @ map (\<lambda>b. (b, False)) (take m cp)" "shape clp' = shape clp" "c_cc clp' = c_cc clp1 + int m"
      by (auto simp: m_def eq ce)
    moreover have "0 < m"
    proof -
      have "length (chars clp) < c_ce clp"
        using at neq chars_at [OF at] unfolding eq(1) [symmetric] ce [symmetric]
        by (auto simp: ring_at_def ring_mem_def)
      then show ?thesis using False by (simp add: m_def)
    qed
    moreover have "0 \<le> c_cc clp1" using at by (simp add: ring_at_def)
    ultimately show ?thesis using rdy neq False clist_ok_at [of clp' f]
      by (intro exI [of _ clp']) (simp add: b_to_q_def)
  qed
qed

section \<open>Moving one queue into another\<close>

text \<open>The interface of a bounded queue, and of a loop that takes characters from one queue and puts
  them into another without looking at the answer. \<open>keep q x\<close> is what a queue stores for \<open>x\<close>.\<close>

locale bounded_queue =
  fixes inv :: "'q \<Rightarrow> bool"
    and contents :: "'q \<Rightarrow> 'a list"
    and capacity :: "'q \<Rightarrow> nat"
    and keep :: "'q \<Rightarrow> 'a \<Rightarrow> 'a"
    and get :: "'q \<Rightarrow> ('a option \<times> 'q) option"
    and put :: "'a \<Rightarrow> 'q \<Rightarrow> (bool \<times> 'q) option"
  assumes within: "inv q \<Longrightarrow> length (contents q) \<le> capacity q"
    and get_empty: "inv q \<Longrightarrow> contents q = [] \<Longrightarrow> get q = Some (None, q)"
    and get_next: "inv q \<Longrightarrow> contents q = x # xs \<Longrightarrow>
      \<exists>q'. get q = Some (Some x, q') \<and> inv q' \<and> contents q' = xs \<and> capacity q' = capacity q \<and> keep q' = keep q"
    and put_room: "inv q \<Longrightarrow> length (contents q) < capacity q \<Longrightarrow>
      \<exists>q'. put x q = Some (True, q') \<and> inv q' \<and> contents q' = contents q @ [keep q x]
        \<and> capacity q' = capacity q \<and> keep q' = keep q"
    and put_full: "inv q \<Longrightarrow> length (contents q) = capacity q \<Longrightarrow> put x q = Some (False, q)"
begin

lemma put_any:
  assumes "inv q"
  shows "\<exists>e q'. put x q = Some (e, q') \<and> inv q' \<and> capacity q' = capacity q \<and> keep q' = keep q
    \<and> contents q' = contents q @ map (keep q) (take (capacity q - length (contents q)) [x])"
proof (cases "length (contents q) = capacity q")
  case True
  then show ?thesis using put_full [OF assms] assms by (intro exI [of _ False] exI [of _ q]) simp
next
  case False
  then have "length (contents q) < capacity q" using within [OF assms] by simp
  moreover from this have "take (capacity q - length (contents q)) [x] = [x]" by (intro take_all) simp
  ultimately show ?thesis using put_room [OF assms, of x] by fastforce
qed

end

locale queue_mover = bounded_queue +
  fixes move :: "'q \<Rightarrow> 'q \<Rightarrow> ('q \<times> 'q) option"
  assumes move_unfold: "inv source \<Longrightarrow> move source dest =
    do { (x, source) \<leftarrow> get source;
         case x of None \<Rightarrow> Some (source, dest)
         | Some x \<Rightarrow> do { (e, dest) \<leftarrow> put x dest; move source dest } }"
begin

lemma move_result:
  "inv a \<Longrightarrow> inv b \<Longrightarrow> \<exists>a' b'. move a b = Some (a', b') \<and> inv a' \<and> inv b' \<and> contents a' = []
    \<and> contents b' = contents b @ map (keep b) (take (capacity b - length (contents b)) (contents a))"
proof (induction "contents a" arbitrary: a b)
  case Nil
  then show ?case by (simp add: move_unfold get_empty)
next
  case (Cons x xs)
  obtain a1 where a1: "get a = Some (Some x, a1)" "inv a1" "contents a1 = xs"
    using get_next [OF Cons.prems(1) Cons.hyps(2) [symmetric]] by blast
  obtain e b1 where b1: "put x b = Some (e, b1)" "inv b1" "capacity b1 = capacity b" "keep b1 = keep b"
    "contents b1 = contents b @ map (keep b) (take (capacity b - length (contents b)) [x])"
    using put_any [OF Cons.prems(2), of x] by blast
  obtain a' b' where ih: "move a1 b1 = Some (a', b')" "inv a'" "inv b'" "contents a' = []"
    "contents b' = contents b1 @ map (keep b) (take (capacity b - length (contents b1)) xs)"
    using Cons.hyps(1) [OF a1(3) [symmetric] a1(2) b1(2)] a1(3) b1(3,4) by auto
  have "take (capacity b - length (contents b)) (x # xs) =
      take (capacity b - length (contents b)) [x] @ take (capacity b - length (contents b1)) xs"
  proof (cases "capacity b - length (contents b)")
    case (Suc n)
    then have "capacity b - Suc (length (contents b)) = n" by simp
    then show ?thesis using Suc unfolding b1(5) by simp
  qed (simp add: b1(5))
  then have "contents b' = contents b @ map (keep b) (take (capacity b - length (contents b)) (contents a))"
    unfolding ih(5) b1(5) Cons.hyps(2) [symmetric] by simp
  moreover have "move a b = Some (a', b')"
    using Cons.prems a1(1) b1(1) ih(1) by (simp add: move_unfold [of a])
  ultimately show ?case using ih(2-4) by blast
qed

end

definition kept :: "clist \<Rightarrow> u8 \<times> bool \<Rightarrow> u8 \<times> bool" where
  "kept clp x = (fst x, c_cq clp \<noteq> None \<and> snd x)"

definition get_char :: "clist \<Rightarrow> ((u8 \<times> bool) option \<times> clist) option" where
  "get_char clp = map_option (\<lambda>(c, clp). (if c = -1 then None else Some (decode c), clp)) (getc clp)"

definition put_char :: "u8 list option \<Rightarrow> u8 list option \<Rightarrow> u8 \<times> bool \<Rightarrow> clist \<Rightarrow> (bool \<times> clist) option" where
  "put_char mem_s mem_q x clp = map_option (\<lambda>(e, clp). (e = 0, clp)) (putc mem_s mem_q (encode x) clp)"

lemma stored_encode: "stored clp (encode x) = kept clp x"
  using decode_encode [of x] by (simp add: stored_def kept_def decode_def prod_eq_iff)

lemma kept_shape: "shape clp' = shape clp \<Longrightarrow> c_ce clp' = c_ce clp \<and> kept clp' = kept clp"
  by (cases "c_cq clp"; cases "c_cq clp'") (auto simp: shape_def kept_def fun_eq_iff)

interpretation cq: bounded_queue clist_ok chars c_ce kept get_char "put_char mem_s mem_q" for mem_s mem_q
proof
  fix clp :: clist assume "clist_ok clp"
  then show "length (chars clp) \<le> c_ce clp"
    using length_chars [of clp] by (auto simp: clist_ok_def ring_at_def ring_mem_def split: if_splits)
next
  fix clp assume "clist_ok clp" "chars clp = []"
  then show "get_char clp = Some (None, clp)" by (simp add: get_char_def getc_empty)
next
  fix clp x xs assume "clist_ok clp" "chars clp = x # xs"
  from getc_next [OF this] obtain clp' where "getc clp = Some (encode x, clp')" "clist_ok clp'" "chars clp' = xs"
    "shape clp' = shape clp" by blast
  then show "\<exists>clp'. get_char clp = Some (Some x, clp') \<and> clist_ok clp' \<and> chars clp' = xs
      \<and> c_ce clp' = c_ce clp \<and> kept clp' = kept clp"
    using kept_shape [of clp' clp] by (intro exI [of _ clp']) (simp add: get_char_def)
next
  fix clp and x :: "u8 \<times> bool" assume "clist_ok clp" "length (chars clp) < c_ce clp"
  from putc_room [OF this, of mem_s mem_q "encode x"] obtain clp' where
    "putc mem_s mem_q (encode x) clp = Some (0, clp')" "clist_ok clp'" "chars clp' = chars clp @ [kept clp x]"
    "shape clp' = shape clp" unfolding stored_encode by blast
  then show "\<exists>clp'. put_char mem_s mem_q x clp = Some (True, clp') \<and> clist_ok clp' \<and> chars clp' = chars clp @ [kept clp x]
      \<and> c_ce clp' = c_ce clp \<and> kept clp' = kept clp"
    using kept_shape [of clp' clp] by (intro exI [of _ clp']) (simp add: put_char_def)
next
  fix clp and x :: "u8 \<times> bool" assume "clist_ok clp" "length (chars clp) = c_ce clp"
  then show "put_char mem_s mem_q x clp = Some (False, clp)" by (simp add: put_char_def putc_full)
qed

interpretation cm: queue_mover clist_ok chars c_ce kept get_char "put_char mem_s mem_q" "catq mem_s mem_q" for mem_s mem_q
proof
  fix source dest assume ok: "clist_ok source"
  show "catq mem_s mem_q source dest =
    do { (x, source) \<leftarrow> get_char source;
         case x of None \<Rightarrow> Some (source, dest)
         | Some x \<Rightarrow> do { (e, dest) \<leftarrow> put_char mem_s mem_q x dest; catq mem_s mem_q source dest } }"
  proof (cases "chars source")
    case Nil
    then show ?thesis by (subst catq.simps) (simp add: get_char_def getc_empty [OF ok])
  next
    case (Cons x xs)
    then show ?thesis using getc_next [OF ok Cons]
      by (subst catq.simps)
        (auto simp: get_char_def put_char_def map_option_case split: option.splits)
  qed
qed

section \<open>Walking over a queue\<close>

text \<open>The loop \<^verbatim>\<open>for (cp = firstc(q, &c); cp; cp = nextc(q, cp, &c)) ttyecho(c, tp)\<close> of the terminal
  driver: the characters it echoes.\<close>

partial_function (option) walk_on :: "clist \<Rightarrow> int \<Rightarrow> (nat \<times> int) option \<Rightarrow> int list option" where
  "walk_on clp cc cur =
    (case cur of
       None \<Rightarrow> Some []
     | Some (cp, c) \<Rightarrow> do { (cc, cur) \<leftarrow> nextc cc clp cp; cs \<leftarrow> walk_on clp cc cur; Some (c # cs) })"

definition walk :: "clist \<Rightarrow> int list option" where
  "walk clp = do { (cc, cur) \<leftarrow> firstc clp; walk_on clp cc cur }"

lemma nextc_spec:
  assumes "ring_at clp f" "k < length (chars clp)"
  shows "nextc (int (length (chars clp) - k)) clp ((f + k) mod c_ce clp) = Some (int (length (chars clp) - Suc k),
    if Suc k < length (chars clp) then Some ((f + Suc k) mod c_ce clp, encode (chars clp ! Suc k)) else None)"
proof -
  have n: "length (chars clp) = nat (c_cc clp)" using assms(1) by (simp add: chars_at)
  then have ce: "ring_mem clp" "k < c_ce clp" "c_cf clp = Some f" "0 < c_ce clp" "f < c_ce clp"
    using assms by (auto simp: ring_at_def ring_mem_def)
  have "c_cf clp = Some ((f + k) mod c_ce clp) \<longleftrightarrow> k = 0"
    using mod_add_inj [of k "c_ce clp" 0 f] ce by auto
  then have cc: "(if c_cf clp = Some ((f + k) mod c_ce clp) then c_cc clp else int (length (chars clp) - k))
      = int (length (chars clp) - k)"
    using assms(2) n by auto
  have place: "(if (f + k) mod c_ce clp + 1 = c_ce clp then 0 else (f + k) mod c_ce clp + 1) = (f + Suc k) mod c_ce clp"
    using next_place [of "(f + k) mod c_ce clp" "c_ce clp"] ce(4) by (simp add: mod_Suc_eq)
  have ch: "chars clp ! Suc k = slot clp ((f + Suc k) mod c_ce clp)" if "Suc k < length (chars clp)"
    using that n by (simp add: chars_at [OF assms(1)])
  show ?thesis
    unfolding nextc_def Let_def cc place using assms(2) ce(1,4) ch
    by (cases "Suc k < length (chars clp)") (auto simp: fetch_slot)
qed

lemma walk_on_spec:
  assumes "ring_at clp f"
  shows "k < length (chars clp) \<Longrightarrow>
    walk_on clp (int (length (chars clp) - k)) (Some ((f + k) mod c_ce clp, encode (chars clp ! k)))
      = Some (map encode (drop k (chars clp)))"
proof (induction "length (chars clp) - k" arbitrary: k)
  case (Suc n)
  let ?ch = "\<lambda>k. encode (chars clp ! k)"
  have turn: "walk_on clp (int (length (chars clp) - k)) (Some ((f + k) mod c_ce clp, ?ch k)) =
    do { cs \<leftarrow> walk_on clp (int (length (chars clp) - Suc k))
           (if Suc k < length (chars clp) then Some ((f + Suc k) mod c_ce clp, ?ch (Suc k)) else None);
         Some (?ch k # cs) }"
    by (subst walk_on.simps) (simp only: nextc_spec [OF assms Suc.prems] option.case prod.case bind.bind_lunit)
  have here: "drop k (chars clp) = chars clp ! k # drop (Suc k) (chars clp)"
    using Suc.prems by (simp add: Cons_nth_drop_Suc)
  show ?case
  proof (cases "Suc k < length (chars clp)")
    case True
    have "n = length (chars clp) - Suc k" using Suc.hyps(2) by simp
    from Suc.hyps(1) [OF this True] show ?thesis unfolding turn if_P [OF True] here by simp
  next
    case False
    then show ?thesis unfolding turn here by (simp add: walk_on.simps [of _ _ None])
  qed
qed simp

lemma walk_spec: "clist_ok clp \<Longrightarrow> walk clp = Some (map encode (chars clp))"
proof (erule clist_okE)
  assume "c_cc clp = 0" "chars clp = []"
  then show ?thesis by (simp add: walk_def firstc_def walk_on.simps)
next
  fix f assume at: "0 < c_cc clp" "ring_at clp f"
  then have len: "length (chars clp) = nat (c_cc clp)" by (simp add: chars_at)
  with at have n: "0 < length (chars clp)" "c_cc clp = int (length (chars clp) - 0)" "f mod c_ce clp = f"
    by (auto simp: ring_at_def)
  have "firstc clp = Some (int (length (chars clp) - 0), Some ((f + 0) mod c_ce clp, encode (chars clp ! 0)))"
  proof -
    have "chars clp ! 0 = slot clp f" using n(1,3) unfolding chars_at [OF at(2)] by simp
    moreover have "fetch clp f = Some (encode (slot clp f))" "c_cf clp = Some f" "c_cc clp \<noteq> 0"
      using at by (simp_all add: fetch_slot ring_at_def)
    ultimately show ?thesis using n(3) len at(1) by (simp add: firstc_def)
  qed
  with walk_on_spec [OF at(2) n(1)] show ?thesis by (simp add: walk_def)
qed

section \<open>Counting without taking\<close>

lemma ndqb_loop_spec:
  assumes "ring_at clp f" "flag AND TTY_QUOTE = 0"
  shows "f + k < c_ce clp \<Longrightarrow> k \<le> nat (c_cc clp) \<Longrightarrow>
    ndqb_loop clp flag (f + k) (c_cc clp - int k) (int k) =
      Some (int (k + length (takeWhile (\<lambda>x. uint (fst x) AND flag = 0)
                              (drop k (take (c_ce clp - f) (chars clp))))))"
proof (induction "nat (c_cc clp) - k" arbitrary: k)
  case 0
  then have "\<not> c_cc clp - int k > 0" "drop k (take (c_ce clp - f) (chars clp)) = []"
    by (simp_all add: chars_at [OF assms(1)])
  then show ?case by (subst ndqb_loop.simps) simp
next
  case (Suc n)
  have k: "k < nat (c_cc clp)" using Suc.hyps(2) by simp
  obtain cs where cs: "c_cs clp = Some cs" "length cs = c_ce clp" "c_cn clp = int (c_ce clp)"
    using assms(1) by (auto simp: ring_at_def ring_mem_def)
  let ?w = "take (c_ce clp - f) (chars clp)"
  have here: "?w ! k = slot clp (f + k)" and len: "k < length ?w"
    using Suc.prems k by (auto simp: chars_at [OF assms(1)])
  have w: "drop k ?w = ?w ! k # drop (Suc k) ?w" by (rule Cons_nth_drop_Suc [OF len, symmetric])
  have b: "cs ! (f + k) = fst (?w ! k)" using cs unfolding here by (simp add: slot_def)
  have cc: "c_cc clp - int k > 0" using k by simp
  have turn: "ndqb_loop clp flag (f + k) (c_cc clp - int k) (int k) =
      (if uint (fst (?w ! k)) AND flag \<noteq> 0 then Some (int k)
       else if f + k + 1 = c_ce clp then Some (int k + 1)
       else ndqb_loop clp flag (f + Suc k) (c_cc clp - int (Suc k)) (int (Suc k)))"
    using Suc.prems cs assms(2) cc by (subst ndqb_loop.simps) (simp add: b algebra_simps)
  consider (stop) "uint (fst (?w ! k)) AND flag \<noteq> 0" | (wrap) "uint (fst (?w ! k)) AND flag = 0" "f + k + 1 = c_ce clp"
    | (on) "uint (fst (?w ! k)) AND flag = 0" "f + k + 1 < c_ce clp" using Suc.prems by linarith
  then show ?case
  proof cases
    case wrap
    then have "length ?w \<le> Suc k" by simp
    then have "drop (Suc k) ?w = []" by simp
    then show ?thesis unfolding turn w using wrap by simp
  next
    case on
    have "ndqb_loop clp flag (f + Suc k) (c_cc clp - int (Suc k)) (int (Suc k)) =
      Some (int (Suc k + length (takeWhile (\<lambda>x. uint (fst x) AND flag = 0) (drop (Suc k) ?w))))"
      by (rule Suc.hyps(1)) (use Suc.hyps(2) on k in simp_all)
    then show ?thesis unfolding turn w using on by simp
  qed (simp add: turn w)
qed

lemma ndqb_zero:
  assumes "ring_at clp f" "0 < c_cc clp"
  shows "ndqb clp 0 = Some (int (min (nat (c_cc clp)) (c_ce clp - f)))"
proof -
  obtain l where l: "c_cl clp = Some l" using assms(1) by (auto simp: ring_at_def)
  have "f < c_ce clp" "nat (c_cc clp) \<le> c_ce clp" "l = (f + nat (c_cc clp)) mod c_ce clp"
    using assms l by (auto simp: ring_at_def ring_mem_def)
  then consider "f + nat (c_cc clp) < c_ce clp" "l = f + nat (c_cc clp)"
    | "c_ce clp \<le> f + nat (c_cc clp)" "l = f + nat (c_cc clp) - c_ce clp"
    by (cases "f + nat (c_cc clp) < c_ce clp") (auto simp: le_mod_geq mod_less)
  then show ?thesis
    using assms l \<open>f < c_ce clp\<close> \<open>nat (c_cc clp) \<le> c_ce clp\<close>
    by cases (auto simp: ndqb_def ring_at_def min_def)
qed

lemma ndqb_spec:
  assumes "clist_ok clp" "flag AND TTY_QUOTE = 0"
  shows "ndqb clp flag = Some (int (length (takeWhile (\<lambda>x. uint (fst x) AND flag = 0)
    (take (c_ce clp - (case c_cf clp of None \<Rightarrow> 0 | Some f \<Rightarrow> f)) (chars clp)))))"
  using assms(1)
proof (cases rule: clist_okE)
  case empty
  then show ?thesis by (simp add: ndqb_def)
next
  case (at f)
  have f: "c_cf clp = Some f" "f + 0 < c_ce clp" and len: "length (chars clp) = nat (c_cc clp)"
    using at(2) by (auto simp: ring_at_def chars_at [OF at(2)])
  show ?thesis
  proof (cases "flag = 0")
    case True
    have tw: "takeWhile (\<lambda>x. True) xs = xs" for xs :: "(u8 \<times> bool) list"
      by (simp add: takeWhile_eq_all_conv)
    show ?thesis using True f len by (simp add: ndqb_zero [OF at(2,1)] tw min.commute)
  next
    case False
    then show ?thesis
      using at ndqb_loop_spec [OF at(2) assms(2) f(2)] f by (simp add: ndqb_def)
  qed
qed

section \<open>Allocation\<close>

lemma QMEM_enough: "n \<le> 8 * QMEM n"
proof -
  have "n - 1 < 8 * ((n - 1) div 8) + 8" by presburger
  then show ?thesis by (simp add: QMEM_def)
qed

lemma QMEM_le: "0 < n \<Longrightarrow> QMEM n \<le> n"
  by (cases n) (simp_all add: QMEM_def)

lemma clalloc_spec:
  assumes "0 < n" "length s = n" "length q = QMEM n"
  shows "\<exists>clp'. clalloc (Some s) (Some q) clp n quot = Some (0, clp') \<and> clist_ok clp' \<and> chars clp' = [] \<and> c_ce clp' = n
    \<and> c_cq clp' = (if quot then Some q else None)"
  using assms QMEM_le [OF assms(1)] QMEM_enough [of n]
  by (auto simp: clalloc_def bzero_def clist_ok_def ring_mem_def chars_def)

section \<open>Examples\<close>

definition ring4 :: clist where
  "ring4 = \<lparr>c_cc = 3, c_cn = 4, c_cf = Some 2, c_cl = Some 1, c_cs = Some [0x63, 0, 0x61, 0x62], c_ce = 4, c_cq = Some [8]\<rparr>"

lemma ring4_at: "ring_at ring4 2"
  by (simp add: ring4_def ring_at_def ring_mem_def)

lemma ring4_ok: "clist_ok ring4" "roomy ring4"
  using clist_ok_at [OF ring4_at] by (simp_all add: ring4_def roomy_def)

lemma ring4_chars [simp]: "chars ring4 = [(0x61, False), (0x62, True), (0x63, False)]" "c_ce ring4 = 4"
  by (simp_all add: ring4_def chars_def window_def slot_def qbit_def upt_conv_Cons)

section \<open>Properties\<close>

text \<open>C13: A ring buffer with quote bits is a bounded queue with two ends. \<open>getc\<close> takes the first character
  with its quote bit, \<open>unputc\<close> the last one, \<open>putc\<close> adds one behind the others while there is room;
  an empty and a full queue answer -1 and stay as they are.\<close>

theorem clist_ends:
  assumes "clist_ok clp"
  shows "(case chars clp of [] \<Rightarrow> getc clp = Some (-1, clp)
      | x # xs \<Rightarrow> \<exists>clp'. getc clp = Some (encode x, clp') \<and> clist_ok clp' \<and> chars clp' = xs \<and> shape clp' = shape clp)
    \<and> (case rev (chars clp) of [] \<Rightarrow> unputc clp = Some (-1, clp)
      | x # xs \<Rightarrow> \<exists>clp'. unputc clp = Some (encode x, clp') \<and> clist_ok clp' \<and> chars clp' = rev xs
          \<and> shape clp' = shape clp)
    \<and> (if length (chars clp) = c_ce clp then putc mem_s mem_q c clp = Some (-1, clp)
       else \<exists>clp'. putc mem_s mem_q c clp = Some (0, clp') \<and> clist_ok clp'
          \<and> chars clp' = chars clp @ [stored clp c] \<and> shape clp' = shape clp)"
proof (intro conjI)
  show "case chars clp of [] \<Rightarrow> getc clp = Some (-1, clp)
      | x # xs \<Rightarrow> \<exists>clp'. getc clp = Some (encode x, clp') \<and> clist_ok clp' \<and> chars clp' = xs \<and> shape clp' = shape clp"
    using getc_empty [OF assms] getc_next [OF assms] by (simp split: list.split)
  show "case rev (chars clp) of [] \<Rightarrow> unputc clp = Some (-1, clp)
      | x # xs \<Rightarrow> \<exists>clp'. unputc clp = Some (encode x, clp') \<and> clist_ok clp' \<and> chars clp' = rev xs
          \<and> shape clp' = shape clp"
    using unputc_empty [OF assms] unputc_last [OF assms] by (simp add: rev_swap split: list.split)
  show "if length (chars clp) = c_ce clp then putc mem_s mem_q c clp = Some (-1, clp)
       else \<exists>clp'. putc mem_s mem_q c clp = Some (0, clp') \<and> clist_ok clp'
          \<and> chars clp' = chars clp @ [stored clp c] \<and> shape clp' = shape clp"
    using putc_full [OF assms] putc_room [OF assms] cq.within [OF assms] by simp
qed

theorem clist_ends_witness:
  "(\<exists>clp'. getc ring4 = Some (encode (0x61, False), clp') \<and> clist_ok clp' \<and> chars clp' = [(0x62, True), (0x63, False)]
       \<and> shape clp' = shape ring4)
    \<and> (\<exists>clp'. unputc ring4 = Some (encode (0x63, False), clp') \<and> clist_ok clp'
       \<and> chars clp' = [(0x61, False), (0x62, True)] \<and> shape clp' = shape ring4)"
  using clist_ends [OF ring4_ok(1)] by simp

text \<open>C19: Whole buffers. \<open>q_to_b\<close> hands out the first \<open>count\<close> characters, or all there are, without their
  quote bits, and \<open>ndflush\<close> drops them, wherever the ring wraps around; both always return.\<close>

theorem clist_bulk_read:
  assumes "clist_ok clp"
  shows "(\<exists>clp'. q_to_b clp count = Some (map fst (take (nat count) (chars clp)), clp')
      \<and> clist_ok clp' \<and> chars clp' = drop (nat count) (chars clp) \<and> shape clp' = shape clp)
    \<and> (\<exists>clp'. ndflush clp count = Some clp' \<and> clist_ok clp' \<and> chars clp' = drop (nat count) (chars clp)
      \<and> shape clp' = shape clp)"
  using q_to_b_spec [OF assms] ndflush_spec [OF assms] by blast

theorem clist_bulk_read_witness:
  "(\<exists>clp'. q_to_b ring4 2 = Some ([0x61, 0x62], clp') \<and> clist_ok clp' \<and> chars clp' = [(0x63, False)]
      \<and> shape clp' = shape ring4)
    \<and> (\<exists>clp'. ndflush ring4 2 = Some clp' \<and> clist_ok clp' \<and> chars clp' = [(0x63, False)] \<and> shape clp' = shape ring4)"
  using clist_bulk_read [OF ring4_ok(1), of 2] by simp

text \<open>C18: \<open>b_to_q\<close> appends as many of the bytes as there is room for, unquoted, across the wrap of the
  ring, and returns how many it could not take. The condition is that the bytes taken end before the last
  place of the array, or that there is a byte of quote bits behind the one of the last place (the ring has
  no quote bits, or more than its length); a ring as the code allocates it, whose length is a multiple of
  eight, has no such byte, and \<open>b_to_q_overruns\<close> shows what happens there at the last place.\<close>

theorem clist_bulk_write:
  assumes "clist_ok clp" and "roomy clp \<or> put_place clp + min (nat count) (c_ce clp - length (chars clp)) < c_ce clp"
    and "nat count \<le> length cp"
  shows "\<exists>clp'. b_to_q mem_s mem_q cp count clp
      = Some (int (nat count - min (nat count) (c_ce clp - length (chars clp))), clp')
    \<and> clist_ok clp' \<and> shape clp' = shape clp
    \<and> chars clp' = chars clp @ map (\<lambda>b. (b, False)) (take (min (nat count) (c_ce clp - length (chars clp))) cp)"
  using b_to_q_spec [OF assms, of mem_s mem_q] by (cases "count \<le> 0") (auto simp: of_nat_diff)

theorem clist_bulk_write_witness:
  "\<exists>clp'. b_to_q None None [0x64, 0x65] 2 ring4 = Some (1, clp')
    \<and> clist_ok clp' \<and> shape clp' = shape ring4 \<and> chars clp' = chars ring4 @ [(0x64, False)]"
  using clist_bulk_write [OF ring4_ok(1), of 2 "[0x64, 0x65]" None None] ring4_ok(2) by simp

text \<open>The quote bits overrun. A ring whose length is a multiple of eight has exactly as many bytes of
  quote bits as \<open>QMEM\<close> says; copying a full buffer into it makes \<open>clrbits\<close> touch the byte behind them.\<close>

theorem b_to_q_overruns:
  assumes "n = 8 * m" "0 < m" "length s = n" "length q = QMEM n" "n \<le> length cp"
  shows "\<exists>clp'. clalloc (Some s) (Some q) clp n True = Some (0, clp') \<and> clist_ok clp'
    \<and> b_to_q mem_s mem_q cp (int n) clp' = None"
proof -
  have n: "0 < n" and qm: "length q = m" using assms by (auto simp: QMEM_def)
  from clalloc_spec [OF n assms(3,4), of clp True] obtain clp' where
    alloc: "clalloc (Some s) (Some q) clp n True = Some (0, clp')" "clist_ok clp'" "chars clp' = []"
      "c_ce clp' = n" "c_cq clp' = Some q" by auto
  then have c: "c_cc clp' = 0" "c_cn clp' = int n" by (auto simp: chars_Nil_iff clist_ok_def ring_mem_def)
  obtain cs where cs: "c_cs clp' = Some cs" using alloc(2) by (auto simp: clist_ok_def ring_mem_def)
  have "clrbits q 0 n = None"
    using assms(1,2) qm by (auto simp: clrbits_def Let_def rd_def wr_def)
  then have "b_to_q mem_s mem_q cp (int n) clp' = None"
    using alloc c cs n by (simp add: b_to_q_def ready_def b_to_q_loop.simps [of cp] b_to_q_turn_def Let_def write_length_def)
  with alloc show ?thesis by blast
qed

theorem b_to_q_overruns_witness:
  "\<exists>clp'. clalloc (Some (replicate 8 0)) (Some [0]) ring4 8 True = Some (0, clp') \<and> clist_ok clp'
    \<and> b_to_q None None (replicate 8 0x61) (int 8) clp' = None"
  by (rule b_to_q_overruns [of 8 1]) (simp_all add: QMEM_def)

text \<open>\<open>catq\<close> empties the source; the destination gets what it has room for, and the rest of the
  characters is lost.\<close>

theorem catq_moves:
  assumes "clist_ok source" "clist_ok dest"
  shows "\<exists>source' dest'. catq mem_s mem_q source dest = Some (source', dest') \<and> clist_ok source' \<and> clist_ok dest'
    \<and> chars source' = []
    \<and> chars dest' = chars dest @ map (kept dest) (take (c_ce dest - length (chars dest)) (chars source))"
  by (rule cm.move_result [OF assms])

theorem catq_moves_witness:
  "\<exists>source' dest'. catq None None ring4 ring4 = Some (source', dest') \<and> clist_ok source' \<and> clist_ok dest'
    \<and> chars source' = [] \<and> chars dest' = chars ring4 @ [(0x61, False)]"
  using catq_moves [OF ring4_ok(1) ring4_ok(1), of None None] by (simp add: kept_def)

text \<open>The loop over \<open>firstc\<close> and \<open>nextc\<close> visits every character with its quote bit, the first one
  included, in order, and then ends.\<close>

theorem walk_visits:
  assumes "clist_ok clp"
  shows "walk clp = Some (map encode (chars clp))"
  by (rule walk_spec [OF assms])

theorem walk_visits_witness: "walk ring4 = Some [0x61, 0x162, 0x63]"
proof -
  have "encode (0x62, True) = 0x162" by (simp add: encode_def)
  then show ?thesis using walk_visits [OF ring4_ok(1)] by (simp add: encode_def)
qed

text \<open>\<open>ndqb\<close> without the quote flag counts the characters up to the end of the ring that have none of
  the flagged bits.\<close>

theorem ndqb_counts:
  assumes "clist_ok clp" "flag AND TTY_QUOTE = 0"
  shows "ndqb clp flag = Some (int (length (takeWhile (\<lambda>x. uint (fst x) AND flag = 0)
    (take (c_ce clp - (case c_cf clp of None \<Rightarrow> 0 | Some f \<Rightarrow> f)) (chars clp)))))"
  by (rule ndqb_spec [OF assms])

theorem ndqb_counts_witness: "ndqb ring4 0 = Some 2"
  using ndqb_counts [OF ring4_ok(1), of 0] by (simp add: ring4_def chars_def window_def slot_def upt_conv_Cons)

text \<open>With the quote flag \<open>ndqb\<close> looks at the quote bit of the place behind each character: it counts a
  quoted first character and stops in front of an unquoted one that a quoted one follows.\<close>

theorem ndqb_quote_shifted:
  "ndqb \<lparr>c_cc = 2, c_cn = 8, c_cf = Some 0, c_cl = Some 2, c_cs = Some [0x61, 0x62, 0, 0, 0, 0, 0, 0], c_ce = 8, c_cq = Some [1, 0]\<rparr>
      TTY_QUOTE = Some 2
    \<and> ndqb \<lparr>c_cc = 2, c_cn = 8, c_cf = Some 0, c_cl = Some 2, c_cs = Some [0x61, 0x62, 0, 0, 0, 0, 0, 0], c_ce = 8, c_cq = Some [2, 0]\<rparr>
      TTY_QUOTE = Some 0"
  by (simp add: ndqb_def ndqb_loop.simps isset_def rd_def)

end
