(* ===== verification/Qsort.thy ===== *)
theory Qsort
  imports Prelude "HOL-Library.Multiset"
begin

text \<open>
  The kernel's quicksort, \<^verbatim>\<open>kern/qsort.c\<close>, and comparison functions of its callers. The array is the
  list of its elements, and a pointer into it is the index of an element; the recursion works on the
  part of the array it is given. The comparison function is any function of two elements, so what is
  proved without a hypothesis on it holds for inconsistent ones too. The elements are far fewer than
  \<^verbatim>\<open>INT_MAX\<close> bytes, so that the \<^verbatim>\<open>int\<close> variables \<^verbatim>\<open>d\<close> and \<^verbatim>\<open>r\<close> hold the differences of pointers.
\<close>

section \<open>The code\<close>

definition swap :: "'a list \<Rightarrow> nat \<Rightarrow> nat \<Rightarrow> 'a list" where
  "swap xs i j = xs[i := xs ! j, j := xs ! i]"

fun vecswap :: "'a list \<Rightarrow> nat \<Rightarrow> nat \<Rightarrow> nat \<Rightarrow> 'a list" where
  "vecswap xs i j 0 = xs"
| "vecswap xs i j (Suc n) = vecswap (swap xs i j) (Suc i) (Suc j) n"

definition med3 :: "('a \<Rightarrow> 'a \<Rightarrow> int) \<Rightarrow> 'a list \<Rightarrow> nat \<Rightarrow> nat \<Rightarrow> nat \<Rightarrow> nat" where
  "med3 cmp xs a b c =
    (if cmp (xs ! a) (xs ! b) < 0
     then if cmp (xs ! b) (xs ! c) < 0 then b else if cmp (xs ! a) (xs ! c) < 0 then c else a
     else if cmp (xs ! b) (xs ! c) > 0 then b else if cmp (xs ! a) (xs ! c) < 0 then a else c)"

text \<open>Insertion sort: the inner loop carries the element at \<open>pl\<close> down, the outer one runs over the array.\<close>

fun sink :: "('a \<Rightarrow> 'a \<Rightarrow> int) \<Rightarrow> 'a list \<Rightarrow> nat \<Rightarrow> 'a list" where
  "sink cmp xs 0 = xs"
| "sink cmp xs (Suc pl) =
    (if cmp (xs ! pl) (xs ! Suc pl) > 0 then sink cmp (swap xs (Suc pl) pl) pl else xs)"

lemma length_swap [simp]: "length (swap xs i j) = length xs"
  by (simp add: swap_def)

lemma length_sink [simp]: "length (sink cmp xs pl) = length xs"
  by (induction cmp xs pl rule: sink.induct) simp_all

function insertion :: "('a \<Rightarrow> 'a \<Rightarrow> int) \<Rightarrow> 'a list \<Rightarrow> nat \<Rightarrow> 'a list" where
  "insertion cmp xs pm = (if pm < length xs then insertion cmp (sink cmp xs pm) (Suc pm) else xs)"
  by pat_completeness auto
termination
  by (relation "measure (\<lambda>(cmp, xs, pm). length xs - pm)") auto

declare insertion.simps [simp del]

definition pivot :: "('a \<Rightarrow> 'a \<Rightarrow> int) \<Rightarrow> 'a list \<Rightarrow> nat" where
  "pivot cmp xs =
    (let n = length xs; pm = n div 2
     in if n > 7 then
          (let pl = 0; pn = n - 1;
               (pl, pm, pn) =
                 (if n > 40 then
                    (let d = n div 8
                     in (med3 cmp xs pl (pl + d) (pl + 2 * d), med3 cmp xs (pm - d) pm (pm + d),
                         med3 cmp xs (pn - 2 * d) (pn - d) pn))
                  else (pl, pm, pn))
           in med3 cmp xs pl pm pn)
        else pm)"

text \<open>The state of the partition: the array, the four pointers and \<^verbatim>\<open>swap_cnt\<close>.\<close>

record 'a part =
  arr :: "'a list"
  pa :: nat
  pb :: nat
  pc :: nat
  pd :: nat
  swap_cnt :: bool

function scan_up :: "('a \<Rightarrow> 'a \<Rightarrow> int) \<Rightarrow> 'a part \<Rightarrow> 'a part" where
  "scan_up cmp s =
    (if pb s \<le> pc s \<and> cmp (arr s ! pb s) (arr s ! 0) \<le> 0
     then scan_up cmp
            (if cmp (arr s ! pb s) (arr s ! 0) = 0
             then s\<lparr>swap_cnt := True, arr := swap (arr s) (pa s) (pb s), pa := pa s + 1, pb := pb s + 1\<rparr>
             else s\<lparr>pb := pb s + 1\<rparr>)
     else s)"
  by pat_completeness auto
termination
  by (relation "measure (\<lambda>(cmp, s). Suc (pc s) - pb s)") auto

declare scan_up.simps [simp del]

text \<open>\<^verbatim>\<open>pc\<close> is never below the start of the array: it is only decreased while it is not below \<^verbatim>\<open>pb\<close>.\<close>

function scan_down :: "('a \<Rightarrow> 'a \<Rightarrow> int) \<Rightarrow> 'a part \<Rightarrow> 'a part" where
  "scan_down cmp s =
    (if 0 < pb s \<and> pb s \<le> pc s \<and> cmp (arr s ! pc s) (arr s ! 0) \<ge> 0
     then scan_down cmp
            (if cmp (arr s ! pc s) (arr s ! 0) = 0
             then s\<lparr>swap_cnt := True, arr := swap (arr s) (pc s) (pd s), pd := pd s - 1, pc := pc s - 1\<rparr>
             else s\<lparr>pc := pc s - 1\<rparr>)
     else s)"
  by pat_completeness auto
termination
  by (relation "measure (\<lambda>(cmp, s). Suc (pc s) - pb s)") auto

declare scan_down.simps [simp del]

lemma scan_up_ptrs: "pb s \<le> pb (scan_up cmp s) \<and> pc (scan_up cmp s) = pc s"
proof (induction cmp s rule: scan_up.induct)
  case (1 cmp s)
  then show ?case by (subst (1 2) scan_up.simps) (auto split: if_splits)
qed

lemma scan_down_ptrs: "pc (scan_down cmp s) \<le> pc s \<and> pb (scan_down cmp s) = pb s"
proof (induction cmp s rule: scan_down.induct)
  case (1 cmp s)
  then show ?case by (subst (1 2) scan_down.simps) (auto split: if_splits)
qed

function partition :: "('a \<Rightarrow> 'a \<Rightarrow> int) \<Rightarrow> 'a part \<Rightarrow> 'a part" where
  "partition cmp s =
    (let s = scan_down cmp (scan_up cmp s)
     in if pb s > pc s then s
        else partition cmp (s\<lparr>arr := swap (arr s) (pb s) (pc s), swap_cnt := True, pb := pb s + 1, pc := pc s - 1\<rparr>))"
  by pat_completeness auto
termination
proof (relation "measure (\<lambda>(cmp, s). Suc (pc s) - pb s)")
  fix cmp and s t :: "'a part"
  assume "t = scan_down cmp (scan_up cmp s)" "\<not> pb t > pc t"
  then show "((cmp, t\<lparr>arr := swap (arr t) (pb t) (pc t), swap_cnt := True, pb := pb t + 1, pc := pc t - 1\<rparr>), cmp, s)
      \<in> measure (\<lambda>(cmp, s). Suc (pc s) - pb s)"
    using scan_up_ptrs [of s cmp] scan_down_ptrs [of cmp "scan_up cmp s"] by auto
qed simp

declare partition.simps [simp del]

section \<open>What the partition does\<close>

definition part_inv :: "('a \<Rightarrow> 'a \<Rightarrow> int) \<Rightarrow> 'a \<Rightarrow> 'a multiset \<Rightarrow> 'a part \<Rightarrow> bool" where
  "part_inv cmp p M s \<longleftrightarrow> mset (arr s) = M \<and> arr s ! 0 = p
    \<and> 1 \<le> pa s \<and> pa s \<le> pb s \<and> pb s \<le> Suc (pc s) \<and> pc s \<le> pd s \<and> pd s < length (arr s)
    \<and> (\<forall>i. 1 \<le> i \<and> i < pa s \<longrightarrow> cmp (arr s ! i) p = 0)
    \<and> (\<forall>i. pa s \<le> i \<and> i < pb s \<longrightarrow> cmp (arr s ! i) p < 0)
    \<and> (\<forall>i. pc s < i \<and> i \<le> pd s \<longrightarrow> cmp (arr s ! i) p > 0)
    \<and> (\<forall>i. pd s < i \<and> i < length (arr s) \<longrightarrow> cmp (arr s ! i) p = 0)"

lemma mset_swap [simp]: "i < length xs \<Longrightarrow> j < length xs \<Longrightarrow> mset (swap xs i j) = mset xs"
  by (simp add: swap_def mset_swap)

lemma nth_swap:
  "i < length xs \<Longrightarrow> j < length xs \<Longrightarrow> swap xs i j ! k = (if k = j then xs ! i else if k = i then xs ! j else xs ! k)"
  by (simp add: swap_def nth_list_update)

lemma scan_up_inv:
  "part_inv cmp p M s \<Longrightarrow> part_inv cmp p M (scan_up cmp s)
    \<and> \<not> (pb (scan_up cmp s) \<le> pc (scan_up cmp s) \<and> cmp (arr (scan_up cmp s) ! pb (scan_up cmp s)) p \<le> 0)"
proof (induction cmp s rule: scan_up.induct)
  case (1 cmp s)
  have p: "arr s ! 0 = p" using 1(2) by (simp add: part_inv_def)
  show ?case
  proof (cases "pb s \<le> pc s \<and> cmp (arr s ! pb s) (arr s ! 0) \<le> 0")
    case True
    let ?s = "if cmp (arr s ! pb s) (arr s ! 0) = 0
             then s\<lparr>swap_cnt := True, arr := swap (arr s) (pa s) (pb s), pa := pa s + 1, pb := pb s + 1\<rparr>
             else s\<lparr>pb := pb s + 1\<rparr>"
    have inv: "part_inv cmp p M ?s"
      using 1(2) True by (auto simp: part_inv_def nth_swap less_Suc_eq)
    have eq: "scan_up cmp s = scan_up cmp ?s" by (subst scan_up.simps) (simp only: True simp_thms if_True)
    show ?thesis unfolding eq by (rule 1(1) [OF True inv])
  next
    case False
    then have "scan_up cmp s = s" by (subst scan_up.simps) (simp only: if_False)
    then show ?thesis using 1(2) False p by simp
  qed
qed

lemma scan_down_inv:
  "part_inv cmp p M s \<Longrightarrow> part_inv cmp p M (scan_down cmp s)
    \<and> \<not> (pb (scan_down cmp s) \<le> pc (scan_down cmp s) \<and> cmp (arr (scan_down cmp s) ! pc (scan_down cmp s)) p \<ge> 0)"
proof (induction cmp s rule: scan_down.induct)
  case (1 cmp s)
  have p: "arr s ! 0 = p" "0 < pb s" using 1(2) by (auto simp: part_inv_def)
  show ?case
  proof (cases "0 < pb s \<and> pb s \<le> pc s \<and> cmp (arr s ! pc s) (arr s ! 0) \<ge> 0")
    case True
    let ?s = "if cmp (arr s ! pc s) (arr s ! 0) = 0
             then s\<lparr>swap_cnt := True, arr := swap (arr s) (pc s) (pd s), pd := pd s - 1, pc := pc s - 1\<rparr>
             else s\<lparr>pc := pc s - 1\<rparr>"
    have inv: "part_inv cmp p M ?s"
    proof (cases "cmp (arr s ! pc s) p = 0")
      case eq: True
      then show ?thesis
        using 1(2) True p by (cases "pc s"; cases "pd s") (auto simp: part_inv_def nth_swap Suc_lessI)
    next
      case False
      have "cmp (arr s ! i) p > 0" if "pc s - 1 < i" "i \<le> pd s" for i
        using that 1(2) True False p by (cases "i = pc s") (auto simp: part_inv_def)
      moreover have "pc s \<le> Suc (pc s - 1)" "pc s - 1 \<le> pd s" using 1(2) by (auto simp: part_inv_def)
      ultimately show ?thesis using 1(2) True p False by (simp add: part_inv_def)
    qed
    have eq: "scan_down cmp s = scan_down cmp ?s" by (subst scan_down.simps) (simp only: True simp_thms if_True)
    show ?thesis unfolding eq by (rule 1(1) [OF True inv])
  next
    case False
    then have "scan_down cmp s = s" by (subst scan_down.simps) (simp only: if_False)
    then show ?thesis using 1(2) False p by simp
  qed
qed

lemma scan_down_keeps_pb:
  "pb s \<le> pc (scan_down cmp s) \<Longrightarrow> pc s \<le> pd s \<Longrightarrow> pd s < length (arr s) \<Longrightarrow>
    arr (scan_down cmp s) ! pb s = arr s ! pb s"
proof (induction cmp s rule: scan_down.induct)
  case (1 cmp s)
  show ?case
  proof (cases "0 < pb s \<and> pb s \<le> pc s \<and> cmp (arr s ! pc s) (arr s ! 0) \<ge> 0")
    case True
    let ?s = "if cmp (arr s ! pc s) (arr s ! 0) = 0
             then s\<lparr>swap_cnt := True, arr := swap (arr s) (pc s) (pd s), pd := pd s - 1, pc := pc s - 1\<rparr>
             else s\<lparr>pc := pc s - 1\<rparr>"
    have eq: "scan_down cmp s = scan_down cmp ?s" by (subst scan_down.simps) (simp only: True simp_thms if_True)
    have "pc (scan_down cmp ?s) \<le> pc s - 1" using scan_down_ptrs [of cmp ?s] by (auto split: if_splits)
    then have lt: "pb s < pc s" using 1(2) True unfolding eq by linarith
    have "arr (scan_down cmp ?s) ! pb ?s = arr ?s ! pb ?s"
      by (rule 1(1) [OF True]) (use 1(2-4) eq in \<open>auto split: if_splits\<close>)
    also have "\<dots> = arr s ! pb s" using lt 1(3,4) by (simp add: nth_swap)
    finally show ?thesis unfolding eq by (simp split: if_splits)
  next
    case False
    then have "scan_down cmp s = s" by (subst scan_down.simps) (simp only: if_False)
    then show ?thesis by simp
  qed
qed

lemma partition_inv:
  "part_inv cmp p M s \<Longrightarrow> part_inv cmp p M (partition cmp s) \<and> pb (partition cmp s) = Suc (pc (partition cmp s))"
proof (induction cmp s rule: partition.induct)
  case (1 cmp s)
  define u where "u = scan_up cmp s"
  define t where "t = scan_down cmp u"
  have u: "part_inv cmp p M u" "pb u \<le> pc u \<Longrightarrow> cmp (arr u ! pb u) p > 0"
    using scan_up_inv [OF 1(2)] by (auto simp: u_def)
  have t: "part_inv cmp p M t" "pb t \<le> pc t \<Longrightarrow> cmp (arr t ! pc t) p < 0" "pb t = pb u" "pc t \<le> pc u"
    using scan_down_inv [OF u(1)] scan_down_ptrs [of cmp u] by (auto simp: t_def)
  show ?case
  proof (cases "pb t > pc t")
    case True
    then have "partition cmp s = t" by (subst partition.simps) (simp add: Let_def t_def u_def)
    moreover have "pb t = Suc (pc t)" using True t(1) by (auto simp: part_inv_def)
    ultimately show ?thesis using t(1) by simp
  next
    case False
    let ?s = "t\<lparr>arr := swap (arr t) (pb t) (pc t), swap_cnt := True, pb := pb t + 1, pc := pc t - 1\<rparr>"
    have eq: "partition cmp s = partition cmp ?s"
      using False by (subst partition.simps) (simp add: Let_def t_def u_def)
    have "arr t ! pb t = arr u ! pb u"
      using scan_down_keeps_pb [of u cmp] False t(3) u(1) by (simp add: t_def part_inv_def)
    then have big: "cmp (arr t ! pb t) p > 0" using u(2) False t(3,4) by simp
    then have lt: "pb t < pc t" using False t(2) by (metis le_neq_implies_less linorder_not_le order_less_asym)
    have "part_inv cmp p M ?s"
      using t(1) t(2) big lt False by (cases "pc t") (auto simp: part_inv_def nth_swap less_Suc_eq Suc_lessI)
    with 1(1) [OF t_def [unfolded u_def] False] show ?thesis unfolding eq by blast
  qed
qed

section \<open>Putting the equal elements in the middle\<close>

lemma length_vecswap [simp]: "length (vecswap xs i j n) = length xs"
  by (induction xs i j n rule: vecswap.induct) simp_all

lemma vecswap_blocks:
  "i + n \<le> j \<Longrightarrow> j + n \<le> length xs \<Longrightarrow>
    (\<forall>q < n. vecswap xs i j n ! (i + q) = xs ! (j + q) \<and> vecswap xs i j n ! (j + q) = xs ! (i + q))
    \<and> (\<forall>k. \<not> (i \<le> k \<and> k < i + n) \<longrightarrow> \<not> (j \<le> k \<and> k < j + n) \<longrightarrow> vecswap xs i j n ! k = xs ! k)"
proof (induction n arbitrary: xs i j)
  case (Suc n)
  let ?v = "vecswap (swap xs i j) (Suc i) (Suc j) n"
  have le: "Suc i + n \<le> Suc j" "Suc j + n \<le> length (swap xs i j)" using Suc.prems by simp_all
  have blocks: "?v ! (Suc i + q) = xs ! (Suc j + q)" "?v ! (Suc j + q) = xs ! (Suc i + q)" if "q < n" for q
    using Suc.IH [OF le] that Suc.prems by (auto simp: nth_swap)
  have rest: "?v ! k = swap xs i j ! k" if "\<not> (Suc i \<le> k \<and> k < Suc i + n)" "\<not> (Suc j \<le> k \<and> k < Suc j + n)" for k
    using Suc.IH [OF le] that by blast
  have "?v ! i = xs ! j" "?v ! j = xs ! i"
    using rest [of i] rest [of j] Suc.prems by (auto simp: nth_swap)
  then have "?v ! (i + q) = xs ! (j + q) \<and> ?v ! (j + q) = xs ! (i + q)" if "q < Suc n" for q
    using blocks [of "q - 1"] that by (cases q) auto
  moreover have "?v ! k = xs ! k" if "\<not> (i \<le> k \<and> k < i + Suc n)" "\<not> (j \<le> k \<and> k < j + Suc n)" for k
    using rest [of k] that Suc.prems by (auto simp: nth_swap split: if_splits)
  ultimately show ?case by simp
qed simp

lemma nth_vecswap:
  assumes "i + n \<le> j" "j + n \<le> length xs"
  shows "vecswap xs i j n ! k =
    (if i \<le> k \<and> k < i + n then xs ! (j + (k - i)) else if j \<le> k \<and> k < j + n then xs ! (i + (k - j)) else xs ! k)"
proof -
  note v = vecswap_blocks [OF assms]
  consider (fst) q where "q < n" "k = i + q" | (snd) q where "q < n" "k = j + q"
    | (neither) "\<not> (i \<le> k \<and> k < i + n)" "\<not> (j \<le> k \<and> k < j + n)"
    by (metis le_iff_add nat_add_left_cancel_less)
  then show ?thesis using v assms(1) by cases auto
qed

lemma mset_vecswap: "i + n \<le> j \<Longrightarrow> j + n \<le> length xs \<Longrightarrow> mset (vecswap xs i j n) = mset xs"
  by (induction n arbitrary: xs i j) simp_all

definition parted :: "('a \<Rightarrow> 'a \<Rightarrow> int) \<Rightarrow> 'a list \<Rightarrow> 'a part" where
  "parted cmp xs = partition cmp
    \<lparr>arr = swap xs 0 (pivot cmp xs), pa = 1, pb = 1, pc = length xs - 1, pd = length xs - 1, swap_cnt = False\<rparr>"

definition gather :: "'a part \<Rightarrow> 'a list" where
  "gather s =
    (let n = length (arr s);
         r = min (pa s) (pb s - pa s);
         xs = vecswap (arr s) 0 (pb s - r) r;
         r = min (pd s - pc s) (n - pd s - 1)
     in vecswap xs (pb s) (n - r) r)"

lemma length_gather [simp]: "length (gather s) = length (arr s)"
  by (simp add: gather_def Let_def)

lemma med3_cases: "med3 cmp xs a b c \<in> {a, b, c}"
  by (simp add: med3_def)

lemma pivot_less:
  assumes "7 \<le> length xs"
  shows "pivot cmp xs < length xs"
proof -
  have m: "med3 cmp xs a b c < length xs" if "a < length xs" "b < length xs" "c < length xs" for a b c
    using that med3_cases [of cmp xs a b c] by auto
  have d: "8 * (length xs div 8) \<le> length xs" "2 * (length xs div 2) \<le> length xs" by simp_all
  show ?thesis
    unfolding pivot_def Let_def using assms d by (auto intro!: m)
qed

lemma parted_inv:
  assumes "7 \<le> length xs"
  shows "\<exists>p. part_inv cmp p (mset xs) (parted cmp xs)" and "pb (parted cmp xs) = Suc (pc (parted cmp xs))"
    and "length (arr (parted cmp xs)) = length xs"
proof -
  have "xs \<noteq> []" using assms by auto
  then have "part_inv cmp (swap xs 0 (pivot cmp xs) ! 0) (mset xs)
    \<lparr>arr = swap xs 0 (pivot cmp xs), pa = 1, pb = 1, pc = length xs - 1, pd = length xs - 1, swap_cnt = False\<rparr>"
    using assms pivot_less [OF assms, of cmp] by (auto simp: part_inv_def)
  from partition_inv [OF this] have inv: "part_inv cmp (swap xs 0 (pivot cmp xs) ! 0) (mset xs) (parted cmp xs)"
    and "pb (parted cmp xs) = Suc (pc (parted cmp xs))" by (simp_all add: parted_def)
  then show "\<exists>p. part_inv cmp p (mset xs) (parted cmp xs)" "pb (parted cmp xs) = Suc (pc (parted cmp xs))" by blast+
  from inv have "mset (arr (parted cmp xs)) = mset xs" by (simp add: part_inv_def)
  then show "length (arr (parted cmp xs)) = length xs" by (rule mset_eq_length)
qed

text \<open>The three parts: smaller than the pivot, equal to it, and larger.\<close>

lemma gather_parts:
  assumes "part_inv cmp p M s" "pb s = Suc (pc s)"
  defines "n \<equiv> length (arr s)" and "lo \<equiv> pb s - pa s" and "hi \<equiv> pd s - pc s"
  shows "mset (gather s) = M" and "lo + hi < n"
    and "k < lo \<Longrightarrow> cmp (gather s ! k) p < 0"
    and "lo \<le> k \<Longrightarrow> k < n - hi \<Longrightarrow> gather s ! k = p \<or> cmp (gather s ! k) p = 0"
    and "n - hi \<le> k \<Longrightarrow> k < n \<Longrightarrow> cmp (gather s ! k) p > 0"
proof -
  define r where "r = min (pa s) (pb s - pa s)"
  define r' where "r' = min (pd s - pc s) (n - pd s - 1)"
  define xs where "xs = vecswap (arr s) 0 (pb s - r) r"
  have ptrs: "1 \<le> pa s" "pa s \<le> pb s" "pc s \<le> pd s" "pd s < n" and p: "arr s ! 0 = p" "mset (arr s) = M"
    and equal: "\<And>i. i < pa s \<Longrightarrow> arr s ! i = p \<or> cmp (arr s ! i) p = 0"
    and less: "\<And>i. pa s \<le> i \<Longrightarrow> i < pb s \<Longrightarrow> cmp (arr s ! i) p < 0"
    and greater: "\<And>i. pb s \<le> i \<Longrightarrow> i \<le> pd s \<Longrightarrow> cmp (arr s ! i) p > 0"
    and equal': "\<And>i. pd s < i \<Longrightarrow> i < n \<Longrightarrow> cmp (arr s ! i) p = 0"
    using assms(1,2) by (auto simp: part_inv_def n_def) (metis One_nat_def Suc_leI not_gr_zero)
  have r: "0 + r \<le> pb s - r" "pb s - r + r \<le> length (arr s)" using ptrs assms(2) by (auto simp: r_def n_def)
  have r': "pb s + r' \<le> n - r'" "n - r' + r' \<le> length xs"
    using ptrs assms(2) by (auto simp: r'_def xs_def n_def)
  have g: "gather s = vecswap xs (pb s) (n - r') r'" by (simp add: gather_def Let_def xs_def r_def r'_def n_def)
  show "mset (gather s) = M"
    unfolding g mset_vecswap [OF r'] unfolding xs_def mset_vecswap [OF r] by (rule p(2))
  show "lo + hi < n" using ptrs assms(2) by (auto simp: lo_def hi_def)
  have xs: "xs ! k = (if k < r then arr s ! (pb s - r + k) else if pb s - r \<le> k \<and> k < pb s - r + r
      then arr s ! (k - (pb s - r)) else arr s ! k)" for k
    unfolding xs_def nth_vecswap [OF r] by simp
  have gs: "gather s ! k = (if pb s \<le> k \<and> k < pb s + r' then xs ! (n - r' + (k - pb s))
      else if n - r' \<le> k \<and> k < n - r' + r' then xs ! (pb s + (k - (n - r'))) else xs ! k)" for k
    unfolding g nth_vecswap [OF r'] ..
  show "cmp (gather s ! k) p < 0" if "k < lo"
  proof -
    have k: "k < pb s" "pa s \<le> pb s - r + k" "k < r \<Longrightarrow> pb s - r + k < pb s" "\<not> k < r \<Longrightarrow> pa s \<le> k"
      using that r ptrs by (auto simp: lo_def r_def min_def split: if_splits)
    then have "gather s ! k = arr s ! (if k < r then pb s - r + k else k)"
      using that r' ptrs unfolding gs xs lo_def by (auto simp: r_def)
    then show ?thesis using less [of "pb s - r + k"] less [of k] k by simp
  qed
  have lo: "r \<le> pa s" "r \<le> lo" "r = pa s \<or> r = lo" "lo = pb s - pa s"
    and hi: "r' \<le> hi" "r' \<le> n - pd s - 1" "r' = hi \<or> r' = n - pd s - 1" "hi = Suc (pd s) - pb s"
    by (auto simp: r_def r'_def lo_def hi_def assms(2) min_def)
  have hi_le: "pb s + hi \<le> n" "n - hi = pb s + (n - pd s - 1)" using hi ptrs assms(2) by auto
  have gs_low: "gather s ! k = (if k < r then arr s ! (pb s - r + k)
      else if pb s - r \<le> k then arr s ! (k - (pb s - r)) else arr s ! k)" if "k < pb s"
    using that r r' unfolding gs by (simp add: xs)
  have xs_high: "xs ! i = arr s ! i" if "pb s \<le> i" for i using that r by (simp add: xs)
  have gs_high: "gather s ! k = (if k < pb s + r' then arr s ! (n - r' + (k - pb s))
      else if n - r' \<le> k then arr s ! (pb s + (k - (n - r'))) else arr s ! k)" if "pb s \<le> k" "k < n"
  proof -
    have "pb s \<le> n - r' + (k - pb s)" "pb s \<le> pb s + (k - (n - r'))" using r' by linarith+
    note src = xs_high [OF this(1)] xs_high [OF this(2)] xs_high [OF that(1)]
    have "n - r' + r' = n" using r' by linarith
    then show ?thesis unfolding gs src using that by simp
  qed
  show "cmp (gather s ! k) p > 0" if k: "n - hi \<le> k" "k < n"
  proof -
    have "pb s \<le> k" using k hi_le by linarith
    moreover have "\<not> k < pb s + r'" using k hi hi_le by linarith
    moreover have "n - r' \<le> k \<Longrightarrow> pb s + (k - (n - r')) \<le> pd s" using k hi hi_le ptrs by linarith
    moreover have "\<not> n - r' \<le> k \<Longrightarrow> k \<le> pd s" using k hi hi_le ptrs by linarith
    ultimately show ?thesis using gs_high [OF _ k(2)] greater by (cases "n - r' \<le> k") auto
  qed
  show "gather s ! k = p \<or> cmp (gather s ! k) p = 0" if k: "lo \<le> k" "k < n - hi"
  proof (cases "k < pb s")
    case True
    moreover have "\<not> k < r" using k lo by linarith
    moreover have "pb s - r \<le> k \<Longrightarrow> k - (pb s - r) < pa s" using True lo r by linarith
    moreover have "\<not> pb s - r \<le> k \<Longrightarrow> k < pa s" using k lo ptrs by linarith
    ultimately show ?thesis using gs_low equal by (cases "pb s - r \<le> k") auto
  next
    case False
    then have "pb s \<le> k" "k < n" using k by auto
    moreover have "k < pb s + r' \<Longrightarrow> pd s < n - r' + (k - pb s) \<and> n - r' + (k - pb s) < n"
      using hi hi_le ptrs r' False by linarith
    moreover have "\<not> k < pb s + r' \<Longrightarrow> \<not> n - r' \<le> k \<and> pd s < k" using k hi hi_le ptrs by linarith
    ultimately show ?thesis using gs_high equal' by (cases "k < pb s + r'") auto
  qed
qed

section \<open>The sort\<close>

text \<open>After the equal elements have been gathered, \<^verbatim>\<open>pb - pa\<close> elements at the start and \<^verbatim>\<open>pd - pc\<close> at the
  end are sorted in turn, the second part by going back to the start with another array.\<close>

function qsort :: "('a \<Rightarrow> 'a \<Rightarrow> int) \<Rightarrow> 'a list \<Rightarrow> 'a list" where
  "qsort cmp xs =
    (if length xs < 7 then insertion cmp xs 1
     else if \<not> swap_cnt (parted cmp xs) then insertion cmp (arr (parted cmp xs)) 1
     else
       let s = parted cmp xs; ys = gather s; n = length xs; lo = pb s - pa s; hi = pd s - pc s
       in (if lo > 1 then qsort cmp (take lo ys) else take lo ys)
          @ drop lo (take (n - hi) ys)
          @ (if hi > 1 then qsort cmp (drop (n - hi) ys) else drop (n - hi) ys))"
  by pat_completeness auto
termination
proof (relation "measure (\<lambda>(cmp, xs). length xs)", goal_cases)
  case (2 cmp xs s ys n lo hi)
  then obtain p where "part_inv cmp p (mset xs) s" "pb s = Suc (pc s)" "length (arr s) = length xs"
    using parted_inv [of xs cmp] by auto
  from gather_parts(2) [OF this(1,2)] this(3) 2 show ?case by simp
next
  case (3 cmp xs s ys n lo hi)
  then obtain p where "part_inv cmp p (mset xs) s" "pb s = Suc (pc s)" "length (arr s) = length xs"
    using parted_inv [of xs cmp] by auto
  from gather_parts(2) [OF this(1,2)] this(3) 3 show ?case by simp
qed simp

declare qsort.simps [simp del]

section \<open>Insertion sort\<close>

lemma sink_split:
  "\<exists>us vs. ys = us @ vs \<and> sink cmp (ys @ x # zs) (length ys) = us @ x # vs @ zs
    \<and> (\<forall>v \<in> set vs. cmp v x > 0) \<and> (us \<noteq> [] \<longrightarrow> cmp (last us) x \<le> 0)"
proof (induction ys arbitrary: zs rule: rev_induct)
  case (snoc y ys)
  show ?case
  proof (cases "cmp y x > 0")
    case True
    obtain us vs where ih: "ys = us @ vs" "sink cmp (ys @ x # y # zs) (length ys) = us @ x # vs @ y # zs"
      "\<forall>v \<in> set vs. cmp v x > 0" "us \<noteq> [] \<longrightarrow> cmp (last us) x \<le> 0"
      using snoc.IH [of "y # zs"] by blast
    have "swap ((ys @ [y]) @ x # zs) (Suc (length ys)) (length ys) = ys @ x # y # zs"
      by (simp add: swap_def nth_append list_update_append)
    then have "sink cmp ((ys @ [y]) @ x # zs) (length (ys @ [y])) = us @ x # vs @ y # zs"
      using True ih(2) by (simp add: nth_append)
    then show ?thesis using ih True by (intro exI [of _ us] exI [of _ "vs @ [y]"]) auto
  next
    case False
    then have "sink cmp ((ys @ [y]) @ x # zs) (length (ys @ [y])) = (ys @ [y]) @ x # zs"
      by (simp add: nth_append)
    then show ?thesis using False by (intro exI [of _ "ys @ [y]"] exI [of _ "[]"]) simp
  qed
qed simp

lemma mset_sink: "pm < length xs \<Longrightarrow> mset (sink cmp xs pm) = mset xs"
  by (induction cmp xs pm rule: sink.induct) simp_all

lemma mset_insertion [simp]: "mset (insertion cmp xs pm) = mset xs"
proof (induction cmp xs pm rule: insertion.induct)
  case (1 cmp xs pm)
  then show ?case by (subst insertion.simps) (simp add: mset_sink)
qed

lemma mset_qsort: "mset (qsort cmp xs) = mset xs"
proof (induction cmp xs rule: qsort.induct)
  case (1 cmp xs)
  consider "length xs < 7" | "7 \<le> length xs" "\<not> swap_cnt (parted cmp xs)" | (split) "7 \<le> length xs" "swap_cnt (parted cmp xs)"
    by linarith
  then show ?case
  proof cases
    case split
    let ?s = "parted cmp xs" and ?n = "length xs"
    let ?ys = "gather ?s" and ?lo = "pb ?s - pa ?s" and ?hi = "pd ?s - pc ?s"
    obtain p where inv: "part_inv cmp p (mset xs) ?s" "pb ?s = Suc (pc ?s)" "length (arr ?s) = ?n"
      using parted_inv [OF split(1)] by blast
    note ys = gather_parts(1,2) [OF inv(1,2), unfolded inv(3)]
    have "\<not> ?n < 7" using split by simp
    note ih = 1 [OF this _ refl refl refl refl refl]
    have "mset (qsort cmp xs) = mset (take ?lo ?ys) + mset (drop ?lo (take (?n - ?hi) ?ys)) + mset (drop (?n - ?hi) ?ys)"
      using split ih by (subst qsort.simps) (simp add: Let_def)
    also have "mset (take ?lo ?ys) + mset (drop ?lo (take (?n - ?hi) ?ys)) = mset (take (?n - ?hi) ?ys)"
      using ys(2) by (metis add_diff_cancel_right' append_take_drop_id diff_le_mono less_imp_le min.absorb1 mset_append take_take)
    also have "\<dots> + mset (drop (?n - ?hi) ?ys) = mset ?ys"
      by (metis append_take_drop_id mset_append)
    finally show ?thesis using ys(1) by simp
  next
    case 2
    then show ?thesis using parted_inv(1) [of xs cmp]
      by (subst qsort.simps) (auto simp: part_inv_def)
  qed (subst qsort.simps, simp)
qed

section \<open>Sorting with a consistent comparison\<close>

text \<open>What \<open>qsort\<close> asks of a comparison function, on the elements it is applied to.\<close>

locale sort_order =
  fixes cmp :: "'a \<Rightarrow> 'a \<Rightarrow> int" and dom :: "'a \<Rightarrow> bool"
  assumes opposite: "dom x \<Longrightarrow> dom y \<Longrightarrow> cmp x y < 0 \<longleftrightarrow> cmp y x > 0"
    and transitive: "dom x \<Longrightarrow> dom y \<Longrightarrow> dom z \<Longrightarrow> cmp x y \<le> 0 \<Longrightarrow> cmp y z \<le> 0 \<Longrightarrow> cmp x z \<le> 0"
begin

lemma opposite_le: "dom x \<Longrightarrow> dom y \<Longrightarrow> cmp x y \<ge> 0 \<longleftrightarrow> cmp y x \<le> 0"
  using opposite [of x y] by linarith

lemma refl_le: "dom x \<Longrightarrow> cmp x x = 0"
  using opposite [of x x] by linarith

lemma sink_sorted:
  assumes "sorted_wrt (\<lambda>x y. cmp x y \<le> 0) ys" "\<forall>y \<in> set (ys @ [x]). dom y"
  shows "\<exists>ws. sink cmp (ys @ x # zs) (length ys) = ws @ zs \<and> sorted_wrt (\<lambda>x y. cmp x y \<le> 0) ws
    \<and> mset ws = mset (ys @ [x])"
proof -
  obtain us vs where split: "ys = us @ vs" "sink cmp (ys @ x # zs) (length ys) = us @ x # vs @ zs"
    "\<forall>v \<in> set vs. cmp v x > 0" "us \<noteq> [] \<longrightarrow> cmp (last us) x \<le> 0"
    using sink_split [of ys cmp x zs] by blast
  have "cmp u x \<le> 0" if "u \<in> set us" for u
  proof -
    have ne: "us \<noteq> []" using that by auto
    have "sorted_wrt (\<lambda>x y. cmp x y \<le> 0) (butlast us @ [last us])"
      using assms(1) ne unfolding split(1) by (simp add: sorted_wrt_append)
    moreover have "u = last us \<or> u \<in> set (butlast us)"
      using that ne by (metis append_butlast_last_id in_set_conv_decomp_last rotate1.simps(2) set_ConsD set_rotate1)
    ultimately have "cmp u (last us) \<le> 0"
      using refl_le assms(2) that split(1) by (auto simp: sorted_wrt_append)
    moreover have "last us \<in> set us" using ne by simp
    ultimately show ?thesis
      using transitive [of u "last us" x] that ne assms(2) split(1,4) by auto
  qed
  moreover have "cmp x v \<le> 0" if "v \<in> set vs" for v
    using split(1,3) that assms(2) opposite [of x v] by force
  ultimately have "sorted_wrt (\<lambda>x y. cmp x y \<le> 0) (us @ x # vs)"
    using assms(1) unfolding split(1) by (auto simp: sorted_wrt_append)
  then show ?thesis using split(1,2) by (intro exI [of _ "us @ x # vs"]) simp
qed

lemma insertion_from:
  "sorted_wrt (\<lambda>x y. cmp x y \<le> 0) ys \<Longrightarrow> \<forall>y \<in> set (ys @ zs). dom y \<Longrightarrow>
    sorted_wrt (\<lambda>x y. cmp x y \<le> 0) (insertion cmp (ys @ zs) (length ys))"
proof (induction zs arbitrary: ys)
  case Nil
  then show ?case by (subst insertion.simps) simp
next
  case (Cons x zs)
  then obtain ws where ws: "sink cmp (ys @ x # zs) (length ys) = ws @ zs" "sorted_wrt (\<lambda>x y. cmp x y \<le> 0) ws"
    "mset ws = mset (ys @ [x])"
    using sink_sorted [of ys x zs] by auto
  have "length ws = Suc (length ys)" "set ws = set (ys @ [x])"
    using mset_eq_length [OF ws(3)] mset_eq_setD [OF ws(3)] by simp_all
  then show ?case using Cons.IH [OF ws(2)] Cons.prems ws(1) by (subst insertion.simps) simp
qed

lemma insertion_sorts:
  assumes "\<forall>x \<in> set xs. dom x"
  shows "sorted_wrt (\<lambda>x y. cmp x y \<le> 0) (insertion cmp xs 1)"
proof (cases xs)
  case Nil
  then show ?thesis by (subst insertion.simps) simp
next
  case (Cons x ys)
  then show ?thesis using insertion_from [of "[x]" ys] assms by simp
qed

lemma sorted_short: "length xs \<le> 1 \<Longrightarrow> sorted_wrt P xs"
  by (cases xs) auto

text \<open>Sorted parts below, around and above the pivot make a sorted array.\<close>

lemma sorted_around:
  assumes "dom p" "\<forall>x \<in> set (ls @ ms @ rs). dom x"
    and "sorted_wrt (\<lambda>x y. cmp x y \<le> 0) ls" "sorted_wrt (\<lambda>x y. cmp x y \<le> 0) rs"
    and "\<forall>x \<in> set ls. cmp x p < 0" "\<forall>x \<in> set ms. x = p \<or> cmp x p = 0" "\<forall>x \<in> set rs. cmp x p > 0"
  shows "sorted_wrt (\<lambda>x y. cmp x y \<le> 0) (ls @ ms @ rs)"
proof -
  have up: "cmp x p \<le> 0" if "x \<in> set ls \<or> x \<in> set ms" for x
    using that assms(5,6) refl_le [OF assms(1)] by fastforce
  have down: "cmp p x \<le> 0" if "x \<in> set ms \<or> x \<in> set rs" for x
    using that assms(1,2,6,7) refl_le [OF assms(1)] opposite_le [of x p] by fastforce
  have between: "cmp x y \<le> 0" if "x \<in> set ls \<or> x \<in> set ms" "y \<in> set ms \<or> y \<in> set rs" for x y
    using transitive [of x p y] up [OF that(1)] down [OF that(2)] that assms(1,2) by auto
  have "sorted_wrt (\<lambda>x y. cmp x y \<le> 0) ms"
    using between by (auto simp: sorted_wrt_iff_nth_less)
  then show ?thesis using assms(3,4) between by (auto simp: sorted_wrt_append)
qed

lemma qsort_sorts:
  "\<forall>x \<in> set xs. dom x \<Longrightarrow> sorted_wrt (\<lambda>x y. cmp x y \<le> 0) (qsort cmp xs)"
proof (induction xs rule: measure_induct_rule [of length])
  case (less xs)
  consider "length xs < 7" | (whole) "7 \<le> length xs" "\<not> swap_cnt (parted cmp xs)"
    | (split) "7 \<le> length xs" "swap_cnt (parted cmp xs)"
    by linarith
  then show ?case
  proof cases
    case split
    let ?s = "parted cmp xs" and ?n = "length xs"
    let ?ys = "gather ?s" and ?lo = "pb ?s - pa ?s" and ?hi = "pd ?s - pc ?s"
    obtain p where inv: "part_inv cmp p (mset xs) ?s" "pb ?s = Suc (pc ?s)" "length (arr ?s) = ?n"
      using parted_inv [OF split(1)] by blast
    note ys = gather_parts [OF inv(1,2), unfolded inv(3)]
    have set_ys: "set ?ys = set xs" and len: "length ?ys = ?n"
      using mset_eq_setD [OF ys(1)] mset_eq_length [OF ys(1)] by simp_all
    let ?sort = "\<lambda>n zs. if n > 1 then qsort cmp zs else zs"
    let ?l = "take ?lo ?ys" and ?m = "drop ?lo (take (?n - ?hi) ?ys)" and ?r = "drop (?n - ?hi) ?ys"
    have eq: "qsort cmp xs = ?sort ?lo ?l @ ?m @ ?sort ?hi ?r"
      using split by (subst qsort.simps) (simp add: Let_def)
    have parts: "set ?l \<subseteq> set xs" "set ?m \<subseteq> set xs" "set ?r \<subseteq> set xs"
      unfolding set_ys [symmetric] by (meson set_take_subset set_drop_subset subset_trans)+
    have sub: "length ?l < ?n" "length ?r < ?n" "length ?l = ?lo" "length ?r = ?hi" using ys(2) len by auto
    have doms: "\<forall>x \<in> set ?l. dom x" "\<forall>x \<in> set ?r. dom x" using less.prems parts by blast+
    have sorted: "sorted_wrt (\<lambda>x y. cmp x y \<le> 0) (?sort ?lo ?l)" "sorted_wrt (\<lambda>x y. cmp x y \<le> 0) (?sort ?hi ?r)"
      using less.IH [OF sub(1) doms(1)] less.IH [OF sub(2) doms(2)] sub(3,4) by (auto intro: sorted_short)
    have sets: "set (?sort n zs) = set zs" for n zs
      using mset_eq_setD [OF mset_qsort [of cmp zs]] by simp
    have "set (arr ?s) = set xs" using mset_eq_setD inv(1) by (auto simp: part_inv_def)
    moreover have "p = arr ?s ! 0" "0 < length (arr ?s)" using inv split(1) by (auto simp: part_inv_def)
    ultimately have "dom p" using less.prems nth_mem [of 0 "arr ?s"] by simp
    moreover have "\<forall>x \<in> set ?l. cmp x p < 0"
    proof
      fix x assume "x \<in> set ?l"
      then obtain i where "i < length ?l" "x = ?l ! i" by (auto simp: in_set_conv_nth)
      then have "i < ?lo" "x = ?ys ! i" using sub(3) by auto
      then show "cmp x p < 0" using ys(3) [of i] by simp
    qed
    moreover have "\<forall>x \<in> set ?m. x = p \<or> cmp x p = 0"
    proof
      fix x assume "x \<in> set ?m"
      then obtain i where "i < length ?m" "x = ?m ! i" by (auto simp: in_set_conv_nth)
      then have "?lo + i < ?n - ?hi" "x = ?ys ! (?lo + i)" using len by auto
      then show "x = p \<or> cmp x p = 0" using ys(4) [of "?lo + i"] by simp
    qed
    moreover have "\<forall>x \<in> set ?r. cmp x p > 0"
    proof
      fix x assume "x \<in> set ?r"
      then obtain i where "i < length ?r" "x = ?r ! i" by (auto simp: in_set_conv_nth)
      then have "?n - ?hi + i < ?n" "x = ?ys ! (?n - ?hi + i)" using len by auto
      then show "cmp x p > 0" using ys(5) [of "?n - ?hi + i"] by simp
    qed
    ultimately show ?thesis
      unfolding eq
    proof (intro sorted_around [of p])
      show "\<forall>x \<in> set (?sort ?lo ?l @ ?m @ ?sort ?hi ?r). dom x"
        using less.prems parts unfolding set_append sets by blast
    qed (use sorted in \<open>simp_all only: sets\<close>)
  next
    case whole
    have "set (arr (parted cmp xs)) = set xs"
      using parted_inv(1) [OF whole(1), of cmp] mset_eq_setD by (auto simp: part_inv_def)
    then show ?thesis
      using whole insertion_sorts [of "arr (parted cmp xs)"] less.prems by (subst qsort.simps) simp
  qed (use insertion_sorts [OF less.prems] in \<open>subst qsort.simps, simp\<close>)
qed

end

section \<open>Swapping bytes\<close>

text \<open>On the memory itself an element is \<^verbatim>\<open>es\<close> bytes, which are exchanged a \<^verbatim>\<open>long\<close> (four bytes) or a
  \<^verbatim>\<open>char\<close> at a time, depending on the alignment of the array and the size of its elements.\<close>

definition SWAPINIT :: "nat \<Rightarrow> nat \<Rightarrow> nat" where
  "SWAPINIT a es = (if a mod 4 \<noteq> 0 \<or> es mod 4 \<noteq> 0 then 2 else if es = 4 then 0 else 1)"

fun swapcode :: "nat \<Rightarrow> u8 list \<Rightarrow> nat \<Rightarrow> nat \<Rightarrow> nat \<Rightarrow> u8 list" where
  "swapcode w m pi pj i =
    (let t = take w (drop pi m);
         m = take pi m @ take w (drop pj m) @ drop (pi + w) m;
         m = take pj m @ t @ drop (pj + w) m
     in if i > 1 then swapcode w m (pi + w) (pj + w) (i - 1) else m)"

definition swapfunc :: "u8 list \<Rightarrow> nat \<Rightarrow> nat \<Rightarrow> nat \<Rightarrow> nat \<Rightarrow> u8 list" where
  "swapfunc m a b n swaptype = (if swaptype \<le> 1 then swapcode 4 m a b (n div 4) else swapcode 1 m a b (n div 1))"

definition swap_elements :: "nat \<Rightarrow> nat \<Rightarrow> u8 list \<Rightarrow> nat \<Rightarrow> nat \<Rightarrow> u8 list" where
  "swap_elements base es m a b =
    (if SWAPINIT base es = 0
     then let t = take 4 (drop a m); m = take a m @ take 4 (drop b m) @ drop (a + 4) m
          in take b m @ t @ drop (b + 4) m
     else swapfunc m a b es (SWAPINIT base es))"

declare swapcode.simps [simp del]

text \<open>Exchanging two blocks of \<open>n\<close> bytes, whichever comes first.\<close>

definition xchg :: "nat \<Rightarrow> 'a list \<Rightarrow> nat \<Rightarrow> nat \<Rightarrow> 'a list" where
  "xchg n m i j = map (\<lambda>k. if i \<le> k \<and> k < i + n then m ! (j + (k - i))
      else if j \<le> k \<and> k < j + n then m ! (i + (k - j)) else m ! k) [0..<length m]"

definition disjoint :: "nat \<Rightarrow> nat \<Rightarrow> nat \<Rightarrow> nat \<Rightarrow> bool" where
  "disjoint n len i j \<longleftrightarrow> i + n \<le> len \<and> j + n \<le> len \<and> (i + n \<le> j \<or> j + n \<le> i)"

lemma length_xchg [simp]: "length (xchg n m i j) = length m"
  by (simp add: xchg_def)

lemma splice_nth:
  "i + n \<le> length m \<Longrightarrow> length b = n \<Longrightarrow> k < length m \<Longrightarrow>
    (take i m @ b @ drop (i + n) m) ! k = (if i \<le> k \<and> k < i + n then b ! (k - i) else m ! k)"
  by (auto simp: nth_append min_def)

lemma xchg_splice:
  assumes "disjoint n (length m) i j"
  shows "take j (take i m @ take n (drop j m) @ drop (i + n) m) @ take n (drop i m)
      @ drop (j + n) (take i m @ take n (drop j m) @ drop (i + n) m) = xchg n m i j"
proof -
  let ?m = "take i m @ take n (drop j m) @ drop (i + n) m"
  have d: "i + n \<le> length m" "j + n \<le> length m" "i + n \<le> j \<or> j + n \<le> i" using assms by (auto simp: disjoint_def)
  have blocks: "length (take n (drop i m)) = n" "length (take n (drop j m)) = n" using d by auto
  have splice: "length (take p xs @ ys @ drop (p + n) xs) = length xs" if "p + n \<le> length xs" "length ys = n"
    for p and xs ys :: "'a list" using that by simp
  have m: "length ?m = length m" by (rule splice [OF d(1) blocks(2)])
  have whole: "length (take j ?m @ take n (drop i m) @ drop (j + n) ?m) = length m"
    using splice [of j ?m "take n (drop i m)"] d(2) blocks(1) unfolding m by blast
  show ?thesis
  proof (rule nth_equalityI)
    show "length (take j ?m @ take n (drop i m) @ drop (j + n) ?m) = length (xchg n m i j)" using whole by simp
    fix k assume "k < length (take j ?m @ take n (drop i m) @ drop (j + n) ?m)"
    then have k: "k < length m" unfolding whole .
    have "(take j ?m @ take n (drop i m) @ drop (j + n) ?m) ! k =
        (if j \<le> k \<and> k < j + n then take n (drop i m) ! (k - j) else ?m ! k)"
      by (rule splice_nth) (use d k in \<open>simp_all only: m blocks\<close>)
    also have "?m ! k = (if i \<le> k \<and> k < i + n then take n (drop j m) ! (k - i) else m ! k)"
      by (rule splice_nth [OF d(1) blocks(2) k])
    finally show "(take j ?m @ take n (drop i m) @ drop (j + n) ?m) ! k = xchg n m i j ! k"
      using d k by (auto simp: xchg_def)
  qed
qed

lemma xchg_add:
  assumes "disjoint (n + w) (length m) i j"
  shows "xchg n (xchg w m i j) (i + w) (j + w) = xchg (n + w) m i j"
proof (rule nth_equalityI)
  fix k assume "k < length (xchg n (xchg w m i j) (i + w) (j + w))"
  then have k: "k < length m" by simp
  consider "i \<le> k" "k < i + w" | "i + w \<le> k" "k < i + w + n" | "j \<le> k" "k < j + w" | "j + w \<le> k" "k < j + w + n"
    | "\<not> (i \<le> k \<and> k < i + w + n)" "\<not> (j \<le> k \<and> k < j + w + n)" by linarith
  then show "xchg n (xchg w m i j) (i + w) (j + w) ! k = xchg (n + w) m i j ! k"
    using assms k by cases (auto simp: xchg_def disjoint_def)
qed simp

lemma swapcode_xchg:
  "0 < i \<Longrightarrow> disjoint (i * w) (length m) a b \<Longrightarrow> swapcode w m a b i = xchg (i * w) m a b"
proof (induction i arbitrary: m a b)
  case (Suc i)
  have d: "disjoint w (length m) a b" using Suc.prems(2) by (auto simp: disjoint_def)
  show ?case
  proof (cases i)
    case 0
    then show ?thesis using xchg_splice [OF d] by (subst swapcode.simps) (simp add: Let_def)
  next
    case (Suc n)
    have "disjoint (i * w) (length (xchg w m a b)) (a + w) (b + w)"
      using Suc.prems(2) by (auto simp: disjoint_def)
    then have "swapcode w (xchg w m a b) (a + w) (b + w) i = xchg (i * w) (xchg w m a b) (a + w) (b + w)"
      using Suc.IH Suc by simp
    also have "\<dots> = xchg (Suc i * w) m a b"
      using xchg_add [of "i * w" w m a b] Suc.prems(2) by (simp add: add.commute)
    finally show ?thesis
      using Suc xchg_splice [OF d] by (subst swapcode.simps) (simp add: Let_def)
  qed
qed simp

lemma swap_elements_xchg:
  assumes "0 < es" "disjoint es (length m) a b"
  shows "swap_elements base es m a b = xchg es m a b"
proof -
  have "swapfunc m a b es (SWAPINIT base es) = xchg es m a b"
  proof (cases "SWAPINIT base es \<le> 1")
    case True
    then have "es mod 4 = 0" by (auto simp: SWAPINIT_def split: if_splits)
    then have "es div 4 * 4 = es" "0 < es div 4" using assms(1) by presburger+
    then show ?thesis using True swapcode_xchg [of "es div 4" 4 m a b] assms(2) by (simp add: swapfunc_def)
  next
    case False
    then show ?thesis using swapcode_xchg [of es 1 m a b] assms by (simp add: swapfunc_def)
  qed
  moreover have "es = 4" if "SWAPINIT base es = 0" using that by (auto simp: SWAPINIT_def split: if_splits)
  ultimately show ?thesis
    using xchg_splice [OF assms(2)] by (auto simp: swap_elements_def Let_def)
qed

lemma nth_concat_rows:
  "\<forall>r \<in> set rows. length r = es \<Longrightarrow> q < length rows \<Longrightarrow> r < es \<Longrightarrow> concat rows ! (q * es + r) = rows ! q ! r"
proof (induction rows arbitrary: q)
  case (Cons row rows)
  then show ?case by (cases q) (auto simp: nth_append)
qed simp

lemma length_concat_rows: "\<forall>r \<in> set rows. length r = es \<Longrightarrow> length (concat rows) = length rows * es"
  by (induction rows) auto

section \<open>Properties\<close>

text \<open>Exchanging two elements of the array byte by byte, or a word at a time where the alignment allows
  it, is the exchange of two elements of the list.\<close>

theorem swap_elements_correct:
  assumes "\<forall>r \<in> set rows. length r = es" "0 < es" "i < length rows" "j < length rows" "i \<noteq> j"
  shows "swap_elements base es (concat rows) (i * es) (j * es) = concat (swap rows i j)"
proof -
  have len: "length (concat rows) = length rows * es" by (rule length_concat_rows [OF assms(1)])
  have rows': "\<forall>r \<in> set (swap rows i j). length r = es"
    using assms by (auto simp: swap_def dest!: subsetD [OF set_update_subset_insert])
  have le: "i * es + es \<le> length rows * es" "j * es + es \<le> length rows * es"
    using assms(3,4) mult_le_mono1 [of "Suc i" "length rows" es] mult_le_mono1 [of "Suc j" "length rows" es] by simp_all
  have "i * es + es \<le> j * es \<or> j * es + es \<le> i * es"
    using assms(5) mult_le_mono1 [of "Suc i" j es] mult_le_mono1 [of "Suc j" i es] by (cases "i < j") auto
  then have d: "disjoint es (length (concat rows)) (i * es) (j * es)" using le by (simp add: disjoint_def len)
  have "xchg es (concat rows) (i * es) (j * es) = concat (swap rows i j)"
  proof (rule nth_equalityI)
    show "length (xchg es (concat rows) (i * es) (j * es)) = length (concat (swap rows i j))"
      using length_concat_rows [OF rows'] len by simp
    fix k assume "k < length (xchg es (concat rows) (i * es) (j * es))"
    then have "k < length rows * es" by (simp add: len)
    define q r where "q = k div es" and "r = k mod es"
    have k: "k = q * es + r" "r < es" "q < length rows"
      using assms(2) \<open>k < length rows * es\<close> by (auto simp: q_def r_def less_mult_imp_div_less)
    have block: "p * es \<le> k \<and> k < p * es + es \<longleftrightarrow> p = q" for p
    proof
      assume "p * es \<le> k \<and> k < p * es + es"
      then have "k div es = p" by (auto intro: div_nat_eqI simp: mult.commute)
      then show "p = q" by (simp add: q_def)
    qed (use k in simp)
    have "xchg es (concat rows) (i * es) (j * es) ! k =
        (if i = q then concat rows ! (j * es + (k - i * es)) else if j = q then concat rows ! (i * es + (k - j * es))
         else concat rows ! k)"
      using \<open>k < length rows * es\<close> len by (simp add: xchg_def block del: length_concat)
    also have "\<dots> = (if i = q then rows ! j ! r else if j = q then rows ! i ! r else rows ! q ! r)"
      using k nth_concat_rows [OF assms(1) _ k(2)] assms(3,4) by simp
    also have "\<dots> = swap rows i j ! q ! r" using assms by (auto simp: nth_swap)
    also have "\<dots> = concat (swap rows i j) ! k"
      using nth_concat_rows [OF rows', of q r] k by simp
    finally show "xchg es (concat rows) (i * es) (j * es) ! k = concat (swap rows i j) ! k" .
  qed
  then show ?thesis unfolding swap_elements_xchg [OF assms(2) d] .
qed

theorem swap_elements_correct_witness:
  "swap_elements 0 4 (concat [[1, 2, 3, 4], [5, 6, 7, 8]]) (0 * 4) (1 * 4) = concat (swap [[1, 2, 3, 4], [5, 6, 7, 8]] 0 1)"
  by (rule swap_elements_correct) simp_all

text \<open>C29: \<open>qsort\<close> always returns, and whatever the comparison function answers, the result has the elements of
  the array, each as often as before.\<close>

theorem qsort_permutes: "mset (qsort cmp xs) = mset xs"
  by (rule mset_qsort)

text \<open>C14: With a comparison function that is consistent on the elements of the array, \<open>qsort\<close> sorts: whatever
  the pivots, the early switch to insertion sort and the placement of equal elements, no element is
  followed by a smaller one.\<close>

theorem qsort_correct:
  assumes "\<forall>x \<in> set xs. \<forall>y \<in> set xs. cmp x y < 0 \<longleftrightarrow> cmp y x > 0"
    and "\<forall>x \<in> set xs. \<forall>y \<in> set xs. \<forall>z \<in> set xs. cmp x y \<le> 0 \<longrightarrow> cmp y z \<le> 0 \<longrightarrow> cmp x z \<le> 0"
  shows "sorted_wrt (\<lambda>x y. cmp x y \<le> 0) (qsort cmp xs) \<and> mset (qsort cmp xs) = mset xs"
proof -
  have "sort_order cmp (\<lambda>x. x \<in> set xs)"
    using assms by unfold_locales blast+
  from sort_order.qsort_sorts [OF this] mset_qsort show ?thesis by blast
qed

theorem qsort_correct_witness:
  "sorted_wrt (\<lambda>x y. (x :: int) - y \<le> 0) (qsort (-) [5, 3, 9, 1, 3, 8, 2, 7])
    \<and> mset (qsort (-) [5, 3, 9, 1, 3, 8, 2, 7 :: int]) = mset [5, 3, 9, 1, 3, 8, 2, 7]"
  by (rule qsort_correct) auto

end
