(* ===== verification/Subrs.thy ===== *)
theory Subrs
  imports Prelude "HOL-Library.Monad_Syntax" "HOL-Library.Signed_Division"
begin

text \<open>
  The string routines of \<^verbatim>\<open>device/subrs.c\<close>. A string argument is the memory object it lies in, from the
  byte the pointer names on; loops carry the offsets of the moving pointers. Reads and writes are
  checked: \<open>None\<close> is an access outside the object. \<^verbatim>\<open>char\<close> is signed, as on all targets of this kernel.
\<close>

section \<open>Comparing\<close>

definition strlen :: "u8 list \<Rightarrow> nat \<Rightarrow> nat option" where
  "strlen mem p = (if 0 \<in> set (drop p mem) then Some (length (takeWhile (\<lambda>c. c \<noteq> 0) (drop p mem))) else None)"

function strcmp_from :: "u8 list \<Rightarrow> u8 list \<Rightarrow> nat \<Rightarrow> int option" where
  "strcmp_from s1 s2 i =
    do { c1 \<leftarrow> rd s1 i; c2 \<leftarrow> rd s2 i;
         let a = scast c1 :: u32; b = scast c2 :: u32
         in if a \<noteq> b then Some (sint (a - b))
            else if a \<noteq> 0 then strcmp_from s1 s2 (Suc i) else Some 0 }"
  by pat_completeness auto
termination
  by (relation "measure (\<lambda>(s1, s2, i). length s1 - i)") (auto simp: rd_eq_Some_iff)

definition strcmp :: "u8 list \<Rightarrow> u8 list \<Rightarrow> int option" where
  "strcmp s1 s2 = strcmp_from s1 s2 0"

fun strncmp_from :: "u8 list \<Rightarrow> u8 list \<Rightarrow> nat \<Rightarrow> nat \<Rightarrow> int option" where
  "strncmp_from s1 s2 i 0 = Some 0"
| "strncmp_from s1 s2 i (Suc n) =
    do { c1 \<leftarrow> rd s1 i; c2 \<leftarrow> rd s2 i;
         let a = scast c1 :: u32; b = scast c2 :: u32
         in if a \<noteq> b then Some (sint (a - b))
            else if a = 0 then Some 0 else strncmp_from s1 s2 (Suc i) n }"

definition strncmp :: "u8 list \<Rightarrow> u8 list \<Rightarrow> nat \<Rightarrow> int option" where
  "strncmp s1 s2 n = strncmp_from s1 s2 0 n"

definition tolower :: "u8 \<Rightarrow> u8" where
  "tolower ch = (if 0x41 \<le> ch \<and> ch \<le> 0x5A then 0x61 + (ch - 0x41) else ch)"

function strcasecmp_from :: "u8 list \<Rightarrow> u8 list \<Rightarrow> nat \<Rightarrow> int option" where
  "strcasecmp_from s1 s2 i =
    do { c1 \<leftarrow> rd s1 i; c2 \<leftarrow> rd s2 i;
         if tolower c1 = tolower c2
         then if c1 = 0 then Some 0 else strcasecmp_from s1 s2 (Suc i)
         else Some (uint (tolower c1) - uint (tolower c2)) }"
  by pat_completeness auto
termination
  by (relation "measure (\<lambda>(s1, s2, i). length s1 - i)") (auto simp: rd_eq_Some_iff)

definition strcasecmp :: "u8 list \<Rightarrow> u8 list \<Rightarrow> int option" where
  "strcasecmp s1 s2 = strcasecmp_from s1 s2 0"

fun strncasecmp_from :: "u8 list \<Rightarrow> u8 list \<Rightarrow> nat \<Rightarrow> nat \<Rightarrow> int option" where
  "strncasecmp_from s1 s2 i 0 = Some 0"
| "strncasecmp_from s1 s2 i (Suc n) =
    do { c1 \<leftarrow> rd s1 i; c2 \<leftarrow> rd s2 i;
         if tolower c1 \<noteq> tolower c2 then Some (uint (tolower c1) - uint (tolower c2))
         else if c1 = 0 then Some 0 else strncasecmp_from s1 s2 (Suc i) n }"

definition strncasecmp :: "u8 list \<Rightarrow> u8 list \<Rightarrow> nat \<Rightarrow> int option" where
  "strncasecmp s1 s2 n = strncasecmp_from s1 s2 0 n"

function strprefix_from :: "u8 list \<Rightarrow> u8 list \<Rightarrow> nat \<Rightarrow> int option" where
  "strprefix_from s1 s2 i =
    do { c \<leftarrow> rd s2 i;
         if c \<noteq> 0 then do { c1 \<leftarrow> rd s1 i; if c \<noteq> c1 then Some 0 else strprefix_from s1 s2 (Suc i) }
         else Some 1 }"
  by pat_completeness auto
termination
  by (relation "measure (\<lambda>(s1, s2, i). length s2 - i)") (auto simp: rd_eq_Some_iff)

definition strprefix :: "u8 list \<Rightarrow> u8 list \<Rightarrow> int option" where
  "strprefix s1 s2 = strprefix_from s1 s2 0"

text \<open>\<open>strnlen\<close> looks at the byte before it compares the pointer with the end.\<close>

function strnlen_from :: "u8 list \<Rightarrow> nat \<Rightarrow> nat \<Rightarrow> nat option" where
  "strnlen_from s maxlen p =
    do { c \<leftarrow> rd s p; if c \<noteq> 0 \<and> p \<noteq> maxlen then strnlen_from s maxlen (Suc p) else Some p }"
  by pat_completeness auto
termination
  by (relation "measure (\<lambda>(s, maxlen, p). length s - p)") (auto simp: rd_eq_Some_iff)

definition strnlen :: "u8 list \<Rightarrow> nat \<Rightarrow> nat option" where
  "strnlen s maxlen = strnlen_from s maxlen 0"

declare strcmp_from.simps [simp del] strcasecmp_from.simps [simp del] strprefix_from.simps [simp del]
  strnlen_from.simps [simp del]

section \<open>Copying\<close>

function strcpy_from :: "u8 list \<Rightarrow> u8 list \<Rightarrow> nat \<Rightarrow> nat \<Rightarrow> u8 list option" where
  "strcpy_from dst src d s =
    do { c \<leftarrow> rd src s; dst \<leftarrow> wr dst d c;
         if c \<noteq> 0 then strcpy_from dst src (Suc d) (Suc s) else Some dst }"
  by pat_completeness auto
termination
  by (relation "measure (\<lambda>(dst, src, d, s). length src - s)") (auto simp: rd_eq_Some_iff)

definition strcpy :: "u8 list \<Rightarrow> u8 list \<Rightarrow> u8 list option" where
  "strcpy to from = strcpy_from to from 0 0"

function find_nul :: "u8 list \<Rightarrow> nat \<Rightarrow> nat option" where
  "find_nul mem p = do { c \<leftarrow> rd mem p; if c \<noteq> 0 then find_nul mem (Suc p) else Some p }"
  by pat_completeness auto
termination
  by (relation "measure (\<lambda>(mem, p). length mem - p)") (auto simp: rd_eq_Some_iff)

definition strcat :: "u8 list \<Rightarrow> u8 list \<Rightarrow> u8 list option" where
  "strcat dest src = do { d \<leftarrow> find_nul dest 0; strcpy_from dest src d 0 }"

fun pad_zeros :: "u8 list \<Rightarrow> nat \<Rightarrow> nat \<Rightarrow> u8 list option" where
  "pad_zeros dst d 0 = Some dst"
| "pad_zeros dst d (Suc n) = wr dst d 0 \<bind> (\<lambda>dst. pad_zeros dst (Suc d) n)"

fun strncpy_from :: "u8 list \<Rightarrow> u8 list \<Rightarrow> nat \<Rightarrow> nat \<Rightarrow> u8 list option" where
  "strncpy_from dst src i 0 = Some dst"
| "strncpy_from dst src i (Suc n) =
    do { c \<leftarrow> rd src i; dst \<leftarrow> wr dst i c;
         if c = 0 then pad_zeros dst (Suc i) n else strncpy_from dst src (Suc i) n }"

definition strncpy :: "u8 list \<Rightarrow> u8 list \<Rightarrow> nat \<Rightarrow> u8 list option" where
  "strncpy s1 s2 n = strncpy_from s1 s2 0 n"

text \<open>\<open>strlcpy\<close>: the copying loop leaves the offsets behind the last byte copied and the room left.\<close>

function lcpy_loop :: "u8 list \<Rightarrow> u8 list \<Rightarrow> nat \<Rightarrow> nat \<Rightarrow> (u8 list \<times> nat \<times> nat) option" where
  "lcpy_loop dst src i n =
    do { c \<leftarrow> rd src i; dst \<leftarrow> wr dst i c;
         if c = 0 then Some (dst, Suc i, n)
         else if n - 1 \<noteq> 0 then lcpy_loop dst src (Suc i) (n - 1) else Some (dst, Suc i, n - 1) }"
  by pat_completeness auto
termination
  by (relation "measure (\<lambda>(dst, src, i, n). n)") auto

definition strlcpy :: "u8 list \<Rightarrow> u8 list \<Rightarrow> nat \<Rightarrow> (u8 list \<times> nat) option" where
  "strlcpy dst src siz =
    do { (dst, i, n) \<leftarrow> (if siz \<noteq> 0 \<and> siz - 1 \<noteq> 0 then lcpy_loop dst src 0 (siz - 1) else Some (dst, 0, 0));
         if n = 0
         then do { dst \<leftarrow> (if siz \<noteq> 0 then wr dst i 0 else Some dst);
                   e \<leftarrow> find_nul src i;
                   Some (dst, e) }
         else Some (dst, i - 1) }"

fun find_end :: "u8 list \<Rightarrow> nat \<Rightarrow> nat \<Rightarrow> nat option" where
  "find_end dst d 0 = Some d"
| "find_end dst d (Suc n) = do { c \<leftarrow> rd dst d; if c \<noteq> 0 then find_end dst (Suc d) n else Some d }"

function lcat_loop :: "u8 list \<Rightarrow> u8 list \<Rightarrow> nat \<Rightarrow> nat \<Rightarrow> nat \<Rightarrow> (u8 list \<times> nat) option" where
  "lcat_loop dst src d s n =
    do { c \<leftarrow> rd src s;
         if c \<noteq> 0
         then if n \<noteq> 1 then do { dst \<leftarrow> wr dst d c; lcat_loop dst src (Suc d) (Suc s) (n - 1) }
              else lcat_loop dst src d (Suc s) n
         else do { dst \<leftarrow> wr dst d 0; Some (dst, s) } }"
  by pat_completeness auto
termination
  by (relation "measure (\<lambda>(dst, src, d, s, n). length src - s)") (auto simp: rd_eq_Some_iff)

definition strlcat :: "u8 list \<Rightarrow> u8 list \<Rightarrow> nat \<Rightarrow> (u8 list \<times> nat) option" where
  "strlcat dst src siz =
    do { dlen \<leftarrow> find_end dst 0 siz;
         if siz - dlen = 0 then do { k \<leftarrow> strlen src 0; Some (dst, dlen + k) }
         else do { (dst, k) \<leftarrow> lcat_loop dst src dlen 0 (siz - dlen); Some (dst, dlen + k) } }"

text \<open>\<open>STRDUP\<close>: \<open>mem\<close> is the object \<^verbatim>\<open>MALLOC\<close> returns for the length it is asked for.\<close>

definition STRDUP :: "(nat \<Rightarrow> u8 list option) \<Rightarrow> u8 list \<Rightarrow> u8 list option option" where
  "STRDUP mem string =
    do { n \<leftarrow> strlen string 0;
         case mem (n + 1) of
           None \<Rightarrow> Some None
         | Some copy \<Rightarrow>
             if n + 1 \<le> length copy then Some (Some (take (n + 1) string @ drop (n + 1) copy)) else None }"

declare strcpy_from.simps [simp del] find_nul.simps [simp del] lcpy_loop.simps [simp del] lcat_loop.simps [simp del]

section \<open>Numbers\<close>

function atoi_loop :: "u8 list \<Rightarrow> nat \<Rightarrow> u32 \<Rightarrow> (u32 \<times> nat) option" where
  "atoi_loop cp i number =
    do { c \<leftarrow> rd cp i;
         if 0x30 \<le> sint c \<and> sint c \<le> 0x39
         then atoi_loop cp (Suc i) (number * 10 + scast (c - 0x30))
         else Some (number, i) }"
  by pat_completeness auto
termination
  by (relation "measure (\<lambda>(cp, i, number). length cp - i)") (auto simp: rd_eq_Some_iff)

declare atoi_loop.simps [simp del]

definition atoi :: "u8 list \<Rightarrow> int option" where
  "atoi cp = map_option (\<lambda>(number, i). sint number) (atoi_loop cp 0 0)"

function term_sign :: "u8 list \<Rightarrow> nat \<Rightarrow> (bool \<times> nat) option" where
  "term_sign p i =
    do { c \<leftarrow> rd p i;
         if c = 0x20 \<or> c = 0x09 then term_sign p (Suc i)
         else Some (c = 0x2D, if c = 0x2D \<or> c = 0x2B then Suc i else i) }"
  by pat_completeness auto
termination
  by (relation "measure (\<lambda>(p, i). length p - i)") (auto simp: rd_eq_Some_iff)

declare term_sign.simps [simp del]

definition atoi_term :: "u8 list \<Rightarrow> (int \<times> nat) option" where
  "atoi_term p =
    do { (f, i) \<leftarrow> term_sign p 0;
         (n, i) \<leftarrow> atoi_loop p i 0;
         Some (sint (if f then - n else n), i) }"

text \<open>\<open>itoa\<close>: the digits are produced from the last one on, with the remainder and quotient of C, which
  round towards zero; the characters are the low bytes of \<^verbatim>\<open>'0' + num % 10\<close>.\<close>

function itoa_digits :: "int \<Rightarrow> u8 list" where
  "itoa_digits num = (if num \<noteq> 0 then word_of_int (0x30 + num smod 10) # itoa_digits (num sdiv 10) else [])"
  by pat_completeness auto
termination
  by (relation "measure (\<lambda>num. nat \<bar>num\<bar>)") (auto simp: signed_divide_int_def abs_mult sgn_if)

declare itoa_digits.simps [simp del]

definition itoa :: "int \<Rightarrow> u8 list" where
  "itoa num = (if num = 0 then [0x30] else rev (itoa_digits num)) @ [0]"

section \<open>Lemmas\<close>

lemma rd_drop:
  assumes "drop i s = x # t"
  shows "rd s i = Some x" and "drop (Suc i) s = t"
proof -
  have "i < length s" using assms by (metis drop_eq_Nil2 linorder_not_less list.distinct(1))
  then show "rd s i = Some x" "drop (Suc i) s = t"
    using assms by (simp_all flip: Cons_nth_drop_Suc)
qed

lemma wr_at: "wr (pre @ y # post) (length pre) v = Some (pre @ v # post)"
  by (simp add: wr_def list_update_append)

text \<open>\<open>cstr mem p xs\<close>: at offset \<open>p\<close> of the object stands the string \<open>xs\<close> with its terminator.\<close>

definition cstr :: "u8 list \<Rightarrow> nat \<Rightarrow> u8 list \<Rightarrow> bool" where
  "cstr mem p xs \<longleftrightarrow> (\<exists>r. drop p mem = xs @ 0 # r) \<and> 0 \<notin> set xs"

lemma cstr_Nil: "cstr mem p [] \<Longrightarrow> rd mem p = Some 0"
  by (auto simp: cstr_def dest: rd_drop)

lemma cstr_Cons:
  assumes "cstr mem p (x # xs)"
  shows "rd mem p = Some x" "x \<noteq> 0" "cstr mem (Suc p) xs"
  using assms rd_drop [of p mem x] by (auto simp: cstr_def)

lemma cstr_0: "0 \<notin> set xs \<Longrightarrow> cstr (xs @ 0 # r) 0 xs"
  by (simp add: cstr_def)

lemma strlen_cstr: "cstr mem p xs \<Longrightarrow> strlen mem p = Some (length xs)"
proof -
  assume "cstr mem p xs"
  then obtain r where r: "drop p mem = xs @ 0 # r" "0 \<notin> set xs" by (auto simp: cstr_def)
  have "takeWhile (\<lambda>c. c \<noteq> 0) (xs @ 0 # r) = xs" using r(2) by (induction xs) auto
  then show ?thesis by (simp add: strlen_def r(1))
qed

lemma sint_u8_bounds: "- 128 \<le> sint (c :: u8) \<and> sint c < 128"
  using sint_greater_eq [of c] sint_less [of c] by simp

lemma scast_diff: "sint (scast (c1 :: u8) - scast (c2 :: u8) :: u32) = sint c1 - sint c2"
proof -
  have "signed_take_bit 31 (sint c) = sint c" for c :: u8
    using sint_u8_bounds [of c] by (intro signed_take_bit_int_eq_self) simp_all
  then have "sint (scast c1 - scast c2 :: u32) = signed_take_bit 31 (sint c1 - sint c2)"
    by (simp add: sint_word_ariths signed_scast_eq)
  also have "\<dots> = sint c1 - sint c2"
    using sint_u8_bounds [of c1] sint_u8_bounds [of c2] by (intro signed_take_bit_int_eq_self) simp_all
  finally show ?thesis .
qed

lemma scast_eq_iff: "(scast (c1 :: u8) :: u32) = scast c2 \<longleftrightarrow> c1 = c2"
  using scast_diff [of c1 c2] by (auto simp: signed_word_eqI)

lemma scast_eq_0: "(scast (c :: u8) :: u32) = 0 \<longleftrightarrow> c = 0"
  using scast_eq_iff [of c 0] by simp

lemma strcmp_from_spec:
  "cstr s1 i xs \<Longrightarrow> cstr s2 i ys \<Longrightarrow> \<exists>v. strcmp_from s1 s2 i = Some v \<and> (v = 0 \<longleftrightarrow> xs = ys)
    \<and> (v < 0 \<longleftrightarrow> ord_class.lexordp (map sint (xs @ [0])) (map sint (ys @ [0])))"
proof (induction xs arbitrary: ys i)
  case Nil
  show ?case
  proof (cases ys)
    case Nil
    then show ?thesis using Nil.prems by (subst strcmp_from.simps) (simp add: cstr_Nil)
  next
    case (Cons y ys')
    note y = cstr_Cons [OF Nil.prems(2) [unfolded Cons]]
    have "sint y \<noteq> 0" using y(2) by (simp add: signed_eq_0_iff)
    then have "sint y < 0 \<or> 0 < sint y" by linarith
    then show ?thesis using Cons y cstr_Nil [OF Nil.prems(1)] scast_diff [of 0 y] scast_eq_0 [of y]
      by (subst strcmp_from.simps) (auto simp: signed_eq_0_iff)
  qed
next
  case (Cons x xs)
  note x = cstr_Cons [OF Cons.prems(1)]
  show ?case
  proof (cases ys)
    case Nil
    have "sint x \<noteq> 0" using x(2) by (simp add: signed_eq_0_iff)
    then have "sint x < 0 \<or> 0 < sint x" by linarith
    then show ?thesis using Nil x cstr_Nil [of s2 i] Cons.prems(2) scast_diff [of x 0] scast_eq_0 [of x]
      by (subst strcmp_from.simps) (auto simp: signed_eq_0_iff)
  next
    case (Cons y ys')
    note y = cstr_Cons [OF Cons.prems(2) [unfolded Cons]]
    show ?thesis
    proof (cases "x = y")
      case True
      then show ?thesis using Cons.IH [OF x(3) y(3)] x y Cons scast_eq_0 [of x] by (subst strcmp_from.simps) auto
    next
      case False
      then have "sint x \<noteq> sint y" using signed_word_eqI [of x y] by blast
      then show ?thesis using False x y Cons scast_diff [of x y] scast_eq_iff [of x y]
        by (subst strcmp_from.simps) auto
    qed
  qed
qed

lemma strncasecmp_from_spec:
  "cstr s1 i xs \<Longrightarrow> cstr s2 i ys \<Longrightarrow> \<exists>v. strncasecmp_from s1 s2 i n = Some v
    \<and> (v = 0 \<longleftrightarrow> map tolower (take n (xs @ [0])) = map tolower (take n (ys @ [0])))"
proof (induction n arbitrary: xs ys i)
  case (Suc n)
  have low0: "tolower c = 0 \<longleftrightarrow> c = 0" for c
  proof -
    have "uint (0x61 + (c - 0x41)) = uint c + 32" if "0x41 \<le> c" "c \<le> 0x5A"
      using that by (simp add: uint_word_ariths word_le_def)
    then show ?thesis by (auto simp: tolower_def word_le_def)
  qed
  have nz: "uint (tolower a) - uint (tolower b) = 0 \<longleftrightarrow> tolower a = tolower b" for a b
    by (simp add: word_uint_eq_iff)
  show ?case
  proof (cases xs; cases ys)
    fix x xs' y ys' assume eq: "xs = x # xs'" "ys = y # ys'"
    note x = cstr_Cons [OF Suc.prems(1) [unfolded eq]] and y = cstr_Cons [OF Suc.prems(2) [unfolded eq]]
    from Suc.IH [OF x(3) y(3)] x y eq nz [of x y] show ?thesis by auto
  next
    fix x xs' assume eq: "xs = x # xs'" "ys = []"
    note x = cstr_Cons [OF Suc.prems(1) [unfolded eq]]
    have "tolower x \<noteq> tolower 0" using x(2) low0 [of x] low0 [of 0] by metis
    then show ?thesis using x cstr_Nil [OF Suc.prems(2) [unfolded eq]] eq nz [of x 0] by auto
  next
    fix y ys' assume eq: "xs = []" "ys = y # ys'"
    note y = cstr_Cons [OF Suc.prems(2) [unfolded eq]]
    have "tolower 0 \<noteq> tolower y" using y(2) low0 [of y] low0 [of 0] by metis
    then show ?thesis using y cstr_Nil [OF Suc.prems(1) [unfolded eq]] eq nz [of 0 y] by auto
  qed (use Suc.prems cstr_Nil in simp)
qed simp

lemma find_nul_cstr: "cstr mem p xs \<Longrightarrow> find_nul mem p = Some (p + length xs)"
proof (induction xs arbitrary: p)
  case Nil
  then show ?case by (subst find_nul.simps) (simp add: cstr_Nil)
next
  case (Cons x xs)
  note x = cstr_Cons [OF Cons.prems]
  show ?case using Cons.IH [OF x(3)] x by (subst find_nul.simps) simp
qed

lemma strcpy_from_spec:
  "cstr src s xs \<Longrightarrow> length xs < length post \<Longrightarrow>
    strcpy_from (pre @ post) src (length pre) s = Some (pre @ xs @ 0 # drop (Suc (length xs)) post)"
proof (induction xs arbitrary: pre post s)
  case Nil
  then obtain y post' where "post = y # post'" by (cases post) auto
  then show ?case using cstr_Nil [OF Nil.prems(1)] by (subst strcpy_from.simps) (simp add: wr_at)
next
  case (Cons x xs)
  note x = cstr_Cons [OF Cons.prems(1)]
  obtain y post' where post: "post = y # post'" using Cons.prems(2) by (cases post) auto
  have "strcpy_from ((pre @ [x]) @ post') src (length (pre @ [x])) (Suc s) =
      Some ((pre @ [x]) @ xs @ 0 # drop (Suc (length xs)) post')"
    using Cons.prems(2) post by (intro Cons.IH [OF x(3)]) simp
  then show ?case using x post by (subst strcpy_from.simps) (simp add: wr_at)
qed

lemma pad_zeros_spec:
  "n \<le> length post \<Longrightarrow> pad_zeros (pre @ post) (length pre) n = Some (pre @ replicate n 0 @ drop n post)"
proof (induction n arbitrary: pre post)
  case (Suc n)
  obtain y post' where post: "post = y # post'" using Suc.prems by (cases post) auto
  have "pad_zeros ((pre @ [0]) @ post') (length (pre @ [0])) n = Some ((pre @ [0]) @ replicate n 0 @ drop n post')"
    using Suc.prems post by (intro Suc.IH) simp
  then show ?case using post by (simp add: wr_at)
qed simp

lemma strncpy_from_spec:
  "cstr src (length pre) xs \<Longrightarrow> n \<le> length post \<Longrightarrow>
    strncpy_from (pre @ post) src (length pre) n = Some (pre @ take n xs @ replicate (n - length xs) 0 @ drop n post)"
proof (induction n arbitrary: pre post xs)
  case (Suc n)
  obtain y post' where post: "post = y # post'" using Suc.prems by (cases post) auto
  show ?case
  proof (cases xs)
    case Nil
    then show ?thesis using cstr_Nil [of src "length pre"] Suc.prems post pad_zeros_spec [of n post' "pre @ [0]"]
      by (simp add: wr_at)
  next
    case (Cons x xs')
    note x = cstr_Cons [OF Suc.prems(1) [unfolded Cons]]
    have "strncpy_from ((pre @ [x]) @ post') src (length (pre @ [x])) n =
        Some ((pre @ [x]) @ take n xs' @ replicate (n - length xs') 0 @ drop n post')"
      using Suc.prems x(3) post by (intro Suc.IH) simp_all
    then show ?thesis using x post Cons by (simp add: wr_at)
  qed
qed simp

lemma lcpy_step:
  "rd src (length pre) = Some c \<Longrightarrow> lcpy_loop (pre @ y # post) src (length pre) n =
    (if c = 0 then Some (pre @ c # post, Suc (length pre), n)
     else if n - 1 \<noteq> 0 then lcpy_loop (pre @ c # post) src (Suc (length pre)) (n - 1)
     else Some (pre @ c # post, Suc (length pre), n - 1))"
  by (subst lcpy_loop.simps) (simp add: wr_at)

lemma lcat_step:
  "rd src s = Some c \<Longrightarrow> lcat_loop (pre @ y # post) src (length pre) s n =
    (if c = 0 then Some (pre @ 0 # post, s)
     else if n \<noteq> 1 then lcat_loop (pre @ c # post) src (Suc (length pre)) (Suc s) (n - 1)
     else lcat_loop (pre @ y # post) src (length pre) (Suc s) n)"
  by (subst lcat_loop.simps) (simp add: wr_at)

lemma lcpy_loop_spec:
  "cstr src (length pre) xs \<Longrightarrow> 0 < n \<Longrightarrow> n \<le> length post \<Longrightarrow>
    lcpy_loop (pre @ post) src (length pre) n =
      (if length xs < n then Some (pre @ xs @ 0 # drop (Suc (length xs)) post, Suc (length pre + length xs), n - length xs)
       else Some (pre @ take n xs @ drop n post, length pre + n, 0))"
proof (induction xs arbitrary: pre post n)
  case Nil
  then obtain y post' where "post = y # post'" by (cases post) auto
  then show ?case using lcpy_step [OF cstr_Nil [OF Nil.prems(1)]] Nil.prems(2) by simp
next
  case (Cons x xs)
  note x = cstr_Cons [OF Cons.prems(1)]
  obtain y post' where post: "post = y # post'" using Cons.prems(2,3) by (cases post) auto
  show ?case
  proof (cases "n = 1")
    case True
    then show ?thesis using x(2) post lcpy_step [OF x(1)] by simp
  next
    case False
    define k where "k = n - 2"
    have k: "n = Suc (Suc k)" using False Cons.prems(2) by (simp add: k_def)
    have "lcpy_loop ((pre @ [x]) @ post') src (length (pre @ [x])) (Suc k) =
        (if length xs < Suc k
         then Some ((pre @ [x]) @ xs @ 0 # drop (Suc (length xs)) post', Suc (length (pre @ [x]) + length xs), Suc k - length xs)
         else Some ((pre @ [x]) @ take (Suc k) xs @ drop (Suc k) post', length (pre @ [x]) + Suc k, 0))"
      using Cons.prems(3) x(3) post k by (intro Cons.IH) simp_all
    then show ?thesis using x(2) post k lcpy_step [OF x(1)] by simp
  qed
qed

lemma strlcpy_spec:
  assumes "cstr src 0 xs" "siz \<le> length dst"
  shows "strlcpy dst src siz = Some (if siz = 0 then dst
    else take (siz - 1) xs @ 0 # drop (Suc (min (siz - 1) (length xs))) dst, length xs)"
proof -
  consider "siz = 0" | "siz = 1" | (more) n where "siz = Suc (Suc n)"
    by (metis One_nat_def Suc_pred gr0_conv_Suc not_gr_zero)
  then show ?thesis
  proof cases
    case more
    note loop = lcpy_loop_spec [of src "[]" xs "Suc n" dst, simplified]
    show ?thesis
    proof (cases "length xs < Suc n")
      case True
      then show ?thesis using loop assms more by (simp add: strlcpy_def min_def)
    next
      case False
      have "cstr src (Suc n) (drop (Suc n) xs)" using assms(1) False by (auto simp: cstr_def dest: in_set_dropD)
      then have "find_nul src (Suc n) = Some (length xs)" using find_nul_cstr False by fastforce
      moreover have "wr (take (Suc n) xs @ drop (Suc n) dst) (Suc n) 0 = Some (take (Suc n) xs @ 0 # drop (Suc (Suc n)) dst)"
      proof -
        obtain y ys where "drop (Suc n) dst = y # ys" using assms(2) more by (cases "drop (Suc n) dst") auto
        then show ?thesis using wr_at [of "take (Suc n) xs" y ys 0] False rd_drop(2) [of "Suc n" dst y ys] by simp
      qed
      ultimately show ?thesis using loop assms more False by (simp add: strlcpy_def min_def)
    qed
  next
    case 1
    then show ?thesis using find_nul_cstr [OF assms(1)] by (simp add: strlcpy_def)
  next
    case 2
    then obtain y ys where "dst = y # ys" using assms(2) by (cases dst) auto
    then show ?thesis using 2 find_nul_cstr [OF assms(1)] by (simp add: strlcpy_def wr_def)
  qed
qed

lemma find_end_spec:
  "n \<le> length post \<Longrightarrow> find_end (pre @ post) (length pre) n = Some (length pre + length (takeWhile (\<lambda>c. c \<noteq> 0) (take n post)))"
proof (induction n arbitrary: pre post)
  case (Suc n)
  obtain y post' where post: "post = y # post'" using Suc.prems by (cases post) auto
  show ?case using Suc.IH [of post' "pre @ [y]"] Suc.prems post by (simp add: rd_def)
qed simp

lemma lcat_loop_spec:
  "cstr src s xs \<Longrightarrow> 0 < n \<Longrightarrow> n \<le> length post \<Longrightarrow>
    lcat_loop (pre @ post) src (length pre) s n =
      Some (pre @ take (n - 1) xs @ 0 # drop (Suc (min (n - 1) (length xs))) post, s + length xs)"
proof (induction xs arbitrary: pre post n s)
  case Nil
  then obtain y post' where "post = y # post'" by (cases post) auto
  then show ?case using lcat_step [OF cstr_Nil [OF Nil.prems(1)]] by simp
next
  case (Cons x xs)
  note x = cstr_Cons [OF Cons.prems(1)]
  obtain y post' where post: "post = y # post'" using Cons.prems(2,3) by (cases post) auto
  show ?case
  proof (cases "n = 1")
    case True
    then show ?thesis using x(2) post lcat_step [OF x(1)] Cons.IH [OF x(3), of 1 post pre] by simp
  next
    case False
    define k where "k = n - 2"
    have k: "n = Suc (Suc k)" using False Cons.prems(2) by (simp add: k_def)
    have "lcat_loop ((pre @ [x]) @ post') src (length (pre @ [x])) (Suc s) (Suc k) =
        Some ((pre @ [x]) @ take (Suc k - 1) xs @ 0 # drop (Suc (min (Suc k - 1) (length xs))) post', Suc s + length xs)"
      using Cons.prems(3) post k by (intro Cons.IH [OF x(3)]) simp_all
    then show ?thesis using x(2) post k lcat_step [OF x(1)] by simp
  qed
qed

lemma strlcat_spec:
  assumes "cstr src 0 xs" "siz \<le> length dst"
  defines "k \<equiv> length (takeWhile (\<lambda>c. c \<noteq> 0) (take siz dst))"
  shows "strlcat dst src siz = Some (if k = siz then dst
    else take k dst @ take (siz - k - 1) xs @ 0 # drop (Suc (k + min (siz - k - 1) (length xs))) dst, k + length xs)"
proof -
  have fe: "find_end dst 0 siz = Some k" using find_end_spec [of siz dst "[]"] assms(2) by (simp add: k_def)
  have "k \<le> length (take siz dst)" unfolding k_def by (rule length_takeWhile_le)
  then have k: "k \<le> siz" using assms(2) by simp
  show ?thesis
  proof (cases "k = siz")
    case True
    then show ?thesis using fe strlen_cstr [OF assms(1)] by (simp add: strlcat_def)
  next
    case False
    then have "lcat_loop (take k dst @ drop k dst) src (length (take k dst)) 0 (siz - k) =
        Some (take k dst @ take (siz - k - 1) xs @ 0 # drop (Suc (min (siz - k - 1) (length xs))) (drop k dst), 0 + length xs)"
      using k assms(2) by (intro lcat_loop_spec [OF assms(1)]) simp_all
    then show ?thesis using False k fe assms(2) by (simp add: strlcat_def add.commute)
  qed
qed

section \<open>Decimal digits\<close>

fun le_digits :: "nat \<Rightarrow> nat list" where
  "le_digits n = (if n = 0 then [] else n mod 10 # le_digits (n div 10))"

declare le_digits.simps [simp del]

definition digit :: "nat \<Rightarrow> u8" where
  "digit d = 0x30 + of_nat d"

lemma le_digits_less: "\<forall>d \<in> set (le_digits n). d < 10"
proof (induction n rule: le_digits.induct)
  case (1 n)
  then show ?case by (subst le_digits.simps) simp
qed

lemma length_le_digits: "n < 10 ^ k \<Longrightarrow> length (le_digits n) \<le> k"
proof (induction k arbitrary: n)
  case 0
  then show ?case by (subst le_digits.simps) simp
next
  case (Suc k)
  then have "n div 10 < 10 ^ k" by (simp add: less_mult_imp_div_less)
  from Suc.IH [OF this] show ?case by (subst le_digits.simps) simp
qed

lemma less_10_cases: "d < 10 \<Longrightarrow> d \<in> {0, 1, 2, 3, 4, 5, 6, 7, 8, 9 :: nat}"
  by auto

lemma digit_cases:
  "d < 10 \<Longrightarrow> 0x30 \<le> sint (digit d) \<and> sint (digit d) \<le> 0x39 \<and> (scast (digit d - 0x30) :: u32) = of_nat d \<and> digit d \<noteq> 0"
  by (drule less_10_cases) (auto simp: digit_def)

lemma itoa_digits_nat: "itoa_digits (int n) = map digit (le_digits n)"
proof (induction n rule: le_digits.induct)
  case (1 n)
  have "int n smod 10 = int (n mod 10)" "int n sdiv 10 = int (n div 10)"
    by (simp_all add: signed_modulo_int_def signed_divide_int_def zmod_int zdiv_int sgn_if)
  then show ?case
    using 1 by (subst itoa_digits.simps, subst le_digits.simps) (simp add: digit_def)
qed

lemma itoa_digits_neg: "itoa_digits (- int n) = map (\<lambda>d. 0x30 - of_nat d) (le_digits n)"
proof (induction n rule: le_digits.induct)
  case (1 n)
  have "(- int n) smod 10 = - int (n mod 10)" "(- int n) sdiv 10 = - int (n div 10)"
    by (simp_all add: signed_modulo_int_def signed_divide_int_def zmod_int zdiv_int sgn_if)
  then show ?case
    using 1 by (subst itoa_digits.simps, subst le_digits.simps) simp
qed

lemma atoi_loop_digits:
  "drop i cp = map digit ds @ c # r \<Longrightarrow> \<forall>d \<in> set ds. d < 10 \<Longrightarrow> \<not> (0x30 \<le> sint c \<and> sint c \<le> 0x39) \<Longrightarrow>
    atoi_loop cp i number = Some (foldl (\<lambda>a d. a * 10 + of_nat d) number ds, i + length ds)"
proof (induction ds arbitrary: i number)
  case Nil
  then show ?case using rd_drop [of i cp c r] by (subst atoi_loop.simps) auto
next
  case (Cons d ds)
  note rd = rd_drop [of i cp "digit d" "map digit ds @ c # r"]
  show ?case
    using Cons.IH [of "Suc i" "number * 10 + of_nat d"] Cons.prems rd digit_cases [of d]
    by (subst atoi_loop.simps) simp
qed

lemma digits_value: "foldl (\<lambda>a d. a * 10 + of_nat d) 0 (rev (le_digits n)) = (of_nat n :: u32)"
proof (induction n rule: le_digits.induct)
  case (1 n)
  show ?case
  proof (cases "n = 0")
    case False
    have "(of_nat n :: u32) = of_nat (n div 10 * 10 + n mod 10)" by (simp only: div_mult_mod_eq)
    also have "\<dots> = of_nat (n div 10) * 10 + of_nat (n mod 10)" by (simp only: of_nat_add of_nat_mult of_nat_numeral)
    finally show ?thesis using 1 False by (subst le_digits.simps) (simp del: of_nat_add of_nat_mult)
  qed (subst le_digits.simps, simp)
qed

lemma itoa_nat: "itoa (int n) = map digit (if n = 0 then [0] else rev (le_digits n)) @ [0]"
  by (simp add: itoa_def itoa_digits_nat rev_map digit_def)

text \<open>The string a destination of \<open>siz\<close> bytes holds: all of them when no NUL is among them.\<close>

definition held :: "u8 list \<Rightarrow> nat \<Rightarrow> u8 list" where
  "held dst siz = takeWhile (\<lambda>c. c \<noteq> 0) (take siz dst)"

lemma held_whole: "siz \<le> length dst \<Longrightarrow> 0 \<notin> set (take siz dst) \<Longrightarrow> length (held dst siz) = siz"
  unfolding held_def by (subst takeWhile_eq_all_conv [THEN iffD2]) auto

lemma held_part:
  assumes "0 \<in> set (take siz dst)"
  shows "length (held dst siz) < siz" "0 \<notin> set (held dst siz)" "take (length (held dst siz)) dst = held dst siz"
proof -
  have "length (held dst siz) \<noteq> length (take siz dst)"
    using assms takeWhile_eq_all_conv [of "\<lambda>c. c \<noteq> 0" "take siz dst"] takeWhile_eq_take [of "\<lambda>c. c \<noteq> 0" "take siz dst"]
    unfolding held_def by (metis take_all_iff order_refl)
  then show "length (held dst siz) < siz"
    using length_takeWhile_le [of "\<lambda>c. c \<noteq> 0" "take siz dst"] by (simp add: held_def min_def split: if_splits)
  then show "take (length (held dst siz)) dst = held dst siz"
    using takeWhile_eq_take [of "\<lambda>c. c \<noteq> 0" "take siz dst"] by (simp add: held_def)
  show "0 \<notin> set (held dst siz)" by (auto simp: held_def dest: set_takeWhileD)
qed

lemma le_digits_not_Nil: "n \<noteq> 0 \<Longrightarrow> le_digits n \<noteq> []"
  by (subst le_digits.simps) simp

lemma digit_between: "d < 10 \<Longrightarrow> digit d \<in> {0x30..0x39}"
  by (drule less_10_cases) (auto simp: digit_def)

section \<open>Other scans\<close>

lemma strnlen_from_spec:
  "cstr s p xs \<Longrightarrow> p \<le> n \<Longrightarrow> strnlen_from s n p = Some (min (p + length xs) n)"
proof (induction xs arbitrary: p)
  case Nil
  then show ?case using cstr_Nil [OF Nil.prems(1)] by (subst strnlen_from.simps) simp
next
  case (Cons x xs)
  note x = cstr_Cons [OF Cons.prems(1)]
  show ?case
  proof (cases "p = n")
    case True
    then show ?thesis using x by (subst strnlen_from.simps) simp
  next
    case False
    then show ?thesis using x Cons.IH [OF x(3)] Cons.prems(2) by (subst strnlen_from.simps) simp
  qed
qed

lemma strnlen_from_overread:
  "0 \<notin> set s \<Longrightarrow> length s \<le> n \<Longrightarrow> p \<le> length s \<Longrightarrow> strnlen_from s n p = None"
proof (induction s n p rule: strnlen_from.induct)
  case (1 s n p)
  show ?case
  proof (cases "p < length s")
    case True
    then have "s ! p \<noteq> 0" using 1(2) by (metis nth_mem)
    then show ?thesis using 1 True by (subst strnlen_from.simps) simp
  next
    case False
    then show ?thesis by (subst strnlen_from.simps) (simp add: rd_def)
  qed
qed

lemma strprefix_from_spec:
  "cstr s1 i xs \<Longrightarrow> cstr s2 i ys \<Longrightarrow> strprefix_from s1 s2 i = Some (if take (length ys) xs = ys then 1 else 0)"
proof (induction ys arbitrary: xs i)
  case Nil
  then show ?case using cstr_Nil [OF Nil.prems(2)] by (subst strprefix_from.simps) simp
next
  case (Cons y ys)
  note y = cstr_Cons [OF Cons.prems(2)]
  show ?case
  proof (cases xs)
    case Nil
    then show ?thesis using y cstr_Nil [of s1 i] Cons.prems(1) by (subst strprefix_from.simps) simp
  next
    case (Cons x xs')
    note x = cstr_Cons [OF Cons.prems(1) [unfolded Cons]]
    show ?thesis using Cons.IH [OF x(3) y(3)] x y \<open>xs = x # xs'\<close> by (subst strprefix_from.simps) auto
  qed
qed

lemma drop_splice:
  assumes "length pre = m" "m < k"
  shows "drop k (pre @ y # drop (Suc m) dst) = drop k dst"
proof -
  obtain j where "k = Suc (m + j)" using assms(2) by (metis less_imp_Suc_add)
  then show ?thesis using assms(1) by (simp add: add.commute)
qed

section \<open>Properties\<close>

text \<open>\<open>strcmp\<close> on two strings always finds an answer inside them: it is 0 exactly for equal strings, and
  negative exactly when the first is smaller in the dictionary order of signed characters.\<close>

theorem strcmp_correct:
  assumes "0 \<notin> set xs" "0 \<notin> set ys"
  shows "\<exists>v. strcmp (xs @ 0 # r) (ys @ 0 # r') = Some v \<and> (v = 0 \<longleftrightarrow> xs = ys)
    \<and> (v < 0 \<longleftrightarrow> ord_class.lexordp (map sint (xs @ [0])) (map sint (ys @ [0])))"
  unfolding strcmp_def by (intro strcmp_from_spec cstr_0 assms)

theorem strcmp_correct_witness:
  "\<exists>v. strcmp ([0x61, 0x62] @ 0 # []) ([0x61, 0x63] @ 0 # [1]) = Some v \<and> (v = 0 \<longleftrightarrow> [0x61, 0x62] = [0x61, 0x63 :: u8])
    \<and> (v < 0 \<longleftrightarrow> ord_class.lexordp (map sint ([0x61, 0x62] @ [0 :: u8])) (map sint ([0x61, 0x63] @ [0 :: u8])))"
  by (rule strcmp_correct) simp_all

text \<open>\<open>strncasecmp\<close> answers 0 exactly when the first \<open>n\<close> characters, the terminator included, agree but
  for the case of letters, and never reads behind a terminator.\<close>

theorem strncasecmp_correct:
  assumes "0 \<notin> set xs" "0 \<notin> set ys"
  shows "\<exists>v. strncasecmp (xs @ 0 # r) (ys @ 0 # r') n = Some v
    \<and> (v = 0 \<longleftrightarrow> map tolower (take n (xs @ [0])) = map tolower (take n (ys @ [0])))"
  unfolding strncasecmp_def by (intro strncasecmp_from_spec cstr_0 assms)

theorem strncasecmp_correct_witness:
  "\<exists>v. strncasecmp ([0x61, 0x62] @ 0 # []) ([0x41, 0x63] @ 0 # []) 1 = Some v
    \<and> (v = 0 \<longleftrightarrow> map tolower (take 1 ([0x61, 0x62] @ [0])) = map tolower (take 1 ([0x41, 0x63] @ [0])))"
  by (rule strncasecmp_correct) simp_all

text \<open>C27: for any source string, any size and any destination of at least that many bytes, \<open>strlcpy\<close> and
  \<open>strlcat\<close> change no byte behind the first \<open>siz\<close>. With \<open>siz = 0\<close> \<open>strlcpy\<close> stores nothing; otherwise
  it stores the source cut to \<open>siz - 1\<close> characters and terminated. When no NUL is among the first
  \<open>siz\<close> bytes of the destination (\<open>siz = 0\<close> included) \<open>strlcat\<close> leaves it alone; otherwise it stores
  the old string and the source, cut to \<open>siz - 1\<close> characters and terminated. The return value is the
  length of the source for \<open>strlcpy\<close>, and for \<open>strlcat\<close> that and the length of the old string, which is
  \<open>siz\<close> when there is no NUL.\<close>

theorem strl_correct:
  assumes "0 \<notin> set xs" "siz \<le> length dst"
  shows "(\<exists>dst'. strlcpy dst (xs @ 0 # r) siz = Some (dst', length xs)
      \<and> length dst' = length dst \<and> drop siz dst' = drop siz dst
      \<and> (if siz = 0 then dst' = dst else cstr dst' 0 (take (siz - 1) xs)))
    \<and> (\<exists>dst'. strlcat dst (xs @ 0 # r) siz = Some (dst', length (held dst siz) + length xs)
      \<and> length dst' = length dst \<and> drop siz dst' = drop siz dst
      \<and> (if 0 \<in> set (take siz dst) then cstr dst' 0 (take (siz - 1) (held dst siz @ xs))
         else dst' = dst \<and> length (held dst siz) = siz))"
proof
  have src: "cstr (xs @ 0 # r) 0 xs" by (rule cstr_0 [OF assms(1)])
  let ?cpy = "take (siz - 1) xs @ 0 # drop (Suc (min (siz - 1) (length xs))) dst"
  note cpy = strlcpy_spec [OF src assms(2)]
  show "\<exists>dst'. strlcpy dst (xs @ 0 # r) siz = Some (dst', length xs)
      \<and> length dst' = length dst \<and> drop siz dst' = drop siz dst
      \<and> (if siz = 0 then dst' = dst else cstr dst' 0 (take (siz - 1) xs))"
  proof (cases "siz = 0")
    case False
    have "cstr ?cpy 0 (take (siz - 1) xs)" using assms(1) by (intro cstr_0) (auto dest: in_set_takeD)
    moreover have "length ?cpy = length dst" using False assms(2) by (auto simp: min_def)
    moreover have "drop siz ?cpy = drop siz dst" using False by (intro drop_splice) (auto simp: min.commute)
    moreover have "strlcpy dst (xs @ 0 # r) siz = Some (?cpy, length xs)" using cpy False by simp
    ultimately show ?thesis unfolding if_not_P [OF False] by blast
  qed (use cpy in simp)
next
  have src: "cstr (xs @ 0 # r) 0 xs" by (rule cstr_0 [OF assms(1)])
  note cat = strlcat_spec [OF src assms(2), folded held_def]
  show "\<exists>dst'. strlcat dst (xs @ 0 # r) siz = Some (dst', length (held dst siz) + length xs)
      \<and> length dst' = length dst \<and> drop siz dst' = drop siz dst
      \<and> (if 0 \<in> set (take siz dst) then cstr dst' 0 (take (siz - 1) (held dst siz @ xs))
         else dst' = dst \<and> length (held dst siz) = siz)"
  proof (cases "0 \<in> set (take siz dst)")
    case False
    then show ?thesis using cat held_whole [OF assms(2)] by simp
  next
    case True
    note h = held_part [OF True]
    let ?cat = "held dst siz @ take (siz - length (held dst siz) - 1) xs
      @ 0 # drop (Suc (length (held dst siz) + min (siz - length (held dst siz) - 1) (length xs))) dst"
    have "take (siz - 1) (held dst siz @ xs) = held dst siz @ take (siz - length (held dst siz) - 1) xs"
      using h(1) by simp
    then have "cstr ?cat 0 (take (siz - 1) (held dst siz @ xs))"
      using assms(1) h(2) by (auto simp: cstr_def dest: in_set_takeD)
    moreover have "length ?cat = length dst" using h(1) assms(2) by (auto simp: min_def)
    moreover have "drop siz ?cat = drop siz dst"
      unfolding append_assoc [symmetric] using h(1) by (intro drop_splice) (auto simp: min.commute)
    moreover have "strlcat dst (xs @ 0 # r) siz = Some (?cat, length (held dst siz) + length xs)"
      using cat h(1,3) by simp
    ultimately show ?thesis unfolding if_P [OF True] by blast
  qed
qed

theorem strl_correct_witness:
  "(\<exists>dst'. strlcpy [1, 0, 7, 7] ([2, 3, 4] @ 0 # []) 3 = Some (dst', length [2, 3, 4 :: u8])
      \<and> length dst' = length [1, 0, 7, 7 :: u8] \<and> drop 3 dst' = drop 3 [1, 0, 7, 7]
      \<and> (if (3 :: nat) = 0 then dst' = [1, 0, 7, 7] else cstr dst' 0 (take (3 - 1) [2, 3, 4])))
    \<and> (\<exists>dst'. strlcat [1, 0, 7, 7] ([2, 3, 4] @ 0 # []) 3 = Some (dst', length (held [1, 0, 7, 7] 3) + length [2, 3, 4 :: u8])
      \<and> length dst' = length [1, 0, 7, 7 :: u8] \<and> drop 3 dst' = drop 3 [1, 0, 7, 7]
      \<and> (if 0 \<in> set (take 3 [1, 0, 7, 7 :: u8]) then cstr dst' 0 (take (3 - 1) (held [1, 0, 7, 7] 3 @ [2, 3, 4]))
         else dst' = [1, 0, 7, 7] \<and> length (held [1, 0, 7, 7 :: u8] 3) = 3))"
  by (rule strl_correct) simp_all

text \<open>C28: what \<open>itoa\<close> writes for a number that is not negative is one to ten decimal digits and a NUL
  behind them, and \<open>atoi\<close> reads that number from it.\<close>

theorem atoi_itoa:
  assumes "n < 2 ^ 31"
  shows "\<exists>ds. itoa (int n) = ds @ [0] \<and> ds \<noteq> [] \<and> length ds \<le> 10 \<and> set ds \<subseteq> {0x30..0x39}
    \<and> atoi (itoa (int n)) = Some (int n)"
proof -
  let ?ds = "if n = 0 then [0] else rev (le_digits n)"
  have less: "\<forall>d \<in> set ?ds. d < 10" using le_digits_less [of n] by auto
  then have "atoi_loop (itoa (int n)) 0 0 = Some (foldl (\<lambda>a d. a * 10 + of_nat d) 0 ?ds, 0 + length ?ds)"
    by (intro atoi_loop_digits [where c = 0 and r = "[]"]) (simp_all add: itoa_nat)
  moreover have "foldl (\<lambda>a d. a * 10 + of_nat d) 0 ?ds = (of_nat n :: u32)"
    using digits_value [of n] by simp
  moreover have "sint (of_nat n :: u32) = int n"
  proof -
    have "take_bit 32 n = n" using assms by (intro take_bit_nat_eq_self) simp
    then have "sint (of_nat n :: u32) = signed_take_bit 31 (int n)" by (simp add: sint_uint unsigned_of_nat take_bit_of_nat)
    also have "\<dots> = int n" using assms by (intro signed_take_bit_int_eq_self) simp_all
    finally show ?thesis .
  qed
  ultimately have "atoi (itoa (int n)) = Some (int n)" by (simp add: atoi_def)
  moreover have "n < 10 ^ 10" using assms by simp
  from length_le_digits [OF this] have "length (map digit ?ds) \<le> 10" by simp
  moreover have "map digit ?ds \<noteq> []" using le_digits_not_Nil [of n] by simp
  moreover have "set (map digit ?ds) \<subseteq> {0x30..0x39}" using less digit_between by (simp only: set_map image_subset_iff) blast
  ultimately show ?thesis using itoa_nat [of n] by blast
qed

theorem atoi_itoa_witness:
  "\<exists>ds. itoa (int 2147483647) = ds @ [0] \<and> ds \<noteq> [] \<and> length ds \<le> 10 \<and> set ds \<subseteq> {0x30..0x39}
    \<and> atoi (itoa (int 2147483647)) = Some (int 2147483647)"
  by (rule atoi_itoa) simp

text \<open>\<open>itoa\<close> does not know negative numbers: it writes no sign, and each digit \<open>d\<close> comes out as the
  character \<open>d\<close> places in front of \<^verbatim>\<open>'0'\<close>.\<close>

theorem itoa_negative:
  assumes "0 < n"
  shows "itoa (- int n) = map (\<lambda>c. 0x60 - c) (butlast (itoa (int n))) @ [0]"
  using assms by (simp add: itoa_nat) (simp add: itoa_def itoa_digits_neg rev_map digit_def)

theorem itoa_negative_witness: "itoa (- int 5) = map (\<lambda>c. 0x60 - c) (butlast (itoa (int 5))) @ [0]"
  by (rule itoa_negative) simp

text \<open>\<open>strnlen\<close> returns the smaller of the length and the bound for a terminated string, but reads the
  byte behind a buffer of exactly \<open>n\<close> bytes that has no terminator.\<close>

theorem strnlen_reads:
  shows "(0 \<notin> set xs \<longrightarrow> strnlen (xs @ 0 # r) n = Some (min (length xs) n))
    \<and> (0 \<notin> set xs \<longrightarrow> length xs = n \<longrightarrow> strnlen xs n = None)"
  using strnlen_from_spec [OF cstr_0] strnlen_from_overread [of xs n 0] by (simp add: strnlen_def)

theorem strnlen_reads_witness:
  "strnlen ([1, 2, 3] @ 0 # []) 2 = Some (min (length [1, 2, 3 :: u8]) 2) \<and> strnlen [1, 2, 3] 3 = None"
  using strnlen_reads [of "[1, 2, 3]" "[]" 2] strnlen_reads [of "[1, 2, 3]" "[]" 3] by simp

end
