(* ===== verification/Sort_Callers.thy ===== *)
theory Sort_Callers
  imports Qsort Subrs
begin

text \<open>
  Callers of \<^verbatim>\<open>qsort\<close> with their comparison functions: the table of package extensions of
  \<^verbatim>\<open>vfs/vfs_subr.c\<close> and its users, the flush order of buffers (\<^verbatim>\<open>bp_cmp\<close> of \<^verbatim>\<open>vfs/vfs_bio.c\<close>), of journal
  blocks (\<^verbatim>\<open>journal_binfo_cmp\<close> of \<^verbatim>\<open>vfs/vfs_journal.c\<close>) and the event history of
  \<^verbatim>\<open>vfs/vfs_fsevents.c\<close>. Strings and the checked accesses to them are those of \<open>Subrs\<close>.
\<close>

section \<open>Comparison functions\<close>

text \<open>The string in a row of the table; for a row with a terminator its length is \<^verbatim>\<open>strlen\<close> of the row.\<close>

definition row_string :: "u8 list \<Rightarrow> u8 list" where
  "row_string row = takeWhile (\<lambda>c. c \<noteq> 0) row"

definition extension_cmp :: "u8 list \<Rightarrow> u8 list \<Rightarrow> int" where
  "extension_cmp a b = sint (of_nat (length (row_string a)) - of_nat (length (row_string b)) :: u32)"

text \<open>A buffer is its block number, an entry of the journal's table the block number of its buffer or a
  NULL pointer; the 64-bit difference is cut to an \<^verbatim>\<open>int\<close>.\<close>

definition bp_cmp :: "int \<Rightarrow> int \<Rightarrow> int" where
  "bp_cmp a b = sint (word_of_int (a - b) :: u32)"

definition journal_binfo_cmp :: "int option \<Rightarrow> int option \<Rightarrow> int" where
  "journal_binfo_cmp a b =
    (case a of None \<Rightarrow> 1 | Some x \<Rightarrow> (case b of None \<Rightarrow> -1 | Some y \<Rightarrow> sint (word_of_int (x - y) :: u32)))"

record history_item =
  kfse :: nat
  oldest_kfse :: nat
  counter :: int

definition compare_history_items :: "history_item \<Rightarrow> history_item \<Rightarrow> int" where
  "compare_history_items a b = sint (word_of_int (counter b - counter a) :: u32)"

section \<open>The table of package extensions\<close>

abbreviation "EINVAL \<equiv> 22 :: int"

text \<open>\<open>mem\<close> tells whether \<^verbatim>\<open>MALLOC\<close> succeeds (with \<^verbatim>\<open>M_WAITOK\<close> it does), \<open>copied\<close> is what \<^verbatim>\<open>copyin\<close>
  delivers: an error or the bytes of the user's table.\<close>

definition rows_of :: "nat \<Rightarrow> nat \<Rightarrow> u8 list \<Rightarrow> u8 list list" where
  "rows_of n w bytes = map (\<lambda>i. take w (drop (i * w) bytes)) [0..<n]"

definition set_package_extensions_table :: "(nat \<Rightarrow> int + u8 list) \<Rightarrow> int \<Rightarrow> int \<Rightarrow> int + u8 list list" where
  "set_package_extensions_table copied nentries maxwidth =
    (if nentries \<le> 0 \<or> nentries > 1024 \<or> maxwidth \<le> 0 \<or> maxwidth > 255 then Inl EINVAL
     else case copied (nat nentries * nat maxwidth) of
       Inl e \<Rightarrow> Inl e
     | Inr bytes \<Rightarrow> Inr (qsort extension_cmp (rows_of (nat nentries) (nat maxwidth) bytes)))"

text \<open>The offset of the last dot of a name, if it has one.\<close>

function last_dot :: "u8 list \<Rightarrow> nat \<Rightarrow> nat option \<Rightarrow> nat option option" where
  "last_dot name p d =
    do { c \<leftarrow> rd name p;
         if c \<noteq> 0 then last_dot name (Suc p) (if c = 0x2E then Some p else d) else Some d }"
  by pat_completeness auto
termination
  by (relation "measure (\<lambda>(name, p, d). length name - p)") (auto simp: rd_eq_Some_iff)

declare last_dot.simps [simp del]

definition extension_matches :: "u8 list \<Rightarrow> nat \<Rightarrow> u8 list \<Rightarrow> bool option" where
  "extension_matches name p row =
    do { extlen \<leftarrow> strlen row 0;
         v \<leftarrow> strncasecmp (drop p name) row extlen;
         if v = 0 then do { c \<leftarrow> rd name (p + extlen); Some (c = 0) } else Some False }"

fun any_matches :: "u8 list \<Rightarrow> nat \<Rightarrow> u8 list list \<Rightarrow> bool option" where
  "any_matches name p [] = Some False"
| "any_matches name p (row # rows) =
    do { b \<leftarrow> extension_matches name p row; if b then Some True else any_matches name p rows }"

definition is_package_name :: "u8 list list \<Rightarrow> u8 list \<Rightarrow> int \<Rightarrow> bool option" where
  "is_package_name extension_table name len =
    (if len \<le> 3 then Some False
     else do { d \<leftarrow> last_dot name 0 None;
               case d of None \<Rightarrow> Some False | Some p \<Rightarrow> any_matches name (Suc p) extension_table })"

section \<open>Packages in a path\<close>

function skip_slashes :: "u8 list \<Rightarrow> nat \<Rightarrow> nat \<Rightarrow> nat option" where
  "skip_slashes path lim p =
    (if p < lim then do { c \<leftarrow> rd path p; if c = 0x2F then skip_slashes path lim (Suc p) else Some p } else Some p)"
  by pat_completeness auto
termination
  by (relation "measure (\<lambda>(path, lim, p). lim - p)") auto

function component_end :: "u8 list \<Rightarrow> nat \<Rightarrow> nat \<Rightarrow> nat option" where
  "component_end path lim p =
    (if p < lim then do { c \<leftarrow> rd path p; if c \<noteq> 0x2F \<and> c \<noteq> 0 then component_end path lim (Suc p) else Some p }
     else Some p)"
  by pat_completeness auto
termination
  by (relation "measure (\<lambda>(path, lim, p). lim - p)") auto

declare skip_slashes.simps [simp del] component_end.simps [simp del]

lemma skip_slashes_ge: "skip_slashes path lim p = Some q \<Longrightarrow> p \<le> q"
proof (induction path lim p rule: skip_slashes.induct)
  case (1 path lim p)
  from 1(2) show ?case
    by (subst (asm) skip_slashes.simps) (auto simp: bind_eq_Some_conv split: if_splits dest: 1(1))
qed

lemma component_end_ge: "component_end path lim p = Some q \<Longrightarrow> p \<le> q"
proof (induction path lim p rule: component_end.induct)
  case (1 path lim p)
  from 1(2) show ?case
    by (subst (asm) component_end.simps) (auto simp: bind_eq_Some_conv split: if_splits dest: 1(1))
qed

text \<open>One component: \<open>None\<close> inside is the error return, otherwise the place of the terminator that was
  written, the path, and whether the component is a package. The loop returns the return value of
  \<open>vn_path_package_check\<close> and what it stores through \<^verbatim>\<open>component\<close>.\<close>

definition package_turn :: "u8 list list \<Rightarrow> u8 list \<Rightarrow> nat \<Rightarrow> nat \<Rightarrow> (nat \<times> u8 list \<times> bool) option option" where
  "package_turn table path lim fin =
    do { ptr \<leftarrow> skip_slashes path lim fin;
         fin \<leftarrow> component_end path lim ptr;
         if fin > lim then Some None
         else do { path \<leftarrow> wr path fin 0;
                   b \<leftarrow> is_package_name table (drop ptr path) (int fin - int ptr);
                   Some (Some (fin, path, b)) } }"

lemma package_turn_ge: "package_turn table path lim fin = Some (Some (e, path', b)) \<Longrightarrow> fin \<le> e"
  by (auto simp: package_turn_def bind_eq_Some_conv split: if_splits dest!: skip_slashes_ge component_end_ge)

function package_loop :: "u8 list list \<Rightarrow> u8 list \<Rightarrow> nat \<Rightarrow> nat \<Rightarrow> int \<Rightarrow> (int \<times> int) option" where
  "package_loop table path lim fin k =
    (if fin < lim then
       do { c \<leftarrow> rd path fin;
            if c = 0 then Some (0, -1)
            else case package_turn table path lim fin of
              None \<Rightarrow> None
            | Some None \<Rightarrow> Some (EINVAL, -1)
            | Some (Some (e, path, b)) \<Rightarrow> if b then Some (0, k) else package_loop table path lim (Suc e) (k + 1) }
     else Some (0, -1))"
  by pat_completeness auto
termination
  by (relation "measure (\<lambda>(table, path, lim, fin, k). lim - fin)") (auto dest!: package_turn_ge)

declare package_loop.simps [simp del]

definition vn_path_package_check :: "u8 list list \<Rightarrow> u8 list \<Rightarrow> nat \<Rightarrow> (int \<times> int) option" where
  "vn_path_package_check table path pathlen =
    do { c \<leftarrow> rd path 0;
         if c \<noteq> 0x2F then Some (EINVAL, -1) else package_loop table path pathlen 1 0 }"

section \<open>The comparison functions are orders\<close>

lemma sint_fits: "- (2 ^ 31) \<le> k \<Longrightarrow> k < 2 ^ 31 \<Longrightarrow> sint (word_of_int k :: u32) = k"
  by (simp add: signed_of_int signed_take_bit_int_eq_self)

lemma extension_cmp_eq:
  assumes "length x < 2 ^ 31" "length y < 2 ^ 31"
  shows "extension_cmp x y = int (length (row_string x)) - int (length (row_string y))"
proof -
  have "length (row_string z) \<le> length z" for z by (simp add: row_string_def length_takeWhile_le)
  then have "int (length (row_string x)) < 2 ^ 31" "int (length (row_string y)) < 2 ^ 31"
    using assms by (meson le_less_trans of_nat_less_numeral_power_cancel_iff)+
  then have "sint (word_of_int (int (length (row_string x)) - int (length (row_string y))) :: u32)
      = int (length (row_string x)) - int (length (row_string y))"
    by (intro sint_fits) linarith+
  then show ?thesis by (simp add: extension_cmp_def)
qed

lemma bp_cmp_eq: "0 \<le> a \<Longrightarrow> a < 2 ^ 31 \<Longrightarrow> 0 \<le> b \<Longrightarrow> b < 2 ^ 31 \<Longrightarrow> bp_cmp a b = a - b"
  unfolding bp_cmp_def by (rule sint_fits) linarith+

lemma journal_cmp_eq:
  "0 \<le> a \<Longrightarrow> a < 2 ^ 31 \<Longrightarrow> 0 \<le> b \<Longrightarrow> b < 2 ^ 31 \<Longrightarrow> journal_binfo_cmp (Some a) (Some b) = a - b"
  unfolding journal_binfo_cmp_def option.case by (rule sint_fits) linarith+

lemma history_cmp_eq:
  "0 \<le> counter a \<Longrightarrow> counter a < 2 ^ 31 \<Longrightarrow> 0 \<le> counter b \<Longrightarrow> counter b < 2 ^ 31 \<Longrightarrow>
    compare_history_items a b = counter b - counter a"
  unfolding compare_history_items_def by (rule sint_fits) linarith+

interpretation ext: sort_order extension_cmp "\<lambda>row. length row < 2 ^ 31"
  by unfold_locales (auto simp: extension_cmp_eq)

interpretation bufs: sort_order bp_cmp "\<lambda>b. 0 \<le> b \<and> b < 2 ^ 31"
  by unfold_locales (auto simp: bp_cmp_eq)

interpretation hist: sort_order compare_history_items "\<lambda>h. 0 \<le> counter h \<and> counter h < 2 ^ 31"
  by unfold_locales (auto simp: history_cmp_eq)

interpretation jnl: sort_order journal_binfo_cmp "\<lambda>e. \<exists>b. e = Some b \<and> 0 \<le> b \<and> b < 2 ^ 31"
  by unfold_locales (auto simp: journal_cmp_eq)

section \<open>Looking for an extension\<close>

lemma takeWhile_shorter: "x \<in> set xs \<Longrightarrow> \<not> P x \<Longrightarrow> length (takeWhile P xs) < length xs"
  by (induction xs) auto

lemma last_dot_spec:
  "cstr name p xs \<Longrightarrow> last_dot name p d =
    Some (if 0x2E \<in> set xs then Some (p + (length xs - Suc (length (takeWhile (\<lambda>c. c \<noteq> 0x2E) (rev xs))))) else d)"
proof (induction xs arbitrary: p d)
  case Nil
  then show ?case using cstr_Nil [OF Nil.prems] by (subst last_dot.simps) simp
next
  case (Cons x xs)
  note x = cstr_Cons [OF Cons.prems]
  show ?case
  proof (cases "0x2E \<in> set xs")
    case True
    then have "length (takeWhile (\<lambda>c. c \<noteq> 0x2E) (rev xs)) < length xs"
      using takeWhile_shorter [of "0x2E" "rev xs" "\<lambda>c. c \<noteq> 0x2E"] by simp
    moreover have "takeWhile (\<lambda>c. c \<noteq> 0x2E) (rev xs @ [x]) = takeWhile (\<lambda>c. c \<noteq> 0x2E) (rev xs)"
      using True by (intro takeWhile_append1) auto
    ultimately show ?thesis using Cons.IH [OF x(3)] x True by (subst last_dot.simps) simp
  next
    case False
    then have all: "takeWhile (\<lambda>c. c \<noteq> 0x2E) (rev xs @ ys) = rev xs @ takeWhile (\<lambda>c. c \<noteq> 0x2E) ys" for ys
      by (intro takeWhile_append2) auto
    have tail: "last_dot name p d = last_dot name (Suc p) (if x = 0x2E then Some p else d)"
      using x by (subst last_dot.simps) simp
    show ?thesis
    proof (cases "x = 0x2E")
      case True
      have "takeWhile (\<lambda>c. c \<noteq> 0x2E) (rev xs @ [0x2E]) = rev xs" using all [of "[0x2E]"] by simp
      then show ?thesis using True Cons.IH [OF x(3), of "Some p"] False tail by simp
    next
      case no_dot: False
      then show ?thesis using Cons.IH [OF x(3), of d] False tail by simp
    qed
  qed
qed

lemma row_cstr: "0 \<in> set row \<Longrightarrow> cstr row 0 (row_string row)"
proof -
  assume "0 \<in> set row"
  then obtain r where "row = row_string row @ 0 # r"
    by (metis (mono_tags, lifting) row_string_def takeWhile_dropWhile_id dropWhile_eq_Cons_conv dropWhile_eq_Nil_conv neq_Nil_conv)
  moreover have "0 \<notin> set (row_string row)" by (auto simp: row_string_def dest: set_takeWhileD)
  ultimately show ?thesis unfolding cstr_def drop_0 by blast
qed

lemma cstr_drop: "cstr mem p (xs @ ys) \<Longrightarrow> cstr mem (p + length xs) ys"
  by (auto simp: cstr_def) (metis add.commute append_eq_conv_conj drop_drop)

lemma tolower_eq_0: "tolower c = 0 \<longleftrightarrow> c = 0"
proof -
  have "uint (0x61 + (c - 0x41)) = uint c + 32" if "0x41 \<le> c" "c \<le> 0x5A"
    using that by (simp add: uint_word_ariths word_le_def)
  then show ?thesis by (auto simp: tolower_def word_le_def)
qed

lemma rd_cstr: "cstr mem p xs \<Longrightarrow> k \<le> length xs \<Longrightarrow> rd mem (p + k) = Some ((xs @ [0]) ! k)"
proof (induction xs arbitrary: p k)
  case Nil
  then show ?case by (simp add: cstr_Nil)
next
  case (Cons x xs)
  note x = cstr_Cons [OF Cons.prems(1)]
  show ?case using x(1) Cons.IH [OF x(3), of "k - 1"] Cons.prems(2) by (cases k) simp_all
qed

lemma extension_matches_spec:
  assumes "cstr name p xs" "0 \<in> set row"
  shows "extension_matches name p row = Some (map tolower xs = map tolower (row_string row))"
proof -
  let ?es = "row_string row"
  let ?n = "length ?es"
  have row: "cstr row 0 ?es" by (rule row_cstr [OF assms(2)])
  have nz: "0 \<notin> set xs" "0 \<notin> set ?es" using assms(1) row by (auto simp: cstr_def)
  have "cstr (drop p name) 0 xs" using assms(1) by (simp add: cstr_def)
  from strncasecmp_from_spec [OF this row, of ?n] obtain v where v: "strncasecmp (drop p name) row ?n = Some v"
    "v = 0 \<longleftrightarrow> map tolower (take ?n (xs @ [0])) = map tolower ?es"
    by (auto simp: strncasecmp_def)
  show ?thesis
  proof (cases "v = 0")
    case True
    then have eq: "map tolower (take ?n (xs @ [0])) = map tolower ?es" using v(2) by simp
    have "?n \<le> length xs"
    proof (rule ccontr)
      assume "\<not> ?n \<le> length xs"
      then have "map tolower (xs @ [0]) = map tolower ?es" using eq by simp
      then have "tolower 0 \<in> tolower ` set ?es" by (metis list.set_intros(1) in_set_conv_decomp set_map image_eqI)
      then show False using nz(2) tolower_eq_0 by (metis image_iff)
    qed
    moreover from this have "map tolower xs = map tolower ?es \<longleftrightarrow> length xs = ?n"
      using eq map_eq_imp_length_eq [of tolower xs tolower ?es] by auto
    moreover have "(xs @ [0]) ! ?n = 0 \<longleftrightarrow> length xs = ?n" if "?n \<le> length xs"
      using nz(1) that by (cases "length xs = ?n") (auto simp: nth_append in_set_conv_nth)
    ultimately show ?thesis
      using True v(1) strlen_cstr [OF row] rd_cstr [OF assms(1), of ?n] by (simp add: extension_matches_def)
  next
    case False
    then have "map tolower xs \<noteq> map tolower ?es"
      using v(2) map_eq_imp_length_eq [of tolower xs tolower ?es] by auto
    then show ?thesis using False v(1) strlen_cstr [OF row] by (simp add: extension_matches_def)
  qed
qed

lemma any_matches_spec:
  "cstr name p xs \<Longrightarrow> \<forall>row \<in> set rows. 0 \<in> set row \<Longrightarrow>
    any_matches name p rows = Some (\<exists>row \<in> set rows. map tolower xs = map tolower (row_string row))"
  by (induction rows) (simp_all add: extension_matches_spec)

lemma component_end_spec:
  "0 \<notin> set xs \<Longrightarrow> 0x2F \<notin> set xs \<Longrightarrow> component_end (pre @ xs) (length (pre @ xs)) (length pre) = Some (length (pre @ xs))"
proof (induction xs arbitrary: pre)
  case Nil
  then show ?case by (subst component_end.simps) simp
next
  case (Cons x xs)
  then show ?case using Cons.IH [of "pre @ [x]"] by (subst component_end.simps) (simp add: rd_def)
qed

section \<open>Properties\<close>

text \<open>The table of extensions. For a table of permitted size whose rows are terminated strings,
  \<open>set_package_extensions_table\<close> keeps exactly the rows of the user, ordered from the shortest string to
  the longest.\<close>

theorem extension_table_sorted:
  assumes "1 \<le> n" "n \<le> 1024" "1 \<le> w" "w \<le> 255" "copied (n * w) = Inr bytes"
  shows "\<exists>table. set_package_extensions_table copied (int n) (int w) = Inr table
    \<and> mset table = mset (rows_of n w bytes)
    \<and> sorted (map (\<lambda>row. length (row_string row)) table)"
proof -
  let ?rows = "rows_of n w bytes"
  have "length row \<le> w" if "row \<in> set ?rows" for row using that by (auto simp: rows_of_def)
  then have short: "\<forall>row \<in> set ?rows. length row < 2 ^ 31" using assms(4) by fastforce
  from ext.qsort_sorts [OF this]
  have "sorted_wrt (\<lambda>x y. extension_cmp x y \<le> 0) (qsort extension_cmp ?rows)" .
  then have "sorted_wrt (\<lambda>x y. length (row_string x) \<le> length (row_string y)) (qsort extension_cmp ?rows)"
  proof (rule sorted_wrt_mono_rel [rotated])
    fix x y assume xy: "x \<in> set (qsort extension_cmp ?rows)" "y \<in> set (qsort extension_cmp ?rows)"
      and le: "extension_cmp x y \<le> 0"
    have "set (qsort extension_cmp ?rows) = set ?rows" by (rule mset_eq_setD [OF mset_qsort])
    then have "length x < 2 ^ 31" "length y < 2 ^ 31" using bspec [OF short] xy by simp_all
    from le [unfolded extension_cmp_eq [OF this]] show "length (row_string x) \<le> length (row_string y)" by linarith
  qed
  then show ?thesis
    using assms by (simp add: set_package_extensions_table_def mset_qsort sorted_map)
qed

theorem extension_table_sorted_witness:
  "\<exists>table. set_package_extensions_table (\<lambda>k. Inr [0x61, 0x62, 0, 0x63, 0, 0]) (int 2) (int 3) = Inr table
    \<and> mset table = mset (rows_of 2 3 [0x61, 0x62, 0, 0x63, 0, 0])
    \<and> sorted (map (\<lambda>row. length (row_string row)) table)"
  by (rule extension_table_sorted) simp_all

text \<open>C33: \<open>is_package_name\<close> on a terminated name and a table whose rows are all terminated. When the
  length the caller passes is at most three the answer is no, whatever the name. For a greater length
  it is yes exactly when the name has a dot and the part behind the last one is one of the extensions of
  the table, but for the case of letters.\<close>

theorem is_package_name_correct:
  assumes "0 \<notin> set xs" "\<forall>row \<in> set table. 0 \<in> set row"
  shows "is_package_name table (xs @ 0 # r) len = Some (3 < len \<and> 0x2E \<in> set xs
    \<and> (\<exists>row \<in> set table. map tolower (rev (takeWhile (\<lambda>c. c \<noteq> 0x2E) (rev xs))) = map tolower (row_string row)))"
proof (cases "3 < len \<and> 0x2E \<in> set xs")
  case True
  let ?ext = "rev (takeWhile (\<lambda>c. c \<noteq> 0x2E) (rev xs))"
  define q where "q = length xs - length ?ext"
  have short: "length ?ext < length xs" using True takeWhile_shorter [of "0x2E" "rev xs" "\<lambda>c. c \<noteq> 0x2E"] by simp
  have xs: "xs = rev (dropWhile (\<lambda>c. c \<noteq> 0x2E) (rev xs)) @ ?ext"
  proof -
    have "rev (takeWhile (\<lambda>c. c \<noteq> 0x2E) (rev xs) @ dropWhile (\<lambda>c. c \<noteq> 0x2E) (rev xs)) = rev (rev xs)"
      by (simp only: takeWhile_dropWhile_id)
    then show ?thesis by (simp only: rev_append rev_rev_ident)
  qed
  have "length (rev (dropWhile (\<lambda>c. c \<noteq> 0x2E) (rev xs))) = q"
    using arg_cong [OF xs, of length] by (simp add: q_def)
  then have "cstr (xs @ 0 # r) (0 + q) ?ext"
    using cstr_drop [of "xs @ 0 # r" 0 "rev (dropWhile (\<lambda>c. c \<noteq> 0x2E) (rev xs))" ?ext] cstr_0 [OF assms(1), of r] xs
    by metis
  moreover have "last_dot (xs @ 0 # r) 0 None = Some (Some (q - 1))"
    using last_dot_spec [OF cstr_0 [OF assms(1)], of r None] True short by (simp add: q_def)
  moreover have "Suc (q - 1) = q" using short by (simp add: q_def)
  ultimately show ?thesis using True any_matches_spec [OF _ assms(2)] by (simp add: is_package_name_def)
next
  case False
  then show ?thesis using last_dot_spec [OF cstr_0 [OF assms(1)], of r None] by (auto simp: is_package_name_def)
qed

theorem is_package_name_correct_witness:
  "is_package_name [[0x61, 0x70, 0x70, 0]] ([0x78, 0x2E, 0x41, 0x50, 0x50] @ 0 # []) 5 = Some (3 < (5 :: int)
    \<and> 0x2E \<in> set [0x78, 0x2E, 0x41, 0x50, 0x50 :: u8]
    \<and> (\<exists>row \<in> set [[0x61, 0x70, 0x70, 0]]. map tolower (rev (takeWhile (\<lambda>c. c \<noteq> 0x2E) (rev [0x78, 0x2E, 0x41, 0x50, 0x50])))
        = map tolower (row_string row)))"
  by (rule is_package_name_correct) simp_all

text \<open>\<open>vn_path_package_check\<close> ends each component with a NUL before it looks at it, and its test for a
  path without terminator can never succeed: for a path of \<open>pathlen\<close> bytes that is a single component
  without terminator the NUL is written behind the path.\<close>

theorem package_check_overruns:
  assumes "0 \<notin> set xs" "0x2F \<notin> set xs" "xs \<noteq> []"
  shows "vn_path_package_check table (0x2F # xs) (length (0x2F # xs)) = None"
proof -
  define path where "path = 0x2F # xs"
  define lim where "lim = length path"
  obtain x ys where xs: "xs = x # ys" using assms(3) by (cases xs) auto
  have rd: "rd path 0 = Some 0x2F" "rd path 1 = Some x" "x \<noteq> 0" "x \<noteq> 0x2F" "1 < lim"
    using assms xs by (auto simp: rd_def path_def lim_def)
  have "component_end path lim 1 = Some lim"
    using component_end_spec [OF assms(1,2), of "[0x2F]"] by (simp add: path_def lim_def)
  moreover have "skip_slashes path lim 1 = Some 1" using rd by (subst skip_slashes.simps) simp
  ultimately have "package_turn table path lim 1 = None" by (simp add: package_turn_def wr_def lim_def)
  then have "package_loop table path lim 1 0 = None"
    using rd by (subst package_loop.simps) simp
  then show ?thesis using rd by (simp add: vn_path_package_check_def flip: path_def lim_def)
qed

theorem package_check_overruns_witness:
  "vn_path_package_check [] (0x2F # [0x61]) (length (0x2F # [0x61 :: u8])) = None"
  by (rule package_check_overruns) simp_all

text \<open>The flush order. \<open>bflushq\<close> writes the buffers in ascending order of their blocks when all block
  numbers are below \<open>2 ^ 31\<close>.\<close>

theorem flush_sorted:
  assumes "\<forall>b \<in> set bs. 0 \<le> b \<and> b < 2 ^ 31"
  shows "sorted (qsort bp_cmp bs) \<and> mset (qsort bp_cmp bs) = mset bs"
proof -
  have "sorted_wrt (\<lambda>x y. bp_cmp x y \<le> 0) (qsort bp_cmp bs)" by (rule bufs.qsort_sorts [OF assms])
  then have "sorted (qsort bp_cmp bs)"
  proof (rule sorted_wrt_mono_rel [rotated])
    fix x y assume xy: "x \<in> set (qsort bp_cmp bs)" "y \<in> set (qsort bp_cmp bs)" and le: "bp_cmp x y \<le> 0"
    have "set (qsort bp_cmp bs) = set bs" by (rule mset_eq_setD [OF mset_qsort])
    then have "0 \<le> x \<and> x < 2 ^ 31" "0 \<le> y \<and> y < 2 ^ 31" using bspec [OF assms] xy by simp_all
    then have "bp_cmp x y = x - y" by (intro bp_cmp_eq) simp_all
    then show "x \<le> y" using le by linarith
  qed
  then show ?thesis by (simp add: mset_qsort)
qed

theorem flush_sorted_witness: "sorted (qsort bp_cmp [7, 3, 5]) \<and> mset (qsort bp_cmp [7, 3, 5]) = mset [7, 3, 5]"
  by (rule flush_sorted) simp

text \<open>The 64-bit difference of two block numbers is cut to an \<^verbatim>\<open>int\<close>: buffers that lie further apart than
  that come out in the wrong order, or count as equal.\<close>

theorem flush_misordered:
  "qsort bp_cmp [0, 0x80000001] = [0x80000001, 0] \<and> bp_cmp 0 (2 ^ 32) = 0"
  by (simp add: qsort.simps insertion.simps bp_cmp_def swap_def numeral_2_eq_2)

end
