(* ===== verification/Utfconv.thy ===== *)
theory Utfconv
  imports Utf_Tables "HOL-Library.Monad_Syntax" "HOL-Library.Multiset"
begin

text \<open>
  The characters of file names (\<^verbatim>\<open>vfs/vfs_utfconv.c\<close>): the bitmaps that say which characters can be taken
  apart and which combine, the binary search in the tables, the decomposition and composition of
  characters with the arithmetic for Hangul syllables, the sort that brings a run of combining
  characters into canonical order, and the private characters that stand for those NTFS does not
  allow. An array access outside a table is \<open>None\<close>.
\<close>

section \<open>Bitmaps\<close>

text \<open>The bit of a character in the bitmap: the index by the high byte is 0 for a page without any, 255
  for a full page, and otherwise the number of the page.\<close>

definition in_bitmap :: "u8 list \<Rightarrow> u16 \<Rightarrow> bool option" where
  "in_bitmap bitmap character =
    do { v \<leftarrow> rd bitmap (unat (drop_bit 8 character AND 0xFF));
         if v = 0xFF then Some True
         else if v \<noteq> 0
         then do { b \<leftarrow> rd bitmap ((unat v - 1) * 32 + 256 + unat (character AND 0xFF) div 8);
                   Some (bit b (unat character mod 8)) }
         else Some False }"

definition unicode_combinable :: "u16 \<Rightarrow> bool option" where
  "unicode_combinable character = (if character < 0x0300 then Some False else in_bitmap CombiningBitmap character)"

definition unicode_decomposeable :: "u16 \<Rightarrow> bool option" where
  "unicode_decomposeable character = (if character < 0x00C0 then Some False else in_bitmap DecomposableBitmap character)"

definition get_combining_class :: "u16 \<Rightarrow> u8 option" where
  "get_combining_class character =
    do { v \<leftarrow> rd CombiningPropertyBitmap (unat (drop_bit 8 character));
         if v \<noteq> 0 then rd CombiningPropertyBitmap (unat v * 256 + unat character mod 256) else Some 0 }"

section \<open>Looking up a character\<close>

text \<open>The binary search both lookups consist of. The positions are integers: the upper one may be moved
  in front of the table.\<close>

function bsearch :: "('k::linorder \<times> 'v::zero) list \<Rightarrow> int \<Rightarrow> int \<Rightarrow> 'k \<Rightarrow> 'v" where
  "bsearch theTable p q character =
    (if p \<le> q
     then let d = p + (q - p) div 2
          in if character < fst (theTable ! nat d) then bsearch theTable p (d - 1) character
             else if character > fst (theTable ! nat d) then bsearch theTable (d + 1) q character
             else snd (theTable ! nat d)
     else 0)"
  by pat_completeness auto
termination
  by (relation "measure (\<lambda>(t, p, q, c). nat (q - p + 1))") auto

declare bsearch.simps [simp del]

definition getmappedvalue32 :: "(u32 \<times> u32) list \<Rightarrow> nat \<Rightarrow> u16 \<Rightarrow> u32" where
  "getmappedvalue32 theTable numElem character =
    (if ucast character < fst (theTable ! 0) \<or> ucast character > fst (theTable ! (numElem - 1)) then 0
     else bsearch theTable 0 (int numElem - 1) (ucast character))"

definition getmappedvalue16 :: "(u16 \<times> u16) list \<Rightarrow> nat \<Rightarrow> u16 \<Rightarrow> u16" where
  "getmappedvalue16 theTable numElem character =
    (if character < fst (theTable ! 0) \<or> character > fst (theTable ! (numElem - 1)) then 0
     else bsearch theTable 0 (int numElem - 1) character)"

section \<open>Taking characters apart\<close>

definition EXTRACT_COUNT :: "u16 \<Rightarrow> nat" where
  "EXTRACT_COUNT val = unat (drop_bit 12 val AND 7)"

text \<open>The value of a character names its parts in the table of sequences, or its only part itself; the top
  bit says that the first part is to be taken apart in turn. A count of 0 under that bit would
  wrap around when the first part is deducted.\<close>

partial_function (option) unicode_recursive_decompose :: "u16 \<Rightarrow> u16 list option" where
  "unicode_recursive_decompose character =
    (let val = getmappedvalue16 DecompositionTable (length DecompositionTable) character;
         n = EXTRACT_COUNT val;
         firstChar = val AND 0x0FFF;
         mappings = (if n = 1 then [firstChar] else drop (unat firstChar) MultipleDecompositionTable)
     in if val AND 0x8000 \<noteq> 0
        then do { first \<leftarrow> rd mappings 0;
                  used \<leftarrow> unicode_recursive_decompose first;
                  if used = [] then Some []
                  else if n = 0 \<or> length mappings < n then None
                  else Some (used @ take (n - 1) (tl mappings)) }
        else if length mappings < n then None
        else Some (take n mappings))"

declare unicode_recursive_decompose.simps [code]

definition HANGUL_SBASE :: u16 where "HANGUL_SBASE = 0xAC00"
definition HANGUL_LBASE :: u16 where "HANGUL_LBASE = 0x1100"
definition HANGUL_VBASE :: u16 where "HANGUL_VBASE = 0x1161"
definition HANGUL_TBASE :: u16 where "HANGUL_TBASE = 0x11A7"
definition HANGUL_SCOUNT :: u16 where "HANGUL_SCOUNT = 11172"
definition HANGUL_LCOUNT :: u16 where "HANGUL_LCOUNT = 19"
definition HANGUL_VCOUNT :: u16 where "HANGUL_VCOUNT = 21"
definition HANGUL_TCOUNT :: u16 where "HANGUL_TCOUNT = 28"
definition HANGUL_NCOUNT :: u16 where "HANGUL_NCOUNT = HANGUL_VCOUNT * HANGUL_TCOUNT"

lemmas hangul_defs = HANGUL_SBASE_def HANGUL_LBASE_def HANGUL_VBASE_def HANGUL_TBASE_def HANGUL_SCOUNT_def
  HANGUL_LCOUNT_def HANGUL_VCOUNT_def HANGUL_TCOUNT_def HANGUL_NCOUNT_def

definition unicode_decompose :: "u16 \<Rightarrow> u16 list option" where
  "unicode_decompose character =
    (if HANGUL_SBASE \<le> character \<and> character \<le> HANGUL_SBASE + HANGUL_SCOUNT
     then let c = character - HANGUL_SBASE
          in Some ([c div HANGUL_NCOUNT + HANGUL_LBASE, (c mod HANGUL_NCOUNT) div HANGUL_TCOUNT + HANGUL_VBASE] @
                   (if c mod HANGUL_TCOUNT \<noteq> 0 then [c mod HANGUL_TCOUNT + HANGUL_TBASE] else []))
     else unicode_recursive_decompose character)"

section \<open>Putting characters together\<close>

definition unicode_combine :: "u16 \<Rightarrow> u16 \<Rightarrow> u16" where
  "unicode_combine base combining =
    (if HANGUL_VBASE \<le> combining \<and> combining < HANGUL_TBASE + HANGUL_TCOUNT
        \<and> combining < HANGUL_VBASE + HANGUL_VCOUNT
        \<and> HANGUL_LBASE \<le> base \<and> base < HANGUL_LBASE + HANGUL_LCOUNT
     then HANGUL_SBASE + (base - HANGUL_LBASE) * (HANGUL_VCOUNT * HANGUL_TCOUNT)
            + (combining - HANGUL_VBASE) * HANGUL_TCOUNT
     else if HANGUL_VBASE \<le> combining \<and> combining < HANGUL_TBASE + HANGUL_TCOUNT
        \<and> combining > HANGUL_TBASE
        \<and> HANGUL_SBASE \<le> base \<and> base < HANGUL_SBASE + HANGUL_SCOUNT
     then (if (base - HANGUL_SBASE) mod HANGUL_TCOUNT \<noteq> 0 then 0 else base + (combining - HANGUL_TBASE))
     else let v = getmappedvalue32 PrecompSourceTable (length PrecompSourceTable) combining
          in if v \<noteq> 0
             then getmappedvalue16 (drop (unat (v AND 0xFFFF)) BMPPrecompDestinationTable) (unat (drop_bit 16 v)) base
             else 0)"

section \<open>The canonical order of combining characters\<close>

text \<open>One pass over a run. The class of the character at \<open>ch1\<close> is remembered, not looked up: after two
  characters were exchanged it is the class of the one that has gone in front.\<close>

fun sort_pass :: "(u16 \<Rightarrow> u8) \<Rightarrow> u8 \<Rightarrow> u16 list \<Rightarrow> u16 list \<times> bool" where
  "sort_pass cls p2 (ch1 # ch2 # rest) =
    (let p1 = p2; p2 = cls ch2
     in if p1 > p2 then let (ys, changes) = sort_pass cls p2 (ch1 # rest) in (ch2 # ys, True)
        else let (ys, changes) = sort_pass cls p2 (ch2 # rest) in (ch1 # ys, changes))"
| "sort_pass cls p2 xs = (xs, False)"

text \<open>The pairs of a run that stand in the wrong order.\<close>

primrec inversions :: "(u16 \<Rightarrow> u8) \<Rightarrow> u16 list \<Rightarrow> nat" where
  "inversions cls [] = 0"
| "inversions cls (x # xs) = length (filter (\<lambda>y. cls y < cls x) xs) + inversions cls xs"

lemma mset_sort_pass: "mset (fst (sort_pass cls p xs)) = mset xs"
  by (induction cls p xs rule: sort_pass.induct) (auto simp: Let_def case_prod_beta)

lemma sort_pass_filter_length:
  "length (filter P (fst (sort_pass cls p xs))) = length (filter P xs)"
  by (metis mset_sort_pass mset_filter size_mset)

lemma sort_pass_inversions:
  "(xs \<noteq> [] \<Longrightarrow> p \<le> cls (hd xs)) \<Longrightarrow>
    inversions cls (fst (sort_pass cls p xs)) + (if snd (sort_pass cls p xs) then 1 else 0) \<le> inversions cls xs"
proof (induction cls p xs rule: sort_pass.induct)
  case (1 cls p a b r)
  have flt: "length (filter (\<lambda>y. cls y < k) (fst (sort_pass cls q ys))) = length (filter (\<lambda>y. cls y < k) ys)" for k q ys
    by (rule sort_pass_filter_length)
  show ?case
  proof (cases "p > cls b")
    case True
    then have ab: "cls b < cls a" using 1(3) by simp
    then have IH: "inversions cls (fst (sort_pass cls (cls b) (a # r))) \<le> inversions cls (a # r)"
      using 1(1)[OF refl refl True] less_imp_le [OF ab] by (simp del: inversions.simps split: if_splits)
    have "\<not> cls a < cls b" using ab by simp
    then show ?thesis using True ab IH flt [of "cls b" "cls b" "a # r"] by (simp add: Let_def case_prod_beta)
  next
    case False
    then have IH: "inversions cls (fst (sort_pass cls (cls b) (b # r))) + (if snd (sort_pass cls (cls b) (b # r)) then 1 else 0)
        \<le> inversions cls (b # r)"
      using 1(2)[OF refl refl False] by simp
    show ?thesis using False IH flt [of "cls a" "cls b" "b # r"] by (simp add: Let_def case_prod_beta)
  qed
qed simp_all

function sort_loop :: "(u16 \<Rightarrow> u8) \<Rightarrow> u16 list \<Rightarrow> u16 list" where
  "sort_loop cls xs =
    (case xs of [] \<Rightarrow> []
     | x # _ \<Rightarrow> let (ys, changes) = sort_pass cls (cls x) xs in if changes then sort_loop cls ys else ys)"
  by pat_completeness auto
termination
proof (relation "measure (\<lambda>(cls, xs). inversions cls xs)")
  fix cls xs x r z ys changes
  assume "xs = x # r" "z = sort_pass cls (cls x) xs" "(ys, changes) = z" changes
  then show "((cls, ys), cls, xs) \<in> measure (\<lambda>(cls, xs). inversions cls xs)"
    using sort_pass_inversions [of xs "cls x" cls] by (cases "sort_pass cls (cls x) xs") auto
qed simp

declare sort_loop.simps [simp del]

text \<open>The sort reads the class of every character of the run.\<close>

definition priortysort :: "u16 list \<Rightarrow> u16 list option" where
  "priortysort characters =
    (if list_all (\<lambda>c. get_combining_class c \<noteq> None) characters
     then Some (sort_loop (\<lambda>c. the (get_combining_class c)) characters) else None)"

section \<open>Characters NTFS does not allow\<close>

definition sfm2mac :: "u8 list" where
  "sfm2mac =
    [0x00, 0x01, 0x02, 0x03, 0x04, 0x05, 0x06, 0x07,
     0x08, 0x09, 0x0a, 0x0b, 0x0c, 0x0d, 0x0e, 0x0f,
     0x10, 0x11, 0x12, 0x13, 0x14, 0x15, 0x16, 0x17,
     0x18, 0x19, 0x1a, 0x1b, 0x1c, 0x1d, 0x1e, 0x1f,
     0x22, 0x2a, 0x3a, 0x3c, 0x3e, 0x3f, 0x5c, 0x7c,
     0x20, 0x2e]"

text \<open>The array is declared with 112 places; those behind the initialiser are 0.\<close>

definition mac2sfm :: "u8 list" where
  "mac2sfm =
    [0x20, 0x21, 0x20, 0x23, 0x24, 0x25, 0x26, 0x27,
     0x28, 0x29, 0x21, 0x2b, 0x2c, 0x2d, 0x2e, 0x22,
     0x30, 0x31, 0x32, 0x33, 0x34, 0x35, 0x36, 0x37,
     0x38, 0x39, 0x22, 0x3b, 0x23, 0x3d, 0x24, 0x25,
     0x40, 0x41, 0x42, 0x43, 0x44, 0x45, 0x46, 0x47,
     0x48, 0x49, 0x4a, 0x4b, 0x4c, 0x4d, 0x4e, 0x4f,
     0x50, 0x51, 0x52, 0x53, 0x54, 0x55, 0x56, 0x57,
     0x58, 0x59, 0x5a, 0x5b, 0x26, 0x5d, 0x5e, 0x5f,
     0x60, 0x61, 0x62, 0x63, 0x64, 0x65, 0x66, 0x67,
     0x68, 0x69, 0x6a, 0x6b, 0x6c, 0x6d, 0x6e, 0x6f,
     0x70, 0x71, 0x72, 0x73, 0x74, 0x75, 0x76, 0x77,
     0x78, 0x79, 0x7a, 0x7b, 0x27, 0x7d, 0x7e, 0x7f] @ replicate 16 0"

definition ucs_to_sfm :: "u16 \<Rightarrow> bool \<Rightarrow> u16 option" where
  "ucs_to_sfm ucs_ch lastchar =
    (if lastchar \<and> ucs_ch = 0x20 then Some 0xF028
     else if lastchar \<and> ucs_ch = 0x2E then Some 0xF029
     else if ucs_ch \<le> 0x1F then Some (ucs_ch OR 0xF000)
     else do { lsb \<leftarrow> rd mac2sfm (unat (ucs_ch - 0x20));
               Some (if ucast lsb \<noteq> ucs_ch then 0xF000 OR ucast lsb else ucs_ch) })"

definition sfm_to_ucs :: "u16 \<Rightarrow> u16 option" where
  "sfm_to_ucs ucs_ch =
    (if ucs_ch AND 0xFFC0 = 0xF000 \<and> ucs_ch AND 0x3F \<le> 0x29
     then map_option ucast (rd sfm2mac (unat (ucs_ch AND 0x3F)))
     else Some ucs_ch)"

section \<open>Reference definitions\<close>

text \<open>The value of a key in a sorted table.\<close>

definition lookup_or_0 :: "('k \<times> 'v::zero) list \<Rightarrow> 'k \<Rightarrow> 'v" where
  "lookup_or_0 t k = (case map_of t k of Some v \<Rightarrow> v | None \<Rightarrow> 0)"

text \<open>The checks above without their bounds.\<close>

definition combinable :: "u16 \<Rightarrow> bool" where
  "combinable c \<longleftrightarrow> unicode_combinable c = Some True"

definition decomposeable :: "u16 \<Rightarrow> bool" where
  "decomposeable c \<longleftrightarrow> unicode_decomposeable c = Some True"

definition combining_class :: "u16 \<Rightarrow> u8" where
  "combining_class c = the (get_combining_class c)"

section \<open>Accesses to the tables stay inside\<close>

lemma unat_shift_page: "unat (drop_bit 8 (c :: u16)) < 256"
proof -
  have "unat c < 2 ^ 16" using unsigned_less [where 'b = 16 and 'a = nat, of c] by simp
  then show ?thesis by (simp only: unat_drop_bit_eq) (simp add: drop_bit_eq_div less_mult_imp_div_less)
qed

lemma unat_and_FF: "unat (c AND 0xFF :: u16) = unat c mod 256"
proof -
  have "(0xFF :: nat) = mask 8" by (simp add: mask_eq_exp_minus_1)
  then have "unat c AND 0xFF = unat c mod 256" by (simp only: flip: take_bit_eq_mask) (simp add: take_bit_eq_mod)
  then show ?thesis by (simp add: unsigned_and_eq)
qed

lemma page_index: "unat (drop_bit 8 (c :: u16) AND 0xFF) = unat (drop_bit 8 c)"
  using unat_shift_page [of c] by (simp add: unat_and_FF)

lemma in_bitmap_defined:
  assumes "length bitmap = 256 + 32 * m" "m < 255" "list_all (\<lambda>v. v = 0xFF \<or> unat v \<le> m) (take 256 bitmap)"
  shows "\<exists>b. in_bitmap bitmap c = Some b"
proof -
  define k where "k = unat (drop_bit 8 c)"
  have k: "k < 256" by (simp add: k_def unat_shift_page)
  then have v: "bitmap ! k = 0xFF \<or> unat (bitmap ! k) \<le> m"
    using assms(1,3) by (auto simp: list_all_length)
  have "unat c mod 256 div 8 < 32" by (simp add: less_mult_imp_div_less)
  then have "(unat (bitmap ! k) - 1) * 32 + 256 + unat c mod 256 div 8 < length bitmap"
    if "bitmap ! k \<noteq> 0xFF" "bitmap ! k \<noteq> 0"
  proof -
    have "0 < unat (bitmap ! k)" "unat (bitmap ! k) \<le> m" using v that by (simp_all add: unat_gt_0)
    then have "(unat (bitmap ! k) - 1) * 32 + 32 \<le> 32 * m" by simp
    with \<open>unat c mod 256 div 8 < 32\<close> show ?thesis using assms(1) by linarith
  qed
  then show ?thesis using k assms(1) by (auto simp: in_bitmap_def page_index unat_and_FF simp flip: k_def)
qed

lemma decomposeable_defined: "\<exists>b. unicode_decomposeable c = Some b"
proof -
  have "list_all (\<lambda>v. v = 0xFF \<or> unat v \<le> 18) (take 256 DecomposableBitmap)"
    by (simp add: DecomposableBitmap_def DecomposablePages_def)
  from in_bitmap_defined [OF _ _ this, of c] show ?thesis by (auto simp: unicode_decomposeable_def)
qed

lemma combinable_defined: "\<exists>b. unicode_combinable c = Some b"
proof -
  have "list_all (\<lambda>v. v = 0xFF \<or> unat v \<le> 20) (take 256 CombiningBitmap)"
    by (simp add: CombiningBitmap_def CombiningPages_def)
  from in_bitmap_defined [OF _ _ this, of c] show ?thesis by (auto simp: unicode_combinable_def)
qed

lemma unicode_combinable_eq [simp]: "unicode_combinable c = Some (combinable c)"
  using combinable_defined [of c] by (auto simp: combinable_def)

lemma unicode_decomposeable_eq [simp]: "unicode_decomposeable c = Some (decomposeable c)"
  using decomposeable_defined [of c] by (auto simp: decomposeable_def)

lemma length_CombiningPropertyBitmap [simp]: "length CombiningPropertyBitmap = 5376"
  by (simp add: CombiningPropertyBitmap_def CombiningProperty0_def CombiningProperty1_def CombiningProperty2_def
      CombiningProperty3_def CombiningProperty4_def CombiningProperty5_def CombiningProperty6_def CombiningProperty7_def
      CombiningProperty8_def CombiningProperty9_def CombiningProperty10_def CombiningProperty11_def CombiningProperty12_def
      CombiningProperty13_def CombiningProperty14_def CombiningProperty15_def CombiningProperty16_def CombiningProperty17_def
      CombiningProperty18_def CombiningProperty19_def CombiningProperty20_def)

lemma combining_class_eq: "get_combining_class c = Some (combining_class c)"
proof -
  define k where "k = unat (drop_bit 8 c)"
  have k: "k < 256" by (simp add: k_def unat_shift_page)
  have len: "length CombiningProperty0 = 256" by (simp add: CombiningProperty0_def)
  have "CombiningPropertyBitmap ! k = CombiningProperty0 ! k"
    using k len by (simp add: CombiningPropertyBitmap_def nth_append)
  moreover have "list_all (\<lambda>v. unat v \<le> 20) CombiningProperty0" by (simp add: CombiningProperty0_def)
  ultimately have "unat (CombiningPropertyBitmap ! k) \<le> 20" using k len by (simp add: list_all_length)
  then have "unat (CombiningPropertyBitmap ! k) * 256 + unat c mod 256 < 5376"
    using mod_less_divisor [of 256 "unat c"] by linarith
  then have "\<exists>v. get_combining_class c = Some v" using k by (simp add: get_combining_class_def flip: k_def)
  then show ?thesis by (auto simp: combining_class_def)
qed
declare combining_class_eq [simp]

lemma priortysort_eq: "priortysort cs = Some (sort_loop combining_class cs)"
  by (simp add: priortysort_def list_all_iff)

section \<open>The sort\<close>

lemma sort_pass_filter:
  "(xs \<noteq> [] \<Longrightarrow> p \<le> cls (hd xs)) \<Longrightarrow>
    filter (\<lambda>x. cls x = k) (fst (sort_pass cls p xs)) = filter (\<lambda>x. cls x = k) xs"
proof (induction cls p xs rule: sort_pass.induct)
  case (1 cls p a b r)
  show ?case
  proof (cases "p > cls b")
    case True
    then have "cls b < cls a" using 1(3) by simp
    then show ?thesis using True 1(1)[OF refl refl True] by (auto simp: Let_def case_prod_beta)
  next
    case False
    then show ?thesis using 1(2)[OF refl refl False] by (auto simp: Let_def case_prod_beta)
  qed
qed simp_all

lemma sort_pass_unchanged:
  "(xs \<noteq> [] \<Longrightarrow> p = cls (hd xs)) \<Longrightarrow> \<not> snd (sort_pass cls p xs) \<Longrightarrow>
    sorted (map cls xs) \<and> fst (sort_pass cls p xs) = xs"
proof (induction cls p xs rule: sort_pass.induct)
  case (1 cls p a b r)
  then have up: "\<not> p > cls b" by (auto simp: Let_def case_prod_beta)
  then show ?case using 1(2)[OF refl refl up] 1(3,4) by (auto simp: Let_def case_prod_beta)
qed simp_all

lemma sort_loop_facts:
  "sorted (map cls (sort_loop cls xs)) \<and> mset (sort_loop cls xs) = mset xs
    \<and> filter (\<lambda>x. cls x = k) (sort_loop cls xs) = filter (\<lambda>x. cls x = k) xs"
proof (induction cls xs rule: sort_loop.induct)
  case (1 cls xs)
  show ?case
  proof (cases xs)
    case Nil
    then show ?thesis by (simp add: sort_loop.simps)
  next
    case (Cons x r)
    define ys where "ys = fst (sort_pass cls (cls x) xs)"
    have ys: "mset ys = mset xs" "filter (\<lambda>x. cls x = k) ys = filter (\<lambda>x. cls x = k) xs"
      unfolding ys_def by (rule mset_sort_pass) (rule sort_pass_filter, simp add: Cons)
    show ?thesis
    proof (cases "snd (sort_pass cls (cls x) xs)")
      case True
      then have eq: "sort_loop cls xs = sort_loop cls ys"
        by (subst sort_loop.simps) (simp add: Cons ys_def case_prod_beta)
      have pair: "(ys, True) = sort_pass cls (cls x) xs" using True by (simp add: ys_def prod_eq_iff)
      show ?thesis using "1.IH" [OF Cons refl pair] ys by (simp add: eq)
    next
      case False
      then have eq: "sort_loop cls xs = ys" by (subst sort_loop.simps) (simp add: Cons ys_def case_prod_beta)
      have "sorted (map cls xs) \<and> ys = xs" unfolding ys_def by (rule sort_pass_unchanged) (simp_all add: Cons False [unfolded Cons])
      then show ?thesis by (simp add: eq)
    qed
  qed
qed

text \<open>The sort is the stable sort by class.\<close>

lemma sort_loop_stable: "sort_loop cls xs = sort_key cls xs"
proof (rule properties_for_sort_key [symmetric])
  fix k
  have "(\<lambda>x. cls k = cls x) = (\<lambda>x. cls x = cls k)" by auto
  then show "filter (\<lambda>x. cls k = cls x) (sort_loop cls xs) = filter (\<lambda>x. cls k = cls x) xs"
    by (simp only: sort_loop_facts)
qed (simp_all only: sort_loop_facts)

end
