(* ===== verification/Utf_Lookup.thy ===== *)
theory Utf_Lookup
  imports Utfconv "HOL-Library.Sublist"
begin

text \<open>
  What the tables of \<^verbatim>\<open>vfs/vfs_utfconvdata.h\<close> have to satisfy and do: they are sorted, so that the binary
  search finds a character if it is there; the sequences of the decompositions lie inside their
  table and take at most four places; and each character of the bitmap has one.
\<close>

section \<open>Binary search\<close>

lemma lookup_or_0_absent: "c \<notin> set (map fst t) \<Longrightarrow> lookup_or_0 t c = 0"
  by (simp add: lookup_or_0_def map_of_eq_None_iff [THEN iffD2])

lemma lookup_or_0_present: "distinct (map fst t) \<Longrightarrow> (c, v) \<in> set t \<Longrightarrow> lookup_or_0 t c = v"
  by (simp add: lookup_or_0_def)

lemma bsearch_correct:
  assumes srt: "sorted_wrt (<) (map fst (take n t))" and len: "n \<le> length t"
  shows "0 \<le> p \<Longrightarrow> q < int n \<Longrightarrow> \<forall>i < n. fst (t ! i) = c \<longrightarrow> p \<le> int i \<and> int i \<le> q \<Longrightarrow>
    bsearch t p q c = lookup_or_0 (take n t) c"
proof (induction "nat (q - p + 1)" arbitrary: p q rule: less_induct)
  case less
  have mono: "fst (t ! i) < fst (t ! j)" if "i < j" "j < n" for i j
    using sorted_wrt_nth_less [OF srt, of i j] that len by simp
  show ?case
  proof (cases "p \<le> q")
    case False
    have "c \<notin> set (map fst (take n t))"
    proof
      assume "c \<in> set (map fst (take n t))"
      then obtain i where "i < n" "fst (t ! i) = c" using len by (auto simp: in_set_conv_nth)
      then have "p \<le> int i \<and> int i \<le> q" using less.prems(3) by blast
      then show False using False by linarith
    qed
    then have "lookup_or_0 (take n t) c = 0" by (rule lookup_or_0_absent)
    moreover have "bsearch t p q c = 0" using False by (subst bsearch.simps) simp
    ultimately show ?thesis by (simp only:)
  next
    case True
    define d where "d = p + (q - p) div 2"
    have d: "p \<le> d" "d \<le> q" "nat d < n" "0 \<le> d" using True less.prems(1,2) by (auto simp: d_def)
    have *: "int i \<noteq> d" if "fst (t ! i) \<noteq> fst (t ! nat d)" for i using that d(4) by auto
    consider "c < fst (t ! nat d)" | "fst (t ! nat d) < c" | "fst (t ! nat d) = c" by (rule linorder_cases)
    then show ?thesis
    proof cases
      case 1
      have "bsearch t p (d - 1) c = lookup_or_0 (take n t) c"
      proof (rule less.hyps)
        show "\<forall>i < n. fst (t ! i) = c \<longrightarrow> p \<le> int i \<and> int i \<le> d - 1"
        proof (intro allI impI)
          fix i assume i: "i < n" "fst (t ! i) = c"
          then have "\<not> nat d \<le> i" using mono [of "nat d" i] 1 by (metis le_neq_implies_less less_imp_not_less)
          then show "p \<le> int i \<and> int i \<le> d - 1" using less.prems(3) i d by auto
        qed
      qed (use True d less.prems in auto)
      then show ?thesis using True 1 by (subst bsearch.simps) (simp add: Let_def flip: d_def)
    next
      case 2
      have "bsearch t (d + 1) q c = lookup_or_0 (take n t) c"
      proof (rule less.hyps)
        show "\<forall>i < n. fst (t ! i) = c \<longrightarrow> d + 1 \<le> int i \<and> int i \<le> q"
        proof (intro allI impI)
          fix i assume i: "i < n" "fst (t ! i) = c"
          then have "\<not> i \<le> nat d" using mono [of i "nat d"] 2 d(3) by (metis le_neq_implies_less less_imp_not_less)
          then show "d + 1 \<le> int i \<and> int i \<le> q" using less.prems(3) i d by auto
        qed
      qed (use True d less.prems in auto)
      then show ?thesis using True 2 less_imp_not_less [OF 2] by (subst bsearch.simps) (simp add: Let_def flip: d_def)
    next
      case 3
      have dist: "distinct (map fst (take n t))" using srt by (simp add: strict_sorted_iff)
      have "(c, snd (t ! nat d)) \<in> set (take n t)"
        using d(3) len 3 by (auto simp: in_set_conv_nth intro!: exI [of _ "nat d"])
      then have "lookup_or_0 (take n t) c = snd (t ! nat d)" by (rule lookup_or_0_present [OF dist])
      moreover have "bsearch t p q c = snd (t ! nat d)"
        using True 3 by (subst bsearch.simps) (simp add: Let_def flip: d_def)
      ultimately show ?thesis by (simp only:)
    qed
  qed
qed

lemma getmapped_bounds:
  fixes t :: "('k::linorder \<times> 'v::zero) list"
  assumes srt: "sorted_wrt (<) (map fst (take n t))" and n: "0 < n" "n \<le> length t"
    and out: "c < fst (t ! 0) \<or> c > fst (t ! (n - 1))"
  shows "lookup_or_0 (take n t) c = 0"
proof -
  have mono: "fst (t ! i) \<le> fst (t ! j)" if "i \<le> j" "j < n" for i j
  proof (cases "i = j")
    case False
    then show ?thesis using sorted_wrt_nth_less [OF srt, of i j] that n by (intro less_imp_le) simp
  qed simp
  have "c \<notin> set (map fst (take n t))"
  proof
    assume "c \<in> set (map fst (take n t))"
    then obtain i where "i < n" "fst (t ! i) = c" using n(2) by (auto simp: in_set_conv_nth)
    then have "fst (t ! 0) \<le> c" "c \<le> fst (t ! (n - 1))" using mono [of 0 i] mono [of i "n - 1"] by auto
    then show False using out by auto
  qed
  then show ?thesis by (rule lookup_or_0_absent)
qed

lemma getmappedvalue16_lookup:
  assumes "sorted_wrt (<) (map fst (take n t))" "0 < n" "n \<le> length t"
  shows "getmappedvalue16 t n c = lookup_or_0 (take n t) c"
  using assms bsearch_correct [of n t 0 "int n - 1" c] getmapped_bounds [OF assms, of c]
  by (auto simp: getmappedvalue16_def)

lemma getmappedvalue32_lookup:
  assumes "sorted_wrt (<) (map fst (take n t))" "0 < n" "n \<le> length t"
  shows "getmappedvalue32 t n c = lookup_or_0 (take n t) (ucast c)"
  using assms bsearch_correct [of n t 0 "int n - 1" "ucast c"] getmapped_bounds [OF assms, of "ucast c"]
  by (auto simp: getmappedvalue32_def)

section \<open>The table of decompositions\<close>

lemma successively_less_sorted: "successively (<) (xs :: 'a::linorder list) \<Longrightarrow> sorted_wrt (<) xs"
  by (simp add: successively_conv_sorted_wrt)

lemma decomposition_table_ascends:
  "successively (<) (map fst DecompositionTable1)"
  "successively (<) (map fst DecompositionTable2)"
  "successively (<) (map fst DecompositionTable3)"
  "successively (<) (map fst DecompositionTable4)"
  "successively (<) (map fst DecompositionTable5)"
  "successively (<) (map fst DecompositionTable6)"
  "successively (<) (map fst DecompositionTable7)"
  "successively (<) (map fst DecompositionTable8)"
  "successively (<) (map fst DecompositionTable9)"
  "successively (<) (map fst DecompositionTable10)"
  by (simp_all only: decomposition_table_defs list.map fst_conv successively.simps) simp_all

lemma sorted_append_hd: "successively (<) xs \<Longrightarrow> successively (<) ys \<Longrightarrow> xs \<noteq> [] \<Longrightarrow> ys \<noteq> [] \<Longrightarrow>
    last xs < hd ys \<Longrightarrow> successively (<) (xs @ ys)"
  by (simp add: successively_append_iff)

lemma decomposition_table_sorted: "sorted_wrt (<) (map fst DecompositionTable)"
proof (rule successively_less_sorted)
  show "successively (<) (map fst DecompositionTable)"
    unfolding DecompositionTable_def map_append
    by (intro sorted_append_hd decomposition_table_ascends) (simp_all add: decomposition_table_defs)
qed

text \<open>The value of a character in the table.\<close>

definition dec_value :: "u16 \<Rightarrow> u16" where
  "dec_value c = lookup_or_0 DecompositionTable c"

lemma getmapped_decomposition: "getmappedvalue16 DecompositionTable 970 c = dec_value c"
  using getmappedvalue16_lookup [of 970 DecompositionTable c] decomposition_table_sorted
  by (simp add: dec_value_def)

lemma dec_value_0_or_entry: "dec_value c = 0 \<or> (c, dec_value c) \<in> set DecompositionTable"
  by (auto simp: dec_value_def lookup_or_0_def split: option.splits dest: map_of_SomeD)

text \<open>The characters with which decompositions that are to be continued begin: those whose own
  decomposition is final, and those where it is continued once more.\<close>

definition final_first :: "u16 \<Rightarrow> bool" where
  "final_first c =
    (if c \<le> 0x00DC then c \<in> {0x00C2, 0x00C4, 0x00C5, 0x00C7, 0x00CA, 0x00CF, 0x00D4, 0x00D5, 0x00D6, 0x00DC}
     else if c \<le> 0x00FC then c \<in> {0x00E2, 0x00E4, 0x00E5, 0x00E7, 0x00EA, 0x00EF, 0x00F4, 0x00F5, 0x00F6, 0x00FC}
     else if c \<le> 0x0161 then c \<in> {0x0102, 0x0103, 0x0112, 0x0113, 0x014C, 0x014D, 0x015A, 0x015B, 0x0160, 0x0161}
     else if c \<le> 0x01EB then c \<in> {0x0168, 0x0169, 0x016A, 0x016B, 0x01A0, 0x01A1, 0x01AF, 0x01B0, 0x01EA, 0x01EB}
     else if c \<le> 0x0389 then c \<in> {0x0226, 0x0227, 0x0228, 0x0229, 0x022E, 0x022F, 0x0385, 0x0386, 0x0388, 0x0389}
     else if c \<le> 0x03CB then c \<in> {0x038A, 0x038C, 0x038E, 0x038F, 0x03AC, 0x03AD, 0x03AE, 0x03AF, 0x03CA, 0x03CB}
     else if c \<le> 0x1E62 then c \<in> {0x03CC, 0x03CD, 0x03CE, 0x0CCA, 0x0DDC, 0x1E36, 0x1E37, 0x1E5A, 0x1E5B, 0x1E62}
     else if c \<le> 0x1F08 then c \<in> {0x1E63, 0x1EA0, 0x1EA1, 0x1EB8, 0x1EB9, 0x1ECC, 0x1ECD, 0x1F00, 0x1F01, 0x1F08}
     else if c \<le> 0x1F30 then c \<in> {0x1F09, 0x1F10, 0x1F11, 0x1F18, 0x1F19, 0x1F20, 0x1F21, 0x1F28, 0x1F29, 0x1F30}
     else if c \<le> 0x1F59 then c \<in> {0x1F31, 0x1F38, 0x1F39, 0x1F40, 0x1F41, 0x1F48, 0x1F49, 0x1F50, 0x1F51, 0x1F59}
     else if c \<le> 0x1FF6 then c \<in> {0x1F60, 0x1F61, 0x1F68, 0x1F69, 0x1F70, 0x1F74, 0x1F7C, 0x1FB6, 0x1FC6, 0x1FF6}
     else c \<in> {0xFB49})"

definition continued_first :: "u16 \<Rightarrow> bool" where
  "continued_first c =
    (if c \<le> 0x1F0B then c \<in> {0x0390, 0x03B0, 0x1F02, 0x1F03, 0x1F04, 0x1F05, 0x1F06, 0x1F07, 0x1F0A, 0x1F0B}
     else if c \<le> 0x1F27 then c \<in> {0x1F0C, 0x1F0D, 0x1F0E, 0x1F0F, 0x1F22, 0x1F23, 0x1F24, 0x1F25, 0x1F26, 0x1F27}
     else if c \<le> 0x1F65 then c \<in> {0x1F2A, 0x1F2B, 0x1F2C, 0x1F2D, 0x1F2E, 0x1F2F, 0x1F62, 0x1F63, 0x1F64, 0x1F65}
     else c \<in> {0x1F66, 0x1F67, 0x1F6A, 0x1F6B, 0x1F6C, 0x1F6D, 0x1F6E, 0x1F6F})"

definition begins :: "u16 \<Rightarrow> u16 \<Rightarrow> bool" where
  "begins c first =
    (if final_first first then True
     else if continued_first first then \<not> continued_first c else False)"

text \<open>The layout of a part of the table: each entry has one or two characters, the sequences follow each
  other from place \<open>off\<close> on, and a continued entry begins with one of the characters above.\<close>

fun layout :: "(u16 \<times> u16) list \<Rightarrow> u16 list \<Rightarrow> nat \<Rightarrow> bool" where
  "layout [] seqs off = (seqs = [])"
| "layout ((c, v) # r) seqs off =
     (if EXTRACT_COUNT v = 1
      then if (if v AND 0x8000 \<noteq> 0 then begins c (v AND 0x0FFF) else True) then layout r seqs off else False
      else if EXTRACT_COUNT v = 2 \<and> unat (v AND 0x0FFF) = off
      then (case seqs of
              a # b # seqs' \<Rightarrow>
                if (if v AND 0x8000 \<noteq> 0 then begins c a else True) then layout r seqs' (off + 2) else False
            | _ \<Rightarrow> False)
      else False)"

lemmas layout_simps = EXTRACT_COUNT_def begins_def final_first_def continued_first_def

lemma layout1: "layout DecompositionTable1 MultipleDecompositionTable1 0"
  by (simp add: DecompositionTable1_def MultipleDecompositionTable1_def layout_simps)

lemma layout2: "layout DecompositionTable2 MultipleDecompositionTable2 194"
  by (simp add: DecompositionTable2_def MultipleDecompositionTable2_def layout_simps)

lemma layout3: "layout DecompositionTable3 MultipleDecompositionTable3 388"
  by (simp add: DecompositionTable3_def MultipleDecompositionTable3_def layout_simps)

lemma layout4: "layout DecompositionTable4 MultipleDecompositionTable4 570"
  by (simp add: DecompositionTable4_def MultipleDecompositionTable4_def layout_simps)

lemma layout5: "layout DecompositionTable5 MultipleDecompositionTable5 764"
  by (simp add: DecompositionTable5_def MultipleDecompositionTable5_def layout_simps)

lemma layout6: "layout DecompositionTable6 MultipleDecompositionTable6 958"
  by (simp add: DecompositionTable6_def MultipleDecompositionTable6_def layout_simps)

lemma layout7: "layout DecompositionTable7 MultipleDecompositionTable7 1152"
  by (simp add: DecompositionTable7_def MultipleDecompositionTable7_def layout_simps)

lemma layout8: "layout DecompositionTable8 MultipleDecompositionTable8 1346"
  by (simp add: DecompositionTable8_def MultipleDecompositionTable8_def layout_simps)

lemma layout9: "layout DecompositionTable9 MultipleDecompositionTable9 1526"
  by (simp add: DecompositionTable9_def MultipleDecompositionTable9_def layout_simps)

lemma layout10: "layout DecompositionTable10 MultipleDecompositionTable10 1700"
  by (simp add: DecompositionTable10_def MultipleDecompositionTable10_def layout_simps)

text \<open>The entries of those characters.\<close>

definition final_entries :: "(u16 \<times> u16) list list" where
  "final_entries =
    [[(0x00C2, 0x2004), (0x00C4, 0x2008), (0x00C5, 0x200A), (0x00C7, 0x200C), (0x00CA, 0x2012), (0x00CF,
      0x201C), (0x00D4, 0x2024), (0x00D5, 0x2026), (0x00D6, 0x2028), (0x00DC, 0x2030), (0x00E2, 0x2038),
      (0x00E4, 0x203C), (0x00E5, 0x203E), (0x00E7, 0x2040), (0x00EA, 0x2046), (0x00EF, 0x2050), (0x00F4,
      0x2058), (0x00F5, 0x205A), (0x00F6, 0x205C), (0x00FC, 0x2064), (0x0102, 0x206E), (0x0103, 0x2070),
      (0x0112, 0x208A), (0x0113, 0x208C)],
     [(0x014C, 0x20E4), (0x014D, 0x20E6), (0x015A, 0x20FC), (0x015B, 0x20FE), (0x0160, 0x2108), (0x0161,
      0x210A), (0x0168, 0x2114), (0x0169, 0x2116), (0x016A, 0x2118), (0x016B, 0x211A), (0x01A0, 0x2142),
      (0x01A1, 0x2144), (0x01AF, 0x2146), (0x01B0, 0x2148), (0x01EA, 0x217E), (0x01EB, 0x2180)],
     [(0x0226, 0x21DC), (0x0227, 0x21DE), (0x0228, 0x21E0), (0x0229, 0x21E2), (0x022E, 0x21EC), (0x022F,
      0x21EE), (0x0385, 0x21FA), (0x0386, 0x21FC), (0x0388, 0x21FE), (0x0389, 0x2200), (0x038A, 0x2202),
      (0x038C, 0x2204), (0x038E, 0x2206), (0x038F, 0x2208), (0x03AC, 0x2210), (0x03AD, 0x2212), (0x03AE,
      0x2214), (0x03AF, 0x2216), (0x03CA, 0x221A), (0x03CB, 0x221C), (0x03CC, 0x221E), (0x03CD, 0x2220),
      (0x03CE, 0x2222)],
     [(0x0CCA, 0x22E6), (0x0DDC, 0x22F2)],
     [(0x1E36, 0x2388), (0x1E37, 0x238A)],
     [(0x1E5A, 0x23D0), (0x1E5B, 0x23D2), (0x1E62, 0x23E0), (0x1E63, 0x23E2), (0x1EA0, 0x2452), (0x1EA1,
      0x2454)],
     [(0x1EB8, 0x2482), (0x1EB9, 0x2484), (0x1ECC, 0x24AA), (0x1ECD, 0x24AC), (0x1F00, 0x2506), (0x1F01,
      0x2508), (0x1F08, 0x2516), (0x1F09, 0x2518), (0x1F10, 0x2526), (0x1F11, 0x2528), (0x1F18, 0x2532),
      (0x1F19, 0x2534), (0x1F20, 0x253E), (0x1F21, 0x2540)],
     [(0x1F28, 0x254E), (0x1F29, 0x2550), (0x1F30, 0x255E), (0x1F31, 0x2560), (0x1F38, 0x256E), (0x1F39,
      0x2570), (0x1F40, 0x257E), (0x1F41, 0x2580), (0x1F48, 0x258A), (0x1F49, 0x258C), (0x1F50, 0x2596),
      (0x1F51, 0x2598), (0x1F59, 0x25A6), (0x1F60, 0x25AE), (0x1F61, 0x25B0), (0x1F68, 0x25BE), (0x1F69,
      0x25C0), (0x1F70, 0x25CE), (0x1F74, 0x25D2), (0x1F7C, 0x25DA)],
     [(0x1FB6, 0x2646), (0x1FC6, 0x265A), (0x1FF6, 0x269E)],
     [(0xFB49, 0x2754)]]"

definition continued_entries :: "(u16 \<times> u16) list list" where
  "continued_entries =
    [[],
     [],
     [(0x0390, 0xA20A), (0x03B0, 0xA218)],
     [],
     [],
     [],
     [(0x1F02, 0xA50A), (0x1F03, 0xA50C), (0x1F04, 0xA50E), (0x1F05, 0xA510), (0x1F06, 0xA512), (0x1F07,
      0xA514), (0x1F0A, 0xA51A), (0x1F0B, 0xA51C), (0x1F0C, 0xA51E), (0x1F0D, 0xA520), (0x1F0E, 0xA522),
      (0x1F0F, 0xA524)],
     [(0x1F22, 0xA542), (0x1F23, 0xA544), (0x1F24, 0xA546), (0x1F25, 0xA548), (0x1F26, 0xA54A), (0x1F27,
      0xA54C), (0x1F2A, 0xA552), (0x1F2B, 0xA554), (0x1F2C, 0xA556), (0x1F2D, 0xA558), (0x1F2E, 0xA55A),
      (0x1F2F, 0xA55C), (0x1F62, 0xA5B2), (0x1F63, 0xA5B4), (0x1F64, 0xA5B6), (0x1F65, 0xA5B8), (0x1F66,
      0xA5BA), (0x1F67, 0xA5BC), (0x1F6A, 0xA5C2), (0x1F6B, 0xA5C4), (0x1F6C, 0xA5C6), (0x1F6D, 0xA5C8),
      (0x1F6E, 0xA5CA), (0x1F6F, 0xA5CC)],
     [],
     []]"

lemma final_entries_in_table: "list_all2 subseq final_entries [DecompositionTable1, DecompositionTable2, DecompositionTable3, DecompositionTable4, DecompositionTable5, DecompositionTable6, DecompositionTable7, DecompositionTable8, DecompositionTable9, DecompositionTable10]"
  by (simp add: final_entries_def decomposition_table_defs)

lemma continued_entries_in_table: "list_all2 subseq continued_entries [DecompositionTable1, DecompositionTable2, DecompositionTable3, DecompositionTable4, DecompositionTable5, DecompositionTable6, DecompositionTable7, DecompositionTable8, DecompositionTable9, DecompositionTable10]"
  by (simp add: continued_entries_def decomposition_table_defs)

lemma final_entries_ok: "list_all (\<lambda>(c, v). v AND 0x8000 = 0 \<and> EXTRACT_COUNT v = 2) (concat final_entries)"
  by (simp add: final_entries_def EXTRACT_COUNT_def)

lemma continued_entries_ok: "list_all (\<lambda>(c, v). EXTRACT_COUNT v = 2) (concat continued_entries)"
  by (simp add: continued_entries_def EXTRACT_COUNT_def)

lemma final_first_entry: "final_first c \<Longrightarrow> c \<in> fst ` set (concat final_entries)"
  unfolding final_first_def final_entries_def by (simp split: if_splits) auto

lemma continued_first_entry: "continued_first c \<Longrightarrow> c \<in> fst ` set (concat continued_entries)"
  unfolding continued_first_def continued_entries_def by (simp split: if_splits) auto


end
