(* ===== verification/Utf_Decompose.thy ===== *)
theory Utf_Decompose
  imports Utf_Lookup
begin

text \<open>
  The decomposition and composition of characters on the tables as they are: taking a character
  apart returns, reads inside the tables only and fills at most four places of the caller's eight;
  Hangul syllables come back when their parts are put together.
\<close>

section \<open>What a decomposition consists of\<close>

lemma layout_entry:
  "layout t seqs off \<Longrightarrow> (c, v) \<in> set t \<Longrightarrow>
    EXTRACT_COUNT v = 1 \<and> (v AND 0x8000 \<noteq> 0 \<longrightarrow> begins c (v AND 0x0FFF))
    \<or> EXTRACT_COUNT v = 2 \<and> off \<le> unat (v AND 0x0FFF) \<and> unat (v AND 0x0FFF) + 2 \<le> off + length seqs
      \<and> (v AND 0x8000 \<noteq> 0 \<longrightarrow> begins c (seqs ! (unat (v AND 0x0FFF) - off)))"
proof (induction t arbitrary: seqs off)
  case (Cons e r)
  obtain c' v' where e: "e = (c', v')" by fastforce
  show ?case
  proof (cases "EXTRACT_COUNT v' = 1")
    case True
    then show ?thesis using Cons e by (auto split: if_splits)
  next
    case False
    then obtain a b seqs' where n: "EXTRACT_COUNT v' = 2" "unat (v' AND 0x0FFF) = off" and seqs: "seqs = a # b # seqs'"
      and fst: "v' AND 0x8000 \<noteq> 0 \<longrightarrow> begins c' a" and rest: "layout r seqs' (off + 2)"
      using Cons.prems(1) e by (auto split: if_splits list.splits)
    show ?thesis
    proof (cases "(c, v) = (c', v')")
      case True
      then show ?thesis using n fst seqs by simp
    next
      case False
      then have "(c, v) \<in> set r" using Cons.prems(2) e by auto
      note IH = Cons.IH [OF rest this]
      have "seqs ! (k - off) = seqs' ! (k - (off + 2))" if "off + 2 \<le> k" for k
      proof -
        have "k - off = Suc (Suc (k - (off + 2)))" using that by simp
        then show ?thesis by (simp add: seqs)
      qed
      from this [of "unat (v AND 0x0FFF)"] IH show ?thesis
        by (elim disjE conjE) (simp_all add: seqs)
    qed
  qed
qed simp

lemma layout_entry_whole:
  assumes "layout t seqs off" "(c, v) \<in> set t" "length pre = off"
  shows "EXTRACT_COUNT v = 1 \<and> (v AND 0x8000 \<noteq> 0 \<longrightarrow> begins c (v AND 0x0FFF))
    \<or> EXTRACT_COUNT v = 2 \<and> unat (v AND 0x0FFF) + 2 \<le> length (pre @ seqs @ post)
      \<and> (v AND 0x8000 \<noteq> 0 \<longrightarrow> begins c ((pre @ seqs @ post) ! unat (v AND 0x0FFF)))"
proof -
  have "(pre @ seqs @ post) ! k = seqs ! (k - off)" if "off \<le> k" "k + 2 \<le> off + length seqs" for k
  proof -
    have "k - off < length seqs" using that by linarith
    then show ?thesis using that assms(3) by (simp add: nth_append)
  qed
  from this [of "unat (v AND 0x0FFF)"] show ?thesis
    using layout_entry [OF assms(1,2)] assms(3) by (elim disjE conjE) simp_all
qed

lemma length_sequences:
  "length MultipleDecompositionTable1 = 194" "length MultipleDecompositionTable2 = 194"
  "length MultipleDecompositionTable3 = 182" "length MultipleDecompositionTable4 = 194"
  "length MultipleDecompositionTable5 = 194" "length MultipleDecompositionTable6 = 194"
  "length MultipleDecompositionTable7 = 194" "length MultipleDecompositionTable8 = 180"
  "length MultipleDecompositionTable9 = 174" "length MultipleDecompositionTable10 = 188"
  by (simp_all add: sequence_table_defs)

text \<open>What an entry of the table names.\<close>

definition entry_ok :: "u16 \<Rightarrow> u16 \<Rightarrow> bool" where
  "entry_ok c v \<longleftrightarrow>
    EXTRACT_COUNT v = 1 \<and> (v AND 0x8000 \<noteq> 0 \<longrightarrow> begins c (v AND 0x0FFF))
    \<or> EXTRACT_COUNT v = 2 \<and> unat (v AND 0x0FFF) + 2 \<le> 1888
      \<and> (v AND 0x8000 \<noteq> 0 \<longrightarrow> begins c (MultipleDecompositionTable ! unat (v AND 0x0FFF)))"

lemma layout_ok:
  assumes "layout t seqs off" "(c, v) \<in> set t" "MultipleDecompositionTable = pre @ seqs @ post" "length pre = off"
  shows "entry_ok c v"
proof -
  have "length (pre @ seqs @ post) = 1888" by (simp only: flip: assms(3)) simp
  then show ?thesis
    using layout_entry_whole [OF assms(1,2,4), of post] by (simp only: entry_ok_def assms(3))
qed

lemma entries_ok: "(c, v) \<in> set DecompositionTable \<Longrightarrow> entry_ok c v"
proof -
  assume "(c, v) \<in> set DecompositionTable"
  then consider "(c, v) \<in> set DecompositionTable1"
    | "(c, v) \<in> set DecompositionTable2"
    | "(c, v) \<in> set DecompositionTable3"
    | "(c, v) \<in> set DecompositionTable4"
    | "(c, v) \<in> set DecompositionTable5"
    | "(c, v) \<in> set DecompositionTable6"
    | "(c, v) \<in> set DecompositionTable7"
    | "(c, v) \<in> set DecompositionTable8"
    | "(c, v) \<in> set DecompositionTable9"
    | "(c, v) \<in> set DecompositionTable10"
    unfolding DecompositionTable_def set_append Un_iff by blast
  then show ?thesis
  proof cases
    case 1
    then show ?thesis
      by (rule layout_ok [OF layout1, where pre = "[]" and post = "MultipleDecompositionTable2 @ MultipleDecompositionTable3 @ MultipleDecompositionTable4 @ MultipleDecompositionTable5 @ MultipleDecompositionTable6 @ MultipleDecompositionTable7 @ MultipleDecompositionTable8 @ MultipleDecompositionTable9 @ MultipleDecompositionTable10"])
        (simp_all add: MultipleDecompositionTable_def length_sequences)
  next
    case 2
    then show ?thesis
      by (rule layout_ok [OF layout2, where pre = "MultipleDecompositionTable1" and post = "MultipleDecompositionTable3 @ MultipleDecompositionTable4 @ MultipleDecompositionTable5 @ MultipleDecompositionTable6 @ MultipleDecompositionTable7 @ MultipleDecompositionTable8 @ MultipleDecompositionTable9 @ MultipleDecompositionTable10"])
        (simp_all add: MultipleDecompositionTable_def length_sequences)
  next
    case 3
    then show ?thesis
      by (rule layout_ok [OF layout3, where pre = "MultipleDecompositionTable1 @ MultipleDecompositionTable2" and post = "MultipleDecompositionTable4 @ MultipleDecompositionTable5 @ MultipleDecompositionTable6 @ MultipleDecompositionTable7 @ MultipleDecompositionTable8 @ MultipleDecompositionTable9 @ MultipleDecompositionTable10"])
        (simp_all add: MultipleDecompositionTable_def length_sequences)
  next
    case 4
    then show ?thesis
      by (rule layout_ok [OF layout4, where pre = "MultipleDecompositionTable1 @ MultipleDecompositionTable2 @ MultipleDecompositionTable3" and post = "MultipleDecompositionTable5 @ MultipleDecompositionTable6 @ MultipleDecompositionTable7 @ MultipleDecompositionTable8 @ MultipleDecompositionTable9 @ MultipleDecompositionTable10"])
        (simp_all add: MultipleDecompositionTable_def length_sequences)
  next
    case 5
    then show ?thesis
      by (rule layout_ok [OF layout5, where pre = "MultipleDecompositionTable1 @ MultipleDecompositionTable2 @ MultipleDecompositionTable3 @ MultipleDecompositionTable4" and post = "MultipleDecompositionTable6 @ MultipleDecompositionTable7 @ MultipleDecompositionTable8 @ MultipleDecompositionTable9 @ MultipleDecompositionTable10"])
        (simp_all add: MultipleDecompositionTable_def length_sequences)
  next
    case 6
    then show ?thesis
      by (rule layout_ok [OF layout6, where pre = "MultipleDecompositionTable1 @ MultipleDecompositionTable2 @ MultipleDecompositionTable3 @ MultipleDecompositionTable4 @ MultipleDecompositionTable5" and post = "MultipleDecompositionTable7 @ MultipleDecompositionTable8 @ MultipleDecompositionTable9 @ MultipleDecompositionTable10"])
        (simp_all add: MultipleDecompositionTable_def length_sequences)
  next
    case 7
    then show ?thesis
      by (rule layout_ok [OF layout7, where pre = "MultipleDecompositionTable1 @ MultipleDecompositionTable2 @ MultipleDecompositionTable3 @ MultipleDecompositionTable4 @ MultipleDecompositionTable5 @ MultipleDecompositionTable6" and post = "MultipleDecompositionTable8 @ MultipleDecompositionTable9 @ MultipleDecompositionTable10"])
        (simp_all add: MultipleDecompositionTable_def length_sequences)
  next
    case 8
    then show ?thesis
      by (rule layout_ok [OF layout8, where pre = "MultipleDecompositionTable1 @ MultipleDecompositionTable2 @ MultipleDecompositionTable3 @ MultipleDecompositionTable4 @ MultipleDecompositionTable5 @ MultipleDecompositionTable6 @ MultipleDecompositionTable7" and post = "MultipleDecompositionTable9 @ MultipleDecompositionTable10"])
        (simp_all add: MultipleDecompositionTable_def length_sequences)
  next
    case 9
    then show ?thesis
      by (rule layout_ok [OF layout9, where pre = "MultipleDecompositionTable1 @ MultipleDecompositionTable2 @ MultipleDecompositionTable3 @ MultipleDecompositionTable4 @ MultipleDecompositionTable5 @ MultipleDecompositionTable6 @ MultipleDecompositionTable7 @ MultipleDecompositionTable8" and post = "MultipleDecompositionTable10"])
        (simp_all add: MultipleDecompositionTable_def length_sequences)
  next
    case 10
    then show ?thesis
      by (rule layout_ok [OF layout10, where pre = "MultipleDecompositionTable1 @ MultipleDecompositionTable2 @ MultipleDecompositionTable3 @ MultipleDecompositionTable4 @ MultipleDecompositionTable5 @ MultipleDecompositionTable6 @ MultipleDecompositionTable7 @ MultipleDecompositionTable8 @ MultipleDecompositionTable9" and post = "[]"])
        (simp_all add: MultipleDecompositionTable_def length_sequences)
  qed
qed

section \<open>Decomposition returns\<close>

definition mappings :: "u16 \<Rightarrow> u16 list" where
  "mappings v = (if EXTRACT_COUNT v = 1 then [v AND 0x0FFF] else drop (unat (v AND 0x0FFF)) MultipleDecompositionTable)"

lemma decompose_unfold:
  "unicode_recursive_decompose c =
    (if dec_value c AND 0x8000 \<noteq> 0
     then do { first \<leftarrow> rd (mappings (dec_value c)) 0;
               used \<leftarrow> unicode_recursive_decompose first;
               if used = [] then Some []
               else if EXTRACT_COUNT (dec_value c) = 0 \<or> length (mappings (dec_value c)) < EXTRACT_COUNT (dec_value c)
               then None
               else Some (used @ take (EXTRACT_COUNT (dec_value c) - 1) (tl (mappings (dec_value c)))) }
     else if length (mappings (dec_value c)) < EXTRACT_COUNT (dec_value c) then None
     else Some (take (EXTRACT_COUNT (dec_value c)) (mappings (dec_value c))))"
  by (subst unicode_recursive_decompose.simps)
    (simp only: getmapped_decomposition Let_def length_DecompositionTable flip: mappings_def)

lemma mappings_entry:
  assumes "entry_ok c v"
  shows "EXTRACT_COUNT v \<in> {1, 2} \<and> EXTRACT_COUNT v \<le> length (mappings v)
    \<and> (v AND 0x8000 \<noteq> 0 \<longrightarrow> begins c (mappings v ! 0))"
  using assms by (auto simp: entry_ok_def mappings_def)

lemma decompose_final:
  assumes "entry_ok c (dec_value c)" "dec_value c AND 0x8000 = 0"
  shows "\<exists>xs. unicode_recursive_decompose c = Some xs \<and> length xs = EXTRACT_COUNT (dec_value c)"
  using mappings_entry [OF assms(1)] by (subst decompose_unfold) (auto simp: assms(2) min_def)

lemma decompose_continued:
  assumes "entry_ok c (dec_value c)" "dec_value c AND 0x8000 \<noteq> 0"
    and "\<And>first. begins c first \<Longrightarrow> \<exists>xs. unicode_recursive_decompose first = Some xs \<and> xs \<noteq> [] \<and> length xs \<le> k"
  shows "\<exists>xs. unicode_recursive_decompose c = Some xs \<and> xs \<noteq> [] \<and> length xs < k + EXTRACT_COUNT (dec_value c)"
proof -
  note m = mappings_entry [OF assms(1)]
  then have "begins c (mappings (dec_value c) ! 0)" using assms(2) by blast
  then obtain xs where xs: "unicode_recursive_decompose (mappings (dec_value c) ! 0) = Some xs" "xs \<noteq> []" "length xs \<le> k"
    using assms(3) by blast
  have "mappings (dec_value c) \<noteq> []" using m by auto
  then show ?thesis using m xs by (subst decompose_unfold) (auto simp: assms(2))
qed

lemma entry_value: "(c, v) \<in> set DecompositionTable \<Longrightarrow> dec_value c = v \<and> entry_ok c v"
  using decomposition_table_sorted entries_ok
  by (simp add: dec_value_def lookup_or_0_present strict_sorted_iff)

lemma rows_in_table:
  assumes "list_all2 subseq rows ts" "e \<in> set (concat rows)" "\<Union> (set ` set ts) \<subseteq> S"
  shows "e \<in> S"
proof -
  obtain r where r: "r \<in> set rows" "e \<in> set r" using assms(2) by auto
  then obtain t where "t \<in> set ts" "subseq r t" using assms(1) by (metis in_set_conv_nth list_all2_conv_all_nth)
  moreover from this have "e \<in> set t" using r(2) by (auto elim: list_emb_set)
  ultimately show ?thesis using assms(3) by blast
qed

lemma table_parts:
  "\<Union> (set ` set [DecompositionTable1, DecompositionTable2, DecompositionTable3, DecompositionTable4, DecompositionTable5,
     DecompositionTable6, DecompositionTable7, DecompositionTable8, DecompositionTable9, DecompositionTable10])
    \<subseteq> set DecompositionTable"
  unfolding DecompositionTable_def set_append list.set by blast

lemma final_first_decompose:
  assumes "final_first c"
  shows "\<exists>xs. unicode_recursive_decompose c = Some xs \<and> length xs = 2"
proof -
  obtain v where v: "(c, v) \<in> set (concat final_entries)" using final_first_entry [OF assms] by force
  then have "(c, v) \<in> set DecompositionTable" by (rule rows_in_table [OF final_entries_in_table _ table_parts])
  moreover have "v AND 0x8000 = 0 \<and> EXTRACT_COUNT v = 2" using final_entries_ok v by (auto simp: list_all_iff)
  ultimately show ?thesis using decompose_final [of c] entry_value by auto
qed

lemma continued_first_decompose:
  assumes "continued_first c"
  shows "\<exists>xs. unicode_recursive_decompose c = Some xs \<and> xs \<noteq> [] \<and> length xs \<le> 3"
proof -
  obtain v where v: "(c, v) \<in> set (concat continued_entries)" using continued_first_entry [OF assms] by force
  then have e: "(c, v) \<in> set DecompositionTable" by (rule rows_in_table [OF continued_entries_in_table _ table_parts])
  have n: "EXTRACT_COUNT v = 2" using continued_entries_ok v by (auto simp: list_all_iff)
  have val: "dec_value c = v" "entry_ok c v" using entry_value [OF e] by auto
  show ?thesis
  proof (cases "v AND 0x8000 = 0")
    case True
    then show ?thesis using decompose_final [of c] val n by force
  next
    case False
    have "\<exists>xs. unicode_recursive_decompose first = Some xs \<and> xs \<noteq> [] \<and> length xs \<le> 2" if "begins c first" for first
      using final_first_decompose [of first] that assms by (force simp: begins_def split: if_splits)
    from decompose_continued [OF _ _ this] show ?thesis using val n False by fastforce
  qed
qed

lemma recursive_decompose_returns:
  "\<exists>xs. unicode_recursive_decompose c = Some xs \<and> length xs \<le> 4
    \<and> (xs = [] \<longleftrightarrow> c \<notin> fst ` set DecompositionTable)"
proof (cases "c \<in> fst ` set DecompositionTable")
  case False
  then have "dec_value c = 0" by (simp add: dec_value_def lookup_or_0_absent)
  then have "unicode_recursive_decompose c = Some []" by (subst decompose_unfold) (simp add: EXTRACT_COUNT_def)
  then show ?thesis using False by simp
next
  case True
  then obtain v where e: "(c, v) \<in> set DecompositionTable" by force
  have val: "dec_value c = v" "entry_ok c v" using entry_value [OF e] by auto
  then have n: "EXTRACT_COUNT v \<in> {1, 2}" using mappings_entry by blast
  have "\<exists>xs. unicode_recursive_decompose c = Some xs \<and> xs \<noteq> [] \<and> length xs \<le> 4"
  proof (cases "v AND 0x8000 = 0")
    case True
    then show ?thesis using decompose_final [of c] val n by force
  next
    case False
    have "\<exists>xs. unicode_recursive_decompose first = Some xs \<and> xs \<noteq> [] \<and> length xs \<le> 3" if "begins c first" for first
      using final_first_decompose [of first] continued_first_decompose [of first] that
      by (force simp: begins_def split: if_splits)
    from decompose_continued [OF _ _ this] show ?thesis using val n False by fastforce
  qed
  then show ?thesis using True by auto
qed

section \<open>Hangul syllables\<close>

lemma unat_small: "n < 65536 \<Longrightarrow> unat (of_nat n :: u16) = n"
  by (simp add: unat_of_nat)

lemma of_nat_le16: "n < 65536 \<Longrightarrow> m < 65536 \<Longrightarrow> (of_nat n :: u16) \<le> of_nat m \<longleftrightarrow> n \<le> m"
  by (simp add: word_le_nat_alt unat_small)

lemma of_nat_less16: "n < 65536 \<Longrightarrow> m < 65536 \<Longrightarrow> (of_nat n :: u16) < of_nat m \<longleftrightarrow> n < m"
  by (simp add: word_less_nat_alt unat_small)

lemma of_nat_div16: "n < 65536 \<Longrightarrow> m < 65536 \<Longrightarrow> (of_nat n :: u16) div of_nat m = of_nat (n div m)"
  using le_less_trans [OF div_le_dividend, of n 65536 m] by (simp add: word_unat_eq_iff unat_div unat_small)

lemma of_nat_mod16: "n < 65536 \<Longrightarrow> m < 65536 \<Longrightarrow> (of_nat n :: u16) mod of_nat m = of_nat (n mod m)"
  using le_less_trans [OF mod_less_eq_dividend, of n 65536 m] by (simp add: word_unat_eq_iff unat_mod unat_small)

lemmas u16_arith = of_nat_le16 of_nat_less16 of_nat_div16 of_nat_mod16

lemma hangul_nats:
  "HANGUL_SBASE = of_nat 44032" "HANGUL_LBASE = of_nat 4352" "HANGUL_VBASE = of_nat 4449" "HANGUL_TBASE = of_nat 4519"
  "HANGUL_SCOUNT = of_nat 11172" "HANGUL_LCOUNT = of_nat 19" "HANGUL_VCOUNT = of_nat 21" "HANGUL_TCOUNT = of_nat 28"
  "HANGUL_NCOUNT = of_nat 588"
  by (simp_all add: hangul_defs)

text \<open>The syllable number \<open>n\<close> has the leading consonant \<open>n div 588\<close>, the vowel \<open>n mod 588 div 28\<close> and the trailing
  consonant \<open>n mod 28\<close>, if that is not 0.\<close>

lemma hangul_decompose:
  assumes "n \<le> 11172"
  shows "unicode_decompose (of_nat (44032 + n)) =
    Some ([of_nat (4352 + n div 588), of_nat (4449 + n mod 588 div 28)] @
      (if n mod 28 = 0 then [] else [of_nat (4519 + n mod 28)]))"
proof -
  have sub: "of_nat (44032 + n) - HANGUL_SBASE = of_nat n" by (simp add: hangul_nats)
  have "HANGUL_SBASE \<le> of_nat (44032 + n)" "of_nat (44032 + n) \<le> HANGUL_SBASE + HANGUL_SCOUNT"
    using assms by (simp_all only: hangul_nats flip: of_nat_add) (simp_all add: of_nat_le16 del: of_nat_add of_nat_numeral)
  moreover have "of_nat n mod HANGUL_TCOUNT = of_nat (n mod 28)" "of_nat n div HANGUL_NCOUNT = of_nat (n div 588)"
    "of_nat n mod HANGUL_NCOUNT div HANGUL_TCOUNT = of_nat (n mod 588 div 28)"
    using assms mod_less_divisor [of 588 n] by (simp_all add: hangul_nats u16_arith del: of_nat_numeral)
  moreover have "(of_nat (n mod 28) :: u16) = 0 \<longleftrightarrow> n mod 28 = 0"
    using mod_less_divisor [of 28 n] by (simp add: word_unat_eq_iff unat_small)
  ultimately show ?thesis
    by (simp add: unicode_decompose_def sub Let_def hangul_nats add.commute)
qed


lemma hangul_combine_two:
  assumes "a < 19" "b < 21"
  shows "unicode_combine (of_nat (4352 + a)) (of_nat (4449 + b)) = of_nat (44032 + (588 * a + 28 * b))"
proof -
  have "HANGUL_VBASE \<le> of_nat (4449 + b)" "of_nat (4449 + b) < HANGUL_TBASE + HANGUL_TCOUNT"
    "of_nat (4449 + b) < HANGUL_VBASE + HANGUL_VCOUNT" "HANGUL_LBASE \<le> of_nat (4352 + a)"
    "of_nat (4352 + a) < HANGUL_LBASE + HANGUL_LCOUNT"
    using assms
    by (simp_all only: hangul_nats flip: of_nat_add) (simp_all add: of_nat_le16 of_nat_less16 del: of_nat_add of_nat_numeral)
  then have "unicode_combine (of_nat (4352 + a)) (of_nat (4449 + b)) =
      HANGUL_SBASE + (of_nat (4352 + a) - HANGUL_LBASE) * (HANGUL_VCOUNT * HANGUL_TCOUNT)
        + (of_nat (4449 + b) - HANGUL_VBASE) * HANGUL_TCOUNT"
    unfolding unicode_combine_def by presburger
  then show ?thesis by (simp add: hangul_nats algebra_simps)
qed

lemma hangul_combine_three:
  assumes "n < 11172" "n mod 28 = 0" "0 < t" "t < 28"
  shows "unicode_combine (of_nat (44032 + n)) (of_nat (4519 + t)) = of_nat (44032 + (n + t))"
proof -
  have cs: "HANGUL_VBASE \<le> of_nat (4519 + t)" "of_nat (4519 + t) < HANGUL_TBASE + HANGUL_TCOUNT"
    "\<not> of_nat (4519 + t) < HANGUL_VBASE + HANGUL_VCOUNT" "of_nat (4519 + t) > HANGUL_TBASE"
    "HANGUL_SBASE \<le> of_nat (44032 + n)" "of_nat (44032 + n) < HANGUL_SBASE + HANGUL_SCOUNT"
    using assms
    by (simp_all only: hangul_nats flip: of_nat_add) (simp_all add: of_nat_le16 of_nat_less16 del: of_nat_add of_nat_numeral)
  have "of_nat (44032 + n) - HANGUL_SBASE = of_nat n" by (simp add: hangul_nats)
  then have "(of_nat (44032 + n) - HANGUL_SBASE) mod HANGUL_TCOUNT = 0"
    using assms by (simp add: hangul_nats u16_arith del: of_nat_numeral of_nat_add)
  then have "unicode_combine (of_nat (44032 + n)) (of_nat (4519 + t)) = of_nat (44032 + n) + (of_nat (4519 + t) - HANGUL_TBASE)"
    using cs unfolding unicode_combine_def by presburger
  then show ?thesis by (simp add: hangul_nats)
qed


lemma unicode_decompose_returns:
  "\<exists>xs. unicode_decompose c = Some xs \<and> length xs \<le> 4
    \<and> (xs = [] \<longleftrightarrow> \<not> (0xAC00 \<le> c \<and> c \<le> 0xD7A4) \<and> c \<notin> fst ` set DecompositionTable)"
proof -
  have "HANGUL_SBASE + HANGUL_SCOUNT = 0xD7A4" by (simp add: hangul_defs)
  then show ?thesis using recursive_decompose_returns [of c] by (auto simp: unicode_decompose_def Let_def HANGUL_SBASE_def HANGUL_SCOUNT_def)
qed

section \<open>Properties\<close>

text \<open>C31: Taking a character apart. Whatever the character, \<open>unicode_decompose\<close> returns, reads the tables inside
  their bounds, and fills at most four of the eight places its callers provide; it fills none exactly
  if the character is no Hangul syllable and the table of decompositions has no entry for it.\<close>

theorem decompose_bounded:
  "\<exists>xs. unicode_decompose c = Some xs \<and> length xs \<le> 4
    \<and> (xs = [] \<longleftrightarrow> \<not> (0xAC00 \<le> c \<and> c \<le> 0xD7A4) \<and> c \<notin> fst ` set DecompositionTable)"
  by (rule unicode_decompose_returns)

text \<open>A Hangul syllable is put together again from its parts: combining the parts in turn gives back the
  syllable.\<close>

theorem hangul_roundtrip:
  assumes "0xAC00 \<le> c" "c \<le> 0xD7A3"
  shows "\<exists>l vs. unicode_decompose c = Some (l # vs) \<and> foldl unicode_combine l vs = c"
proof -
  define n where "n = unat c - 44032"
  have "44032 \<le> unat c" "unat c \<le> 55203" using assms by (simp_all add: word_le_nat_alt)
  then have n: "n < 11172" and c: "c = of_nat (44032 + n)" by (simp_all add: n_def word_unat_eq_iff unat_small)
  have ab: "n div 588 < 19" "n mod 588 div 28 < 21" using n mod_less_divisor [of 588 n] by (simp_all add: less_mult_imp_div_less)
  have whole: "588 * (n div 588) + 28 * (n mod 588 div 28) + n mod 28 = n"
  proof -
    have "n mod 588 mod 28 = n mod 28" by (simp add: mod_mod_cancel)
    then have "28 * (n mod 588 div 28) + n mod 28 = n mod 588" by (metis mult_div_mod_eq)
    then show ?thesis using mult_div_mod_eq [of 588 n] by linarith
  qed
  show ?thesis
  proof (cases "n mod 28 = 0")
    case True
    then show ?thesis
      using hangul_decompose [of n] hangul_combine_two [OF ab] whole n by (simp add: c del: of_nat_add)
  next
    case False
    let ?m = "588 * (n div 588) + 28 * (n mod 588 div 28)"
    have "?m mod 28 = 0" by (simp add: mod_mult_self4 flip: mod_mod_cancel)
    moreover have "?m < 11172" using whole n by linarith
    ultimately have "unicode_combine (of_nat (44032 + ?m)) (of_nat (4519 + n mod 28)) = of_nat (44032 + (?m + n mod 28))"
      using False by (intro hangul_combine_three) simp_all
    then show ?thesis
      using hangul_decompose [of n] hangul_combine_two [OF ab] whole n False by (simp add: c del: of_nat_add)
  qed
qed

theorem hangul_roundtrip_witness:
  "\<exists>l vs. unicode_decompose 0xD55C = Some (l # vs) \<and> foldl unicode_combine l vs = 0xD55C"
  by (rule hangul_roundtrip) simp_all


text \<open>C32: \<open>priortysort\<close> ends, reads inside the table of classes, and orders a run of characters by their
  combining class; characters of the same class keep their order, although after an exchange the
  pass compares with the class of the wrong character.\<close>

theorem priortysort_canonical:
  "\<exists>ys. priortysort cs = Some ys \<and> mset ys = mset cs \<and> sorted (map combining_class ys)
    \<and> (\<forall>k. filter (\<lambda>c. combining_class c = k) ys = filter (\<lambda>c. combining_class c = k) cs)"
  using sort_loop_facts by (auto simp: priortysort_eq)

definition sfm_fine :: "bool \<Rightarrow> u16 \<Rightarrow> bool" where
  "sfm_fine l c \<longleftrightarrow> (case ucs_to_sfm c l of None \<Rightarrow> False
     | Some d \<Rightarrow> sfm_to_ucs d = Some (if c = 0x2F then 0x3A else c)
         \<and> d \<notin> {0x22, 0x2A, 0x2F, 0x3A, 0x3C, 0x3E, 0x3F, 0x5C, 0x7C} \<and> 0x1F < d
         \<and> (if l then d \<notin> {0x20, 0x2E} else True))"

lemmas sfm_eval = sfm_fine_def ucs_to_sfm_def sfm_to_ucs_def rd_def sfm2mac_def mac2sfm_def

lemma sfm_all: "list_all (sfm_fine l) (map of_nat [1..<128])"
  by (cases l) (simp_all add: upt_rec sfm_eval)

lemma ucs_to_sfm_defined: "1 \<le> c \<Longrightarrow> c < 0x80 \<Longrightarrow> \<exists>d. ucs_to_sfm c l = Some d"
proof -
  assume c: "1 \<le> c" "c < 0x80"
  then have "1 \<le> unat c" "unat c < 128" by (simp_all add: word_le_nat_alt word_less_nat_alt)
  then have "c \<in> set (map of_nat [1..<128])" by (auto simp: intro!: image_eqI [of _ _ "unat c"])
  then show ?thesis using sfm_all [of l] unfolding list_all_iff sfm_fine_def by (fastforce split: option.splits)
qed

text \<open>The private characters. \<open>ucs_to_sfm\<close> turns each ASCII character into one that NTFS allows in a name, and
  at its end, and \<open>sfm_to_ucs\<close> turns it back; only the slash comes back as a colon.\<close>

theorem sfm_roundtrip:
  assumes "1 \<le> c" "c < 0x80"
  shows "\<exists>d. ucs_to_sfm c l = Some d \<and> sfm_to_ucs d = Some (if c = 0x2F then 0x3A else c)
    \<and> d \<notin> {0x22, 0x2A, 0x2F, 0x3A, 0x3C, 0x3E, 0x3F, 0x5C, 0x7C} \<and> 0x1F < d
    \<and> \<not> (l \<and> d \<in> {0x20, 0x2E})"
proof -
  have "1 \<le> unat c" "unat c < 128" using assms by (simp_all add: word_le_nat_alt word_less_nat_alt)
  then have "c \<in> set (map of_nat [1..<128])" by (auto simp: intro!: image_eqI [of _ _ "unat c"])
  then show ?thesis using sfm_all [of l] unfolding list_all_iff sfm_fine_def by (fastforce split: option.splits if_splits)
qed

theorem sfm_roundtrip_witness:
  "\<exists>d. ucs_to_sfm 0x3F True = Some d \<and> sfm_to_ucs d = Some (if (0x3F :: u16) = 0x2F then 0x3A else 0x3F)
    \<and> d \<notin> {0x22, 0x2A, 0x2F, 0x3A, 0x3C, 0x3E, 0x3F, 0x5C, 0x7C} \<and> 0x1F < d
    \<and> \<not> (True \<and> d \<in> {0x20, 0x2E})"
  by (rule sfm_roundtrip) simp_all

end
