(* ===== verification/Utf8.thy ===== *)
theory Utf8
  imports Utf_Decompose
begin

text \<open>
  The conversion of file names between UTF-16 and UTF-8 (\<^verbatim>\<open>vfs/vfs_utfconv.c\<close>): \<open>utf8_encodelen\<close>,
  \<open>utf8_encodestr\<close>, \<open>utf8_decodestr\<close>, \<open>utf8_validatestr\<close> and \<open>utf8_normalizestr\<close>. The sources are lists and a
  read outside them is \<open>None\<close>; what has been written to a destination is the list of its units, and the
  end of the buffer is the number of bytes in front of it. The conversions are functions on the
  state of their loops: the places in the source and the destination, the counters that are left,
  and the parts of a decomposed character that are still to be handled.
\<close>

section \<open>Constants\<close>

definition UTF_REVERSE_ENDIAN :: u32 where "UTF_REVERSE_ENDIAN = 0x0001"
definition UTF_NO_NULL_TERM :: u32 where "UTF_NO_NULL_TERM = 0x0002"
definition UTF_DECOMPOSED :: u32 where "UTF_DECOMPOSED = 0x0004"
definition UTF_PRECOMPOSED :: u32 where "UTF_PRECOMPOSED = 0x0008"
definition UTF_ESCAPE_ILLEGAL :: u32 where "UTF_ESCAPE_ILLEGAL = 0x0010"
definition UTF_SFM_CONVERSIONS :: u32 where "UTF_SFM_CONVERSIONS = 0x0020"

definition EINVAL :: int where "EINVAL = 22"
definition ENAMETOOLONG :: int where "ENAMETOOLONG = 63"
definition MAXPATHLEN :: nat where "MAXPATHLEN = 1024"

definition UCS_ALT_NULL :: u16 where "UCS_ALT_NULL = 0x2400"
definition SP_HALF_SHIFT :: nat where "SP_HALF_SHIFT = 10"
definition SP_HALF_BASE :: u32 where "SP_HALF_BASE = 0x10000"
definition SP_HALF_MASK :: u32 where "SP_HALF_MASK = 0x3FF"
definition SP_HIGH_FIRST :: u32 where "SP_HIGH_FIRST = 0xD800"
definition SP_HIGH_LAST :: u32 where "SP_HIGH_LAST = 0xDBFF"
definition SP_LOW_FIRST :: u32 where "SP_LOW_FIRST = 0xDC00"
definition SP_LOW_LAST :: u32 where "SP_LOW_LAST = 0xDFFF"

lemmas utf_flags = UTF_REVERSE_ENDIAN_def UTF_NO_NULL_TERM_def UTF_DECOMPOSED_def UTF_PRECOMPOSED_def
  UTF_ESCAPE_ILLEGAL_def UTF_SFM_CONVERSIONS_def

lemmas surrogate_defs = SP_HALF_SHIFT_def SP_HALF_BASE_def SP_HALF_MASK_def SP_HIGH_FIRST_def SP_HIGH_LAST_def
  SP_LOW_FIRST_def SP_LOW_LAST_def

definition UNICODE_TO_UTF8_LEN :: "u16 \<Rightarrow> nat" where
  "UNICODE_TO_UTF8_LEN c = (if c < 0x0080 then 1 else if c < 0x0800 then 2 else if c AND 0xF800 = 0xD800 then 2 else 3)"

text \<open>The number of bytes behind a lead byte, by its five high bits.\<close>

definition utf_extrabytes :: "int list" where
  "utf_extrabytes =
    [0, 0, 0, 0, 0, 0, 0, 0, 0, 0, 0, 0, 0, 0, 0, 0,
     -1, -1, -1, -1, -1, -1, -1, -1, 1, 1, 1, 1, 2, 2, 3, -1]"

definition hexdigits :: "u8 list" where
  "hexdigits = [0x30, 0x31, 0x32, 0x33, 0x34, 0x35, 0x36, 0x37, 0x38, 0x39, 0x41, 0x42, 0x43, 0x44, 0x45, 0x46]"

definition OSSwapInt16 :: "u16 \<Rightarrow> u16" where
  "OSSwapInt16 x = push_bit 8 x OR drop_bit 8 x"

definition swap16 :: "bool \<Rightarrow> u16 \<Rightarrow> u16" where
  "swap16 swapbytes x = (if swapbytes then OSSwapInt16 x else x)"

section \<open>Encoding\<close>

text \<open>What a call fixes, and the state of the loop: \<open>utf8\<close> is what has been written, \<open>charcnt\<close> the units that are
  left, those of a decomposed character in \<open>chp\<close> included.\<close>

record enc_env =
  e_swapbytes :: bool
  e_decompose :: bool
  e_sfmconv :: bool
  e_altslash :: u16
  e_bufend :: int

record enc_state =
  ucsp :: nat
  chp :: "u16 list"
  charcnt :: nat
  utf8 :: "u8 list"
  e_result :: int

text \<open>Taking the source unit \<open>ch\<close> apart, if that is asked for.\<close>

definition expand :: "bool \<Rightarrow> u16 \<Rightarrow> u16 list option" where
  "expand decompose ch =
    do { d \<leftarrow> unicode_decomposeable ch;
         if decompose \<and> d then unicode_decompose ch else Some [ch] }"

definition next_unit :: "enc_env \<Rightarrow> u16 list \<Rightarrow> enc_state \<Rightarrow> (u16 \<times> enc_state) option" where
  "next_unit e ucs s =
    (case chp s of
       ch # r \<Rightarrow> Some (ch, s\<lparr>chp := r, charcnt := charcnt s - 1\<rparr>)
     | [] \<Rightarrow> do { ch \<leftarrow> rd ucs (ucsp s);
                 sequence \<leftarrow> expand (e_decompose e) (swap16 (e_swapbytes e) ch);
                 case sequence of
                   [] \<Rightarrow> None
                 | ch # r \<Rightarrow> Some (ch, s\<lparr>ucsp := ucsp s + 1, chp := r, charcnt := charcnt s - 1 + length r\<rparr>) })"

definition no_slash :: "enc_env \<Rightarrow> u16 \<Rightarrow> enc_state \<Rightarrow> u16 \<times> enc_state" where
  "no_slash e ch s =
    (if ch = 0x2F
     then if e_altslash e \<noteq> 0 then (e_altslash e, s) else (0x5F, s\<lparr>e_result := EINVAL\<rparr>)
     else if ch = 0 then (UCS_ALT_NULL, s)
     else (ch, s))"

definition put_bytes :: "enc_env \<Rightarrow> u8 list \<Rightarrow> enc_state \<Rightarrow> (enc_state, enc_state, unit) outcome" where
  "put_bytes e bs s =
    (if int (length (utf8 s)) + (int (length bs) - 1) \<ge> e_bufend e then Return (s\<lparr>e_result := ENAMETOOLONG\<rparr>)
     else Continue (s\<lparr>utf8 := utf8 s @ bs\<rparr>))"

definition bytes2 :: "u16 \<Rightarrow> u8 list" where
  "bytes2 ch = [ucast (0xC0 OR drop_bit 6 ch), ucast (0x80 OR (0x3F AND ch))]"

definition bytes3 :: "u16 \<Rightarrow> u8 list" where
  "bytes3 ch = [ucast (0xE0 OR drop_bit 12 ch), ucast (0x80 OR (0x3F AND drop_bit 6 ch)), ucast (0x80 OR (0x3F AND ch))]"

definition bytes4 :: "u32 \<Rightarrow> u8 list" where
  "bytes4 pair = [ucast (0xF0 OR drop_bit 18 pair), ucast (0x80 OR (0x3F AND drop_bit 12 pair)),
     ucast (0x80 OR (0x3F AND drop_bit 6 pair)), ucast (0x80 OR (0x3F AND pair))]"

definition surrogate_pair :: "u16 \<Rightarrow> u16 \<Rightarrow> u32" where
  "surrogate_pair ch ch2 = push_bit SP_HALF_SHIFT (ucast ch - SP_HIGH_FIRST) + (ucast ch2 - SP_LOW_FIRST) + SP_HALF_BASE"

definition high_surrogate :: "u16 \<Rightarrow> bool" where
  "high_surrogate ch \<longleftrightarrow> SP_HIGH_FIRST \<le> ucast ch \<and> ucast ch \<le> SP_HIGH_LAST"

definition low_surrogate :: "u16 \<Rightarrow> bool" where
  "low_surrogate ch \<longleftrightarrow> SP_LOW_FIRST \<le> ucast ch \<and> ucast ch \<le> SP_LOW_LAST"

definition put_pair :: "enc_env \<Rightarrow> u16 \<Rightarrow> u16 \<Rightarrow> enc_state \<Rightarrow> (enc_state, enc_state, unit) outcome" where
  "put_pair e ch ch2 s =
    (case put_bytes e (bytes4 (surrogate_pair ch ch2)) s of
       Continue s \<Rightarrow> Continue (s\<lparr>charcnt := charcnt s - 1, ucsp := ucsp s + 1\<rparr>)
     | r \<Rightarrow> r)"

definition put_unit :: "enc_env \<Rightarrow> u16 list \<Rightarrow> u16 \<Rightarrow> enc_state \<Rightarrow> (enc_state, enc_state, unit) outcome option" where
  "put_unit e ucs ch s =
    (if ch < 0x0080 then Some (put_bytes e [ucast ch] s)
     else if ch < 0x0800 then Some (put_bytes e (bytes2 ch) s)
     else if ch = 0xFFFE \<or> ch = 0xFFFF then Some (Return (s\<lparr>e_result := EINVAL\<rparr>))
     else if high_surrogate ch \<and> charcnt s > 0
     then do { ch2 \<leftarrow> rd ucs (ucsp s);
               let ch2 = swap16 (e_swapbytes e) ch2
               in Some (if low_surrogate ch2 then put_pair e ch ch2 s else put_bytes e (bytes3 ch) s) }
     else if e_sfmconv e
     then do { ch \<leftarrow> sfm_to_ucs ch;
               Some (put_bytes e (if ch < 0x0080 then [ucast ch] else bytes3 ch) s) }
     else Some (put_bytes e (bytes3 ch) s))"

definition enc_turn :: "enc_env \<Rightarrow> u16 list \<Rightarrow> enc_state \<Rightarrow> (enc_state, enc_state, unit) outcome option" where
  "enc_turn e ucs s =
    (if charcnt s = 0 then Some (Return s)
     else do { (ch, s) \<leftarrow> next_unit e ucs s;
               let (ch, s) = no_slash e ch s in put_unit e ucs ch s })"

text \<open>A turn that goes on has taken a unit of the source or a part of a decomposed character.\<close>

lemma next_unit_progress:
  "next_unit e ucs s = Some (ch, t) \<Longrightarrow>
    (ucsp t = ucsp s \<and> length (chp t) < length (chp s)) \<or> (ucsp t = Suc (ucsp s) \<and> ucsp s < length ucs)"
  by (auto simp: next_unit_def rd_eq_Some_iff split: list.splits bind_splits)

lemma put_bytes_keeps: "put_bytes e bs s = Continue t \<Longrightarrow> ucsp t = ucsp s \<and> chp t = chp s"
  by (auto simp: put_bytes_def split: if_splits)

lemma put_unit_progress:
  "put_unit e ucs ch s = Some (Continue t) \<Longrightarrow> chp t = chp s \<and> (ucsp t = ucsp s \<or> ucsp t = Suc (ucsp s) \<and> ucsp s < length ucs)"
  by (auto simp: put_unit_def put_pair_def Let_def rd_eq_Some_iff dest!: put_bytes_keeps
      split: if_splits bind_splits outcome.splits)

lemma no_slash_keeps: "no_slash e ch s = (ch', t) \<Longrightarrow> ucsp t = ucsp s \<and> chp t = chp s \<and> charcnt t = charcnt s \<and> utf8 t = utf8 s"
  by (auto simp: no_slash_def split: if_splits)

lemma enc_turn_progress:
  assumes "enc_turn e ucs s = Some (Continue t)"
  shows "length ucs - ucsp t < length ucs - ucsp s \<or> ucsp t = ucsp s \<and> length (chp t) < length (chp s)"
proof -
  obtain ch u ch' v where *: "next_unit e ucs s = Some (ch, u)" "no_slash e ch u = (ch', v)" "put_unit e ucs ch' v = Some (Continue t)"
    using assms by (auto simp: enc_turn_def split: if_splits bind_splits prod.splits)
  show ?thesis using next_unit_progress [OF *(1)] no_slash_keeps [OF *(2)] put_unit_progress [OF *(3)] by auto
qed

function enc_loop :: "enc_env \<Rightarrow> u16 list \<Rightarrow> enc_state \<Rightarrow> enc_state option" where
  "enc_loop e ucs s =
    (case enc_turn e ucs s of
       Some (Continue t) \<Rightarrow> enc_loop e ucs t
     | Some (Return t) \<Rightarrow> Some t
     | _ \<Rightarrow> None)"
  by pat_completeness auto
termination
  by (relation "measures [\<lambda>(e, ucs, s). length ucs - ucsp s, \<lambda>(e, ucs, s). length (chp s)]")
    (auto dest: enc_turn_progress)

declare enc_loop.simps [simp del]

text \<open>The error, the number of bytes without the final NUL, and all that is written.\<close>

definition encode_env :: "nat \<Rightarrow> u16 \<Rightarrow> u32 \<Rightarrow> enc_env" where
  "encode_env buflen altslash flags =
    \<lparr>e_swapbytes = (flags AND UTF_REVERSE_ENDIAN \<noteq> 0), e_decompose = (flags AND UTF_DECOMPOSED \<noteq> 0),
     e_sfmconv = (flags AND UTF_SFM_CONVERSIONS \<noteq> 0), e_altslash = altslash,
     e_bufend = (if flags AND UTF_NO_NULL_TERM = 0 then int buflen - 1 else int buflen)\<rparr>"

definition utf8_encodestr :: "u16 list \<Rightarrow> nat \<Rightarrow> nat \<Rightarrow> u16 \<Rightarrow> u32 \<Rightarrow> (int \<times> nat \<times> u8 list) option" where
  "utf8_encodestr ucs ucslen buflen altslash flags =
    do { s \<leftarrow> enc_loop (encode_env buflen altslash flags) ucs
                \<lparr>ucsp = 0, chp = [], charcnt = ucslen div 2, utf8 = [], e_result = 0\<rparr>;
         Some (e_result s, length (utf8 s), utf8 s @ (if flags AND UTF_NO_NULL_TERM = 0 then [0] else [])) }"

section \<open>The length of an encoding\<close>

text \<open>Here slashes and NULs are replaced before a character is taken apart.\<close>

definition next_counted :: "bool \<Rightarrow> bool \<Rightarrow> u16 \<Rightarrow> u16 list \<Rightarrow> nat \<Rightarrow> u16 list \<Rightarrow> (u16 \<times> nat \<times> u16 list) option" where
  "next_counted swapbytes decompose altslash ucs i r =
    (case r of
       ch # r \<Rightarrow> Some (ch, i, r)
     | [] \<Rightarrow> do { ch \<leftarrow> rd ucs i;
                 let ch = swap16 swapbytes ch
                 in if ch = 0x2F then Some (if altslash \<noteq> 0 then altslash else 0x5F, i + 1, [])
                    else if ch = 0 then Some (UCS_ALT_NULL, i + 1, [])
                    else do { sequence \<leftarrow> expand decompose ch;
                              case sequence of [] \<Rightarrow> None | ch # r \<Rightarrow> Some (ch, i + 1, r) } })"

function encodelen_loop :: "bool \<Rightarrow> bool \<Rightarrow> u16 \<Rightarrow> u16 list \<Rightarrow> nat \<Rightarrow> nat \<Rightarrow> u16 list \<Rightarrow> nat \<Rightarrow> nat option" where
  "encodelen_loop swapbytes decompose altslash ucs cnt i r len =
    (if cnt = 0 then Some len
     else case next_counted swapbytes decompose altslash ucs i r of
            None \<Rightarrow> None
          | Some (ch, i', r') \<Rightarrow>
              encodelen_loop swapbytes decompose altslash ucs
                (if r = [] then cnt - 1 + length r' else cnt - 1) i' r' (len + UNICODE_TO_UTF8_LEN ch))"
  by pat_completeness auto
termination
  by (relation "measures [\<lambda>(b, d, a, ucs, n, i, r, k). length ucs - i, \<lambda>(b, d, a, ucs, n, i, r, k). length r]")
    (auto simp: next_counted_def Let_def rd_eq_Some_iff split: list.splits bind_splits if_splits)

declare encodelen_loop.simps [simp del]

definition utf8_encodelen :: "u16 list \<Rightarrow> nat \<Rightarrow> u16 \<Rightarrow> u32 \<Rightarrow> nat option" where
  "utf8_encodelen ucs ucslen altslash flags =
    encodelen_loop (flags AND UTF_REVERSE_ENDIAN \<noteq> 0) (flags AND UTF_DECOMPOSED \<noteq> 0) altslash ucs (ucslen div 2) 0 [] 0"

section \<open>Decoding\<close>

record dec_env =
  d_swapbytes :: bool
  d_decompose :: bool
  d_precompose :: bool
  d_escaping :: bool
  d_sfmconv :: bool
  d_altslash :: u16
  d_buflen :: nat

text \<open>\<open>utf8p\<close> is the place in the source, \<open>utf8len\<close> the bytes that are left, \<open>ucs\<close> what has been written, and
  \<open>combcharcnt\<close> the length of the run of combining characters it ends with.\<close>

record dec_state =
  utf8p :: nat
  utf8len :: nat
  ucs :: "u16 list"
  combcharcnt :: int

type_synonym dec_outcome = "(dec_state, int \<times> dec_state, unit) outcome"

definition no_room :: "dec_env \<Rightarrow> nat \<Rightarrow> bool" where
  "no_room e n \<longleftrightarrow> d_buflen e \<le> 2 * n"

text \<open>Sorting the run the output ends with; a run longer than the output begins in front of the buffer.\<close>

definition sort_run :: "int \<Rightarrow> u16 list \<Rightarrow> u16 list option" where
  "sort_run n out =
    (if n > 1
     then if n > int (length out) then None
          else do { ys \<leftarrow> priortysort (drop (length out - nat n) out); Some (take (length out - nat n) out @ ys) }
     else Some out)"

text \<open>The bytes behind a lead byte: \<open>None\<close> where the code escapes the lead byte. For the longest form the value
  is what is left after subtracting the base of the surrogates.\<close>

definition multibyte :: "u8 list \<Rightarrow> nat \<Rightarrow> u8 \<Rightarrow> int \<Rightarrow> u32 option option" where
  "multibyte src p lead extrabytes =
    do { b \<leftarrow> rd src p;
         if drop_bit 6 b \<noteq> 2 then Some None
         else let ch = push_bit 6 (ucast lead) + ucast b
              in if extrabytes = 1
                 then let ch = ch - 0x3080 in Some (if ch < 0x0080 then None else Some ch)
                 else do { b \<leftarrow> rd src (p + 1);
                           if drop_bit 6 b \<noteq> 2 then Some None
                           else let ch = push_bit 6 ch + ucast b
                                in if extrabytes = 2
                                   then let ch = ch - 0xE2080
                                        in Some (if ch < 0x0800 \<or> 0xD800 \<le> ch \<and> (ch \<le> 0xDFFF \<or> ch = 0xFFFE \<or> ch = 0xFFFF)
                                                 then None else Some ch)
                                   else do { b \<leftarrow> rd src (p + 2);
                                             if drop_bit 6 b \<noteq> 2 then Some None
                                             else let ch = push_bit 6 ch + ucast b - (0x3C82080 + SP_HALF_BASE);
                                                      hi = drop_bit SP_HALF_SHIFT ch + SP_HIGH_FIRST
                                                  in Some (if hi < SP_HIGH_FIRST \<or> hi > SP_HIGH_LAST
                                                           then None else Some ch) } } }"

definition put_hex :: "dec_env \<Rightarrow> u8 \<Rightarrow> u16 list option" where
  "put_hex e lead =
    do { h \<leftarrow> rd hexdigits (unat (drop_bit 4 lead));
         l \<leftarrow> rd hexdigits (unat (lead AND 0x0F));
         Some [swap16 (d_swapbytes e) 0x25, swap16 (d_swapbytes e) (ucast h), swap16 (d_swapbytes e) (ucast l)] }"

text \<open>Illegal input: \<open>s\<close> stands behind the lead byte, with the other bytes deducted only if \<open>extrabytes\<close> were
  there; they are added again in any case.\<close>

definition escape :: "dec_env \<Rightarrow> u8 \<Rightarrow> int \<Rightarrow> dec_state \<Rightarrow> dec_outcome option" where
  "escape e lead extrabytes s =
    (if \<not> d_escaping e then Some (Return (EINVAL, s))
     else let s = s\<lparr>utf8len := utf8len s + nat extrabytes\<rparr>
          in if no_room e (length (ucs s) + 2) then Some (Return (ENAMETOOLONG, s))
             else do { hex \<leftarrow> put_hex e lead; Some (Continue (s\<lparr>ucs := ucs s @ hex\<rparr>)) })"

text \<open>The end of a turn that writes one unit.\<close>

definition put_ucs :: "dec_env \<Rightarrow> u16 \<Rightarrow> dec_state \<Rightarrow> dec_outcome option" where
  "put_ucs e ch s =
    do { let ch = (if ch = d_altslash e then 0x2F else ch)
         in do { c \<leftarrow> unicode_combinable ch;
                 out \<leftarrow> (if c then Some (ucs s) else sort_run (combcharcnt s) (ucs s));
                 Some (Continue (s\<lparr>ucs := out @ [swap16 (d_swapbytes e) ch],
                                   combcharcnt := (if c then combcharcnt s + 1 else 0)\<rparr>)) } }"

text \<open>Writing the parts of a decomposed character, with the check for the end of the buffer behind each.\<close>

fun put_parts :: "dec_env \<Rightarrow> u16 list \<Rightarrow> u16 list \<Rightarrow> bool \<times> u16 list" where
  "put_parts e [] out = (True, out)"
| "put_parts e (c # r) out =
    (let out = out @ [swap16 (d_swapbytes e) c]
     in if no_room e (length out) then (False, out) else put_parts e r out)"

definition put_decomposed :: "dec_env \<Rightarrow> u16 \<Rightarrow> dec_state \<Rightarrow> dec_outcome option" where
  "put_decomposed e ch s =
    do { out \<leftarrow> sort_run (combcharcnt s) (ucs s);
         sequence \<leftarrow> unicode_decompose ch;
         let (fits, out) = put_parts e sequence out
         in Some (if fits then Continue (s\<lparr>ucs := out, combcharcnt := int (length sequence) - 1\<rparr>)
                  else Return (ENAMETOOLONG, s\<lparr>ucs := out, combcharcnt := 0\<rparr>)) }"

text \<open>The composition with the unit in front: the unit to write and what stays in front of it.\<close>

definition compose :: "dec_env \<Rightarrow> u16 \<Rightarrow> u16 list \<Rightarrow> (u16 \<times> u16 list) option" where
  "compose e ch out =
    (if d_precompose e \<and> out \<noteq> []
     then do { c \<leftarrow> unicode_combinable ch;
               if c then let composite = unicode_combine (swap16 (d_swapbytes e) (last out)) ch
                         in Some (if composite \<noteq> 0 then (composite, butlast out) else (ch, out))
               else Some (ch, out) }
     else Some (ch, out))"

definition put_character :: "dec_env \<Rightarrow> u16 \<Rightarrow> dec_state \<Rightarrow> dec_outcome option" where
  "put_character e ch s =
    do { d \<leftarrow> unicode_decomposeable ch;
         if d_decompose e \<and> d then put_decomposed e ch s
         else do { (ch, out) \<leftarrow> (if d_decompose e then Some (ch, ucs s) else compose e ch (ucs s));
                   put_ucs e (if ch = UCS_ALT_NULL then 0 else ch) (s\<lparr>ucs := out\<rparr>) } }"

definition put_surrogates :: "dec_env \<Rightarrow> u8 \<Rightarrow> u32 \<Rightarrow> dec_state \<Rightarrow> dec_state \<Rightarrow> dec_outcome option" where
  "put_surrogates e lead ch s0 s =
    (let out = ucs s @ [swap16 (d_swapbytes e) (ucast (drop_bit SP_HALF_SHIFT ch + SP_HIGH_FIRST))];
         lo = (ch AND SP_HALF_MASK) + SP_LOW_FIRST
     in if no_room e (length out) then Some (Return (ENAMETOOLONG, s\<lparr>ucs := out\<rparr>))
        else if lo < SP_LOW_FIRST \<or> lo > SP_LOW_LAST then escape e lead 3 s0
        else Some (Continue (s\<lparr>ucs := out @ [swap16 (d_swapbytes e) (ucast lo)]\<rparr>)))"

definition dec_finish :: "dec_state \<Rightarrow> dec_outcome option" where
  "dec_finish s = do { out \<leftarrow> sort_run (combcharcnt s) (ucs s); Some (Return (0, s\<lparr>ucs := out\<rparr>)) }"

definition put_lead :: "dec_env \<Rightarrow> u8 list \<Rightarrow> u8 \<Rightarrow> dec_state \<Rightarrow> dec_outcome option" where
  "put_lead e src byte s =
    do { extrabytes \<leftarrow> rd utf_extrabytes (unat (drop_bit 3 byte));
         if extrabytes < 0 \<or> int (utf8len s) < extrabytes then escape e byte extrabytes s
         else let s0 = s\<lparr>utf8len := utf8len s - nat extrabytes\<rparr>
              in if extrabytes = 0 then Some (Return (EINVAL, s0))
                 else do { m \<leftarrow> multibyte src (utf8p s) byte extrabytes;
                           case m of
                             None \<Rightarrow> escape e byte extrabytes s0
                           | Some ch \<Rightarrow>
                               let s = s0\<lparr>utf8p := utf8p s + nat extrabytes\<rparr>
                               in if extrabytes = 3 then put_surrogates e byte ch s0 s
                                  else put_character e (ucast ch) s } }"

definition dec_turn :: "dec_env \<Rightarrow> u8 list \<Rightarrow> dec_state \<Rightarrow> dec_outcome option" where
  "dec_turn e src s =
    (if utf8len s = 0 then dec_finish s
     else do { byte \<leftarrow> rd src (utf8p s);
               let s = s\<lparr>utf8len := utf8len s - 1, utf8p := utf8p s + 1\<rparr>
               in if byte = 0 then dec_finish s
                  else if no_room e (length (ucs s)) then Some (Return (ENAMETOOLONG, s))
                  else if byte < 0x80
                  then do { ch \<leftarrow> (if d_sfmconv e then ucs_to_sfm (ucast byte) (utf8len s = 0) else Some (ucast byte));
                            put_ucs e ch s }
                  else put_lead e src byte s })"

lemma escape_keeps: "escape e lead k s = Some (Continue t) \<Longrightarrow> utf8p t = utf8p s"
  by (auto simp: escape_def Let_def split: if_splits bind_splits)

lemma put_ucs_keeps: "put_ucs e ch s = Some (Continue t) \<Longrightarrow> utf8p t = utf8p s"
  by (auto simp: put_ucs_def Let_def split: if_splits bind_splits)

lemma put_character_keeps: "put_character e ch s = Some (Continue t) \<Longrightarrow> utf8p t = utf8p s"
  by (auto simp: put_character_def put_decomposed_def Let_def case_prod_beta dest!: put_ucs_keeps split: if_splits bind_splits)

lemma put_surrogates_keeps: "put_surrogates e lead ch s0 s = Some (Continue t) \<Longrightarrow> utf8p t = utf8p s \<or> utf8p t = utf8p s0"
  by (auto simp: put_surrogates_def Let_def dest!: escape_keeps split: if_splits)

lemma put_lead_progress:
  assumes "put_lead e src byte s = Some (Continue t)"
  shows "utf8p s \<le> utf8p t"
  using assms
  by (auto simp: put_lead_def Let_def dest!: escape_keeps put_character_keeps put_surrogates_keeps
      split: if_splits bind_splits option.splits)

lemma dec_turn_progress: "dec_turn e src s = Some (Continue t) \<Longrightarrow> utf8p s < length src \<and> utf8p s < utf8p t"
  by (auto simp: dec_turn_def dec_finish_def Let_def rd_eq_Some_iff dest!: put_lead_progress put_ucs_keeps
      split: if_splits bind_splits)

function dec_loop :: "dec_env \<Rightarrow> u8 list \<Rightarrow> dec_state \<Rightarrow> (int \<times> dec_state) option" where
  "dec_loop e src s =
    (case dec_turn e src s of
       Some (Continue t) \<Rightarrow> dec_loop e src t
     | Some (Return r) \<Rightarrow> Some r
     | _ \<Rightarrow> None)"
  by pat_completeness auto
termination
  by (relation "measure (\<lambda>(e, src, s). length src - utf8p s)") (auto dest: dec_turn_progress)

declare dec_loop.simps [simp del]

definition decode_env :: "nat \<Rightarrow> u16 \<Rightarrow> u32 \<Rightarrow> dec_env" where
  "decode_env buflen altslash flags =
    \<lparr>d_swapbytes = (flags AND UTF_REVERSE_ENDIAN \<noteq> 0), d_decompose = (flags AND UTF_DECOMPOSED \<noteq> 0),
     d_precompose = (flags AND UTF_PRECOMPOSED \<noteq> 0), d_escaping = (flags AND UTF_ESCAPE_ILLEGAL \<noteq> 0),
     d_sfmconv = (flags AND UTF_SFM_CONVERSIONS \<noteq> 0), d_altslash = altslash, d_buflen = buflen\<rparr>"

text \<open>The error, the number of bytes written, and the units.\<close>

definition utf8_decodestr :: "u8 list \<Rightarrow> nat \<Rightarrow> nat \<Rightarrow> u16 \<Rightarrow> u32 \<Rightarrow> (int \<times> nat \<times> u16 list) option" where
  "utf8_decodestr src n buflen altslash flags =
    do { (r, s) \<leftarrow> dec_loop (decode_env buflen altslash flags) src \<lparr>utf8p = 0, utf8len = n, ucs = [], combcharcnt = 0\<rparr>;
         Some (r, 2 * length (ucs s), ucs s) }"

section \<open>Validation\<close>

function validate_loop :: "u8 list \<Rightarrow> nat \<Rightarrow> nat \<Rightarrow> int option" where
  "validate_loop src p left =
    (if left = 0 then Some 0
     else case rd src p of
       None \<Rightarrow> None
     | Some byte \<Rightarrow>
         if byte = 0 then Some 0
         else if byte < 0x80 then validate_loop src (p + 1) (left - 1)
         else case rd utf_extrabytes (unat (drop_bit 3 byte)) of
           None \<Rightarrow> None
         | Some extrabytes \<Rightarrow>
             if extrabytes < 0 \<or> int (left - 1) < extrabytes \<or> extrabytes = 0 then Some EINVAL
             else case multibyte src (p + 1) byte extrabytes of
               None \<Rightarrow> None
             | Some None \<Rightarrow> Some EINVAL
             | Some (Some ch) \<Rightarrow> validate_loop src (p + 1 + nat extrabytes) (left - 1 - nat extrabytes))"
  by pat_completeness auto
termination
  by (relation "measure (\<lambda>(src, p, left). left)") auto

declare validate_loop.simps [simp del]

definition utf8_validatestr :: "u8 list \<Rightarrow> nat \<Rightarrow> int option" where
  "utf8_validatestr src n = validate_loop src 0 n"

section \<open>Normalization\<close>

text \<open>The ASCII characters in front: whether the string ends there, and what has been copied.\<close>

datatype ascii_end = Ascii_done | Ascii_full | Non_ascii

function ascii_loop :: "u8 list \<Rightarrow> nat \<Rightarrow> nat \<Rightarrow> nat \<Rightarrow> u8 list \<Rightarrow> (ascii_end \<times> u8 list) option" where
  "ascii_loop src p left buflen out =
    (if left = 0 then Some (Ascii_done, out)
     else case rd src p of
       None \<Rightarrow> None
     | Some byte \<Rightarrow>
         if byte = 0 then Some (Ascii_done, out)
         else if length out \<ge> buflen then Some (Ascii_full, out)
         else if byte \<ge> 0x80 then Some (Non_ascii, out)
         else ascii_loop src (p + 1) (left - 1) buflen (out @ [byte]))"
  by pat_completeness auto
termination
  by (relation "measure (\<lambda>(src, p, left, b, out). left)") auto

declare ascii_loop.simps [simp del]

definition normalize_exit :: "int \<Rightarrow> u8 list \<Rightarrow> nat \<Rightarrow> u32 \<Rightarrow> int \<times> nat \<times> u8 list" where
  "normalize_exit result out buflen flags =
    (if flags AND UTF_NO_NULL_TERM = 0
     then if length out < buflen then (result, length out, out @ [0]) else (ENAMETOOLONG, length out, out)
     else (result, length out, out))"

definition normalize_unicode :: "u8 list \<Rightarrow> nat \<Rightarrow> u8 list \<Rightarrow> nat \<Rightarrow> u32 \<Rightarrow> (int \<times> nat \<times> u8 list) option" where
  "normalize_unicode instr inlen ascii buflen flags =
    (let unicode_bytes = (if flags AND UTF_PRECOMPOSED \<noteq> 0 then inlen * 2 else inlen * 3)
     in do { (result, n, uni) \<leftarrow> utf8_decodestr instr inlen unicode_bytes 0 (flags AND NOT UTF_NO_NULL_TERM);
             if result = 0
             then do { (result, k, out) \<leftarrow> utf8_encodestr uni n buflen 0 UTF_NO_NULL_TERM;
                       Some (normalize_exit result out buflen flags) }
             else Some (normalize_exit result ascii buflen flags) })"

definition utf8_normalizestr :: "u8 list \<Rightarrow> nat \<Rightarrow> nat \<Rightarrow> u32 \<Rightarrow> (int \<times> nat \<times> u8 list) option" where
  "utf8_normalizestr instr inlen buflen flags =
    (if flags AND NOT (UTF_DECOMPOSED OR UTF_PRECOMPOSED OR UTF_NO_NULL_TERM OR UTF_ESCAPE_ILLEGAL) \<noteq> 0
     then Some (EINVAL, 0, [])
     else if (flags AND UTF_DECOMPOSED \<noteq> 0) = (flags AND UTF_PRECOMPOSED \<noteq> 0) then Some (EINVAL, 0, [])
     else do { (how, ascii) \<leftarrow> ascii_loop instr 0 inlen buflen [];
               case how of
                 Ascii_done \<Rightarrow> Some (normalize_exit 0 ascii buflen flags)
               | Ascii_full \<Rightarrow> Some (normalize_exit ENAMETOOLONG ascii buflen flags)
               | Non_ascii \<Rightarrow>
                   if inlen > MAXPATHLEN then Some (normalize_exit ENAMETOOLONG ascii buflen flags)
                   else normalize_unicode instr inlen ascii buflen flags })"

end
