(* ===== verification/Utf8_Codec.thy ===== *)
theory Utf8_Codec
  imports Utf8
begin

text \<open>
  What the conversions of \<^verbatim>\<open>vfs/vfs_utfconv.c\<close> do, against the definition of UTF-8 and UTF-16 as
  functions of the code points: the encoder writes the UTF-8 form of the code points its units
  stand for, the decoder the UTF-16 form with the combining characters sorted, the validator
  accepts the UTF-8 forms and nothing else; none of them writes behind its buffer.
\<close>

section \<open>Code points and their forms\<close>

text \<open>The code points a name can hold: neither NUL nor a surrogate, nor one of the two that are never valid.\<close>

definition scalar :: "nat \<Rightarrow> bool" where
  "scalar c \<longleftrightarrow> 0 < c \<and> c < 0x110000 \<and> \<not> (0xD800 \<le> c \<and> c < 0xE000) \<and> c \<noteq> 0xFFFE \<and> c \<noteq> 0xFFFF"

definition utf8_of :: "nat \<Rightarrow> u8 list" where
  "utf8_of c =
    map of_nat
     (if c < 0x80 then [c]
      else if c < 0x800 then [0xC0 + c div 64, 0x80 + c mod 64]
      else if c < 0x10000 then [0xE0 + c div 4096, 0x80 + c div 64 mod 64, 0x80 + c mod 64]
      else [0xF0 + c div 262144, 0x80 + c div 4096 mod 64, 0x80 + c div 64 mod 64, 0x80 + c mod 64])"

definition utf16_of :: "nat \<Rightarrow> u16 list" where
  "utf16_of c =
    map of_nat (if c < 0x10000 then [c] else [0xD800 + (c - 0x10000) div 1024, 0xDC00 + (c - 0x10000) mod 1024])"

section \<open>Words and numbers\<close>

lemma unat_div8: "unat (drop_bit n (b :: u8)) = unat b div 2 ^ n"
  by (simp only: unat_drop_bit_eq) (simp add: drop_bit_eq_div)

lemma ucast_of_unat: "(ucast (b :: u8) :: u32) = of_nat (unat b)" "(ucast (c :: u16) :: u32) = of_nat (unat c)"
  by simp_all

lemma push6: "push_bit 6 (x :: u32) = 64 * x"
  by (simp add: push_bit_eq_mult mult.commute)

lemma trail_byte: "drop_bit 6 (b :: u8) = 2 \<longleftrightarrow> 128 \<le> unat b \<and> unat b < 192"
proof -
  have "drop_bit 6 b = 2 \<longleftrightarrow> unat b div 64 = 2" by (simp add: word_unat_eq_iff unat_div8)
  then show ?thesis by auto
qed

lemma unat32_small: "n < 4294967296 \<Longrightarrow> unat (of_nat n :: u32) = n"
  by (simp add: unat_of_nat)

lemma less32: "n < 4294967296 \<Longrightarrow> m < 4294967296 \<Longrightarrow> (of_nat n :: u32) < of_nat m \<longleftrightarrow> n < m"
  by (simp add: word_less_nat_alt unat32_small)

lemma eq32: "n < 4294967296 \<Longrightarrow> m < 4294967296 \<Longrightarrow> (of_nat n :: u32) = of_nat m \<longleftrightarrow> n = m"
  by (simp add: word_unat_eq_iff unat32_small)

section \<open>The bytes behind a lead byte\<close>

lemma multibyte_two:
  assumes "192 \<le> unat lead" "rd src p = Some b"
  defines "v \<equiv> (unat lead - 192) * 64 + (unat b - 128)"
  shows "multibyte src p lead 1 =
    Some (if 128 \<le> unat b \<and> unat b < 192 \<and> 0x80 \<le> v then Some (of_nat v) else None)"
proof (cases "128 \<le> unat b \<and> unat b < 192")
  case False
  then show ?thesis using assms by (auto simp: multibyte_def trail_byte)
next
  case True
  have v: "64 * unat lead + unat b = v + 0x3080" using assms(1) True by (simp add: v_def algebra_simps)
  have "push_bit 6 (ucast lead) + ucast b - (0x3080 :: u32) = of_nat v"
    using arg_cong [OF v, of "of_nat :: nat \<Rightarrow> u32"] by (simp add: ucast_of_unat push6 del: of_nat_unat)
  moreover have "v < 4294967296" using unat_u8_less [of lead] unat_u8_less [of b] unfolding v_def by linarith
  then have "(of_nat v :: u32) < 0x80 \<longleftrightarrow> v < 0x80" using less32 [of v "0x80"] by simp
  ultimately show ?thesis using True assms(2) by (simp add: multibyte_def trail_byte Let_def)
qed

lemma multibyte_three:
  assumes "224 \<le> unat lead" "rd src p = Some b" "rd src (p + 1) = Some b'" "128 \<le> unat b" "unat b < 192"
  defines "v \<equiv> (unat lead - 224) * 4096 + (unat b - 128) * 64 + (unat b' - 128)"
  shows "multibyte src p lead 2 =
    Some (if 128 \<le> unat b' \<and> unat b' < 192 \<and> 0x800 \<le> v \<and> \<not> (0xD800 \<le> v \<and> v < 0xE000) \<and> v \<noteq> 0xFFFE \<and> v \<noteq> 0xFFFF
          then Some (of_nat v) else None)"
proof (cases "128 \<le> unat b' \<and> unat b' < 192")
  case False
  then show ?thesis using assms by (auto simp: multibyte_def trail_byte)
next
  case True
  have v: "64 * (64 * unat lead + unat b) + unat b' = v + 0xE2080" using assms(1,4) True by (simp add: v_def algebra_simps)
  have eq: "push_bit 6 (push_bit 6 (ucast lead) + ucast b) + ucast b' = (of_nat v + 0xE2080 :: u32)"
    using arg_cong [OF v, of "of_nat :: nat \<Rightarrow> u32"]
    by (simp add: ucast_of_unat push6 algebra_simps del: of_nat_unat)
  have small: "v < 4294967296"
    using unat_u8_less [of lead] unat_u8_less [of b] unat_u8_less [of b'] unfolding v_def by linarith
  have "(of_nat v :: u32) < 0x800 \<longleftrightarrow> v < 0x800" "(of_nat v :: u32) < 0xD800 \<longleftrightarrow> v < 0xD800"
    "(0xDFFF :: u32) < of_nat v \<longleftrightarrow> 0xDFFF < v"
    "(of_nat v :: u32) = 0xFFFE \<longleftrightarrow> v = 0xFFFE" "(of_nat v :: u32) = 0xFFFF \<longleftrightarrow> v = 0xFFFF"
    using less32 [OF small, of "0x800"] less32 [OF small, of "0xD800"] less32 [of "0xDFFF" v] small
      eq32 [OF small, of "0xFFFE"] eq32 [OF small, of "0xFFFF"]
    by simp_all
  then show ?thesis using True assms(2-5)
    by (auto simp: multibyte_def trail_byte Let_def eq not_le not_less simp flip: not_less)
qed

lemma multibyte_three_short:
  "rd src p = Some b \<Longrightarrow> \<not> (128 \<le> unat b \<and> unat b < 192) \<Longrightarrow> multibyte src p lead k = Some None"
  by (auto simp: multibyte_def trail_byte)


text \<open>The last form. The difference to the base of the surrogates wraps around below it; either way the high
  surrogate is out of range for a value that is no code point.\<close>

lemma high_part:
  assumes "v < 0x200000" "w = (of_nat v - 0x10000 :: u32)"
  shows "drop_bit 10 w + 0xD800 < 0xD800 \<or> drop_bit 10 w + 0xD800 > 0xDBFF \<longleftrightarrow> \<not> (0x10000 \<le> v \<and> v < 0x110000)"
proof -
  have d: "unat (drop_bit 10 w) = unat w div 1024" by (simp only: unat_drop_bit_eq) (simp add: drop_bit_eq_div)
  define k where "k = unat w div 1024"
  have "unat w < 4294967296" using unsigned_less [where 'b = 32 and 'a = nat, of w] by simp
  then have k: "k < 4194304" by (simp add: k_def less_mult_imp_div_less)
  have "drop_bit 10 w = of_nat k" using d k by (simp only: word_unat_eq_iff unat32_small flip: k_def)
  then have "drop_bit 10 w + 0xD800 = of_nat (k + 0xD800)" by simp
  then have cmp: "drop_bit 10 w + 0xD800 < 0xD800 \<longleftrightarrow> False" "drop_bit 10 w + 0xD800 > 0xDBFF \<longleftrightarrow> 0x400 \<le> k"
    using less32 [of "k + 0xD800" "0xD800"] less32 [of "0xDBFF" "k + 0xD800"] k by auto
  show ?thesis
  proof (cases "0x10000 \<le> v")
    case True
    then have "w = of_nat (v - 0x10000)" using assms(2) by (simp add: of_nat_diff)
    then have "unat w = v - 0x10000" using assms(1) by (simp add: unat32_small)
    then show ?thesis using True cmp by (auto simp: k_def)
  next
    case False
    have "of_nat (4294967296 + v - 0x10000) = (of_nat v - 0x10000 :: u32)" by (simp add: of_nat_diff)
    then have "w = of_nat (4294901760 + v)" using assms(2) by simp
    then have "unat w = 4294901760 + v" using False by (simp only: unat32_small)
    then show ?thesis using False cmp by (auto simp: k_def)
  qed
qed

lemma multibyte_four:
  assumes "240 \<le> unat lead" "unat lead < 248" "rd src p = Some b" "rd src (p + 1) = Some b'" "rd src (p + 2) = Some b''"
    "128 \<le> unat b" "unat b < 192" "128 \<le> unat b'" "unat b' < 192"
  defines "v \<equiv> (unat lead - 240) * 262144 + (unat b - 128) * 4096 + (unat b' - 128) * 64 + (unat b'' - 128)"
  shows "multibyte src p lead 3 =
    Some (if 128 \<le> unat b'' \<and> unat b'' < 192 \<and> 0x10000 \<le> v \<and> v < 0x110000
          then Some (of_nat (v - 0x10000)) else None)"
proof (cases "128 \<le> unat b'' \<and> unat b'' < 192")
  case False
  then show ?thesis using assms by (auto simp: multibyte_def trail_byte)
next
  case True
  have v: "64 * (64 * (64 * unat lead + unat b) + unat b') + unat b'' = v + 0x3C82080"
    using assms(1,6,8) True by (simp add: v_def algebra_simps)
  have eq: "push_bit 6 (push_bit 6 (push_bit 6 (ucast lead) + ucast b) + ucast b') + ucast b'' - (0x3C82080 + SP_HALF_BASE)
      = (of_nat v - 0x10000 :: u32)"
    using arg_cong [OF v, of "of_nat :: nat \<Rightarrow> u32"]
    by (simp add: ucast_of_unat push6 SP_HALF_BASE_def algebra_simps del: of_nat_unat)
  have "v < 0x200000" using assms(2,7,9) True unfolding v_def by linarith
  note hi = high_part [OF this refl]
  have "of_nat (v - 0x10000) = (of_nat v - 0x10000 :: u32)" if "0x10000 \<le> v" using that by (simp add: of_nat_diff)
  then show ?thesis
    using True assms(3-9) hi
    by (simp add: multibyte_def trail_byte Let_def eq SP_HIGH_FIRST_def SP_HIGH_LAST_def SP_HALF_SHIFT_def)
qed

section \<open>The forms of a code point\<close>

lemma unat8_small: "n < 256 \<Longrightarrow> unat (of_nat n :: u8) = n"
  by (simp add: unat_of_nat)

lemma unat16_small: "n < 65536 \<Longrightarrow> unat (of_nat n :: u16) = n"
  by (simp add: unat_of_nat)

lemma extrabytes:
  fixes b :: u8
  assumes "128 \<le> unat b"
  shows "rd utf_extrabytes (unat (drop_bit 3 b)) =
    Some (if unat b < 192 then -1 else if unat b < 224 then 1 else if unat b < 240 then 2 else if unat b < 248 then 3 else -1)"
proof -
  define k where "k = unat b div 8"
  have "k \<in> set [16..<32]"
    using assms unat_u8_less [of b] unfolding k_def set_upt atLeastLessThan_iff by linarith
  have k: "192 \<le> unat b \<longleftrightarrow> 24 \<le> k" "224 \<le> unat b \<longleftrightarrow> 28 \<le> k" "240 \<le> unat b \<longleftrightarrow> 30 \<le> k"
    "248 \<le> unat b \<longleftrightarrow> 31 \<le> k"
    using assms unat_u8_less [of b] unfolding k_def by (auto simp del: unat_u8_less)
  have "list_all (\<lambda>k. rd utf_extrabytes k =
      Some (if k < 24 then -1 else if k < 28 then 1 else if k < 30 then 2 else if k < 31 then 3 else -1)) [16..<32]"
    by (simp add: upt_rec rd_def utf_extrabytes_def)
  then have "rd utf_extrabytes k =
      Some (if k < 24 then -1 else if k < 28 then 1 else if k < 30 then 2 else if k < 31 then 3 else -1)"
    using \<open>k \<in> set [16..<32]\<close> by (simp only: list_all_iff)
  moreover have "unat (drop_bit 3 b) = k" by (simp add: unat_div8 k_def)
  ultimately show ?thesis using k by (simp only: not_le [symmetric])
qed

text \<open>The number of bytes behind the first one.\<close>

definition tail_length :: "nat \<Rightarrow> nat" where
  "tail_length c = (if c < 0x80 then 0 else if c < 0x800 then 1 else if c < 0x10000 then 2 else 3)"

lemma length_utf8_of [simp]: "length (utf8_of c) = Suc (tail_length c)"
  by (simp add: utf8_of_def tail_length_def)

lemma length_utf16_of [simp]: "length (utf16_of c) = (if c < 0x10000 then 1 else 2)"
  by (simp add: utf16_of_def)

lemma rd_at: "rd (pre @ x # post) (length pre) = Some x" "rd (pre @ x # y # post) (Suc (length pre)) = Some y"
  "rd (pre @ x # y # z # post) (Suc (Suc (length pre))) = Some z"
  by (simp_all add: rd_def nth_append)

lemma multibyte_utf8_of:
  assumes "scalar c" "0x80 \<le> c" "utf8_of c = lead # r"
  shows "rd utf_extrabytes (unat (drop_bit 3 lead)) = Some (int (tail_length c)) \<and> 128 \<le> unat lead \<and>
    multibyte (pre @ r @ post) (length pre) lead (int (tail_length c)) =
      Some (Some (of_nat (if c < 0x10000 then c else c - 0x10000)))"
proof -
  have div4096: "c div 4096 = c div 64 div 64" using div_mult2_eq [of c 64 64] by simp
  have div262144: "c div 262144 = c div 4096 div 64" using div_mult2_eq [of c 4096 64] by simp
  consider "c < 0x800" | "0x800 \<le> c" "c < 0x10000" | "0x10000 \<le> c" by linarith
  then show ?thesis
  proof cases
    case 1
    then have b: "lead = of_nat (192 + c div 64)" "r = [of_nat (128 + c mod 64)]"
      using assms(2,3) by (simp_all add: utf8_of_def)
    have u: "unat lead = 192 + c div 64" "unat (of_nat (128 + c mod 64) :: u8) = 128 + c mod 64" "c div 64 < 32"
      using 1 unfolding b(1) by (simp_all add: unat8_small less_mult_imp_div_less del: of_nat_add)
    have "multibyte (pre @ r @ post) (length pre) lead 1 = Some (Some (of_nat c))"
      using multibyte_two [of lead "pre @ r @ post" "length pre" "of_nat (128 + c mod 64)"] u assms(2)
      by (simp add: b(2) rd_at mult.commute [of _ 64] del: of_nat_add)
    then show ?thesis using extrabytes [of lead] u 1 assms(2) by (simp add: tail_length_def)
  next
    case 2
    then have b: "lead = of_nat (224 + c div 4096)" "r = [of_nat (128 + c div 64 mod 64), of_nat (128 + c mod 64)]"
      using assms(2,3) by (simp_all add: utf8_of_def)
    have u: "unat lead = 224 + c div 4096" "unat (of_nat (128 + c mod 64) :: u8) = 128 + c mod 64"
      "unat (of_nat (128 + c div 64 mod 64) :: u8) = 128 + c div 64 mod 64" "c div 4096 < 16"
      using 2 unfolding b(1) by (simp_all add: unat8_small less_mult_imp_div_less del: of_nat_add)
    have c: "c div 4096 * 4096 + c div 64 mod 64 * 64 + c mod 64 = c"
      using div_mult_mod_eq [of c 64] div_mult_mod_eq [of "c div 64" 64] div4096 by linarith
    have "multibyte (pre @ r @ post) (length pre) lead 2 = Some (Some (of_nat c))"
      using multibyte_three [of lead "pre @ r @ post" "length pre" "of_nat (128 + c div 64 mod 64)" "of_nat (128 + c mod 64)"] u 2 assms(1)
      by (simp add: b(2) rd_at c scalar_def del: of_nat_add)
    then show ?thesis using extrabytes [of lead] u 2 by (simp add: tail_length_def)
  next
    case 3
    have hi: "c < 0x110000" using assms(1) by (simp add: scalar_def)
    have b: "lead = of_nat (240 + c div 262144)"
      "r = [of_nat (128 + c div 4096 mod 64), of_nat (128 + c div 64 mod 64), of_nat (128 + c mod 64)]"
      using 3 assms(3) by (simp_all add: utf8_of_def)
    have u: "unat lead = 240 + c div 262144" "unat (of_nat (128 + c mod 64) :: u8) = 128 + c mod 64"
      "unat (of_nat (128 + c div 64 mod 64) :: u8) = 128 + c div 64 mod 64"
      "unat (of_nat (128 + c div 4096 mod 64) :: u8) = 128 + c div 4096 mod 64" "c div 262144 < 8"
      using hi unfolding b(1) by (simp_all add: unat8_small less_mult_imp_div_less del: of_nat_add)
    have c: "c div 262144 * 262144 + c div 4096 mod 64 * 4096 + c div 64 mod 64 * 64 + c mod 64 = c"
      using div_mult_mod_eq [of c 64] div_mult_mod_eq [of "c div 64" 64] div_mult_mod_eq [of "c div 4096" 64]
        div4096 div262144
      by linarith
    have "multibyte (pre @ r @ post) (length pre) lead 3 = Some (Some (of_nat (c - 0x10000)))"
      using multibyte_four [of lead "pre @ r @ post" "length pre" "of_nat (128 + c div 4096 mod 64)"
          "of_nat (128 + c div 64 mod 64)" "of_nat (128 + c mod 64)"] u 3 hi
      by (simp add: b(2) rd_at c del: of_nat_add)
    then show ?thesis using extrabytes [of lead] u 3 by (simp add: tail_length_def)
  qed
qed

lemma digit64: "v = q * 64 + r \<Longrightarrow> r < 64 \<Longrightarrow> v div 64 = q \<and> v mod 64 = (r :: nat)"
  using div_mult_self1 [of 64 r q] mod_mult_self1 [of r q 64] by (simp only: add.commute [of "q * 64"]) simp

lemma utf8_of_two:
  assumes "192 \<le> unat lead" "unat lead < 224" "128 \<le> unat b" "unat b < 192"
    and v: "v = (unat lead - 192) * 64 + (unat b - 128)" "0x80 \<le> v"
  shows "utf8_of v = [lead, b] \<and> scalar v \<and> tail_length v = 1"
proof -
  have d: "v div 64 = unat lead - 192" "v mod 64 = unat b - 128"
    using digit64 [OF v(1)] assms(3,4) by simp_all
  have "v < 0x800" using assms unfolding v(1) by linarith
  then show ?thesis using assms(1-4) v(2) d by (simp add: utf8_of_def scalar_def tail_length_def flip: of_nat_add)
qed

lemma utf8_of_three:
  assumes "224 \<le> unat lead" "unat lead < 240" "128 \<le> unat b" "unat b < 192" "128 \<le> unat b'" "unat b' < 192"
    and v: "v = (unat lead - 224) * 4096 + (unat b - 128) * 64 + (unat b' - 128)" "0x800 \<le> v"
      "\<not> (0xD800 \<le> v \<and> v < 0xE000)" "v \<noteq> 0xFFFE" "v \<noteq> 0xFFFF"
  shows "utf8_of v = [lead, b, b'] \<and> scalar v \<and> tail_length v = 2"
proof -
  have "v = ((unat lead - 224) * 64 + (unat b - 128)) * 64 + (unat b' - 128)" using v(1) by (simp add: algebra_simps)
  from digit64 [OF this] have d: "v div 64 = (unat lead - 224) * 64 + (unat b - 128)" "v mod 64 = unat b' - 128"
    using assms(6) by simp_all
  have d2: "v div 4096 = unat lead - 224" "v div 64 mod 64 = unat b - 128"
    using digit64 [OF d(1)] assms(3,4) div_mult2_eq [of v 64 64] by simp_all
  have "v < 0x10000" using assms(1-6) unfolding v(1) by linarith
  then show ?thesis using assms(1-6) v(2-) d(2) d2 by (simp add: utf8_of_def scalar_def tail_length_def flip: of_nat_add)
qed

lemma utf8_of_four:
  assumes "240 \<le> unat lead" "unat lead < 248" "128 \<le> unat b" "unat b < 192" "128 \<le> unat b'" "unat b' < 192"
    "128 \<le> unat b''" "unat b'' < 192"
    and v: "v = (unat lead - 240) * 262144 + (unat b - 128) * 4096 + (unat b' - 128) * 64 + (unat b'' - 128)"
      "0x10000 \<le> v" "v < 0x110000"
  shows "utf8_of v = [lead, b, b', b''] \<and> scalar v \<and> tail_length v = 3"
proof -
  have "v = (((unat lead - 240) * 64 + (unat b - 128)) * 64 + (unat b' - 128)) * 64 + (unat b'' - 128)"
    using v(1) by (simp add: algebra_simps)
  from digit64 [OF this] have d: "v div 64 = ((unat lead - 240) * 64 + (unat b - 128)) * 64 + (unat b' - 128)" "v mod 64 = unat b'' - 128"
    using assms(8) by simp_all
  have d2: "v div 4096 = (unat lead - 240) * 64 + (unat b - 128)" "v div 64 mod 64 = unat b' - 128"
    using digit64 [OF d(1)] assms(5,6) div_mult2_eq [of v 64 64] by simp_all
  have d3: "v div 262144 = unat lead - 240" "v div 4096 mod 64 = unat b - 128"
    using digit64 [OF d2(1)] assms(3,4) div_mult2_eq [of v 4096 64] by simp_all
  show ?thesis using assms(1-8) v(2-) d(2) d2(2) d3 by (simp add: utf8_of_def scalar_def tail_length_def flip: of_nat_add)
qed

lemma take_rd: "rd xs i = Some x \<Longrightarrow> take (Suc n) (drop i xs) = x # take n (drop (i + 1) xs)"
  by (simp add: rd_eq_Some_iff take_Suc hd_drop_conv_nth tl_drop drop_Suc)

lemma multibyte_back:
  assumes "multibyte src p lead k = Some (Some ch)" "128 \<le> unat lead"
    "rd utf_extrabytes (unat (drop_bit 3 lead)) = Some k" "0 < k"
  shows "\<exists>c. scalar c \<and> 0x80 \<le> c \<and> int (tail_length c) = k \<and> lead # take (nat k) (drop p src) = utf8_of c"
proof -
  have k: "k = 1 \<and> 192 \<le> unat lead \<and> unat lead < 224 \<or> k = 2 \<and> 224 \<le> unat lead \<and> unat lead < 240
      \<or> k = 3 \<and> 240 \<le> unat lead \<and> unat lead < 248"
    using assms(3,4) unfolding extrabytes [OF assms(2)] by (auto split: if_splits)
  obtain b where b: "rd src p = Some b" "128 \<le> unat b" "unat b < 192"
    using assms(1) by (auto simp: multibyte_def trail_byte split: if_splits bind_splits)
  have one: "take (nat 1) (drop p src) = [b]"
    using take_rd [OF b(1), of 0] by simp
  from k show ?thesis
  proof (elim disjE conjE)
    assume l: "k = 1" "192 \<le> unat lead" "unat lead < 224"
    define v where "v = (unat lead - 192) * 64 + (unat b - 128)"
    have "0x80 \<le> v" using assms(1) multibyte_two [OF l(2) b(1)] by (simp add: l(1) v_def split: if_splits)
    from utf8_of_two [OF l(2,3) b(2,3) v_def this] show ?thesis
      using \<open>0x80 \<le> v\<close> one l(1) by (auto intro!: exI [of _ v])
  next
    assume l: "k = 2" "224 \<le> unat lead" "unat lead < 240"
    obtain b' where b': "rd src (p + 1) = Some b'"
      using assms(1) b by (auto simp: multibyte_def trail_byte Let_def l(1) split: if_splits bind_splits)
    define v where "v = (unat lead - 224) * 4096 + (unat b - 128) * 64 + (unat b' - 128)"
    have *: "128 \<le> unat b'" "unat b' < 192" "0x800 \<le> v" "\<not> (0xD800 \<le> v \<and> v < 0xE000)" "v \<noteq> 0xFFFE" "v \<noteq> 0xFFFF"
      using assms(1) multibyte_three [OF l(2) b(1) b' b(2,3)] by (simp_all add: l(1) v_def split: if_splits)
    have two: "take (nat 2) (drop p src) = [b, b']"
      using take_rd [OF b(1), of 1] take_rd [OF b', of 0] by (simp add: numeral_2_eq_2)
    from utf8_of_three [OF l(2,3) b(2,3) *(1,2) v_def *(3-6)] show ?thesis
      using *(3) two l(1) by (auto intro!: exI [of _ v])
  next
    assume l: "k = 3" "240 \<le> unat lead" "unat lead < 248"
    obtain b' where b': "rd src (p + 1) = Some b'" "128 \<le> unat b'" "unat b' < 192"
      using assms(1) b by (auto simp: multibyte_def trail_byte Let_def l(1) split: if_splits bind_splits)
    obtain b'' where b'': "rd src (p + 2) = Some b''"
      using assms(1) b b' by (auto simp: multibyte_def trail_byte Let_def l(1) split: if_splits bind_splits)
    define v where "v = (unat lead - 240) * 262144 + (unat b - 128) * 4096 + (unat b' - 128) * 64 + (unat b'' - 128)"
    have *: "128 \<le> unat b''" "unat b'' < 192" "0x10000 \<le> v" "v < 0x110000"
      using assms(1) multibyte_four [OF l(2,3) b(1) b'(1) b'' b(2,3) b'(2,3)] by (simp_all add: l(1) v_def split: if_splits)
    have three: "take (nat 3) (drop p src) = [b, b', b'']"
      using take_rd [OF b(1), of 2] take_rd [OF b'(1), of 1] take_rd [OF b'', of 0]
      by (simp add: numeral_2_eq_2 numeral_3_eq_3)
    from utf8_of_four [OF l(2,3) b(2,3) b'(2,3) *(1,2) v_def *(3,4)] show ?thesis
      using *(3) three l(1) by (auto intro!: exI [of _ v])
  qed
qed

section \<open>The validator\<close>

text \<open>The text a string of at most \<open>n\<close> bytes holds ends at its first NUL.\<close>

definition text_of :: "u8 list \<Rightarrow> u8 list" where
  "text_of bs = takeWhile (\<lambda>b. b \<noteq> 0) bs"

lemma multibyte_reads:
  assumes "p + nat k \<le> length src" "0 < k"
  shows "multibyte src p lead k \<noteq> None"
  using assms by (auto simp: multibyte_def Let_def rd_def split: if_splits)

lemma utf8_of_nonzero:
  assumes "scalar c"
  shows "0 \<notin> set (utf8_of c)"
proof -
  have *: "of_nat n \<noteq> (0 :: u8)" if "0 < n" "n < 256" for n
    using that by (simp add: word_unat_eq_iff unat8_small)
  have "c div 262144 < 16" "c < 2048 \<Longrightarrow> c div 64 < 64" "c < 65536 \<Longrightarrow> c div 4096 < 32" "0 < c"
    using assms by (simp_all add: scalar_def less_mult_imp_div_less)
  moreover have "c mod 64 < 64" "c div 64 mod 64 < 64" "c div 4096 mod 64 < 64" by simp_all
  ultimately show ?thesis
    unfolding utf8_of_def using * [of c] * [of "192 + c div 64"] * [of "224 + c div 4096"] * [of "240 + c div 262144"]
      * [of "128 + c mod 64"] * [of "128 + c div 64 mod 64"] * [of "128 + c div 4096 mod 64"]
    by (simp del: of_nat_add)
qed

lemma text_of_utf8_of: "scalar c \<Longrightarrow> text_of (utf8_of c @ bs) = utf8_of c @ text_of bs"
  using utf8_of_nonzero [of c] by (auto simp: text_of_def takeWhile_append)

lemma utf8_of_ascii: "0 < unat b \<Longrightarrow> unat b < 128 \<Longrightarrow> utf8_of (unat b) = [b] \<and> scalar (unat b)"
  by (simp add: utf8_of_def scalar_def)

lemma byte_less_80: "(b :: u8) < 0x80 \<longleftrightarrow> unat b < 128"
  by (simp add: word_less_nat_alt)

lemma validate_answers: "p + left \<le> length src \<Longrightarrow> validate_loop src p left \<in> {Some 0, Some EINVAL}"
proof (induction src p left rule: validate_loop.induct)
  case (1 src p left)
  show ?case
  proof (cases "left = 0")
    case True
    then show ?thesis by (subst validate_loop.simps) simp
  next
    case False
    then obtain byte where byte: "rd src p = Some byte" using "1.prems" by (simp add: rd_def)
    show ?thesis
    proof (cases "byte = 0 \<or> byte < 0x80")
      case True
      then show ?thesis using "1.IH"(1) [OF False byte] "1.prems" False byte by (subst validate_loop.simps) auto
    next
      case nonascii: False
      then have "128 \<le> unat byte" by (simp add: byte_less_80)
      note ex = extrabytes [OF this]
      obtain k where k: "rd utf_extrabytes (unat (drop_bit 3 byte)) = Some k" unfolding ex by blast
      show ?thesis
      proof (cases "k < 0 \<or> int (left - 1) < k \<or> k = 0")
        case True
        then show ?thesis using False byte nonascii k by (subst validate_loop.simps) auto
      next
        case enough: False
        then have "p + 1 + nat k \<le> length src" "0 < k" using "1.prems" False by auto
        then obtain m where m: "multibyte src (p + 1) byte k = Some m" using multibyte_reads by blast
        show ?thesis
        proof (cases m)
          case None
          then show ?thesis using False byte nonascii k enough m by (subst validate_loop.simps) auto
        next
          case (Some ch)
          have "validate_loop src (p + 1 + nat k) (left - 1 - nat k) \<in> {Some 0, Some EINVAL}"
            using "1.IH"(2) [OF False byte _ _ k enough] nonascii m Some \<open>p + 1 + nat k \<le> length src\<close> "1.prems" enough by auto
          then show ?thesis using False byte nonascii k enough m Some by (subst validate_loop.simps) auto
        qed
      qed
    qed
  qed
qed

lemma validate_step:
  assumes "left \<noteq> 0" "rd src p = Some byte" "128 \<le> unat byte" "rd utf_extrabytes (unat (drop_bit 3 byte)) = Some k"
    "0 < k" "k \<le> int (left - 1)" "multibyte src (p + 1) byte k = Some (Some ch)"
  shows "validate_loop src p left = validate_loop src (p + 1 + nat k) (left - 1 - nat k)"
proof -
  have "\<not> byte < 0x80" "byte \<noteq> 0" using assms(3) by (auto simp: byte_less_80)
  then show ?thesis using assms by (subst validate_loop.simps) simp
qed

lemma validate_complete:
  "list_all scalar cs \<Longrightarrow> rest = [] \<or> hd rest = 0 \<Longrightarrow>
    validate_loop (pre @ concat (map utf8_of cs) @ rest @ post) (length pre) (length (concat (map utf8_of cs)) + length rest) = Some 0"
proof (induction cs arbitrary: pre)
  case Nil
  show ?case
  proof (cases rest)
    case Nil
    then show ?thesis by (subst validate_loop.simps) simp
  next
    case (Cons x r)
    then show ?thesis using Nil.prems by (subst validate_loop.simps) (simp add: rd_at)
  qed
next
  case (Cons c cs)
  then have c: "scalar c" and cs: "list_all scalar cs" by simp_all
  obtain lead r where u: "utf8_of c = lead # r" by (cases "utf8_of c") (auto simp: dest: arg_cong [of _ _ length])
  have lr: "length r = tail_length c" using length_utf8_of [of c] u by simp
  define tl where "tl = concat (map utf8_of cs) @ rest @ post"
  define src where "src = pre @ lead # r @ tl"
  define left where "left = Suc (length r + length (concat (map utf8_of cs)) + length rest)"
  have IH: "validate_loop src (length pre + 1 + length r) (left - 1 - length r) = Some 0"
    using Cons.IH [of "pre @ utf8_of c"] cs Cons.prems(2) u by (simp add: src_def tl_def left_def)
  have "validate_loop src (length pre) left = Some 0"
  proof (cases "c < 0x80")
    case True
    then have "r = []" "lead = of_nat c" using u by (simp_all add: utf8_of_def)
    moreover have "unat lead = c" using True \<open>lead = of_nat c\<close> by (simp add: unat8_small)
    ultimately have "lead < 0x80" "lead \<noteq> 0" using True c by (auto simp: byte_less_80 scalar_def)
    then show ?thesis using IH \<open>r = []\<close> by (subst validate_loop.simps) (simp add: src_def rd_at left_def)
  next
    case False
    then have "0x80 \<le> c" by simp
    from multibyte_utf8_of [OF c this u, of "pre @ [lead]" tl]
    have m: "rd utf_extrabytes (unat (drop_bit 3 lead)) = Some (int (tail_length c))" "128 \<le> unat lead"
      "multibyte src (length pre + 1) lead (int (tail_length c)) = Some (Some (of_nat (if c < 0x10000 then c else c - 0x10000)))"
      by (simp_all add: src_def)
    have "0 < tail_length c" using False by (simp add: tail_length_def)
    then have "validate_loop src (length pre) left =
        validate_loop src (length pre + 1 + nat (int (tail_length c))) (left - 1 - nat (int (tail_length c)))"
      by (intro validate_step [OF _ _ m(2,1) _ _ m(3)]) (simp_all add: left_def src_def rd_at lr)
    then show ?thesis using IH lr by simp
  qed
  then show ?case by (simp add: src_def tl_def left_def u add.assoc)
qed

lemma validate_sound:
  "p + left \<le> length src \<Longrightarrow> validate_loop src p left = Some 0 \<Longrightarrow>
    \<exists>cs. list_all scalar cs \<and> text_of (take left (drop p src)) = concat (map utf8_of cs)"
proof (induction src p left rule: validate_loop.induct)
  case (1 src p left)
  show ?case
  proof (cases "left = 0")
    case True
    then show ?thesis by (auto simp: text_of_def intro!: exI [of _ "[]"])
  next
    case False
    then obtain byte where byte: "rd src p = Some byte" using "1.prems" by (simp add: rd_def)
    have tk: "take left (drop p src) = byte # take (left - 1) (drop (p + 1) src)"
      using take_rd [OF byte, of "left - 1"] False by simp
    consider "byte = 0" | "byte \<noteq> 0" "byte < 0x80" | "\<not> byte < 0x80" "byte \<noteq> 0" by blast
    then show ?thesis
    proof cases
      case 1
      then show ?thesis by (auto simp: tk text_of_def intro!: exI [of _ "[]"])
    next
      case 2
      then have "validate_loop src (p + 1) (left - 1) = Some 0"
        using "1.prems"(2) False byte by (subst (asm) validate_loop.simps) simp
      then obtain cs where cs: "list_all scalar cs" "text_of (take (left - 1) (drop (p + 1) src)) = concat (map utf8_of cs)"
        using "1.IH"(1) [OF False byte 2] "1.prems"(1) False by auto
      have "utf8_of (unat byte) = [byte] \<and> scalar (unat byte)"
        using 2 by (intro utf8_of_ascii) (simp_all add: byte_less_80 unat_gt_0)
      then show ?thesis using cs 2 by (auto simp: tk text_of_def intro!: exI [of _ "unat byte # cs"])
    next
      case 3
      then have u: "128 \<le> unat byte" by (simp add: byte_less_80)
      obtain k where k: "rd utf_extrabytes (unat (drop_bit 3 byte)) = Some k" unfolding extrabytes [OF u] by blast
      have enough: "\<not> (k < 0 \<or> int (left - 1) < k \<or> k = 0)"
        using "1.prems"(2) False byte 3 k by (subst (asm) validate_loop.simps) (auto simp: EINVAL_def split: if_splits)
      then obtain ch where m: "multibyte src (p + 1) byte k = Some (Some ch)"
        using "1.prems"(2) False byte 3 k
        by (subst (asm) validate_loop.simps) (auto simp: EINVAL_def split: if_splits option.splits)
      have pos: "0 < k" using enough by linarith
      have "validate_loop src (p + 1 + nat k) (left - 1 - nat k) = Some 0"
        using "1.prems"(2) validate_step [OF False byte u k pos _ m] enough by simp
      then obtain cs where cs: "list_all scalar cs"
          "text_of (take (left - 1 - nat k) (drop (p + 1 + nat k) src)) = concat (map utf8_of cs)"
        using "1.IH"(2) [OF False byte 3(2,1) k enough m refl] "1.prems"(1) enough False by auto
      obtain c where c: "scalar c" "byte # take (nat k) (drop (p + 1) src) = utf8_of c"
        using multibyte_back [OF m u k pos] by blast
      have "take (left - 1) (drop (p + 1) src) =
          take (nat k) (drop (p + 1) src) @ take (left - 1 - nat k) (drop (p + 1 + nat k) src)"
      proof -
        have "left - 1 = nat k + (left - 1 - nat k)" using enough by linarith
        then show ?thesis by (metis add.commute drop_drop take_add)
      qed
      then have "take left (drop p src) = utf8_of c @ take (left - 1 - nat k) (drop (p + 1 + nat k) src)"
        by (simp add: tk c(2) [symmetric])
      then show ?thesis using cs c(1) by (auto simp: text_of_utf8_of intro!: exI [of _ "c # cs"])
    qed
  qed
qed


section \<open>Properties of the validator\<close>

text \<open>C16: \<open>utf8_validatestr\<close> judges its argument up to the first NUL, or all of it when there is none,
  and never what stands behind a NUL. It answers 0 exactly when that text is the UTF-8 form of a sequence of
  code points, none of them a surrogate or one of U+FFFE and U+FFFF, and EINVAL otherwise; it reads nothing
  behind the argument.\<close>

theorem utf8_validatestr_correct:
  assumes "n \<le> length src"
  shows "utf8_validatestr src n =
    Some (if \<exists>cs. list_all scalar cs \<and> text_of (take n src) = concat (map utf8_of cs) then 0 else EINVAL)"
proof (cases "\<exists>cs. list_all scalar cs \<and> text_of (take n src) = concat (map utf8_of cs)")
  case True
  then obtain cs where cs: "list_all scalar cs" "text_of (take n src) = concat (map utf8_of cs)" by blast
  define rest where "rest = dropWhile (\<lambda>b. b \<noteq> 0) (take n src)"
  have rest: "rest = [] \<or> hd rest = 0" using hd_dropWhile [of "\<lambda>b. b \<noteq> 0" "take n src"] by (auto simp: rest_def)
  have whole: "take n src = concat (map utf8_of cs) @ rest"
    using cs(2) takeWhile_dropWhile_id [of "\<lambda>b. b \<noteq> 0" "take n src"] by (simp add: text_of_def rest_def)
  then have "length (concat (map utf8_of cs)) + length rest = n" using assms by (metis length_append length_take min.absorb2)
  moreover have "src = concat (map utf8_of cs) @ rest @ drop n src" using whole by (metis append.assoc append_take_drop_id)
  ultimately show ?thesis
    using validate_complete [OF cs(1) rest, of "[]" "drop n src"] True by (simp add: utf8_validatestr_def)
next
  case False
  then have "validate_loop src 0 n \<noteq> Some 0" using validate_sound [of 0 n src] assms by auto
  then show ?thesis using validate_answers [of 0 n src] assms False by (auto simp: utf8_validatestr_def)
qed

theorem utf8_validatestr_correct_witness:
  "utf8_validatestr [0xC3, 0xA9] 2 =
    Some (if \<exists>cs. list_all scalar cs \<and> text_of (take 2 [0xC3, 0xA9]) = concat (map utf8_of cs) then 0 else EINVAL)"
  by (rule utf8_validatestr_correct) simp

end
