(* ===== verification/Utf8_Roundtrip.thy ===== *)
theory Utf8_Roundtrip
  imports Utf8_Codec
begin

text \<open>
  Encoding and decoding as a whole: what \<open>utf8_encodestr\<close> and \<open>utf8_decodestr\<close> make of a name given by its code
  points, that the second undoes the first, how \<open>utf8_encodelen\<close> relates to the first, and where the
  conversions fail.
\<close>

section \<open>Bits of a unit\<close>

lemma or_plus:
  assumes "k < 2 ^ n"
  shows "(m * 2 ^ n) OR k = m * 2 ^ n + (k :: nat)"
proof -
  have k: "take_bit n k = k" using assms by (simp add: take_bit_nat_eq_self)
  have "(m * 2 ^ n) AND k = take_bit n (m * 2 ^ n) AND k"
    by (metis and.assoc and.commute k take_bit_eq_mask)
  also have "take_bit n (m * 2 ^ n) = 0" by (simp add: take_bit_eq_mod)
  finally show ?thesis by (simp add: disjunctive_add_eq_or)
qed

lemma or_leads: "k < 64 \<Longrightarrow> 128 OR k = 128 + (k :: nat)" "k < 64 \<Longrightarrow> 192 OR k = 192 + k" "k < 32 \<Longrightarrow> 224 OR k = 224 + k"
  "k < 16 \<Longrightarrow> 240 OR k = 240 + k"
  using or_plus [of k 6 2] or_plus [of k 6 3] or_plus [of k 5 7] or_plus [of k 4 15] by simp_all

lemma unat_drop16: "unat (drop_bit n (c :: u16)) = unat c div 2 ^ n"
  by (simp only: unat_drop_bit_eq) (simp add: drop_bit_eq_div)

lemma unat_drop32: "unat (drop_bit n (c :: u32)) = unat c div 2 ^ n"
  by (simp only: unat_drop_bit_eq) (simp add: drop_bit_eq_div)

lemma and_63: "63 AND k = k mod (64 :: nat)"
proof -
  have "(63 :: nat) = mask 6" by (simp add: mask_eq_exp_minus_1)
  then have "take_bit 6 k = 63 AND k" by (simp only: take_bit_eq_mask and.commute)
  then show ?thesis by (simp add: take_bit_eq_mod)
qed

lemma byte_eq: "unat (w :: 'a::len word) = n \<Longrightarrow> (ucast w :: u8) = of_nat n"
  by (auto simp: word_unat_eq_iff unsigned_ucast_eq take_bit_eq_mod unat_of_nat)

lemma bytes2_utf8_of:
  assumes "0x80 \<le> c" "c < 0x800"
  shows "bytes2 (of_nat c) = utf8_of c"
proof -
  have u: "unat (of_nat c :: u16) = c" using assms by (simp add: unat16_small)
  have "c div 64 < 32" using assms by (simp add: less_mult_imp_div_less)
  then have "unat (0xC0 OR drop_bit 6 (of_nat c) :: u16) = 192 + c div 64"
    "unat (0x80 OR (0x3F AND of_nat c) :: u16) = 128 + c mod 64"
    by (simp_all add: unsigned_or_eq unsigned_and_eq unat_drop16 u or_leads and_63)
  then show ?thesis using assms by (simp add: bytes2_def utf8_of_def byte_eq)
qed

lemma bytes3_utf8_of:
  assumes "0x800 \<le> c" "c < 0x10000"
  shows "bytes3 (of_nat c) = utf8_of c"
proof -
  have u: "unat (of_nat c :: u16) = c" using assms by (simp add: unat16_small)
  have "c div 4096 < 16" using assms by (simp add: less_mult_imp_div_less)
  then have "unat (0xE0 OR drop_bit 12 (of_nat c) :: u16) = 224 + c div 4096"
    "unat (0x80 OR (0x3F AND drop_bit 6 (of_nat c)) :: u16) = 128 + c div 64 mod 64"
    "unat (0x80 OR (0x3F AND of_nat c) :: u16) = 128 + c mod 64"
    by (simp_all add: unsigned_or_eq unsigned_and_eq unat_drop16 u or_leads and_63)
  then show ?thesis using assms by (simp add: bytes3_def utf8_of_def byte_eq)
qed

lemma bytes4_utf8_of:
  assumes "0x10000 \<le> c" "c < 0x110000"
  shows "bytes4 (of_nat c) = utf8_of c"
proof -
  have u: "unat (of_nat c :: u32) = c" using assms by (simp add: unat32_small)
  have "c div 262144 < 16" using assms by (simp add: less_mult_imp_div_less)
  then have "unat (0xF0 OR drop_bit 18 (of_nat c) :: u32) = 240 + c div 262144"
    "unat (0x80 OR (0x3F AND drop_bit 12 (of_nat c)) :: u32) = 128 + c div 4096 mod 64"
    "unat (0x80 OR (0x3F AND drop_bit 6 (of_nat c)) :: u32) = 128 + c div 64 mod 64"
    "unat (0x80 OR (0x3F AND of_nat c) :: u32) = 128 + c mod 64"
    by (simp_all add: unsigned_or_eq unsigned_and_eq unat_drop32 u or_leads and_63)
  then show ?thesis using assms by (simp add: bytes4_def utf8_of_def byte_eq)
qed

lemma cmp16: "n < 65536 \<Longrightarrow> m < 65536 \<Longrightarrow> (of_nat n :: u16) < of_nat m \<longleftrightarrow> n < m"
  "n < 65536 \<Longrightarrow> m < 65536 \<Longrightarrow> (of_nat n :: u16) = of_nat m \<longleftrightarrow> n = m"
  by (simp_all add: word_less_nat_alt word_unat_eq_iff unat16_small)

lemma surrogates_unat:
  "high_surrogate c \<longleftrightarrow> 0xD800 \<le> unat c \<and> unat c < 0xDC00" "low_surrogate c \<longleftrightarrow> 0xDC00 \<le> unat c \<and> unat c < 0xE000"
proof -
  have "unat c < 65536" using unsigned_less [where 'b = 16 and 'a = nat, of c] by simp
  then have "unat (ucast c :: u32) = unat c" by (simp only: unsigned_ucast_eq) (simp add: take_bit_nat_eq_self)
  then show "high_surrogate c \<longleftrightarrow> 0xD800 \<le> unat c \<and> unat c < 0xDC00" "low_surrogate c \<longleftrightarrow> 0xDC00 \<le> unat c \<and> unat c < 0xE000"
    by (auto simp: high_surrogate_def low_surrogate_def surrogate_defs word_le_nat_alt)
qed

lemma surrogate_pair_eq:
  assumes "0x10000 \<le> c" "c < 0x110000"
  shows "surrogate_pair (of_nat (0xD800 + (c - 0x10000) div 1024)) (of_nat (0xDC00 + (c - 0x10000) mod 1024)) = of_nat c"
    and "high_surrogate (of_nat (0xD800 + (c - 0x10000) div 1024))"
    and "low_surrogate (of_nat (0xDC00 + (c - 0x10000) mod 1024))"
proof -
  define h l where "h = (c - 0x10000) div 1024" and "l = (c - 0x10000) mod 1024"
  have hl: "h < 1024" "l < 1024" "h * 1024 + l + 0x10000 = c"
    using assms by (simp_all add: h_def l_def less_mult_imp_div_less)
  have u: "unat (of_nat (0xD800 + h) :: u16) = 0xD800 + h" "unat (of_nat (0xDC00 + l) :: u16) = 0xDC00 + l"
    using hl by (simp_all only: unat16_small)
  have wide: "(ucast (of_nat n :: u16) :: u32) = of_nat n" if "n < 65536" for n
    using that by (simp add: word_unat_eq_iff unsigned_ucast_eq unat16_small unat32_small take_bit_nat_eq_self)
  show "surrogate_pair (of_nat (0xD800 + h)) (of_nat (0xDC00 + l)) = of_nat c"
    using arg_cong [OF hl(3), of "of_nat :: nat \<Rightarrow> u32"]
      wide [of "0xD800 + h"] wide [of "0xDC00 + l"] hl(1,2)
    by (simp add: surrogate_pair_def surrogate_defs push_bit_eq_mult)
  show "high_surrogate (of_nat (0xD800 + h))" "low_surrogate (of_nat (0xDC00 + l))"
    using hl u by (simp_all only: surrogates_unat) simp_all
qed

section \<open>The encoder\<close>

text \<open>A name may hold NULs and slashes, which the encoder replaces.\<close>

definition name_char :: "nat \<Rightarrow> bool" where
  "name_char c \<longleftrightarrow> c = 0 \<or> scalar c"

definition replaced :: "u16 \<Rightarrow> nat \<Rightarrow> nat" where
  "replaced altslash c =
    (if c = 0x2F then if altslash \<noteq> 0 then unat altslash else 0x5F else if c = 0 then 0x2400 else c)"

definition alt_ok :: "u16 \<Rightarrow> bool" where
  "alt_ok altslash \<longleftrightarrow> altslash = 0 \<or> scalar (unat altslash)"

definition plain_enc :: "enc_env \<Rightarrow> bool" where
  "plain_enc e \<longleftrightarrow> \<not> e_swapbytes e \<and> \<not> e_decompose e \<and> \<not> e_sfmconv e \<and> alt_ok (e_altslash e)"

definition slash_result :: "enc_env \<Rightarrow> nat \<Rightarrow> int \<Rightarrow> int" where
  "slash_result e c r = (if c = 0x2F \<and> e_altslash e = 0 then EINVAL else r)"

lemma no_slash_replaced:
  assumes "c < 0x10000"
  shows "no_slash e (of_nat c) s = (of_nat (replaced (e_altslash e) c), s\<lparr>e_result := slash_result e c (e_result s)\<rparr>)"
proof -
  have "(of_nat c :: u16) = 0x2F \<longleftrightarrow> c = 0x2F" "(of_nat c :: u16) = 0 \<longleftrightarrow> c = 0"
    using cmp16(2) [of c "0x2F"] cmp16(2) [of c 0] assms by simp_all
  then show ?thesis by (auto simp: no_slash_def replaced_def slash_result_def UCS_ALT_NULL_def)
qed

lemma scalar_replaced: "alt_ok a \<Longrightarrow> name_char c \<Longrightarrow> scalar (replaced a c)"
  by (auto simp: alt_ok_def name_char_def replaced_def scalar_def)

lemma replaced_small: "c < 0x10000 \<Longrightarrow> replaced a c < 0x10000"
  using unsigned_less [where 'b = 16 and 'a = nat, of a] by (simp add: replaced_def)

lemma replaced_large: "0x10000 \<le> c \<Longrightarrow> replaced a c = c"
  by (simp add: replaced_def)

lemma put_unit_small:
  assumes "scalar c" "c < 0x10000" "\<not> e_sfmconv e"
  shows "put_unit e us (of_nat c) s = Some (put_bytes e (utf8_of c) s)"
proof -
  have u: "unat (of_nat c :: u16) = c" using assms(2) by (simp add: unat16_small)
  have cmps: "(of_nat c :: u16) < 0x80 \<longleftrightarrow> c < 0x80" "(of_nat c :: u16) < 0x800 \<longleftrightarrow> c < 0x800"
    "(of_nat c :: u16) \<noteq> 0xFFFE" "(of_nat c :: u16) \<noteq> 0xFFFF" "\<not> high_surrogate (of_nat c)"
    using assms cmp16(1) [of c "0x80"] cmp16(1) [of c "0x800"] cmp16(2) [of c "0xFFFE"] cmp16(2) [of c "0xFFFF"]
    by (auto simp: surrogates_unat u scalar_def)
  have "(ucast (of_nat c :: u16) :: u8) = of_nat c" using u by (rule byte_eq)
  then show ?thesis
    using cmps assms bytes2_utf8_of [of c] bytes3_utf8_of [of c]
    by (simp add: put_unit_def) (auto simp: utf8_of_def not_less)
qed

lemma enc_turn_char:
  assumes e: "plain_enc e" and c: "name_char c" and us: "us = pre @ utf16_of c @ post"
    and s: "ucsp s = length pre" "chp s = []" "charcnt s = length (utf16_of c) + n"
  defines "bs \<equiv> utf8_of (replaced (e_altslash e) c)"
  shows "if int (length (utf8 s)) + int (length bs) \<le> e_bufend e
    then enc_turn e us s = Some (Continue (s\<lparr>ucsp := length (pre @ utf16_of c), charcnt := n, utf8 := utf8 s @ bs,
        e_result := slash_result e c (e_result s)\<rparr>))
    else \<exists>t. enc_turn e us s = Some (Return t) \<and> utf8 t = utf8 s \<and> e_result t = ENAMETOOLONG"
proof (cases "c < 0x10000")
  case True
  then have u16: "utf16_of c = [of_nat c]" by (simp add: utf16_of_def)
  define t where "t = s\<lparr>ucsp := length pre + 1, charcnt := n\<rparr>"
  have "next_unit e us s = Some (of_nat c, t)"
    using e s by (simp add: next_unit_def us u16 rd_at expand_def plain_enc_def swap16_def t_def)
  then have turn: "enc_turn e us s = Some (put_bytes e bs (t\<lparr>e_result := slash_result e c (e_result t)\<rparr>))"
    using s(3) u16 e no_slash_replaced [OF True, of e t] put_unit_small [OF scalar_replaced replaced_small [OF True], of "e_altslash e" e us] c
    by (simp add: enc_turn_def bs_def plain_enc_def)
  show ?thesis unfolding turn by (simp add: put_bytes_def t_def u16 bs_def)
next
  case False
  then have c2: "0x10000 \<le> c" "c < 0x110000" using c by (auto simp: name_char_def scalar_def)
  define h l :: u16 where "h = of_nat (0xD800 + (c - 0x10000) div 1024)" and "l = of_nat (0xDC00 + (c - 0x10000) mod 1024)"
  have u16: "utf16_of c = [h, l]" using False by (simp add: utf16_of_def h_def l_def)
  have pair: "surrogate_pair h l = of_nat c" "high_surrogate h" "low_surrogate l"
    unfolding h_def l_def using surrogate_pair_eq [OF c2] by blast+
  have hu: "0xD800 \<le> unat h \<and> unat h < 0xDC00" using pair(2) by (simp only: surrogates_unat)
  then have h: "\<not> h < 0x80" "\<not> h < 0x800" "h \<noteq> 0xFFFE" "h \<noteq> 0xFFFF" "h \<noteq> 0x2F" "h \<noteq> 0"
    by (auto simp: word_less_nat_alt)
  define t where "t = s\<lparr>ucsp := length pre + 1, charcnt := Suc n\<rparr>"
  have "next_unit e us s = Some (h, t)"
    using e s by (simp add: next_unit_def us u16 rd_at expand_def plain_enc_def swap16_def t_def)
  moreover have "no_slash e h t = (h, t)" using h by (simp add: no_slash_def)
  moreover have "put_unit e us h t = Some (put_pair e h l t)"
    using h pair e by (simp add: put_unit_def t_def us u16 rd_at plain_enc_def swap16_def)
  ultimately have turn: "enc_turn e us s = Some (put_pair e h l t)"
    using s(3) u16 by (simp add: enc_turn_def)
  have "bytes4 (surrogate_pair h l) = bs" using bytes4_utf8_of [OF c2] pair(1) replaced_large [OF c2(1)] by (simp add: bs_def)
  then show ?thesis unfolding turn using False by (simp add: put_pair_def put_bytes_def t_def u16 slash_result_def)
qed

text \<open>The pieces that fit into what is left of a buffer.\<close>

fun fitting :: "int \<Rightarrow> 'a list list \<Rightarrow> 'a list list" where
  "fitting lim [] = []"
| "fitting lim (x # xs) = (if int (length x) \<le> lim then x # fitting (lim - int (length x)) xs else [])"

lemma fitting_all: "int (length (concat xs)) \<le> lim \<Longrightarrow> fitting lim xs = xs"
  by (induction xs arbitrary: lim) auto

lemma enc_loop_name:
  assumes e: "plain_enc e"
  shows "list_all name_char cs \<Longrightarrow> ucsp s = length pre \<Longrightarrow> chp s = [] \<Longrightarrow> charcnt s = length (concat (map utf16_of cs)) \<Longrightarrow>
    \<exists>t. enc_loop e (pre @ concat (map utf16_of cs) @ post) s = Some t
      \<and> utf8 t = utf8 s @ concat (fitting (e_bufend e - int (length (utf8 s))) (map (\<lambda>c. utf8_of (replaced (e_altslash e) c)) cs))
      \<and> e_result t =
        (if int (length (utf8 s)) + int (length (concat (map (\<lambda>c. utf8_of (replaced (e_altslash e) c)) cs))) \<le> e_bufend e \<or> cs = []
         then if e_altslash e = 0 \<and> 0x2F \<in> set cs then EINVAL else e_result s else ENAMETOOLONG)"
proof (induction cs arbitrary: s pre)
  case Nil
  then show ?case by (subst enc_loop.simps) (simp add: enc_turn_def)
next
  case (Cons c cs)
  let ?piece = "\<lambda>c. utf8_of (replaced (e_altslash e) c)"
  let ?us = "pre @ concat (map utf16_of (c # cs)) @ post"
  have c: "name_char c" and cs: "list_all name_char cs" using Cons.prems(1) by simp_all
  have us: "?us = pre @ utf16_of c @ (concat (map utf16_of cs) @ post)" by simp
  note turn = enc_turn_char [OF e c us Cons.prems(2,3), of "length (concat (map utf16_of cs))"]
  show ?case
  proof (cases "int (length (utf8 s)) + int (length (?piece c)) \<le> e_bufend e")
    case True
    define t where "t = s\<lparr>ucsp := length (pre @ utf16_of c), charcnt := length (concat (map utf16_of cs)),
      utf8 := utf8 s @ ?piece c, e_result := slash_result e c (e_result s)\<rparr>"
    have "enc_turn e ?us s = Some (Continue t)" using turn True Cons.prems(4) by (simp add: t_def)
    then have step: "enc_loop e ?us s = enc_loop e ?us t" by (subst enc_loop.simps) simp
    obtain u where u: "enc_loop e ((pre @ utf16_of c) @ concat (map utf16_of cs) @ post) t = Some u"
      "utf8 u = utf8 t @ concat (fitting (e_bufend e - int (length (utf8 t))) (map ?piece cs))"
      "e_result u = (if int (length (utf8 t)) + int (length (concat (map ?piece cs))) \<le> e_bufend e \<or> cs = []
         then if e_altslash e = 0 \<and> 0x2F \<in> set cs then EINVAL else e_result t else ENAMETOOLONG)"
      using Cons.IH [OF cs, of t "pre @ utf16_of c"] Cons.prems(3) by (auto simp: t_def)
    have lim: "e_bufend e - int (length (utf8 t)) = e_bufend e - int (length (utf8 s)) - int (length (?piece c))"
      by (simp add: t_def)
    have "utf8 u = utf8 s @ concat (fitting (e_bufend e - int (length (utf8 s))) (map ?piece (c # cs)))"
      using u(2) True unfolding lim by (simp add: t_def)
    moreover have "e_result u = (if int (length (utf8 s)) + int (length (concat (map ?piece (c # cs)))) \<le> e_bufend e \<or> c # cs = []
         then if e_altslash e = 0 \<and> 0x2F \<in> set (c # cs) then EINVAL else e_result s else ENAMETOOLONG)"
      using u(3) True by (auto simp: t_def slash_result_def)
    ultimately show ?thesis using step u(1) by (simp del: length_utf8_of)
  next
    case False
    then obtain t where t: "enc_turn e ?us s = Some (Return t)" "utf8 t = utf8 s" "e_result t = ENAMETOOLONG"
      using turn Cons.prems(4) by auto
    then have "enc_loop e ?us s = Some t" by (subst enc_loop.simps) simp
    then show ?thesis using False t by (simp del: length_utf8_of)
  qed
qed

section \<open>The buffer of the encoder\<close>

lemma put_bytes_room: "put_bytes e bs s = Continue t \<Longrightarrow> int (length (utf8 t)) \<le> e_bufend e"
  "put_bytes e bs s = Return t \<Longrightarrow> utf8 t = utf8 s"
  by (auto simp: put_bytes_def split: if_splits)

lemma put_pair_room: "put_pair e ch ch2 s = Continue t \<Longrightarrow> int (length (utf8 t)) \<le> e_bufend e"
  "put_pair e ch ch2 s = Return t \<Longrightarrow> utf8 t = utf8 s"
  by (auto simp: put_pair_def put_bytes_room split: outcome.splits dest: put_bytes_room)

lemma put_unit_room: "put_unit e us ch s = Some (Continue t) \<Longrightarrow> int (length (utf8 t)) \<le> e_bufend e"
  "put_unit e us ch s = Some (Return t) \<Longrightarrow> utf8 t = utf8 s"
  by (auto simp: put_unit_def Let_def dest: put_bytes_room put_pair_room split: if_splits bind_splits)

lemma next_unit_keeps: "next_unit e us s = Some (ch, t) \<Longrightarrow> utf8 t = utf8 s"
  by (auto simp: next_unit_def split: list.splits bind_splits)

lemma enc_turn_room:
  "enc_turn e us s = Some (Continue t) \<Longrightarrow> int (length (utf8 t)) \<le> e_bufend e"
  "enc_turn e us s = Some (Return t) \<Longrightarrow> utf8 t = utf8 s"
  by (auto simp: enc_turn_def dest!: next_unit_keeps no_slash_keeps put_unit_room split: if_splits bind_splits prod.splits)

lemma enc_loop_room:
  "enc_loop e us s = Some t \<Longrightarrow> utf8 s = [] \<or> int (length (utf8 s)) \<le> e_bufend e \<Longrightarrow>
    utf8 t = [] \<or> int (length (utf8 t)) \<le> e_bufend e"
proof (induction e us s rule: enc_loop.induct)
  case (1 e us s)
  note loop = "1.prems"(1) [unfolded enc_loop.simps [of e us s]]
  then obtain r where r: "enc_turn e us s = Some r" by (auto split: option.splits)
  show ?case
  proof (cases r)
    case (Continue u)
    then show ?thesis using "1.IH" [OF r Continue] loop r enc_turn_room(1) [of e us s u] by simp
  next
    case (Return u)
    then show ?thesis using loop r enc_turn_room(2) [of e us s u] "1.prems"(2) by simp
  qed (use loop r in simp)
qed


lemma encodestr_name:
  assumes "list_all name_char cs" "alt_ok altslash" "0 < buflen"
  defines "us \<equiv> concat (map utf16_of cs)" and "pieces \<equiv> map (\<lambda>c. utf8_of (replaced altslash c)) cs"
  shows "utf8_encodestr us (2 * length us) buflen altslash 0 =
    Some (if length (concat pieces) < buflen then if altslash = 0 \<and> 0x2F \<in> set cs then EINVAL else 0 else ENAMETOOLONG,
          length (concat (fitting (int buflen - 1) pieces)), concat (fitting (int buflen - 1) pieces) @ [0])"
proof -
  let ?e = "encode_env buflen altslash 0"
  have e: "plain_enc ?e" "e_bufend ?e = int buflen - 1" "e_altslash ?e = altslash"
    using assms(2) by (simp_all add: plain_enc_def encode_env_def)
  obtain t where t: "enc_loop ?e us \<lparr>ucsp = 0, chp = [], charcnt = length us, utf8 = [], e_result = 0\<rparr> = Some t"
    "utf8 t = concat (fitting (int buflen - 1) pieces)"
    "e_result t = (if int (length (concat pieces)) \<le> int buflen - 1 \<or> cs = []
      then if altslash = 0 \<and> 0x2F \<in> set cs then EINVAL else 0 else ENAMETOOLONG)"
    using enc_loop_name [OF e(1) assms(1), of "\<lparr>ucsp = 0, chp = [], charcnt = length us, utf8 = [], e_result = 0\<rparr>" "[]" "[]"]
    by (auto simp: e(2,3) us_def pieces_def)
  have "int (length (concat pieces)) \<le> int buflen - 1 \<or> cs = [] \<longleftrightarrow> length (concat pieces) < buflen"
    using assms(3) by (auto simp: pieces_def)
  then show ?thesis using t by (simp add: utf8_encodestr_def del: length_concat)
qed

section \<open>Properties of the encoder\<close>

text \<open>C30: \<open>utf8_encodestr\<close> without flags, with at least one byte of buffer and a slash replacement that is
  0 or a valid character, on a name given by its code points, valid characters
  and NULs. It writes the UTF-8 forms of the code points
  after putting the replacement for each slash (an underscore when there is none) and U+2400 for each NUL.
  If they do not fit in front of the terminator, it writes the forms of the longest beginning that does and
  answers ENAMETOOLONG; if they do, it answers EINVAL when a slash had no replacement and 0 otherwise.\<close>

theorem utf8_encodestr_correct:
  assumes "list_all name_char cs" "alt_ok altslash" "0 < buflen"
  defines "us \<equiv> concat (map utf16_of cs)" and "pieces \<equiv> map (\<lambda>c. utf8_of (replaced altslash c)) cs"
  shows "utf8_encodestr us (2 * length us) buflen altslash 0 =
    Some (if length (concat pieces) < buflen then if altslash = 0 \<and> 0x2F \<in> set cs then EINVAL else 0 else ENAMETOOLONG,
          length (concat (fitting (int buflen - 1) pieces)), concat (fitting (int buflen - 1) pieces) @ [0])"
  unfolding us_def pieces_def by (rule encodestr_name [OF assms(1-3)])

theorem utf8_encodestr_correct_witness:
  "list_all name_char [0x2F, 0x1F600] \<and>
   utf8_encodestr (concat (map utf16_of [0x2F, 0x1F600])) (2 * length (concat (map utf16_of [0x2F, 0x1F600]))) 10 0x3A 0 =
    Some (if length (concat (map (\<lambda>c. utf8_of (replaced 0x3A c)) [0x2F, 0x1F600])) < 10
            then if (0x3A :: u16) = 0 \<and> (0x2F :: nat) \<in> set [0x2F, 0x1F600] then EINVAL else 0 else ENAMETOOLONG,
          length (concat (fitting (int 10 - 1) (map (\<lambda>c. utf8_of (replaced 0x3A c)) [0x2F, 0x1F600]))),
          concat (fitting (int 10 - 1) (map (\<lambda>c. utf8_of (replaced 0x3A c)) [0x2F, 0x1F600])) @ [0])"
proof
  show cs: "list_all name_char [0x2F, 0x1F600]" by (simp add: name_char_def scalar_def)
  show "utf8_encodestr (concat (map utf16_of [0x2F, 0x1F600])) (2 * length (concat (map utf16_of [0x2F, 0x1F600]))) 10 0x3A 0 =
    Some (if length (concat (map (\<lambda>c. utf8_of (replaced 0x3A c)) [0x2F, 0x1F600])) < 10
            then if (0x3A :: u16) = 0 \<and> (0x2F :: nat) \<in> set [0x2F, 0x1F600] then EINVAL else 0 else ENAMETOOLONG,
          length (concat (fitting (int 10 - 1) (map (\<lambda>c. utf8_of (replaced 0x3A c)) [0x2F, 0x1F600]))),
          concat (fitting (int 10 - 1) (map (\<lambda>c. utf8_of (replaced 0x3A c)) [0x2F, 0x1F600])) @ [0])"
    by (rule utf8_encodestr_correct [OF cs]) (simp_all add: alt_ok_def scalar_def)
qed

text \<open>Whatever the units, the flags and the replacement, \<open>utf8_encodestr\<close> writes at most the bytes of its buffer,
  the terminator included, if there is room for the terminator at all.\<close>

theorem utf8_encodestr_bounded:
  assumes "0 < buflen" "utf8_encodestr us ucslen buflen altslash flags = Some (r, n, out)"
  shows "length out \<le> buflen"
proof -
  let ?e = "encode_env buflen altslash flags"
  obtain s where s: "enc_loop ?e us \<lparr>ucsp = 0, chp = [], charcnt = ucslen div 2, utf8 = [], e_result = 0\<rparr> = Some s"
    "out = utf8 s @ (if flags AND UTF_NO_NULL_TERM = 0 then [0] else [])"
    using assms(2) by (auto simp: utf8_encodestr_def split: bind_splits)
  then show ?thesis using enc_loop_room [OF s(1)] assms(1) by (auto simp: encode_env_def split: if_splits)
qed

theorem utf8_encodestr_bounded_witness:
  "utf8_encodestr [0x41, 0xE9] 4 2 0 0 = Some (ENAMETOOLONG, 1, [0x41, 0]) \<and> length [0x41, 0 :: u8] \<le> 2"
proof
  have cs: "list_all name_char [0x41, 0xE9]" by (simp add: name_char_def scalar_def)
  show run: "utf8_encodestr [0x41, 0xE9] 4 2 0 0 = Some (ENAMETOOLONG, 1, [0x41, 0])"
    using encodestr_name [OF cs, of 0 2] by (simp add: alt_ok_def utf16_of_def utf8_of_def replaced_def)
  show "length [0x41, 0 :: u8] \<le> 2" by (rule utf8_encodestr_bounded [OF _ run]) simp
qed

section \<open>The decoder\<close>

text \<open>Names in canonical order: each run of combining characters sorted by class, stably. The first argument is
  the run so far.\<close>

fun canon :: "u16 list \<Rightarrow> u16 list \<Rightarrow> u16 list" where
  "canon run [] = sort_key combining_class run"
| "canon run (c # r) =
    (if combinable c then canon (run @ [c]) r else sort_key combining_class run @ c # canon [] r)"

text \<open>The units a code point is decoded to: the replacements for NUL and slash are undone.\<close>

definition decoded :: "u16 \<Rightarrow> nat \<Rightarrow> u16 list" where
  "decoded altslash c =
    (if c < 0x10000
     then let u = (if c = 0x2400 then 0 else of_nat c) in [if u = altslash then 0x2F else u]
     else utf16_of c)"

text \<open>No pair of surrogates directly behind a combining character (\<open>b\<close>: the name so far ends with one): the
  decoder does not end the run there.\<close>

fun settled :: "bool \<Rightarrow> u16 list list \<Rightarrow> bool" where
  "settled b [] = True"
| "settled b (us # r) =
    (if length us = 1 then settled (combinable (hd us)) r else \<not> b \<and> settled False r)"

definition plain_dec :: "dec_env \<Rightarrow> bool" where
  "plain_dec e \<longleftrightarrow> \<not> d_swapbytes e \<and> \<not> d_decompose e \<and> \<not> d_precompose e \<and> \<not> d_sfmconv e"

lemma sort_run_end:
  "sort_run (int (length run)) (out @ run) = Some (out @ sort_key combining_class run)"
proof (cases "1 < length run")
  case False
  then have "run = [] \<or> (\<exists>x. run = [x])" by (cases run) (auto simp: length_0_conv)
  then show ?thesis by (auto simp: sort_run_def)
qed (simp add: sort_run_def priortysort_eq sort_loop_stable)

lemma not_combinable_surrogate:
  assumes "0xD800 \<le> unat c" "unat c < 0xE000"
  shows "\<not> combinable c"
proof -
  have k: "unat (drop_bit 8 c) \<in> set [216..<224]" using assms by (auto simp: unat_drop16 div_le_mono less_mult_imp_div_less)
  have "list_all (\<lambda>k. CombiningBitmap ! k = 0) [216..<224]"
    by (simp add: upt_rec CombiningBitmap_def CombiningPages_def)
  then have "CombiningBitmap ! unat (drop_bit 8 c) = 0" using k by (simp only: list_all_iff)
  moreover have "unat (drop_bit 8 c) < 256" using k by auto
  ultimately have "in_bitmap CombiningBitmap c = Some False" by (simp add: in_bitmap_def page_index)
  then have "unicode_combinable c = Some False" unfolding unicode_combinable_def by auto
  then show ?thesis by simp
qed

lemma put_ucs_run:
  fixes ch :: u16
  assumes "\<not> d_swapbytes e" "ucs s = out @ run" "combcharcnt s = int (length run)"
  defines "u \<equiv> if ch = d_altslash e then 0x2F else ch"
  shows "put_ucs e ch s = Some (Continue
    (if combinable u then s\<lparr>ucs := out @ (run @ [u]), combcharcnt := int (length (run @ [u]))\<rparr>
     else s\<lparr>ucs := (out @ sort_key combining_class run @ [u]) @ [], combcharcnt := int (length ([] :: u16 list))\<rparr>))"
proof -
  have "put_ucs e ch s = do {
      out \<leftarrow> (if combinable u then Some (ucs s) else sort_run (combcharcnt s) (ucs s));
      Some (Continue (s\<lparr>ucs := out @ [u], combcharcnt := (if combinable u then combcharcnt s + 1 else 0)\<rparr>)) }"
    unfolding put_ucs_def Let_def u_def [symmetric] unicode_combinable_eq Option.bind.bind_lunit
    using assms(1) by (simp only: swap16_def if_False)
  then show ?thesis by (cases "combinable u") (simp_all add: assms(2,3) sort_run_end)
qed

lemma put_surrogates_pair:
  assumes c: "0x10000 \<le> c" "c < 0x110000" and e: "\<not> d_swapbytes e" "2 * (length (ucs s) + 2) \<le> d_buflen e"
  shows "put_surrogates e lead (of_nat (c - 0x10000)) s0 s = Some (Continue (s\<lparr>ucs := ucs s @ utf16_of c\<rparr>))"
proof -
  define h l where "h = (c - 0x10000) div 1024" and "l = (c - 0x10000) mod 1024"
  have hl: "h < 1024" "l < 1024" using c by (simp_all add: h_def l_def less_mult_imp_div_less)
  have u: "unat (of_nat (c - 0x10000) :: u32) = c - 0x10000" by (rule unat32_small) (use c in simp)
  have "(0x3FF :: nat) = mask 10" by (simp add: mask_eq_exp_minus_1)
  then have "(c - 0x10000) AND 0x3FF = l" by (simp only: l_def flip: take_bit_eq_mask) (simp add: take_bit_eq_mod)
  then have lo: "(of_nat (c - 0x10000) AND SP_HALF_MASK) + SP_LOW_FIRST = of_nat (0xDC00 + l)"
    using hl u by (simp add: word_unat_eq_iff surrogate_defs unsigned_and_eq unat_word_ariths unat_of_nat)
  have hi: "drop_bit SP_HALF_SHIFT (of_nat (c - 0x10000)) + SP_HIGH_FIRST = (of_nat (0xD800 + h) :: u32)"
    using hl u by (simp add: word_unat_eq_iff surrogate_defs unat_drop32 unat_word_ariths unat_of_nat h_def)
  have range: "\<not> (of_nat (0xDC00 + l) < SP_LOW_FIRST \<or> of_nat (0xDC00 + l) > SP_LOW_LAST)"
    using less32 [of "0xDC00 + l" "0xDC00"] less32 [of "0xDFFF" "0xDC00 + l"] hl(2) by (simp add: surrogate_defs)
  have narrow: "(ucast (of_nat n :: u32) :: u16) = of_nat n" if "n < 65536" for n
    using that by (simp add: word_unat_eq_iff unsigned_ucast_eq unat16_small unat32_small take_bit_nat_eq_self)
  have "utf16_of c = [of_nat (0xD800 + h), of_nat (0xDC00 + l)]" using c by (simp add: utf16_of_def h_def l_def)
  then show ?thesis
    using e narrow [of "0xD800 + h"] narrow [of "0xDC00 + l"] hl range
    unfolding put_surrogates_def lo hi Let_def by (simp add: no_room_def swap16_def)
qed

lemma put_lead_char:
  assumes c: "scalar c" "0x80 \<le> c" "utf8_of c = lead # r" and src: "src = pre @ r @ post"
    and s: "utf8p s = length pre" "utf8len s = length r + n"
  shows "put_lead e src lead s =
    (if c < 0x10000 then put_character e (of_nat c) (s\<lparr>utf8len := n, utf8p := length (pre @ r)\<rparr>)
     else put_surrogates e lead (of_nat (c - 0x10000)) (s\<lparr>utf8len := n\<rparr>) (s\<lparr>utf8len := n, utf8p := length (pre @ r)\<rparr>))"
proof -
  have lr: "length r = tail_length c" using length_utf8_of [of c] c(3) by simp
  have pos: "0 < tail_length c" using c(2) by (simp add: tail_length_def)
  have "tail_length c = 3 \<longleftrightarrow> \<not> c < 0x10000" by (simp add: tail_length_def)
  moreover note m = multibyte_utf8_of [OF c, of pre post]
  moreover have "(ucast (of_nat c :: u32) :: u16) = of_nat c" if "c < 0x10000"
    using that by (simp add: word_unat_eq_iff unsigned_ucast_eq unat16_small unat32_small take_bit_nat_eq_self)
  ultimately show ?thesis using s pos lr by (simp add: put_lead_def src Let_def)
qed

lemma put_character_plain:
  assumes "plain_dec e" "c < 0x10000"
  shows "put_character e (of_nat c) s = put_ucs e (if c = 0x2400 then 0 else of_nat c) s"
proof -
  have "(of_nat c :: u16) = 0x2400 \<longleftrightarrow> c = 0x2400" using cmp16(2) [of c "0x2400"] assms(2) by simp
  then show ?thesis using assms(1) by (simp add: put_character_def plain_dec_def compose_def UCS_ALT_NULL_def)
qed

text \<open>A turn on a code point below the surrogates hands its unit to \<open>put_ucs\<close>.\<close>

lemma dec_turn_unit:
  assumes e: "plain_dec e" and c: "scalar c" "c < 0x10000" and src: "src = pre @ utf8_of c @ post"
    and s: "utf8p s = length pre" "utf8len s = length (utf8_of c) + n" and room: "2 * (length (ucs s) + 1) \<le> d_buflen e"
  shows "dec_turn e src s = put_ucs e (if c = 0x2400 then 0 else of_nat c)
    (s\<lparr>utf8len := n, utf8p := length (pre @ utf8_of c)\<rparr>)"
proof (cases "c < 0x80")
  case True
  then have u8: "utf8_of c = [of_nat c]" by (simp add: utf8_of_def)
  have u: "unat (of_nat c :: u8) = c" using True by (simp add: unat8_small)
  then have b: "(of_nat c :: u8) < 0x80" "(of_nat c :: u8) \<noteq> 0" using True c(1) by (auto simp: byte_less_80 scalar_def)
  have "(ucast (of_nat c :: u8) :: u16) = of_nat c"
    using True by (simp add: word_unat_eq_iff unsigned_ucast_eq unat16_small u take_bit_nat_eq_self)
  then show ?thesis
    using b s room e True by (simp add: dec_turn_def src u8 rd_at no_room_def plain_dec_def)
next
  case False
  obtain lead r where u8: "utf8_of c = lead # r" by (cases "utf8_of c") (auto dest: arg_cong [of _ _ length])
  have c80: "0x80 \<le> c" using False by simp
  have "128 \<le> unat lead" using multibyte_utf8_of [OF c(1) c80 u8] by blast
  then have b: "\<not> lead < 0x80" "lead \<noteq> 0" by (auto simp: byte_less_80)
  define t where "t = s\<lparr>utf8len := length r + n, utf8p := length (pre @ [lead])\<rparr>"
  have "dec_turn e src s = put_lead e src lead t"
    using b s room by (simp add: dec_turn_def src u8 rd_at no_room_def t_def)
  also have "\<dots> = put_character e (of_nat c) (t\<lparr>utf8len := n, utf8p := length (pre @ utf8_of c)\<rparr>)"
    using put_lead_char [OF c(1) c80 u8, of src "pre @ [lead]" post t n e] c(2) by (simp add: src u8 t_def)
  finally show ?thesis using put_character_plain [OF e c(2)] by (simp add: t_def)
qed

lemma dec_turn_pair:
  assumes e: "plain_dec e" and c: "scalar c" "0x10000 \<le> c" and src: "src = pre @ utf8_of c @ post"
    and s: "utf8p s = length pre" "utf8len s = length (utf8_of c) + n" and room: "2 * (length (ucs s) + 2) \<le> d_buflen e"
  shows "dec_turn e src s =
    Some (Continue (s\<lparr>utf8len := n, utf8p := length (pre @ utf8_of c), ucs := ucs s @ utf16_of c\<rparr>))"
proof -
  obtain lead r where u8: "utf8_of c = lead # r" by (cases "utf8_of c") (auto dest: arg_cong [of _ _ length])
  have c80: "0x80 \<le> c" and c11: "c < 0x110000" using c by (simp_all add: scalar_def)
  have "128 \<le> unat lead" using multibyte_utf8_of [OF c(1) c80 u8] by blast
  then have b: "\<not> lead < 0x80" "lead \<noteq> 0" by (auto simp: byte_less_80)
  define t where "t = s\<lparr>utf8len := length r + n, utf8p := length (pre @ [lead])\<rparr>"
  have "dec_turn e src s = put_lead e src lead t"
    using b s room by (simp add: dec_turn_def src u8 rd_at no_room_def t_def)
  also have "\<dots> = put_surrogates e lead (of_nat (c - 0x10000)) (t\<lparr>utf8len := n\<rparr>)
      (t\<lparr>utf8len := n, utf8p := length (pre @ utf8_of c)\<rparr>)"
    using put_lead_char [OF c(1) c80 u8, of src "pre @ [lead]" post t n e] c(2) by (simp add: src u8 t_def)
  also have "\<dots> = Some (Continue (t\<lparr>utf8len := n, utf8p := length (pre @ utf8_of c), ucs := ucs s @ utf16_of c\<rparr>))"
    using put_surrogates_pair [OF c(2) c11, of e "t\<lparr>utf8len := n, utf8p := length (pre @ utf8_of c)\<rparr>"] e room
    by (simp add: plain_dec_def t_def)
  finally show ?thesis by (simp add: t_def)
qed

lemma length_decoded: "length (decoded a c) = length (utf16_of c)"
  by (simp add: decoded_def Let_def)

lemma canon_surrogates:
  assumes "0x10000 \<le> c" "c < 0x110000"
  shows "canon [] (utf16_of c @ us) = utf16_of c @ canon [] us"
proof -
  have "high_surrogate (of_nat (0xD800 + (c - 0x10000) div 1024))" "low_surrogate (of_nat (0xDC00 + (c - 0x10000) mod 1024))"
    using surrogate_pair_eq [OF assms] by blast+
  then have "\<not> combinable (of_nat (0xD800 + (c - 0x10000) div 1024))" "\<not> combinable (of_nat (0xDC00 + (c - 0x10000) mod 1024))"
    unfolding surrogates_unat by (intro not_combinable_surrogate; linarith)+
  then show ?thesis using assms by (simp add: utf16_of_def del: of_nat_add)
qed

lemma dec_loop_name:
  assumes e: "plain_dec e"
  shows "list_all scalar cs \<Longrightarrow> settled (run \<noteq> []) (map (decoded (d_altslash e)) cs) \<Longrightarrow> utf8p s = length pre \<Longrightarrow>
    utf8len s = length (concat (map utf8_of cs)) \<Longrightarrow> ucs s = out @ run \<Longrightarrow> combcharcnt s = int (length run) \<Longrightarrow>
    2 * (length (ucs s) + length (concat (map (decoded (d_altslash e)) cs))) \<le> d_buflen e \<Longrightarrow>
    \<exists>t. dec_loop e (pre @ concat (map utf8_of cs) @ post) s = Some (0, t)
      \<and> ucs t = out @ canon run (concat (map (decoded (d_altslash e)) cs))"
proof (induction cs arbitrary: s pre out run)
  case Nil
  then have "dec_turn e (pre @ concat (map utf8_of []) @ post) s = dec_finish s" by (simp add: dec_turn_def)
  then show ?case
    using Nil sort_run_end [of run out] by (subst dec_loop.simps) (simp add: dec_finish_def)
next
  case (Cons c cs)
  let ?a = "d_altslash e"
  let ?src = "pre @ concat (map utf8_of (c # cs)) @ post"
  have c: "scalar c" and cs: "list_all scalar cs" using Cons.prems(1) by simp_all
  have src: "?src = pre @ utf8_of c @ (concat (map utf8_of cs) @ post)" "?src = (pre @ utf8_of c) @ concat (map utf8_of cs) @ post"
    by simp_all
  have left: "utf8len s = length (utf8_of c) + length (concat (map utf8_of cs))" using Cons.prems(4) by simp
  have turns: "dec_loop e ?src s = dec_loop e ((pre @ utf8_of c) @ concat (map utf8_of cs) @ post) t"
    if "dec_turn e ?src s = Some (Continue t)" for t
    unfolding src(2) [symmetric] by (subst dec_loop.simps) (simp only: that option.case outcome.case)
  show ?case
  proof (cases "c < 0x10000")
    case True
    define ch :: u16 where "ch = (if c = 0x2400 then 0 else of_nat c)"
    define u where "u = (if ch = ?a then 0x2F else ch)"
    have dec: "decoded ?a c = [u]" using True by (simp add: decoded_def u_def ch_def)
    define s' where "s' = s\<lparr>utf8len := length (concat (map utf8_of cs)), utf8p := length (pre @ utf8_of c)\<rparr>"
    have "2 * (length (ucs s) + 1) \<le> d_buflen e" using Cons.prems(7) dec by simp
    then have turn: "dec_turn e ?src s = put_ucs e ch s'"
      unfolding s'_def ch_def by (rule dec_turn_unit [OF e c True src(1) Cons.prems(3) left])
    have run: "\<not> d_swapbytes e" "ucs s' = out @ run" "combcharcnt s' = int (length run)"
      using e Cons.prems(5,6) by (simp_all add: plain_dec_def s'_def)
    show ?thesis
    proof (cases "combinable u")
      case comb: True
      let ?t = "s'\<lparr>ucs := out @ (run @ [u]), combcharcnt := int (length (run @ [u]))\<rparr>"
      have "dec_turn e ?src s = Some (Continue ?t)"
        using turn put_ucs_run [OF run, of ch] comb by (simp only: u_def if_True)
      from turns [OF this] show ?thesis
        using Cons.IH [OF cs, of "run @ [u]" ?t "pre @ utf8_of c" out] Cons.prems dec comb True
        by (simp add: s'_def)
    next
      case ncomb: False
      let ?t = "s'\<lparr>ucs := (out @ sort_key combining_class run @ [u]) @ [], combcharcnt := int (length ([] :: u16 list))\<rparr>"
      have "dec_turn e ?src s = Some (Continue ?t)"
        using turn put_ucs_run [OF run, of ch] ncomb by (simp only: u_def if_False)
      from turns [OF this] show ?thesis
        using Cons.IH [OF cs, of "[]" ?t "pre @ utf8_of c" "out @ sort_key combining_class run @ [u]"] Cons.prems dec ncomb True
        by (simp add: s'_def)
    qed
  next
    case False
    then have big: "0x10000 \<le> c" "c < 0x110000" using c by (simp_all add: scalar_def)
    have dec: "decoded ?a c = utf16_of c" using False by (simp add: decoded_def)
    have run: "run = []" using Cons.prems(2) False dec by simp
    have "2 * (length (ucs s) + 2) \<le> d_buflen e" using Cons.prems(7) dec False by simp
    from turns [OF dec_turn_pair [OF e c big(1) src(1) Cons.prems(3) left this]] show ?thesis
      using Cons.IH [OF cs, of "[]" "s\<lparr>utf8len := length (concat (map utf8_of cs)), utf8p := length (pre @ utf8_of c), ucs := ucs s @ utf16_of c\<rparr>"
          "pre @ utf8_of c" "out @ utf16_of c"] Cons.prems dec False run canon_surrogates [OF big]
      by simp
  qed
qed


section \<open>Properties of the decoder\<close>

lemma length_canon [simp]: "length (canon run us) = length run + length us"
  by (induction run us rule: canon.induct) auto

lemma decodestr_name:
  assumes "list_all scalar cs" "settled False (map (decoded altslash) cs)"
    "2 * length (concat (map (decoded altslash) cs)) \<le> buflen"
  shows "utf8_decodestr (concat (map utf8_of cs)) (length (concat (map utf8_of cs))) buflen altslash 0 =
    Some (0, 2 * length (concat (map (decoded altslash) cs)), canon [] (concat (map (decoded altslash) cs)))"
proof -
  let ?e = "decode_env buflen altslash 0"
  let ?s = "\<lparr>utf8p = 0, utf8len = length (concat (map utf8_of cs)), ucs = [], combcharcnt = 0\<rparr>"
  have e: "plain_dec ?e" "d_altslash ?e = altslash" "d_buflen ?e = buflen" by (simp_all add: plain_dec_def decode_env_def)
  have "\<exists>t. dec_loop ?e (concat (map utf8_of cs)) ?s = Some (0, t) \<and> ucs t = canon [] (concat (map (decoded altslash) cs))"
    using dec_loop_name [OF e(1) assms(1), of "[]" ?s "[]" "[]" "[]"] assms(2,3) by (simp add: e(2,3))
  then show ?thesis by (auto simp: utf8_decodestr_def simp del: length_concat)
qed

text \<open>\<open>utf8_decodestr\<close> on the UTF-8 form of a sequence of code points, with enough room, writes their units with
  the replacements for NUL and slash undone and each run of combining characters in canonical order
  (unless a pair of surrogates stands directly behind a combining character).\<close>

theorem utf8_decodestr_correct:
  assumes "list_all scalar cs" "settled False (map (decoded altslash) cs)"
    "2 * length (concat (map (decoded altslash) cs)) \<le> buflen"
  shows "utf8_decodestr (concat (map utf8_of cs)) (length (concat (map utf8_of cs))) buflen altslash 0 =
    Some (0, 2 * length (concat (map (decoded altslash) cs)), canon [] (concat (map (decoded altslash) cs)))"
  by (rule decodestr_name [OF assms])

theorem utf8_decodestr_correct_witness:
  "list_all scalar [0x61, 0x1F600] \<and>
   utf8_decodestr (concat (map utf8_of [0x61, 0x1F600])) (length (concat (map utf8_of [0x61, 0x1F600]))) 6 0x3A 0 =
    Some (0, 2 * length (concat (map (decoded 0x3A) [0x61, 0x1F600])), canon [] (concat (map (decoded 0x3A) [0x61, 0x1F600])))"
proof
  show cs: "list_all scalar [0x61, 0x1F600]" by (simp add: scalar_def)
  have "\<not> combinable 0x61" by (simp add: combinable_def unicode_combinable_def del: unicode_combinable_eq)
  then show "utf8_decodestr (concat (map utf8_of [0x61, 0x1F600])) (length (concat (map utf8_of [0x61, 0x1F600]))) 6 0x3A 0 =
    Some (0, 2 * length (concat (map (decoded 0x3A) [0x61, 0x1F600])), canon [] (concat (map (decoded 0x3A) [0x61, 0x1F600])))"
    by (intro utf8_decodestr_correct [OF cs]) (simp_all add: decoded_def utf16_of_def)
qed

lemma decoded_replaced:
  assumes "altslash \<noteq> 0" "altslash \<noteq> 0x2400" "unat altslash \<noteq> c" "c \<noteq> 0x2400"
  shows "decoded altslash (replaced altslash c) = utf16_of c"
proof -
  have "unat altslash < 65536" using unsigned_less [where 'b = 16 and 'a = nat, of altslash] by simp
  moreover have "unat altslash = 0x2400 \<longleftrightarrow> altslash = 0x2400" by (simp add: word_unat_eq_iff)
  moreover have "(of_nat c :: u16) = altslash \<longleftrightarrow> unat altslash = c" if "c < 65536"
    using unat16_small [OF that] by (auto simp: word_unat_eq_iff)
  ultimately show ?thesis using assms by (auto simp: decoded_def replaced_def utf16_of_def)
qed

text \<open>C15: decoding undoes encoding, both without flags and with the same valid slash replacement other than
  U+2400. The name consists of valid characters and NULs, contains neither U+2400 nor the slash replacement, so that NULs and slashes come back
  unambiguously, and no surrogate pair stands directly behind a combining character (\<open>settled\<close>), where
  the decoder would sort across it. Encoded into a buffer with room for it and decoded into one with room
  for the name, it is the name again with each run of combining characters in canonical order.\<close>

theorem utf8_roundtrip:
  assumes cs: "list_all name_char cs" "0x2400 \<notin> set cs" "unat altslash \<notin> set cs" "settled False (map utf16_of cs)"
    and alt: "scalar (unat altslash)" "altslash \<noteq> 0x2400"
    and room: "length (concat (map (\<lambda>c. utf8_of (replaced altslash c)) cs)) < buflen" "2 * length (concat (map utf16_of cs)) \<le> outlen"
  shows "\<exists>n bytes. utf8_encodestr (concat (map utf16_of cs)) (2 * length (concat (map utf16_of cs))) buflen altslash 0 = Some (0, n, bytes @ [0])
    \<and> utf8_decodestr bytes n outlen altslash 0 = Some (0, 2 * length (concat (map utf16_of cs)), canon [] (concat (map utf16_of cs)))"
proof -
  let ?bytes = "concat (map (\<lambda>c. utf8_of (replaced altslash c)) cs)"
  have a0: "altslash \<noteq> 0" and ok: "alt_ok altslash" using alt(1) by (auto simp: scalar_def alt_ok_def)
  have fit: "fitting (int buflen - 1) (map (\<lambda>c. utf8_of (replaced altslash c)) cs) = map (\<lambda>c. utf8_of (replaced altslash c)) cs"
    using room(1) by (intro fitting_all) simp
  have enc: "utf8_encodestr (concat (map utf16_of cs)) (2 * length (concat (map utf16_of cs))) buflen altslash 0 =
      Some (0, length ?bytes, ?bytes @ [0])"
    using encodestr_name [OF cs(1) ok, of buflen] room(1) a0 by (simp add: fit del: length_concat)
  have undone: "map (decoded altslash) (map (replaced altslash) cs) = map utf16_of cs"
    using cs(2,3) a0 alt(2) by (auto intro!: decoded_replaced)
  have "list_all scalar (map (replaced altslash) cs)"
    using cs(1) scalar_replaced [OF ok] by (auto simp: list_all_iff)
  from decodestr_name [OF this, of altslash outlen]
  have "utf8_decodestr ?bytes (length ?bytes) outlen altslash 0 =
      Some (0, 2 * length (concat (map utf16_of cs)), canon [] (concat (map utf16_of cs)))"
    using cs(4) room(2) unfolding undone by (simp add: comp_def del: length_concat)
  then show ?thesis using enc by blast
qed

theorem utf8_roundtrip_witness:
  "\<exists>n bytes. utf8_encodestr (concat (map utf16_of [0x61, 0x2F, 0])) (2 * length (concat (map utf16_of [0x61, 0x2F, 0]))) 10 0x3A 0
      = Some (0, n, bytes @ [0])
    \<and> utf8_decodestr bytes n 6 0x3A 0 = Some (0, 2 * length (concat (map utf16_of [0x61, 0x2F, 0])), canon [] (concat (map utf16_of [0x61, 0x2F, 0])))"
  by (rule utf8_roundtrip) (simp_all add: name_char_def scalar_def utf16_of_def utf8_of_def replaced_def)

section \<open>The length of an encoding\<close>

lemma UNICODE_TO_UTF8_LEN_unit:
  assumes "c < 0x10000"
  shows "UNICODE_TO_UTF8_LEN (of_nat c) = (if 0xD800 \<le> c \<and> c < 0xE000 then 2 else Suc (tail_length c))"
proof -
  have u: "unat (of_nat c :: u16) = c" using assms by (simp add: unat16_small)
  have "(0xF800 :: nat) = push_bit 11 (mask 5)" by (simp add: mask_eq_exp_minus_1 push_bit_eq_mult)
  have "c AND 0xF800 = c div 2048 * 2048"
  proof -
    have "c AND 0xF800 = c AND push_bit 11 (mask 5)" by (simp add: mask_eq_exp_minus_1 push_bit_eq_mult)
    also have "\<dots> = push_bit 11 (take_bit 5 (drop_bit 11 c))" by (rule bit_eqI) (auto simp: bit_simps)
    also have "take_bit 5 (drop_bit 11 c) = drop_bit 11 c"
      using assms by (intro take_bit_nat_eq_self) (simp add: drop_bit_eq_div less_mult_imp_div_less)
    finally show ?thesis by (simp add: drop_bit_eq_div push_bit_eq_mult)
  qed
  then have "of_nat c AND (0xF800 :: u16) = 0xD800 \<longleftrightarrow> c div 2048 * 2048 = 0xD800"
    by (simp add: word_unat_eq_iff unsigned_and_eq u)
  also have "\<dots> \<longleftrightarrow> 0xD800 \<le> c \<and> c < 0xE000" by auto
  finally have "of_nat c AND (0xF800 :: u16) = 0xD800 \<longleftrightarrow> 0xD800 \<le> c \<and> c < 0xE000" .
  then show ?thesis
    using cmp16(1) [of c "0x80"] cmp16(1) [of c "0x800"] assms by (auto simp: UNICODE_TO_UTF8_LEN_def tail_length_def)
qed

lemma encodelen_unit:
  assumes "c < 0x10000"
  shows "encodelen_loop False False a (pre @ of_nat c # post) (Suc n) (length pre) [] k =
    encodelen_loop False False a (pre @ of_nat c # post) n (length pre + 1) [] (k + UNICODE_TO_UTF8_LEN (of_nat (replaced a c)))"
proof -
  have "(of_nat c :: u16) = 0x2F \<longleftrightarrow> c = 0x2F" "(of_nat c :: u16) = 0 \<longleftrightarrow> c = 0"
    using cmp16(2) [of c "0x2F"] cmp16(2) [of c 0] assms by simp_all
  then show ?thesis
    by (subst encodelen_loop.simps) (simp add: next_counted_def rd_at swap16_def expand_def replaced_def UCS_ALT_NULL_def)
qed

lemma encodelen_loop_name:
  "list_all name_char cs \<Longrightarrow> alt_ok a \<Longrightarrow>
    encodelen_loop False False a (pre @ concat (map utf16_of cs) @ post) (length (concat (map utf16_of cs))) (length pre) [] k =
      Some (k + length (concat (map (\<lambda>c. utf8_of (replaced a c)) cs)))"
proof (induction cs arbitrary: pre k)
  case Nil
  then show ?case by (subst encodelen_loop.simps) simp
next
  case (Cons c cs)
  have c: "name_char c" using Cons.prems by simp
  show ?case
  proof (cases "c < 0x10000")
    case True
    have u16: "utf16_of c = [of_nat c]" using True by (simp add: utf16_of_def)
    have "\<not> (0xD800 \<le> replaced a c \<and> replaced a c < 0xE000)" using scalar_replaced [OF Cons.prems(2) c] unfolding scalar_def by blast
    then have "UNICODE_TO_UTF8_LEN (of_nat (replaced a c)) = length (utf8_of (replaced a c))"
      by (simp only: UNICODE_TO_UTF8_LEN_unit [OF replaced_small [OF True]] if_False length_utf8_of)
    then show ?thesis
      using True Cons.IH [of "pre @ [of_nat c]" "k + length (utf8_of (replaced a c))"] Cons.prems
        encodelen_unit [OF True, of a pre "concat (map utf16_of cs) @ post" "length (concat (map utf16_of cs))" k]
      by (simp add: u16 add.assoc)
  next
    case False
    then have big: "0x10000 \<le> c" "c < 0x110000" using c by (auto simp: name_char_def scalar_def)
    define h l where "h = 0xD800 + (c - 0x10000) div 1024" and "l = 0xDC00 + (c - 0x10000) mod 1024"
    have hl: "0xD800 \<le> h" "h < 0xE000" "0xD800 \<le> l" "l < 0xE000"
      using big mod_less_divisor [of 1024 "c - 0x10000"] less_mult_imp_div_less [of "c - 0x10000" 1024 1024]
      unfolding h_def l_def by linarith+
    have u16: "utf16_of c = [of_nat h, of_nat l]" using False by (simp add: utf16_of_def h_def l_def)
    have small: "h < 0x10000" "l < 0x10000" using hl by simp_all
    have rep: "replaced a h = h" "replaced a l = l" using hl by (simp_all add: replaced_def)
    have "UNICODE_TO_UTF8_LEN (of_nat h) = 2" "UNICODE_TO_UTF8_LEN (of_nat l) = 2"
      using UNICODE_TO_UTF8_LEN_unit small hl by simp_all
    then show ?thesis
      using Cons.IH [of "pre @ [of_nat h, of_nat l]" "Suc (Suc (Suc (Suc k)))"] Cons.prems False replaced_large [OF big(1)]
        encodelen_unit [OF small(1), of a pre "of_nat l # concat (map utf16_of cs) @ post" "Suc (length (concat (map utf16_of cs)))" k]
        encodelen_unit [OF small(2), of a "pre @ [of_nat h]" "concat (map utf16_of cs) @ post" "length (concat (map utf16_of cs))" "k + 2"]
      by (simp add: u16 rep tail_length_def add.assoc)
  qed
qed

text \<open>\<open>utf8_encodelen\<close> says how many bytes \<open>utf8_encodestr\<close> writes for a name given by its code points when the buffer
  is large enough: the length of the UTF-8 form after replacing NULs and slashes.\<close>

theorem utf8_encodelen_correct:
  assumes "list_all name_char cs" "alt_ok altslash"
  defines "us \<equiv> concat (map utf16_of cs)"
  shows "\<exists>n. utf8_encodelen us (2 * length us) altslash 0 = Some n
    \<and> (\<exists>r bytes. utf8_encodestr us (2 * length us) (n + 1) altslash 0 = Some (r, n, bytes) \<and> r \<noteq> ENAMETOOLONG)"
proof -
  let ?pieces = "map (\<lambda>c. utf8_of (replaced altslash c)) cs"
  have "utf8_encodelen us (2 * length us) altslash 0 = Some (length (concat ?pieces))"
    using encodelen_loop_name [OF assms(1,2), of "[]" "[]" 0] by (simp add: utf8_encodelen_def us_def del: length_concat)
  moreover have "fitting (int (length (concat ?pieces) + 1) - 1) ?pieces = ?pieces" by (intro fitting_all) simp
  ultimately show ?thesis
    using encodestr_name [OF assms(1,2), of "length (concat ?pieces) + 1"]
    by (auto simp: us_def EINVAL_def ENAMETOOLONG_def simp del: length_concat)
qed

theorem utf8_encodelen_correct_witness:
  "\<exists>n. utf8_encodelen (concat (map utf16_of [0x2F, 0xE9])) (2 * length (concat (map utf16_of [0x2F, 0xE9]))) 0x3A 0 = Some n
    \<and> (\<exists>r bytes. utf8_encodestr (concat (map utf16_of [0x2F, 0xE9])) (2 * length (concat (map utf16_of [0x2F, 0xE9]))) (n + 1) 0x3A 0
        = Some (r, n, bytes) \<and> r \<noteq> ENAMETOOLONG)"
  by (rule utf8_encodelen_correct) (simp_all add: name_char_def scalar_def alt_ok_def)

section \<open>The buffer and the source of the decoder\<close>

lemma length_sort_run: "sort_run k out = Some out' \<Longrightarrow> length out' = length out"
proof -
  assume *: "sort_run k out = Some out'"
  have "length (sort_loop combining_class xs) = length xs" for xs
    using sort_loop_stable [of combining_class xs] by simp
  then show ?thesis using * by (auto simp: sort_run_def priortysort_eq split: if_splits)
qed

lemma sort_run_defined: "k \<le> int (length out) \<Longrightarrow> \<exists>out'. sort_run k out = Some out'"
  by (simp add: sort_run_def priortysort_eq)

lemma put_parts_room:
  "put_parts e cs out = (b, out') \<Longrightarrow> even (d_buflen e) \<Longrightarrow> 2 * length out < d_buflen e \<Longrightarrow>
    2 * length out' \<le> d_buflen e \<and> (b \<longrightarrow> length out' = length out + length cs)"
proof (induction cs arbitrary: out)
  case (Cons c cs)
  then show ?case by (auto simp: Let_def no_room_def not_le split: if_splits elim!: evenE)
qed auto

text \<open>No outcome of a turn leaves more in the buffer than it holds.\<close>

definition holds :: "dec_env \<Rightarrow> dec_state \<Rightarrow> bool" where
  "holds e s \<longleftrightarrow> 2 * length (ucs s) \<le> d_buflen e"

fun outcome_holds :: "dec_env \<Rightarrow> dec_outcome option \<Rightarrow> bool" where
  "outcome_holds e (Some (Continue t)) = holds e t"
| "outcome_holds e (Some (Return (r, t))) = holds e t"
| "outcome_holds e _ = True"

lemma even_less: "even (n :: nat) \<Longrightarrow> 2 * k < n \<Longrightarrow> 2 * (k + 1) \<le> n"
  by (auto elim!: evenE)

lemma escape_holds:
  assumes "even (d_buflen e)" "holds e s"
  shows "outcome_holds e (escape e lead k s)"
proof -
  have "2 * (length (ucs s) + 3) \<le> d_buflen e" if "\<not> no_room e (length (ucs s) + 2)"
    using even_less [OF assms(1), of "length (ucs s) + 2"] that by (simp add: no_room_def)
  then show ?thesis using assms(2)
    by (auto simp: escape_def put_hex_def holds_def Let_def split: bind_splits)
qed

lemma put_ucs_holds:
  assumes "even (d_buflen e)" "2 * length (ucs s) < d_buflen e"
  shows "outcome_holds e (put_ucs e ch s)"
proof -
  have "2 * (length (ucs s) + 1) \<le> d_buflen e" by (rule even_less [OF assms])
  then show ?thesis by (auto simp: put_ucs_def holds_def Let_def dest!: length_sort_run split: bind_splits)
qed

lemma put_character_holds:
  assumes "even (d_buflen e)" "2 * length (ucs s) < d_buflen e"
  shows "outcome_holds e (put_character e ch s)"
proof (cases "d_decompose e \<and> decomposeable ch")
  case True
  have "outcome_holds e (put_decomposed e ch s)"
  proof -
    have "2 * length out' \<le> d_buflen e"
      if "sort_run (combcharcnt s) (ucs s) = Some out" "put_parts e cs out = (b, out')" for out cs b out'
      using put_parts_room [OF that(2) assms(1)] length_sort_run [OF that(1)] assms(2) by simp
    then show ?thesis by (auto simp: put_decomposed_def holds_def split: bind_splits prod.splits)
  qed
  then show ?thesis using True by (simp add: put_character_def)
next
  case False
  have "length out \<le> length (ucs s)" if "compose e ch (ucs s) = Some (ch', out)" for ch' out
    using that by (auto simp: compose_def Let_def split: if_splits)
  then have "outcome_holds e (put_ucs e u (s\<lparr>ucs := out\<rparr>))" if "compose e ch (ucs s) = Some (ch', out)" for ch' out u
    using that assms by (intro put_ucs_holds) (fastforce dest: le_less_trans)+
  then show ?thesis
    using False put_ucs_holds [OF assms] by (auto simp: put_character_def split: bind_splits)
qed

lemma put_surrogates_holds:
  assumes "even (d_buflen e)" "2 * length (ucs s) < d_buflen e" "holds e s0"
  shows "outcome_holds e (put_surrogates e lead ch s0 s)"
proof -
  have "2 * (length (ucs s) + 1) \<le> d_buflen e" by (rule even_less [OF assms(1,2)])
  moreover have "2 * (length (ucs s) + 2) \<le> d_buflen e" if "\<not> no_room e (Suc (length (ucs s)))"
    using even_less [OF assms(1), of "Suc (length (ucs s))"] that by (simp add: no_room_def)
  ultimately show ?thesis
    using escape_holds [OF assms(1,3)] by (auto simp: put_surrogates_def holds_def Let_def)
qed

lemma put_lead_holds:
  assumes "even (d_buflen e)" "2 * length (ucs s) < d_buflen e"
  shows "outcome_holds e (put_lead e src byte s)"
proof -
  have h: "holds e (s\<lparr>utf8len := k\<rparr>)" "holds e s" for k using assms(2) by (simp_all add: holds_def)
  show ?thesis
    using escape_holds [OF assms(1)] put_character_holds [OF assms(1)] put_surrogates_holds [OF assms(1)] assms(2) h
    by (auto simp: put_lead_def Let_def split: bind_splits option.splits)
qed

lemma dec_turn_holds:
  assumes "even (d_buflen e)" "holds e s"
  shows "outcome_holds e (dec_turn e src s)"
proof -
  have fin: "outcome_holds e (dec_finish t)" if "ucs t = ucs s" for t
    using assms(2) that by (auto simp: dec_finish_def holds_def dest!: length_sort_run split: bind_splits)
  have "outcome_holds e (put_lead e src byte t)" "outcome_holds e (put_ucs e ch t)"
    if "ucs t = ucs s" "\<not> no_room e (length (ucs s))" for byte ch t
    using that put_lead_holds [OF assms(1), of t] put_ucs_holds [OF assms(1), of t] by (simp_all add: no_room_def not_le)
  then show ?thesis
    using fin assms(2) by (auto simp: dec_turn_def Let_def holds_def split: bind_splits)
qed

lemma dec_loop_holds:
  "even (d_buflen e) \<Longrightarrow> holds e s \<Longrightarrow> dec_loop e src s = Some (r, t) \<Longrightarrow> holds e t"
proof (induction e src s rule: dec_loop.induct)
  case (1 e src s)
  note loop = "1.prems"(3) [unfolded dec_loop.simps [of e src s]]
  note turn = dec_turn_holds [OF "1.prems"(1,2), of src]
  obtain o' where o: "dec_turn e src s = Some o'" using loop by (auto split: option.splits)
  show ?case
  proof (cases o')
    case (Continue u)
    then show ?thesis using "1.IH" [OF o Continue "1.prems"(1)] loop turn o by simp
  next
    case (Return v)
    then show ?thesis using loop turn o by (cases v) simp
  qed (use loop o in simp)
qed

text \<open>The decoder without escaping and composition as a machine: every turn is defined, stays inside the
  source, and the run it counts is part of what has been written.\<close>

definition dec_inv :: "dec_env \<times> u8 list \<times> dec_state \<Rightarrow> bool" where
  "dec_inv = (\<lambda>(e, src, s). \<not> d_escaping e \<and> \<not> d_precompose e \<and> even (d_buflen e)
    \<and> utf8p s + utf8len s \<le> length src \<and> combcharcnt s \<le> int (length (ucs s)))"

definition dec_step :: "dec_env \<times> u8 list \<times> dec_state \<Rightarrow> (dec_env \<times> u8 list \<times> dec_state, int \<times> dec_state, unit) outcome" where
  "dec_step = (\<lambda>(e, src, s).
    case dec_turn e src s of Some (Continue t) \<Rightarrow> Continue (e, src, t) | Some (Return v) \<Rightarrow> Return v | _ \<Rightarrow> Fault ())"

definition dec_run :: "dec_env \<times> u8 list \<times> dec_state \<Rightarrow> unit + int \<times> dec_state" where
  "dec_run = (\<lambda>(e, src, s). case dec_loop e src s of Some v \<Rightarrow> Inr v | None \<Rightarrow> Inl ())"

text \<open>An outcome that is defined, and if it goes on, stands at most at \<open>n\<close> in the source.\<close>

fun outcome_fine :: "nat \<Rightarrow> dec_outcome option \<Rightarrow> bool" where
  "outcome_fine n (Some (Continue t)) \<longleftrightarrow> utf8p t + utf8len t \<le> n \<and> combcharcnt t \<le> int (length (ucs t))"
| "outcome_fine n (Some (Return v)) \<longleftrightarrow> True"
| "outcome_fine n _ \<longleftrightarrow> False"

lemma put_ucs_fine:
  assumes "utf8p s + utf8len s \<le> n" "combcharcnt s \<le> int (length (ucs s))"
  shows "outcome_fine n (put_ucs e ch s)"
proof -
  obtain out where "sort_run (combcharcnt s) (ucs s) = Some out" using sort_run_defined [OF assms(2)] by blast
  then show ?thesis using assms by (simp add: put_ucs_def Let_def)
qed

lemma put_decomposed_fine:
  assumes "utf8p s + utf8len s \<le> n" "combcharcnt s \<le> int (length (ucs s))" "even (d_buflen e)" "2 * length (ucs s) < d_buflen e"
  shows "outcome_fine n (put_decomposed e ch s)"
proof -
  obtain out where out: "sort_run (combcharcnt s) (ucs s) = Some out" using sort_run_defined [OF assms(2)] by blast
  obtain cs where cs: "unicode_decompose ch = Some cs" using unicode_decompose_returns by blast
  obtain b out' where p: "put_parts e cs out = (b, out')" by fastforce
  have "b \<Longrightarrow> length out' = length out + length cs"
    using put_parts_room [OF p assms(3)] length_sort_run [OF out] assms(4) by simp
  then show ?thesis using assms(1) by (cases b) (simp_all add: put_decomposed_def out cs p)
qed

lemma dec_turn_fine:
  assumes e: "\<not> d_escaping e" "\<not> d_precompose e" "even (d_buflen e)"
    and s: "utf8p s + utf8len s \<le> length src" "combcharcnt s \<le> int (length (ucs s))"
  shows "outcome_fine (length src) (dec_turn e src s)"
proof (cases "utf8len s = 0")
  case True
  then show ?thesis using sort_run_defined [OF s(2)] by (auto simp: dec_turn_def dec_finish_def)
next
  case False
  then obtain byte where byte: "rd src (utf8p s) = Some byte" using s(1) by (simp add: rd_def)
  define t where "t = s\<lparr>utf8len := utf8len s - 1, utf8p := utf8p s + 1\<rparr>"
  have t: "utf8p t + utf8len t \<le> length src" "combcharcnt t \<le> int (length (ucs t))" "ucs t = ucs s"
    using s False by (simp_all add: t_def)
  have turn: "dec_turn e src s =
      (if byte = 0 then dec_finish t else if no_room e (length (ucs s)) then Some (Return (ENAMETOOLONG, t))
       else if byte < 0x80
       then do { ch \<leftarrow> (if d_sfmconv e then ucs_to_sfm (ucast byte) (utf8len t = 0) else Some (ucast byte)); put_ucs e ch t }
       else put_lead e src byte t)"
    using False byte by (simp add: dec_turn_def t_def)
  consider "byte = 0" | "no_room e (length (ucs s))" | "\<not> no_room e (length (ucs s))" "byte \<noteq> 0" "byte < 0x80"
    | "\<not> no_room e (length (ucs s))" "byte \<noteq> 0" "\<not> byte < 0x80" by blast
  then show ?thesis
  proof cases
    case 1
    then show ?thesis using sort_run_defined [OF t(2)] by (auto simp: turn dec_finish_def)
  next
    case 2
    then show ?thesis using sort_run_defined [OF t(2)] by (auto simp: turn dec_finish_def)
  next
    case 3
    have u: "unat (ucast byte :: u16) = unat byte"
      by (simp only: unsigned_ucast_eq) (use unat_u8_less [of byte] in \<open>simp add: take_bit_nat_eq_self del: unat_u8_less\<close>)
    have "1 \<le> unat (ucast byte :: u16)" "unat (ucast byte :: u16) < 128"
      using 3(2,3) unfolding u by (simp_all add: byte_less_80 Suc_le_eq unat_gt_0)
    then have "\<exists>d. ucs_to_sfm (ucast byte) l = Some d" for l
      using ucs_to_sfm_defined [of "ucast byte" l] by (simp add: word_le_nat_alt word_less_nat_alt)
    then obtain ch where "(if d_sfmconv e then ucs_to_sfm (ucast byte) (utf8len t = 0) else Some (ucast byte)) = Some ch"
      by (cases "d_sfmconv e") auto
    then show ?thesis using 3 put_ucs_fine [OF t(1,2)] by (simp add: turn)
  next
    case 4
    have room: "2 * length (ucs s) < d_buflen e" using 4(1) by (simp add: no_room_def)
    have "128 \<le> unat byte" using 4(3) by (simp add: byte_less_80)
    then obtain k where k: "rd utf_extrabytes (unat (drop_bit 3 byte)) = Some k" using extrabytes [of byte] by blast
    show ?thesis
    proof (cases "k \<le> 0 \<or> int (utf8len t) < k")
      case True
      then show ?thesis using 4 e(1) k by (auto simp: turn put_lead_def escape_def Let_def)
    next
      case enough: False
      then have "utf8p t + nat k \<le> length src" "0 < k" using t(1) by auto
      then obtain m where m: "multibyte src (utf8p t) byte k = Some m" using multibyte_reads by blast
      define v where "v = t\<lparr>utf8len := utf8len t - nat k, utf8p := utf8p t + nat k\<rparr>"
      have v: "utf8p v + utf8len v \<le> length src" "combcharcnt v \<le> int (length (ucs v))" "ucs v = ucs s"
        using t enough by (auto simp: v_def)
      have lead: "put_lead e src byte t =
          (case m of None \<Rightarrow> Some (Return (EINVAL, t\<lparr>utf8len := utf8len t - nat k\<rparr>))
           | Some ch \<Rightarrow> if k = 3 then put_surrogates e byte ch (t\<lparr>utf8len := utf8len t - nat k\<rparr>) v
                        else put_character e (ucast ch) v)"
        using k enough m e(1) by (auto simp: put_lead_def Let_def escape_def v_def split: option.splits)
      have same: "outcome_fine (length src) (put_ucs e ch (v\<lparr>ucs := ucs s\<rparr>))" for ch
        by (rule put_ucs_fine) (use v in simp_all)
      have "outcome_fine (length src) (put_character e ch v)" for ch
        using put_ucs_fine [OF v(1,2)] put_decomposed_fine [OF v(1,2) e(3)] room v(3) same e(2)
        by (auto simp: put_character_def compose_def)
      moreover have "outcome_fine (length src) (put_surrogates e byte ch s0 v)" for ch s0
        using e(1) v by (auto simp: put_surrogates_def Let_def escape_def)
      ultimately show ?thesis using 4 by (auto simp: turn lead split: option.splits)
    qed
  qed
qed


interpretation decoder: bounded_machine dec_step dec_run dec_inv "\<lambda>(e, src, s). length src - utf8p s"
proof
  fix s :: "dec_env \<times> u8 list \<times> dec_state"
  obtain e src t where s: "s = (e, src, t)" by (cases s)
  show "dec_run s = (case dec_step s of Continue s' \<Rightarrow> dec_run s' | Return v \<Rightarrow> Inr v | Fault f \<Rightarrow> Inl f)"
    unfolding s dec_run_def dec_step_def prod.case
    by (subst dec_loop.simps) (simp split: option.splits outcome.splits)
next
  fix s f assume "dec_inv s"
  then show "dec_step s \<noteq> Fault f"
    using dec_turn_fine by (auto simp: dec_inv_def dec_step_def split: option.splits outcome.splits) fastforce+
next
  fix s s' assume "dec_inv s" "dec_step s = Continue s'"
  then show "dec_inv s' \<and> (case s' of (e, src, s) \<Rightarrow> length src - utf8p s) < (case s of (e, src, s) \<Rightarrow> length src - utf8p s)"
    using dec_turn_fine dec_turn_progress
    by (auto simp: dec_inv_def dec_step_def split: option.splits outcome.splits) fastforce+
qed

text \<open>C17: With an even buffer, and neither escaping nor composition asked for, \<open>utf8_decodestr\<close> returns, whatever the
  bytes: it reads nothing behind the given length and writes nothing behind the buffer.\<close>

theorem utf8_decodestr_safe:
  assumes "n \<le> length src" "even buflen" "flags AND (UTF_ESCAPE_ILLEGAL OR UTF_PRECOMPOSED) = 0"
  shows "\<exists>r out. utf8_decodestr src n buflen altslash flags = Some (r, 2 * length out, out) \<and> 2 * length out \<le> buflen"
proof -
  let ?e = "decode_env buflen altslash flags"
  let ?s = "\<lparr>utf8p = 0, utf8len = n, ucs = [], combcharcnt = 0\<rparr>"
  have "flags AND UTF_ESCAPE_ILLEGAL = 0" "flags AND UTF_PRECOMPOSED = 0"
    using assms(3) by (simp_all add: bit.conj_disj_distrib or_eq_0_iff)
  then have "dec_inv (?e, src, ?s)" using assms(1,2) by (simp add: dec_inv_def decode_env_def)
  then obtain r t where t: "dec_loop ?e src ?s = Some (r, t)"
    using decoder.run_returns by (fastforce simp: dec_run_def split: option.splits)
  have "holds ?e t" using dec_loop_holds [OF _ _ t] assms(2) by (simp add: decode_env_def holds_def)
  then show ?thesis using t by (auto simp: utf8_decodestr_def decode_env_def holds_def)
qed

theorem utf8_decodestr_safe_witness:
  "\<exists>r out. utf8_decodestr [0xE2, 0x41] 2 6 0 UTF_DECOMPOSED = Some (r, 2 * length out, out) \<and> 2 * length out \<le> 6"
  by (rule utf8_decodestr_safe) (simp_all add: utf_flags)

text \<open>With escaping the decoder can leave its source: for a lead byte whose other bytes are missing it adds their
  number to what is left, although it had not deducted it, and reads on behind the argument.\<close>

theorem escape_overreads:
  assumes "0xC0 \<le> unat lead" "unat lead < 0xF8" "8 \<le> buflen"
  shows "utf8_decodestr [lead] 1 buflen altslash UTF_ESCAPE_ILLEGAL = None"
proof -
  let ?e = "decode_env buflen altslash UTF_ESCAPE_ILLEGAL"
  have e: "d_escaping ?e" "d_buflen ?e = buflen" by (simp_all add: decode_env_def utf_flags)
  have "128 \<le> unat lead" using assms(1) by simp
  from extrabytes [OF this] obtain k where k: "rd utf_extrabytes (unat (drop_bit 3 lead)) = Some k" "0 < k"
    using assms(1,2) by (auto split: if_splits)
  have lead: "\<not> lead < 0x80" "lead \<noteq> 0" using assms(1) by (auto simp: byte_less_80)
  have "unat (drop_bit 4 lead) < 16" "unat (lead AND 0x0F) < 16"
  proof -
    show "unat (drop_bit 4 lead) < 16" using unat_u8_less [of lead] by (simp add: unat_div8 less_mult_imp_div_less del: unat_u8_less)
    have "lead AND 0x0F \<le> 0x0F" by (rule word_and_le1)
    then show "unat (lead AND 0x0F) < 16" by (simp add: word_le_nat_alt)
  qed
  then obtain hex where hex: "put_hex ?e lead = Some hex" by (simp add: put_hex_def hexdigits_def rd_def)
  let ?s = "\<lparr>utf8p = 0, utf8len = 1, ucs = [], combcharcnt = 0\<rparr>"
  let ?t = "\<lparr>utf8p = 1, utf8len = nat k, ucs = hex, combcharcnt = 0\<rparr>"
  have "dec_turn ?e [lead] ?s = Some (Continue ?t)"
    using lead k e hex assms(3) by (simp add: dec_turn_def put_lead_def no_room_def escape_def Let_def)
  moreover have "dec_turn ?e [lead] ?t = None" using k(2) by (simp add: dec_turn_def rd_def)
  ultimately have "dec_loop ?e [lead] ?s = None" by (subst dec_loop.simps, simp, subst dec_loop.simps, simp)
  then show ?thesis by (simp add: utf8_decodestr_def)
qed

theorem escape_overreads_witness: "utf8_decodestr [0xE2] 1 100 0 UTF_ESCAPE_ILLEGAL = None"
  by (rule escape_overreads) simp_all

section \<open>Where the conversions fail\<close>

text \<open>The letter U with diaeresis and macron, as the tables have it.\<close>

lemma decompose_U: "unicode_decompose 0x01D5 = Some [0x55, 0x308, 0x304]"
proof -
  have "(0x01D5, 0xA15A) \<in> set DecompositionTable2" "(0x00DC, 0x2030) \<in> set DecompositionTable1"
    by (simp_all add: DecompositionTable2_def DecompositionTable1_def)
  then have "(0x01D5, 0xA15A) \<in> set DecompositionTable" "(0x00DC, 0x2030) \<in> set DecompositionTable"
    unfolding DecompositionTable_def set_append by blast+
  then have v: "dec_value 0x01D5 = 0xA15A" "dec_value 0x00DC = 0x2030" using entry_value by blast+
  have "MultipleDecompositionTable ! 346 = MultipleDecompositionTable2 ! 152"
    "MultipleDecompositionTable ! 347 = MultipleDecompositionTable2 ! 153"
    "MultipleDecompositionTable ! 48 = MultipleDecompositionTable1 ! 48"
    "MultipleDecompositionTable ! 49 = MultipleDecompositionTable1 ! 49"
    by (simp_all add: MultipleDecompositionTable_def nth_append length_sequences)
  then have "MultipleDecompositionTable ! 346 = 0xDC" "MultipleDecompositionTable ! 347 = 0x304"
    "MultipleDecompositionTable ! 48 = 0x55" "MultipleDecompositionTable ! 49 = 0x308"
    by (simp_all add: MultipleDecompositionTable2_def MultipleDecompositionTable1_def)
  then have m: "take 2 (drop 346 MultipleDecompositionTable) = [0xDC, 0x304]" "take 2 (drop 48 MultipleDecompositionTable) = [0x55, 0x308]"
    using take_rd [of MultipleDecompositionTable 346 _ 1] take_rd [of MultipleDecompositionTable 347 _ 0]
      take_rd [of MultipleDecompositionTable 48 _ 1] take_rd [of MultipleDecompositionTable 49 _ 0]
    by (simp_all add: numeral_2_eq_2)
  have "unicode_recursive_decompose 0x00DC = Some [0x55, 0x308]"
    by (subst decompose_unfold) (simp add: v EXTRACT_COUNT_def mappings_def m)
  moreover have "rd (drop 346 MultipleDecompositionTable) 0 = Some 0xDC" "take (Suc 0) (tl (drop 346 MultipleDecompositionTable)) = [0x304]"
    using m(1) by (cases "drop 346 MultipleDecompositionTable"; simp add: numeral_2_eq_2)+
  ultimately have "unicode_recursive_decompose 0x01D5 = Some [0x55, 0x308, 0x304]"
    by (subst decompose_unfold) (simp add: v EXTRACT_COUNT_def mappings_def)
  then show ?thesis by (simp add: unicode_decompose_def hangul_defs)
qed

text \<open>The buffer \<open>utf8_normalizestr\<close> takes for a decomposed name is three bytes for each byte of the input, which is
  enough; but the decoder reports a buffer it has just filled with the last part of a character as
  too small. A character of two bytes that decomposes into three is therefore rejected on its own.\<close>

theorem normalize_rejects_fit:
  assumes c: "0x80 \<le> c" "c < 0x800" "decomposeable (of_nat c)" "unicode_decompose (of_nat c) = Some xs" "length xs = 3"
    and room: "0 < buflen"
  shows "\<exists>n out. utf8_normalizestr (utf8_of c) 2 buflen UTF_DECOMPOSED = Some (ENAMETOOLONG, n, out)"
proof -
  let ?e = "decode_env 6 0 UTF_DECOMPOSED"
  obtain lead r where u8: "utf8_of c = lead # r" by (cases "utf8_of c") (auto dest: arg_cong [of _ _ length])
  have sc: "scalar c" and tl: "tail_length c = 1" using c by (simp_all add: scalar_def tail_length_def)
  then have lr: "length r = 1" using length_utf8_of [of c] u8 by simp
  have "128 \<le> unat lead" using multibyte_utf8_of [OF sc c(1) u8] by blast
  then have b: "\<not> lead < 0x80" "lead \<noteq> 0" by (auto simp: byte_less_80)
  have e: "d_decompose ?e" "d_buflen ?e = 6" by (simp_all add: decode_env_def utf_flags)
  let ?s = "\<lparr>utf8p = 0, utf8len = 2, ucs = [], combcharcnt = 0\<rparr>"
  let ?t = "\<lparr>utf8p = 1, utf8len = 1, ucs = [], combcharcnt = 0\<rparr>"
  have "dec_turn ?e (utf8_of c) ?s = put_lead ?e (utf8_of c) lead ?t"
    using b e by (simp add: dec_turn_def u8 no_room_def)
  also have "\<dots> = put_character ?e (of_nat c) (?t\<lparr>utf8len := 0, utf8p := 2\<rparr>)"
    using put_lead_char [OF sc c(1) u8, of "utf8_of c" "[lead]" "[]" ?t 0 ?e] c(2) lr by (simp add: u8 numeral_2_eq_2)
  also have "\<dots> = put_decomposed ?e (of_nat c) (?t\<lparr>utf8len := 0, utf8p := 2\<rparr>)"
    using e c(3) by (simp add: put_character_def)
  also obtain x y z where xs: "xs = [x, y, z]" using c(5) by (auto simp: numeral_3_eq_3 length_Suc_conv)
  then have "put_decomposed ?e (of_nat c) (?t\<lparr>utf8len := 0, utf8p := 2\<rparr>) =
      Some (Return (ENAMETOOLONG, \<lparr>utf8p = 2, utf8len = 0, ucs = map (swap16 False) xs, combcharcnt = 0\<rparr>))"
    using c(4) e by (simp add: put_decomposed_def sort_run_def no_room_def Let_def decode_env_def utf_flags)
  finally have "dec_loop ?e (utf8_of c) ?s = Some (ENAMETOOLONG, \<lparr>utf8p = 2, utf8len = 0, ucs = map (swap16 False) xs, combcharcnt = 0\<rparr>)"
    by (subst dec_loop.simps) simp
  moreover have "ascii_loop (utf8_of c) 0 2 buflen [] = Some (Non_ascii, [])"
    using b room by (subst ascii_loop.simps) (simp add: u8 rd_def not_less)
  ultimately show ?thesis
    by (simp add: utf8_normalizestr_def normalize_unicode_def utf8_decodestr_def utf_flags MAXPATHLEN_def
        normalize_exit_def ENAMETOOLONG_def)
qed

theorem normalize_rejects_fit_witness:
  "utf8_of 0x1D5 = [0xC7, 0x95] \<and> (\<exists>n out. utf8_normalizestr (utf8_of 0x1D5) 2 100 UTF_DECOMPOSED = Some (ENAMETOOLONG, n, out))"
proof
  have "decomposeable 0x1D5"
    by (simp add: decomposeable_def unicode_decomposeable_def in_bitmap_def rd_def DecomposableBitmap_def DecomposablePages_def
        DecomposableBlocks_def del: unicode_decomposeable_eq)
  then show "\<exists>n out. utf8_normalizestr (utf8_of 0x1D5) 2 100 UTF_DECOMPOSED = Some (ENAMETOOLONG, n, out)"
    by (intro normalize_rejects_fit [where xs = "[0x55, 0x308, 0x304]"]) (simp_all add: decompose_U numeral_3_eq_3)
qed (simp add: utf8_of_def)

text \<open>With composition the run the decoder counts can be longer than what it has written: for a combining
  character that composes with the combining character at the start of the name the sort begins
  in front of the buffer.\<close>

theorem precompose_underflows:
  assumes c: "scalar c" "0x80 \<le> c" "c < 0x10000" "combinable (of_nat c)" "c \<noteq> 0x2400" "of_nat c \<noteq> altslash"
    and d: "scalar d" "0x80 \<le> d" "d < 0x10000" "combinable (of_nat d)"
    and comp: "unicode_combine (of_nat c) (of_nat d) = k" "k \<noteq> 0" "combinable k" "k \<noteq> UCS_ALT_NULL" "k \<noteq> altslash"
    and room: "4 \<le> buflen"
  shows "utf8_decodestr (utf8_of c @ utf8_of d) (length (utf8_of c @ utf8_of d)) buflen altslash UTF_PRECOMPOSED = None"
proof -
  let ?e = "decode_env buflen altslash UTF_PRECOMPOSED"
  let ?src = "utf8_of c @ utf8_of d"
  have e: "\<not> d_decompose ?e" "d_precompose ?e" "\<not> d_swapbytes ?e" "d_buflen ?e = buflen" "d_altslash ?e = altslash"
    by (simp_all add: decode_env_def utf_flags)
  have turn: "dec_turn ?e (pre @ utf8_of x @ post) s = put_character ?e (of_nat x) (s\<lparr>utf8len := n, utf8p := length (pre @ utf8_of x)\<rparr>)"
    if x: "scalar x" "0x80 \<le> x" "x < 0x10000" and s: "utf8p s = length pre" "utf8len s = length (utf8_of x) + n" "length (ucs s) \<le> 1"
    for pre x post n and s :: dec_state
  proof -
    obtain lead r where u8: "utf8_of x = lead # r" by (cases "utf8_of x") (auto dest: arg_cong [of _ _ length])
    have "128 \<le> unat lead" using multibyte_utf8_of [OF x(1,2) u8] by blast
    then have b: "\<not> lead < 0x80" "lead \<noteq> 0" by (auto simp: byte_less_80)
    define t where "t = s\<lparr>utf8len := length r + n, utf8p := length (pre @ [lead])\<rparr>"
    have "dec_turn ?e (pre @ utf8_of x @ post) s = put_lead ?e (pre @ utf8_of x @ post) lead t"
      using b s room e(4) by (simp add: dec_turn_def u8 rd_at no_room_def t_def)
    then show ?thesis
      using put_lead_char [OF x(1,2) u8, of "pre @ utf8_of x @ post" "pre @ [lead]" post t n ?e] x(3) by (simp add: u8 t_def)
  qed
  let ?s = "\<lparr>utf8p = 0, utf8len = length (utf8_of c @ utf8_of d), ucs = [], combcharcnt = 0\<rparr>"
  let ?t = "\<lparr>utf8p = length (utf8_of c), utf8len = length (utf8_of d), ucs = [of_nat c], combcharcnt = 1\<rparr>"
  let ?u = "\<lparr>utf8p = length ?src, utf8len = 0, ucs = [k], combcharcnt = 2\<rparr>"
  have "(of_nat c :: u16) \<noteq> UCS_ALT_NULL" using cmp16(2) [of c "0x2400"] c(3,5) by (simp add: UCS_ALT_NULL_def)
  then have "dec_turn ?e ?src ?s = Some (Continue ?t)"
    using turn [OF c(1-3), of ?s "[]" "length (utf8_of d)" "utf8_of d"] e c(4,6)
    by (simp add: put_character_def compose_def put_ucs_def swap16_def Let_def)
  moreover have "dec_turn ?e ?src ?t = Some (Continue ?u)"
    using turn [OF d(1-3), of ?t "utf8_of c" 0 "[]"] e d(4) comp
    by (simp add: put_character_def compose_def put_ucs_def swap16_def Let_def)
  moreover have "dec_turn ?e ?src ?u = None" by (simp add: dec_turn_def dec_finish_def sort_run_def)
  ultimately have "dec_loop ?e ?src ?s = None"
    by (subst dec_loop.simps, simp only: option.case outcome.case, subst dec_loop.simps, simp only: option.case outcome.case,
        subst dec_loop.simps, simp only: option.case outcome.case)
  then show ?thesis by (simp add: utf8_decodestr_def)
qed

lemma bengali:
  "combinable 0x09C7" "combinable 0x09BE" "combinable 0x09CB" "unicode_combine 0x09C7 0x09BE = 0x09CB"
  by (simp_all add: combinable_def unicode_combinable_def in_bitmap_def rd_def CombiningBitmap_def CombiningPages_def
      CombiningBlocks_def unicode_combine_def hangul_defs getmappedvalue32_def PrecompSourceTable_def bsearch.simps
      getmappedvalue16_def BMPPrecompDestinationTable_def BMPPrecompDestinationTable1_def BMPPrecompDestinationTable2_def
      BMPPrecompDestinationTable3_def BMPPrecompDestinationTable4_def BMPPrecompDestinationTable5_def
      del: unicode_combinable_eq)

theorem precompose_underflows_witness:
  "utf8_decodestr (utf8_of 0x9C7 @ utf8_of 0x9BE) (length (utf8_of 0x9C7 @ utf8_of 0x9BE)) 100 0 UTF_PRECOMPOSED = None"
  by (rule precompose_underflows [where k = "0x9CB"]) (simp_all add: scalar_def bengali UCS_ALT_NULL_def)

end
