(* ===== verification/Sysv_Sem.thy ===== *)
theory Sysv_Sem
  imports Prelude
begin

text \<open>
  System V semaphores (\<open>kern/sysv_sem.c\<close>, \<open>sys/sem.h\<close>, \<open>sys/sem_internal.h\<close>, the permission check of
  \<open>kern/sysv_ipc.c\<close>): the tables of the subsystem and every operation on them. The three arrays
  \<open>sema\<close>, \<open>sem_pool\<close>, \<open>semu\<close> are lists whose lengths are \<open>seminfo.semmni\<close>, \<open>seminfo.semmns\<close> and
  \<open>seminfo.semmnu\<close>; a \<open>sem_base\<close> pointer is the index of its target in the pool, a list of
  \<open>struct undo\<close> is a HOL list beside its counter \<open>un_cnt\<close>. The result \<open>None\<close> of an operation
  stands for a kernel that does not survive it: a panic, an access outside an array, a null pointer,
  or an endless loop over a cyclic chain. \<open>wakeup\<close> is logged in the field \<open>wakeups\<close>; the
  results of the allocator are the list \<open>mem\<close> (allocations succeed when it is used up).
  \<open>CONFIG_MACF\<close> and \<open>SEM_DEBUG\<close> are off.
\<close>

section \<open>Data\<close>

type_synonym proc = int

datatype sem_errno = EPERM | ENOENT | EINTR | E2BIG | ENOMEM | EACCES | EFAULT | EEXIST | EINVAL |
  EFBIG | ENOSPC | EAGAIN | EIDRM

record sem =
  semval :: u16
  sempid :: int
  semncnt :: u16
  semzcnt :: u16

record ipc_perm =
  ipc_uid :: int
  ipc_gid :: int
  ipc_cuid :: int
  ipc_cgid :: int
  ipc_mode :: u16
  ipc_seq :: u16
  ipc_key :: int

record semid_ds =
  sem_perm :: ipc_perm
  sem_base :: nat
  sem_nsems :: u16
  sem_otime :: int
  sem_ctime :: int

record sembuf =
  sem_num :: u16
  sem_op :: u16
  sem_flg :: u16

record undo =
  une_adjval :: u16
  une_num :: u16
  une_id :: nat

record sem_undo =
  un_next_idx :: "nat option"
  un_proc :: "proc option"
  un_cnt :: nat
  un_ent :: "undo list"

record sysvsem =
  semtot :: nat
  sema :: "semid_ds list"
  sem_pool :: "sem list"
  semu_list_idx :: "nat option"
  semu :: "sem_undo list"
  wakeups :: "nat list"
  mem :: "bool list"

definition SEM_ALLOC :: u16 where "SEM_ALLOC = 0x200"
definition SEM_UNDO :: u16 where "SEM_UNDO = 0x1000"
definition IPC_NOWAIT :: u16 where "IPC_NOWAIT = 0x800"
definition IPC_CREAT :: u16 where "IPC_CREAT = 0x200"
definition IPC_EXCL :: u16 where "IPC_EXCL = 0x400"
definition IPC_PRIVATE :: int where "IPC_PRIVATE = 0"
definition IPC_M :: u16 where "IPC_M = 0x1000"
definition IPC_R :: u16 where "IPC_R = 0x100"
definition IPC_W :: u16 where "IPC_W = 0x80"
definition MAX_SOPS :: int where "MAX_SOPS = 5"
definition SEMMNS :: nat where "SEMMNS = 1048576 div 12"
definition SEMMNI :: nat where "SEMMNI = SEMMNS"
definition SEMMNU :: nat where "SEMMNU = SEMMNS"
definition SEMMSL :: nat where "SEMMSL = SEMMNS"
definition SEMUME :: nat where "SEMUME = 10"
definition SEMMNI_INC :: nat where "SEMMNI_INC = 8"
definition SEMMNS_INC :: nat where "SEMMNS_INC = 64"
definition SEMMNU_INC :: nat where "SEMMNU_INC = 32"

definition IPCID_TO_IX :: "u32 \<Rightarrow> nat" where
  "IPCID_TO_IX i = unat (i AND 0xffff)"

definition IPCID_TO_SEQ :: "u32 \<Rightarrow> u16" where
  "IPCID_TO_SEQ i = ucast (drop_bit 16 i AND 0xffff)"

definition IXSEQ_TO_IPCID :: "nat \<Rightarrow> ipc_perm \<Rightarrow> u32" where
  "IXSEQ_TO_IPCID ix perm = push_bit 16 (ucast (ipc_seq perm)) OR (of_nat ix AND 0xffff)"

text \<open>\<open>M_ZERO\<close> memory, and one answer of the allocator.\<close>

definition zero_sem :: sem where
  "zero_sem = \<lparr>semval = 0, sempid = 0, semncnt = 0, semzcnt = 0\<rparr>"

definition zero_perm :: ipc_perm where
  "zero_perm = \<lparr>ipc_uid = 0, ipc_gid = 0, ipc_cuid = 0, ipc_cgid = 0, ipc_mode = 0, ipc_seq = 0,
     ipc_key = 0\<rparr>"

definition zero_semid :: semid_ds where
  "zero_semid = \<lparr>sem_perm = zero_perm, sem_base = 0, sem_nsems = 0, sem_otime = 0, sem_ctime = 0\<rparr>"

definition zero_undo :: sem_undo where
  "zero_undo = \<lparr>un_next_idx = Some 0, un_proc = None, un_cnt = 0, un_ent = []\<rparr>"

definition sysv_init :: "bool list \<Rightarrow> sysvsem" where
  "sysv_init m = \<lparr>semtot = 0, sema = [], sem_pool = [], semu_list_idx = None, semu = [],
     wakeups = [], mem = m\<rparr>"

definition malloc :: "sysvsem \<Rightarrow> bool \<times> sysvsem" where
  "malloc st = (case mem st of [] \<Rightarrow> (True, st) | b # bs \<Rightarrow> (b, st\<lparr>mem := bs\<rparr>))"

definition wakeup :: "nat \<Rightarrow> sysvsem \<Rightarrow> sysvsem" where
  "wakeup ix st = st\<lparr>wakeups := wakeups st @ [ix]\<rparr>"

definition allocated :: "semid_ds \<Rightarrow> bool" where
  "allocated d \<longleftrightarrow> ipc_mode (sem_perm d) AND SEM_ALLOC \<noteq> 0"

section \<open>Permissions\<close>

text \<open>
  A credential: the answers of \<open>suser\<close> (0 is success) and \<open>kauth_cred_ismember_gid\<close>
  (an error code and the membership) come from the credential code.
\<close>

record cred =
  cr_uid :: int
  cr_gid :: int
  suser :: bool
  ismember_gid :: "int \<Rightarrow> bool \<times> bool"

definition not_member :: "bool \<times> bool \<Rightarrow> bool" where
  "not_member a \<longleftrightarrow> fst a \<or> \<not> snd a"

definition ipcperm :: "cred \<Rightarrow> ipc_perm \<Rightarrow> u16 \<Rightarrow> sem_errno option" where
  "ipcperm c perm mode =
     (if suser c then None
      else
        (let nomatch = cr_uid c \<noteq> ipc_cuid perm \<and> cr_uid c \<noteq> ipc_uid perm in
         if nomatch \<and> mode AND IPC_M \<noteq> 0 then Some EPERM
         else
           (let mode' = (if nomatch
                then (if not_member (ismember_gid c (ipc_gid perm)) \<and> not_member (ismember_gid c (ipc_cgid perm))
                      then drop_bit 3 (drop_bit 3 mode) else drop_bit 3 mode)
                else mode) in
            if mode' AND IPC_M \<noteq> 0 then None
            else if mode' AND ipc_mode perm = mode' then None else Some EACCES)))"

section \<open>Growing the tables\<close>

definition round_size :: "nat \<Rightarrow> nat \<Rightarrow> nat \<Rightarrow> nat" where
  "round_size n inc limit =
     (let n' = (n div inc + 1) * inc in if n' > limit then limit else n')"

definition grow_semu_array :: "nat \<Rightarrow> sysvsem \<Rightarrow> bool \<times> sysvsem" where
  "grow_semu_array newSize st =
     (if newSize \<le> length (semu st) then (True, st)
      else if newSize > SEMMNU then (False, st)
      else
        (let n = round_size newSize SEMMNU_INC SEMMNU; (ok, st) = malloc st in
         if \<not> ok then (False, st)
         else (True, st\<lparr>semu := semu st @ replicate (n - length (semu st)) zero_undo\<rparr>)))"

definition wake_all :: "sysvsem \<Rightarrow> sysvsem" where
  "wake_all st = st\<lparr>wakeups := wakeups st @
     filter (\<lambda>i. allocated (sema st ! i)) [0..<length (sema st)]\<rparr>"

definition grow_sema_array :: "nat \<Rightarrow> sysvsem \<Rightarrow> bool \<times> sysvsem" where
  "grow_sema_array newSize st =
     (if newSize \<le> length (sema st) then (False, st)
      else if newSize > SEMMNI then (False, st)
      else
        (let n = round_size newSize SEMMNI_INC SEMMNI; (ok, st) = malloc st in
         if \<not> ok then (False, st)
         else
           (let st = wake_all st in
            (True, st\<lparr>sema := sema st @ replicate (n - length (sema st)) zero_semid\<rparr>))))"

definition grow_sem_pool :: "nat \<Rightarrow> sysvsem \<Rightarrow> bool \<times> sysvsem" where
  "grow_sem_pool new_pool_size st =
     (if new_pool_size < semtot st then (False, st)
      else if new_pool_size > SEMMNS then (False, st)
      else
        (let n = round_size new_pool_size SEMMNS_INC SEMMNS; (ok, st) = malloc st in
         if \<not> ok then (False, st)
         else (True, st\<lparr>sem_pool := sem_pool st @ replicate (n - length (sem_pool st)) zero_sem\<rparr>)))"

section \<open>Undo structures\<close>

text \<open>
  The chain of active structures. A place in it is the variable that holds the next index: the
  list head (\<open>None\<close>) or the \<open>un_next_idx\<close> field of a structure (\<open>Some j\<close>).
\<close>

definition link_at :: "sysvsem \<Rightarrow> nat option \<Rightarrow> nat option option" where
  "link_at st loc =
     (case loc of None \<Rightarrow> Some (semu_list_idx st) | Some j \<Rightarrow> map_option un_next_idx (rd (semu st) j))"

definition set_semu :: "nat \<Rightarrow> sem_undo \<Rightarrow> sysvsem \<Rightarrow> sysvsem" where
  "set_semu i u st = st\<lparr>semu := (semu st)[i := u]\<rparr>"

definition set_link :: "nat option \<Rightarrow> nat option \<Rightarrow> sysvsem \<Rightarrow> sysvsem" where
  "set_link loc v st =
     (case loc of None \<Rightarrow> st\<lparr>semu_list_idx := v\<rparr>
      | Some j \<Rightarrow> set_semu j ((semu st ! j)\<lparr>un_next_idx := v\<rparr>) st)"

text \<open>The walk for the structure of a process, which also returns the place that links to it.\<close>

partial_function (option) find_undo ::
  "sysvsem \<Rightarrow> proc \<Rightarrow> nat option \<Rightarrow> (nat option \<times> nat option) option" where
  "find_undo st p loc =
     (case link_at st loc of
        None \<Rightarrow> None
      | Some None \<Rightarrow> Some (loc, None)
      | Some (Some i) \<Rightarrow>
          (case rd (semu st) i of
             None \<Rightarrow> None
           | Some u \<Rightarrow> if un_proc u = Some p then Some (loc, Some i) else find_undo st p (Some i)))"

declare find_undo.simps [code]

fun free_slot :: "sem_undo list \<Rightarrow> nat \<Rightarrow> nat option" where
  "free_slot [] i = None"
| "free_slot (u # us) i = (if un_proc u = None then Some i else free_slot us (Suc i))"

definition semu_take :: "nat \<Rightarrow> proc \<Rightarrow> sysvsem \<Rightarrow> sysvsem" where
  "semu_take i p st =
     (set_semu i \<lparr>un_next_idx = semu_list_idx st, un_proc = Some p, un_cnt = 0, un_ent = []\<rparr> st)
       \<lparr>semu_list_idx := Some i\<rparr>"

text \<open>The purge of empty structures in \<open>semu_alloc\<close>.\<close>

partial_function (option) semu_purge :: "sysvsem \<Rightarrow> nat option \<Rightarrow> bool \<Rightarrow> (bool \<times> sysvsem) option" where
  "semu_purge st loc did =
     (case link_at st loc of
        None \<Rightarrow> None
      | Some None \<Rightarrow> Some (did, st)
      | Some (Some i) \<Rightarrow>
          (case rd (semu st) i of
             None \<Rightarrow> None
           | Some u \<Rightarrow>
               if un_cnt u = 0
               then semu_purge (set_link loc (un_next_idx u) (set_semu i (u\<lparr>un_proc := None\<rparr>) st)) loc True
               else semu_purge st (Some i) did))"

declare semu_purge.simps [code]

definition semu_alloc :: "proc \<Rightarrow> sysvsem \<Rightarrow> (nat option \<times> sysvsem) option" where
  "semu_alloc p st =
     (case free_slot (semu st) 0 of
        Some i \<Rightarrow> Some (Some i, semu_take i p st)
      | None \<Rightarrow>
          (case semu_purge st None False of
             None \<Rightarrow> None
           | Some (did, st) \<Rightarrow>
               (let (ok, st) = (if did then (True, st) else grow_semu_array (length (semu st) + 1) st) in
                if \<not> ok then Some (None, st)
                else
                  (case free_slot (semu st) 0 of
                     Some i \<Rightarrow> Some (Some i, semu_take i p st)
                   | None \<Rightarrow> None))))"

text \<open>
  The scan for the entry of a semaphore. \<open>une_num\<close> is a \<open>short\<close>, compared with the \<open>int\<close>
  argument; a null pointer before \<open>un_cnt\<close> entries is \<open>None\<close>.
\<close>

fun find_ent :: "undo list \<Rightarrow> nat \<Rightarrow> nat \<Rightarrow> int \<Rightarrow> nat \<Rightarrow> nat option option" where
  "find_ent es 0 semid semnum i = Some None"
| "find_ent [] (Suc n) semid semnum i = None"
| "find_ent (e # es) (Suc n) semid semnum i =
     (if une_id e \<noteq> semid \<or> sint (une_num e) \<noteq> semnum then find_ent es n semid semnum (Suc i)
      else Some (Some i))"

definition adjust_ent :: "nat \<Rightarrow> nat \<Rightarrow> int \<Rightarrow> sysvsem \<Rightarrow> sysvsem" where
  "adjust_ent si k adjval st =
     (let u = semu st ! si; e = un_ent u ! k;
          e' = (if adjval = 0 then e\<lparr>une_adjval := 0\<rparr>
                else e\<lparr>une_adjval := une_adjval e + word_of_int adjval\<rparr>);
          u' = (if une_adjval e' = 0
                then u\<lparr>un_cnt := un_cnt u - 1, un_ent := take k (un_ent u) @ drop (Suc k) (un_ent u)\<rparr>
                else u\<lparr>un_ent := (un_ent u)[k := e']\<rparr>) in
      set_semu si u' st)"

definition add_ent :: "nat \<Rightarrow> nat \<Rightarrow> int \<Rightarrow> int \<Rightarrow> sysvsem \<Rightarrow> sem_errno option \<times> sysvsem" where
  "add_ent si semid semnum adjval st =
     (let u = semu st ! si in
      if adjval = 0 then (None, st)
      else if un_cnt u = SEMUME then (Some EINVAL, st)
      else
        (let (ok, st) = malloc st in
         if \<not> ok then (Some ENOMEM, st)
         else
           (None, set_semu si (u\<lparr>un_ent := \<lparr>une_adjval = word_of_int adjval, une_num = word_of_int semnum,
                  une_id = semid\<rparr> # un_ent u, un_cnt := un_cnt u + 1\<rparr>) st)))"

definition semundo_scan :: "nat \<Rightarrow> nat \<Rightarrow> int \<Rightarrow> int \<Rightarrow> sysvsem \<Rightarrow>
    (sem_errno option \<times> nat option \<times> sysvsem) option" where
  "semundo_scan si semid semnum adjval st =
     (case rd (semu st) si of
        None \<Rightarrow> None
      | Some u \<Rightarrow>
          (case find_ent (un_ent u) (un_cnt u) semid semnum 0 of
             None \<Rightarrow> None
           | Some (Some k) \<Rightarrow> Some (None, Some si, adjust_ent si k adjval st)
           | Some None \<Rightarrow> (let (e, st) = add_ent si semid semnum adjval st in Some (e, Some si, st))))"

text \<open>\<open>supidx\<close> is \<open>*supidx\<close>, the caller's remembered index (\<open>None\<close> for -1).\<close>

definition semundo_adjust :: "proc \<Rightarrow> nat option \<Rightarrow> nat \<Rightarrow> int \<Rightarrow> int \<Rightarrow> sysvsem \<Rightarrow>
    (sem_errno option \<times> nat option \<times> sysvsem) option" where
  "semundo_adjust p supidx semid semnum adjval st =
     (case supidx of
        Some si \<Rightarrow> semundo_scan si semid semnum adjval st
      | None \<Rightarrow>
          (case find_undo st p None of
             None \<Rightarrow> None
           | Some (_, Some si) \<Rightarrow> semundo_scan si semid semnum adjval st
           | Some (_, None) \<Rightarrow>
               if adjval = 0 then Some (None, None, st)
               else
                 (case semu_alloc p st of
                    None \<Rightarrow> None
                  | Some (None, st) \<Rightarrow> Some (Some ENOSPC, None, st)
                  | Some (Some si, st) \<Rightarrow> semundo_scan si semid semnum adjval st)))"

text \<open>\<open>semundo_clear\<close>: the inner loop over the entries of a structure, and the walk over the chain.\<close>

fun clear_ents :: "nat \<Rightarrow> int \<Rightarrow> nat \<Rightarrow> undo list \<Rightarrow> undo list option" where
  "clear_ents semid semnum 0 es = Some es"
| "clear_ents semid semnum (Suc n) [] = None"
| "clear_ents semid semnum (Suc n) (e # es) =
     (if une_id e = semid
      then (if semnum = -1 \<or> sint (une_num e) = semnum then clear_ents semid semnum n es
            else if semnum \<noteq> -1 then Some (e # es)
            else map_option ((#) e) (clear_ents semid semnum n es))
      else map_option ((#) e) (clear_ents semid semnum n es))"

partial_function (option) semundo_clear_from ::
  "nat \<Rightarrow> int \<Rightarrow> sysvsem \<Rightarrow> nat option \<Rightarrow> sysvsem option" where
  "semundo_clear_from semid semnum st loc =
     (case link_at st loc of
        None \<Rightarrow> None
      | Some None \<Rightarrow> Some st
      | Some (Some i) \<Rightarrow>
          (case rd (semu st) i of
             None \<Rightarrow> None
           | Some u \<Rightarrow>
               (case clear_ents semid semnum (un_cnt u) (un_ent u) of
                  None \<Rightarrow> None
                | Some es \<Rightarrow>
                    semundo_clear_from semid semnum
                      (set_semu i (u\<lparr>un_ent := es,
                         un_cnt := un_cnt u - (length (un_ent u) - length es)\<rparr>) st)
                      (Some i))))"

declare semundo_clear_from.simps [code]

definition semundo_clear :: "nat \<Rightarrow> int \<Rightarrow> sysvsem \<Rightarrow> sysvsem option" where
  "semundo_clear semid semnum st = semundo_clear_from semid semnum st None"

end
