(* ===== verification/Sysv_Calls.thy ===== *)
theory Sysv_Calls
  imports Sysv_Sem
begin

text \<open>
  The system calls on System V semaphores (\<open>kern/sysv_sem.c\<close>): \<open>semctl\<close>, \<open>semget\<close>, \<open>semop\<close> and the
  exit hook \<open>semexit\<close>. A call that copies from or to user memory takes the results of the copies as
  arguments; \<open>now\<close> is \<open>sysv_semtime ()\<close>. \<open>semop\<close> is cut at its \<open>msleep\<close>: an attempt either
  returns or goes to sleep, and \<open>semop_resume\<close> continues behind the sleep.
\<close>

section \<open>Access to a set\<close>

text \<open>\<open>semakptr->u.sem_base[k]\<close>\<close>

definition sem_at :: "sysvsem \<Rightarrow> nat \<Rightarrow> int \<Rightarrow> sem option" where
  "sem_at st base k = (if int base + k < 0 then None else rd (sem_pool st) (nat (int base + k)))"

definition sem_put :: "nat \<Rightarrow> int \<Rightarrow> sem \<Rightarrow> sysvsem \<Rightarrow> sysvsem" where
  "sem_put base k s st = st\<lparr>sem_pool := (sem_pool st)[nat (int base + k) := s]\<rparr>"

section \<open>semget\<close>

fun find_key :: "semid_ds list \<Rightarrow> int \<Rightarrow> nat \<Rightarrow> nat option" where
  "find_key [] key i = None"
| "find_key (d # ds) key i =
     (if allocated d \<and> ipc_key (sem_perm d) = key then Some i else find_key ds key (Suc i))"

fun free_semid :: "semid_ds list \<Rightarrow> nat \<Rightarrow> nat" where
  "free_semid [] i = i"
| "free_semid (d # ds) i = (if \<not> allocated d then i else free_semid ds (Suc i))"

definition bzero_sems :: "nat \<Rightarrow> nat \<Rightarrow> sem list \<Rightarrow> sem list" where
  "bzero_sems base n pool = take base pool @ replicate n zero_sem @ drop (base + n) pool"

definition new_semid :: "cred \<Rightarrow> int \<Rightarrow> nat \<Rightarrow> u16 \<Rightarrow> int \<Rightarrow> nat \<Rightarrow> semid_ds \<Rightarrow> semid_ds" where
  "new_semid c key nsems semflg now base d =
     \<lparr>sem_perm = \<lparr>ipc_uid = cr_uid c, ipc_gid = cr_gid c, ipc_cuid = cr_uid c, ipc_cgid = cr_gid c,
        ipc_mode = (semflg AND 0x1ff) OR SEM_ALLOC,
        ipc_seq = (ipc_seq (sem_perm d) + 1) AND 0x7fff, ipc_key = key\<rparr>,
      sem_base = base, sem_nsems = of_nat nsems, sem_otime = 0, sem_ctime = now\<rparr>"

definition semget_alloc :: "cred \<Rightarrow> int \<Rightarrow> int \<Rightarrow> u16 \<Rightarrow> int \<Rightarrow> sysvsem \<Rightarrow>
    ((sem_errno + u32) \<times> sysvsem) option" where
  "semget_alloc c key nsems semflg now st =
     (if nsems \<le> 0 \<or> nsems > int SEMMSL then Some (Inl EINVAL, st)
      else
        (let (ok, st) = (if nsems > int (length (sem_pool st)) - int (semtot st)
                         then grow_sem_pool (semtot st + nat nsems) st else (True, st)) in
         if \<not> ok then Some (Inl ENOSPC, st)
         else
           (let semid = free_semid (sema st) 0;
                (ok, st) = (if semid = length (sema st)
                            then grow_sema_array (length (sema st) + 1) st else (True, st)) in
            if \<not> ok then Some (Inl ENOSPC, st)
            else
              (case rd (sema st) semid of
                 None \<Rightarrow> None
               | Some d \<Rightarrow>
                   (let d' = new_semid c key (nat nsems) semflg now (semtot st) d; n = nat nsems in
                    if length (sem_pool st) < semtot st + n then None
                    else Some (Inr (IXSEQ_TO_IPCID semid (sem_perm d')),
                      st\<lparr>sema := (sema st)[semid := d'], sem_pool := bzero_sems (semtot st) n (sem_pool st),
                         semtot := semtot st + n\<rparr>))))))"

definition semget :: "cred \<Rightarrow> int \<Rightarrow> int \<Rightarrow> u16 \<Rightarrow> int \<Rightarrow> sysvsem \<Rightarrow>
    ((sem_errno + u32) \<times> sysvsem) option" where
  "semget c key nsems semflg now st =
     (let create = (\<lambda>st. if key = IPC_PRIVATE \<or> semflg AND IPC_CREAT \<noteq> 0
                          then semget_alloc c key nsems semflg now st else Some (Inl ENOENT, st)) in
      if key = IPC_PRIVATE then create st
      else
        (case find_key (sema st) key 0 of
           None \<Rightarrow> create st
         | Some semid \<Rightarrow>
             (let d = sema st ! semid in
              case ipcperm c (sem_perm d) (semflg AND 0x1c0) of
                Some e \<Rightarrow> Some (Inl e, st)
              | None \<Rightarrow>
                  if nsems < 0 \<or> uint (sem_nsems d) < nsems then Some (Inl EINVAL, st)
                  else if semflg AND IPC_CREAT \<noteq> 0 \<and> semflg AND IPC_EXCL \<noteq> 0 then Some (Inl EEXIST, st)
                  else Some (Inr (IXSEQ_TO_IPCID semid (sem_perm d)), st))))"

section \<open>semctl\<close>

text \<open>
  \<open>sem_io\<close> is what the call finds in user memory: the structure of \<open>IPC_SET\<close>, the values of
  \<open>SETALL\<close> (\<open>None\<close> for a failing copy) and whether the copies out succeed. The result is the
  return value with what was copied out.
\<close>

datatype semcmd = IPC_RMID | IPC_SET | IPC_STAT | GETNCNT | GETPID | GETVAL | GETALL | GETZCNT |
  SETVAL | SETALL | OTHER_CMD

record sem_io =
  in_perm :: "ipc_perm option"
  in_array :: "nat \<Rightarrow> u16 option"
  out_ok :: "nat \<Rightarrow> bool"
  arg_val :: u64

datatype semout = Out_int int | Out_ds semid_ds | Out_vals "u16 list" | Out_none

text \<open>\<open>IPC_RMID\<close>: the pool is closed over the gap and the bases above it move down.\<close>

fun shift_down :: "nat \<Rightarrow> nat \<Rightarrow> nat \<Rightarrow> sem list \<Rightarrow> sem list option" where
  "shift_down 0 i n pool = Some pool"
| "shift_down (Suc k) i n pool =
     (case rd pool (i + n) of
        None \<Rightarrow> None
      | Some s \<Rightarrow> (case wr pool i s of None \<Rightarrow> None | Some pool' \<Rightarrow> shift_down k (Suc i) n pool'))"

definition move_base :: "nat \<Rightarrow> nat \<Rightarrow> semid_ds \<Rightarrow> semid_ds" where
  "move_base base n d =
     (if allocated d \<and> sem_base d > base then d\<lparr>sem_base := sem_base d - n\<rparr> else d)"

definition release_semid :: "cred \<Rightarrow> semid_ds \<Rightarrow> semid_ds" where
  "release_semid c d = d\<lparr>sem_perm := (sem_perm d)\<lparr>ipc_cuid := cr_uid c, ipc_uid := cr_uid c, ipc_mode := 0\<rparr>\<rparr>"

definition sem_rmid :: "cred \<Rightarrow> nat \<Rightarrow> sysvsem \<Rightarrow> sysvsem option" where
  "sem_rmid c semid st =
     (let d = sema st ! semid; n = unat (sem_nsems d); tot = semtot st - n in
      if semtot st < n then None
      else
        (case shift_down (tot - sem_base d) (sem_base d) n (sem_pool st) of
           None \<Rightarrow> None
         | Some pool \<Rightarrow>
             map_option (wakeup semid)
               (semundo_clear semid (-1)
                 (st\<lparr>semtot := tot, sem_pool := pool,
                    sema := (map (move_base (sem_base d) n) (sema st))[semid := release_semid c d]\<rparr>))))"

definition sem_set_perm :: "ipc_perm \<Rightarrow> int \<Rightarrow> semid_ds \<Rightarrow> semid_ds" where
  "sem_set_perm ip now d =
     d\<lparr>sem_perm := (sem_perm d)\<lparr>ipc_uid := ipc_uid ip, ipc_gid := ipc_gid ip,
          ipc_mode := (ipc_mode (sem_perm d) AND NOT 0x1ff) OR (ipc_mode ip AND 0x1ff)\<rparr>,
       sem_ctime := now\<rparr>"

text \<open>\<open>GETALL\<close> and \<open>SETALL\<close>: the values copied before the first failing copy.\<close>

fun sem_getall :: "sysvsem \<Rightarrow> nat \<Rightarrow> (nat \<Rightarrow> bool) \<Rightarrow> nat \<Rightarrow> nat \<Rightarrow> (u16 list \<times> bool) option" where
  "sem_getall st base ok i 0 = Some ([], True)"
| "sem_getall st base ok i (Suc n) =
     (case sem_at st base (int i) of
        None \<Rightarrow> None
      | Some s \<Rightarrow>
          if \<not> ok i then Some ([], False)
          else map_option (\<lambda>(vs, r). (semval s # vs, r)) (sem_getall st base ok (Suc i) n))"

fun sem_setall :: "proc \<Rightarrow> nat \<Rightarrow> (nat \<Rightarrow> u16 option) \<Rightarrow> nat \<Rightarrow> nat \<Rightarrow> sysvsem \<Rightarrow> (bool \<times> sysvsem) option" where
  "sem_setall p base arr i 0 st = Some (True, st)"
| "sem_setall p base arr i (Suc n) st =
     (case sem_at st base (int i) of
        None \<Rightarrow> None
      | Some s \<Rightarrow>
          (case arr i of
             None \<Rightarrow> Some (False, st)
           | Some v \<Rightarrow>
               sem_setall p base arr (Suc i) n (sem_put base (int i) (s\<lparr>semval := v, sempid := p\<rparr>) st)))"

text \<open>The value commands: a permission, the range check of \<open>semnum\<close>, then the field.\<close>

definition sem_read :: "cred \<Rightarrow> semid_ds \<Rightarrow> int \<Rightarrow> (sem \<Rightarrow> int) \<Rightarrow> sysvsem \<Rightarrow>
    ((sem_errno + semout) \<times> sysvsem) option" where
  "sem_read c d semnum f st =
     (case ipcperm c (sem_perm d) IPC_R of
        Some e \<Rightarrow> Some (Inl e, st)
      | None \<Rightarrow>
          if semnum < 0 \<or> semnum \<ge> uint (sem_nsems d) then Some (Inl EINVAL, st)
          else map_option (\<lambda>s. (Inr (Out_int (f s)), st)) (sem_at st (sem_base d) semnum))"

fun semctl_cmd :: "semcmd \<Rightarrow> proc \<Rightarrow> cred \<Rightarrow> nat \<Rightarrow> int \<Rightarrow> sem_io \<Rightarrow> int \<Rightarrow> semid_ds \<Rightarrow> sysvsem \<Rightarrow>
    ((sem_errno + semout) \<times> sysvsem) option" where
  "semctl_cmd IPC_RMID p c semid semnum io now d st =
     (case ipcperm c (sem_perm d) IPC_M of
        Some e \<Rightarrow> Some (Inl e, st)
      | None \<Rightarrow> map_option (Pair (Inr Out_none)) (sem_rmid c semid st))"
| "semctl_cmd IPC_SET p c semid semnum io now d st =
     (case ipcperm c (sem_perm d) IPC_M of
        Some e \<Rightarrow> Some (Inl e, st)
      | None \<Rightarrow>
          (case in_perm io of
             None \<Rightarrow> Some (Inl EFAULT, st)
           | Some ip \<Rightarrow> Some (Inr Out_none, st\<lparr>sema := (sema st)[semid := sem_set_perm ip now d]\<rparr>)))"
| "semctl_cmd IPC_STAT p c semid semnum io now d st =
     (case ipcperm c (sem_perm d) IPC_R of
        Some e \<Rightarrow> Some (Inl e, st)
      | None \<Rightarrow> if out_ok io 0 then Some (Inr (Out_ds d), st) else Some (Inl EFAULT, st))"
| "semctl_cmd GETNCNT p c semid semnum io now d st = sem_read c d semnum (\<lambda>s. uint (semncnt s)) st"
| "semctl_cmd GETPID p c semid semnum io now d st = sem_read c d semnum sempid st"
| "semctl_cmd GETVAL p c semid semnum io now d st = sem_read c d semnum (\<lambda>s. uint (semval s)) st"
| "semctl_cmd GETALL p c semid semnum io now d st =
     (case ipcperm c (sem_perm d) IPC_R of
        Some e \<Rightarrow> Some (Inl e, st)
      | None \<Rightarrow>
          map_option (\<lambda>(vs, r). (if r then Inr (Out_vals vs) else Inl EFAULT, st))
            (sem_getall st (sem_base d) (out_ok io) 0 (unat (sem_nsems d))))"
| "semctl_cmd GETZCNT p c semid semnum io now d st = sem_read c d semnum (\<lambda>s. uint (semzcnt s)) st"
| "semctl_cmd SETVAL p c semid semnum io now d st =
     (case ipcperm c (sem_perm d) IPC_W of
        Some e \<Rightarrow> Some (Inl e, st)
      | None \<Rightarrow>
          if semnum < 0 \<or> semnum \<ge> uint (sem_nsems d) then Some (Inl EINVAL, st)
          else
            (case sem_at st (sem_base d) semnum of
               None \<Rightarrow> None
             | Some s \<Rightarrow>
                 map_option (\<lambda>st. (Inr Out_none, wakeup semid st))
                   (semundo_clear semid semnum
                     (sem_put (sem_base d) semnum (s\<lparr>semval := ucast (arg_val io), sempid := p\<rparr>) st))))"
| "semctl_cmd SETALL p c semid semnum io now d st =
     (case ipcperm c (sem_perm d) IPC_W of
        Some e \<Rightarrow> Some (Inl e, st)
      | None \<Rightarrow>
          (case sem_setall p (sem_base d) (in_array io) 0 (unat (sem_nsems d)) st of
             None \<Rightarrow> None
           | Some (r, st) \<Rightarrow>
               map_option (\<lambda>st. (if r then Inr Out_none else Inl EFAULT, wakeup semid st))
                 (semundo_clear semid (-1) st)))"
| "semctl_cmd OTHER_CMD p c semid semnum io now d st = Some (Inl EINVAL, st)"

definition semctl :: "proc \<Rightarrow> cred \<Rightarrow> u32 \<Rightarrow> int \<Rightarrow> semcmd \<Rightarrow> sem_io \<Rightarrow> int \<Rightarrow> sysvsem \<Rightarrow>
    ((sem_errno + semout) \<times> sysvsem) option" where
  "semctl p c uid semnum cmd io now st =
     (let semid = IPCID_TO_IX uid in
      case rd (sema st) semid of
        None \<Rightarrow> Some (Inl EINVAL, st)
      | Some d \<Rightarrow>
          if \<not> allocated d \<or> ipc_seq (sem_perm d) \<noteq> IPCID_TO_SEQ uid then Some (Inl EINVAL, st)
          else semctl_cmd cmd p c semid semnum io now d st)"

section \<open>semop\<close>

text \<open>
  One pass over the vector of operations: it gets through, meets an operation that has to wait
  (with the index of that operation), or an operation on a semaphore that does not exist. The
  flags are \<open>do_wakeup\<close> and \<open>do_undos\<close>.
\<close>

datatype sem_pass = Through sysvsem bool bool | Blocked sysvsem nat bool | Too_big sysvsem

fun semop_pass :: "nat \<Rightarrow> u16 \<Rightarrow> sembuf list \<Rightarrow> nat \<Rightarrow> bool \<Rightarrow> bool \<Rightarrow> sysvsem \<Rightarrow> sem_pass option" where
  "semop_pass base nsems [] i do_wakeup do_undos st = Some (Through st do_wakeup do_undos)"
| "semop_pass base nsems (b # bs) i do_wakeup do_undos st =
     (if sem_num b \<ge> nsems then Some (Too_big st)
      else
        (case sem_at st base (uint (sem_num b)) of
           None \<Rightarrow> None
         | Some s \<Rightarrow>
             (let st' = sem_put base (uint (sem_num b)) (s\<lparr>semval := semval s + sem_op b\<rparr>) st;
                  do_undos' = (do_undos \<or> sem_flg b AND SEM_UNDO \<noteq> 0) in
              if sint (sem_op b) < 0
              then (if uint (semval s) + sint (sem_op b) < 0 then Some (Blocked st i do_undos)
                    else semop_pass base nsems bs (Suc i)
                      (do_wakeup \<or> semval s + sem_op b = 0 \<and> semzcnt s > 0) do_undos' st')
              else if sem_op b = 0
              then (if semval s > 0 then Some (Blocked st i do_undos)
                    else semop_pass base nsems bs (Suc i) do_wakeup do_undos st)
              else semop_pass base nsems bs (Suc i) (do_wakeup \<or> semncnt s > 0) do_undos' st')))"

text \<open>\<open>semval -= sem_op\<close> over a list of operations.\<close>

fun sem_rollback :: "nat \<Rightarrow> sembuf list \<Rightarrow> sysvsem \<Rightarrow> sysvsem option" where
  "sem_rollback base [] st = Some st"
| "sem_rollback base (b # bs) st =
     (case sem_at st base (uint (sem_num b)) of
        None \<Rightarrow> None
      | Some s \<Rightarrow>
          sem_rollback base bs
            (sem_put base (uint (sem_num b)) (s\<lparr>semval := semval s - sem_op b\<rparr>) st))"

text \<open>
  The \<open>SEM_UNDO\<close> requests. \<open>adjust_undos\<close> records them in order; when one fails it reports the
  error and how many operations were done. \<open>unroll_undos\<close> takes recorded ones back, in the order of
  its argument; a failure there is the panic \<open>can't undo undos\<close>.
\<close>

definition undo_skip :: "sembuf \<Rightarrow> bool" where
  "undo_skip b \<longleftrightarrow> sem_flg b AND SEM_UNDO = 0 \<or> sem_op b = 0"

fun adjust_undos :: "proc \<Rightarrow> nat \<Rightarrow> nat option \<Rightarrow> sembuf list \<Rightarrow> nat \<Rightarrow> sysvsem \<Rightarrow>
    ((sem_errno \<times> nat) option \<times> nat option \<times> sysvsem) option" where
  "adjust_undos p semid supidx [] i st = Some (None, supidx, st)"
| "adjust_undos p semid supidx (b # bs) i st =
     (if undo_skip b then adjust_undos p semid supidx bs (Suc i) st
      else
        (case semundo_adjust p supidx semid (uint (sem_num b)) (- sint (sem_op b)) st of
           None \<Rightarrow> None
         | Some (None, supidx, st) \<Rightarrow> adjust_undos p semid supidx bs (Suc i) st
         | Some (Some e, supidx, st) \<Rightarrow> Some (Some (e, i), supidx, st)))"

fun unroll_undos :: "proc \<Rightarrow> nat \<Rightarrow> nat option \<Rightarrow> sembuf list \<Rightarrow> sysvsem \<Rightarrow> sysvsem option" where
  "unroll_undos p semid supidx [] st = Some st"
| "unroll_undos p semid supidx (b # bs) st =
     (if undo_skip b then unroll_undos p semid supidx bs st
      else
        (case semundo_adjust p supidx semid (uint (sem_num b)) (sint (sem_op b)) st of
           Some (None, supidx, st) \<Rightarrow> unroll_undos p semid supidx bs st
         | _ \<Rightarrow> None))"

fun set_pids :: "proc \<Rightarrow> nat \<Rightarrow> sembuf list \<Rightarrow> sysvsem \<Rightarrow> sysvsem option" where
  "set_pids p base [] st = Some st"
| "set_pids p base (b # bs) st =
     (case sem_at st base (uint (sem_num b)) of
        None \<Rightarrow> None
      | Some s \<Rightarrow> set_pids p base bs (sem_put base (uint (sem_num b)) (s\<lparr>sempid := p\<rparr>) st))"

definition set_otime :: "nat \<Rightarrow> int \<Rightarrow> sysvsem \<Rightarrow> sysvsem" where
  "set_otime semid now st = st\<lparr>sema := (sema st)[semid := (sema st ! semid)\<lparr>sem_otime := now\<rparr>]\<rparr>"

text \<open>
  The result of a part of \<open>semop\<close>: the call returns (0 or an error), or it sleeps on the set after
  the operation with the given index had to wait, with the current \<open>do_undos\<close>.
\<close>

datatype semop_result = Returns "sem_errno option" sysvsem | Sleeps nat bool sysvsem

definition semop_done :: "proc \<Rightarrow> nat \<Rightarrow> nat \<Rightarrow> sembuf list \<Rightarrow> int \<Rightarrow> bool \<Rightarrow> bool \<Rightarrow> sysvsem \<Rightarrow>
    semop_result option" where
  "semop_done p semid base sops now do_wakeup do_undos st =
     (let finish = (\<lambda>st.
        map_option (\<lambda>st. Returns None (if do_wakeup then wakeup semid (set_otime semid now st)
                                        else set_otime semid now st)) (set_pids p base sops st)) in
      if \<not> do_undos then finish st
      else
        (case adjust_undos p semid None sops 0 st of
           None \<Rightarrow> None
         | Some (None, _, st) \<Rightarrow> finish st
         | Some (Some (e, i), supidx, st) \<Rightarrow>
             (case unroll_undos p semid supidx (rev (take i sops)) st of
                None \<Rightarrow> None
              | Some st \<Rightarrow> map_option (Returns (Some e)) (sem_rollback base sops st))))"

text \<open>One turn of the loop, up to \<open>msleep\<close>.\<close>

definition semop_attempt :: "proc \<Rightarrow> nat \<Rightarrow> sembuf list \<Rightarrow> int \<Rightarrow> bool \<Rightarrow> sysvsem \<Rightarrow> semop_result option" where
  "semop_attempt p semid sops now do_undos st =
     (let d = sema st ! semid; base = sem_base d in
      case semop_pass base (sem_nsems d) sops 0 False do_undos st of
        None \<Rightarrow> None
      | Some (Too_big st) \<Rightarrow> Some (Returns (Some EFBIG) st)
      | Some (Through st do_wakeup do_undos) \<Rightarrow> semop_done p semid base sops now do_wakeup do_undos st
      | Some (Blocked st i do_undos) \<Rightarrow>
          (case sem_rollback base (take i sops) st of
             None \<Rightarrow> None
           | Some st \<Rightarrow>
               (let b = sops ! i in
                if sem_flg b AND IPC_NOWAIT \<noteq> 0 then Some (Returns (Some EAGAIN) st)
                else
                  (case sem_at st base (uint (sem_num b)) of
                     None \<Rightarrow> None
                   | Some s \<Rightarrow>
                       Some (Sleeps i do_undos (sem_put base (uint (sem_num b))
                         (if sem_op b = 0 then s\<lparr>semzcnt := semzcnt s + 1\<rparr>
                          else s\<lparr>semncnt := semncnt s + 1\<rparr>) st)))))) "

text \<open>\<open>copyin\<close> gives the vector of the requested length, or fails.\<close>

definition semop :: "proc \<Rightarrow> cred \<Rightarrow> u32 \<Rightarrow> int \<Rightarrow> (nat \<Rightarrow> sembuf list option) \<Rightarrow> int \<Rightarrow> sysvsem \<Rightarrow>
    semop_result option" where
  "semop p c uid nsops copyin now st =
     (let semid = IPCID_TO_IX uid in
      case rd (sema st) semid of
        None \<Rightarrow> Some (Returns (Some EINVAL) st)
      | Some d \<Rightarrow>
          if \<not> allocated d \<or> ipc_seq (sem_perm d) \<noteq> IPCID_TO_SEQ uid then Some (Returns (Some EINVAL) st)
          else
            (case ipcperm c (sem_perm d) IPC_W of
               Some e \<Rightarrow> Some (Returns (Some e) st)
             | None \<Rightarrow>
                 if nsops < 0 \<or> nsops > MAX_SOPS then Some (Returns (Some E2BIG) st)
                 else
                   (case copyin (nat nsops) of
                      None \<Rightarrow> Some (Returns (Some EFAULT) st)
                    | Some sops \<Rightarrow> semop_attempt p semid sops now False st)))"

text \<open>Behind \<open>msleep\<close>, which returned 0 or was interrupted.\<close>

definition semop_resume :: "proc \<Rightarrow> u32 \<Rightarrow> sembuf list \<Rightarrow> nat \<Rightarrow> bool \<Rightarrow> bool \<Rightarrow> int \<Rightarrow> sysvsem \<Rightarrow>
    semop_result option" where
  "semop_resume p uid sops i do_undos interrupted now st =
     (let semid = IPCID_TO_IX uid; b = sops ! i in
      case rd (sema st) semid of
        None \<Rightarrow> None
      | Some d \<Rightarrow>
          if \<not> allocated d \<or> ipc_seq (sem_perm d) \<noteq> IPCID_TO_SEQ uid \<or> sem_num b \<ge> sem_nsems d
          then Some (Returns (Some (if interrupted then EINTR else EIDRM)) st)
          else
            (case sem_at st (sem_base d) (uint (sem_num b)) of
               None \<Rightarrow> None
             | Some s \<Rightarrow>
                 (let st = sem_put (sem_base d) (uint (sem_num b))
                        (if sem_op b = 0 then s\<lparr>semzcnt := semzcnt s - 1\<rparr>
                         else s\<lparr>semncnt := semncnt s - 1\<rparr>) st in
                  if interrupted then Some (Returns (Some EINTR) st)
                  else semop_attempt p semid sops now do_undos st)))"

section \<open>semexit\<close>

fun exit_ents :: "undo list \<Rightarrow> sysvsem \<Rightarrow> sysvsem option" where
  "exit_ents [] st = Some st"
| "exit_ents (e # es) st =
     (case rd (sema st) (une_id e) of
        None \<Rightarrow> None
      | Some d \<Rightarrow>
          if \<not> allocated d then None
          else if sint (une_num e) \<ge> uint (sem_nsems d) then None
          else
            (case sem_at st (sem_base d) (sint (une_num e)) of
               None \<Rightarrow> None
             | Some s \<Rightarrow>
                 (let adjval = sint (une_adjval e);
                      v = (if adjval < 0
                           then (if uint (semval s) < - adjval then 0 else semval s + une_adjval e)
                           else semval s + une_adjval e) in
                  exit_ents es
                    (wakeup (une_id e) (sem_put (sem_base d) (sint (une_num e)) (s\<lparr>semval := v\<rparr>) st)))))"

definition semexit :: "proc \<Rightarrow> sysvsem \<Rightarrow> sysvsem option" where
  "semexit p st =
     (if sem_pool st = [] then Some st
      else
        (case find_undo st p None of
           None \<Rightarrow> None
         | Some (loc, None) \<Rightarrow> Some st
         | Some (loc, Some i) \<Rightarrow>
             (let u = semu st ! i in
              case (if un_cnt u > 0 then exit_ents (un_ent u) st else Some st) of
                None \<Rightarrow> None
              | Some st \<Rightarrow>
                  (let u' = (if un_cnt u > 0
                             then u\<lparr>un_cnt := un_cnt u - length (un_ent u), un_ent := [], un_proc := None\<rparr>
                             else u\<lparr>un_proc := None\<rparr>) in
                   Some (set_link loc (un_next_idx u) (set_semu i u' st))))))"

end
