(* ===== verification/Sysv_Pool.thy ===== *)
theory Sysv_Pool
  imports Sysv_Calls
begin

text \<open>
  The layout of the semaphore pool: the sets that exist own disjoint, nonempty stretches of the used
  part of \<open>sem_pool\<close>, and together exactly as many semaphores as \<open>semtot\<close> says. What the calls of
  \<open>kern/sysv_sem.c\<close> do to the layout, and which parts of the tables the helpers leave alone.
\<close>

section \<open>Sets and their stretches\<close>

definition live :: "sysvsem \<Rightarrow> nat \<Rightarrow> bool" where
  "live st i \<longleftrightarrow> i < length (sema st) \<and> allocated (sema st ! i)"

definition nsem :: "sysvsem \<Rightarrow> nat \<Rightarrow> nat" where
  "nsem st i = unat (sem_nsems (sema st ! i))"

definition base_of :: "sysvsem \<Rightarrow> nat \<Rightarrow> nat" where
  "base_of st i = sem_base (sema st ! i)"

definition sem_of :: "sysvsem \<Rightarrow> nat \<Rightarrow> nat \<Rightarrow> sem" where
  "sem_of st i k = sem_pool st ! (base_of st i + k)"

definition pool_inv :: "sysvsem \<Rightarrow> bool" where
  "pool_inv st \<longleftrightarrow>
     semtot st \<le> length (sem_pool st) \<and>
     (\<forall>i. live st i \<longrightarrow> 0 < nsem st i \<and> base_of st i + nsem st i \<le> semtot st) \<and>
     (\<forall>i j. live st i \<longrightarrow> live st j \<longrightarrow> i \<noteq> j \<longrightarrow>
        base_of st i + nsem st i \<le> base_of st j \<or> base_of st j + nsem st j \<le> base_of st i) \<and>
     (\<Sum>i\<in>{i. live st i}. nsem st i) = semtot st"

lemmas layout_defs = live_def nsem_def base_of_def

lemma finite_live [simp]: "finite {i. live st i}"
  by (rule finite_subset [of _ "{..<length (sema st)}"]) (auto simp: live_def)

lemma pool_invD:
  assumes "pool_inv st"
  shows "semtot st \<le> length (sem_pool st)"
    and "live st i \<Longrightarrow> 0 < nsem st i"
    and "live st i \<Longrightarrow> base_of st i + nsem st i \<le> semtot st"
    and "live st i \<Longrightarrow> live st j \<Longrightarrow> i \<noteq> j \<Longrightarrow>
        base_of st i + nsem st i \<le> base_of st j \<or> base_of st j + nsem st j \<le> base_of st i"
    and "(\<Sum>i\<in>{i. live st i}. nsem st i) = semtot st"
  using assms by (auto simp: pool_inv_def)

lemma slot_in_pool: "pool_inv st \<Longrightarrow> live st i \<Longrightarrow> k < nsem st i \<Longrightarrow> base_of st i + k < length (sem_pool st)"
  using pool_invD(1) [of st] pool_invD(3) [of st i] by linarith

lemma slots_differ:
  "pool_inv st \<Longrightarrow> live st i \<Longrightarrow> live st j \<Longrightarrow> k < nsem st i \<Longrightarrow> l < nsem st j \<Longrightarrow>
     base_of st i + k = base_of st j + l \<longleftrightarrow> i = j \<and> k = l"
  using pool_invD(4) [of st i j] by (cases "i = j") auto

text \<open>The layout only depends on \<open>semtot\<close>, the identifiers and the size of the pool.\<close>

lemma layout_cong:
  assumes "sema st' = sema st"
  shows "live st' = live st" "nsem st' = nsem st" "base_of st' = base_of st"
  using assms by (auto simp: layout_defs fun_eq_iff)

lemma pool_inv_cong:
  "sema st' = sema st \<Longrightarrow> semtot st' = semtot st \<Longrightarrow> length (sem_pool st') = length (sem_pool st) \<Longrightarrow>
     pool_inv st' = pool_inv st"
  using layout_cong [of st' st] by (simp add: pool_inv_def)

lemma sem_at_slot [simp]:
  "0 \<le> k \<Longrightarrow> nat k < nsem st i \<Longrightarrow> pool_inv st \<Longrightarrow> live st i \<Longrightarrow>
     sem_at st (base_of st i) k = Some (sem_of st i (nat k))"
  using slot_in_pool [of st i "nat k"] by (simp add: sem_at_def sem_of_def nat_add_distrib)

section \<open>Frames\<close>

text \<open>
  \<open>same_tables\<close>: the part of the state the undo code does not touch. Everything that works on
  undo structures keeps it.
\<close>

definition same_tables :: "sysvsem \<Rightarrow> sysvsem \<Rightarrow> bool" where
  "same_tables st st' \<longleftrightarrow> sema st' = sema st \<and> semtot st' = semtot st \<and> sem_pool st' = sem_pool st \<and>
     wakeups st' = wakeups st"

lemma same_tables_refl [simp, intro]: "same_tables st st"
  by (simp add: same_tables_def)

lemma same_tables_trans: "same_tables a b \<Longrightarrow> same_tables b c \<Longrightarrow> same_tables a c"
  by (simp add: same_tables_def)

lemma same_tables_upd [simp, frame_simps]:
  "same_tables st (st\<lparr>semu := us\<rparr>)" "same_tables st (st\<lparr>semu_list_idx := l\<rparr>)" "same_tables st (st\<lparr>mem := m\<rparr>)"
  "same_tables st (set_semu i u st)" "same_tables st (set_link loc v st)"
  "same_tables st (semu_take i p st)" "same_tables st (adjust_ent si k a st)"
  by (simp_all add: same_tables_def set_semu_def set_link_def semu_take_def adjust_ent_def Let_def
      split: option.split)

lemma same_tables_malloc: "malloc st = (b, st') \<Longrightarrow> same_tables st st'"
  by (auto simp: malloc_def same_tables_def split: list.splits)

lemma same_tables_grow: "grow_semu_array n st = (b, st') \<Longrightarrow> same_tables st st'"
  by (auto simp: grow_semu_array_def Let_def split: if_splits prod.splits
      dest: same_tables_malloc intro: same_tables_trans [OF same_tables_malloc])

lemma same_tables_add_ent: "add_ent si semid k a st = (e, st') \<Longrightarrow> same_tables st st'"
  by (auto simp: add_ent_def Let_def split: if_splits prod.splits
      dest: same_tables_malloc intro: same_tables_trans [OF same_tables_malloc])

lemma same_tables_purge':
  assumes "semu_purge st loc did = Some r"
  shows "same_tables st (snd r)"
proof (rule semu_purge.raw_induct [where P = "\<lambda>st loc did r. same_tables st (snd r)", OF _ assms])
  fix self :: "sysvsem \<Rightarrow> nat option \<Rightarrow> bool \<Rightarrow> (bool \<times> sysvsem) option"
  fix st :: sysvsem and loc did and r :: "bool \<times> sysvsem"
  assume IH: "\<And>st loc did r. self st loc did = Some r \<Longrightarrow> same_tables st (snd r)"
  assume body: "(case link_at st loc of None \<Rightarrow> None | Some None \<Rightarrow> Some (did, st)
      | Some (Some i) \<Rightarrow>
          (case rd (semu st) i of None \<Rightarrow> None
           | Some u \<Rightarrow>
               if un_cnt u = 0
               then self (set_link loc (un_next_idx u) (set_semu i (u\<lparr>un_proc := None\<rparr>) st)) loc True
               else self st (Some i) did)) = Some r"
  show "same_tables st (snd r)"
  proof (cases "link_at st loc")
    case (Some l)
    show ?thesis
    proof (cases l)
      case (Some i)
      then obtain u where u: "rd (semu st) i = Some u"
        using body \<open>link_at st loc = Some l\<close> by (cases "rd (semu st) i") auto
      show ?thesis
      proof (cases "un_cnt u = 0")
        case True
        then have "same_tables (set_link loc (un_next_idx u) (set_semu i (u\<lparr>un_proc := None\<rparr>) st)) (snd r)"
          using body u Some \<open>link_at st loc = Some l\<close> by (auto intro: IH)
        then show ?thesis by (rule same_tables_trans [rotated])
            (rule same_tables_trans [of _ "set_semu i (u\<lparr>un_proc := None\<rparr>) st"], simp_all)
      qed (use body u Some \<open>link_at st loc = Some l\<close> in \<open>auto intro: IH\<close>)
    qed (use body \<open>link_at st loc = Some l\<close> in auto)
  qed (use body in auto)
qed

lemma same_tables_purge: "semu_purge st loc did = Some (d, st') \<Longrightarrow> same_tables st st'"
  using same_tables_purge' [of st loc did "(d, st')"] by simp

lemma same_tables_alloc:
  assumes "semu_alloc p st = Some (r, st')"
  shows "same_tables st st'"
proof (cases "free_slot (semu st) 0")
  case None
  then obtain did st1 where 1: "semu_purge st None False = Some (did, st1)"
    using assms by (auto simp: semu_alloc_def split: option.splits)
  obtain ok st2 where 2: "(if did then (True, st1) else grow_semu_array (length (semu st1) + 1) st1) = (ok, st2)"
    by (meson surj_pair)
  have "same_tables st st2"
    using same_tables_trans [OF same_tables_purge [OF 1], of st2] 2
    by (cases did) (auto dest: same_tables_grow)
  moreover have "same_tables st2 st'"
    using assms None 1 2 by (auto simp: semu_alloc_def split: if_splits option.splits)
  ultimately show ?thesis by (rule same_tables_trans)
qed (use assms in \<open>auto simp: semu_alloc_def\<close>)

lemma same_tables_scan:
  "semundo_scan si semid semnum adjval st = Some (e, s, st') \<Longrightarrow> same_tables st st'"
  by (auto simp: semundo_scan_def Let_def dest: same_tables_add_ent split: option.splits prod.splits)

lemma same_tables_adjust:
  assumes "semundo_adjust p supidx semid semnum adjval st = Some (e, s, st')"
  shows "same_tables st st'"
  using assms same_tables_trans [OF same_tables_alloc same_tables_scan]
  by (auto simp: semundo_adjust_def dest: same_tables_alloc same_tables_scan
      split: option.splits prod.splits if_splits)

lemma same_tables_clear:
  assumes "semundo_clear semid semnum st = Some st'"
  shows "same_tables st st'"
  using assms unfolding semundo_clear_def
proof (rule semundo_clear_from.raw_induct [where P = "\<lambda>semid semnum st loc st'. same_tables st st'", rotated])
  fix self :: "nat \<Rightarrow> int \<Rightarrow> sysvsem \<Rightarrow> nat option \<Rightarrow> sysvsem option"
  fix semid semnum st loc st'
  assume IH: "\<And>semid semnum st loc st'. self semid semnum st loc = Some st' \<Longrightarrow> same_tables st st'"
  assume body: "(case link_at st loc of None \<Rightarrow> None | Some None \<Rightarrow> Some st
      | Some (Some i) \<Rightarrow>
          (case rd (semu st) i of None \<Rightarrow> None
           | Some u \<Rightarrow>
               (case clear_ents semid semnum (un_cnt u) (un_ent u) of None \<Rightarrow> None
                | Some es \<Rightarrow> self semid semnum (set_semu i (u\<lparr>un_ent := es,
                    un_cnt := un_cnt u - (length (un_ent u) - length es)\<rparr>) st) (Some i)))) = Some st'"
  then show "same_tables st st'"
    by (auto split: option.splits dest!: IH intro: same_tables_trans [rotated])
qed

lemma same_tables_adjust_undos:
  "adjust_undos p semid supidx bs i st = Some (e, s, st') \<Longrightarrow> same_tables st st'"
  by (induction p semid supidx bs i st rule: adjust_undos.induct)
    (auto split: if_splits option.splits prod.splits dest: same_tables_adjust intro: same_tables_trans [OF same_tables_adjust])

lemma same_tables_unroll_undos:
  "unroll_undos p semid supidx bs st = Some st' \<Longrightarrow> same_tables st st'"
  by (induction p semid supidx bs st rule: unroll_undos.induct)
    (auto split: if_splits option.splits prod.splits dest: same_tables_adjust intro: same_tables_trans [OF same_tables_adjust])

end
