(* ===== verification/Sysv_Semop.thy ===== *)
theory Sysv_Semop
  imports Sysv_Pool
begin

text \<open>
  The vector of operations of \<open>semop\<close> (\<open>kern/sysv_sem.c\<close>): what a pass over it does to the pool, what
  the rollback restores, and the atomicity that the comment in the code promises.
\<close>

section \<open>Adding a vector to the pool\<close>

definition add_op :: "nat \<Rightarrow> sembuf \<Rightarrow> sem list \<Rightarrow> sem list" where
  "add_op base b pool =
     (let j = base + unat (sem_num b) in pool[j := (pool ! j)\<lparr>semval := semval (pool ! j) + sem_op b\<rparr>])"

definition add_ops :: "nat \<Rightarrow> sembuf list \<Rightarrow> sem list \<Rightarrow> sem list" where
  "add_ops base bs pool = fold (add_op base) bs pool"

definition wdelta :: "nat \<Rightarrow> sembuf list \<Rightarrow> nat \<Rightarrow> u16" where
  "wdelta base bs j = (\<Sum>b\<leftarrow>bs. if base + unat (sem_num b) = j then sem_op b else 0)"

lemma add_ops_simps [simp]:
  "add_ops base [] pool = pool"
  "add_ops base (b # bs) pool = add_ops base bs (add_op base b pool)"
  by (simp_all add: add_ops_def)

lemma wdelta_simps [simp]:
  "wdelta base [] j = 0"
  "wdelta base (b # bs) j = (if base + unat (sem_num b) = j then sem_op b else 0) + wdelta base bs j"
  by (simp_all add: wdelta_def)

lemma length_add_op [simp]: "length (add_op base b pool) = length pool"
  by (simp add: add_op_def Let_def)

lemma length_add_ops [simp]: "length (add_ops base bs pool) = length pool"
  by (induction bs arbitrary: pool) simp_all

lemma nth_add_op:
  "j < length pool \<Longrightarrow> add_op base b pool ! j =
     (pool ! j)\<lparr>semval := semval (pool ! j) + (if base + unat (sem_num b) = j then sem_op b else 0)\<rparr>"
  by (auto simp: add_op_def Let_def nth_list_update)

lemma nth_add_ops:
  "j < length pool \<Longrightarrow> add_ops base bs pool ! j = (pool ! j)\<lparr>semval := semval (pool ! j) + wdelta base bs j\<rparr>"
  by (induction bs arbitrary: pool) (simp_all add: nth_add_op add.assoc)

text \<open>The rollback takes back what was added, whatever wrapped around.\<close>

lemma sem_at_base: "base + k < length (sem_pool st) \<Longrightarrow> sem_at st base (int k) = Some (sem_pool st ! (base + k))"
  by (simp add: sem_at_def nat_int_add)

lemma sem_at_num [simp]:
  "base + unat (sem_num b) < length (sem_pool st) \<Longrightarrow>
     sem_at st base (uint (sem_num b)) = Some (sem_pool st ! (base + unat (sem_num b)))"
  using sem_at_base [of base "unat (sem_num b)" st] by simp

lemma sem_put_num: "sem_put base (uint (sem_num b)) s st = st\<lparr>sem_pool := (sem_pool st)[base + unat (sem_num b) := s]\<rparr>"
proof -
  have "nat (int base + uint (sem_num b)) = base + unat (sem_num b)"
    by (simp add: nat_add_distrib flip: unat_eq_nat_uint)
  then show ?thesis by (simp add: sem_put_def)
qed

lemma rollback_exists:
  assumes "\<And>b. b \<in> set bs \<Longrightarrow> base + unat (sem_num b) < length (sem_pool st)"
  shows "\<exists>pool. sem_rollback base bs st = Some (st\<lparr>sem_pool := pool\<rparr>) \<and> length pool = length (sem_pool st) \<and>
    (\<forall>j < length pool. pool ! j = (sem_pool st ! j)\<lparr>semval := semval (sem_pool st ! j) - wdelta base bs j\<rparr>)"
  using assms
proof (induction bs arbitrary: st)
  case Nil
  then show ?case by (auto intro: exI [of _ "sem_pool st"])
next
  case (Cons b bs)
  let ?j = "base + unat (sem_num b)"
  let ?s = "(sem_pool st ! ?j)\<lparr>semval := semval (sem_pool st ! ?j) - sem_op b\<rparr>"
  let ?st = "st\<lparr>sem_pool := (sem_pool st)[?j := ?s]\<rparr>"
  have j: "?j < length (sem_pool st)" using Cons.prems by simp
  then obtain pool where pool: "sem_rollback base bs ?st = Some (?st\<lparr>sem_pool := pool\<rparr>)"
    "length pool = length (sem_pool st)"
    "\<forall>j < length pool. pool ! j = (sem_pool ?st ! j)\<lparr>semval := semval (sem_pool ?st ! j) - wdelta base bs j\<rparr>"
    using Cons.IH [of ?st] Cons.prems by auto
  have "sem_rollback base (b # bs) st = Some (st\<lparr>sem_pool := pool\<rparr>)"
    using j pool(1) by (simp add: sem_put_num)
  then show ?case using pool(2,3) j
    by (intro exI [of _ pool]) (auto simp: nth_list_update algebra_simps)
qed

lemma rollback_add_ops:
  assumes "\<And>b. b \<in> set bs \<Longrightarrow> base + unat (sem_num b) < length pool"
    and "sem_pool st = add_ops base bs pool"
  shows "sem_rollback base bs st = Some (st\<lparr>sem_pool := pool\<rparr>)"
proof -
  obtain pool' where p: "sem_rollback base bs st = Some (st\<lparr>sem_pool := pool'\<rparr>)"
    "length pool' = length pool"
    "\<forall>j < length pool'. pool' ! j = (sem_pool st ! j)\<lparr>semval := semval (sem_pool st ! j) - wdelta base bs j\<rparr>"
    using rollback_exists [of bs base st] assms by auto
  have "pool' = pool"
    by (rule nth_equalityI) (use p assms(2) in \<open>auto simp: nth_add_ops\<close>)
  with p(1) show ?thesis by simp
qed

section \<open>A pass over the vector\<close>

text \<open>
  Whether an operation can go ahead on a semaphore, and whether it asks for a wake-up;
  \<open>before\<close> is the semaphore an operation of the vector meets.
\<close>

definition goes :: "sem \<Rightarrow> sembuf \<Rightarrow> bool" where
  "goes s b \<longleftrightarrow> \<not> (sint (sem_op b) < 0 \<and> uint (semval s) + sint (sem_op b) < 0) \<and> \<not> (sem_op b = 0 \<and> semval s > 0)"

definition wakes :: "sem \<Rightarrow> sembuf \<Rightarrow> bool" where
  "wakes s b \<longleftrightarrow>
     (if sint (sem_op b) < 0 then semval s + sem_op b = 0 \<and> semzcnt s > 0
      else sem_op b \<noteq> 0 \<and> semncnt s > 0)"

definition before :: "nat \<Rightarrow> sembuf list \<Rightarrow> sem list \<Rightarrow> nat \<Rightarrow> sem" where
  "before base bs pool k = add_ops base (take k bs) pool ! (base + unat (sem_num (bs ! k)))"

definition passes :: "nat \<Rightarrow> u16 \<Rightarrow> sembuf list \<Rightarrow> sem list \<Rightarrow> nat \<Rightarrow> bool" where
  "passes base n bs pool m \<longleftrightarrow> (\<forall>k < m. sem_num (bs ! k) < n \<and> goes (before base bs pool k) (bs ! k))"

fun pass_spec :: "nat \<Rightarrow> u16 \<Rightarrow> sembuf list \<Rightarrow> nat \<Rightarrow> bool \<Rightarrow> bool \<Rightarrow> sysvsem \<Rightarrow> sem_pass \<Rightarrow> bool" where
  "pass_spec base n bs i wk und st (Through st' wk' und') \<longleftrightarrow>
     passes base n bs (sem_pool st) (length bs) \<and> st' = st\<lparr>sem_pool := add_ops base bs (sem_pool st)\<rparr> \<and>
     (wk' \<longleftrightarrow> wk \<or> (\<exists>k < length bs. wakes (before base bs (sem_pool st) k) (bs ! k))) \<and>
     (und' \<longleftrightarrow> und \<or> (\<exists>b \<in> set bs. \<not> undo_skip b))"
| "pass_spec base n bs i wk und st (Blocked st' j und') \<longleftrightarrow>
     (\<exists>k < length bs. j = i + k \<and> passes base n bs (sem_pool st) k \<and> sem_num (bs ! k) < n \<and>
        \<not> goes (before base bs (sem_pool st) k) (bs ! k) \<and>
        st' = st\<lparr>sem_pool := add_ops base (take k bs) (sem_pool st)\<rparr>)"
| "pass_spec base n bs i wk und st (Too_big st') \<longleftrightarrow>
     (\<exists>k < length bs. passes base n bs (sem_pool st) k \<and> n \<le> sem_num (bs ! k) \<and>
        st' = st\<lparr>sem_pool := add_ops base (take k bs) (sem_pool st)\<rparr>)"

lemma before_simps [simp]:
  "before base (b # bs) pool 0 = pool ! (base + unat (sem_num b))"
  "before base (b # bs) pool (Suc k) = before base bs (add_op base b pool) k"
  by (simp_all add: before_def)

lemma passes_Suc:
  "passes base n (b # bs) pool (Suc m) \<longleftrightarrow>
     sem_num b < n \<and> goes (pool ! (base + unat (sem_num b))) b \<and> passes base n bs (add_op base b pool) m"
  by (auto simp: passes_def less_Suc_eq_0_disj)

lemma passes_0 [simp]: "passes base n bs pool 0"
  by (simp add: passes_def)

text \<open>One operation in front: the step of the induction below.\<close>

lemma pass_spec_Cons:
  assumes "pass_spec base n bs (Suc i) wk' und' (st\<lparr>sem_pool := add_op base b (sem_pool st)\<rparr>) r"
    and "sem_num b < n" and "goes (sem_pool st ! (base + unat (sem_num b))) b"
    and "wk' \<longleftrightarrow> wk \<or> wakes (sem_pool st ! (base + unat (sem_num b))) b"
    and "und' \<longleftrightarrow> und \<or> \<not> undo_skip b"
  shows "pass_spec base n (b # bs) i wk und st r"
proof (cases r)
  case (Through st' w u)
  with assms(1) have "passes base n bs (add_op base b (sem_pool st)) (length bs)"
    "st' = st\<lparr>sem_pool := add_ops base bs (add_op base b (sem_pool st))\<rparr>"
    "w \<longleftrightarrow> wk' \<or> (\<exists>k < length bs. wakes (before base bs (add_op base b (sem_pool st)) k) (bs ! k))"
    "u \<longleftrightarrow> und' \<or> (\<exists>b \<in> set bs. \<not> undo_skip b)" by simp_all
  with Through assms(2-5) show ?thesis
    by (simp add: passes_Suc Ex_less_Suc2 disj_assoc)
next
  case (Blocked st' j u)
  with assms obtain k where "k < length bs" "j = Suc i + k"
    "passes base n bs (add_op base b (sem_pool st)) k" "sem_num (bs ! k) < n"
    "\<not> goes (before base bs (add_op base b (sem_pool st)) k) (bs ! k)"
    "st' = st\<lparr>sem_pool := add_ops base (take k bs) (add_op base b (sem_pool st))\<rparr>" by auto
  with Blocked assms(2,3) show ?thesis
    by (auto intro!: exI [of _ "Suc k"] simp: passes_Suc)
next
  case (Too_big st')
  with assms obtain k where "k < length bs"
    "passes base n bs (add_op base b (sem_pool st)) k" "n \<le> sem_num (bs ! k)"
    "st' = st\<lparr>sem_pool := add_ops base (take k bs) (add_op base b (sem_pool st))\<rparr>" by auto
  with Too_big assms(2,3) show ?thesis
    by (auto intro!: exI [of _ "Suc k"] simp: passes_Suc)
qed

lemma semop_pass_spec:
  assumes "base + unat n \<le> length (sem_pool st)"
  shows "\<exists>r. semop_pass base n bs i wk und st = Some r \<and> pass_spec base n bs i wk und st r"
  using assms
proof (induction bs arbitrary: i wk und st)
  case Nil
  then show ?case by (simp add: passes_def)
next
  case (Cons b bs)
  let ?j = "base + unat (sem_num b)" let ?s = "sem_pool st ! ?j"
  show ?case
  proof (cases "sem_num b < n")
    case False
    then show ?thesis by (auto intro: exI [of _ 0])
  next
    case True
    then have j: "?j < length (sem_pool st)"
      using Cons.prems by (simp add: word_less_nat_alt)
    show ?thesis
    proof (cases "goes ?s b")
      case False
      then show ?thesis using True j
        by (auto simp: goes_def intro: exI [of _ 0])
    next
      case goes: True
      let ?wk = "wk \<or> wakes ?s b" and ?und = "und \<or> \<not> undo_skip b"
      have put: "sem_put base (uint (sem_num b)) (?s\<lparr>semval := semval ?s + sem_op b\<rparr>) st =
          st\<lparr>sem_pool := add_op base b (sem_pool st)\<rparr>"
        by (simp add: sem_put_num add_op_def Let_def)
      have zero: "sem_op b = 0 \<Longrightarrow> st\<lparr>sem_pool := add_op base b (sem_pool st)\<rparr> = st"
        by (simp add: add_op_def)
      have eq: "semop_pass base n (b # bs) i wk und st =
          semop_pass base n bs (Suc i) ?wk ?und (st\<lparr>sem_pool := add_op base b (sem_pool st)\<rparr>)"
      proof (cases "sem_op b = 0")
        case True
        have "\<not> n \<le> sem_num b" using \<open>sem_num b < n\<close> by simp
        with True show ?thesis using goes j zero
          by (simp add: goes_def wakes_def undo_skip_def)
      next
        case False
        have "\<not> n \<le> sem_num b" using \<open>sem_num b < n\<close> by simp
        with False show ?thesis using goes j
          by (simp add: put [unfolded sem_put_num] goes_def wakes_def undo_skip_def Let_def sem_put_num)
      qed
      obtain r where "semop_pass base n bs (Suc i) ?wk ?und (st\<lparr>sem_pool := add_op base b (sem_pool st)\<rparr>) = Some r"
        "pass_spec base n bs (Suc i) ?wk ?und (st\<lparr>sem_pool := add_op base b (sem_pool st)\<rparr>) r"
        using Cons.IH [of "st\<lparr>sem_pool := add_op base b (sem_pool st)\<rparr>"] Cons.prems by force
      then show ?thesis using eq pass_spec_Cons [OF _ True goes] by auto
    qed
  qed
qed

section \<open>One turn of semop\<close>

text \<open>Two pools that differ in process ids only.\<close>

definition same_but_pid :: "sem list \<Rightarrow> sem list \<Rightarrow> bool" where
  "same_but_pid xs ys \<longleftrightarrow> length xs = length ys \<and>
     (\<forall>j < length xs. semval (xs ! j) = semval (ys ! j) \<and> semncnt (xs ! j) = semncnt (ys ! j) \<and>
        semzcnt (xs ! j) = semzcnt (ys ! j))"

lemma same_but_pid_refl [simp]: "same_but_pid xs xs"
  by (simp add: same_but_pid_def)

lemma set_pids_exists:
  assumes "\<And>b. b \<in> set bs \<Longrightarrow> base + unat (sem_num b) < length (sem_pool st)"
  shows "\<exists>pool. set_pids p base bs st = Some (st\<lparr>sem_pool := pool\<rparr>) \<and> same_but_pid pool (sem_pool st)"
  using assms
proof (induction bs arbitrary: st)
  case Nil
  then show ?case by (auto intro: exI [of _ "sem_pool st"])
next
  case (Cons b bs)
  let ?j = "base + unat (sem_num b)"
  let ?st = "st\<lparr>sem_pool := (sem_pool st)[?j := (sem_pool st ! ?j)\<lparr>sempid := p\<rparr>]\<rparr>"
  have j: "?j < length (sem_pool st)" using Cons.prems by simp
  obtain pool where "set_pids p base bs ?st = Some (?st\<lparr>sem_pool := pool\<rparr>)" "same_but_pid pool (sem_pool ?st)"
    using Cons.IH [of ?st] Cons.prems by auto
  then show ?case using j
    by (intro exI [of _ pool]) (auto simp: sem_put_num same_but_pid_def nth_list_update)
qed

text \<open>
  What a turn can come to, in terms of the state it starts from: \<open>Returns None\<close> with the vector
  added, an error with the old values, \<open>EFBIG\<close> in the middle of the vector, or sleep.
\<close>

definition bump :: "sembuf \<Rightarrow> sem \<Rightarrow> sem" where
  "bump b s = (if sem_op b = 0 then s\<lparr>semzcnt := semzcnt s + 1\<rparr> else s\<lparr>semncnt := semncnt s + 1\<rparr>)"

fun turn_spec :: "nat \<Rightarrow> sembuf list \<Rightarrow> sysvsem \<Rightarrow> semop_result \<Rightarrow> bool" where
  "turn_spec semid sops st (Returns None st') \<longleftrightarrow>
     passes (base_of st semid) (sem_nsems (sema st ! semid)) sops (sem_pool st) (length sops) \<and>
     same_but_pid (sem_pool st') (add_ops (base_of st semid) sops (sem_pool st)) \<and>
     semtot st' = semtot st \<and> (\<exists>now. sema st' = (sema st)[semid := (sema st ! semid)\<lparr>sem_otime := now\<rparr>]) \<and>
     wakeups st' = wakeups st @
       (if \<exists>k < length sops. wakes (before (base_of st semid) sops (sem_pool st) k) (sops ! k) then [semid] else [])"
| "turn_spec semid sops st (Returns (Some e) st') \<longleftrightarrow>
     same_tables st st' \<or>
     (e = EFBIG \<and> (\<exists>k < length sops. sem_nsems (sema st ! semid) \<le> sem_num (sops ! k) \<and>
        passes (base_of st semid) (sem_nsems (sema st ! semid)) sops (sem_pool st) k \<and>
        st' = st\<lparr>sem_pool := add_ops (base_of st semid) (take k sops) (sem_pool st)\<rparr>))"
| "turn_spec semid sops st (Sleeps i und st') \<longleftrightarrow>
     i < length sops \<and> passes (base_of st semid) (sem_nsems (sema st ! semid)) sops (sem_pool st) i \<and>
     sem_num (sops ! i) < sem_nsems (sema st ! semid) \<and>
     \<not> goes (before (base_of st semid) sops (sem_pool st) i) (sops ! i) \<and>
     (let j = base_of st semid + unat (sem_num (sops ! i)) in
      st' = st\<lparr>sem_pool := (sem_pool st)[j := bump (sops ! i) (sem_pool st ! j)]\<rparr>)"

lemma passes_in_pool:
  assumes "passes base n bs pool m" "m \<le> length bs" "base + unat n \<le> length pool" "b \<in> set (take m bs)"
  shows "base + unat (sem_num b) < length pool"
proof -
  obtain k where "k < m" "b = bs ! k" using assms(2,4) by (auto simp: in_set_conv_nth)
  then show ?thesis using assms(1,3) by (auto simp: passes_def word_less_nat_alt)
qed

lemma turn_done:
  assumes "semop_done p semid base sops now wk und (st\<lparr>sem_pool := add_ops base sops (sem_pool st)\<rparr>) = Some r"
    and "base = base_of st semid" and "semid < length (sema st)"
    and p: "passes base (sem_nsems (sema st ! semid)) sops (sem_pool st) (length sops)"
    and room: "base + unat (sem_nsems (sema st ! semid)) \<le> length (sem_pool st)"
    and wk: "wk \<longleftrightarrow> (\<exists>k < length sops. wakes (before base sops (sem_pool st) k) (sops ! k))"
  shows "turn_spec semid sops st r"
proof -
  let ?st = "st\<lparr>sem_pool := add_ops base sops (sem_pool st)\<rparr>"
  have inp: "\<And>b. b \<in> set sops \<Longrightarrow> base + unat (sem_num b) < length (sem_pool st)"
    using passes_in_pool [OF p _ room] by simp
  define finish where "finish = (\<lambda>st. map_option (\<lambda>st. Returns None (if wk then wakeup semid (set_otime semid now st)
      else set_otime semid now st)) (set_pids p base sops st))"
  have fin: "turn_spec semid sops st r" if f: "finish st1 = Some r" and t: "same_tables ?st st1" for st1
  proof -
    have "sem_pool st1 = add_ops base sops (sem_pool st)" using t by (simp add: same_tables_def)
    then obtain pool where pool: "set_pids p base sops st1 = Some (st1\<lparr>sem_pool := pool\<rparr>)"
      "same_but_pid pool (add_ops base sops (sem_pool st))"
      using set_pids_exists [of sops base st1 p] inp by auto
    with f have "r = Returns None (if wk then wakeup semid (set_otime semid now (st1\<lparr>sem_pool := pool\<rparr>))
        else set_otime semid now (st1\<lparr>sem_pool := pool\<rparr>))" by (simp add: finish_def)
    then show ?thesis using assms(2) p t pool(2) wk
      by (auto simp: wakeup_def set_otime_def same_tables_def)
  qed
  show ?thesis
  proof (cases und)
    case False
    with assms(1) show ?thesis by (intro fin [of ?st]) (simp_all add: semop_done_def finish_def)
  next
    case True
    then obtain a sup st1 where a: "adjust_undos p semid None sops 0 ?st = Some (a, sup, st1)"
      using assms(1) by (cases "adjust_undos p semid None sops 0 ?st") (auto simp: semop_done_def)
    have t: "same_tables ?st st1" using same_tables_adjust_undos [OF a] .
    show ?thesis
    proof (cases a)
      case None
      with assms(1) True a t show ?thesis by (intro fin [of st1]) (simp_all add: semop_done_def finish_def)
    next
      case (Some ei)
      then obtain e i where e: "a = Some (e, i)" by (cases ei) auto
      then obtain st2 where u: "unroll_undos p semid sup (rev (take i sops)) st1 = Some st2"
        and r: "map_option (Returns (Some e)) (sem_rollback base sops st2) = Some r"
        using assms(1) True a by (auto simp: semop_done_def split: option.splits)
      have t2: "same_tables ?st st2" using same_tables_trans [OF t same_tables_unroll_undos [OF u]] .
      have "sem_rollback base sops st2 = Some (st2\<lparr>sem_pool := sem_pool st\<rparr>)"
        using rollback_add_ops [of sops base "sem_pool st" st2] inp t2 by (simp add: same_tables_def)
      with r t2 show ?thesis by (auto simp: same_tables_def)
    qed
  qed
qed

lemma semop_turn:
  assumes att: "semop_attempt p semid sops now und st = Some r"
    and inv: "pool_inv st" and live: "live st semid"
  shows "turn_spec semid sops st r"
proof -
  let ?d = "sema st ! semid" let ?base = "base_of st semid"
  have room: "?base + unat (sem_nsems ?d) \<le> length (sem_pool st)"
    using pool_invD(1) [OF inv] pool_invD(3) [OF inv live] by (simp add: nsem_def)
  obtain r1 where r1: "semop_pass ?base (sem_nsems ?d) sops 0 False und st = Some r1"
    "pass_spec ?base (sem_nsems ?d) sops 0 False und st r1"
    using semop_pass_spec [OF room] by blast
  have bd: "sem_base ?d = ?base" by (simp add: base_of_def)
  show ?thesis
  proof (cases r1)
    case (Through st1 wk und1)
    with r1 att bd have "semop_done p semid ?base sops now wk und1 (st\<lparr>sem_pool := add_ops ?base sops (sem_pool st)\<rparr>) = Some r"
      by (simp add: semop_attempt_def Let_def)
    from turn_done [OF this refl] live r1(2) Through room show ?thesis
      by (simp add: live_def)
  next
    case (Too_big st1)
    with r1 att bd show ?thesis by (auto simp: semop_attempt_def Let_def)
  next
    case (Blocked st1 i und1)
    with r1(2) have i: "i < length sops" and pi: "passes ?base (sem_nsems ?d) sops (sem_pool st) i"
      and num: "sem_num (sops ! i) < sem_nsems ?d"
      and ng: "\<not> goes (before ?base sops (sem_pool st) i) (sops ! i)"
      and st1: "st1 = st\<lparr>sem_pool := add_ops ?base (take i sops) (sem_pool st)\<rparr>" by auto
    have rb: "sem_rollback ?base (take i sops) st1 = Some st"
      using rollback_add_ops [of "take i sops" ?base "sem_pool st" st1] passes_in_pool [OF pi _ room] i st1
      by simp
    have j: "?base + unat (sem_num (sops ! i)) < length (sem_pool st)"
      using num room by (simp add: word_less_nat_alt)
    from att r1(1) Blocked bd rb j have "r = Returns (Some EAGAIN) st \<or>
        r = Sleeps i und1 (st\<lparr>sem_pool := (sem_pool st)[?base + unat (sem_num (sops ! i)) :=
          bump (sops ! i) (sem_pool st ! (?base + unat (sem_num (sops ! i))))]\<rparr>)"
      by (auto simp: semop_attempt_def Let_def bump_def sem_put_num split: if_splits)
    then show ?thesis using i pi num ng by (auto simp: Let_def)
  qed
qed

section \<open>Atomicity\<close>

lemma wdelta_base: "wdelta base bs (base + k) = wdelta 0 bs k"
  by (induction bs) simp_all

lemma wdelta_outside:
  "(\<And>b. b \<in> set bs \<Longrightarrow> base + unat (sem_num b) \<noteq> j) \<Longrightarrow> wdelta base bs j = 0"
  by (induction bs) simp_all

text \<open>The values after a successful turn: the sums for the set, nothing for the others.\<close>

lemma turn_values:
  assumes "turn_spec ix sops st (Returns None st')" and inv: "pool_inv st" and live: "live st ix"
    and i: "live st i" "k < nsem st i"
  shows "semval (sem_of st' i k) = semval (sem_of st i k) + (if i = ix then wdelta 0 sops k else 0)"
    and "semncnt (sem_of st' i k) = semncnt (sem_of st i k)"
    and "semzcnt (sem_of st' i k) = semzcnt (sem_of st i k)"
proof -
  let ?b = "base_of st ix"
  obtain now where sema: "sema st' = (sema st)[ix := (sema st ! ix)\<lparr>sem_otime := now\<rparr>]"
    using assms(1) by auto
  have base: "base_of st' i = base_of st i" using sema live
    by (cases "i = ix") (auto simp: base_of_def live_def)
  have p: "passes ?b (sem_nsems (sema st ! ix)) sops (sem_pool st) (length sops)"
    and pool: "same_but_pid (sem_pool st') (add_ops ?b sops (sem_pool st))" using assms(1) by auto
  have j: "base_of st i + k < length (sem_pool st)" using slot_in_pool [OF inv i] .
  have w: "wdelta ?b sops (base_of st i + k) = (if i = ix then wdelta 0 sops k else 0)"
  proof (cases "i = ix")
    case False
    have "?b + unat (sem_num b) \<noteq> base_of st i + k" if "b \<in> set sops" for b
      using p that slots_differ [OF inv live i(1), of "unat (sem_num b)" k] i(2) False
      by (auto simp: passes_def in_set_conv_nth nsem_def word_less_nat_alt)
    then show ?thesis using wdelta_outside [of sops ?b] False by simp
  qed (simp add: wdelta_base)
  show "semval (sem_of st' i k) = semval (sem_of st i k) + (if i = ix then wdelta 0 sops k else 0)"
    "semncnt (sem_of st' i k) = semncnt (sem_of st i k)" "semzcnt (sem_of st' i k) = semzcnt (sem_of st i k)"
    using pool j by (auto simp: sem_of_def base same_but_pid_def nth_add_ops w)
qed

lemma semval_bump: "m < length xs \<Longrightarrow> semval (xs[j := bump b (xs ! j)] ! m) = semval (xs ! m)"
  by (cases "j = m") (auto simp: bump_def)

text \<open>Each return of \<open>semop\<close> before its loop leaves the state alone; else it is one turn.\<close>

lemma semop_cases:
  assumes "semop p c uid nsops copyin now st = Some r"
  obtains e where "r = Returns (Some e) st"
  | sops where "live st (IPCID_TO_IX uid)" "ipc_seq (sem_perm (sema st ! IPCID_TO_IX uid)) = IPCID_TO_SEQ uid"
      "copyin (nat nsops) = Some sops" "semop_attempt p (IPCID_TO_IX uid) sops now False st = Some r"
  using assms by (auto simp: semop_def live_def Let_def rd_eq_Some_iff split: option.splits if_splits)

text \<open>C10: 
  semop is atomic for vectors that name existing semaphores: a call that returns 0 has let every
  operation go ahead in order and added the vector to the values of its set, a call that fails, for
  whatever reason, and a call that goes to sleep leave every value in the system as it was.
\<close>

theorem semop_atomic:
  assumes "pool_inv st" and "semop p c uid nsops copyin now st = Some r"
    and "\<And>sops b. copyin (nat nsops) = Some sops \<Longrightarrow> b \<in> set sops \<Longrightarrow>
      sem_num b < sem_nsems (sema st ! IPCID_TO_IX uid)"
    and "live st i" "k < nsem st i"
  shows "case r of
      Returns None st' \<Rightarrow> \<exists>sops. copyin (nat nsops) = Some sops \<and>
        passes (base_of st (IPCID_TO_IX uid)) (sem_nsems (sema st ! IPCID_TO_IX uid)) sops (sem_pool st) (length sops) \<and>
        semval (sem_of st' i k) = semval (sem_of st i k) + (if i = IPCID_TO_IX uid then wdelta 0 sops k else 0)
    | Returns (Some e) st' \<Rightarrow> sem_of st' i k = sem_of st i k
    | Sleeps b u st' \<Rightarrow> semval (sem_of st' i k) = semval (sem_of st i k)"
  using assms(2)
proof (cases rule: semop_cases)
  case (2 sops)
  note turn = semop_turn [OF 2(4) assms(1) 2(1)]
  show ?thesis
  proof (cases r)
    case (Returns e st')
    show ?thesis
    proof (cases e)
      case None
      then show ?thesis using Returns turn 2(3) turn_values(1) [OF _ assms(1) 2(1) assms(4,5)] by auto
    next
      case (Some x)
      have "\<not> (\<exists>k < length sops. sem_nsems (sema st ! IPCID_TO_IX uid) \<le> sem_num (sops ! k))"
        using assms(3) [OF 2(3)] by (auto simp: not_le)
      then have "same_tables st st'" using turn Returns Some by auto
      then show ?thesis using Returns Some by (simp add: same_tables_def sem_of_def base_of_def)
    qed
  next
    case (Sleeps b u st')
    then show ?thesis using turn slot_in_pool [OF assms(1,4,5)]
      by (auto simp: sem_of_def base_of_def Let_def semval_bump)
  qed
qed auto

text \<open>A set of two semaphores with the values 3 and 5.\<close>

definition sem_example :: sysvsem where
  "sem_example = \<lparr>semtot = 2,
     sema = [\<lparr>sem_perm = zero_perm\<lparr>ipc_mode := SEM_ALLOC, ipc_seq := 1\<rparr>, sem_base = 0, sem_nsems = 2,
       sem_otime = 0, sem_ctime = 0\<rparr>],
     sem_pool = [zero_sem\<lparr>semval := 3\<rparr>, zero_sem\<lparr>semval := 5\<rparr>], semu_list_idx = None, semu = [],
     wakeups = [], mem = []\<rparr>"

definition root_cred :: cred where
  "root_cred = \<lparr>cr_uid = 0, cr_gid = 0, suser = True, ismember_gid = (\<lambda>_. (False, False))\<rparr>"

definition sop :: "u16 \<Rightarrow> int \<Rightarrow> sembuf" where
  "sop n x = \<lparr>sem_num = n, sem_op = word_of_int x, sem_flg = 0\<rparr>"

lemma live_example: "live sem_example i \<longleftrightarrow> i = 0"
  by (auto simp: live_def sem_example_def allocated_def SEM_ALLOC_def zero_perm_def)

lemma pool_inv_example: "pool_inv sem_example"
  unfolding pool_inv_def live_example
  by (simp add: nsem_def base_of_def sem_example_def)

lemma semop_example:
  "semop 1 root_cred 0x10000 2 (\<lambda>_. Some [sop 0 (-2), sop 1 4]) 7 sem_example =
     Some (Returns None (sem_example\<lparr>sem_pool := [zero_sem\<lparr>semval := 1, sempid := 1\<rparr>, zero_sem\<lparr>semval := 9, sempid := 1\<rparr>],
       sema := [(sema sem_example ! 0)\<lparr>sem_otime := 7\<rparr>]\<rparr>))"
  by code_simp

theorem semop_atomic_witness:
  "\<exists>st'. semop 1 root_cred 0x10000 2 (\<lambda>_. Some [sop 0 (-2), sop 1 4]) 7 sem_example = Some (Returns None st') \<and>
     semval (sem_of st' 0 1) = semval (sem_of sem_example 0 1) + 4"
proof -
  let ?c = "\<lambda>_ :: nat. Some [sop 0 (-2), sop 1 4]"
  have nsem: "nsem sem_example 0 = 2" by (simp add: nsem_def sem_example_def)
  have "IPCID_TO_IX 0x10000 = 0" by code_simp
  moreover have "sem_num b < sem_nsems (sema sem_example ! IPCID_TO_IX 0x10000)"
    if "?c (nat 2) = Some sops" "b \<in> set sops" for sops b
    using that \<open>IPCID_TO_IX 0x10000 = 0\<close> by (auto simp: sop_def sem_example_def)
  ultimately have "case (Returns None (sem_example\<lparr>sem_pool :=
      [zero_sem\<lparr>semval := 1, sempid := 1\<rparr>, zero_sem\<lparr>semval := 9, sempid := 1\<rparr>],
      sema := [(sema sem_example ! 0)\<lparr>sem_otime := 7\<rparr>]\<rparr>)) of
      Returns None st' \<Rightarrow> semval (sem_of st' 0 1) = semval (sem_of sem_example 0 1) + 4 | _ \<Rightarrow> True"
    using semop_atomic [OF pool_inv_example semop_example, of 0 1] nsem
    by (simp add: live_example wdelta_def) (simp add: sop_def)
  then show ?thesis using semop_example by auto
qed

text \<open>C36: 
  A vector that names a semaphore the set does not have fails with EFBIG after the operations in
  front of it have been carried out, and they stay: the rollback of the other failures is missing, so
  the failed call is visible to other processes.
\<close>

theorem semop_efbig_keeps_prefix:
  assumes "pool_inv st" and "live st semid"
    and "passes (base_of st semid) (sem_nsems (sema st ! semid)) sops (sem_pool st) m"
    and "m < length sops" and "sem_nsems (sema st ! semid) \<le> sem_num (sops ! m)"
  shows "semop_attempt p semid sops now und st =
    Some (Returns (Some EFBIG) (st\<lparr>sem_pool := add_ops (base_of st semid) (take m sops) (sem_pool st)\<rparr>))"
proof -
  let ?d = "sema st ! semid" let ?base = "base_of st semid"
  have room: "?base + unat (sem_nsems ?d) \<le> length (sem_pool st)"
    using pool_invD(1) [OF assms(1)] pool_invD(3) [OF assms(1,2)] by (simp add: nsem_def)
  obtain r where r: "semop_pass ?base (sem_nsems ?d) sops 0 False und st = Some r"
    "pass_spec ?base (sem_nsems ?d) sops 0 False und st r"
    using semop_pass_spec [OF room] by blast
  have stuck: "\<not> passes ?base (sem_nsems ?d) sops (sem_pool st) n" if "m < n" for n
    using assms(5) that by (auto simp: passes_def)
  have "r = Too_big (st\<lparr>sem_pool := add_ops ?base (take m sops) (sem_pool st)\<rparr>)"
  proof (cases r)
    case (Blocked st1 i u)
    with r(2) obtain k where k: "k < length sops" "passes ?base (sem_nsems ?d) sops (sem_pool st) k"
      "sem_num (sops ! k) < sem_nsems ?d" "\<not> goes (before ?base sops (sem_pool st) k) (sops ! k)" by auto
    with stuck assms(3,5) have "k \<noteq> m" "\<not> m < k" by (auto simp: not_le)
    then have False using assms(3) k(4) by (auto simp: passes_def)
    then show ?thesis ..
  next
    case (Too_big st1)
    with r(2) obtain k where k: "k < length sops" "passes ?base (sem_nsems ?d) sops (sem_pool st) k"
      "sem_nsems ?d \<le> sem_num (sops ! k)" "st1 = st\<lparr>sem_pool := add_ops ?base (take k sops) (sem_pool st)\<rparr>" by auto
    have "\<not> m < k" using stuck k(2) by blast
    moreover have "\<not> k < m" using assms(3) k(3) by (auto simp: passes_def not_less [symmetric])
    ultimately have "k = m" by linarith
    with k Too_big show ?thesis by simp
  qed (use r(2) stuck assms(4) in auto)
  then show ?thesis using r(1) by (simp add: semop_attempt_def Let_def base_of_def)
qed

theorem semop_efbig_keeps_prefix_witness:
  "semop_attempt 1 0 [sop 0 (-3), sop 2 1] 7 False sem_example =
     Some (Returns (Some EFBIG) (sem_example\<lparr>sem_pool := [zero_sem, zero_sem\<lparr>semval := 5\<rparr>]\<rparr>))"
proof -
  have p: "passes (base_of sem_example 0) (sem_nsems (sema sem_example ! 0)) [sop 0 (-3), sop 2 1]
      (sem_pool sem_example) 1"
    by (simp add: One_nat_def passes_Suc del: One_nat_def [symmetric])
       (simp add: goes_def sop_def sem_example_def base_of_def)
  show ?thesis
    using semop_efbig_keeps_prefix [OF pool_inv_example _ p, where p = 1 and now = 7 and und = False]
    by (simp add: live_example) (simp add: sem_example_def sop_def base_of_def add_op_def zero_sem_def)
qed

end
