(* ===== verification/Sysv_Layout.thy ===== *)
theory Sysv_Layout
  imports Sysv_Semop
begin

text \<open>
  Creation and removal of semaphore sets (\<open>semget\<close>, \<open>semctl\<close> of \<open>kern/sysv_sem.c\<close>): both keep the
  layout of the pool, a new set starts with zeros, removal closes the gap in the pool without
  touching a value of another set; sets of more than 65535 semaphores break the layout.
\<close>

section \<open>Removal\<close>

lemma shift_down_spec:
  assumes "i + k + n \<le> length pool"
  shows "\<exists>pool'. shift_down k i n pool = Some pool' \<and> length pool' = length pool \<and>
    (\<forall>j < length pool. pool' ! j = (if i \<le> j \<and> j < i + k then pool ! (j + n) else pool ! j))"
  using assms
proof (induction k arbitrary: i pool)
  case 0
  then show ?case by auto
next
  case (Suc k)
  let ?p = "pool[i := pool ! (i + n)]"
  obtain pool' where p: "shift_down k (Suc i) n ?p = Some pool'" "length pool' = length pool"
    "\<forall>j < length pool. pool' ! j = (if Suc i \<le> j \<and> j < Suc i + k then ?p ! (j + n) else ?p ! j)"
    using Suc.IH [of "Suc i" ?p] Suc.prems by auto
  have "pool' ! j = (if i \<le> j \<and> j < i + Suc k then pool ! (j + n) else pool ! j)" if "j < length pool" for j
    using p(3) that Suc.prems by (cases "j = i") auto
  with p(1,2) Suc.prems show ?case by (intro exI [of _ pool']) auto
qed

lemma live_rmid:
  assumes "sema st' = (map (move_base b n) (sema st))[ix := release_semid c (sema st ! ix)]" and "live st ix"
  shows "live st' j \<longleftrightarrow> live st j \<and> j \<noteq> ix"
    and "j \<noteq> ix \<Longrightarrow> j < length (sema st) \<Longrightarrow> nsem st' j = nsem st j"
    and "j \<noteq> ix \<Longrightarrow> live st j \<Longrightarrow> base_of st' j = (if b < base_of st j then base_of st j - n else base_of st j)"
  using assms
  by (auto simp: layout_defs nth_list_update move_base_def release_semid_def allocated_def split: if_splits)

text \<open>The effect of \<open>IPC_RMID\<close> on the tables, with the values of the sets that remain.\<close>

lemma rmid_tables:
  assumes "sem_rmid c ix st = Some st'" and inv: "pool_inv st" and live: "live st ix"
  shows "live st' j \<longleftrightarrow> live st j \<and> j \<noteq> ix"
    and "live st' j \<Longrightarrow> nsem st' j = nsem st j"
    and "live st' j \<Longrightarrow> k < nsem st j \<Longrightarrow> sem_of st' j k = sem_of st j k"
    and "pool_inv st'"
    and "wakeups st' = wakeups st @ [ix]"
    and "length (sema st') = length (sema st)"
    and "j < length (sema st) \<Longrightarrow> ipc_seq (sem_perm (sema st' ! j)) = ipc_seq (sem_perm (sema st ! j))"
proof -
  let ?d = "sema st ! ix" let ?b = "base_of st ix" let ?n = "nsem st ix"
  let ?sema = "(map (move_base ?b ?n) (sema st))[ix := release_semid c ?d]"
  have bn: "?b + ?n \<le> semtot st" "semtot st \<le> length (sem_pool st)"
    using pool_invD(1) [OF inv] pool_invD(3) [OF inv live] by auto
  then obtain pool where sd: "shift_down (semtot st - ?n - ?b) ?b ?n (sem_pool st) = Some pool"
    and len: "length pool = length (sem_pool st)"
    and pool: "\<And>j. j < length (sem_pool st) \<Longrightarrow>
      pool ! j = (if ?b \<le> j \<and> j < semtot st - ?n then sem_pool st ! (j + ?n) else sem_pool st ! j)"
    using shift_down_spec [of ?b "semtot st - ?n - ?b" ?n "sem_pool st"] by auto
  obtain st1 where clr: "semundo_clear ix (-1) (st\<lparr>semtot := semtot st - ?n, sem_pool := pool, sema := ?sema\<rparr>) = Some st1"
    and st': "st' = wakeup ix st1"
    using assms(1) bn sd by (auto simp: sem_rmid_def Let_def nsem_def base_of_def)
  have tabs: "sema st' = ?sema" "semtot st' = semtot st - ?n" "sem_pool st' = pool" "wakeups st' = wakeups st @ [ix]"
    using same_tables_clear [OF clr] by (simp_all add: st' wakeup_def same_tables_def)
  note lv = live_rmid [OF tabs(1) live]
  show l: "live st' j \<longleftrightarrow> live st j \<and> j \<noteq> ix" for j using lv(1) .
  show n: "live st' j \<Longrightarrow> nsem st' j = nsem st j" for j using l lv(2) [of j] by (auto simp: live_def)
  show "wakeups st' = wakeups st @ [ix]" "length (sema st') = length (sema st)" using tabs by simp_all
  show "j < length (sema st) \<Longrightarrow> ipc_seq (sem_perm (sema st' ! j)) = ipc_seq (sem_perm (sema st ! j))"
    by (cases "j = ix") (auto simp: tabs move_base_def release_semid_def)
  have cases: "(base_of st j + nsem st j \<le> ?b \<and> base_of st' j = base_of st j) \<or>
      (?b + ?n \<le> base_of st j \<and> base_of st' j = base_of st j - ?n)" if "live st j" "j \<noteq> ix" for j
    using pool_invD(4) [OF inv live that(1)] pool_invD(2) [OF inv that(1)] pool_invD(2) [OF inv live] lv(3) [OF that(2,1)] that(2)
    by auto
  show "sem_of st' j k = sem_of st j k" if "live st' j" "k < nsem st j" for j k
  proof -
    have j: "live st j" "j \<noteq> ix" using l that by auto
    have in1: "base_of st j + nsem st j \<le> semtot st" using pool_invD(3) [OF inv j(1)] .
    show ?thesis
    proof (cases "?b + ?n \<le> base_of st j")
      case True
      then have "base_of st' j = base_of st j - ?n" using cases [OF j] pool_invD(2) [OF inv j(1)] pool_invD(2) [OF inv live] by auto
      moreover have "base_of st j - ?n + k < semtot st - ?n" "?b \<le> base_of st j - ?n + k"
        "base_of st j - ?n + k + ?n = base_of st j + k" using True in1 that(2) by linarith+
      ultimately show ?thesis using bn pool [of "base_of st j - ?n + k"] by (simp add: sem_of_def tabs)
    next
      case False
      then have "base_of st j + nsem st j \<le> ?b" "base_of st' j = base_of st j" using cases [OF j] by auto
      then show ?thesis using that(2) bn pool [of "base_of st j + k"] by (simp add: sem_of_def tabs)
    qed
  qed
  show "pool_inv st'"
    unfolding pool_inv_def
  proof (intro conjI allI impI)
    show "semtot st' \<le> length (sem_pool st')" using bn len by (simp add: tabs)
  next
    fix i assume "live st' i"
    then have i: "live st i" "i \<noteq> ix" by (simp_all add: l)
    show "0 < nsem st' i" using n \<open>live st' i\<close> pool_invD(2) [OF inv i(1)] by simp
    show "base_of st' i + nsem st' i \<le> semtot st'"
      using cases [OF i] pool_invD(3) [OF inv i(1)] bn n [OF \<open>live st' i\<close>] by (auto simp: tabs)
  next
    fix i j assume ij: "live st' i" "live st' j" "i \<noteq> j"
    then have i: "live st i" "i \<noteq> ix" and j: "live st j" "j \<noteq> ix" by (simp_all add: l)
    show "base_of st' i + nsem st' i \<le> base_of st' j \<or> base_of st' j + nsem st' j \<le> base_of st' i"
      using cases [OF i] cases [OF j] pool_invD(4) [OF inv i(1) j(1) ij(3)] n [OF ij(1)] n [OF ij(2)]
      by linarith
  next
    have "(\<Sum>i\<in>{i. live st' i}. nsem st' i) = (\<Sum>i\<in>{i. live st i} - {ix}. nsem st i)"
      by (rule sum.cong) (auto simp: l n)
    also have "\<dots> = semtot st - ?n"
      using pool_invD(5) [OF inv] live sum.remove [of "{i. live st i}" ix "nsem st"] by simp
    finally show "(\<Sum>i\<in>{i. live st' i}. nsem st' i) = semtot st'" by (simp add: tabs)
  qed
qed

section \<open>Growth\<close>

text \<open>What growing tables and failing calls leave: longer arrays, filled with zeros.\<close>

definition grown :: "sysvsem \<Rightarrow> sysvsem \<Rightarrow> bool" where
  "grown st st' \<longleftrightarrow> semtot st' = semtot st \<and> semu st' = semu st \<and> semu_list_idx st' = semu_list_idx st \<and>
     (\<exists>k. sema st' = sema st @ replicate k zero_semid) \<and> (\<exists>k. sem_pool st' = sem_pool st @ replicate k zero_sem) \<and>
     (\<exists>ws. wakeups st' = wakeups st @ ws)"

lemma replicate_append: "(xs @ replicate a x) @ replicate b x = xs @ replicate (a + b) x"
  by (simp add: replicate_add)

lemma grown_refl [simp]: "grown st st"
  by (auto simp: grown_def intro: exI [of _ 0])

lemma grown_trans:
  assumes "grown a b" and "grown b c"
  shows "grown a c"
proof -
  obtain k l m n u v where "sema b = sema a @ replicate k zero_semid" "sema c = sema b @ replicate l zero_semid"
    "sem_pool b = sem_pool a @ replicate m zero_sem" "sem_pool c = sem_pool b @ replicate n zero_sem"
    "wakeups b = wakeups a @ u" "wakeups c = wakeups b @ v"
    using assms by (auto simp: grown_def)
  moreover from this have "sema c = sema a @ replicate (k + l) zero_semid" "sem_pool c = sem_pool a @ replicate (m + n) zero_sem"
    by (simp_all add: replicate_add)
  ultimately show ?thesis using assms unfolding grown_def by fastforce
qed

lemma not_allocated_zero [simp]: "\<not> allocated zero_semid"
  by (simp add: allocated_def zero_semid_def zero_perm_def)

lemma grown_layout:
  assumes "grown st st'"
  shows "live st' i \<longleftrightarrow> live st i" and "live st i \<Longrightarrow> sema st' ! i = sema st ! i"
    and "live st i \<Longrightarrow> nsem st' i = nsem st i" and "live st i \<Longrightarrow> base_of st' i = base_of st i"
    and "pool_inv st \<Longrightarrow> live st i \<Longrightarrow> k < nsem st i \<Longrightarrow> sem_of st' i k = sem_of st i k"
    and "pool_inv st \<Longrightarrow> pool_inv st'"
proof -
  obtain k m where s: "sema st' = sema st @ replicate k zero_semid" and p: "sem_pool st' = sem_pool st @ replicate m zero_sem"
    and t: "semtot st' = semtot st" using assms by (auto simp: grown_def)
  show l: "live st' i \<longleftrightarrow> live st i" for i by (auto simp: live_def s nth_append)
  show d: "live st i \<Longrightarrow> sema st' ! i = sema st ! i" for i by (simp add: live_def s nth_append)
  show n: "live st i \<Longrightarrow> nsem st' i = nsem st i" for i by (simp add: nsem_def d)
  show b: "live st i \<Longrightarrow> base_of st' i = base_of st i" for i by (simp add: base_of_def d)
  show "pool_inv st \<Longrightarrow> live st i \<Longrightarrow> j < nsem st i \<Longrightarrow> sem_of st' i j = sem_of st i j" for j
    using slot_in_pool [of st i j] by (simp add: sem_of_def b p nth_append)
  show "pool_inv st'" if inv: "pool_inv st"
    unfolding pool_inv_def l
  proof (intro conjI allI impI)
    show "semtot st' \<le> length (sem_pool st')" using pool_invD(1) [OF inv] by (simp add: t p)
    have "(\<Sum>i\<in>{i. live st i}. nsem st' i) = (\<Sum>i\<in>{i. live st i}. nsem st i)"
      by (rule sum.cong) (auto simp: n)
    then show "(\<Sum>i\<in>{i. live st i}. nsem st' i) = semtot st'" using pool_invD(5) [OF inv] by (simp add: t)
  qed (use pool_invD(2-4) [OF inv] in \<open>auto simp: n b t\<close>)
qed

lemma round_size_ge: "0 < inc \<Longrightarrow> n \<le> limit \<Longrightarrow> n \<le> round_size n inc limit"
  using dividend_less_div_times [of inc n] by (auto simp: round_size_def Let_def)

lemma grown_malloc: "malloc st = (b, st') \<Longrightarrow> grown st st'"
  by (auto simp: malloc_def grown_def intro: exI [of _ 0] split: list.splits)

lemma grow_pool_spec:
  assumes "grow_sem_pool n st = (ok, st')"
  shows "grown st st'" and "ok \<Longrightarrow> n \<le> length (sem_pool st')" and "sema st' = sema st"
proof -
  have n: "n \<le> SEMMNS \<Longrightarrow> n \<le> round_size n SEMMNS_INC SEMMNS"
    by (rule round_size_ge) (simp_all add: SEMMNS_INC_def)
  have g: "grown st st1 \<Longrightarrow> grown st (st1\<lparr>sem_pool := sem_pool st1 @ replicate m zero_sem\<rparr>)" for st1 m
    by (rule grown_trans, assumption) (auto simp: grown_def intro: exI [of _ 0])
  show "grown st st'"
    using assms g by (auto simp: grow_sem_pool_def Let_def split: if_splits prod.splits dest: grown_malloc)
  show "sema st' = sema st" "ok \<Longrightarrow> n \<le> length (sem_pool st')"
    using assms n
    by (auto simp: grow_sem_pool_def Let_def malloc_def split: if_splits prod.splits list.splits)
qed

lemma grow_sema_spec:
  assumes "grow_sema_array (length (sema st) + 1) st = (ok, st')"
  shows "grown st st'" and "ok \<Longrightarrow> length (sema st) < length (sema st') \<and> sema st' ! length (sema st) = zero_semid"
    and "sem_pool st' = sem_pool st"
proof -
  let ?n = "length (sema st) + 1"
  have n: "?n \<le> SEMMNI \<Longrightarrow> ?n \<le> round_size ?n SEMMNI_INC SEMMNI"
    by (rule round_size_ge) (simp_all add: SEMMNI_INC_def)
  have g: "grown st st1 \<Longrightarrow> grown st ((wake_all st1)\<lparr>sema := sema st1 @ replicate m zero_semid\<rparr>)" for st1 m
    by (rule grown_trans, assumption) (auto simp: grown_def wake_all_def intro: exI [of _ 0])
  have w: "sema (wake_all st1) = sema st1" for st1 by (simp add: wake_all_def)
  show "grown st st'"
    using assms g by (auto simp: grow_sema_array_def Let_def w split: if_splits prod.splits dest: grown_malloc)
  show "sem_pool st' = sem_pool st"
    using assms by (auto simp: grow_sema_array_def Let_def wake_all_def malloc_def split: if_splits prod.splits list.splits)
  show "ok \<Longrightarrow> length (sema st) < length (sema st') \<and> sema st' ! length (sema st) = zero_semid"
    using assms n by (auto simp: grow_sema_array_def Let_def w malloc_def nth_append split: if_splits prod.splits list.splits)
qed

lemma free_semid_spec:
  "\<exists>k \<le> length ds. free_semid ds i = i + k \<and> (k < length ds \<longrightarrow> \<not> allocated (ds ! k))"
proof (induction ds arbitrary: i)
  case (Cons d ds)
  then obtain k where "k \<le> length ds" "free_semid ds (Suc i) = Suc i + k" "k < length ds \<longrightarrow> \<not> allocated (ds ! k)"
    by blast
  then show ?case
    by (cases "allocated d") (auto intro: exI [of _ 0] exI [of _ "Suc k"])
qed simp

lemma allocated_new: "allocated (new_semid c key n flg now b d)"
proof -
  have "bit (((flg AND 0x1ff) OR SEM_ALLOC) AND SEM_ALLOC) 9"
    by (simp add: bit_simps SEM_ALLOC_def)
  then show ?thesis by (auto simp: allocated_def new_semid_def)
qed

section \<open>Creation\<close>

text \<open>
  \<open>semget\<close> on a state with a good layout: it fails or finds an existing set, and the tables have at
  most grown; or it creates one, with zeros, in a slot that was free.
\<close>

definition created :: "nat \<Rightarrow> nat \<Rightarrow> sysvsem \<Rightarrow> sysvsem \<Rightarrow> bool" where
  "created ix n st st' \<longleftrightarrow>
     \<not> live st ix \<and> (\<forall>j. live st' j \<longleftrightarrow> live st j \<or> j = ix) \<and> base_of st' ix = semtot st \<and>
     sem_nsems (sema st' ! ix) = of_nat n \<and> semtot st' = semtot st + n \<and> semtot st' \<le> length (sem_pool st') \<and>
     (\<forall>k < n. sem_pool st' ! (semtot st + k) = zero_sem) \<and>
     (\<forall>j. live st j \<longrightarrow> sema st' ! j = sema st ! j) \<and>
     (\<forall>j k. live st j \<longrightarrow> k < nsem st j \<longrightarrow> sem_of st' j k = sem_of st j k) \<and>
     semu st' = semu st \<and> semu_list_idx st' = semu_list_idx st \<and> (\<exists>ws. wakeups st' = wakeups st @ ws)"

lemma semget_alloc_cases:
  assumes get: "semget_alloc c key nsems flg now st = Some (r, st')" and inv: "pool_inv st"
  shows "(\<exists>e. r = Inl e) \<and> grown st st' \<or>
    (\<exists>ix. r = Inr (IXSEQ_TO_IPCID ix (sem_perm (sema st' ! ix))) \<and> 0 < nsems \<and> created ix (nat nsems) st st')"
proof (cases "nsems \<le> 0 \<or> nsems > int SEMMSL")
  case True
  then show ?thesis using get by (auto simp: semget_alloc_def)
next
  case False
  let ?grow = "nsems > int (length (sem_pool st)) - int (semtot st)"
  obtain ok1 st1 where 1: "(if ?grow then grow_sem_pool (semtot st + nat nsems) st else (True, st)) = (ok1, st1)"
    by (meson surj_pair)
  have g1: "grown st st1" and s1: "sema st1 = sema st"
    using 1 grow_pool_spec by (auto split: if_splits)
  show ?thesis
  proof (cases ok1)
    case False
    then show ?thesis using get \<open>\<not> (nsems \<le> 0 \<or> nsems > int SEMMSL)\<close> 1 g1
      by (auto simp: semget_alloc_def Let_def split: if_splits)
  next
    case ok1: True
    let ?ix = "free_semid (sema st1) 0"
    obtain ok2 st2 where 2: "(if ?ix = length (sema st1) then grow_sema_array (length (sema st1) + 1) st1 else (True, st1)) = (ok2, st2)"
      by (meson surj_pair)
    have g2: "grown st1 st2" and p2: "sem_pool st2 = sem_pool st1"
      using 2 grow_sema_spec by (auto split: if_splits)
    have g: "grown st st2" using grown_trans [OF g1 g2] .
    show ?thesis
    proof (cases ok2)
      case False
      then show ?thesis using get \<open>\<not> (nsems \<le> 0 \<or> nsems > int SEMMSL)\<close> 1 2 ok1 g
        by (auto simp: semget_alloc_def Let_def split: if_splits)
    next
      case ok2: True
      obtain k where k: "k \<le> length (sema st1)" "?ix = k" "k < length (sema st1) \<longrightarrow> \<not> allocated (sema st1 ! k)"
        using free_semid_spec [of "sema st1" 0] by auto
      have ix: "?ix < length (sema st2)" "\<not> allocated (sema st2 ! ?ix)"
      proof -
        have "?ix < length (sema st2) \<and> \<not> allocated (sema st2 ! ?ix)"
        proof (cases "k = length (sema st1)")
          case True
          then show ?thesis using 2 ok2 k(2) grow_sema_spec(2) [of st1 ok2 st2] by auto
        next
          case False
          then show ?thesis using 2 k by auto
        qed
        then show "?ix < length (sema st2)" "\<not> allocated (sema st2 ! ?ix)" by auto
      qed
      let ?n = "nat nsems" let ?d = "new_semid c key ?n flg now (semtot st2) (sema st2 ! ?ix)"
      have tot: "semtot st2 = semtot st" using g by (simp add: grown_def)
      have r: "r = Inr (IXSEQ_TO_IPCID ?ix (sem_perm ?d))"
        and st': "st' = st2\<lparr>sema := (sema st2)[?ix := ?d], sem_pool := bzero_sems (semtot st2) ?n (sem_pool st2),
            semtot := semtot st2 + ?n\<rparr>" and len: "semtot st2 + ?n \<le> length (sem_pool st2)"
        using get False 1 2 ok1 ok2 ix(1) by (auto simp: semget_alloc_def Let_def split: if_splits)
      have nl: "\<not> live st2 ?ix" using ix by (simp add: live_def)
      have lv: "live st' j \<longleftrightarrow> live st j \<or> j = ?ix" for j
        using nl ix(1) allocated_new [of c key ?n flg now "semtot st2" "sema st2 ! ?ix"] grown_layout(1) [OF g, of j]
        by (cases "j = ?ix") (auto simp: live_def st')
      have other: "sema st' ! j = sema st ! j" if "live st j" for j
        using that nl grown_layout(1,2) [OF g, of j] by (cases "j = ?ix") (auto simp: st')
      have pool: "sem_of st' j i = sem_of st j i" if "live st j" "i < nsem st j" for j i
      proof -
        have lt: "base_of st j + i < semtot st" using pool_invD(3) [OF inv that(1)] that(2) by linarith
        have "sem_pool st' ! m = sem_pool st2 ! m" if "m < semtot st" for m
          using that len tot by (simp add: st' bzero_sems_def nth_append)
        moreover have "base_of st' j = base_of st j" using other [OF that(1)] by (simp add: base_of_def)
        ultimately show ?thesis using lt grown_layout(4) [OF g that(1)] grown_layout(5) [OF g inv that]
          by (simp add: sem_of_def)
      qed
      have "created ?ix ?n st st'"
        unfolding created_def
      proof (intro conjI allI impI)
        show "\<exists>ws. wakeups st' = wakeups st @ ws" "semu st' = semu st" "semu_list_idx st' = semu_list_idx st"
          using g by (auto simp: st' grown_def)
        show "semtot st' \<le> length (sem_pool st')" using len by (simp add: st' bzero_sems_def)
      qed (use nl lv other pool ix(1) len tot grown_layout(1) [OF g, of ?ix]
          in \<open>auto simp: st' base_of_def new_semid_def bzero_sems_def nth_append\<close>)
      moreover have "sema st' ! ?ix = ?d" using ix(1) by (simp add: st')
      ultimately show ?thesis using r False by (intro disjI2 exI [of _ ?ix]) simp
    qed
  qed
qed

lemma semget_cases:
  assumes "semget c key nsems flg now st = Some (r, st')" and "pool_inv st"
  shows "grown st st' \<or> (\<exists>ix. r = Inr (IXSEQ_TO_IPCID ix (sem_perm (sema st' ! ix))) \<and> 0 < nsems \<and> created ix (nat nsems) st st')"
proof -
  have "semget_alloc c key nsems flg now st = Some (r, st') \<or> st' = st"
    using assms(1) by (auto simp: semget_def Let_def split: if_splits option.splits)
  then show ?thesis
  proof
    assume "semget_alloc c key nsems flg now st = Some (r, st')"
    from semget_alloc_cases [OF this assms(2)] show ?thesis by blast
  qed simp
qed

lemma created_pool_inv:
  assumes "created ix n st st'" and "pool_inv st" and "0 < n" "n < 65536"
  shows "pool_inv st'"
proof -
  have n: "nsem st' ix = n" using assms(1,4) by (simp add: created_def nsem_def unat_of_nat)
  have lv: "\<And>j. live st' j \<longleftrightarrow> live st j \<or> j = ix" and nl: "\<not> live st ix" using assms(1) by (auto simp: created_def)
  have other: "nsem st' j = nsem st j" "base_of st' j = base_of st j" if "live st j" for j
    using assms(1) that by (auto simp: created_def nsem_def base_of_def)
  have b: "base_of st' ix = semtot st" "semtot st' = semtot st + n" using assms(1) by (auto simp: created_def)
  show ?thesis
    unfolding pool_inv_def
  proof (intro conjI allI impI)
    show "semtot st' \<le> length (sem_pool st')" using assms(1) by (simp add: created_def)
  next
    fix i assume "live st' i"
    then show "0 < nsem st' i" "base_of st' i + nsem st' i \<le> semtot st'"
      using lv n b other pool_invD(2,3) [OF assms(2), of i] assms(3) by auto
  next
    fix i j assume "live st' i" "live st' j" "i \<noteq> j"
    then show "base_of st' i + nsem st' i \<le> base_of st' j \<or> base_of st' j + nsem st' j \<le> base_of st' i"
      using lv n b other pool_invD(3,4) [OF assms(2)] nl by (metis)
  next
    have "{i. live st' i} = insert ix {i. live st i}" using lv by auto
    then have "(\<Sum>i\<in>{i. live st' i}. nsem st' i) = n + (\<Sum>i\<in>{i. live st i}. nsem st' i)" using nl n by simp
    also have "(\<Sum>i\<in>{i. live st i}. nsem st' i) = (\<Sum>i\<in>{i. live st i}. nsem st i)"
      by (rule sum.cong) (auto simp: other)
    finally show "(\<Sum>i\<in>{i. live st' i}. nsem st' i) = semtot st'" using b pool_invD(5) [OF assms(2)] by simp
  qed
qed

section \<open>Commands on values\<close>

text \<open>
  \<open>alters S\<close>: the layout, the sequence numbers of the identifiers and the counts of sleepers are
  as before, and so are the values of all sets outside \<open>S\<close>.
\<close>

definition same_ids :: "sysvsem \<Rightarrow> sysvsem \<Rightarrow> bool" where
  "same_ids st st' \<longleftrightarrow> semtot st' = semtot st \<and> length (sem_pool st') = length (sem_pool st) \<and>
     length (sema st') = length (sema st) \<and>
     (\<forall>i < length (sema st). (allocated (sema st' ! i) \<longleftrightarrow> allocated (sema st ! i)) \<and>
        sem_nsems (sema st' ! i) = sem_nsems (sema st ! i) \<and> sem_base (sema st' ! i) = sem_base (sema st ! i) \<and>
        ipc_seq (sem_perm (sema st' ! i)) = ipc_seq (sem_perm (sema st ! i)))"

definition alters :: "nat set \<Rightarrow> sysvsem \<Rightarrow> sysvsem \<Rightarrow> bool" where
  "alters S st st' \<longleftrightarrow> same_ids st st' \<and>
     (\<forall>i k. live st i \<longrightarrow> k < nsem st i \<longrightarrow> semncnt (sem_of st' i k) = semncnt (sem_of st i k) \<and>
        semzcnt (sem_of st' i k) = semzcnt (sem_of st i k) \<and>
        (i \<notin> S \<longrightarrow> semval (sem_of st' i k) = semval (sem_of st i k)))"

lemma same_ids_refl [simp]: "same_ids st st"
  by (simp add: same_ids_def)

lemma same_ids_trans: "same_ids a b \<Longrightarrow> same_ids b c \<Longrightarrow> same_ids a c"
  by (simp add: same_ids_def)

lemma same_ids_layout:
  assumes "same_ids st st'"
  shows "live st' = live st" and "live st i \<Longrightarrow> nsem st' i = nsem st i" and "live st i \<Longrightarrow> base_of st' i = base_of st i"
    and "pool_inv st' \<longleftrightarrow> pool_inv st"
proof -
  show l: "live st' = live st" using assms by (auto simp: live_def same_ids_def fun_eq_iff)
  show n: "live st i \<Longrightarrow> nsem st' i = nsem st i" and b: "live st i \<Longrightarrow> base_of st' i = base_of st i" for i
    using assms by (auto simp: live_def nsem_def base_of_def same_ids_def)
  have "(\<Sum>i\<in>{i. live st i}. nsem st' i) = (\<Sum>i\<in>{i. live st i}. nsem st i)"
    by (rule sum.cong) (auto simp: n)
  then show "pool_inv st' \<longleftrightarrow> pool_inv st"
    using assms unfolding pool_inv_def l by (simp add: n b same_ids_def)
qed

lemma alters_cong:
  assumes "sema st' = sema st" "semtot st' = semtot st" "sem_pool st' = sem_pool st"
  shows "alters S st st'"
  using assms by (auto simp: alters_def same_ids_def sem_of_def base_of_def)

lemma alters_refl [simp]: "alters S st st"
  by (rule alters_cong) simp_all

lemma alters_mono: "alters S st st' \<Longrightarrow> S \<subseteq> T \<Longrightarrow> alters T st st'"
  by (auto simp: alters_def)

lemma alters_trans:
  assumes "alters S a b" and "alters S b c"
  shows "alters S a c"
proof -
  have ids: "same_ids a b" "same_ids b c" using assms by (auto simp: alters_def)
  note l = same_ids_layout(1,2) [OF ids(1)]
  show ?thesis using assms l same_ids_trans [OF ids] unfolding alters_def by auto
qed

lemma same_tables_alters: "same_tables st st' \<Longrightarrow> alters S st st'"
  by (rule alters_cong) (simp_all add: same_tables_def)

text \<open>Storing into one semaphore of a set.\<close>

lemma put_alters:
  assumes inv: "pool_inv st" and "live st ix" "0 \<le> k" "nat k < nsem st ix"
    and "semncnt s = semncnt (sem_of st ix (nat k))" "semzcnt s = semzcnt (sem_of st ix (nat k))"
  shows "alters {ix} st (sem_put (base_of st ix) k s st)"
proof -
  let ?st = "sem_put (base_of st ix) k s st"
  have j: "nat (int (base_of st ix) + k) = base_of st ix + nat k" using assms(3) by (simp add: nat_add_distrib)
  have of: "sem_of ?st i l = (if i = ix \<and> l = nat k then s else sem_of st i l)"
    if "live st i" "l < nsem st i" for i l
    using slots_differ [OF inv that(1) assms(2) that(2) assms(4)] slot_in_pool [OF inv that]
    by (auto simp: sem_of_def base_of_def sem_put_def j [unfolded base_of_def])
  have "same_ids st ?st" by (simp add: same_ids_def sem_put_def)
  then show ?thesis using of assms(5,6) by (auto simp: alters_def)
qed

lemma setall_alters:
  assumes "sem_setall p (base_of st ix) arr i n st = Some (r, st')" and "pool_inv st" and "live st ix"
    and "i + n \<le> nsem st ix"
  shows "alters {ix} st st' \<and> semu st' = semu st \<and> semu_list_idx st' = semu_list_idx st \<and> wakeups st' = wakeups st"
  using assms
proof (induction n arbitrary: i st)
  case 0
  then show ?case by simp
next
  case (Suc n)
  let ?put = "\<lambda>v. sem_put (base_of st ix) (int i) ((sem_of st ix i)\<lparr>semval := v, sempid := p\<rparr>) st"
  have "sem_at st (base_of st ix) (int i) = Some (sem_of st ix i)"
    using sem_at_slot [of "int i" st ix] Suc.prems by simp
  then consider "st' = st" | v where "sem_setall p (base_of st ix) arr (Suc i) n (?put v) = Some (r, st')"
    using Suc.prems(1) by (auto split: option.splits)
  then show ?case
  proof cases
    case 1
    then show ?thesis by simp
  next
    case 2
    have t: "alters {ix} st (?put v)" using Suc.prems by (intro put_alters) auto
    then have ids: "same_ids st (?put v)" by (simp add: alters_def)
    note l = same_ids_layout [OF ids]
    have "base_of (?put v) ix = base_of st ix" using l(3) Suc.prems(3) by simp
    then have "alters {ix} (?put v) st' \<and> semu st' = semu (?put v) \<and> semu_list_idx st' = semu_list_idx (?put v) \<and>
        wakeups st' = wakeups (?put v)"
      using Suc.IH [of "?put v" "Suc i"] 2 l Suc.prems by auto
    then show ?thesis using alters_trans [OF t] by (simp add: sem_put_def)
  qed
qed

lemma bit_SEM_ALLOC: "bit SEM_ALLOC n \<longleftrightarrow> n = 9"
proof -
  have eq: "SEM_ALLOC = 2 ^ 9" by (simp add: SEM_ALLOC_def)
  show ?thesis unfolding eq bit_exp_iff by auto
qed

lemma perm_alters:
  assumes "allocated (sema st ! ix)"
  shows "alters S st (st\<lparr>sema := (sema st)[ix := sem_set_perm ip now (sema st ! ix)]\<rparr>)"
proof -
  have "bit ((ipc_mode (sem_perm (sema st ! ix)) AND NOT 0x1ff) OR (ipc_mode ip AND 0x1ff)) 9 \<longleftrightarrow>
      bit (ipc_mode (sem_perm (sema st ! ix))) 9"
    by (simp add: bit_simps)
  moreover have "allocated d \<longleftrightarrow> bit (ipc_mode (sem_perm d)) 9" for d
  proof -
    have "ipc_mode (sem_perm d) AND SEM_ALLOC = (if bit (ipc_mode (sem_perm d)) 9 then SEM_ALLOC else 0)"
      by (rule bit_word_eqI) (auto simp: bit_SEM_ALLOC bit_and_iff)
    then show ?thesis by (simp add: allocated_def SEM_ALLOC_def)
  qed
  ultimately have "allocated (sem_set_perm ip now (sema st ! ix))" using assms by (simp add: sem_set_perm_def)
  then have set: "(allocated ((sema st)[ix := sem_set_perm ip now (sema st ! ix)] ! i) \<longleftrightarrow> allocated (sema st ! i)) \<and>
      sem_nsems ((sema st)[ix := sem_set_perm ip now (sema st ! ix)] ! i) = sem_nsems (sema st ! i) \<and>
      sem_base ((sema st)[ix := sem_set_perm ip now (sema st ! ix)] ! i) = sem_base (sema st ! i) \<and>
      ipc_seq (sem_perm ((sema st)[ix := sem_set_perm ip now (sema st ! ix)] ! i)) = ipc_seq (sem_perm (sema st ! i))"
    if "i < length (sema st)" for i
    using that assms by (cases "i = ix") (auto simp: sem_set_perm_def)
  then have "same_ids st (st\<lparr>sema := (sema st)[ix := sem_set_perm ip now (sema st ! ix)]\<rparr>)"
    by (simp add: same_ids_def)
  then show ?thesis using set by (simp add: alters_def sem_of_def base_of_def live_def)
qed

text \<open>\<open>semctl\<close>: a removal, or a change of values of its set with a wake-up.\<close>

lemma semctl_cases:
  assumes "semctl p c uid semnum cmd io now st = Some (r, st')" and inv: "pool_inv st"
  shows "sem_rmid c (IPCID_TO_IX uid) st = Some st' \<and> live st (IPCID_TO_IX uid) \<or>
    alters {} st st' \<and> semu st' = semu st \<and> semu_list_idx st' = semu_list_idx st \<and> wakeups st' = wakeups st \<or>
    (\<exists>st1 n. live st (IPCID_TO_IX uid) \<and> alters {IPCID_TO_IX uid} st st1 \<and> semu st1 = semu st \<and>
       semu_list_idx st1 = semu_list_idx st \<and> wakeups st1 = wakeups st \<and>
       map_option (wakeup (IPCID_TO_IX uid)) (semundo_clear (IPCID_TO_IX uid) n st1) = Some st')"
proof (cases "live st (IPCID_TO_IX uid)")
  case False
  then have "st' = st" using assms(1)
    by (auto simp: semctl_def Let_def live_def rd_eq_Some_iff split: option.splits if_splits)
  then show ?thesis by simp
next
  case live: True
  let ?ix = "IPCID_TO_IX uid" let ?d = "sema st ! ?ix"
  have b: "sem_base ?d = base_of st ?ix" by (simp add: base_of_def)
  have "st' = st \<or> semctl_cmd cmd p c ?ix semnum io now ?d st = Some (r, st')"
    using assms(1) live by (auto simp: semctl_def Let_def live_def split: if_splits)
  then show ?thesis
  proof
    assume cmd: "semctl_cmd cmd p c ?ix semnum io now ?d st = Some (r, st')"
    show ?thesis
    proof (cases cmd)
      case IPC_RMID
      with cmd live show ?thesis by (auto split: option.splits)
    next
      case IPC_SET
      with cmd live show ?thesis
        by (auto split: option.splits intro: perm_alters simp: live_def)
    next
      case SETVAL
      show ?thesis
      proof (cases "ipcperm c (sem_perm ?d) IPC_W = None \<and> 0 \<le> semnum \<and> semnum < uint (sem_nsems ?d)")
        case True
        then have k: "0 \<le> semnum" "nat semnum < nsem st ?ix" by (auto simp: nsem_def nat_less_iff)
        let ?s = "(sem_of st ?ix (nat semnum))\<lparr>semval := ucast (arg_val io), sempid := p\<rparr>"
        have "map_option (wakeup ?ix) (semundo_clear ?ix semnum (sem_put (base_of st ?ix) semnum ?s st)) = Some st'"
          using cmd SETVAL True sem_at_slot [OF k inv live] b by auto
        moreover have "alters {?ix} st (sem_put (base_of st ?ix) semnum ?s st)"
          using put_alters [OF inv live k, of ?s] by simp
        ultimately show ?thesis using live
          by (intro disjI2 exI [of _ "sem_put (base_of st ?ix) semnum ?s st"] exI [of _ semnum]) (simp add: sem_put_def)
      next
        case False
        then have "st' = st" using cmd SETVAL by (auto split: option.splits if_splits)
        then show ?thesis by simp
      qed
    next
      case SETALL
      show ?thesis
      proof (cases "ipcperm c (sem_perm ?d) IPC_W")
        case None
        then obtain r1 st1 where 1: "sem_setall p (base_of st ?ix) (in_array io) 0 (nsem st ?ix) st = Some (r1, st1)"
          "map_option (wakeup ?ix) (semundo_clear ?ix (-1) st1) = Some st'"
          using cmd SETALL b by (auto simp: nsem_def split: option.splits)
        from setall_alters [OF 1(1) inv live] 1(2) live show ?thesis by auto
      qed (use cmd SETALL in auto)
    qed (use cmd in \<open>auto simp: sem_read_def split: option.splits if_splits\<close>)
  qed simp
qed

section \<open>Sets that are too large\<close>

text \<open>C37: 
  The field \<open>sem_nsems\<close> has 16 bits, and \<open>semget\<close> only refuses more than \<open>SEMMSL\<close> = 87381
  semaphores: a larger set keeps the low bits of its size, and the rest of its stretch of the pool
  belongs to no set.
\<close>

theorem semget_truncates:
  assumes "semget c key nsems flg now st = Some (Inr i, st')" and "pool_inv st" and "65536 \<le> nsems"
    and new: "semtot st' \<noteq> semtot st"
  shows "\<exists>ix. live st' ix \<and> nsem st' ix = nat nsems - 65536 \<and> semtot st' = semtot st + nat nsems \<and> \<not> pool_inv st'"
proof -
  have "\<not> grown st st'" using new by (auto simp: grown_def)
  then obtain ix where cr: "created ix (nat nsems) st st'" using semget_cases [OF assms(1,2)] by blast
  have le: "nsems \<le> int SEMMSL"
  proof (rule ccontr)
    assume "\<not> nsems \<le> int SEMMSL"
    then have "semget_alloc c key nsems flg now st = Some (Inl EINVAL, st)" by (simp add: semget_alloc_def)
    then show False using assms(1) new by (auto simp: semget_def Let_def split: if_splits option.splits)
  qed
  have n: "nsem st' ix = nat nsems - 65536"
  proof -
    have "nsem st' ix = nat nsems mod 65536" using cr by (simp add: created_def nsem_def unat_of_nat)
    also have "\<dots> = nat nsems - 65536" using le assms(3) by (simp add: SEMMSL_def SEMMNS_def mod_if)
    finally show ?thesis .
  qed
  have other: "nsem st' j = nsem st j" if "live st j" for j using cr that by (simp add: created_def nsem_def)
  have set: "{i. live st' i} = insert ix {i. live st i}" "ix \<notin> {i. live st i}" using cr by (auto simp: created_def)
  have "(\<Sum>i\<in>{i. live st' i}. nsem st' i) = nsem st' ix + (\<Sum>i\<in>{i. live st i}. nsem st' i)"
    unfolding set(1) using set(2) by (subst Groups_Big.comm_monoid_add_class.sum.insert) auto
  also have "(\<Sum>i\<in>{i. live st i}. nsem st' i) = (\<Sum>i\<in>{i. live st i}. nsem st i)" using other by (intro sum.cong) auto
  also have "\<dots> = semtot st" using pool_invD(5) [OF assms(2)] .
  finally have s: "(\<Sum>i\<in>{i. live st' i}. nsem st' i) = nsem st' ix + semtot st" .
  have tot: "semtot st' = semtot st + nat nsems" using cr by (simp add: created_def)
  have "\<not> pool_inv st'"
  proof
    assume "pool_inv st'"
    from pool_invD(5) [OF this] s tot n assms(3) show False by simp
  qed
  then show ?thesis using n tot cr by (intro exI [of _ ix]) (simp add: created_def)
qed

lemma pool_inv_init: "pool_inv (sysv_init m)"
proof -
  have "\<not> live (sysv_init m) i" for i by (simp add: live_def sysv_init_def)
  then show ?thesis by (simp add: pool_inv_def) (simp add: sysv_init_def)
qed

lemma get_large: "map_option (\<lambda>(r, st). (r, semtot st)) (semget root_cred 0 65537 0 7 (sysv_init [])) = Some (Inr 0x10000, 65537)"
  by (simp add: semget_def IPC_PRIVATE_def semget_alloc_def SEMMSL_def SEMMNS_def SEMMNI_def SEMMNS_INC_def SEMMNI_INC_def
    sysv_init_def grow_sem_pool_def grow_sema_array_def round_size_def malloc_def wake_all_def Let_def rd_def
    new_semid_def IXSEQ_TO_IPCID_def zero_semid_def zero_perm_def)

theorem semget_truncates_witness:
  "\<exists>i st' ix. semget root_cred 0 65537 0 7 (sysv_init []) = Some (Inr i, st') \<and> live st' ix \<and> nsem st' ix = 1 \<and> \<not> pool_inv st'"
proof -
  obtain i st' where st': "semget root_cred 0 65537 0 7 (sysv_init []) = Some (Inr i, st')" "semtot st' = 65537"
    using get_large by auto
  have "semtot (sysv_init []) = 0" by (simp add: sysv_init_def)
  then obtain ix where "live st' ix" "nsem st' ix = nat 65537 - 65536" "\<not> pool_inv st'"
    using semget_truncates [OF st'(1) pool_inv_init] st'(2) by auto
  then show ?thesis using st'(1) by auto
qed

end
