(* ===== verification/Sysv_Undo.thy ===== *)
theory Sysv_Undo
  imports Sysv_Layout
begin

text \<open>
  The undo structures of \<open>kern/sysv_sem.c\<close>: the chain of active structures is a simple path that
  holds exactly the structures with an owner, each with at most \<open>SEMUME\<close> entries for semaphores
  that exist, one per semaphore and none of them zero. All operations keep this, and so never reach
  the panics, null pointers and wild accesses the code has for other states.
\<close>

section \<open>The chain\<close>

fun chain :: "sysvsem \<Rightarrow> nat option \<Rightarrow> nat list \<Rightarrow> bool" where
  "chain st loc [] \<longleftrightarrow> link_at st loc = Some None"
| "chain st loc (i # js) \<longleftrightarrow> link_at st loc = Some (Some i) \<and> i < length (semu st) \<and> chain st (Some i) js"

lemma chain_cong:
  assumes "link_at st' loc = link_at st loc" "length (semu st) \<le> length (semu st')"
    and "\<And>i. i \<in> set js \<Longrightarrow> un_next_idx (semu st' ! i) = un_next_idx (semu st ! i)"
    and "chain st loc js"
  shows "chain st' loc js"
  using assms
proof (induction js arbitrary: loc)
  case (Cons i js)
  then have "link_at st' (Some i) = link_at st (Some i)" by (auto simp: link_at_def)
  with Cons show ?case by auto
qed simp

lemma chain_bound: "chain st loc js \<Longrightarrow> i \<in> set js \<Longrightarrow> i < length (semu st)"
  by (induction js arbitrary: loc) auto

lemma chain_find:
  assumes "chain st loc js"
  shows "(find_undo st p loc = Some (if js = [] then loc else Some (last js), None) \<and>
      (\<forall>i \<in> set js. un_proc (semu st ! i) \<noteq> Some p)) \<or>
    (\<exists>xs i ys. js = xs @ i # ys \<and> un_proc (semu st ! i) = Some p \<and>
      find_undo st p loc = Some (if xs = [] then loc else Some (last xs), Some i))"
  using assms
proof (induction js arbitrary: loc)
  case Nil
  then show ?case by (subst (1 2) find_undo.simps) simp
next
  case (Cons i js)
  have i: "link_at st loc = Some (Some i)" "i < length (semu st)" "chain st (Some i) js" using Cons.prems by auto
  show ?case
  proof (cases "un_proc (semu st ! i) = Some p")
    case True
    then show ?thesis using i by (intro disjI2 exI [of _ "[]"] exI [of _ i] exI [of _ js]) (simp add: find_undo.simps)
  next
    case False
    then have eq: "find_undo st p loc = find_undo st p (Some i)" using i by (subst find_undo.simps) simp
    from Cons.IH [OF i(3)] show ?thesis
    proof
      assume "\<exists>xs k ys. js = xs @ k # ys \<and> un_proc (semu st ! k) = Some p \<and>
          find_undo st p (Some i) = Some (if xs = [] then Some i else Some (last xs), Some k)"
      then obtain xs k ys where "js = xs @ k # ys" "un_proc (semu st ! k) = Some p"
        "find_undo st p (Some i) = Some (if xs = [] then Some i else Some (last xs), Some k)" by blast
      then show ?thesis using eq
        by (intro disjI2 exI [of _ "i # xs"] exI [of _ k] exI [of _ ys]) auto
    qed (use False eq in auto)
  qed
qed

text \<open>Structures apart from their links.\<close>

definition same_but_link :: "sem_undo \<Rightarrow> sem_undo \<Rightarrow> bool" where
  "same_but_link u v \<longleftrightarrow> un_proc u = un_proc v \<and> un_cnt u = un_cnt v \<and> un_ent u = un_ent v"

lemma link_at_set_link [simp]:
  "(case loc of None \<Rightarrow> True | Some j \<Rightarrow> j < length (semu st)) \<Longrightarrow> link_at (set_link loc v st) loc = Some v"
  by (auto simp: link_at_def set_link_def set_semu_def split: option.splits)

lemma link_at_other:
  assumes "loc' \<noteq> loc"
  shows "link_at (set_link loc v st) loc' = link_at st loc'"
  using assms by (cases loc; cases loc') (auto simp: link_at_def set_link_def set_semu_def rd_def)

lemma length_set_link [simp]: "length (semu (set_link loc v st)) = length (semu st)"
  by (simp add: set_link_def set_semu_def split: option.split)

lemma length_set_semu [simp]: "length (semu (set_semu i u st)) = length (semu st)"
  by (simp add: set_semu_def)

lemma nth_set_semu: "semu (set_semu i u st) ! k = (semu st)[i := u] ! k"
  by (simp add: set_semu_def)

lemma nth_set_link: "k < length (semu st) \<Longrightarrow> same_but_link (semu (set_link loc v st) ! k) (semu st ! k)"
  by (cases "loc = Some k") (auto simp: same_but_link_def set_link_def set_semu_def split: option.split)

lemma next_set_link: "loc \<noteq> Some k \<Longrightarrow> un_next_idx (semu (set_link loc v st) ! k) = un_next_idx (semu st ! k)"
  by (cases loc) (auto simp: set_link_def set_semu_def)

lemma link_at_set_semu:
  "un_next_idx u = un_next_idx (semu st ! i) \<Longrightarrow> link_at (set_semu i u st) loc = link_at st loc"
  by (cases "loc = Some i"; cases loc) (auto simp: link_at_def set_semu_def rd_def)

text \<open>Taking a structure out of the chain.\<close>

lemma chain_unlink:
  assumes "chain st loc (i # js)" and "i \<notin> set js" and "\<And>k. loc = Some k \<Longrightarrow> k \<notin> set (i # js) \<and> k < length (semu st)"
    and "un_next_idx u = un_next_idx (semu st ! i)"
  shows "chain (set_link loc (un_next_idx u) (set_semu i u st)) loc js"
proof -
  let ?st1 = "set_semu i u st" let ?st = "set_link loc (un_next_idx u) ?st1"
  have i: "i < length (semu st)" and c: "chain st (Some i) js" using assms(1) by auto
  have ll: "link_at ?st loc = link_at st (Some i)"
    using assms(3,4) i by (subst link_at_set_link) (auto simp: link_at_def split: option.split)
  have nx: "un_next_idx (semu ?st ! k) = un_next_idx (semu st ! k)" if "k \<in> set js" for k
  proof -
    have "i \<noteq> k" "loc \<noteq> Some k" using that assms(2,3) by auto
    then show ?thesis by (simp add: next_set_link set_semu_def)
  qed
  show ?thesis
  proof (cases js)
    case Nil
    then show ?thesis using ll c by simp
  next
    case (Cons k ks)
    have "chain ?st (Some k) ks"
      by (rule chain_cong [of _ _ st]) (use c Cons nx in \<open>auto simp: link_at_def\<close>)
    then show ?thesis using ll c Cons by simp
  qed
qed

section \<open>Free structures and the purge\<close>

lemma free_slot_None: "free_slot us i = None \<longleftrightarrow> (\<forall>u \<in> set us. un_proc u \<noteq> None)"
  by (induction us arbitrary: i) auto

lemma free_slot_Some: "free_slot us i = Some k \<Longrightarrow> i \<le> k \<and> k < i + length us \<and> un_proc (us ! (k - i)) = None"
  by (induction us arbitrary: i) (fastforce split: if_splits simp: Suc_diff_Suc nth_Cons' dest!: meta_spec)+

text \<open>
  The purge from a place of the chain: the structures without entries lose their owner and leave the
  chain, everything else keeps its contents.
\<close>

definition purged :: "sysvsem \<Rightarrow> nat set \<Rightarrow> sysvsem \<Rightarrow> bool" where
  "purged st K st' \<longleftrightarrow> length (semu st') = length (semu st) \<and>
     (\<forall>k < length (semu st). un_cnt (semu st' ! k) = un_cnt (semu st ! k) \<and> un_ent (semu st' ! k) = un_ent (semu st ! k) \<and>
        un_proc (semu st' ! k) = (if k \<in> K then None else un_proc (semu st ! k)))"

lemma purge_spec:
  assumes "chain st loc js" and "distinct js" and "\<And>k. loc = Some k \<Longrightarrow> k \<notin> set js \<and> k < length (semu st)"
  shows "\<exists>did' st'. semu_purge st loc did = Some (did', st') \<and>
    chain st' loc (filter (\<lambda>i. un_cnt (semu st ! i) \<noteq> 0) js) \<and>
    purged st {i \<in> set js. un_cnt (semu st ! i) = 0} st' \<and>
    (did' \<longleftrightarrow> did \<or> (\<exists>i \<in> set js. un_cnt (semu st ! i) = 0)) \<and>
    (\<forall>l. l \<noteq> loc \<longrightarrow> (\<forall>k \<in> set js. l \<noteq> Some k) \<longrightarrow> link_at st' l = link_at st l)"
  using assms
proof (induction js arbitrary: st loc did)
  case Nil
  then show ?case by (subst semu_purge.simps) (simp add: purged_def)
next
  case (Cons i js)
  let ?u = "semu st ! i"
  have i: "link_at st loc = Some (Some i)" "i < length (semu st)" "chain st (Some i) js" using Cons.prems(1) by auto
  show ?case
  proof (cases "un_cnt ?u = 0")
    case True
    let ?v = "?u\<lparr>un_proc := None\<rparr>"
    let ?st1 = "set_semu i ?v st" let ?st = "set_link loc (un_next_idx ?u) ?st1"
    have eq: "semu_purge st loc did = semu_purge ?st loc True" using i True by (subst semu_purge.simps) simp
    have c: "chain ?st loc js"
      using chain_unlink [OF Cons.prems(1), of ?v] Cons.prems(2,3) by simp
    have at: "same_but_link (semu ?st ! k) (if k = i then ?v else semu st ! k)" if "k < length (semu st)" for k
      using nth_set_link [of k ?st1 loc "un_next_idx ?u"] that i(2) by (auto simp: set_semu_def nth_list_update)
    obtain did' st' where st': "semu_purge ?st loc True = Some (did', st')"
      "chain st' loc (filter (\<lambda>k. un_cnt (semu ?st ! k) \<noteq> 0) js)"
      "purged ?st {k \<in> set js. un_cnt (semu ?st ! k) = 0} st'"
      "did' \<longleftrightarrow> True \<or> (\<exists>k \<in> set js. un_cnt (semu ?st ! k) = 0)"
      "\<And>l. l \<noteq> loc \<Longrightarrow> (\<forall>k \<in> set js. l \<noteq> Some k) \<Longrightarrow> link_at st' l = link_at ?st l"
      using Cons.IH [OF c, of True] Cons.prems(2,3) by auto
    have cnt: "un_cnt (semu ?st ! k) = un_cnt (semu st ! k)" if "k < length (semu st)" for k
      using at [OF that] by (auto simp: same_but_link_def split: if_splits)
    have bnd: "\<And>k. k \<in> set js \<Longrightarrow> k < length (semu st)" using chain_bound [OF i(3)] .
    have "filter (\<lambda>k. un_cnt (semu ?st ! k) \<noteq> 0) js = filter (\<lambda>k. un_cnt (semu st ! k) \<noteq> 0) (i # js)"
      using True by (simp add: cnt bnd cong: filter_cong)
    moreover have "purged st {k \<in> set (i # js). un_cnt (semu st ! k) = 0} st'"
      unfolding purged_def
    proof (intro conjI allI impI)
      show "length (semu st') = length (semu st)" using st'(3) by (simp add: purged_def)
      fix k assume k: "k < length (semu st)"
      show "un_cnt (semu st' ! k) = un_cnt (semu st ! k)" "un_ent (semu st' ! k) = un_ent (semu st ! k)"
        using st'(3) at [OF k] k by (auto simp: purged_def same_but_link_def split: if_splits)
      show "un_proc (semu st' ! k) = (if k \<in> {k \<in> set (i # js). un_cnt (semu st ! k) = 0} then None else un_proc (semu st ! k))"
      proof -
        have "un_proc (semu st' ! k) = (if k \<in> set js \<and> un_cnt (semu st ! k) = 0 then None else un_proc (semu ?st ! k))"
          using st'(3) k cnt [OF k] by (simp add: purged_def)
        moreover have "un_proc (semu ?st ! k) = (if k = i then None else un_proc (semu st ! k))"
          using at [OF k] by (simp add: same_but_link_def split: if_splits)
        ultimately show ?thesis using True by (cases "k = i") auto
      qed
    qed
    moreover have "link_at st' l = link_at st l" if "l \<noteq> loc" "\<forall>k \<in> set (i # js). l \<noteq> Some k" for l
      using st'(5) [of l] that link_at_other [OF that(1), of "un_next_idx ?u" ?st1] link_at_set_semu [of ?v st i l] by auto
    moreover have "did' \<longleftrightarrow> did \<or> (\<exists>k \<in> set (i # js). un_cnt (semu st ! k) = 0)" using st'(4) True by simp
    ultimately show ?thesis using st'(1,2) unfolding eq
      by (intro exI [of _ did'] exI [of _ st']) (simp only: simp_thms, blast)
  next
    case False
    have eq: "semu_purge st loc did = semu_purge st (Some i) did" using i False by (subst semu_purge.simps) simp
    obtain did' st' where st': "semu_purge st (Some i) did = Some (did', st')"
      "chain st' (Some i) (filter (\<lambda>k. un_cnt (semu st ! k) \<noteq> 0) js)"
      "purged st {k \<in> set js. un_cnt (semu st ! k) = 0} st'"
      "did' \<longleftrightarrow> did \<or> (\<exists>k \<in> set js. un_cnt (semu st ! k) = 0)"
      "\<And>l. l \<noteq> Some i \<Longrightarrow> (\<forall>k \<in> set js. l \<noteq> Some k) \<Longrightarrow> link_at st' l = link_at st l"
      using Cons.IH [OF i(3), of did] Cons.prems(2) i(2) by auto
    have "link_at st' loc = link_at st loc" using st'(5) [of loc] Cons.prems(3) by fastforce
    moreover have "{k \<in> set (i # js). un_cnt (semu st ! k) = 0} = {k \<in> set js. un_cnt (semu st ! k) = 0}"
      using False by auto
    ultimately show ?thesis using st' False i unfolding eq by (auto simp: purged_def)
  qed
qed

section \<open>The invariant\<close>

definition valid_ent :: "sysvsem \<Rightarrow> undo \<Rightarrow> bool" where
  "valid_ent st e \<longleftrightarrow> live st (une_id e) \<and> 0 \<le> sint (une_num e) \<and> sint (une_num e) < int (nsem st (une_id e))"

definition ent_key :: "undo \<Rightarrow> nat \<times> u16" where
  "ent_key e = (une_id e, une_num e)"

definition entries_ok :: "undo list \<Rightarrow> bool" where
  "entries_ok es \<longleftrightarrow> length es \<le> SEMUME \<and> distinct (map ent_key es) \<and> (\<forall>e \<in> set es. une_adjval e \<noteq> 0)"

definition undo_ok :: "sem_undo \<Rightarrow> bool" where
  "undo_ok u \<longleftrightarrow> un_cnt u = length (un_ent u) \<and> entries_ok (un_ent u) \<and> (un_proc u = None \<longrightarrow> un_ent u = [])"

definition chain_inv :: "sysvsem \<Rightarrow> nat list \<Rightarrow> bool" where
  "chain_inv st js \<longleftrightarrow> chain st None js \<and> distinct js \<and>
     (\<forall>i < length (semu st). un_proc (semu st ! i) = None \<longleftrightarrow> i \<notin> set js) \<and>
     inj_on (\<lambda>i. un_proc (semu st ! i)) (set js) \<and> (\<forall>u \<in> set (semu st). undo_ok u)"

definition ents_valid :: "sysvsem \<Rightarrow> bool" where
  "ents_valid st \<longleftrightarrow> (\<forall>u \<in> set (semu st). \<forall>e \<in> set (un_ent u). valid_ent st e)"

definition undo_inv :: "sysvsem \<Rightarrow> bool" where
  "undo_inv st \<longleftrightarrow> (\<exists>js. chain_inv st js) \<and> ents_valid st"

text \<open>A process without a structure.\<close>

definition no_undo :: "sysvsem \<Rightarrow> proc \<Rightarrow> bool" where
  "no_undo st p \<longleftrightarrow> (\<forall>u \<in> set (semu st). un_proc u \<noteq> Some p)"

lemma chain_inv_ok: "chain_inv st js \<Longrightarrow> i < length (semu st) \<Longrightarrow> undo_ok (semu st ! i)"
  by (simp add: chain_inv_def)

lemma chain_inv_find:
  assumes "chain_inv st js"
  shows "(find_undo st p None = Some (if js = [] then None else Some (last js), None) \<and> no_undo st p) \<or>
    (\<exists>xs i ys. js = xs @ i # ys \<and> i < length (semu st) \<and> un_proc (semu st ! i) = Some p \<and>
      find_undo st p None = Some (if xs = [] then None else Some (last xs), Some i))"
proof -
  have c: "chain st None js" using assms by (simp add: chain_inv_def)
  from chain_find [OF c, of p] show ?thesis
  proof
    assume f: "find_undo st p None = Some (if js = [] then None else Some (last js), None) \<and>
      (\<forall>i \<in> set js. un_proc (semu st ! i) \<noteq> Some p)"
    have "un_proc (semu st ! i) \<noteq> Some p" if "i < length (semu st)" for i
      using f assms that by (cases "i \<in> set js") (auto simp: chain_inv_def)
    then show ?thesis using f by (auto simp: no_undo_def in_set_conv_nth)
  next
    assume "\<exists>xs i ys. js = xs @ i # ys \<and> un_proc (semu st ! i) = Some p \<and>
      find_undo st p None = Some (if xs = [] then None else Some (last xs), Some i)"
    then show ?thesis using chain_bound [OF c] by auto
  qed
qed

text \<open>The chain does not depend on the entries.\<close>

lemma chain_inv_set_semu:
  assumes "chain_inv st js" and "i < length (semu st)" and "un_next_idx u = un_next_idx (semu st ! i)"
    and "un_proc u = un_proc (semu st ! i)" and "undo_ok u"
  shows "chain_inv (set_semu i u st) js"
proof -
  have "chain (set_semu i u st) None js"
    by (rule chain_cong [of _ _ st])
      (use assms in \<open>auto simp: chain_inv_def link_at_set_semu nth_set_semu nth_list_update\<close>)
  moreover have "un_proc (semu (set_semu i u st) ! k) = un_proc (semu st ! k)" for k
    using assms(2,4) by (auto simp: set_semu_def nth_list_update)
  moreover have "undo_ok v" if "v \<in> set (semu (set_semu i u st))" for v
    using that assms(1,5) by (auto simp: set_semu_def chain_inv_def dest!: set_update_subset_insert [THEN subsetD])
  ultimately show ?thesis using assms(1) by (auto simp: chain_inv_def)
qed

lemma take_chain:
  assumes inv: "chain_inv st js" and i: "i < length (semu st)" "un_proc (semu st ! i) = None" and p: "no_undo st p"
  shows "chain_inv (semu_take i p st) (i # js)"
proof -
  let ?u = "\<lparr>un_next_idx = semu_list_idx st, un_proc = Some p, un_cnt = 0, un_ent = []\<rparr>"
  let ?st = "semu_take i p st"
  have semu: "semu ?st = (semu st)[i := ?u]" "semu_list_idx ?st = Some i" by (simp_all add: semu_take_def set_semu_def)
  have ni: "i \<notin> set js" using inv i by (simp add: chain_inv_def)
  have c: "chain st None js" using inv by (simp add: chain_inv_def)
  have "link_at ?st (Some i) = link_at st None" using i(1) by (simp add: link_at_def semu)
  moreover have "chain ?st (Some k) ks" if "js = k # ks" for k ks
  proof (rule chain_cong [of _ _ st])
    fix l assume "l \<in> set ks"
    then have "i \<noteq> l" using that ni by auto
    then show "un_next_idx (semu ?st ! l) = un_next_idx (semu st ! l)" by (simp add: semu)
  qed (use c that ni in \<open>auto simp: link_at_def semu rd_def nth_list_update\<close>)
  ultimately have "chain ?st (Some i) js" using c chain_bound [OF c] by (cases js) (auto simp: semu)
  moreover have "link_at ?st None = Some (Some i)" by (simp add: link_at_def semu)
  ultimately have "chain ?st None (i # js)" using i(1) by (simp add: semu)
  moreover have "\<forall>k < length (semu ?st). un_proc (semu ?st ! k) = None \<longleftrightarrow> k \<notin> set (i # js)"
    using inv i by (auto simp: semu chain_inv_def nth_list_update)
  moreover have "inj_on (\<lambda>k. un_proc (semu ?st ! k)) (set (i # js))"
  proof -
    have "un_proc (semu ?st ! k) = un_proc (semu st ! k)" if "k \<in> set js" for k
      using that ni by (cases "k = i") (auto simp: semu)
    moreover have "un_proc (semu st ! k) \<noteq> Some p" if "k \<in> set js" for k
      using p chain_bound [OF c that] by (auto simp: no_undo_def)
    moreover have "un_proc (semu ?st ! i) = Some p" using i(1) by (simp add: semu)
    ultimately show ?thesis using inv unfolding chain_inv_def inj_on_def by (metis (no_types, lifting) set_ConsD)
  qed
  moreover have "undo_ok v" if "v \<in> set (semu ?st)" for v
    using that inv by (auto simp: semu chain_inv_def undo_ok_def entries_ok_def dest!: set_update_subset_insert [THEN subsetD])
  ultimately show ?thesis using inv ni by (auto simp: chain_inv_def)
qed

section \<open>Amounts\<close>

text \<open>The amount recorded under a key, in a list of entries and for a process.\<close>

definition amount :: "undo list \<Rightarrow> nat \<times> u16 \<Rightarrow> u16" where
  "amount es k = (\<Sum>e\<leftarrow>es. if ent_key e = k then une_adjval e else 0)"

definition undo_amount :: "sysvsem \<Rightarrow> proc \<Rightarrow> nat \<times> u16 \<Rightarrow> u16" where
  "undo_amount st p k = (\<Sum>u\<leftarrow>semu st. if un_proc u = Some p then amount (un_ent u) k else 0)"

lemma amount_simps [simp]:
  "amount [] k = 0"
  "amount (e # es) k = (if ent_key e = k then une_adjval e else 0) + amount es k"
  "amount (xs @ ys) k = amount xs k + amount ys k"
  by (simp_all add: amount_def)

lemma sum_list_update_diff:
  fixes f :: "'a \<Rightarrow> 'b::ab_group_add"
  assumes "i < length xs"
  shows "(\<Sum>x\<leftarrow>xs[i := y]. f x) = (\<Sum>x\<leftarrow>xs. f x) + (f y - f (xs ! i))"
  using assms by (induction xs arbitrary: i) (auto split: nat.split simp: algebra_simps)

lemma amount_key: "amount es k \<noteq> 0 \<Longrightarrow> k \<in> ent_key ` set es"
  by (induction es) (auto split: if_splits)

lemma amount_distinct:
  assumes "entries_ok es"
  shows "{k. amount es k \<noteq> 0} = ent_key ` set es"
proof -
  have "amount es (ent_key e) = une_adjval e" if "e \<in> set es" for e
    using assms that unfolding entries_ok_def
  proof (induction es)
    case (Cons a es)
    have z: "amount es (ent_key a) = 0" using Cons.prems(1) amount_key [of es "ent_key a"] by fastforce
    show ?case
    proof (cases "e = a")
      case False
      then have "ent_key a \<noteq> ent_key e" using Cons.prems by auto
      then show ?thesis using Cons False by auto
    qed (use z in simp)
  qed simp
  then show ?thesis using assms amount_key by (auto simp: entries_ok_def)
qed

lemma amount_length: "entries_ok es \<Longrightarrow> length es = card {k. amount es k \<noteq> 0}"
  using distinct_card [of "map ent_key es"] by (simp add: amount_distinct) (simp add: entries_ok_def)

lemma undo_amount_update:
  "i < length (semu st) \<Longrightarrow> semu st' = (semu st)[i := u] \<Longrightarrow>
     undo_amount st' p k = undo_amount st p k + ((if un_proc u = Some p then amount (un_ent u) k else 0) -
       (if un_proc (semu st ! i) = Some p then amount (un_ent (semu st ! i)) k else 0))"
  by (simp add: undo_amount_def sum_list_update_diff)

lemma undo_amount_cong:
  assumes "length (semu st') = length (semu st)"
    and "\<And>i. i < length (semu st) \<Longrightarrow> un_ent (semu st' ! i) = un_ent (semu st ! i) \<and>
      (un_ent (semu st ! i) = [] \<or> un_proc (semu st' ! i) = un_proc (semu st ! i))"
  shows "undo_amount st' p k = undo_amount st p k"
proof -
  have "map (\<lambda>u. if un_proc u = Some p then amount (un_ent u) k else 0) (semu st') =
      map (\<lambda>u. if un_proc u = Some p then amount (un_ent u) k else 0) (semu st)"
  proof (rule nth_equalityI)
    fix i assume "i < length (map (\<lambda>u. if un_proc u = Some p then amount (un_ent u) k else 0) (semu st'))"
    then have i: "i < length (semu st)" using assms(1) by simp
    from assms(2) [OF i] show "map (\<lambda>u. if un_proc u = Some p then amount (un_ent u) k else 0) (semu st') ! i =
        map (\<lambda>u. if un_proc u = Some p then amount (un_ent u) k else 0) (semu st) ! i"
      using i assms(1) by (cases "un_ent (semu st ! i) = []") auto
  qed (use assms(1) in simp)
  then show ?thesis unfolding undo_amount_def by (rule arg_cong)
qed

lemma undo_amount_grow: "semu st' = semu st @ replicate n zero_undo \<Longrightarrow> undo_amount st' p k = undo_amount st p k"
  by (simp add: undo_amount_def zero_undo_def sum_list_replicate)

section \<open>Allocation of a structure\<close>

lemma purge_inv:
  assumes inv: "chain_inv st js"
  obtains did st' where "semu_purge st None False = Some (did, st')"
    "\<And>q k. undo_amount st' q k = undo_amount st q k"
    "chain_inv st' (filter (\<lambda>i. un_cnt (semu st ! i) \<noteq> 0) js)" "length (semu st') = length (semu st)"
    "\<And>i. i < length (semu st) \<Longrightarrow> un_ent (semu st' ! i) = un_ent (semu st ! i)"
    "no_undo st p \<Longrightarrow> no_undo st' p" "did \<Longrightarrow> \<exists>i < length (semu st'). un_proc (semu st' ! i) = None"
proof -
  let ?K = "{i \<in> set js. un_cnt (semu st ! i) = 0}" let ?js = "filter (\<lambda>i. un_cnt (semu st ! i) \<noteq> 0) js"
  have c: "chain st None js" and d: "distinct js" using inv by (auto simp: chain_inv_def)
  obtain did st' where st': "semu_purge st None False = Some (did, st')" "chain st' None ?js" "purged st ?K st'"
    "did \<longleftrightarrow> False \<or> (\<exists>i \<in> set js. un_cnt (semu st ! i) = 0)"
    using purge_spec [OF c d, of False] by blast
  have len: "length (semu st') = length (semu st)" using st'(3) by (simp add: purged_def)
  have at: "un_cnt (semu st' ! k) = un_cnt (semu st ! k)" "un_ent (semu st' ! k) = un_ent (semu st ! k)"
    "un_proc (semu st' ! k) = (if k \<in> ?K then None else un_proc (semu st ! k))" if "k < length (semu st)" for k
    using st'(3) that by (auto simp: purged_def)
  have "chain_inv st' ?js"
    unfolding chain_inv_def
  proof (intro conjI)
    show "\<forall>i < length (semu st'). un_proc (semu st' ! i) = None \<longleftrightarrow> i \<notin> set ?js"
      using inv at len by (auto simp: chain_inv_def)
    show "inj_on (\<lambda>i. un_proc (semu st' ! i)) (set ?js)"
    proof (rule inj_onI)
      fix x y assume xy: "x \<in> set ?js" "y \<in> set ?js" "un_proc (semu st' ! x) = un_proc (semu st' ! y)"
      then have "un_proc (semu st ! x) = un_proc (semu st ! y)" using at chain_bound [OF c] by auto
      then show "x = y" using inv xy by (auto simp: chain_inv_def inj_on_def)
    qed
    show "\<forall>u \<in> set (semu st'). undo_ok u"
    proof
      fix u assume "u \<in> set (semu st')"
      then obtain k where k: "k < length (semu st)" "u = semu st' ! k" using len by (auto simp: in_set_conv_nth)
      have "undo_ok (semu st ! k)" using chain_inv_ok [OF inv k(1)] .
      then show "undo_ok u" using at [OF k(1)] k(2) by (auto simp: undo_ok_def split: if_splits)
    qed
  qed (use st' d in auto)
  moreover have "no_undo st' p" if "no_undo st p"
    using that at(3) len by (simp add: no_undo_def all_set_conv_all_nth)
  moreover have "\<exists>i < length (semu st'). un_proc (semu st' ! i) = None" if d': did
  proof -
    obtain i where i: "i \<in> set js" "un_cnt (semu st ! i) = 0" using st'(4) d' by auto
    then show ?thesis using at(3) [of i] chain_bound [OF c i(1)] len by (intro exI [of _ i]) simp
  qed
  moreover have "undo_amount st' q k = undo_amount st q k" for q k
  proof (rule undo_amount_cong [OF len])
    fix i assume i: "i < length (semu st)"
    show "un_ent (semu st' ! i) = un_ent (semu st ! i) \<and> (un_ent (semu st ! i) = [] \<or> un_proc (semu st' ! i) = un_proc (semu st ! i))"
      using at(2,3) [OF i] chain_inv_ok [OF inv i] by (auto simp: undo_ok_def)
  qed
  ultimately show thesis using that st'(1) at(2) len by blast
qed

lemma grow_semu_inv:
  assumes inv: "chain_inv st js" and g: "grow_semu_array (length (semu st) + 1) st = (ok, st')"
  shows "chain_inv st' js" and "\<exists>k. semu st' = semu st @ replicate k zero_undo \<and> (ok \<longrightarrow> 0 < k)"
    and "no_undo st p \<Longrightarrow> no_undo st' p"
proof -
  let ?n = "length (semu st) + 1"
  have n: "?n \<le> SEMMNU \<Longrightarrow> ?n \<le> round_size ?n SEMMNU_INC SEMMNU"
    by (rule round_size_ge) (simp_all add: SEMMNU_INC_def)
  obtain k where k: "semu st' = semu st @ replicate k zero_undo" "ok \<longrightarrow> 0 < k" "semu_list_idx st' = semu_list_idx st"
    using g n by (auto simp: grow_semu_array_def Let_def malloc_def split: if_splits prod.splits list.splits
        intro: that [of 0] that)
  then show "\<exists>k. semu st' = semu st @ replicate k zero_undo \<and> (ok \<longrightarrow> 0 < k)" by blast
  show "no_undo st p \<Longrightarrow> no_undo st' p" using k by (auto simp: no_undo_def zero_undo_def)
  have c: "chain st None js" using inv by (simp add: chain_inv_def)
  have old: "semu st' ! i = semu st ! i" if "i \<in> set js" for i
    using chain_bound [OF c that] by (simp add: k nth_append)
  have "chain st' None js"
    by (rule chain_cong [OF _ _ _ c]) (use old k in \<open>auto simp: link_at_def\<close>)
  moreover have "un_proc (semu st' ! i) = None \<longleftrightarrow> i \<notin> set js" if "i < length (semu st')" for i
    using that inv chain_bound [OF c, of i] k(1) by (cases "i < length (semu st)") (auto simp: chain_inv_def nth_append zero_undo_def)
  moreover have "inj_on (\<lambda>i. un_proc (semu st' ! i)) (set js)"
    using inv old by (auto simp: chain_inv_def inj_on_def)
  moreover have "undo_ok u" if "u \<in> set (semu st')" for u
    using that inv k(1) by (auto simp: chain_inv_def undo_ok_def entries_ok_def zero_undo_def)
  ultimately show "chain_inv st' js" using inv by (auto simp: chain_inv_def)
qed

text \<open>
  \<open>semu_alloc\<close> for a process without a structure: it never panics, and it gives a fresh structure
  without entries; the entries of the others are kept.
\<close>

lemma semu_alloc_spec:
  assumes inv: "chain_inv st js" and p: "no_undo st p"
  shows "\<exists>r st' js'. semu_alloc p st = Some (r, st') \<and> chain_inv st' js' \<and>
    (\<forall>u \<in> set (semu st'). un_ent u = [] \<or> (\<exists>v \<in> set (semu st). un_ent u = un_ent v)) \<and>
    (\<forall>q k. undo_amount st' q k = undo_amount st q k) \<and>
    (case r of None \<Rightarrow> True | Some i \<Rightarrow> i < length (semu st') \<and> un_proc (semu st' ! i) = Some p \<and> un_ent (semu st' ! i) = [])"
proof -
  have take: ?thesis
    if a: "semu_alloc p st = Some (Some i, semu_take i p st1)" and inv1: "chain_inv st1 js1" and f: "free_slot (semu st1) 0 = Some i"
      and p1: "no_undo st1 p" and am: "\<And>q k. undo_amount st1 q k = undo_amount st q k" and e1: "\<And>u. u \<in> set (semu st1) \<Longrightarrow> un_ent u = [] \<or> (\<exists>v \<in> set (semu st). un_ent u = un_ent v)"
    for i st1 js1
  proof -
    have i: "i < length (semu st1)" "un_proc (semu st1 ! i) = None" using free_slot_Some [OF f] by auto
    have "chain_inv (semu_take i p st1) (i # js1)" using take_chain [OF inv1 i p1] .
    moreover have semu: "semu (semu_take i p st1) = (semu st1)[i := \<lparr>un_next_idx = semu_list_idx st1, un_proc = Some p, un_cnt = 0, un_ent = []\<rparr>]"
      by (simp add: semu_take_def set_semu_def)
    moreover have "un_ent u = [] \<or> (\<exists>v \<in> set (semu st). un_ent u = un_ent v)" if "u \<in> set (semu (semu_take i p st1))" for u
      using that e1 unfolding semu by (auto dest!: set_update_subset_insert [THEN subsetD])
    moreover have "undo_amount (semu_take i p st1) q k = undo_amount st q k" for q k
      using undo_amount_update [OF i(1) semu] i am by simp
    ultimately show ?thesis using a i(1) by (intro exI [of _ "Some i"] exI [of _ "semu_take i p st1"] exI [of _ "i # js1"]) auto
  qed
  show ?thesis
  proof (cases "free_slot (semu st) 0")
    case (Some i)
    then show ?thesis using take [of i st js] inv p by (auto simp: semu_alloc_def)
  next
    case None
    obtain did st1 where pg0: "\<And>q k. undo_amount st1 q k = undo_amount st q k"
      and pg: "semu_purge st None False = Some (did, st1)"
      "chain_inv st1 (filter (\<lambda>i. un_cnt (semu st ! i) \<noteq> 0) js)" "length (semu st1) = length (semu st)"
      "\<And>i. i < length (semu st) \<Longrightarrow> un_ent (semu st1 ! i) = un_ent (semu st ! i)"
      "no_undo st1 p" "did \<Longrightarrow> \<exists>i < length (semu st1). un_proc (semu st1 ! i) = None"
      using purge_inv [OF inv, of p] p by metis
    have e1: "un_ent u = [] \<or> (\<exists>v \<in> set (semu st). un_ent u = un_ent v)" if "u \<in> set (semu st1)" for u
      using that pg(3,4) by (metis in_set_conv_nth)
    obtain ok st2 where 2: "(if did then (True, st1) else grow_semu_array (length (semu st1) + 1) st1) = (ok, st2)"
      by (meson surj_pair)
    obtain k where st2: "chain_inv st2 (filter (\<lambda>i. un_cnt (semu st ! i) \<noteq> 0) js)" "no_undo st2 p"
      "semu st2 = semu st1 @ replicate k zero_undo" "ok \<longrightarrow> did \<or> 0 < k"
    proof (cases did)
      case True
      then show ?thesis using that [of 0] 2 pg by simp
    next
      case False
      then show ?thesis using that 2 grow_semu_inv [OF pg(2)] pg(5) by auto
    qed
    have am2: "undo_amount st2 q k = undo_amount st q k" for q k
      using undo_amount_grow [OF st2(3)] pg0 by simp
    have e2: "un_ent u = [] \<or> (\<exists>v \<in> set (semu st). un_ent u = un_ent v)" if "u \<in> set (semu st2)" for u
      using that e1 by (auto simp: st2(3) zero_undo_def)
    show ?thesis
    proof (cases ok)
      case False
      then have "semu_alloc p st = Some (None, st2)" using None pg(1) 2 by (simp add: semu_alloc_def)
      then show ?thesis using st2(1) e2 am2 by (intro exI [of _ None] exI [of _ st2]) auto
    next
      case True
      have "\<exists>u \<in> set (semu st2). un_proc u = None"
      proof (cases did)
        case True
        then show ?thesis using pg(6) nth_mem by (fastforce simp: st2(3))
      next
        case False
        then show ?thesis using st2(3,4) True by (auto simp: zero_undo_def)
      qed
      then obtain i where i: "free_slot (semu st2) 0 = Some i" using free_slot_None [of "semu st2" 0] by auto
      then have "semu_alloc p st = Some (Some i, semu_take i p st2)" using None pg(1) 2 True by (simp add: semu_alloc_def)
      then show ?thesis using take [OF _ st2(1) i st2(2) am2 e2] by simp
    qed
  qed
qed

section \<open>Adjusting an entry\<close>

lemma find_ent_total:
  "n \<le> length es \<Longrightarrow> \<exists>r. find_ent es n semid semnum i = Some r \<and>
     (case r of None \<Rightarrow> \<forall>k < n. \<not> (une_id (es ! k) = semid \<and> sint (une_num (es ! k)) = semnum)
      | Some j \<Rightarrow> i \<le> j \<and> j < i + n \<and> une_id (es ! (j - i)) = semid \<and> sint (une_num (es ! (j - i))) = semnum)"
proof (induction es n semid semnum i rule: find_ent.induct)
  case (3 e es n semid semnum i)
  show ?case
  proof (cases "une_id e \<noteq> semid \<or> sint (une_num e) \<noteq> semnum")
    case True
    then obtain r where r: "find_ent es n semid semnum (Suc i) = Some r"
      "case r of None \<Rightarrow> \<forall>k < n. \<not> (une_id (es ! k) = semid \<and> sint (une_num (es ! k)) = semnum)
       | Some j \<Rightarrow> Suc i \<le> j \<and> j < Suc i + n \<and> une_id (es ! (j - Suc i)) = semid \<and> sint (une_num (es ! (j - Suc i))) = semnum"
      using 3 by auto
    then show ?thesis using True
      by (auto split: option.splits simp: less_Suc_eq_0_disj nth_Cons')
  qed auto
qed auto

text \<open>The list of entries after an adjustment, in terms of the entries alone.\<close>

definition ents_after :: "nat \<Rightarrow> int \<Rightarrow> int \<Rightarrow> undo list \<Rightarrow> undo list" where
  "ents_after semid semnum a es =
     (case find_ent es (length es) semid semnum 0 of
        Some (Some k) \<Rightarrow>
          (let e = (es ! k)\<lparr>une_adjval := une_adjval (es ! k) + word_of_int a\<rparr> in
           if une_adjval e = 0 then take k es @ drop (Suc k) es else es[k := e])
      | _ \<Rightarrow> \<lparr>une_adjval = word_of_int a, une_num = word_of_int semnum, une_id = semid\<rparr> # es)"

lemma scan_cases:
  assumes inv: "chain_inv st js" and si: "si < length (semu st)" and a: "a \<noteq> 0"
  shows "\<exists>e st1. semundo_scan si semid semnum a st = Some (e, Some si, st1) \<and>
    (case e of
       None \<Rightarrow> \<exists>m. st1 = (set_semu si ((semu st ! si)\<lparr>un_ent := ents_after semid semnum a (un_ent (semu st ! si)),
           un_cnt := length (ents_after semid semnum a (un_ent (semu st ! si)))\<rparr>) st)\<lparr>mem := m\<rparr> \<and>
           ((\<nexists>k. find_ent (un_ent (semu st ! si)) (length (un_ent (semu st ! si))) semid semnum 0 = Some (Some k)) \<longrightarrow>
              length (un_ent (semu st ! si)) < SEMUME)
     | Some x \<Rightarrow> (\<exists>m. st1 = st\<lparr>mem := m\<rparr>) \<and>
         (\<nexists>k. find_ent (un_ent (semu st ! si)) (length (un_ent (semu st ! si))) semid semnum 0 = Some (Some k)) \<and>
         (x = EINVAL \<and> length (un_ent (semu st ! si)) = SEMUME \<or> x = ENOMEM \<and> mem st \<noteq> []))"
proof -
  let ?u = "semu st ! si" let ?es = "un_ent ?u"
  have ok: "un_cnt ?u = length ?es" "length ?es \<le> SEMUME" using chain_inv_ok [OF inv si] by (auto simp: undo_ok_def entries_ok_def)
  obtain r where r: "find_ent ?es (length ?es) semid semnum 0 = Some r" and rk: "case r of None \<Rightarrow> True | Some k \<Rightarrow> k < length ?es"
    using find_ent_total [of "length ?es" ?es semid semnum 0] by (auto split: option.splits)
  show ?thesis
  proof (cases r)
    case (Some k)
    have upd: "?u\<lparr>un_cnt := c, un_ent := es\<rparr> = ?u\<lparr>un_ent := es, un_cnt := c\<rparr>"
      "c = un_cnt ?u \<Longrightarrow> ?u\<lparr>un_ent := es, un_cnt := c\<rparr> = ?u\<lparr>un_ent := es\<rparr>" for c es
      by (cases ?u; simp)+
    have "adjust_ent si k a st = set_semu si (?u\<lparr>un_ent := ents_after semid semnum a ?es,
        un_cnt := length (ents_after semid semnum a ?es)\<rparr>) st"
      using a r rk Some ok
      by (cases "une_adjval (?es ! k) + word_of_int a = 0")
        (simp_all add: adjust_ent_def ents_after_def Let_def min_def upd)
    then show ?thesis using si r rk Some ok
      by (intro exI [of _ None] exI [of _ "adjust_ent si k a st"]) (auto simp: semundo_scan_def set_semu_def intro!: exI [of _ "mem st"])
  next
    case None
    show ?thesis
    proof (cases "length ?es = SEMUME")
      case True
      then show ?thesis using si r None ok a
        by (intro exI [of _ "Some EINVAL"] exI [of _ st]) (auto simp: semundo_scan_def add_ent_def intro!: exI [of _ "mem st"])
    next
      case False
      obtain b st1 where m: "malloc st = (b, st1)" by (meson surj_pair)
      then obtain ml where st1: "st1 = st\<lparr>mem := ml\<rparr>" "mem st = [] \<longrightarrow> b"
        by (auto simp: malloc_def split: list.splits intro: that [of "mem st"])
      show ?thesis
      proof (cases b)
        case True
        then show ?thesis using si r None ok a False m st1
          by (intro exI [of _ None]) (auto simp: semundo_scan_def add_ent_def ents_after_def Let_def set_semu_def intro!: exI [of _ ml])
      next
        case b: False
        then show ?thesis using si r None ok a False m st1
          by (intro exI [of _ "Some ENOMEM"]) (auto simp: semundo_scan_def add_ent_def)
      qed
    qed
  qed
qed

text \<open>The numbers of semaphores that fit into the \<open>short\<close> of an entry.\<close>

definition sem_key :: "nat \<Rightarrow> int \<Rightarrow> nat \<times> u16" where
  "sem_key semid n = (semid, word_of_int n)"

lemma sint_word_of_int: "0 \<le> n \<Longrightarrow> n < 32768 \<Longrightarrow> sint (word_of_int n :: u16) = n"
  using sint_sbintrunc' [of n, where 'a = 16] signed_take_bit_int_eq_self [of 15 n] by simp

lemma sint_eq_iff: "0 \<le> n \<Longrightarrow> n < 32768 \<Longrightarrow> sint (w :: u16) = n \<longleftrightarrow> w = word_of_int n"
  using sint_word_of_int by force

text \<open>The search is by key, an adjustment adds to the amount under its key.\<close>

lemma find_ent_key:
  assumes "0 \<le> n" "n < 32768"
  shows "(find_ent es (length es) semid n 0 = Some None \<and> (\<forall>e \<in> set es. ent_key e \<noteq> sem_key semid n)) \<or>
    (\<exists>k < length es. find_ent es (length es) semid n 0 = Some (Some k) \<and> ent_key (es ! k) = sem_key semid n)"
proof -
  have c: "une_id e = semid \<and> sint (une_num e) = n \<longleftrightarrow> ent_key e = sem_key semid n" for e
    using sint_eq_iff [OF assms, of "une_num e"] by (simp add: ent_key_def sem_key_def)
  obtain r where r: "find_ent es (length es) semid n 0 = Some r"
    "case r of None \<Rightarrow> \<forall>k < length es. ent_key (es ! k) \<noteq> sem_key semid n
      | Some j \<Rightarrow> j < length es \<and> ent_key (es ! j) = sem_key semid n"
    using find_ent_total [of "length es" es semid n 0] unfolding c by (auto split: option.splits)
  then show ?thesis by (cases r) (auto simp: in_set_conv_nth)
qed

lemma ents_after_spec:
  assumes n: "0 \<le> n" "n < 32768" and ok: "entries_ok es" and a: "word_of_int a \<noteq> (0 :: u16)"
    and room: "(\<nexists>k. find_ent es (length es) semid n 0 = Some (Some k)) \<Longrightarrow> length es < SEMUME"
  shows "entries_ok (ents_after semid n a es)"
    and "amount (ents_after semid n a es) k = amount es k + (if k = sem_key semid n then word_of_int a else 0)"
    and "ent_key ` set (ents_after semid n a es) \<subseteq> insert (sem_key semid n) (ent_key ` set es)"
proof -
  have "entries_ok (ents_after semid n a es) \<and>
    amount (ents_after semid n a es) k = amount es k + (if k = sem_key semid n then word_of_int a else 0) \<and>
    ent_key ` set (ents_after semid n a es) \<subseteq> insert (sem_key semid n) (ent_key ` set es)" (is "?ok \<and> ?am \<and> ?key")
    using find_ent_key [OF n, of es semid]
  proof
    assume f: "find_ent es (length es) semid n 0 = Some None \<and> (\<forall>e \<in> set es. ent_key e \<noteq> sem_key semid n)"
    then have "length es < SEMUME" using room by simp
    then show ?thesis using f ok a
      by (auto simp: ents_after_def entries_ok_def ent_key_def sem_key_def)
  next
    assume "\<exists>j < length es. find_ent es (length es) semid n 0 = Some (Some j) \<and> ent_key (es ! j) = sem_key semid n"
    then obtain j where j: "j < length es" "find_ent es (length es) semid n 0 = Some (Some j)" "ent_key (es ! j) = sem_key semid n"
      by blast
    obtain A x B where es: "es = A @ x # B" "length A = j"
      using id_take_nth_drop [OF j(1)] j(1) by (metis length_take min.absorb2 less_imp_le)
    let ?e = "x\<lparr>une_adjval := une_adjval x + word_of_int a\<rparr>"
    have nth: "es ! j = x" "es[j := y] = A @ y # B" "take j es = A" "drop (Suc j) es = B" for y
      using es(2) by (auto simp: es(1) nth_append list_update_append)
    have key: "ent_key ?e = ent_key x" "ent_key x = sem_key semid n" using j(3) nth(1) by (auto simp: ent_key_def)
    show ?thesis
    proof (cases "une_adjval ?e = 0")
      case True
      then have "ents_after semid n a es = A @ B" using j(2) by (simp add: ents_after_def nth)
      then show ?thesis using True key ok unfolding es(1) entries_ok_def by (auto simp: algebra_simps)
    next
      case False
      then have "ents_after semid n a es = A @ ?e # B"
        using j(2) by (simp add: ents_after_def nth)
      then show ?thesis using False key ok unfolding es(1) entries_ok_def by (auto simp: algebra_simps)
    qed
  qed
  then show ?ok ?am ?key by auto
qed

lemma undo_amount_at:
  assumes inv: "chain_inv st js" and si: "si < length (semu st)" "un_proc (semu st ! si) = Some p"
  shows "undo_amount st p k = amount (un_ent (semu st ! si)) k"
proof -
  let ?c = "\<lambda>i. if un_proc (semu st ! i) = Some p then amount (un_ent (semu st ! i)) k else 0"
  have other: "?c i = 0" if "i < length (semu st)" "i \<noteq> si" for i
    using inv si that unfolding chain_inv_def inj_on_def by (metis option.distinct(1))
  have "undo_amount st p k = (\<Sum>i = 0..<length (semu st). ?c i)"
    by (simp add: undo_amount_def sum_list_sum_nth)
  also have "\<dots> = ?c si + (\<Sum>i \<in> {0..<length (semu st)} - {si}. ?c i)"
    using si(1) by (intro sum.remove) auto
  also have "(\<Sum>i \<in> {0..<length (semu st)} - {si}. ?c i) = 0"
    by (rule sum.neutral) (use other in auto)
  finally show ?thesis using si(2) by simp
qed

lemma valid_ent_key: "ent_key e = ent_key e' \<Longrightarrow> valid_ent st e = valid_ent st e'"
  by (simp add: valid_ent_def ent_key_def)

lemma valid_ent_tables: "same_tables st st' \<Longrightarrow> valid_ent st' e = valid_ent st e"
  using layout_cong [of st' st] by (simp add: valid_ent_def same_tables_def)

lemma ents_valid_nth: "ents_valid st \<longleftrightarrow> (\<forall>i < length (semu st). \<forall>e \<in> set (un_ent (semu st ! i)). valid_ent st e)"
  by (auto simp: ents_valid_def all_set_conv_all_nth)

definition holds_undo :: "sysvsem \<Rightarrow> proc \<Rightarrow> nat option \<Rightarrow> bool" where
  "holds_undo st p ix0 \<longleftrightarrow> (case ix0 of None \<Rightarrow> True | Some si \<Rightarrow> si < length (semu st) \<and> un_proc (semu st ! si) = Some p)"

lemma scan_spec:
  assumes inv: "chain_inv st js" and val: "ents_valid st" and si: "holds_undo st p (Some si)"
    and sem: "live st semid" "0 \<le> n" "n < int (nsem st semid)" "n < 32768" and a: "word_of_int a \<noteq> (0 :: u16)"
  shows "\<exists>e st1. semundo_scan si semid n a st = Some (e, Some si, st1) \<and> chain_inv st1 js \<and> ents_valid st1 \<and>
    holds_undo st1 p (Some si) \<and>
    (\<forall>q k. undo_amount st1 q k = undo_amount st q k + (if e = None \<and> q = p \<and> k = sem_key semid n then word_of_int a else 0)) \<and>
    (e \<noteq> None \<longrightarrow> mem st \<noteq> [] \<or> (undo_amount st p (sem_key semid n) = 0 \<and> card {k. undo_amount st p k \<noteq> 0} = SEMUME))"
proof -
  let ?u = "semu st ! si" let ?es = "un_ent ?u" let ?es' = "ents_after semid n a ?es"
  let ?found = "\<exists>k. find_ent ?es (length ?es) semid n 0 = Some (Some k)"
  have si': "si < length (semu st)" "un_proc ?u = Some p" using si by (auto simp: holds_undo_def)
  have ok: "entries_ok ?es" using chain_inv_ok [OF inv si'(1)] by (simp add: undo_ok_def)
  note sc = scan_cases [OF inv si'(1), of a semid n]
  have "a \<noteq> 0" using a by auto
  then obtain e st1 where e: "semundo_scan si semid n a st = Some (e, Some si, st1)"
    "case e of None \<Rightarrow> \<exists>m. st1 = (set_semu si (?u\<lparr>un_ent := ?es', un_cnt := length ?es'\<rparr>) st)\<lparr>mem := m\<rparr> \<and>
        (\<not> ?found \<longrightarrow> length ?es < SEMUME)
     | Some x \<Rightarrow> (\<exists>m. st1 = st\<lparr>mem := m\<rparr>) \<and> \<not> ?found \<and> (x = EINVAL \<and> length ?es = SEMUME \<or> x = ENOMEM \<and> mem st \<noteq> [])"
    using sc by blast
  show ?thesis
  proof (cases e)
    case None
    with e(2) obtain m where st1: "st1 = (set_semu si (?u\<lparr>un_ent := ?es', un_cnt := length ?es'\<rparr>) st)\<lparr>mem := m\<rparr>"
      and room: "\<not> ?found \<Longrightarrow> length ?es < SEMUME" by auto
    note ea = ents_after_spec [OF sem(2,4) ok a room]
    let ?u' = "?u\<lparr>un_ent := ?es', un_cnt := length ?es'\<rparr>"
    have "undo_ok ?u'" using ea(1) si'(2) by (simp add: undo_ok_def)
    then have c0: "chain_inv (set_semu si ?u' st) js" using inv si' by (intro chain_inv_set_semu) auto
    have "chain_inv (st2\<lparr>mem := m\<rparr>) js" if "chain_inv st2 js" for st2
    proof -
      have "chain (st2\<lparr>mem := m\<rparr>) None js"
        by (rule chain_cong [of _ _ st2]) (use that in \<open>auto simp: chain_inv_def link_at_def\<close>)
      then show ?thesis using that by (simp add: chain_inv_def)
    qed
    then have c: "chain_inv st1 js" using c0 by (simp add: st1)
    have semu: "semu st1 = (semu st)[si := ?u']" by (simp add: st1 set_semu_def)
    have "same_tables st st1" by (auto simp: st1 set_semu_def same_tables_def)
    note vt = valid_ent_tables [OF this]
    have "valid_ent st e" if "e \<in> set ?es'" for e
    proof -
      have "ent_key e \<in> insert (sem_key semid n) (ent_key ` set ?es)" using ea(3) that by blast
      then show ?thesis
      proof
        assume "ent_key e = sem_key semid n"
        then show ?thesis using sem sint_word_of_int by (simp add: valid_ent_def ent_key_def sem_key_def)
      next
        assume "ent_key e \<in> ent_key ` set ?es"
        then obtain e' where "e' \<in> set ?es" "ent_key e = ent_key e'" by blast
        then show ?thesis using val si'(1) valid_ent_key [of e e' st] by (simp add: ents_valid_nth)
      qed
    qed
    then have v: "ents_valid st1"
      using val si'(1) by (auto simp: ents_valid_def semu vt dest!: set_update_subset_insert [THEN subsetD])
    have "undo_amount st1 q k = undo_amount st q k + (if q = p \<and> k = sem_key semid n then word_of_int a else 0)" for q k
      using undo_amount_update [OF si'(1) semu, of q k] si'(2) ea(2) [where k = k] by auto
    then show ?thesis using e(1) None c v si' by (intro exI [of _ e] exI [of _ st1]) (auto simp: holds_undo_def semu)
  next
    case (Some x)
    with e(2) obtain m where st1: "st1 = st\<lparr>mem := m\<rparr>" and nf: "\<not> ?found"
      and x: "x = EINVAL \<and> length ?es = SEMUME \<or> x = ENOMEM \<and> mem st \<noteq> []" by auto
    have "chain st1 None js"
      by (rule chain_cong [of _ _ st]) (use inv in \<open>auto simp: chain_inv_def link_at_def st1\<close>)
    then have c: "chain_inv st1 js" using inv by (simp add: chain_inv_def st1)
    have "same_tables st st1" by (simp add: st1)
    note vt = valid_ent_tables [OF this]
    have "sem_key semid n \<notin> ent_key ` set ?es"
      using find_ent_key [OF sem(2,4), of ?es semid] nf by auto
    then have "amount ?es (sem_key semid n) = 0" using amount_key by blast
    moreover have "card {k. undo_amount st p k \<noteq> 0} = length ?es"
      using amount_length [OF ok] undo_amount_at [OF inv si'] by simp
    moreover have "ents_valid st1" using val vt by (simp add: ents_valid_def st1)
    moreover have "undo_amount st1 q k = undo_amount st q k" for q k by (simp add: undo_amount_def st1)
    ultimately show ?thesis using e(1) Some c x si' undo_amount_at [OF inv si']
      by (intro exI [of _ e] exI [of _ st1]) (auto simp: holds_undo_def st1)
  qed
qed

text \<open>
  \<open>semundo_adjust\<close> on a state with the invariant: it returns, keeps the invariant and the amounts of
  the other processes, and records the adjustment unless it reports an error.
\<close>

lemma adjust_spec:
  assumes inv: "undo_inv st" and ix0: "holds_undo st p ix0"
    and sem: "live st semid" "0 \<le> n" "n < int (nsem st semid)" "n < 32768" and a: "word_of_int a \<noteq> (0 :: u16)"
  shows "\<exists>e ix0' st'. semundo_adjust p ix0 semid n a st = Some (e, ix0', st') \<and> undo_inv st' \<and> holds_undo st' p ix0' \<and>
    (ix0 \<noteq> None \<longrightarrow> ix0' = ix0) \<and> (e = None \<longrightarrow> ix0' \<noteq> None) \<and>
    (\<forall>q k. undo_amount st' q k = undo_amount st q k + (if e = None \<and> q = p \<and> k = sem_key semid n then word_of_int a else 0)) \<and>
    (ix0 \<noteq> None \<and> e \<noteq> None \<longrightarrow> mem st \<noteq> [] \<or>
       (undo_amount st p (sem_key semid n) = 0 \<and> card {k. undo_amount st p k \<noteq> 0} = SEMUME))"
proof -
  obtain js where c: "chain_inv st js" and v: "ents_valid st" using inv by (auto simp: undo_inv_def)
  show ?thesis
  proof (cases ix0)
    case (Some si)
    obtain e st1 where "semundo_scan si semid n a st = Some (e, Some si, st1)" "chain_inv st1 js" "ents_valid st1"
      "holds_undo st1 p (Some si)"
      "\<forall>q k. undo_amount st1 q k = undo_amount st q k + (if e = None \<and> q = p \<and> k = sem_key semid n then word_of_int a else 0)"
      "e \<noteq> None \<longrightarrow> mem st \<noteq> [] \<or> (undo_amount st p (sem_key semid n) = 0 \<and> card {k. undo_amount st p k \<noteq> 0} = SEMUME)"
      using scan_spec [OF c v ix0 [unfolded Some] sem a] by blast
    then show ?thesis using Some
      by (intro exI [of _ e] exI [of _ "Some si"] exI [of _ st1]) (auto simp: semundo_adjust_def undo_inv_def)
  next
    case None
    from chain_inv_find [OF c, of p] show ?thesis
    proof
      assume "\<exists>xs i ys. js = xs @ i # ys \<and> i < length (semu st) \<and> un_proc (semu st ! i) = Some p \<and>
        find_undo st p None = Some (if xs = [] then None else Some (last xs), Some i)"
      then obtain xs i where i: "i < length (semu st)" "un_proc (semu st ! i) = Some p"
        "find_undo st p None = Some (if xs = [] then None else Some (last xs), Some i)" by blast
      then have h: "holds_undo st p (Some i)" by (simp add: holds_undo_def)
      obtain e st1 where "semundo_scan i semid n a st = Some (e, Some i, st1)" "chain_inv st1 js" "ents_valid st1"
        "holds_undo st1 p (Some i)"
        "\<forall>q k. undo_amount st1 q k = undo_amount st q k + (if e = None \<and> q = p \<and> k = sem_key semid n then word_of_int a else 0)"
        using scan_spec [OF c v h sem a] by blast
      then show ?thesis using None i(3)
        by (intro exI [of _ e] exI [of _ "Some i"] exI [of _ st1]) (auto simp: semundo_adjust_def undo_inv_def)
    next
      assume f: "find_undo st p None = Some (if js = [] then None else Some (last js), None) \<and> no_undo st p"
      obtain r st1 js1 where al: "semu_alloc p st = Some (r, st1)" "chain_inv st1 js1"
        "\<forall>u \<in> set (semu st1). un_ent u = [] \<or> (\<exists>v \<in> set (semu st). un_ent u = un_ent v)"
        "\<forall>q k. undo_amount st1 q k = undo_amount st q k"
        "case r of None \<Rightarrow> True | Some i \<Rightarrow> i < length (semu st1) \<and> un_proc (semu st1 ! i) = Some p \<and> un_ent (semu st1 ! i) = []"
        using semu_alloc_spec [OF c] f by blast
      have t: "same_tables st st1" using same_tables_alloc [OF al(1)] .
      have lay: "live st1 = live st" "nsem st1 = nsem st" using layout_cong [of st1 st] t by (auto simp: same_tables_def)
      have v1: "ents_valid st1"
        unfolding ents_valid_def
      proof (intro ballI)
        fix u e assume ue: "u \<in> set (semu st1)" "e \<in> set (un_ent u)"
        with al(3) obtain w where "w \<in> set (semu st)" "un_ent u = un_ent w" by fastforce
        with ue(2) v show "valid_ent st1 e" by (auto simp: ents_valid_def valid_ent_tables [OF t])
      qed
      show ?thesis
      proof (cases r)
        case None
        then show ?thesis using f \<open>ix0 = None\<close> al v1 a
          by (intro exI [of _ "Some ENOSPC"] exI [of _ None] exI [of _ st1])
            (auto simp: semundo_adjust_def undo_inv_def holds_undo_def)
      next
        case (Some i)
        then have h: "holds_undo st1 p (Some i)" using al(5) by (simp add: holds_undo_def)
        have sem1: "live st1 semid" "0 \<le> n" "n < int (nsem st1 semid)" "n < 32768" using sem lay by auto
        obtain e st2 where "semundo_scan i semid n a st1 = Some (e, Some i, st2)" "chain_inv st2 js1" "ents_valid st2"
          "holds_undo st2 p (Some i)"
          "\<forall>q k. undo_amount st2 q k = undo_amount st1 q k + (if e = None \<and> q = p \<and> k = sem_key semid n then word_of_int a else 0)"
          using scan_spec [OF al(2) v1 h sem1 a] by blast
        then show ?thesis using f \<open>ix0 = None\<close> al Some a
          by (intro exI [of _ e] exI [of _ "Some i"] exI [of _ st2]) (auto simp: semundo_adjust_def undo_inv_def)
      qed
    qed
  qed
qed

end
