(* ===== verification/Sysv_Exit.thy ===== *)
theory Sysv_Exit
  imports Sysv_Undo
begin

text \<open>
  Undo structures across whole calls (\<open>kern/sysv_sem.c\<close>): recording the \<open>SEM_UNDO\<close> requests of a
  vector and taking them back when one fails, clearing the entries of a set, and the exit hook.
\<close>

section \<open>Recording a vector and taking it back\<close>

definition undo_delta :: "nat \<Rightarrow> sembuf list \<Rightarrow> nat \<times> u16 \<Rightarrow> u16" where
  "undo_delta semid bs k = (\<Sum>b\<leftarrow>bs. if \<not> undo_skip b \<and> (semid, sem_num b) = k then - sem_op b else 0)"

lemma undo_delta_simps [simp]:
  "undo_delta semid [] k = 0"
  "undo_delta semid (b # bs) k = (if \<not> undo_skip b \<and> (semid, sem_num b) = k then - sem_op b else 0) + undo_delta semid bs k"
  "undo_delta semid (xs @ ys) k = undo_delta semid xs k + undo_delta semid ys k"
  by (simp_all add: undo_delta_def)

text \<open>An operation that a set can record.\<close>

definition recordable :: "sysvsem \<Rightarrow> nat \<Rightarrow> sembuf \<Rightarrow> bool" where
  "recordable st semid b \<longleftrightarrow> live st semid \<and> unat (sem_num b) < nsem st semid \<and> nsem st semid \<le> 32768"

lemma recordable_num:
  assumes "recordable st semid b"
  shows "live st semid" "0 \<le> uint (sem_num b)" "uint (sem_num b) < int (nsem st semid)" "uint (sem_num b) < 32768"
proof -
  have u: "uint (sem_num b) = int (unat (sem_num b))" by (rule uint_nat)
  show "live st semid" "0 \<le> uint (sem_num b)" "uint (sem_num b) < int (nsem st semid)" "uint (sem_num b) < 32768"
    using assms unfolding u recordable_def by linarith+
qed

lemma sem_key_num [simp]: "sem_key semid (uint (sem_num b)) = (semid, sem_num b)"
  by (simp add: sem_key_def)

lemma op_word: "word_of_int (- sint (sem_op b)) = - sem_op b" "word_of_int (sint (sem_op b)) = sem_op b"
  by (simp_all add: wi_hom_neg [symmetric])

lemma card_amount_le:
  assumes "undo_inv st"
  shows "finite {k. undo_amount st p k \<noteq> 0} \<and> card {k. undo_amount st p k \<noteq> 0} \<le> SEMUME"
proof -
  obtain js where c: "chain_inv st js" using assms by (auto simp: undo_inv_def)
  show ?thesis
  proof (cases "no_undo st p")
    case True
    then have "undo_amount st p k = 0" for k
      by (auto simp: undo_amount_def no_undo_def intro!: sum_list_0 [THEN trans [rotated]] cong: map_cong)
    then show ?thesis by (simp add: SEMUME_def)
  next
    case False
    then obtain i where i: "i < length (semu st)" "un_proc (semu st ! i) = Some p"
      by (auto simp: no_undo_def in_set_conv_nth)
    have ok: "entries_ok (un_ent (semu st ! i))" using chain_inv_ok [OF c i(1)] by (simp add: undo_ok_def)
    have "{k. undo_amount st p k \<noteq> 0} = ent_key ` set (un_ent (semu st ! i))"
      using undo_amount_at [OF c i] amount_distinct [OF ok] by simp
    then show ?thesis using amount_length [OF ok] undo_amount_at [OF c i] ok by (simp add: entries_ok_def)
  qed
qed

lemma recordable_tables: "same_tables st st' \<Longrightarrow> recordable st' semid b = recordable st semid b"
  using layout_cong [of st' st] by (simp add: recordable_def same_tables_def)

lemma adjust_undos_spec:
  assumes "undo_inv st" and "holds_undo st p ix0" and "\<And>b. b \<in> set bs \<Longrightarrow> recordable st semid b"
  shows "\<exists>r ix1 st'. adjust_undos p semid ix0 bs i st = Some (r, ix1, st') \<and> undo_inv st' \<and> holds_undo st' p ix1 \<and>
    (ix0 \<noteq> None \<longrightarrow> ix1 = ix0) \<and>
    (let m = (case r of None \<Rightarrow> length bs | Some (e, j) \<Rightarrow> j - i) in
     m \<le> length bs \<and> (\<forall>e j. r = Some (e, j) \<longrightarrow> i \<le> j \<and> j < i + length bs) \<and>
     (\<forall>q k. undo_amount st' q k = undo_amount st q k + (if q = p then undo_delta semid (take m bs) k else 0)) \<and>
     (\<forall>n \<le> m. card {k. undo_amount st p k + undo_delta semid (take n bs) k \<noteq> 0} \<le> SEMUME \<and>
        finite {k. undo_amount st p k + undo_delta semid (take n bs) k \<noteq> 0}) \<and>
     ((\<exists>b \<in> set (take m bs). \<not> undo_skip b) \<longrightarrow> ix1 \<noteq> None))"
  using assms
proof (induction bs arbitrary: st ix0 i)
  case Nil
  then show ?case using card_amount_le [OF Nil(1), of p] by simp
next
  case (Cons b bs)
  have base: "card {k. undo_amount st p k \<noteq> 0} \<le> SEMUME \<and> finite {k. undo_amount st p k \<noteq> 0}"
    using card_amount_le [OF Cons.prems(1)] by auto
  have lift: ?case
    if eq: "adjust_undos p semid ix0 (b # bs) i st = adjust_undos p semid ix2 bs (Suc i) st2"
      and i2: "undo_inv st2" "holds_undo st2 p ix2" "ix0 \<noteq> None \<longrightarrow> ix2 = ix0" "\<not> undo_skip b \<longrightarrow> ix2 \<noteq> None"
      and t: "same_tables st st2"
      and am: "\<And>q k. undo_amount st2 q k = undo_amount st q k + (if q = p then undo_delta semid [b] k else 0)" for ix2 st2
  proof -
    have "\<And>b'. b' \<in> set bs \<Longrightarrow> recordable st2 semid b'" using Cons.prems(3) recordable_tables [OF t] by simp
    from Cons.IH [OF i2(1,2) this, of "Suc i"] obtain r ix1 st' where IH: "adjust_undos p semid ix2 bs (Suc i) st2 = Some (r, ix1, st')"
      "undo_inv st'" "holds_undo st' p ix1" "ix2 \<noteq> None \<longrightarrow> ix1 = ix2"
      "let m = (case r of None \<Rightarrow> length bs | Some (e, j) \<Rightarrow> j - Suc i) in
       m \<le> length bs \<and> (\<forall>e j. r = Some (e, j) \<longrightarrow> Suc i \<le> j \<and> j < Suc i + length bs) \<and>
       (\<forall>q k. undo_amount st' q k = undo_amount st2 q k + (if q = p then undo_delta semid (take m bs) k else 0)) \<and>
       (\<forall>n \<le> m. card {k. undo_amount st2 p k + undo_delta semid (take n bs) k \<noteq> 0} \<le> SEMUME \<and>
          finite {k. undo_amount st2 p k + undo_delta semid (take n bs) k \<noteq> 0}) \<and>
       ((\<exists>b \<in> set (take m bs). \<not> undo_skip b) \<longrightarrow> ix1 \<noteq> None)" by blast
    define m where "m = (case r of None \<Rightarrow> length bs | Some (e, j) \<Rightarrow> j - Suc i)"
    note IH5 = IH(5) [folded m_def, unfolded Let_def]
    have m: "(case r of None \<Rightarrow> length (b # bs) | Some (e, j) \<Rightarrow> j - i) = Suc m"
      using IH5 by (auto simp: m_def split: option.splits prod.splits)
    have bound: "card {k. undo_amount st p k + undo_delta semid (take n (b # bs)) k \<noteq> 0} \<le> SEMUME \<and>
        finite {k. undo_amount st p k + undo_delta semid (take n (b # bs)) k \<noteq> 0}" if "n \<le> Suc m" for n
    proof (cases n)
      case (Suc n')
      then have "n' \<le> m" using that by simp
      moreover have "undo_amount st p k + undo_delta semid (take n (b # bs)) k = undo_amount st2 p k + undo_delta semid (take n' bs) k" for k
        by (simp add: Suc am)
      ultimately show ?thesis using IH5 by simp
    qed (use base in simp)
    have "ix0 \<noteq> None \<longrightarrow> ix1 = ix0" using IH(4) i2(3) by auto
    moreover have "\<forall>e j. r = Some (e, j) \<longrightarrow> i \<le> j \<and> j < i + length (b # bs)" using IH5 by fastforce
    moreover have "\<forall>q k. undo_amount st' q k = undo_amount st q k + (if q = p then undo_delta semid (take (Suc m) (b # bs)) k else 0)"
      using IH5 am by simp
    moreover have "(\<exists>b \<in> set (take (Suc m) (b # bs)). \<not> undo_skip b) \<longrightarrow> ix1 \<noteq> None"
      using IH5 IH(4) i2(4) by auto
    moreover have "Suc m \<le> length (b # bs)" using IH5 by simp
    ultimately show ?thesis
      unfolding eq IH(1) Let_def using IH(2,3) bound
      by (intro exI [of _ r] exI [of _ ix1] exI [of _ st'] conjI refl) (blast | (subst m, blast))+
  qed
  show ?case
  proof (cases "undo_skip b")
    case True
    then show ?thesis by (intro lift [of ix0 st]) (use Cons.prems in auto)
  next
    case False
    have rb: "recordable st semid b" using Cons.prems(3) by simp
    have a: "word_of_int (- sint (sem_op b)) \<noteq> (0 :: u16)" using False by (simp add: op_word undo_skip_def)
    obtain e ix2 st2 where ad: "semundo_adjust p ix0 semid (uint (sem_num b)) (- sint (sem_op b)) st = Some (e, ix2, st2)"
      "undo_inv st2" "holds_undo st2 p ix2" "ix0 \<noteq> None \<longrightarrow> ix2 = ix0" "e = None \<longrightarrow> ix2 \<noteq> None"
      "\<And>q k. undo_amount st2 q k = undo_amount st q k + (if e = None \<and> q = p \<and> k = (semid, sem_num b) then - sem_op b else 0)"
      using adjust_spec [OF Cons.prems(1,2) recordable_num [OF rb] a, unfolded op_word sem_key_num] by blast
    have t: "same_tables st st2" using same_tables_adjust [OF ad(1)] .
    show ?thesis
    proof (cases e)
      case None
      then show ?thesis using ad False t by (intro lift [of ix2 st2]) auto
    next
      case (Some x)
      then have "adjust_undos p semid ix0 (b # bs) i st = Some (Some (x, i), ix2, st2)" using ad(1) False by simp
      then show ?thesis using ad Some base
        by (intro exI [of _ "Some (x, i)"] exI [of _ ix2] exI [of _ st2]) (simp add: Let_def)
    qed
  qed
qed

text \<open>An allocator that does not fail stays so.\<close>

lemma mem_scan: "semundo_scan si semid n a st = Some (e, ix1, st') \<Longrightarrow> mem st = [] \<Longrightarrow> mem st' = []"
  by (auto simp: semundo_scan_def adjust_ent_def add_ent_def malloc_def Let_def set_semu_def
      split: option.splits if_splits prod.splits)

lemma unroll_spec:
  assumes "m \<le> length bs" and "undo_inv st" and "holds_undo st p ix0" and "mem st = []"
    and "\<And>b. b \<in> set bs \<Longrightarrow> recordable st semid b"
    and "(\<exists>b \<in> set (take m bs). \<not> undo_skip b) \<longrightarrow> ix0 \<noteq> None"
    and "\<And>q k. undo_amount st q k = A q k + (if q = p then undo_delta semid (take m bs) k else 0)"
    and "\<And>n. n \<le> m \<Longrightarrow> card {k. A p k + undo_delta semid (take n bs) k \<noteq> 0} \<le> SEMUME \<and>
        finite {k. A p k + undo_delta semid (take n bs) k \<noteq> 0}"
  shows "\<exists>st'. unroll_undos p semid ix0 (rev (take m bs)) st = Some st' \<and> undo_inv st' \<and> mem st' = [] \<and>
    (\<forall>q k. undo_amount st' q k = A q k)"
  using assms
proof (induction m arbitrary: st)
  case 0
  then show ?case by simp
next
  case (Suc m)
  let ?b = "bs ! m"
  have tk: "take (Suc m) bs = take m bs @ [?b]" using Suc.prems(1) by (simp add: take_Suc_conv_app_nth)
  have rb: "recordable st semid ?b" using Suc.prems(1,5) by simp
  show ?case
  proof (cases "undo_skip ?b")
    case True
    have "\<exists>st'. unroll_undos p semid ix0 (rev (take m bs)) st = Some st' \<and> undo_inv st' \<and> mem st' = [] \<and>
        (\<forall>q k. undo_amount st' q k = A q k)"
      by (rule Suc.IH) (use Suc.prems True in \<open>auto simp: tk\<close>)
    then show ?thesis using True by (simp add: tk)
  next
    case False
    then obtain si where si: "ix0 = Some si" using Suc.prems(6) by (auto simp: tk)
    have a: "word_of_int (sint (sem_op ?b)) \<noteq> (0 :: u16)" using False by (simp add: op_word undo_skip_def)
    obtain e ix2 st2 where ad: "semundo_adjust p ix0 semid (uint (sem_num ?b)) (sint (sem_op ?b)) st = Some (e, ix2, st2)"
      "undo_inv st2" "holds_undo st2 p ix2" "ix2 = ix0"
      "\<And>q k. undo_amount st2 q k = undo_amount st q k + (if e = None \<and> q = p \<and> k = (semid, sem_num ?b) then sem_op ?b else 0)"
      "e \<noteq> None \<longrightarrow> undo_amount st p (semid, sem_num ?b) = 0 \<and> card {k. undo_amount st p k \<noteq> 0} = SEMUME"
      using adjust_spec [OF Suc.prems(2,3) recordable_num [OF rb] a, unfolded op_word sem_key_num] si Suc.prems(4) by blast
    have t: "same_tables st st2" using same_tables_adjust [OF ad(1)] .
    have "e = None"
    proof (rule ccontr)
      assume "e \<noteq> None"
      let ?K = "{k. undo_amount st p k \<noteq> 0}" let ?k = "(semid, sem_num ?b)"
      have full: "undo_amount st p ?k = 0" "card ?K = SEMUME" using ad(6) \<open>e \<noteq> None\<close> by auto
      have prev: "A p k + undo_delta semid (take m bs) k = undo_amount st p k + (if k = ?k then sem_op ?b else 0)" for k
        using Suc.prems(7) [of p k] False by (auto simp: tk)
      have "{k. A p k + undo_delta semid (take m bs) k \<noteq> 0} = insert ?k ?K"
        using full(1) False unfolding prev by (auto simp: undo_skip_def)
      moreover have "finite ?K" "card {k. A p k + undo_delta semid (take m bs) k \<noteq> 0} \<le> SEMUME"
        using card_amount_le [OF Suc.prems(2), of p] Suc.prems(8) [of m] by auto
      ultimately show False using full by simp
    qed
    have "\<exists>st'. unroll_undos p semid ix0 (rev (take m bs)) st2 = Some st' \<and> undo_inv st' \<and> mem st' = [] \<and>
        (\<forall>q k. undo_amount st' q k = A q k)"
    proof (rule Suc.IH)
      show "mem st2 = []" using ad(1) si Suc.prems(4) mem_scan by (auto simp: semundo_adjust_def)
      show "undo_amount st2 q k = A q k + (if q = p then undo_delta semid (take m bs) k else 0)" for q k
        using Suc.prems(7) [of q k] ad(5) [of q k] \<open>e = None\<close> False by (auto simp: tk)
    qed (use Suc.prems ad si recordable_tables [OF t] in \<open>auto simp: tk\<close>)
    then show ?thesis using False ad(1,4) \<open>e = None\<close> si by (simp add: tk)
  qed
qed

lemma mem_alloc: "semu_alloc p st = Some (r, st') \<Longrightarrow> mem st = [] \<Longrightarrow> mem st' = []"
proof -
  have purge: "semu_purge st loc did = Some r \<Longrightarrow> mem (snd r) = mem st" for st loc did r
  proof -
    assume "semu_purge st loc did = Some r"
    then show "mem (snd r) = mem st"
    proof (rule semu_purge.raw_induct [where P = "\<lambda>st loc did r. mem (snd r) = mem st", rotated])
    qed (auto split: option.splits if_splits simp: set_link_def set_semu_def)
  qed
  assume "semu_alloc p st = Some (r, st')" "mem st = []"
  then show "mem st' = []"
    by (auto simp: semu_alloc_def semu_take_def set_semu_def grow_semu_array_def malloc_def Let_def
        split: option.splits if_splits prod.splits dest!: purge)
qed

lemma mem_adjust: "semundo_adjust p ix0 semid n a st = Some (e, ix1, st') \<Longrightarrow> mem st = [] \<Longrightarrow> mem st' = []"
  by (auto simp: semundo_adjust_def split: option.splits if_splits prod.splits dest: mem_scan mem_alloc)

lemma mem_adjust_undos: "adjust_undos p semid ix0 bs i st = Some (r, ix1, st') \<Longrightarrow> mem st = [] \<Longrightarrow> mem st' = []"
  by (induction p semid ix0 bs i st rule: adjust_undos.induct)
    (auto split: if_splits option.splits prod.splits dest: mem_adjust)

section \<open>A turn of semop\<close>

fun res_state :: "semop_result \<Rightarrow> sysvsem" where
  "res_state (Returns e st) = st"
| "res_state (Sleeps i und st) = st"

lemma undo_frame:
  assumes "semu st' = semu st" "semu_list_idx st' = semu_list_idx st" "same_ids st st'"
  shows "undo_inv st' \<longleftrightarrow> undo_inv st" and "undo_amount st' p k = undo_amount st p k"
proof -
  have l: "link_at st' = link_at st" using assms(1,2) by (auto simp: link_at_def fun_eq_iff split: option.split)
  have ch: "chain st' loc js \<longleftrightarrow> chain st loc js" for loc js
    by (induction js arbitrary: loc) (simp_all add: l assms(1))
  have v: "valid_ent st' e \<longleftrightarrow> valid_ent st e" for e
    using same_ids_layout(1,2) [OF assms(3)] by (auto simp: valid_ent_def)
  show "undo_inv st' \<longleftrightarrow> undo_inv st"
    unfolding undo_inv_def chain_inv_def ents_valid_def ch v by (simp add: assms(1))
  show "undo_amount st' p k = undo_amount st p k" by (simp add: undo_amount_def assms(1))
qed

lemma undo_delta_rev [simp]: "undo_delta semid (rev bs) k = undo_delta semid bs k"
  by (induction bs) (simp_all add: add.commute)

text \<open>Taking undos back, when it succeeds, takes back exactly what was recorded; no assumption on the
  allocator is needed.\<close>

lemma unroll_inv:
  assumes "unroll_undos p semid ix0 bs st = Some st'" and "undo_inv st" and "holds_undo st p ix0"
    and "\<And>b. b \<in> set bs \<Longrightarrow> recordable st semid b"
  shows "undo_inv st' \<and>
    (\<forall>q k. undo_amount st' q k + (if q = p then undo_delta semid bs k else 0) = undo_amount st q k)"
  using assms
proof (induction bs arbitrary: st ix0)
  case (Cons b bs)
  show ?case
  proof (cases "undo_skip b")
    case False
    have rb: "recordable st semid b" using Cons.prems(4) by simp
    have a: "word_of_int (sint (sem_op b)) \<noteq> (0 :: u16)" using False by (simp add: op_word undo_skip_def)
    obtain e ix2 st2 where ad: "semundo_adjust p ix0 semid (uint (sem_num b)) (sint (sem_op b)) st = Some (e, ix2, st2)"
      "undo_inv st2" "holds_undo st2 p ix2"
      "\<And>q k. undo_amount st2 q k = undo_amount st q k + (if e = None \<and> q = p \<and> k = (semid, sem_num b) then sem_op b else 0)"
      using adjust_spec [OF Cons.prems(2,3) recordable_num [OF rb] a, unfolded op_word sem_key_num] by blast
    from ad(1) Cons.prems(1) False have e: "e = None" and u: "unroll_undos p semid ix2 bs st2 = Some st'"
      by (auto split: option.splits)
    have IH: "undo_inv st' \<and>
        (\<forall>q k. undo_amount st' q k + (if q = p then undo_delta semid bs k else 0) = undo_amount st2 q k)"
      by (rule Cons.IH [OF u ad(2,3)]) (use Cons.prems(4) recordable_tables [OF same_tables_adjust [OF ad(1)]] in simp)
    have "undo_amount st' q k + (if q = p then undo_delta semid (b # bs) k else 0) = undo_amount st q k" for q k
    proof -
      have "undo_amount st' q k + (if q = p then undo_delta semid bs k else 0)
          = undo_amount st q k + (if q = p \<and> k = (semid, sem_num b) then sem_op b else 0)"
        using IH [THEN conjunct2, THEN spec, THEN spec, of q k] e ad(4) [of q k] by simp
      then show ?thesis using False
        by (cases "q = p"; cases "k = (semid, sem_num b)") (simp_all add: algebra_simps)
    qed
    then show ?thesis using IH by blast
  next
    case True
    have "undo_inv st' \<and>
        (\<forall>q k. undo_amount st' q k + (if q = p then undo_delta semid bs k else 0) = undo_amount st q k)"
      by (rule Cons.IH [OF _ Cons.prems(2,3)]) (use Cons.prems(1,4) True in simp_all)
    moreover have "undo_delta semid (b # bs) = undo_delta semid bs" using True by (intro ext) simp
    ultimately show ?thesis by metis
  qed
qed auto

lemma finish_turn:
  assumes "set_pids p base sops st = Some st1"
    and "\<And>b. b \<in> set sops \<Longrightarrow> base + unat (sem_num b) < length (sem_pool st)" and "semid < length (sema st)"
  shows "same_ids st (if wk then wakeup semid (set_otime semid now st1) else set_otime semid now st1)"
    and "semu st1 = semu st" "semu_list_idx st1 = semu_list_idx st"
proof -
  obtain pool where "st1 = st\<lparr>sem_pool := pool\<rparr>" "length pool = length (sem_pool st)"
    using set_pids_exists [of sops base st p] assms(1,2) by (auto simp: same_but_pid_def)
  then show "same_ids st (if wk then wakeup semid (set_otime semid now st1) else set_otime semid now st1)"
    "semu st1 = semu st" "semu_list_idx st1 = semu_list_idx st"
    using assms(3) by (auto simp: same_ids_def wakeup_def set_otime_def nth_list_update allocated_def)
qed

lemma undo_delta_skip: "\<forall>b \<in> set bs. undo_skip b \<Longrightarrow> undo_delta semid bs k = 0"
  by (induction bs) auto

text \<open>What a turn has done to the records: a call that returns 0 has recorded the negated
  \<open>SEM_UNDO\<close> operations of its vector for its process, any other outcome nothing.\<close>

definition undo_exact :: "proc \<Rightarrow> nat \<Rightarrow> sembuf list \<Rightarrow> sysvsem \<Rightarrow> semop_result \<Rightarrow> bool" where
  "undo_exact p semid sops st r \<longleftrightarrow> (\<forall>q k. undo_amount (res_state r) q k = undo_amount st q k +
     (case r of Returns None st' \<Rightarrow> if q = p then undo_delta semid sops k else 0 | _ \<Rightarrow> 0))"

lemma done_undo:
  assumes inv: "undo_inv st" and base: "\<And>b. b \<in> set sops \<Longrightarrow> base + unat (sem_num b) < length (sem_pool st)"
    and semid: "semid < length (sema st)" and rec: "\<And>b. b \<in> set sops \<Longrightarrow> recordable st semid b"
    and und: "\<not> und \<Longrightarrow> \<forall>b \<in> set sops. undo_skip b"
    and d_def: "d = semop_done p semid base sops now wk und (st\<lparr>sem_pool := add_ops base sops (sem_pool st)\<rparr>)"
  shows "d = Some r \<Longrightarrow> undo_inv (res_state r) \<and> undo_exact p semid sops st r"
    and "mem st = [] \<Longrightarrow> \<exists>r. d = Some r"
proof -
  let ?st = "st\<lparr>sem_pool := add_ops base sops (sem_pool st)\<rparr>"
  define finish where "finish = (\<lambda>st. map_option (\<lambda>st. Returns None (if wk then wakeup semid (set_otime semid now st)
      else set_otime semid now st)) (set_pids p base sops st))"
  have ids: "same_ids st ?st" by (simp add: same_ids_def)
  have inv0: "undo_inv ?st" and am0: "\<And>q k. undo_amount ?st q k = undo_amount st q k"
    using undo_frame [OF _ _ ids] inv by auto
  have rec0: "\<And>b. b \<in> set sops \<Longrightarrow> recordable ?st semid b"
    using rec same_ids_layout [OF ids] by (auto simp: recordable_def)
  have fin: "\<exists>st'. finish st1 = Some (Returns None st') \<and> undo_inv st' \<and> (\<forall>q k. undo_amount st' q k = undo_amount st1 q k)"
    if t: "same_tables ?st st1" and i1: "undo_inv st1" for st1
  proof -
    have b1: "\<And>b. b \<in> set sops \<Longrightarrow> base + unat (sem_num b) < length (sem_pool st1)" and s1: "semid < length (sema st1)"
      using t base semid by (auto simp: same_tables_def)
    obtain pool where pool: "set_pids p base sops st1 = Some (st1\<lparr>sem_pool := pool\<rparr>)"
      using set_pids_exists [OF b1] by blast
    note ft = finish_turn [OF pool b1 s1]
    let ?r = "if wk then wakeup semid (set_otime semid now (st1\<lparr>sem_pool := pool\<rparr>)) else set_otime semid now (st1\<lparr>sem_pool := pool\<rparr>)"
    have "semu ?r = semu st1" "semu_list_idx ?r = semu_list_idx st1" by (simp_all add: wakeup_def set_otime_def)
    from undo_frame [OF this ft(1)] show ?thesis using pool i1 by (auto simp: finish_def)
  qed
  note at = adjust_undos_spec [where bs = sops and p = p and i = 0 and semid = semid and ?ix0.0 = None, OF inv0 _ rec0]
  have d_eq: "d = (if \<not> und then finish ?st
      else (case adjust_undos p semid None sops 0 ?st of None \<Rightarrow> None | Some (None, _, st) \<Rightarrow> finish st
        | Some (Some (e, i), ix, st) \<Rightarrow> (case unroll_undos p semid ix (rev (take i sops)) st of None \<Rightarrow> None
            | Some st \<Rightarrow> map_option (Returns (Some e)) (sem_rollback base sops st))))"
    unfolding d_def semop_done_def finish_def Let_def by (rule refl)
  have main: "(d = Some r \<longrightarrow> undo_inv (res_state r) \<and> undo_exact p semid sops st r) \<and> (mem st = [] \<longrightarrow> (\<exists>r. d = Some r))"
  proof (cases und)
    case False
    obtain st' where "finish ?st = Some (Returns None st')" "undo_inv st'" "\<forall>q k. undo_amount st' q k = undo_amount ?st q k"
      using fin [OF _ inv0] by auto
    then show ?thesis using False am0 undo_delta_skip [OF und [OF False]] unfolding d_eq by (auto simp: undo_exact_def)
  next
    case True
    obtain r0 ix1 st1 where ad: "adjust_undos p semid None sops 0 ?st = Some (r0, ix1, st1)" "undo_inv st1" "holds_undo st1 p ix1"
      and spec: "let m = (case r0 of None \<Rightarrow> length sops | Some (e, j) \<Rightarrow> j - 0) in
       m \<le> length sops \<and> (\<forall>e j. r0 = Some (e, j) \<longrightarrow> 0 \<le> j \<and> j < 0 + length sops) \<and>
       (\<forall>q k. undo_amount st1 q k = undo_amount ?st q k + (if q = p then undo_delta semid (take m sops) k else 0)) \<and>
       (\<forall>n \<le> m. card {k. undo_amount ?st p k + undo_delta semid (take n sops) k \<noteq> 0} \<le> SEMUME \<and>
          finite {k. undo_amount ?st p k + undo_delta semid (take n sops) k \<noteq> 0}) \<and>
       ((\<exists>b \<in> set (take m sops). \<not> undo_skip b) \<longrightarrow> ix1 \<noteq> None)"
      using at by (auto simp: holds_undo_def)
    have t: "same_tables ?st st1" using same_tables_adjust_undos [OF ad(1)] .
    have rec1: "\<And>b. b \<in> set sops \<Longrightarrow> recordable st1 semid b" using rec0 recordable_tables [OF t] by simp
    show ?thesis
    proof (cases r0)
      case None
      obtain st' where "finish st1 = Some (Returns None st')" "undo_inv st'" "\<forall>q k. undo_amount st' q k = undo_amount st1 q k"
        using fin [OF t ad(2)] by auto
      moreover have "undo_amount st1 q k = undo_amount ?st q k + (if q = p then undo_delta semid sops k else 0)" for q k
        using spec unfolding None Let_def option.case take_all [OF order_refl] by blast
      ultimately show ?thesis using True ad(1) None am0 unfolding d_eq by (auto simp: undo_exact_def)
    next
      case (Some ej)
      then obtain e j where r0: "r0 = Some (e, j)" by (cases ej) auto
      note sp = spec [unfolded r0 Let_def option.case prod.case diff_zero]
      have deq: "d = (case unroll_undos p semid ix1 (rev (take j sops)) st1 of None \<Rightarrow> None
            | Some st \<Rightarrow> map_option (Returns (Some e)) (sem_rollback base sops st))"
        using True ad(1) r0 unfolding d_eq by simp
      have rb: "sem_rollback base sops st2 = Some (st2\<lparr>sem_pool := sem_pool st\<rparr>)"
        if "unroll_undos p semid ix1 (rev (take j sops)) st1 = Some st2" for st2
        using rollback_add_ops [of sops base "sem_pool st" st2] base
          same_tables_trans [OF t same_tables_unroll_undos [OF that]] by (simp add: same_tables_def)
      have res: "same_ids st2 (st2\<lparr>sem_pool := sem_pool st\<rparr>)"
        if "unroll_undos p semid ix1 (rev (take j sops)) st1 = Some st2" for st2
        using same_tables_trans [OF t same_tables_unroll_undos [OF that]] by (simp add: same_tables_def same_ids_def)
      have "d = Some r \<longrightarrow> undo_inv (res_state r) \<and> undo_exact p semid sops st r"
      proof
        assume "d = Some r"
        then obtain st2 where st2: "unroll_undos p semid ix1 (rev (take j sops)) st1 = Some st2"
          "r = Returns (Some e) (st2\<lparr>sem_pool := sem_pool st\<rparr>)" using deq rb by (auto split: option.splits)
        have u2: "undo_inv st2 \<and> (\<forall>q k. undo_amount st2 q k + (if q = p then undo_delta semid (rev (take j sops)) k else 0)
            = undo_amount st1 q k)"
          by (rule unroll_inv [OF st2(1) ad(2,3)]) (use rec1 in \<open>auto dest: in_set_takeD\<close>)
        have am2: "undo_amount st2 q k = undo_amount st q k" for q k
        proof -
          have "undo_amount st2 q k + (if q = p then undo_delta semid (take j sops) k else 0)
              = undo_amount ?st q k + (if q = p then undo_delta semid (take j sops) k else 0)"
            using u2 sp by (simp only: undo_delta_rev)
          then show ?thesis using am0 by simp
        qed
        have "undo_inv (res_state r)" using undo_frame(1) [OF _ _ res [OF st2(1)]] st2(2) u2 by simp
        moreover have "undo_exact p semid sops st r"
          using undo_frame(2) [OF _ _ res [OF st2(1)]] st2(2) am2 by (simp add: undo_exact_def)
        ultimately show "undo_inv (res_state r) \<and> undo_exact p semid sops st r" by blast
      qed
      moreover have "\<exists>r. d = Some r" if "mem st = []"
      proof -
        have "mem st1 = []" using that mem_adjust_undos [OF ad(1)] by simp
        then obtain st2 where st2: "unroll_undos p semid ix1 (rev (take j sops)) st1 = Some st2"
          "\<forall>q k. undo_amount st2 q k = undo_amount ?st q k"
          using unroll_spec [of j sops st1 p ix1 semid "\<lambda>q k. undo_amount ?st q k", OF _ ad(2,3) _ rec1] sp by blast
        then show ?thesis using deq rb [OF st2(1)] by auto
      qed
      ultimately show ?thesis by blast
    qed
  qed
  then show "d = Some r \<Longrightarrow> undo_inv (res_state r) \<and> undo_exact p semid sops st r" by blast
  show "mem st = [] \<Longrightarrow> \<exists>r. d = Some r" using main by blast
qed

lemma turn_same_ids:
  assumes "turn_spec semid sops st r" and "live st semid"
  shows "same_ids st (res_state r)"
proof (cases r)
  case (Returns e st')
  show ?thesis
  proof (cases e)
    case None
    with assms Returns obtain now where "sema st' = (sema st)[semid := (sema st ! semid)\<lparr>sem_otime := now\<rparr>]"
      "length (sem_pool st') = length (sem_pool st)" "semtot st' = semtot st" by (auto simp: same_but_pid_def)
    then show ?thesis using Returns assms(2) by (auto simp: same_ids_def nth_list_update allocated_def live_def)
  next
    case (Some x)
    with assms Returns show ?thesis by (auto simp: same_tables_def same_ids_def)
  qed
next
  case (Sleeps i u st')
  with assms show ?thesis by (auto simp: same_ids_def Let_def)
qed

lemma recordable_passes:
  assumes "passes b (sem_nsems (sema st ! semid)) sops pool (length sops)" and "live st semid" "nsem st semid \<le> 32768"
    and "op \<in> set sops"
  shows "recordable st semid op"
proof -
  obtain k where "k < length sops" "op = sops ! k" using assms(4) by (auto simp: in_set_conv_nth)
  then show ?thesis using assms(1-3) by (auto simp: recordable_def passes_def nsem_def word_less_nat_alt)
qed

lemma attempt_undo:
  assumes inv: "pool_inv st" and uinv: "undo_inv st" and live: "live st semid" and small: "nsem st semid \<le> 32768"
    and und: "und \<Longrightarrow> \<exists>b \<in> set sops. \<not> undo_skip b"
  shows "semop_attempt p semid sops now und st = Some r \<Longrightarrow> undo_inv (res_state r) \<and> undo_exact p semid sops st r"
    and "mem st = [] \<Longrightarrow> \<exists>r. semop_attempt p semid sops now und st = Some r"
proof -
  let ?d = "sema st ! semid" let ?base = "base_of st semid"
  have room: "?base + unat (sem_nsems ?d) \<le> length (sem_pool st)"
    using pool_invD(1) [OF inv] pool_invD(3) [OF inv live] by (simp add: nsem_def)
  obtain r1 where r1: "semop_pass ?base (sem_nsems ?d) sops 0 False und st = Some r1"
    "pass_spec ?base (sem_nsems ?d) sops 0 False und st r1"
    using semop_pass_spec [OF room] by blast
  have bd: "sem_base ?d = ?base" by (simp add: base_of_def)
  have main: "(semop_attempt p semid sops now und st = Some r \<longrightarrow> undo_inv (res_state r) \<and> undo_exact p semid sops st r) \<and>
    (mem st = [] \<longrightarrow> (\<exists>r. semop_attempt p semid sops now und st = Some r))"
  proof (cases r1)
    case (Through st1 wk und1)
    with r1 have p: "passes ?base (sem_nsems ?d) sops (sem_pool st) (length sops)"
      and und1: "und1 \<longleftrightarrow> und \<or> (\<exists>b \<in> set sops. \<not> undo_skip b)" by auto
    have eq: "semop_attempt p semid sops now und st =
        semop_done p semid ?base sops now wk und1 (st\<lparr>sem_pool := add_ops ?base sops (sem_pool st)\<rparr>)"
      using r1 Through bd by (simp add: semop_attempt_def Let_def)
    have 1: "\<And>b. b \<in> set sops \<Longrightarrow> ?base + unat (sem_num b) < length (sem_pool st)"
      using passes_in_pool [OF p _ room] by simp
    have 2: "semid < length (sema st)" using live by (simp add: live_def)
    have 4: "\<forall>b \<in> set sops. undo_skip b" if "\<not> und1" using that und1 by auto
    note du = done_undo [OF uinv 1 2 recordable_passes [OF p live small] 4 eq]
    show ?thesis using du by blast
  next
    case (Too_big st1)
    with r1 obtain m where m: "st1 = st\<lparr>sem_pool := add_ops ?base (take m sops) (sem_pool st)\<rparr>" by auto
    have ids: "same_ids st st1" by (simp add: m same_ids_def)
    have "semop_attempt p semid sops now und st = Some (Returns (Some EFBIG) st1)"
      using r1 Too_big bd by (simp add: semop_attempt_def Let_def)
    then show ?thesis using undo_frame [OF _ _ ids] uinv by (auto simp: m undo_exact_def)
  next
    case (Blocked st1 i und1)
    with r1(2) have i: "i < length sops" and pi: "passes ?base (sem_nsems ?d) sops (sem_pool st) i"
      and num: "sem_num (sops ! i) < sem_nsems ?d"
      and st1: "st1 = st\<lparr>sem_pool := add_ops ?base (take i sops) (sem_pool st)\<rparr>" by auto
    have rb: "sem_rollback ?base (take i sops) st1 = Some st"
      using rollback_add_ops [of "take i sops" ?base "sem_pool st" st1] passes_in_pool [OF pi _ room] i st1 by simp
    have j: "?base + unat (sem_num (sops ! i)) < length (sem_pool st)"
      using num room by (simp add: word_less_nat_alt)
    let ?st2 = "st\<lparr>sem_pool := (sem_pool st)[?base + unat (sem_num (sops ! i)) :=
          bump (sops ! i) (sem_pool st ! (?base + unat (sem_num (sops ! i))))]\<rparr>"
    have ids: "same_ids st ?st2" by (simp add: same_ids_def)
    have "semop_attempt p semid sops now und st =
        (if sem_flg (sops ! i) AND IPC_NOWAIT \<noteq> 0 then Some (Returns (Some EAGAIN) st) else Some (Sleeps i und1 ?st2))"
      using r1(1) Blocked bd rb j by (auto simp: semop_attempt_def Let_def bump_def sem_put_num)
    then show ?thesis using undo_frame [OF _ _ ids] uinv by (auto simp: undo_exact_def)
  qed
  then show "semop_attempt p semid sops now und st = Some r \<Longrightarrow> undo_inv (res_state r) \<and> undo_exact p semid sops st r"
    by blast
  show "mem st = [] \<Longrightarrow> \<exists>r. semop_attempt p semid sops now und st = Some r" using main by blast
qed

text \<open>C11: a turn of \<open>semop\<close>, the first one or one after a sleep (the flag \<open>und\<close> that it carries over is
  set only when the vector has an operation to undo), in well-formed tables on an existing set of at most
  32768 semaphores. It panics only when the allocator fails. When it returns 0 it has subtracted
  its \<open>SEM_UNDO\<close> operations from the amounts that are added when its process exits, each under the key of
  its semaphore; when it fails or sleeps, whatever the allocator answered on the way and even when an undo
  structure was found full in the middle of the vector, no amount of any process has changed.\<close>

theorem semop_undo_exact:
  assumes "pool_inv st" and "undo_inv st" and "live st semid" and "nsem st semid \<le> 32768"
    and "und \<Longrightarrow> \<exists>b \<in> set sops. \<not> undo_skip b"
  shows "case semop_attempt p semid sops now und st of
      None \<Rightarrow> mem st \<noteq> []
    | Some r \<Rightarrow> undo_inv (res_state r) \<and>
        (\<forall>q k. undo_amount (res_state r) q k = undo_amount st q k +
           (case r of Returns None st' \<Rightarrow> if q = p then undo_delta semid sops k else 0 | _ \<Rightarrow> 0))"
proof -
  note turn = attempt_undo [of st semid und sops p now, OF assms(1-4), unfolded undo_exact_def]
  show ?thesis
  proof (cases "semop_attempt p semid sops now und st")
    case None
    with turn(2) assms(5) show ?thesis by auto
  next
    case (Some r)
    with turn(1) [of r] assms(5) show ?thesis by simp
  qed
qed

definition full_example :: sysvsem where
  "full_example = sem_example\<lparr>semu_list_idx := Some 0,
     semu := [\<lparr>un_next_idx = None, un_proc = Some 1, un_cnt = 1, un_ent = [\<lparr>une_adjval = 2, une_num = 0, une_id = 0\<rparr>]\<rparr>]\<rparr>"

lemma full_example_inv: "pool_inv full_example" "undo_inv full_example" "live full_example 0"
  "nsem full_example 0 \<le> 32768" "mem full_example = []"
proof -
  have ids: "same_ids sem_example full_example" by (simp add: same_ids_def full_example_def)
  note l = same_ids_layout [OF ids]
  show "pool_inv full_example" using l(4) pool_inv_example by simp
  show live: "live full_example 0" using l(1) by (simp add: live_example)
  have two: "nsem sem_example 0 = 2" by (simp add: nsem_def sem_example_def)
  show n: "nsem full_example 0 \<le> 32768" using l(2) [of 0] two live_example by simp
  show "mem full_example = []" by (simp add: full_example_def sem_example_def)
  have "chain_inv full_example [0]"
    by (simp add: chain_inv_def link_at_def full_example_def undo_ok_def entries_ok_def SEMUME_def)
  moreover have "ents_valid full_example"
    using live l(2) [of 0] two live_example by (simp add: ents_valid_def valid_ent_def full_example_def)
  ultimately show "undo_inv full_example" by (auto simp: undo_inv_def)
qed

definition take_one :: "sembuf list" where
  "take_one = [\<lparr>sem_num = 0, sem_op = -1, sem_flg = SEM_UNDO\<rparr>]"

theorem semop_undo_exact_witness:
  "undo_amount full_example 1 (0, 0) = 2 \<and> undo_delta 0 take_one (0, 0) = 1 \<and>
   (case semop_attempt 1 0 take_one 7 True full_example of
      None \<Rightarrow> mem full_example \<noteq> []
    | Some r \<Rightarrow> undo_inv (res_state r) \<and>
        (\<forall>q k. undo_amount (res_state r) q k = undo_amount full_example q k +
           (case r of Returns None st' \<Rightarrow> if q = 1 then undo_delta 0 take_one k else 0 | _ \<Rightarrow> 0)))"
proof (intro conjI)
  show "undo_amount full_example 1 (0, 0) = 2" by (simp add: undo_amount_def full_example_def ent_key_def)
  show "undo_delta 0 take_one (0, 0) = 1" by (simp add: take_one_def undo_skip_def SEM_UNDO_def)
  show "case semop_attempt 1 0 take_one 7 True full_example of
      None \<Rightarrow> mem full_example \<noteq> []
    | Some r \<Rightarrow> undo_inv (res_state r) \<and>
        (\<forall>q k. undo_amount (res_state r) q k = undo_amount full_example q k +
           (case r of Returns None st' \<Rightarrow> if q = 1 then undo_delta 0 take_one k else 0 | _ \<Rightarrow> 0))"
    by (rule semop_undo_exact [OF full_example_inv(1-4)]) (simp add: take_one_def undo_skip_def SEM_UNDO_def)
qed

section \<open>Clearing the entries of a set\<close>

lemma clear_ents_spec:
  assumes "entries_ok es" and "n \<le> length es"
  shows "\<exists>es'. clear_ents semid k n es = Some es' \<and> entries_ok es' \<and> set es' \<subseteq> set es \<and> length es' \<le> length es \<and>
    (k = -1 \<and> n = length es \<longrightarrow> (\<forall>e \<in> set es'. une_id e \<noteq> semid))"
  using assms
proof (induction n arbitrary: es)
  case (Suc n)
  then obtain e as where es: "es = e # as" by (cases es) auto
  obtain as' where as': "clear_ents semid k n as = Some as'" "entries_ok as'" "set as' \<subseteq> set as" "length as' \<le> length as"
    "k = -1 \<and> n = length as \<longrightarrow> (\<forall>e \<in> set as'. une_id e \<noteq> semid)"
    using Suc.IH [of as] Suc.prems es by (simp add: entries_ok_def) blast
  have "entries_ok (e # as')" using Suc.prems(1) as'(2-4) es by (auto simp: entries_ok_def)
  then have keep: ?case if "une_id e \<noteq> semid"
    using that as' es by (intro exI [of _ "e # as'"]) auto
  show ?case
  proof (cases "une_id e = semid")
    case True
    show ?thesis
    proof (cases "k = -1 \<or> sint (une_num e) = k")
      case match: True
      then show ?thesis using True as' es by (intro exI [of _ as']) auto
    next
      case False
      then show ?thesis using True Suc.prems(1) es by (intro exI [of _ "e # as"]) auto
    qed
  qed (rule keep)
qed auto

lemma clear_from_spec:
  assumes "chain st loc js" and "\<And>i. i < length (semu st) \<Longrightarrow> undo_ok (semu st ! i)"
  shows "\<exists>st'. semundo_clear_from semid k st loc = Some st' \<and> length (semu st') = length (semu st) \<and>
    semu_list_idx st' = semu_list_idx st \<and>
    (\<forall>i < length (semu st). un_next_idx (semu st' ! i) = un_next_idx (semu st ! i) \<and>
       un_proc (semu st' ! i) = un_proc (semu st ! i) \<and> undo_ok (semu st' ! i) \<and>
       set (un_ent (semu st' ! i)) \<subseteq> set (un_ent (semu st ! i)) \<and>
       (i \<in> set js \<and> k = -1 \<longrightarrow> (\<forall>e \<in> set (un_ent (semu st' ! i)). une_id e \<noteq> semid)))"
  using assms
proof (induction js arbitrary: st loc)
  case Nil
  then show ?case by (subst semundo_clear_from.simps) simp
next
  case (Cons j js)
  let ?u = "semu st ! j"
  have j: "link_at st loc = Some (Some j)" "j < length (semu st)" "chain st (Some j) js" using Cons.prems(1) by auto
  have ok: "undo_ok ?u" using Cons.prems(2) j(2) .
  then obtain es where es: "clear_ents semid k (length (un_ent ?u)) (un_ent ?u) = Some es" "entries_ok es"
    "set es \<subseteq> set (un_ent ?u)" "length es \<le> length (un_ent ?u)" "k = -1 \<longrightarrow> (\<forall>e \<in> set es. une_id e \<noteq> semid)"
    using clear_ents_spec [of "un_ent ?u" "length (un_ent ?u)" semid k] by (auto simp: undo_ok_def)
  let ?v = "?u\<lparr>un_ent := es, un_cnt := un_cnt ?u - (length (un_ent ?u) - length es)\<rparr>"
  let ?st = "set_semu j ?v st"
  have okv: "undo_ok ?v" using ok es(2-4) by (auto simp: undo_ok_def)
  have semu: "semu ?st = (semu st)[j := ?v]" by (simp add: set_semu_def)
  have eq: "semundo_clear_from semid k st loc = semundo_clear_from semid k ?st (Some j)"
    using j ok es(1) by (subst semundo_clear_from.simps) (simp add: undo_ok_def)
  have c: "chain ?st (Some j) js"
  proof (rule chain_cong [OF _ _ _ j(3)])
    show "link_at ?st (Some j) = link_at st (Some j)" by (rule link_at_set_semu) simp
    show "un_next_idx (semu ?st ! i) = un_next_idx (semu st ! i)" for i
      using j(2) by (cases "i = j") (auto simp: semu)
  qed simp
  have "undo_ok (semu ?st ! i)" if "i < length (semu ?st)" for i
    using that okv Cons.prems(2) j(2) by (cases "i = j") (auto simp: semu)
  from Cons.IH [OF c this] obtain st' where st': "semundo_clear_from semid k ?st (Some j) = Some st'"
    "length (semu st') = length (semu st)" "semu_list_idx st' = semu_list_idx ?st"
    "\<forall>i < length (semu st). un_next_idx (semu st' ! i) = un_next_idx (semu ?st ! i) \<and>
       un_proc (semu st' ! i) = un_proc (semu ?st ! i) \<and> undo_ok (semu st' ! i) \<and>
       set (un_ent (semu st' ! i)) \<subseteq> set (un_ent (semu ?st ! i)) \<and>
       (i \<in> set js \<and> k = -1 \<longrightarrow> (\<forall>e \<in> set (un_ent (semu st' ! i)). une_id e \<noteq> semid))" by auto
  have "un_next_idx (semu st' ! i) = un_next_idx (semu st ! i) \<and>
       un_proc (semu st' ! i) = un_proc (semu st ! i) \<and> undo_ok (semu st' ! i) \<and>
       set (un_ent (semu st' ! i)) \<subseteq> set (un_ent (semu st ! i)) \<and>
       (i \<in> set (j # js) \<and> k = -1 \<longrightarrow> (\<forall>e \<in> set (un_ent (semu st' ! i)). une_id e \<noteq> semid))"
    if "i < length (semu st)" for i
    using st'(4) [rule_format, OF that] es(3,5) j(2) by (cases "i = j") (auto simp: semu)
  then show ?case unfolding eq using st' by (auto simp: set_semu_def)
qed

lemma clear_inv:
  assumes inv: "chain_inv st js"
  shows "\<exists>st'. semundo_clear semid k st = Some st' \<and> chain_inv st' js \<and>
    (\<forall>u \<in> set (semu st'). \<forall>e \<in> set (un_ent u). (\<exists>v \<in> set (semu st). e \<in> set (un_ent v)) \<and> (k = -1 \<longrightarrow> une_id e \<noteq> semid))"
proof -
  have c: "chain st None js" using inv by (simp add: chain_inv_def)
  obtain st' where st': "semundo_clear_from semid k st None = Some st'" "length (semu st') = length (semu st)"
    "semu_list_idx st' = semu_list_idx st"
    "\<And>i. i < length (semu st) \<Longrightarrow> un_next_idx (semu st' ! i) = un_next_idx (semu st ! i) \<and>
       un_proc (semu st' ! i) = un_proc (semu st ! i) \<and> undo_ok (semu st' ! i) \<and>
       set (un_ent (semu st' ! i)) \<subseteq> set (un_ent (semu st ! i)) \<and>
       (i \<in> set js \<and> k = -1 \<longrightarrow> (\<forall>e \<in> set (un_ent (semu st' ! i)). une_id e \<noteq> semid))"
    using clear_from_spec [OF c chain_inv_ok [OF inv], of semid k] by blast
  have "chain st' None js"
    by (rule chain_cong [OF _ _ _ c]) (use st' chain_bound [OF c] in \<open>auto simp: link_at_def\<close>)
  moreover have "inj_on (\<lambda>i. un_proc (semu st' ! i)) (set js)"
  proof (rule inj_onI)
    fix x y assume "x \<in> set js" "y \<in> set js" "un_proc (semu st' ! x) = un_proc (semu st' ! y)"
    then show "x = y" using inv st'(4) [OF chain_bound [OF c]] by (auto simp: chain_inv_def inj_on_def)
  qed
  ultimately have "chain_inv st' js"
    using inv st'(2,4) by (auto simp: chain_inv_def in_set_conv_nth)
  moreover have "(\<exists>v \<in> set (semu st). e \<in> set (un_ent v)) \<and> (k = -1 \<longrightarrow> une_id e \<noteq> semid)"
    if u: "u \<in> set (semu st')" and e: "e \<in> set (un_ent u)" for u e
  proof -
    obtain i where i: "i < length (semu st)" "u = semu st' ! i" using u st'(2) by (auto simp: in_set_conv_nth)
    have old: "e \<in> set (un_ent (semu st ! i))" using st'(4) [OF i(1)] e i(2) by auto
    then have "un_proc (semu st ! i) \<noteq> None" using chain_inv_ok [OF inv i(1)] by (auto simp: undo_ok_def)
    then have "i \<in> set js" using inv i(1) by (auto simp: chain_inv_def)
    then show ?thesis using st'(4) [OF i(1)] e i old by auto
  qed
  ultimately show ?thesis using st'(1) by (auto simp: semundo_clear_def)
qed

text \<open>
  Clearing the entries of one semaphore stops at the first entry for another semaphore of the same
  set: an entry behind it stays, and is applied when the process exits although \<open>SETVAL\<close> meant to
  cancel it.
\<close>

theorem clear_ents_stops:
  assumes "\<And>e. e \<in> set as \<Longrightarrow> une_id e \<noteq> semid" and "une_id x = semid" and "sint (une_num x) \<noteq> k" and "k \<noteq> -1"
    and "length as < n" and "n \<le> length (as @ x # bs)"
  shows "clear_ents semid k n (as @ x # bs) = Some (as @ x # bs)"
  using assms
proof (induction as arbitrary: n)
  case Nil
  then show ?case by (cases n) auto
next
  case (Cons a as)
  then show ?case by (cases n) auto
qed

theorem clear_ents_stops_witness:
  "clear_ents 0 1 2 [\<lparr>une_adjval = 2, une_num = 0, une_id = 0\<rparr>, \<lparr>une_adjval = 7, une_num = 1, une_id = 0\<rparr>] =
     Some [\<lparr>une_adjval = 2, une_num = 0, une_id = 0\<rparr>, \<lparr>une_adjval = 7, une_num = 1, une_id = 0\<rparr>]"
  using clear_ents_stops [of "[]" 0 "\<lparr>une_adjval = 2, une_num = 0, une_id = 0\<rparr>" 1 2 "[\<lparr>une_adjval = 7, une_num = 1, une_id = 0\<rparr>]"]
  by simp

section \<open>Exit\<close>

text \<open>The value the exit of a process leaves, for a value and the recorded amount.\<close>

definition exit_value :: "u16 \<Rightarrow> u16 \<Rightarrow> u16" where
  "exit_value v a = (if sint a < 0 \<and> uint v < - sint a then 0 else v + a)"

lemma exit_value_0 [simp]: "exit_value v 0 = v"
  by (simp add: exit_value_def)

lemma exit_ents_spec:
  assumes "pool_inv st" and "\<And>e. e \<in> set es \<Longrightarrow> valid_ent st e" and "distinct (map ent_key es)"
    and "\<And>i. live st i \<Longrightarrow> nsem st i \<le> 32768"
  shows "\<exists>st'. exit_ents es st = Some st' \<and> alters (une_id ` set es) st st' \<and> semu st' = semu st \<and>
    semu_list_idx st' = semu_list_idx st \<and> wakeups st' = wakeups st @ map une_id es \<and>
    (\<forall>i k. live st i \<longrightarrow> k < nsem st i \<longrightarrow>
       semval (sem_of st' i k) = exit_value (semval (sem_of st i k)) (amount es (i, of_nat k)))"
  using assms
proof (induction es arbitrary: st)
  case Nil
  then show ?case by simp
next
  case (Cons e es)
  let ?i = "une_id e" let ?n = "sint (une_num e)"
  have v: "live st ?i" "0 \<le> ?n" "?n < int (nsem st ?i)" using Cons.prems(2) [of e] by (auto simp: valid_ent_def)
  have n: "nat ?n < nsem st ?i" using v by linarith
  let ?s = "sem_of st ?i (nat ?n)"
  have at: "sem_at st (sem_base (sema st ! ?i)) ?n = Some ?s"
    using sem_at_slot [OF v(2) n Cons.prems(1) v(1)] by (simp add: base_of_def)
  define s' where "s' = ?s\<lparr>semval := exit_value (semval ?s) (une_adjval e)\<rparr>"
  let ?put = "sem_put (base_of st ?i) ?n s' st" let ?st = "wakeup ?i ?put"
  have put: "alters {?i} st ?put" by (rule put_alters [OF Cons.prems(1) v(1,2) n]) (simp_all add: s'_def)
  have al: "alters {?i} st ?st" using alters_trans [OF put, of ?st] alters_cong [of ?st ?put] by (simp add: wakeup_def)
  note l = same_ids_layout [OF al [unfolded alters_def, THEN conjunct1]]
  have of: "sem_of ?st i k = (if i = ?i \<and> k = nat ?n then s' else sem_of st i k)" if "live st i" "k < nsem st i" for i k
  proof -
    have "nat (int (base_of st ?i) + ?n) = base_of st ?i + nat ?n" using v(2) by (simp add: nat_add_distrib)
    then show ?thesis
      using slots_differ [OF Cons.prems(1) that(1) v(1) that(2) n] slot_in_pool [OF Cons.prems(1) that] l(3) [OF that(1)]
      by (auto simp: sem_of_def wakeup_def sem_put_def)
  qed
  have step: "exit_ents (e # es) st = exit_ents es ?st"
    using v at by (simp add: live_def nsem_def uint_nat [symmetric] not_le s'_def exit_value_def base_of_def Let_def)
  have "valid_ent ?st e'" if "e' \<in> set es" for e'
    using Cons.prems(2) [of e'] that l by (auto simp: valid_ent_def)
  then obtain st' where st': "exit_ents es ?st = Some st'" "alters (une_id ` set es) ?st st'" "semu st' = semu ?st"
    "semu_list_idx st' = semu_list_idx ?st" "wakeups st' = wakeups ?st @ map une_id es"
    "\<And>i k. live ?st i \<Longrightarrow> k < nsem ?st i \<Longrightarrow>
       semval (sem_of st' i k) = exit_value (semval (sem_of ?st i k)) (amount es (i, of_nat k))"
    using Cons.IH [of ?st] Cons.prems l by (auto simp: entries_ok_def)
  have "alters (une_id ` set (e # es)) st st'"
    by (rule alters_trans [of _ _ ?st]) (use al st'(2) in \<open>auto elim: alters_mono\<close>)
  moreover have "semval (sem_of st' i k) = exit_value (semval (sem_of st i k)) (amount (e # es) (i, of_nat k))"
    if ik: "live st i" "k < nsem st i" for i k
  proof -
    have key: "ent_key e = (i, of_nat k) \<longleftrightarrow> i = ?i \<and> k = nat ?n"
    proof -
      have "k < 32768" using Cons.prems(4) [OF ik(1)] ik(2) by linarith
      then have "sint (une_num e) = int k \<longleftrightarrow> une_num e = word_of_int (int k)" by (intro sint_eq_iff) auto
      then show ?thesis using v(2) by (auto simp: ent_key_def)
    qed
    have z: "amount es (ent_key e) = 0" using Cons.prems(3) amount_key [of es "ent_key e"] by fastforce
    have "semval (sem_of st' i k) = exit_value (semval (sem_of ?st i k)) (amount es (i, of_nat k))"
      using st'(6) ik l by simp
    then show ?thesis using of [OF ik] key z by (auto simp: s'_def)
  qed
  ultimately show ?case using step st' by (auto simp: wakeup_def sem_put_def)
qed

text \<open>Taking the structure of a process out of the chain.\<close>

lemma exit_chain:
  assumes inv: "chain_inv st js" and js: "js = xs @ i # ys" and len: "i < length (semu st)"
    and u': "un_next_idx u' = un_next_idx (semu st ! i)" "un_proc u' = None" "un_cnt u' = 0" "un_ent u' = []"
  defines "loc \<equiv> (if xs = [] then None else Some (last xs))"
  shows "chain_inv (set_link loc (un_next_idx (semu st ! i)) (set_semu i u' st)) (xs @ ys)"
proof -
  let ?st = "set_link loc (un_next_idx (semu st ! i)) (set_semu i u' st)"
  have c: "chain st None js" and d: "distinct js" using inv by (auto simp: chain_inv_def)
  have split: "chain st l (as @ bs) \<Longrightarrow> chain st (if as = [] then l else Some (last as)) bs" for l as bs
    by (induction as arbitrary: l) auto
  have glue: "chain st2 (if as = [] then l else Some (last as)) bs \<Longrightarrow> chain st l (as @ cs) \<Longrightarrow>
      length (semu st) = length (semu st2) \<Longrightarrow> (\<And>k. k \<in> set (butlast as) \<Longrightarrow> link_at st2 (Some k) = link_at st (Some k)) \<Longrightarrow>
      (as \<noteq> [] \<Longrightarrow> link_at st2 l = link_at st l) \<Longrightarrow> chain st2 l (as @ bs)" for st2 l as bs cs
  proof (induction as arbitrary: l)
    case (Cons a as)
    show ?case
    proof (cases as)
      case Nil
      then show ?thesis using Cons.prems by simp
    next
      case (Cons a' as')
      have "chain st2 (Some a) (as @ bs)"
        by (rule Cons.IH) (use Cons.prems Cons in auto)
      then show ?thesis using Cons.prems by simp
    qed
  qed simp
  have tail: "chain st loc (i # ys)" using split [of None xs "i # ys"] c js by (simp add: loc_def)
  have lk: "k \<notin> set (i # ys) \<and> k < length (semu st)" if "loc = Some k" for k
  proof -
    have "xs \<noteq> []" "k = last xs" using that by (auto simp: loc_def split: if_splits)
    then have "k \<in> set xs" by simp
    then show ?thesis using d js chain_bound [OF c, of k] by auto
  qed
  have c2: "chain ?st loc ys"
    using chain_unlink [OF tail _ lk, of u'] d js u'(1) by simp
  have other: "link_at ?st l = link_at st l" if "l \<noteq> loc" for l
    using link_at_other [OF that] link_at_set_semu [OF u'(1)] by simp
  have c3: "chain ?st None (xs @ ys)"
  proof (rule glue [of ?st xs None ys "i # ys"])
    show "chain ?st (if xs = [] then None else Some (last xs)) ys" using c2 by (simp add: loc_def)
    show "chain st None (xs @ i # ys)" using c js by simp
    show "link_at ?st (Some k) = link_at st (Some k)" if "k \<in> set (butlast xs)" for k
    proof (rule other)
      have "xs \<noteq> []" using that by auto
      then have "xs = butlast xs @ [last xs]" by simp
      then have "last xs \<notin> set (butlast xs)" using d js by (metis distinct_append distinct_append disjoint_insert(2) list.set(2) not_distinct_conv_prefix)
      then show "Some k \<noteq> loc" using that by (auto simp: loc_def)
    qed
    show "xs \<noteq> [] \<Longrightarrow> link_at ?st None = link_at st None" by (rule other) (simp add: loc_def)
  qed simp
  have at: "same_but_link (semu ?st ! k) (if k = i then u' else semu st ! k)" if "k < length (semu st)" for k
    using nth_set_link [of k "set_semu i u' st" loc "un_next_idx (semu st ! i)"] that len by (auto simp: set_semu_def nth_list_update)
  have pr: "un_proc (semu ?st ! k) = (if k = i then None else un_proc (semu st ! k))" if "k < length (semu st)" for k
    using at [OF that] u'(2) by (auto simp: same_but_link_def split: if_splits)
  show ?thesis
    unfolding chain_inv_def
  proof (intro conjI)
    show "distinct (xs @ ys)" using d js by auto
    show "\<forall>k < length (semu ?st). un_proc (semu ?st ! k) = None \<longleftrightarrow> k \<notin> set (xs @ ys)"
      using pr inv js d by (auto simp: chain_inv_def)
    show "inj_on (\<lambda>k. un_proc (semu ?st ! k)) (set (xs @ ys))"
    proof (rule inj_onI)
      fix a b assume ab: "a \<in> set (xs @ ys)" "b \<in> set (xs @ ys)" "un_proc (semu ?st ! a) = un_proc (semu ?st ! b)"
      then have "a \<in> set js" "b \<in> set js" "a \<noteq> i" "b \<noteq> i" using js d by auto
      moreover from this have "a < length (semu st)" "b < length (semu st)" using chain_bound [OF c] by auto
      ultimately have "un_proc (semu st ! a) = un_proc (semu st ! b)" using ab(3) pr by simp
      then show "a = b" using inv \<open>a \<in> set js\<close> \<open>b \<in> set js\<close> by (auto simp: chain_inv_def inj_on_def)
    qed
    show "\<forall>u \<in> set (semu ?st). undo_ok u"
    proof
      fix u assume "u \<in> set (semu ?st)"
      then obtain k where k: "k < length (semu st)" "u = semu ?st ! k" by (auto simp: in_set_conv_nth)
      show "undo_ok u"
        using at [OF k(1)] k(2) chain_inv_ok [OF inv k(1)] u' by (auto simp: undo_ok_def same_but_link_def entries_ok_def split: if_splits)
    qed
  qed (rule c3)
qed

lemma undo_amount_none:
  assumes "no_undo st p"
  shows "undo_amount st p k = 0"
proof -
  have "(\<Sum>u\<leftarrow>us. if un_proc u = Some p then amount (un_ent u) k else 0) = 0" if "\<forall>u \<in> set us. un_proc u \<noteq> Some p" for us
    using that by (induction us) auto
  then show ?thesis using assms by (simp add: undo_amount_def no_undo_def)
qed

lemma valid_ent_ids: "same_ids st st' \<Longrightarrow> valid_ent st' e \<longleftrightarrow> valid_ent st e"
  using same_ids_layout(1,2) [of st st'] by (auto simp: valid_ent_def)

lemma semexit_spec:
  assumes inv: "pool_inv st" and uinv: "undo_inv st" and small: "\<And>i. live st i \<Longrightarrow> nsem st i \<le> 32768"
    and pool: "sem_pool st \<noteq> []"
  shows "\<exists>S st'. semexit p st = Some st' \<and> undo_inv st' \<and> no_undo st' p \<and> alters S st st' \<and>
    (\<exists>ws. wakeups st' = wakeups st @ ws \<and> S \<subseteq> set ws) \<and>
    (\<forall>i k. live st i \<longrightarrow> k < nsem st i \<longrightarrow>
       semval (sem_of st' i k) = exit_value (semval (sem_of st i k)) (undo_amount st p (i, of_nat k))) \<and>
    (\<forall>q k. q \<noteq> p \<longrightarrow> undo_amount st' q k = undo_amount st q k)"
proof -
  obtain js where c: "chain_inv st js" and v: "ents_valid st" using uinv by (auto simp: undo_inv_def)
  from chain_inv_find [OF c, of p] show ?thesis
  proof
    assume f: "find_undo st p None = Some (if js = [] then None else Some (last js), None) \<and> no_undo st p"
    then have "semexit p st = Some st" using pool by (simp add: semexit_def)
    then show ?thesis using f uinv undo_amount_none by (intro exI [of _ "{}"] exI [of _ st]) auto
  next
    assume "\<exists>xs i ys. js = xs @ i # ys \<and> i < length (semu st) \<and> un_proc (semu st ! i) = Some p \<and>
      find_undo st p None = Some (if xs = [] then None else Some (last xs), Some i)"
    then obtain xs i ys where i: "js = xs @ i # ys" "i < length (semu st)" "un_proc (semu st ! i) = Some p"
      "find_undo st p None = Some (if xs = [] then None else Some (last xs), Some i)" by blast
    let ?u = "semu st ! i" let ?loc = "if xs = [] then None else Some (last xs)"
    have ok: "undo_ok ?u" using chain_inv_ok [OF c i(2)] .
    have es: "\<And>e. e \<in> set (un_ent ?u) \<Longrightarrow> valid_ent st e" "distinct (map ent_key (un_ent ?u))"
      using v i(2) ok by (auto simp: ents_valid_def undo_ok_def entries_ok_def)
    obtain st1 where st1: "exit_ents (un_ent ?u) st = Some st1" "alters (une_id ` set (un_ent ?u)) st st1" "semu st1 = semu st"
      "semu_list_idx st1 = semu_list_idx st" "wakeups st1 = wakeups st @ map une_id (un_ent ?u)"
      "\<forall>i k. live st i \<longrightarrow> k < nsem st i \<longrightarrow>
         semval (sem_of st1 i k) = exit_value (semval (sem_of st i k)) (amount (un_ent ?u) (i, of_nat k))"
      using exit_ents_spec [OF inv es small] by blast
    have ids: "same_ids st st1" using st1(2) by (simp add: alters_def)
    let ?u' = "?u\<lparr>un_cnt := 0, un_ent := [], un_proc := None\<rparr>"
    let ?st = "set_link ?loc (un_next_idx ?u) (set_semu i ?u' st1)"
    have cnt: "un_cnt ?u = length (un_ent ?u)" using ok by (simp add: undo_ok_def)
    have ex: "semexit p st = Some ?st"
    proof (cases "un_ent ?u = []")
      case True
      then have eq: "?u\<lparr>un_proc := None\<rparr> = ?u'" using cnt by (cases ?u) simp
      have "semexit p st = Some (set_link ?loc (un_next_idx ?u) (set_semu i (?u\<lparr>un_proc := None\<rparr>) st1))"
        using pool i(4) st1(1) True cnt by (simp add: semexit_def Let_def)
      then show ?thesis unfolding eq .
    next
      case False
      then show ?thesis using pool i(4) st1(1) cnt by (simp add: semexit_def Let_def)
    qed
    have c1: "chain_inv st1 js"
    proof -
      have "link_at st1 = link_at st" using st1(3,4) by (auto simp: link_at_def fun_eq_iff split: option.split)
      then have "chain st1 loc zs \<longleftrightarrow> chain st loc zs" for loc zs
        by (induction zs arbitrary: loc) (simp_all add: st1(3))
      then show ?thesis using c by (simp add: chain_inv_def st1(3))
    qed
    have c2: "chain_inv ?st (xs @ ys)"
      using exit_chain [OF c1 i(1), of ?u'] i(2) st1(3) by simp
    have t: "same_tables st1 ?st" by (rule same_tables_trans [of _ "set_semu i ?u' st1"]) simp_all
    have at: "same_but_link (semu ?st ! k) (if k = i then ?u' else semu st ! k)" if "k < length (semu st)" for k
      using nth_set_link [of k "set_semu i ?u' st1" ?loc "un_next_idx ?u"] that i(2) st1(3)
      by (auto simp: set_semu_def nth_list_update)
    have len: "length (semu ?st) = length (semu st)" by (simp add: st1(3))
    have "ents_valid ?st"
      unfolding ents_valid_nth
    proof (intro allI impI ballI)
      fix k e assume k: "k < length (semu ?st)" "e \<in> set (un_ent (semu ?st ! k))"
      then have "e \<in> set (un_ent (semu st ! k))" using at [of k] len by (auto simp: same_but_link_def split: if_splits)
      then have "valid_ent st e" using v k(1) len by (auto simp: ents_valid_def)
      then have "valid_ent st1 e" unfolding valid_ent_ids [OF ids] .
      then show "valid_ent ?st e" unfolding valid_ent_tables [OF t] .
    qed
    moreover have "no_undo ?st p"
      unfolding no_undo_def all_set_conv_all_nth
    proof (intro allI impI)
      fix k assume "k < length (semu ?st)"
      then have k: "k < length (semu st)" using len by simp
      have "un_proc (semu st ! k) \<noteq> Some p" if "k \<noteq> i"
      proof
        assume "un_proc (semu st ! k) = Some p"
        moreover from this have "k \<in> set js" using c k by (auto simp: chain_inv_def)
        ultimately show False using c i that by (auto simp: chain_inv_def inj_on_def)
      qed
      then show "un_proc (semu ?st ! k) \<noteq> Some p" using at [OF k] by (auto simp: same_but_link_def split: if_splits)
    qed
    moreover have "alters (une_id ` set (un_ent ?u)) st ?st"
      by (rule alters_trans [OF st1(2) same_tables_alters [OF t]])
    moreover have "wakeups ?st = wakeups st @ map une_id (un_ent ?u)" using st1(5) t by (simp add: same_tables_def)
    moreover have "sem_of ?st j k = sem_of st1 j k" for j k using t by (simp add: same_tables_def sem_of_def base_of_def)
    moreover have "undo_amount ?st q k = undo_amount st q k" if "q \<noteq> p" for q k
    proof -
      have "undo_amount ?st q k = undo_amount (set_semu i ?u' st1) q k"
        using nth_set_link [of _ "set_semu i ?u' st1" ?loc "un_next_idx ?u"]
        by (intro undo_amount_cong) (auto simp: same_but_link_def)
      also have "\<dots> = undo_amount st1 q k"
        using undo_amount_update [of i st1 "set_semu i ?u' st1" ?u' q k] i(2,3) st1(3) that by (simp add: set_semu_def)
      also have "\<dots> = undo_amount st q k" by (simp add: undo_amount_def st1(3))
      finally show ?thesis .
    qed
    ultimately show ?thesis using ex c2 st1(6) undo_amount_at [OF c i(2,3)]
      by (intro exI [of _ "une_id ` set (un_ent ?u)"] exI [of _ ?st]) (auto simp: undo_inv_def)
  qed
qed

text \<open>C12: the exit of a process in well-formed tables, once the pool exists and when no set has more than 32768 semaphores,
  never panics. It adds to every semaphore the amount that the process has recorded for it (cut off at
  zero), leaves the process without undo structure and changes no amount of another process.\<close>

theorem semexit_correct:
  assumes "pool_inv st" and "undo_inv st" and "\<And>i. live st i \<Longrightarrow> nsem st i \<le> 32768" and "sem_pool st \<noteq> []"
  shows "\<exists>st'. semexit p st = Some st' \<and> undo_inv st' \<and> no_undo st' p \<and>
    (\<forall>i k. live st i \<longrightarrow> k < nsem st i \<longrightarrow>
       semval (sem_of st' i k) = exit_value (semval (sem_of st i k)) (undo_amount st p (i, of_nat k))) \<and>
    (\<forall>q k. q \<noteq> p \<longrightarrow> undo_amount st' q k = undo_amount st q k)"
  using semexit_spec [OF assms] by blast

theorem semexit_correct_witness:
  "\<exists>st'. semexit 1 full_example = Some st' \<and> semval (sem_of st' 0 0) = 5 \<and>
     (\<forall>q k. q \<noteq> 1 \<longrightarrow> undo_amount st' q k = undo_amount full_example q k)"
proof -
  have ids: "same_ids sem_example full_example" by (simp add: same_ids_def full_example_def)
  have live: "live full_example i \<longleftrightarrow> i = 0" for i using same_ids_layout(1) [OF ids] live_example by simp
  have n: "nsem full_example 0 = 2" using same_ids_layout(2) [OF ids, of 0] live_example by (simp add: nsem_def sem_example_def)
  have pool: "sem_pool full_example \<noteq> []" by (simp add: full_example_def sem_example_def)
  have "semval (sem_of full_example 0 0) = 3"
    by (simp add: sem_of_def base_of_def full_example_def sem_example_def)
  moreover have "undo_amount full_example 1 (0, 0) = 2"
    by (simp add: undo_amount_def full_example_def ent_key_def)
  ultimately show ?thesis
    using semexit_correct [OF full_example_inv(1,2) _ pool, of 1] live n by (fastforce simp: exit_value_def)
qed

end
