(* ===== verification/Sysv_Wake.thy ===== *)
theory Sysv_Wake
  imports Sysv_Exit
begin

text \<open>
  Values and wake-ups of \<open>semop\<close> (\<open>kern/sysv_sem.c\<close>) over the integers: as long as no value passes
  65535, the words of the code compute the sums of the operations; an operation that raises a value
  somebody waits for, or brings to zero a value somebody waits to be zero, sets \<open>do_wakeup\<close>.
\<close>

section \<open>Sums over the integers\<close>

definition idelta :: "sembuf list \<Rightarrow> nat \<Rightarrow> int" where
  "idelta bs m = (\<Sum>b\<leftarrow>bs. if unat (sem_num b) = m then sint (sem_op b) else 0)"

definition raise :: "sembuf list \<Rightarrow> nat \<Rightarrow> int" where
  "raise bs m = (\<Sum>b\<leftarrow>bs. if unat (sem_num b) = m then max 0 (sint (sem_op b)) else 0)"

lemma idelta_simps [simp]:
  "idelta [] m = 0"
  "idelta (b # bs) m = (if unat (sem_num b) = m then sint (sem_op b) else 0) + idelta bs m"
  "idelta (xs @ ys) m = idelta xs m + idelta ys m"
  by (simp_all add: idelta_def)

lemma raise_simps [simp]:
  "raise [] m = 0"
  "raise (b # bs) m = (if unat (sem_num b) = m then max 0 (sint (sem_op b)) else 0) + raise bs m"
  "raise (xs @ ys) m = raise xs m + raise ys m"
  by (simp_all add: raise_def)

lemma raise_nonneg: "0 \<le> raise bs m"
  by (induction bs) auto

lemma idelta_le_raise: "idelta bs m \<le> raise bs m"
  by (induction bs) auto

lemma raise_take: "raise (take k bs) m \<le> raise bs m"
  using raise_nonneg [of "drop k bs" m] raise_simps(3) [of "take k bs" "drop k bs" m] by simp

lemma wdelta_idelta: "wdelta 0 bs m = word_of_int (idelta bs m)"
  by (induction bs) (simp_all add: wi_hom_add [symmetric])

lemma uint_add_delta:
  assumes "0 \<le> uint v + d" "uint v + d < 65536"
  shows "uint (v + word_of_int d :: u16) = uint v + d"
proof -
  have "v + word_of_int d = (word_of_int (uint v + d) :: u16)"
    using wi_hom_add [of "uint v" d, where 'a = 16] by (simp only: word_of_int_uint)
  then have "uint (v + word_of_int d) = take_bit 16 (uint v + d)" by (simp only: uint_word_of_int) (simp add: take_bit_eq_mod)
  then show ?thesis using assms by (simp add: take_bit_int_eq_self)
qed

text \<open>The value of a semaphore before operation \<open>k\<close> of a vector, as an integer.\<close>

definition ival :: "nat \<Rightarrow> sem list \<Rightarrow> sembuf list \<Rightarrow> nat \<Rightarrow> nat \<Rightarrow> int" where
  "ival base pool bs k m = uint (semval (pool ! (base + m))) + idelta (take k bs) m"

definition roomy :: "nat \<Rightarrow> sem list \<Rightarrow> sembuf list \<Rightarrow> bool" where
  "roomy base pool bs \<longleftrightarrow> (\<forall>b \<in> set bs. uint (semval (pool ! (base + unat (sem_num b)))) + raise bs (unat (sem_num b)) < 65536)"

lemma semval_before:
  assumes "base + unat (sem_num (bs ! k)) < length pool"
  shows "semval (before base bs pool k) =
    semval (pool ! (base + unat (sem_num (bs ! k)))) + word_of_int (idelta (take k bs) (unat (sem_num (bs ! k))))"
  using assms by (simp add: before_def nth_add_ops wdelta_base wdelta_idelta)

lemma before_counts:
  assumes "base + unat (sem_num (bs ! k)) < length pool"
  shows "semncnt (before base bs pool k) = semncnt (pool ! (base + unat (sem_num (bs ! k))))"
    and "semzcnt (before base bs pool k) = semzcnt (pool ! (base + unat (sem_num (bs ! k))))"
  using assms by (simp_all add: before_def nth_add_ops)

text \<open>Along a vector that goes through, no value leaves the range of the words.\<close>

lemma ival_exact:
  assumes p: "passes base n bs pool k" and room: "base + unat n \<le> length pool" and r: "roomy base pool bs"
    and k: "k \<le> length bs" and m: "m \<in> (unat \<circ> sem_num) ` set bs"
  shows "0 \<le> ival base pool bs k m \<and> ival base pool bs k m < 65536"
  using p k
proof (induction k)
  case 0
  then show ?case using uint_lt2p [of "semval (pool ! (base + m))"] by (simp add: ival_def)
next
  case (Suc k)
  let ?b = "bs ! k" let ?m = "unat (sem_num ?b)"
  have pk: "passes base n bs pool k" "sem_num ?b < n" "goes (before base bs pool k) ?b" "k < length bs"
    using Suc.prems by (auto simp: passes_def)
  have IH: "0 \<le> ival base pool bs k m" "ival base pool bs k m < 65536" using Suc.IH pk by auto
  have tk: "take (Suc k) bs = take k bs @ [?b]" using pk(4) by (simp add: take_Suc_conv_app_nth)
  have up: "ival base pool bs (Suc k) m < 65536"
  proof -
    have "uint (semval (pool ! (base + m))) + raise bs m < 65536" using r m by (auto simp: roomy_def)
    moreover have "idelta (take (Suc k) bs) m \<le> raise bs m"
      using idelta_le_raise raise_take order_trans by blast
    ultimately show ?thesis by (simp add: ival_def)
  qed
  show ?case
  proof (cases "?m = m")
    case False
    then show ?thesis using IH up by (simp add: ival_def tk)
  next
    case True
    have in1: "base + ?m < length pool" using room pk(2) by (simp add: word_less_nat_alt)
    have v: "uint (semval (before base bs pool k)) = ival base pool bs k m"
      using uint_add_delta [of "semval (pool ! (base + m))" "idelta (take k bs) m"] IH semval_before [OF in1] True
      by (simp add: ival_def)
    then have "0 \<le> ival base pool bs k m + sint (sem_op ?b)" using pk(3) IH by (auto simp: goes_def)
    then show ?thesis using up True by (simp add: ival_def tk)
  qed
qed

lemma uint_before:
  assumes "passes base n bs pool k" "base + unat n \<le> length pool" "roomy base pool bs" "k < length bs" "sem_num (bs ! k) < n"
  shows "uint (semval (before base bs pool k)) = ival base pool bs k (unat (sem_num (bs ! k)))"
proof -
  let ?m = "unat (sem_num (bs ! k))"
  have in1: "base + ?m < length pool" using assms(2,5) by (simp add: word_less_nat_alt)
  have "0 \<le> ival base pool bs k ?m \<and> ival base pool bs k ?m < 65536"
    by (rule ival_exact [OF assms(1-3)]) (use assms(4) in auto)
  then show ?thesis
    using uint_add_delta [of "semval (pool ! (base + ?m))" "idelta (take k bs) ?m"] semval_before [OF in1] by (simp add: ival_def)
qed

text \<open>The final value of every semaphore of the set.\<close>

lemma final_value:
  assumes "passes base n bs pool (length bs)" "base + unat n \<le> length pool" "roomy base pool bs"
  shows "uint (semval (pool ! (base + m)) + wdelta 0 bs m) = uint (semval (pool ! (base + m))) + idelta bs m"
proof (cases "m \<in> (unat \<circ> sem_num) ` set bs")
  case True
  from ival_exact [OF assms order_refl True] show ?thesis
    using uint_add_delta [of "semval (pool ! (base + m))" "idelta bs m"] by (simp add: ival_def wdelta_idelta)
next
  case False
  then have "idelta bs m = 0" by (induction bs) auto
  then show ?thesis by (simp add: wdelta_idelta)
qed

section \<open>Wake-ups\<close>

lemma idelta_nonpos:
  "(\<And>b. b \<in> set bs \<Longrightarrow> unat (sem_num b) = m \<Longrightarrow> sint (sem_op b) \<le> 0) \<Longrightarrow> idelta bs m \<le> 0"
proof (induction bs)
  case (Cons b bs)
  have "idelta bs m \<le> 0" using Cons by simp
  then show ?case using Cons.prems [of b] by auto
qed simp

lemma idelta_pos: "0 < idelta bs m \<Longrightarrow> \<exists>k < length bs. unat (sem_num (bs ! k)) = m \<and> 0 < sint (sem_op (bs ! k))"
  using idelta_nonpos [of bs m] by (metis in_set_conv_nth not_less)

text \<open>A value that rises wakes the processes that wait for it to rise.\<close>

lemma rise_wakes:
  assumes "passes base n bs pool (length bs)" "base + unat n \<le> length pool"
    and "0 < idelta bs m" and "semncnt (pool ! (base + m)) > 0"
  shows "\<exists>k < length bs. wakes (before base bs pool k) (bs ! k)"
proof -
  obtain k where k: "k < length bs" "unat (sem_num (bs ! k)) = m" "0 < sint (sem_op (bs ! k))"
    using idelta_pos [OF assms(3)] by blast
  have "base + unat (sem_num (bs ! k)) < length pool" using assms(1,2) k(1) by (auto simp: passes_def word_less_nat_alt)
  then have "semncnt (before base bs pool k) > 0" using before_counts(1) k(2) assms(4) by simp
  then show ?thesis using k by (intro exI [of _ k]) (auto simp: wakes_def)
qed

lemma last_change:
  assumes "idelta bs m \<noteq> 0"
  shows "\<exists>k < length bs. unat (sem_num (bs ! k)) = m \<and> sem_op (bs ! k) \<noteq> 0 \<and> idelta (take (Suc k) bs) m = idelta bs m"
  using assms
proof (induction bs rule: rev_induct)
  case (snoc b bs)
  show ?case
  proof (cases "unat (sem_num b) = m \<and> sem_op b \<noteq> 0")
    case True
    then show ?thesis by (intro exI [of _ "length bs"]) simp
  next
    case False
    then have "idelta (bs @ [b]) m = idelta bs m" by auto
    with snoc obtain k where "k < length bs" "unat (sem_num (bs ! k)) = m" "sem_op (bs ! k) \<noteq> 0"
      "idelta (take (Suc k) bs) m = idelta bs m" by auto
    then show ?thesis using \<open>idelta (bs @ [b]) m = idelta bs m\<close>
      by (intro exI [of _ k]) (auto simp: nth_append)
  qed
qed simp

text \<open>A value that falls to zero wakes the processes that wait for zero.\<close>

lemma zero_wakes:
  assumes p: "passes base n bs pool (length bs)" and room: "base + unat n \<le> length pool" and r: "roomy base pool bs"
    and v: "0 < uint (semval (pool ! (base + m)))" and z: "uint (semval (pool ! (base + m))) + idelta bs m = 0"
    and cnt: "semzcnt (pool ! (base + m)) > 0"
  shows "\<exists>k < length bs. wakes (before base bs pool k) (bs ! k)"
proof -
  obtain k where k: "k < length bs" "unat (sem_num (bs ! k)) = m" "sem_op (bs ! k) \<noteq> 0"
    "idelta (take (Suc k) bs) m = idelta bs m"
    using last_change [of bs m] v z by auto
  have pk: "passes base n bs pool k" "sem_num (bs ! k) < n" using p k(1) by (auto simp: passes_def)
  have in1: "base + m < length pool" using room pk(2) k(2) by (simp add: word_less_nat_alt)
  have b: "uint (semval (before base bs pool k)) = ival base pool bs k m"
    using uint_before [OF pk(1) room r k(1) pk(2)] k(2) by simp
  have sum: "ival base pool bs k m + sint (sem_op (bs ! k)) = 0"
    using z k(1,2,4) by (simp add: ival_def take_Suc_conv_app_nth)
  then have neg: "sint (sem_op (bs ! k)) < 0"
    using k(3) b by (metis add_nonneg_eq_0_iff linorder_not_less signed_eq_0_iff uint_ge_0)
  have "semval (before base bs pool k) + sem_op (bs ! k) = word_of_int (uint (semval (before base bs pool k)) + sint (sem_op (bs ! k)))"
    by (simp add: wi_hom_add [symmetric])
  then have "semval (before base bs pool k) + sem_op (bs ! k) = 0" using b sum by simp
  moreover have "semzcnt (before base bs pool k) > 0" using before_counts(2) [of base bs k pool] in1 k(2) cnt by simp
  ultimately show ?thesis using k(1) neg by (intro exI [of _ k]) (simp add: wakes_def)
qed

text \<open>
  A vector can run when every operation finds the value it needs; this is the promise the manual
  page makes, and on such values a pass of the code goes through.
\<close>

definition can_run :: "nat \<Rightarrow> u16 \<Rightarrow> sem list \<Rightarrow> sembuf list \<Rightarrow> bool" where
  "can_run base n pool bs \<longleftrightarrow>
     (\<forall>k < length bs. sem_num (bs ! k) < n \<and>
        (let v = ival base pool bs k (unat (sem_num (bs ! k))); a = sint (sem_op (bs ! k)) in
         (a < 0 \<longrightarrow> 0 \<le> v + a) \<and> (a = 0 \<longrightarrow> v = 0) \<and> v + a < 65536))"

lemma can_run_range:
  assumes "can_run base n pool bs" and "k \<le> length bs"
  shows "0 \<le> ival base pool bs k m \<and> ival base pool bs k m < 65536"
  using assms(2)
proof (induction k)
  case 0
  then show ?case using uint_lt2p [of "semval (pool ! (base + m))"] by (simp add: ival_def)
next
  case (Suc k)
  let ?a = "sint (sem_op (bs ! k))"
  have IH: "0 \<le> ival base pool bs k m" "ival base pool bs k m < 65536" using Suc by auto
  have c: "(?a < 0 \<longrightarrow> 0 \<le> ival base pool bs k m + ?a) \<and> ival base pool bs k m + ?a < 65536" if "unat (sem_num (bs ! k)) = m"
    using assms(1) Suc.prems that by (auto simp: can_run_def Let_def)
  have "ival base pool bs (Suc k) m = ival base pool bs k m + (if unat (sem_num (bs ! k)) = m then ?a else 0)"
    using Suc.prems by (simp add: ival_def take_Suc_conv_app_nth)
  then show ?case using c IH by auto
qed

lemma can_run_passes:
  assumes c: "can_run base n pool bs" and room: "base + unat n \<le> length pool"
  shows "passes base n bs pool (length bs)"
  unfolding passes_def
proof (intro allI impI)
  fix k assume k: "k < length bs"
  let ?m = "unat (sem_num (bs ! k))" let ?a = "sint (sem_op (bs ! k))"
  have n: "sem_num (bs ! k) < n" using c k by (simp add: can_run_def Let_def)
  have in1: "base + ?m < length pool" using room n by (simp add: word_less_nat_alt)
  have v: "uint (semval (before base bs pool k)) = ival base pool bs k ?m"
    using uint_add_delta [of "semval (pool ! (base + ?m))" "idelta (take k bs) ?m"] semval_before [OF in1]
      can_run_range [OF c, of k ?m] k by (simp add: ival_def)
  have z: "sem_op (bs ! k) = 0 \<longleftrightarrow> ?a = 0" by (simp only: signed_eq_0_iff)
  have "\<not> (sem_op (bs ! k) = 0 \<and> 0 < semval (before base bs pool k))"
  proof
    assume a: "sem_op (bs ! k) = 0 \<and> 0 < semval (before base bs pool k)"
    then have "?a = 0" using z by simp
    then have "ival base pool bs k ?m = 0" using c k by (simp add: can_run_def Let_def)
    then show False using a v by (simp add: word_less_def)
  qed
  moreover have "\<not> (?a < 0 \<and> uint (semval (before base bs pool k)) + ?a < 0)" using c k v by (auto simp: can_run_def Let_def)
  ultimately show "sem_num (bs ! k) < n \<and> goes (before base bs pool k) (bs ! k)" using n by (auto simp: goes_def)
qed

end
