(* ===== verification/Sysv_Sys.thy ===== *)
theory Sysv_Sys
  imports Sysv_Wake
begin

text \<open>
  Processes on the semaphores of \<open>kern/sysv_sem.c\<close>: every call runs under the subsystem lock, so a
  run is a sequence of whole calls, of returns from \<open>msleep\<close> and of process exits. Every state such
  a run can reach is well formed, and no event in it makes the kernel panic.
\<close>

section \<open>Runs\<close>

text \<open>
  A sleeping process: the identifier and the vector of its call, the operation it waits for,
  \<open>do_undos\<close>, and whether a \<open>wakeup\<close> on its set has happened since it went to sleep. \<open>settle\<close>
  delivers the wake-ups of a call to the processes that sleep on the same channel, the address of
  the identifier.
\<close>

record sem_wait =
  w_uid :: u32
  w_sops :: "sembuf list"
  w_idx :: nat
  w_und :: bool
  w_awake :: bool

record sem_sys =
  ker :: sysvsem
  waits :: "proc \<Rightarrow> sem_wait option"

definition deliver :: "nat list \<Rightarrow> sem_wait \<Rightarrow> sem_wait" where
  "deliver woken w = (if IPCID_TO_IX (w_uid w) \<in> set woken then w\<lparr>w_awake := True\<rparr> else w)"

definition settle :: "sysvsem \<Rightarrow> (proc \<Rightarrow> sem_wait option) \<Rightarrow> sem_sys" where
  "settle st ws = \<lparr>ker = st\<lparr>wakeups := []\<rparr>, waits = (\<lambda>q. map_option (deliver (wakeups st)) (ws q))\<rparr>"

datatype sem_event = Semget cred int int u16 int | Semctl cred u32 int semcmd sem_io int |
  Semop cred u32 int "nat \<Rightarrow> sembuf list option" int | Resume bool int | Exit

definition op_result :: "proc \<Rightarrow> u32 \<Rightarrow> sembuf list \<Rightarrow> (proc \<Rightarrow> sem_wait option) \<Rightarrow> semop_result \<Rightarrow> sem_sys" where
  "op_result p uid sops ws r =
     (case r of
        Returns e st \<Rightarrow> settle st (ws(p := None))
      | Sleeps i und st \<Rightarrow>
          settle st (ws(p \<mapsto> \<lparr>w_uid = uid, w_sops = sops, w_idx = i, w_und = und, w_awake = False\<rparr>)))"

fun sem_step :: "proc \<Rightarrow> sem_event \<Rightarrow> sem_sys \<Rightarrow> sem_sys option" where
  "sem_step p (Semget c key n flg now) s = map_option (\<lambda>(_, st). settle st (waits s)) (semget c key n flg now (ker s))"
| "sem_step p (Semctl c uid k cmd io now) s =
     map_option (\<lambda>(_, st). settle st (waits s)) (semctl p c uid k cmd io now (ker s))"
| "sem_step p (Semop c uid n copyin now) s =
     map_option (op_result p uid (case copyin (nat n) of None \<Rightarrow> [] | Some sops \<Rightarrow> sops) (waits s))
       (semop p c uid n copyin now (ker s))"
| "sem_step p (Resume intr now) s =
     (case waits s p of
        None \<Rightarrow> None
      | Some w \<Rightarrow>
          map_option (op_result p (w_uid w) (w_sops w) (waits s))
            (semop_resume p (w_uid w) (w_sops w) (w_idx w) (w_und w) intr now (ker s)))"
| "sem_step p Exit s = map_option (\<lambda>st. settle st (waits s)) (semexit p (ker s))"

text \<open>A sleeper does nothing but return from its sleep, when it is woken or interrupted.\<close>

definition enabled :: "sem_sys \<Rightarrow> proc \<Rightarrow> sem_event \<Rightarrow> bool" where
  "enabled s p ev =
     (case waits s p of
        None \<Rightarrow> (case ev of Resume _ _ \<Rightarrow> False | _ \<Rightarrow> True)
      | Some w \<Rightarrow> (case ev of Resume intr _ \<Rightarrow> w_awake w \<or> intr | _ \<Rightarrow> False))"

inductive sem_reach :: "(sem_sys \<Rightarrow> proc \<Rightarrow> sem_event \<Rightarrow> bool) \<Rightarrow> sem_sys \<Rightarrow> bool" for ok where
  boot: "sem_reach ok \<lparr>ker = sysv_init m, waits = (\<lambda>_. None)\<rparr>"
| event: "sem_reach ok s \<Longrightarrow> enabled s p ev \<Longrightarrow> ok s p ev \<Longrightarrow> sem_step p ev s = Some s' \<Longrightarrow> sem_reach ok s'"

lemma sem_reach_mono:
  assumes "sem_reach ok s" and "\<And>s p ev. ok s p ev \<Longrightarrow> ok' s p ev"
  shows "sem_reach ok' s"
  using assms(1) by induction (auto intro: sem_reach.intros assms(2))

text \<open>
  No set is larger than 32768: the entries of undo structures number the semaphores with a \<open>short\<close>.
\<close>

definition small_sets :: "sem_sys \<Rightarrow> proc \<Rightarrow> sem_event \<Rightarrow> bool" where
  "small_sets s p ev = (case ev of Semget c key n flg now \<Rightarrow> n \<le> 32768 | _ \<Rightarrow> True)"

section \<open>Well-formed kernels\<close>

definition good :: "sysvsem \<Rightarrow> bool" where
  "good st \<longleftrightarrow> pool_inv st \<and> undo_inv st \<and> (\<forall>i. live st i \<longrightarrow> nsem st i \<le> 32768)"

lemma undo_inv_keep:
  assumes "undo_inv st" and "semu st' = semu st" "semu_list_idx st' = semu_list_idx st"
    and "\<And>e. valid_ent st e \<Longrightarrow> valid_ent st' e"
  shows "undo_inv st'"
proof -
  have l: "link_at st' = link_at st" using assms(2,3) by (auto simp: link_at_def fun_eq_iff split: option.split)
  have ch: "chain st' loc js \<longleftrightarrow> chain st loc js" for loc js
    by (induction js arbitrary: loc) (simp_all add: l assms(2))
  show ?thesis using assms by (auto simp: undo_inv_def chain_inv_def ents_valid_def ch)
qed

lemma clear_undo_inv:
  assumes inv: "undo_inv st" and "semu st1 = semu st" "semu_list_idx st1 = semu_list_idx st"
    and v: "\<And>e. valid_ent st e \<Longrightarrow> (k = -1 \<longrightarrow> une_id e \<noteq> semid) \<Longrightarrow> valid_ent st1 e"
  shows "\<exists>st'. semundo_clear semid k st1 = Some st' \<and> undo_inv st'"
proof -
  obtain js where c: "chain_inv st js" and ev: "ents_valid st" using inv by (auto simp: undo_inv_def)
  have l: "link_at st1 = link_at st" using assms(2,3) by (auto simp: link_at_def fun_eq_iff split: option.split)
  have ch: "chain st1 loc js \<longleftrightarrow> chain st loc js" for loc js
    by (induction js arbitrary: loc) (simp_all add: l assms(2))
  have "chain_inv st1 js" using c assms(2) by (simp add: chain_inv_def ch)
  from clear_inv [OF this, of semid k] obtain st' where st': "semundo_clear semid k st1 = Some st'" "chain_inv st' js"
    "\<forall>u \<in> set (semu st'). \<forall>e \<in> set (un_ent u). (\<exists>v \<in> set (semu st1). e \<in> set (un_ent v)) \<and> (k = -1 \<longrightarrow> une_id e \<noteq> semid)"
    by blast
  have t: "same_tables st1 st'" using same_tables_clear [OF st'(1)] .
  have "valid_ent st' e" if ue: "u \<in> set (semu st')" "e \<in> set (un_ent u)" for u e
  proof -
    obtain w where w: "w \<in> set (semu st)" "e \<in> set (un_ent w)" and k: "k = -1 \<longrightarrow> une_id e \<noteq> semid"
      using st'(3) ue assms(2) by auto
    have "valid_ent st1 e" using ev v [OF _ k] w by (auto simp: ents_valid_def)
    then show ?thesis using layout_cong [of st' st1] t by (simp add: valid_ent_def same_tables_def)
  qed
  then show ?thesis using st'(1,2) by (auto simp: undo_inv_def ents_valid_def)
qed

lemma good_same_tables: "same_tables st st' \<Longrightarrow> undo_inv st' \<Longrightarrow> good st \<Longrightarrow> good st'"
  using layout_cong [of st' st] pool_inv_cong [of st' st] by (simp add: good_def same_tables_def)

lemma good_same_ids: "same_ids st st' \<Longrightarrow> undo_inv st' \<Longrightarrow> good st \<Longrightarrow> good st'"
  using same_ids_layout [of st st'] by (auto simp: good_def)

lemma good_wakeups [simp]: "good (st\<lparr>wakeups := ws\<rparr>) \<longleftrightarrow> good st"
proof -
  have "same_ids st (st\<lparr>wakeups := ws\<rparr>)" by (simp add: same_ids_def)
  then show ?thesis using same_ids_layout [of st "st\<lparr>wakeups := ws\<rparr>"] undo_frame(1) [of "st\<lparr>wakeups := ws\<rparr>" st]
    by (auto simp: good_def)
qed

lemma good_init: "good (sysv_init m)"
proof -
  have "chain_inv (sysv_init m) []" by (simp add: chain_inv_def sysv_init_def link_at_def)
  then have "undo_inv (sysv_init m)" by (auto simp: undo_inv_def ents_valid_def sysv_init_def)
  moreover have "\<not> live (sysv_init m) i" for i by (simp add: live_def sysv_init_def)
  ultimately show ?thesis by (simp add: good_def pool_inv_def) (simp add: sysv_init_def)
qed

section \<open>The calls\<close>

lemma valid_ent_mono:
  assumes "valid_ent st e" and "\<And>i. live st i \<Longrightarrow> live st' i \<and> nsem st' i = nsem st i"
  shows "valid_ent st' e"
  using assms by (simp add: valid_ent_def)

lemma good_get:
  assumes "semget c key n flg now st = Some (r, st')" and good: "good st" and n: "n \<le> 32768"
  shows "good st'"
proof -
  have inv: "pool_inv st" and uinv: "undo_inv st" and small: "\<And>i. live st i \<Longrightarrow> nsem st i \<le> 32768"
    using good by (auto simp: good_def)
  from semget_cases [OF assms(1) inv] show ?thesis
  proof
    assume g: "grown st st'"
    have "undo_inv st'"
      by (rule undo_inv_keep [OF uinv]) (use g grown_layout [OF g] in \<open>auto simp: grown_def intro: valid_ent_mono\<close>)
    then show ?thesis using grown_layout [OF g] inv small by (simp add: good_def)
  next
    assume "\<exists>ix. r = Inr (IXSEQ_TO_IPCID ix (sem_perm (sema st' ! ix))) \<and> 0 < n \<and> created ix (nat n) st st'"
    then obtain ix where n0: "0 < n" and cr: "created ix (nat n) st st'" by blast
    have other: "live st' j \<and> nsem st' j = nsem st j" if "live st j" for j
      using cr that by (simp add: created_def nsem_def)
    have "undo_inv st'"
      by (rule undo_inv_keep [OF uinv]) (use cr other in \<open>auto simp: created_def intro: valid_ent_mono\<close>)
    moreover have "pool_inv st'" by (rule created_pool_inv [OF cr inv]) (use n n0 in auto)
    moreover have "nsem st' i \<le> 32768" if "live st' i" for i
    proof (cases "live st i")
      case False
      then have "i = ix" using cr that by (auto simp: created_def)
      then have "nsem st' i = unat (of_nat (nat n) :: u16)" using cr by (simp add: created_def nsem_def)
      also have "\<dots> \<le> nat n" by (simp add: unat_of_nat)
      finally show ?thesis using n by simp
    qed (use other small in auto)
    ultimately show ?thesis by (simp add: good_def)
  qed
qed

lemma good_exit:
  assumes "semexit p st = Some st'" and good: "good st"
  shows "good st'"
proof (cases "sem_pool st = []")
  case False
  obtain S st2 where st2: "semexit p st = Some st2" "undo_inv st2" "alters S st st2"
    using semexit_spec [of st p] good False by (auto simp: good_def)
  then show ?thesis using assms good_same_ids [of st st'] by (simp add: alters_def)
qed (use assms in \<open>simp add: semexit_def\<close>)

lemma good_rmid:
  assumes "sem_rmid c ix st = Some st'" and good: "good st" and live: "live st ix"
  shows "good st'"
proof -
  have inv: "pool_inv st" and uinv: "undo_inv st" and small: "\<And>i. live st i \<Longrightarrow> nsem st i \<le> 32768"
    using good by (auto simp: good_def)
  note t = rmid_tables [OF assms(1) inv live]
  obtain st1 st2 where st1: "semundo_clear ix (-1) st1 = Some st2" "st' = wakeup ix st2"
    "semu st1 = semu st" "semu_list_idx st1 = semu_list_idx st"
    using assms(1) by (auto simp: sem_rmid_def Let_def split: if_splits option.splits)
  have tab: "same_tables st1 st2" using same_tables_clear [OF st1(1)] .
  have lay: "live st1 = live st'" "nsem st1 = nsem st'"
    using layout_cong [of st1 st'] tab st1(2) by (auto simp: same_tables_def wakeup_def)
  obtain st3 where "semundo_clear ix (-1) st1 = Some st3" "undo_inv st3"
    using clear_undo_inv [OF uinv st1(3,4), of "-1" ix] t(1,2) lay by (auto simp: valid_ent_def)
  then have "undo_inv st2" using st1(1) by simp
  then have "undo_inv st'"
    by (rule undo_inv_keep) (auto simp: st1(2) wakeup_def valid_ent_def layout_defs)
  then show ?thesis using t(1,2,4) small by (auto simp: good_def)
qed

lemma good_ctl:
  assumes "semctl p c uid k cmd io now st = Some (r, st')" and good: "good st"
  shows "good st'"
proof -
  have inv: "pool_inv st" and uinv: "undo_inv st" using good by (auto simp: good_def)
  from semctl_cases [OF assms(1) inv]
  consider "sem_rmid c (IPCID_TO_IX uid) st = Some st'" "live st (IPCID_TO_IX uid)"
  | "alters {} st st'" "semu st' = semu st" "semu_list_idx st' = semu_list_idx st"
  | st1 n where "alters {IPCID_TO_IX uid} st st1" "semu st1 = semu st" "semu_list_idx st1 = semu_list_idx st"
    "map_option (wakeup (IPCID_TO_IX uid)) (semundo_clear (IPCID_TO_IX uid) n st1) = Some st'" by blast
  then show ?thesis
  proof cases
    case 1
    then show ?thesis using good_rmid good by blast
  next
    case 2
    then have "undo_inv st'" using undo_frame(1) [of st' st] uinv by (simp add: alters_def)
    moreover have "same_ids st st'" using 2(1) by (simp add: alters_def)
    ultimately show ?thesis using good_same_ids good by blast
  next
    case 3
    have ids: "same_ids st st1" using 3(1) by (simp add: alters_def)
    have "\<exists>st2. semundo_clear (IPCID_TO_IX uid) n st1 = Some st2 \<and> undo_inv st2"
      by (rule clear_undo_inv [OF uinv 3(2,3)])
        (use same_ids_layout(1,2) [OF ids] in \<open>auto intro: valid_ent_mono\<close>)
    then obtain st2 where st2: "semundo_clear (IPCID_TO_IX uid) n st1 = Some st2" "undo_inv st2" by blast
    have "same_ids st1 st2" using same_tables_clear [OF st2(1)] same_tables_alters by (auto simp: alters_def)
    then have "good st2" using good_same_ids [OF same_ids_trans [OF ids] st2(2) good] by blast
    then show ?thesis using 3(4) st2(1) by (auto simp: wakeup_def)
  qed
qed

lemma good_attempt:
  assumes "semop_attempt p ix sops now und st = Some r" and good: "good st" and "live st ix"
    and "und \<Longrightarrow> \<exists>b \<in> set sops. \<not> undo_skip b"
  shows "good (res_state r)"
proof -
  have inv: "pool_inv st" and uinv: "undo_inv st" and small: "nsem st ix \<le> 32768" using good assms(3) by (auto simp: good_def)
  have "undo_inv (res_state r)" using attempt_undo(1) [OF inv uinv assms(3) small] assms(1,4) by blast
  moreover have "same_ids st (res_state r)" using turn_same_ids [OF semop_turn [OF assms(1) inv assms(3)] assms(3)] .
  ultimately show ?thesis using good_same_ids good by blast
qed

lemma pass_blocked_und:
  "semop_pass base n bs i wk und st = Some (Blocked st' j und') \<Longrightarrow> und' \<Longrightarrow> und \<or> (\<exists>b \<in> set bs. \<not> undo_skip b)"
proof (induction base n bs i wk und st rule: semop_pass.induct)
  case (2 base n b bs i wk und st)
  then show ?case by (auto simp: undo_skip_def Let_def split: if_splits option.splits)
qed simp

text \<open>Calls return: with an allocator that does not fail none of them panics.\<close>

lemma get_total:
  assumes "pool_inv st"
  shows "semget c key n flg now st \<noteq> None"
proof -
  have alloc: "semget_alloc c key n flg now st \<noteq> None"
  proof (cases "n \<le> 0 \<or> n > int SEMMSL")
    case False
    let ?grow = "n > int (length (sem_pool st)) - int (semtot st)"
    obtain ok1 st1 where 1: "(if ?grow then grow_sem_pool (semtot st + nat n) st else (True, st)) = (ok1, st1)"
      by (meson surj_pair)
    let ?k = "free_semid (sema st1) 0"
    obtain ok2 st2 where 2: "(if ?k = length (sema st1) then grow_sema_array (length (sema st1) + 1) st1 else (True, st1)) = (ok2, st2)"
      by (meson surj_pair)
    have tot: "semtot st1 = semtot st"
      using 1 grow_pool_spec(1) [of "semtot st + nat n" st ok1 st1] by (auto simp: grown_def split: if_splits)
    have room: "semtot st + nat n \<le> length (sem_pool st1)" if "ok1"
      using 1 grow_pool_spec(2) [of "semtot st + nat n" st ok1 st1] False that by (auto split: if_splits)
    have k: "?k \<le> length (sema st1)" using free_semid_spec [of "sema st1" 0] by auto
    have "?k < length (sema st2) \<and> sem_pool st2 = sem_pool st1 \<and> semtot st2 = semtot st1" if "ok2"
      using 2 grow_sema_spec [of st1 ok2 st2] k that by (auto simp: grown_def split: if_splits)
    then show ?thesis using False 1 2 room tot
      by (auto simp: semget_alloc_def Let_def rd_def split: option.splits)
  qed (simp add: semget_alloc_def)
  then show ?thesis by (auto simp: semget_def Let_def split: option.splits)
qed

lemma exit_total: "good st \<Longrightarrow> semexit p st \<noteq> None"
  using semexit_spec [of st p] by (cases "sem_pool st = []") (auto simp: good_def semexit_def)

lemma setall_total:
  assumes "pool_inv st" and "live st ix" and "i + n \<le> nsem st ix"
  shows "sem_setall p (base_of st ix) arr i n st \<noteq> None"
  using assms
proof (induction n arbitrary: i st)
  case (Suc n)
  have at: "sem_at st (base_of st ix) (int i) = Some (sem_of st ix i)" using Suc.prems by simp
  show ?case
  proof (cases "arr i")
    case (Some v)
    let ?st = "sem_put (base_of st ix) (int i) ((sem_of st ix i)\<lparr>semval := v, sempid := p\<rparr>) st"
    have al: "alters {ix} st ?st" by (rule put_alters) (use Suc.prems in auto)
    then have "same_ids st ?st" by (simp add: alters_def)
    note l = same_ids_layout [OF this]
    have "sem_setall p (base_of ?st ix) arr (Suc i) n ?st \<noteq> None"
      by (rule Suc.IH) (use l Suc.prems in auto)
    then show ?thesis using at Some l(3) [OF Suc.prems(2)] by simp
  qed (use at in simp)
qed simp

lemma getall_total:
  assumes "pool_inv st" and "live st ix" and "i + n \<le> nsem st ix"
  shows "sem_getall st (base_of st ix) ok i n \<noteq> None"
  using assms(3)
proof (induction n arbitrary: i)
  case (Suc n)
  then have "sem_getall st (base_of st ix) ok (Suc i) n \<noteq> None" by simp
  moreover have "sem_at st (base_of st ix) (int i) = Some (sem_of st ix i)" using Suc.prems assms(1,2) by simp
  ultimately show ?case by auto
qed simp

lemma rmid_total:
  assumes good: "good st" and live: "live st ix"
  shows "sem_rmid c ix st \<noteq> None"
proof -
  have inv: "pool_inv st" and uinv: "undo_inv st" using good by (auto simp: good_def)
  let ?d = "sema st ! ix" let ?b = "base_of st ix" let ?n = "nsem st ix"
  have bn: "?b + ?n \<le> semtot st" "semtot st \<le> length (sem_pool st)"
    using pool_invD(1,3) [OF inv] live by auto
  then obtain pool where sd: "shift_down (semtot st - ?n - ?b) ?b ?n (sem_pool st) = Some pool"
    using shift_down_spec [of ?b "semtot st - ?n - ?b" ?n "sem_pool st"] by auto
  let ?st1 = "st\<lparr>semtot := semtot st - ?n, sem_pool := pool,
    sema := (map (move_base ?b ?n) (sema st))[ix := release_semid c ?d]\<rparr>"
  have keep: "live ?st1 j \<and> nsem ?st1 j = nsem st j" if "live st j" "j \<noteq> ix" for j
  proof -
    have eq: "sema ?st1 = (map (move_base ?b ?n) (sema st))[ix := release_semid c (sema st ! ix)]" by simp
    show ?thesis using live_rmid(1,2) [OF eq live, of j] that by (simp add: live_def [of st])
  qed
  have "valid_ent ?st1 e" if "valid_ent st e" "une_id e \<noteq> ix" for e
    using that keep [of "une_id e"] unfolding valid_ent_def by simp
  then have "\<exists>st'. semundo_clear ix (-1) ?st1 = Some st' \<and> undo_inv st'"
    by (intro clear_undo_inv [OF uinv]) simp_all
  then show ?thesis using sd bn by (auto simp: sem_rmid_def Let_def nsem_def base_of_def)
qed

lemma ctl_total:
  assumes good: "good st"
  shows "semctl p c uid k cmd io now st \<noteq> None"
proof (cases "live st (IPCID_TO_IX uid)")
  case live: True
  let ?ix = "IPCID_TO_IX uid" let ?d = "sema st ! ?ix"
  have inv: "pool_inv st" and uinv: "undo_inv st" using good by (auto simp: good_def)
  have b: "sem_base ?d = base_of st ?ix" "uint (sem_nsems ?d) = int (nsem st ?ix)" "unat (sem_nsems ?d) = nsem st ?ix"
    by (simp_all add: base_of_def nsem_def uint_nat [symmetric] del: uint_nat)
  have at: "sem_at st (sem_base ?d) k = Some (sem_of st ?ix (nat k))" if "0 \<le> k" "k < uint (sem_nsems ?d)"
    using that inv live by (simp add: b nat_less_iff)
  have rd: "sem_read c ?d k f st \<noteq> None" for f using at by (auto simp: sem_read_def split: option.split)
  have cl: "semundo_clear ?ix m st1 \<noteq> None" if "alters {?ix} st st1" "semu st1 = semu st" "semu_list_idx st1 = semu_list_idx st" for m st1
  proof -
    have "same_ids st st1" using that(1) by (simp add: alters_def)
    then have "\<exists>st2. semundo_clear ?ix m st1 = Some st2 \<and> undo_inv st2"
      by (intro clear_undo_inv [OF uinv that(2,3)]) (use same_ids_layout(1,2) [of st st1] in \<open>auto intro: valid_ent_mono\<close>)
    then show ?thesis by auto
  qed
  have "semctl_cmd cmd p c ?ix k io now ?d st \<noteq> None"
  proof (cases cmd)
    case IPC_RMID
    then show ?thesis using rmid_total [OF good live] by (auto split: option.split)
  next
    case GETALL
    then show ?thesis using getall_total [OF inv live, of 0 "nsem st ?ix" "out_ok io"] by (auto simp: b split: option.split)
  next
    case SETVAL
    have "semundo_clear ?ix k (sem_put (sem_base ?d) k ((sem_of st ?ix (nat k))\<lparr>semval := ucast (arg_val io), sempid := p\<rparr>) st) \<noteq> None"
      if "0 \<le> k" "k < uint (sem_nsems ?d)"
      unfolding b(1) by (rule cl, rule put_alters) (use that inv live in \<open>auto simp: b sem_put_def\<close>)
    then show ?thesis using SETVAL at by (auto split: option.split)
  next
    case SETALL
    obtain r st1 where st1: "sem_setall p (base_of st ?ix) (in_array io) 0 (nsem st ?ix) st = Some (r, st1)"
      using setall_total [OF inv live, of 0 "nsem st ?ix" p "in_array io"] by auto
    then show ?thesis using SETALL cl [of st1] setall_alters [OF st1 inv live] by (auto simp: b split: option.split)
  qed (use rd in \<open>auto split: option.split\<close>)
  then show ?thesis using live by (auto simp: semctl_def live_def Let_def)
qed (auto simp: semctl_def live_def Let_def rd_def split: option.split)

lemma attempt_total:
  assumes "good st" and "live st ix" and "und \<Longrightarrow> \<exists>b \<in> set sops. \<not> undo_skip b" and "mem st = []"
  shows "semop_attempt p ix sops now und st \<noteq> None"
  using attempt_undo(2) [of st ix und sops p now] assms by (auto simp: good_def)

lemma op_total:
  assumes "good st" and "mem st = []"
  shows "semop p c uid n copyin now st \<noteq> None"
  using attempt_total [OF assms(1), where und = False, OF _ _ assms(2)]
  by (auto simp: semop_def Let_def live_def rd_def split: option.split)

section \<open>Reachable states\<close>

definition wait_ok :: "sem_wait \<Rightarrow> bool" where
  "wait_ok w \<longleftrightarrow> w_idx w < length (w_sops w) \<and> (w_und w \<longrightarrow> (\<exists>b \<in> set (w_sops w). \<not> undo_skip b))"

definition well_formed :: "sem_sys \<Rightarrow> bool" where
  "well_formed s \<longleftrightarrow> good (ker s) \<and> wakeups (ker s) = [] \<and> (\<forall>p w. waits s p = Some w \<longrightarrow> wait_ok w)"

lemma wait_ok_deliver [simp]: "wait_ok (deliver woken w) = wait_ok w"
  by (simp add: deliver_def wait_ok_def)

lemma settle_wf:
  assumes "good st" and "\<And>p w. ws p = Some w \<Longrightarrow> wait_ok w"
  shows "well_formed (settle st ws)"
  using assms by (auto simp: well_formed_def settle_def)

text \<open>The tail of \<open>semop\<close>: a turn on a good kernel.\<close>

lemma attempt_sleeps:
  assumes "semop_attempt p ix sops now und st = Some (Sleeps i und' st')" and "pool_inv st" "live st ix"
  shows "i < length sops" and "und' \<Longrightarrow> und \<or> (\<exists>b \<in> set sops. \<not> undo_skip b)"
proof -
  show "i < length sops" using semop_turn [OF assms] by simp
  assume u: "und'"
  let ?d = "sema st ! ix"
  have room: "base_of st ix + unat (sem_nsems ?d) \<le> length (sem_pool st)"
    using pool_invD(1) [OF assms(2)] pool_invD(3) [OF assms(2,3)] by (simp add: nsem_def)
  obtain r1 where r1: "semop_pass (base_of st ix) (sem_nsems ?d) sops 0 False und st = Some r1"
    using semop_pass_spec [OF room] by blast
  have d: "semop_done p ix b sops now wk und1 st1 \<noteq> Some (Sleeps i und' st')" for b wk und1 st1
    by (auto simp: semop_done_def Let_def split: option.splits if_splits)
  show "und \<or> (\<exists>b \<in> set sops. \<not> undo_skip b)"
  proof (cases r1)
    case (Blocked st1 j und1)
    then have "und1 = und'" using assms(1) r1
      by (auto simp: semop_attempt_def Let_def base_of_def split: option.splits if_splits)
    then show ?thesis using pass_blocked_und r1 Blocked u by blast
  qed (use assms(1) r1 d in \<open>auto simp: semop_attempt_def Let_def base_of_def\<close>)
qed

lemma attempt_wf:
  assumes a: "semop_attempt p ix sops now und st = Some r" and "good st" "live st ix"
    and und: "und \<Longrightarrow> \<exists>b \<in> set sops. \<not> undo_skip b" and ws: "\<And>q w. ws q = Some w \<Longrightarrow> wait_ok w"
  shows "well_formed (op_result p uid sops ws r)"
proof -
  have g: "good (res_state r)" by (rule good_attempt [OF a assms(2,3) und])
  show ?thesis
  proof (cases r)
    case (Sleeps i und' st')
    have inv: "pool_inv st" using assms(2) by (simp add: good_def)
    have "i < length sops" "und' \<Longrightarrow> \<exists>b \<in> set sops. \<not> undo_skip b"
      using attempt_sleeps [OF _ inv assms(3)] a Sleeps und by blast+
    then show ?thesis using Sleeps g ws by (auto simp: op_result_def wait_ok_def intro!: settle_wf split: if_splits)
  qed (use g ws in \<open>auto simp: op_result_def intro!: settle_wf split: if_splits\<close>)
qed

text \<open>Behind the sleep: the set is gone, or the count is taken back and a new turn begins.\<close>

definition unbump :: "sembuf \<Rightarrow> sem \<Rightarrow> sem" where
  "unbump b s = (if sem_op b = 0 then s\<lparr>semzcnt := semzcnt s - 1\<rparr> else s\<lparr>semncnt := semncnt s - 1\<rparr>)"

definition holds :: "sysvsem \<Rightarrow> u32 \<Rightarrow> bool" where
  "holds st uid \<longleftrightarrow> live st (IPCID_TO_IX uid) \<and> ipc_seq (sem_perm (sema st ! IPCID_TO_IX uid)) = IPCID_TO_SEQ uid"

definition leave :: "sysvsem \<Rightarrow> u32 \<Rightarrow> sembuf \<Rightarrow> sysvsem" where
  "leave st uid b = (let j = base_of st (IPCID_TO_IX uid) + unat (sem_num b) in
     st\<lparr>sem_pool := (sem_pool st)[j := unbump b (sem_pool st ! j)]\<rparr>)"

lemma resume_eq:
  assumes "pool_inv st" and "IPCID_TO_IX uid < length (sema st)"
  shows "semop_resume p uid sops i und intr now st =
    (if holds st uid \<and> unat (sem_num (sops ! i)) < nsem st (IPCID_TO_IX uid)
     then (if intr then Some (Returns (Some EINTR) (leave st uid (sops ! i)))
           else semop_attempt p (IPCID_TO_IX uid) sops now und (leave st uid (sops ! i)))
     else Some (Returns (Some (if intr then EINTR else EIDRM)) st))"
proof (cases "holds st uid \<and> unat (sem_num (sops ! i)) < nsem st (IPCID_TO_IX uid)")
  case True
  let ?ix = "IPCID_TO_IX uid" let ?b = "sops ! i"
  have live: "live st ?ix" and n: "\<not> sem_nsems (sema st ! ?ix) \<le> sem_num ?b"
    using True by (auto simp: holds_def nsem_def word_le_nat_alt)
  have in1: "base_of st ?ix + unat (sem_num ?b) < length (sem_pool st)"
    using slot_in_pool [OF assms(1) live] True by simp
  have put: "sem_put (base_of st ?ix) (uint (sem_num ?b)) (unbump ?b (sem_pool st ! (base_of st ?ix + unat (sem_num ?b)))) st =
      leave st uid ?b" by (simp add: sem_put_num leave_def Let_def)
  have "semop_resume p uid sops i und intr now st =
      (let st = sem_put (base_of st ?ix) (uint (sem_num ?b)) (unbump ?b (sem_pool st ! (base_of st ?ix + unat (sem_num ?b)))) st in
       if intr then Some (Returns (Some EINTR) st) else semop_attempt p ?ix sops now und st)"
    using True n in1 assms(2) by (simp add: semop_resume_def Let_def holds_def live_def base_of_def unbump_def)
  then show ?thesis using True by (simp add: put Let_def)
next
  case False
  have "\<not> allocated (sema st ! IPCID_TO_IX uid) \<or> ipc_seq (sem_perm (sema st ! IPCID_TO_IX uid)) \<noteq> IPCID_TO_SEQ uid \<or>
      sem_num (sops ! i) \<ge> sem_nsems (sema st ! IPCID_TO_IX uid)"
    using False assms(2) by (auto simp: holds_def live_def nsem_def word_le_nat_alt)
  then show ?thesis unfolding if_not_P [OF False] using assms(2) by (simp add: semop_resume_def Let_def)
qed

lemma leave_ids: "same_ids st (leave st uid b)"
  by (simp add: leave_def same_ids_def Let_def)

lemma leave_good: "good st \<Longrightarrow> good (leave st uid b)"
  using good_same_ids [OF leave_ids] undo_frame(1) [OF _ _ leave_ids] by (simp add: leave_def Let_def good_def)

lemma leave_live: "live (leave st uid b) = live st"
  using same_ids_layout(1) [OF leave_ids] .

text \<open>Every event keeps states well formed.\<close>

lemma step_wf:
  assumes step: "sem_step p ev s = Some s'" and wf: "well_formed s" and small: "small_sets s p ev"
    and idx: "\<And>w. waits s p = Some w \<Longrightarrow> IPCID_TO_IX (w_uid w) < length (sema (ker s))"
  shows "well_formed s'"
proof -
  have good: "good (ker s)" and ws: "\<And>q w. waits s q = Some w \<Longrightarrow> wait_ok w" using wf by (auto simp: well_formed_def)
  have inv: "pool_inv (ker s)" using good by (simp add: good_def)
  have ret: "well_formed (op_result p uid sops (waits s) (Returns e st))" if "good st" for uid sops e st
    using that ws by (auto simp: op_result_def intro!: settle_wf split: if_splits)
  show ?thesis
  proof (cases ev)
    case (Semget c key n flg now)
    then obtain r st where "semget c key n flg now (ker s) = Some (r, st)" "s' = settle st (waits s)" using step by auto
    then show ?thesis using good_get [OF _ good] small Semget ws by (auto simp: small_sets_def intro!: settle_wf)
  next
    case (Semctl c uid k cmd io now)
    then obtain r st where "semctl p c uid k cmd io now (ker s) = Some (r, st)" "s' = settle st (waits s)" using step by auto
    then show ?thesis using good_ctl [OF _ good] ws by (auto intro!: settle_wf)
  next
    case (Semop c uid n copyin now)
    then obtain r where r: "semop p c uid n copyin now (ker s) = Some r"
      "s' = op_result p uid (case copyin (nat n) of None \<Rightarrow> [] | Some sops \<Rightarrow> sops) (waits s) r" using step by auto
    from r(1) show ?thesis
    proof (cases rule: semop_cases)
      case (1 e)
      then show ?thesis using r(2) ret good by simp
    next
      case (2 sops)
      then show ?thesis using attempt_wf [OF 2(4) good 2(1), of "waits s" uid] r(2) ws by simp
    qed
  next
    case (Resume intr now)
    then obtain w r where w: "waits s p = Some w" and r: "s' = op_result p (w_uid w) (w_sops w) (waits s) r"
      "semop_resume p (w_uid w) (w_sops w) (w_idx w) (w_und w) intr now (ker s) = Some r"
      using step by (auto split: option.splits)
    let ?st = "leave (ker s) (w_uid w) (w_sops w ! w_idx w)"
    consider e where "r = Returns e (ker s)" | e where "r = Returns e ?st"
    | "live (ker s) (IPCID_TO_IX (w_uid w))" "semop_attempt p (IPCID_TO_IX (w_uid w)) (w_sops w) now (w_und w) ?st = Some r"
      using r(2) resume_eq [OF inv idx [OF w], of p "w_sops w" "w_idx w" "w_und w" intr now]
      by (auto simp: holds_def split: if_splits)
    then show ?thesis
    proof cases
      case 3
      have "live ?st (IPCID_TO_IX (w_uid w))" using 3(1) leave_live by simp
      then show ?thesis using attempt_wf [OF 3(2) leave_good [OF good]] ws w r(1) by (auto simp: wait_ok_def)
    qed (use r(1) ret good leave_good [OF good] in auto)
  next
    case Exit
    then obtain st where "semexit p (ker s) = Some st" "s' = settle st (waits s)" using step by auto
    then show ?thesis using good_exit [OF _ good] ws by (auto intro!: settle_wf)
  qed
qed

text \<open>The array of identifiers never shrinks, so a sleeper always finds its slot.\<close>

lemma get_length:
  assumes "semget c key n flg now st = Some (r, st')" and "pool_inv st"
  shows "length (sema st) \<le> length (sema st')"
proof -
  have pool: "length (sema st1) = length (sema st)" if "grow_sem_pool m st = (ok, st1)" for m ok st1
    using grow_pool_spec(3) [OF that] by simp
  have ids: "length (sema st) \<le> length (sema st1)" if "grow_sema_array m st = (ok, st1)" for ok m st st1
    using that by (auto simp: grow_sema_array_def malloc_def wake_all_def Let_def split: if_splits list.splits)
  have "semget_alloc c key n flg now st = Some (r, st') \<or> st' = st"
    using assms(1) by (auto simp: semget_def Let_def split: if_splits option.splits)
  then show ?thesis
    by (auto simp: semget_alloc_def Let_def split: if_splits option.splits prod.splits dest!: pool ids)
qed

lemma step_length:
  assumes step: "sem_step p ev s = Some s'" and good: "good (ker s)"
  shows "length (sema (ker s)) \<le> length (sema (ker s'))"
    and "waits s' q = Some w \<Longrightarrow> (\<exists>v. waits s q = Some v \<and> w_uid w = w_uid v) \<or> IPCID_TO_IX (w_uid w) < length (sema (ker s))"
proof -
  have inv: "pool_inv (ker s)" using good by (simp add: good_def)
  have wk: "length (sema (ker s)) \<le> length (sema (ker s')) \<and>
      (\<forall>q w. waits s' q = Some w \<longrightarrow> (\<exists>v. waits s q = Some v \<and> w_uid w = w_uid v) \<or> IPCID_TO_IX (w_uid w) < length (sema (ker s)))"
    if "s' = settle st (waits s)" "length (sema (ker s)) \<le> length (sema st)" for st
    using that by (auto simp: settle_def deliver_def)
  have res: "length (sema (ker s)) \<le> length (sema (ker s')) \<and>
      (\<forall>q w. waits s' q = Some w \<longrightarrow> (\<exists>v. waits s q = Some v \<and> w_uid w = w_uid v) \<or> IPCID_TO_IX (w_uid w) < length (sema (ker s)))"
    if "s' = op_result p uid sops (waits s) r" "same_ids (ker s) (res_state r)"
      "IPCID_TO_IX uid < length (sema (ker s)) \<or> (\<exists>e st. r = Returns e st)" for uid sops r
    using that by (auto simp: op_result_def settle_def deliver_def same_ids_def split: semop_result.splits if_splits)
  have att: "same_ids (ker s) (res_state r)" if "semop_attempt p ix sops now und st = Some r" "live st ix"
      "good st" "same_ids (ker s) st" for ix sops now und st r
    using turn_same_ids [OF semop_turn [OF that(1) _ that(2)] that(2)] that(3,4) same_ids_trans by (auto simp: good_def)
  have main: "length (sema (ker s)) \<le> length (sema (ker s')) \<and>
      (\<forall>q w. waits s' q = Some w \<longrightarrow> (\<exists>v. waits s q = Some v \<and> w_uid w = w_uid v) \<or> IPCID_TO_IX (w_uid w) < length (sema (ker s)))"
  proof (cases ev)
    case (Semget c key n flg now)
    then obtain r st where "semget c key n flg now (ker s) = Some (r, st)" "s' = settle st (waits s)" using step by auto
    then show ?thesis using get_length [OF _ inv] wk by blast
  next
    case (Semctl c uid k cmd io now)
    then obtain r st where st: "semctl p c uid k cmd io now (ker s) = Some (r, st)" "s' = settle st (waits s)" using step by auto
    have "length (sema st) = length (sema (ker s))"
      using semctl_cases [OF st(1) inv]
    proof (elim disjE exE conjE)
      assume "sem_rmid c (IPCID_TO_IX uid) (ker s) = Some st" "live (ker s) (IPCID_TO_IX uid)"
      then show ?thesis using rmid_tables(6) inv by blast
    next
      assume "alters {} (ker s) st"
      then show ?thesis by (simp add: alters_def same_ids_def)
    next
      fix st1 n assume a: "alters {IPCID_TO_IX uid} (ker s) st1"
        and b: "map_option (wakeup (IPCID_TO_IX uid)) (semundo_clear (IPCID_TO_IX uid) n st1) = Some st"
      obtain st2 where c: "semundo_clear (IPCID_TO_IX uid) n st1 = Some st2" "st = wakeup (IPCID_TO_IX uid) st2" using b by auto
      show ?thesis using same_tables_clear [OF c(1)] c(2) a by (simp add: alters_def same_ids_def same_tables_def wakeup_def)
    qed
    then show ?thesis using st(2) wk by simp
  next
    case (Semop c uid n copyin now)
    then obtain r where r: "semop p c uid n copyin now (ker s) = Some r"
      "s' = op_result p uid (case copyin (nat n) of None \<Rightarrow> [] | Some sops \<Rightarrow> sops) (waits s) r" using step by auto
    from r(1) show ?thesis
    proof (cases rule: semop_cases)
      case (1 e)
      then show ?thesis using res [OF r(2)] by simp
    next
      case (2 sops)
      then show ?thesis using res [OF r(2)] att [OF 2(4) 2(1) good] by (simp add: live_def)
    qed
  next
    case (Resume intr now)
    then obtain w r where w: "waits s p = Some w" and r: "s' = op_result p (w_uid w) (w_sops w) (waits s) r"
      "semop_resume p (w_uid w) (w_sops w) (w_idx w) (w_und w) intr now (ker s) = Some r"
      using step by (auto split: option.splits)
    have idx: "IPCID_TO_IX (w_uid w) < length (sema (ker s))"
      using r(2) by (auto simp: semop_resume_def Let_def rd_def split: option.splits if_splits)
    let ?st = "leave (ker s) (w_uid w) (w_sops w ! w_idx w)"
    consider e where "r = Returns e (ker s)" | e where "r = Returns e ?st"
    | "live (ker s) (IPCID_TO_IX (w_uid w))" "semop_attempt p (IPCID_TO_IX (w_uid w)) (w_sops w) now (w_und w) ?st = Some r"
      using r(2) resume_eq [OF inv idx, of p "w_sops w" "w_idx w" "w_und w" intr now]
      by (auto simp: holds_def split: if_splits)
    then have "same_ids (ker s) (res_state r)"
    proof cases
      case 3
      then show ?thesis using att [OF 3(2) _ leave_good [OF good] leave_ids] leave_live by simp
    qed (simp_all add: leave_ids)
    then show ?thesis using res [OF r(1)] idx by blast
  next
    case Exit
    then obtain st where st: "semexit p (ker s) = Some st" "s' = settle st (waits s)" using step by auto
    show ?thesis
    proof (cases "sem_pool (ker s) = []")
      case False
      then obtain S where "alters S (ker s) st" using semexit_spec [of "ker s" p] good st(1) by (auto simp: good_def)
      then show ?thesis using wk [OF st(2)] by (simp add: alters_def same_ids_def)
    qed (use st wk in \<open>auto simp: semexit_def\<close>)
  qed
  show "length (sema (ker s)) \<le> length (sema (ker s'))" using main by blast
  show "waits s' q = Some w \<Longrightarrow> (\<exists>v. waits s q = Some v \<and> w_uid w = w_uid v) \<or> IPCID_TO_IX (w_uid w) < length (sema (ker s))"
    using main by blast
qed

definition slots_ok :: "sem_sys \<Rightarrow> bool" where
  "slots_ok s \<longleftrightarrow> (\<forall>p w. waits s p = Some w \<longrightarrow> IPCID_TO_IX (w_uid w) < length (sema (ker s)))"

lemma reach_wf:
  assumes "sem_reach ok s" and "\<And>s p ev. ok s p ev \<Longrightarrow> small_sets s p ev"
  shows "well_formed s \<and> slots_ok s"
  using assms(1)
proof induction
  case (boot m)
  have "wakeups (sysv_init m) = []" by (simp add: sysv_init_def)
  then show ?case using good_init by (simp add: well_formed_def slots_ok_def)
next
  case (event s p ev s')
  then have "well_formed s'" using step_wf [OF event(4)] assms(2) by (auto simp: slots_ok_def)
  moreover have "slots_ok s'"
    unfolding slots_ok_def
  proof (intro allI impI)
    fix q w assume w: "waits s' q = Some w"
    have good: "good (ker s)" using event.IH by (simp add: well_formed_def)
    from step_length [OF event(4) good] w event.IH show "IPCID_TO_IX (w_uid w) < length (sema (ker s'))"
      by (fastforce simp: slots_ok_def)
  qed
  ultimately show ?case by simp
qed

text \<open>C8: as long as no process asks for a set of more than 32768 semaphores, whatever the processes do,
  in whatever order and with any answers of the allocator, the tables stay well formed: the sets own
  disjoint stretches that fill the used part of the pool, and the chain of undo structures is a simple path
  through exactly the owned ones, with entries for existing semaphores only.\<close>

theorem sem_reach_well_formed:
  assumes "sem_reach small_sets s"
  shows "pool_inv (ker s) \<and> undo_inv (ker s) \<and> wakeups (ker s) = [] \<and>
    (\<forall>i. live (ker s) i \<longrightarrow> nsem (ker s) i \<le> 32768) \<and>
    (\<forall>p w. waits s p = Some w \<longrightarrow> w_idx w < length (w_sops w) \<and> IPCID_TO_IX (w_uid w) < length (sema (ker s)))"
proof -
  have "well_formed s" "slots_ok s" using reach_wf [OF assms] by auto
  then show ?thesis unfolding well_formed_def good_def slots_ok_def wait_ok_def by blast
qed

text \<open>Every enabled event has a successor.\<close>

lemma sem_step_total:
  assumes "sem_reach small_sets s" and "enabled s p ev" and "mem (ker s) = []"
  shows "\<exists>s'. sem_step p ev s = Some s'"
proof -
  have wf: "well_formed s" and slots: "slots_ok s" using reach_wf [OF assms(1)] by auto
  then have good: "good (ker s)" by (simp add: well_formed_def)
  then have inv: "pool_inv (ker s)" by (simp add: good_def)
  show ?thesis
  proof (cases ev)
    case (Semget c key n flg now)
    then show ?thesis using get_total [OF inv, of c key n flg now] by auto
  next
    case (Semctl c uid k cmd io now)
    then show ?thesis using ctl_total [OF good, of p c uid k cmd io now] by auto
  next
    case (Semop c uid n copyin now)
    then show ?thesis using op_total [OF good assms(3), of p c uid n copyin now] by auto
  next
    case (Resume intr now)
    then obtain w where w: "waits s p = Some w" using assms(2) by (auto simp: enabled_def split: option.splits)
    let ?ix = "IPCID_TO_IX (w_uid w)" let ?st = "leave (ker s) (w_uid w) (w_sops w ! w_idx w)"
    have idx: "?ix < length (sema (ker s))" and wo: "wait_ok w" using w slots wf by (auto simp: slots_ok_def well_formed_def)
    have mem: "mem ?st = []" using assms(3) by (simp add: leave_def Let_def)
    have "semop_attempt p ?ix (w_sops w) now (w_und w) ?st \<noteq> None" if "live (ker s) ?ix"
      by (rule attempt_total [OF leave_good [OF good]]) (use that wo mem leave_live in \<open>auto simp: wait_ok_def\<close>)
    then have "semop_resume p (w_uid w) (w_sops w) (w_idx w) (w_und w) intr now (ker s) \<noteq> None"
      using resume_eq [OF inv idx, of p "w_sops w" "w_idx w" "w_und w" intr now] by (auto simp: holds_def)
    then show ?thesis using Resume w by auto
  next
    case Exit
    then show ?thesis using exit_total [OF good, of p] by auto
  qed
qed

text \<open>C9: no event panics. In every state that a run on sets of at most 32768 semaphores can reach,
  whatever the allocator answered on the way, every event that can happen next ends in a state if the
  allocator does not fail in it: no panic, no access outside a table, no walk without end.\<close>

theorem sem_events_total:
  assumes "sem_reach small_sets s" and "enabled s p ev" and "mem (ker s) = []"
  shows "\<exists>s'. sem_step p ev s = Some s'"
  using assms by (rule sem_step_total)

text \<open>The first call after boot: a private set of two semaphores.\<close>

definition boot_sys :: sem_sys where
  "boot_sys = \<lparr>ker = sysv_init [], waits = (\<lambda>_. None)\<rparr>"

lemma boot_reach: "sem_reach ok boot_sys"
  unfolding boot_sys_def by (rule sem_reach.boot)

lemma boot_get: "map_option (\<lambda>(r, st). (r, semtot st, allocated (sema st ! 0))) (semget root_cred 0 2 0 7 (sysv_init [])) =
    Some (Inr 0x10000, 2, True)"
  by (simp add: semget_def IPC_PRIVATE_def semget_alloc_def SEMMSL_def SEMMNS_def SEMMNI_def SEMMNS_INC_def SEMMNI_INC_def
    sysv_init_def grow_sem_pool_def grow_sema_array_def round_size_def malloc_def wake_all_def Let_def rd_def
    new_semid_def IXSEQ_TO_IPCID_def zero_semid_def zero_perm_def allocated_def SEM_ALLOC_def)

lemma first_get:
  "\<exists>s. sem_step 1 (Semget root_cred 0 2 0 7) boot_sys = Some s \<and> sem_reach small_sets s \<and> semtot (ker s) = 2"
proof -
  obtain r st where st: "semget root_cred 0 2 0 7 (sysv_init []) = Some (r, st)" "semtot st = 2" using boot_get by auto
  have step: "sem_step 1 (Semget root_cred 0 2 0 7) boot_sys = Some (settle st (waits boot_sys))"
    using st(1) by (simp add: boot_sys_def)
  have "sem_reach small_sets (settle st (waits boot_sys))"
    by (rule sem_reach.event [OF boot_reach _ _ step]) (simp_all add: enabled_def boot_sys_def small_sets_def)
  then show ?thesis using step st(2) by (auto simp: settle_def)
qed

theorem sem_reach_well_formed_witness:
  "\<exists>s. sem_step 1 (Semget root_cred 0 2 0 7) boot_sys = Some s \<and> semtot (ker s) = 2 \<and> pool_inv (ker s) \<and> undo_inv (ker s)"
  using first_get sem_reach_well_formed by metis

theorem sem_events_total_witness:
  "\<exists>s'. sem_step 1 (Semget root_cred 0 2 0 7) boot_sys = Some s'"
  by (rule sem_events_total [OF boot_reach]) (simp_all add: enabled_def boot_sys_def sysv_init_def)

end
