(* ===== verification/Sysv_Live.thy ===== *)
theory Sysv_Live
  imports Sysv_Sys
begin

text \<open>
  Wake-ups in the semaphores of \<open>kern/sysv_sem.c\<close>: the counts \<open>semncnt\<close> and \<open>semzcnt\<close> are the numbers
  of sleepers, and a sleeper whose operations could go ahead has been woken. The second holds for
  vectors that do not wait for a semaphore they have changed themselves; for the others the counts
  do not say enough, and a wake-up can be lost.
\<close>

section \<open>Who waits for what\<close>

definition w_op :: "sem_wait \<Rightarrow> sembuf" where
  "w_op w = w_sops w ! w_idx w"

definition w_ix :: "sem_wait \<Rightarrow> nat" where
  "w_ix w = IPCID_TO_IX (w_uid w)"

definition w_num :: "sem_wait \<Rightarrow> nat" where
  "w_num w = unat (sem_num (w_op w))"

definition clean :: "sem_wait \<Rightarrow> bool" where
  "clean w \<longleftrightarrow> (\<forall>k < w_idx w. sem_num (w_sops w ! k) \<noteq> sem_num (w_op w))"

definition queue :: "sysvsem \<Rightarrow> (proc \<Rightarrow> sem_wait option) \<Rightarrow> nat \<Rightarrow> nat \<Rightarrow> bool \<Rightarrow> proc set" where
  "queue st ws i k z = {q. \<exists>w. ws q = Some w \<and> holds st (w_uid w) \<and> w_ix w = i \<and> w_num w = k \<and> (sem_op (w_op w) = 0) = z}"

definition stuck :: "sysvsem \<Rightarrow> sem_wait \<Rightarrow> bool" where
  "stuck st w \<longleftrightarrow> \<not> goes (sem_of st (w_ix w) (w_num w)) (w_op w)"

definition counted :: "sysvsem \<Rightarrow> (proc \<Rightarrow> sem_wait option) \<Rightarrow> nat \<Rightarrow> nat \<Rightarrow> bool" where
  "counted st ws i k \<longleftrightarrow> unat (semncnt (sem_of st i k)) = card (queue st ws i k False) \<and>
     unat (semzcnt (sem_of st i k)) = card (queue st ws i k True)"

definition live_inv :: "sysvsem \<Rightarrow> (proc \<Rightarrow> sem_wait option) \<Rightarrow> bool" where
  "live_inv st ws \<longleftrightarrow> finite (dom ws) \<and> card (dom ws) \<le> 65535 \<and>
     (\<forall>q w. ws q = Some w \<longrightarrow> (holds st (w_uid w) \<longrightarrow> w_num w < nsem st (w_ix w)) \<and>
        (\<not> w_awake w \<longrightarrow> holds st (w_uid w) \<and> (clean w \<longrightarrow> stuck st w))) \<and>
     (\<forall>i k. live st i \<longrightarrow> k < nsem st i \<longrightarrow> counted st ws i k)"

lemma deliver_simps [simp]:
  "w_uid (deliver W w) = w_uid w" "w_sops (deliver W w) = w_sops w" "w_idx (deliver W w) = w_idx w"
  "w_op (deliver W w) = w_op w" "w_ix (deliver W w) = w_ix w" "w_num (deliver W w) = w_num w"
  "clean (deliver W w) = clean w" "stuck st (deliver W w) = stuck st w"
  "w_awake (deliver W w) \<longleftrightarrow> w_awake w \<or> w_ix w \<in> set W"
  by (simp_all add: deliver_def w_op_def w_ix_def w_num_def clean_def stuck_def)

lemma dom_deliver [simp]: "dom (\<lambda>q. map_option (deliver W) (ws q)) = dom ws"
  by (auto simp: dom_def)

lemma queue_subset: "queue st ws i k z \<subseteq> dom ws"
  by (auto simp: queue_def)

section \<open>Steps that do not change who waits\<close>

definition kept :: "sysvsem \<Rightarrow> sysvsem \<Rightarrow> nat \<Rightarrow> bool" where
  "kept st st' i \<longleftrightarrow> live st' i \<and> ipc_seq (sem_perm (sema st' ! i)) = ipc_seq (sem_perm (sema st ! i)) \<and>
     nsem st' i = nsem st i \<and>
     (\<forall>k < nsem st i. semncnt (sem_of st' i k) = semncnt (sem_of st i k) \<and> semzcnt (sem_of st' i k) = semzcnt (sem_of st i k))"

definition quiet :: "sysvsem \<Rightarrow> sysvsem \<Rightarrow> nat \<Rightarrow> bool" where
  "quiet st st' i \<longleftrightarrow> (\<forall>k < nsem st i.
     (semncnt (sem_of st i k) > 0 \<longrightarrow> uint (semval (sem_of st' i k)) \<le> uint (semval (sem_of st i k))) \<and>
     (semzcnt (sem_of st i k) > 0 \<longrightarrow> semval (sem_of st i k) > 0 \<longrightarrow> semval (sem_of st' i k) > 0))"

definition fresh :: "sysvsem \<Rightarrow> (proc \<Rightarrow> sem_wait option) \<Rightarrow> nat \<Rightarrow> bool" where
  "fresh st' ws i \<longleftrightarrow> (\<forall>q w. ws q = Some w \<longrightarrow> w_ix w = i \<longrightarrow> \<not> holds st' (w_uid w)) \<and>
     (\<forall>k < nsem st' i. semncnt (sem_of st' i k) = 0 \<and> semzcnt (sem_of st' i k) = 0)"

lemma holds_kept: "live st (w_ix w) \<Longrightarrow> kept st st' (w_ix w) \<Longrightarrow> holds st' (w_uid w) = holds st (w_uid w)"
  by (auto simp: holds_def kept_def w_ix_def)

lemma queue_deliver: "queue st (\<lambda>q. map_option (deliver W) (ws q)) i k z = queue st ws i k z"
  by (auto simp: queue_def)

lemma queue_kept: "live st i \<Longrightarrow> kept st st' i \<Longrightarrow> queue st' ws i k z = queue st ws i k z"
  unfolding queue_def by (metis (no_types, lifting) holds_kept)

lemma queue_fresh: "fresh st' ws i \<Longrightarrow> queue st' ws i k z = {}"
  by (auto simp: queue_def fresh_def)

lemma word_pos: "0 < unat (c :: u16) \<longleftrightarrow> 0 < c"
  by (simp add: word_less_nat_alt)

lemma queue_pos:
  assumes "live_inv st ws" and "ws q = Some w" and "holds st (w_uid w)"
  shows "sem_op (w_op w) \<noteq> 0 \<Longrightarrow> semncnt (sem_of st (w_ix w) (w_num w)) > 0"
    and "sem_op (w_op w) = 0 \<Longrightarrow> semzcnt (sem_of st (w_ix w) (w_num w)) > 0"
proof -
  have live: "live st (w_ix w)" using assms(3) by (simp add: holds_def w_ix_def)
  have k: "w_num w < nsem st (w_ix w)" using assms by (auto simp: live_inv_def)
  have c: "counted st ws (w_ix w) (w_num w)" using assms(1) live k by (simp add: live_inv_def)
  let ?z = "sem_op (w_op w) = 0"
  have "q \<in> queue st ws (w_ix w) (w_num w) ?z" using assms by (auto simp: queue_def)
  moreover have "finite (queue st ws (w_ix w) (w_num w) ?z)"
    using assms(1) finite_subset [OF queue_subset] by (auto simp: live_inv_def)
  ultimately have pos: "0 < card (queue st ws (w_ix w) (w_num w) ?z)" by (auto simp: card_gt_0_iff)
  show "sem_op (w_op w) \<noteq> 0 \<Longrightarrow> semncnt (sem_of st (w_ix w) (w_num w)) > 0"
    using pos c by (simp add: counted_def word_pos [symmetric])
  show "sem_op (w_op w) = 0 \<Longrightarrow> semzcnt (sem_of st (w_ix w) (w_num w)) > 0"
    using pos c by (simp add: counted_def word_pos [symmetric])
qed

lemma stuck_quiet:
  assumes inv: "live_inv st ws" and w: "ws q = Some w" "holds st (w_uid w)" and k: "quiet st st' (w_ix w)" and st: "stuck st w"
  shows "stuck st' w"
proof -
  have n: "w_num w < nsem st (w_ix w)" using inv w by (auto simp: live_inv_def)
  show ?thesis
  proof (cases "sem_op (w_op w) = 0")
    case True
    then have "semval (sem_of st (w_ix w) (w_num w)) > 0" using st by (simp add: stuck_def goes_def)
    then have "semval (sem_of st' (w_ix w) (w_num w)) > 0"
      using k n queue_pos(2) [OF inv w True] by (simp add: quiet_def)
    then show ?thesis using True by (simp add: stuck_def goes_def)
  next
    case False
    then have "uint (semval (sem_of st' (w_ix w) (w_num w))) \<le> uint (semval (sem_of st (w_ix w) (w_num w)))"
      using k n queue_pos(1) [OF inv w False] by (simp add: quiet_def)
    then show ?thesis using st False by (auto simp: stuck_def goes_def)
  qed
qed

lemma live_inv_keep:
  assumes inv: "live_inv st ws"
    and A: "\<And>i. live st' i \<Longrightarrow> live st i \<and> kept st st' i \<or> fresh st' ws i"
    and B: "\<And>i. live st i \<Longrightarrow> i \<notin> set W \<Longrightarrow> kept st st' i \<and> quiet st st' i"
  shows "live_inv st' (\<lambda>q. map_option (deliver W) (ws q))"
  unfolding live_inv_def
proof (intro conjI allI impI)
  show "finite (dom (\<lambda>q. map_option (deliver W) (ws q)))" "card (dom (\<lambda>q. map_option (deliver W) (ws q))) \<le> 65535"
    using inv by (simp_all add: live_inv_def)
next
  fix q w assume "map_option (deliver W) (ws q) = Some w"
  then obtain v where v: "ws q = Some v" "w = deliver W v" by auto
  show "w_num w < nsem st' (w_ix w)" if h: "holds st' (w_uid w)"
  proof -
    have live: "live st' (w_ix v)" using h v(2) by (simp add: holds_def w_ix_def deliver_def split: if_splits)
    have nf: "\<not> fresh st' ws (w_ix v)" using h v by (auto simp: fresh_def)
    then have "live st (w_ix v)" "kept st st' (w_ix v)" using A [OF live] by auto
    then show ?thesis using h v inv holds_kept [of st v st'] by (auto simp: live_inv_def kept_def)
  qed
  assume sleep: "\<not> w_awake w"
  then have hv: "holds st (w_uid v)" and nw: "w_ix v \<notin> set W" using v inv by (auto simp: live_inv_def)
  then have live: "live st (w_ix v)" by (simp add: holds_def w_ix_def)
  note k = B [OF live nw]
  show "holds st' (w_uid w)" using holds_kept [OF live] k hv v(2) by simp
  assume "clean w"
  then have "stuck st v" using sleep v inv by (auto simp: live_inv_def)
  then have "stuck st' v" using stuck_quiet [OF inv v(1) hv] k by blast
  then show "stuck st' w" using v(2) by simp
next
  fix i k assume live: "live st' i" and k: "k < nsem st' i"
  from A [OF live] show "counted st' (\<lambda>q. map_option (deliver W) (ws q)) i k"
  proof
    assume a: "live st i \<and> kept st st' i"
    then have "counted st ws i k" using inv k by (auto simp: live_inv_def kept_def)
    then show ?thesis using a k by (simp add: counted_def queue_deliver queue_kept [of st i st']) (simp add: kept_def)
  next
    assume "fresh st' ws i"
    then show ?thesis using k by (simp add: counted_def queue_deliver queue_fresh) (simp add: fresh_def)
  qed
qed

lemma deliver_none [simp]: "deliver [] = id"
  by (simp add: deliver_def fun_eq_iff)

lemma live_inv_cong:
  assumes "live_inv st ws" and "sema st' = sema st" "\<And>j. semncnt (sem_pool st' ! j) = semncnt (sem_pool st ! j)"
    "\<And>j. semzcnt (sem_pool st' ! j) = semzcnt (sem_pool st ! j)" "\<And>j. semval (sem_pool st' ! j) = semval (sem_pool st ! j)"
  shows "live_inv st' ws"
proof -
  have "live st' i \<longleftrightarrow> live st i" for i using assms(2) by (simp add: live_def)
  moreover have "kept st st' i \<and> quiet st st' i" if "live st i" for i
    using assms(2-5) that by (auto simp: kept_def quiet_def layout_defs sem_of_def)
  ultimately have "live_inv st' (\<lambda>q. map_option (deliver []) (ws q))" by (intro live_inv_keep [OF assms(1)]) auto
  then show ?thesis by (simp add: option.map_id)
qed

section \<open>Going to sleep and leaving\<close>

lemma bump_fields [simp]:
  "semval (bump b s) = semval s"
  "semncnt (bump b s) = (if sem_op b = 0 then semncnt s else semncnt s + 1)"
  "semzcnt (bump b s) = (if sem_op b = 0 then semzcnt s + 1 else semzcnt s)"
  by (simp_all add: bump_def)

lemma unbump_fields [simp]:
  "semval (unbump b s) = semval s"
  "semncnt (unbump b s) = (if sem_op b = 0 then semncnt s else semncnt s - 1)"
  "semzcnt (unbump b s) = (if sem_op b = 0 then semzcnt s - 1 else semzcnt s)"
  by (simp_all add: unbump_def)

lemma sem_of_update:
  assumes "pool_inv st" and "live st ix" "m < nsem st ix" and "live st i" "k < nsem st i"
  shows "sem_of (st\<lparr>sem_pool := (sem_pool st)[base_of st ix + m := s]\<rparr>) i k = (if i = ix \<and> k = m then s else sem_of st i k)"
  using slots_differ [OF assms(1,2,4,3,5)] slot_in_pool [OF assms(1,2,3)]
  by (auto simp: sem_of_def base_of_def nth_list_update)

lemma unat_succ: "unat (c :: u16) < 65535 \<Longrightarrow> unat (c + 1) = Suc (unat c)"
  using unat_add_lem [of c 1] by simp

lemma unat_pred: "0 < unat (c :: u16) \<Longrightarrow> unat (c - 1) = unat c - 1"
  by (simp add: word_pos unat_minus_one word_gt_0)

lemma live_inv_sleep:
  assumes inv: "live_inv st ws" and pinv: "pool_inv st" and new: "ws p = None" and room: "card (dom ws) < 65535"
    and h: "holds st (w_uid w)" and n: "w_num w < nsem st (w_ix w)" and stuck: "clean w \<Longrightarrow> stuck st w"
    and st': "st' = st\<lparr>sem_pool := (sem_pool st)[base_of st (w_ix w) + w_num w := bump (w_op w) (sem_of st (w_ix w) (w_num w))]\<rparr>"
  shows "live_inv st' (ws(p \<mapsto> w))"
proof -
  have live: "live st (w_ix w)" using h by (simp add: holds_def w_ix_def)
  have lay: "live st' = live st" "nsem st' = nsem st" "\<And>u. holds st' u = holds st u"
    using layout_cong [of st' st] st' by (auto simp: holds_def)
  have of: "sem_of st' i k = (if i = w_ix w \<and> k = w_num w then bump (w_op w) (sem_of st i k) else sem_of st i k)"
    if "live st i" "k < nsem st i" for i k
    using sem_of_update [OF pinv live n that] st' by auto
  have val: "semval (sem_of st' i k) = semval (sem_of st i k)" if "live st i" "k < nsem st i" for i k
    using of [OF that] by simp
  have stk: "stuck st' v = stuck st v" if "holds st (w_uid v)" "w_num v < nsem st (w_ix v)" for v
    using val [of "w_ix v" "w_num v"] that by (simp add: stuck_def goes_def holds_def w_ix_def)
  have fin: "finite (dom ws)" using inv by (simp add: live_inv_def)
  have q: "queue st' (ws(p \<mapsto> w)) i k z =
      (if i = w_ix w \<and> k = w_num w \<and> z = (sem_op (w_op w) = 0) then insert p (queue st ws i k z) else queue st ws i k z)" for i k z
    using new h by (auto simp: queue_def lay)
  have pq: "p \<notin> queue st ws i k z" for i k z using new by (auto simp: queue_def)
  have qb: "finite (queue st ws i k z) \<and> card (queue st ws i k z) < 65535" for i k z
    using card_mono [OF fin queue_subset] room finite_subset [OF queue_subset fin] by (meson le_less_trans)
  have "counted st' (ws(p \<mapsto> w)) i k" if "live st i" "k < nsem st i" for i k
  proof -
    have c: "counted st ws i k" using inv that by (simp add: live_inv_def)
    show ?thesis
    proof (cases "i = w_ix w \<and> k = w_num w")
      case True
      then show ?thesis using c of [OF that] pq [of i k] qb [of i k]
        by (cases "sem_op (w_op w) = 0") (auto simp: counted_def q unat_succ)
    qed (use c of [OF that] in \<open>auto simp: counted_def q\<close>)
  qed
  moreover have "(holds st' (w_uid v) \<longrightarrow> w_num v < nsem st' (w_ix v)) \<and>
        (\<not> w_awake v \<longrightarrow> holds st' (w_uid v) \<and> (clean v \<longrightarrow> stuck st' v))" if "(ws(p \<mapsto> w)) q = Some v" for q v
  proof (cases "q = p")
    case True
    then show ?thesis using that h n stuck stk [of w] by (auto simp: lay)
  next
    case False
    then have "ws q = Some v" using that by simp
    then show ?thesis using inv stk [of v] by (auto simp: live_inv_def lay)
  qed
  ultimately show ?thesis using fin room new by (auto simp: live_inv_def lay card_insert_if)
qed

lemma live_inv_leave:
  assumes inv: "live_inv st ws" and pinv: "pool_inv st" and w: "ws p = Some w" and h: "holds st (w_uid w)"
  shows "live_inv (leave st (w_uid w) (w_op w)) (ws(p := None))"
proof -
  define st' where "st' = leave st (w_uid w) (w_op w)"
  have live: "live st (w_ix w)" and n: "w_num w < nsem st (w_ix w)" using h inv w by (auto simp: holds_def w_ix_def live_inv_def)
  have st': "st' = st\<lparr>sem_pool := (sem_pool st)[base_of st (w_ix w) + w_num w := unbump (w_op w) (sem_of st (w_ix w) (w_num w))]\<rparr>"
    by (simp add: st'_def leave_def Let_def w_ix_def w_num_def sem_of_def)
  have lay: "live st' = live st" "nsem st' = nsem st" "\<And>u. holds st' u = holds st u"
    using layout_cong [of st' st] st' by (auto simp: holds_def)
  have of: "sem_of st' i k = (if i = w_ix w \<and> k = w_num w then unbump (w_op w) (sem_of st i k) else sem_of st i k)"
    if "live st i" "k < nsem st i" for i k
    using sem_of_update [OF pinv live n that] st' by auto
  have stk: "stuck st' v = stuck st v" if "holds st (w_uid v)" "w_num v < nsem st (w_ix v)" for v
    using of [of "w_ix v" "w_num v"] that by (simp add: stuck_def goes_def holds_def w_ix_def)
  have fin: "finite (dom ws)" using inv by (simp add: live_inv_def)
  have q: "queue st' (ws(p := None)) i k z = queue st ws i k z - {p}" for i k z
    by (auto simp: queue_def lay)
  have pq: "p \<in> queue st ws i k z \<longleftrightarrow> i = w_ix w \<and> k = w_num w \<and> z = (sem_op (w_op w) = 0)" for i k z
    using w h by (auto simp: queue_def)
  have fq: "finite (queue st ws i k z)" for i k z using finite_subset [OF queue_subset fin] .
  have "counted st' (ws(p := None)) i k" if "live st i" "k < nsem st i" for i k
  proof -
    have c: "counted st ws i k" using inv that by (simp add: live_inv_def)
    show ?thesis
    proof (cases "i = w_ix w \<and> k = w_num w")
      case True
      then have "p \<in> queue st ws i k (sem_op (w_op w) = 0)" using pq by blast
      then have "0 < card (queue st ws i k (sem_op (w_op w) = 0))" using fq card_gt_0_iff by blast
      then show ?thesis using c of [OF that] pq [of i k] fq [of i k] True
        by (cases "sem_op (w_op w) = 0") (auto simp: counted_def q unat_pred card_Diff_singleton_if)
    qed (use c of [OF that] pq [of i k] in \<open>auto simp: counted_def q\<close>)
  qed
  moreover have "(holds st' (w_uid v) \<longrightarrow> w_num v < nsem st' (w_ix v)) \<and>
        (\<not> w_awake v \<longrightarrow> holds st' (w_uid v) \<and> (clean v \<longrightarrow> stuck st' v))" if "(ws(p := None)) q = Some v" for q v
  proof -
    have "ws q = Some v" using that by (simp split: if_splits)
    then show ?thesis using inv stk [of v] by (auto simp: live_inv_def lay)
  qed
  moreover have "card (dom ws - {p}) \<le> 65535" using inv card_Diff1_le [of "dom ws" p] by (simp add: live_inv_def)
  ultimately show ?thesis using fin unfolding st'_def [symmetric] by (simp add: live_inv_def lay)
qed

lemma live_inv_gone:
  assumes inv: "live_inv st ws" and w: "\<And>w. ws p = Some w \<Longrightarrow> \<not> holds st (w_uid w)"
  shows "live_inv st (ws(p := None))"
proof -
  have "queue st (ws(p := None)) i k z = queue st ws i k z" for i k z
    using w by (auto simp: queue_def)
  then have "counted st (ws(p := None)) i k = counted st ws i k" for i k by (simp add: counted_def)
  moreover have "card (dom ws - {p}) \<le> 65535" using inv card_Diff1_le [of "dom ws" p] by (simp add: live_inv_def)
  ultimately show ?thesis using inv by (auto simp: live_inv_def)
qed

section \<open>The events\<close>

text \<open>A vector that names existing semaphores and overflows none of them.\<close>

definition fits :: "sysvsem \<Rightarrow> u32 \<Rightarrow> sembuf list \<Rightarrow> bool" where
  "fits st uid sops \<longleftrightarrow> (holds st uid \<longrightarrow>
     (\<forall>b \<in> set sops. unat (sem_num b) < nsem st (IPCID_TO_IX uid)) \<and> roomy (base_of st (IPCID_TO_IX uid)) (sem_pool st) sops)"

lemma turn_quiet:
  assumes t: "turn_spec ix sops st (Returns None st')" and inv: "pool_inv st" and live: "live st ix"
    and r: "roomy (base_of st ix) (sem_pool st) sops" and w: "wakeups st = []" and W: "ix \<notin> set (wakeups st')"
  shows "quiet st st' ix"
  unfolding quiet_def
proof (intro allI impI)
  fix k assume k: "k < nsem st ix"
  let ?b = "base_of st ix" let ?n = "sem_nsems (sema st ! ix)" let ?v = "semval (sem_of st ix k)"
  have p: "passes ?b ?n sops (sem_pool st) (length sops)" and
    nw: "\<not> (\<exists>j < length sops. wakes (before ?b sops (sem_pool st) j) (sops ! j))"
    using t w W by (auto split: if_splits)
  have room: "?b + unat ?n \<le> length (sem_pool st)"
    using pool_invD(1) [OF inv] pool_invD(3) [OF inv live] by (simp add: nsem_def)
  have v: "uint (semval (sem_of st' ix k)) = uint ?v + idelta sops k"
    using turn_values(1) [OF t inv live live k] final_value [OF p room r, of k] by (simp add: sem_of_def)
  have 1: "uint (semval (sem_of st' ix k)) \<le> uint ?v" if "semncnt (sem_of st ix k) > 0"
  proof -
    have "\<not> 0 < idelta sops k" using rise_wakes [OF p room, of k] that nw by (auto simp: sem_of_def)
    then show ?thesis using v by linarith
  qed
  have 2: "semval (sem_of st' ix k) > 0" if c: "semzcnt (sem_of st ix k) > 0" and "?v > 0"
  proof (rule ccontr)
    assume "\<not> semval (sem_of st' ix k) > 0"
    then have "semval (sem_of st' ix k) = 0" by (simp add: word_gt_0)
    then have "uint ?v + idelta sops k = 0" using v by simp
    then show False
      using zero_wakes [OF p room r, of k] c \<open>?v > 0\<close> nw by (auto simp: sem_of_def word_less_def)
  qed
  show "(semncnt (sem_of st ix k) > 0 \<longrightarrow> uint (semval (sem_of st' ix k)) \<le> uint (semval (sem_of st ix k))) \<and>
     (semzcnt (sem_of st ix k) > 0 \<longrightarrow> semval (sem_of st ix k) > 0 \<longrightarrow> semval (sem_of st' ix k) > 0)"
    using 1 2 by blast
qed

lemma kept_same_ids:
  assumes "same_ids st st'" and "live st i" and "\<And>k. k < nsem st i \<Longrightarrow>
    semncnt (sem_of st' i k) = semncnt (sem_of st i k) \<and> semzcnt (sem_of st' i k) = semzcnt (sem_of st i k)"
  shows "kept st st' i"
  using assms same_ids_layout(1,2) [OF assms(1)] by (auto simp: kept_def same_ids_def live_def)

lemma quiet_same:
  "(\<And>k. k < nsem st i \<Longrightarrow> semval (sem_of st' i k) = semval (sem_of st i k)) \<Longrightarrow> quiet st st' i"
  by (simp add: quiet_def)

lemma live_inv_alters:
  assumes "alters S st st'" and "S \<subseteq> set W" and "live_inv st ws"
  shows "live_inv st' (\<lambda>q. map_option (deliver W) (ws q))"
proof (rule live_inv_keep [OF assms(3)])
  have ids: "same_ids st st'" using assms(1) by (simp add: alters_def)
  have k: "kept st st' i" if "live st i" for i
    using kept_same_ids [OF ids that] assms(1) that by (simp add: alters_def)
  show "live st i \<and> kept st st' i \<or> fresh st' ws i" if "live st' i" for i
    using that k same_ids_layout(1) [OF ids] by simp
  show "kept st st' i \<and> quiet st st' i" if "live st i" "i \<notin> set W" for i
    using k [OF that(1)] assms(1,2) that by (intro conjI quiet_same) (auto simp: alters_def)
qed

definition sys_live :: "sem_sys \<Rightarrow> bool" where
  "sys_live s \<longleftrightarrow> live_inv (ker s) (waits s)"

lemma sys_live_settle: "sys_live (settle st ws) \<longleftrightarrow> live_inv st (\<lambda>q. map_option (deliver (wakeups st)) (ws q))"
proof -
  have "live_inv (st\<lparr>wakeups := []\<rparr>) vs \<longleftrightarrow> live_inv st vs" for vs
    using live_inv_cong [of st vs "st\<lparr>wakeups := []\<rparr>"] live_inv_cong [of "st\<lparr>wakeups := []\<rparr>" vs st] by auto
  then show ?thesis by (simp add: sys_live_def settle_def)
qed

lemma sys_live_quiet: "wakeups st = [] \<Longrightarrow> sys_live (settle st ws) \<longleftrightarrow> live_inv st ws"
  by (simp add: sys_live_settle option.map_id)

lemma attempt_live:
  assumes a: "semop_attempt p (IPCID_TO_IX uid) sops now und st = Some r" and good: "good st" and h: "holds st uid"
    and f: "fits st uid sops" and inv: "live_inv st ws" and p: "ws p = None" "card (dom ws) < 65535" and w: "wakeups st = []"
  shows "sys_live (op_result p uid sops ws r)"
proof -
  let ?ix = "IPCID_TO_IX uid"
  have pinv: "pool_inv st" using good by (simp add: good_def)
  have live: "live st ?ix" using h by (simp add: holds_def)
  have t: "turn_spec ?ix sops st r" using semop_turn [OF a pinv live] .
  have wp: "ws(p := None) = ws" using p(1) by auto
  show ?thesis
  proof (cases r)
    case (Returns e st')
    have "live_inv st' (\<lambda>q. map_option (deliver (wakeups st')) (ws q))"
    proof (cases e)
      case None
      have tn: "turn_spec ?ix sops st (Returns None st')" using t Returns None by simp
      have ids: "same_ids st st'" using turn_same_ids [OF tn live] by simp
      have k: "kept st st' i" if "live st i" for i
        using kept_same_ids [OF ids that] turn_values(2,3) [OF tn pinv live that] by simp
      have q: "quiet st st' i" if "live st i" "i \<notin> set (wakeups st')" for i
      proof (cases "i = ?ix")
        case True
        have "roomy (base_of st ?ix) (sem_pool st) sops" using f h by (simp add: fits_def)
        then show ?thesis using turn_quiet [OF tn pinv live _ w] that True by simp
      next
        case False
        then show ?thesis using turn_values(1) [OF tn pinv live that(1)] by (intro quiet_same) simp
      qed
      show ?thesis by (rule live_inv_keep [OF inv]) (use k q same_ids_layout(1) [OF ids] in auto)
    next
      case (Some x)
      have "\<not> (\<exists>k < length sops. sem_nsems (sema st ! ?ix) \<le> sem_num (sops ! k))"
        using f h by (auto simp: fits_def nsem_def word_le_nat_alt not_le)
      then have "same_tables st st'" using t Returns Some by auto
      then show ?thesis using same_tables_alters [of st st' "{}"] live_inv_alters [OF _ _ inv] by blast
    qed
    then show ?thesis using Returns by (simp add: op_result_def sys_live_settle wp)
  next
    case (Sleeps i und' st')
    let ?w = "\<lparr>w_uid = uid, w_sops = sops, w_idx = i, w_und = und', w_awake = False\<rparr>"
    have i: "i < length sops" "passes (base_of st ?ix) (sem_nsems (sema st ! ?ix)) sops (sem_pool st) i"
      "sem_num (sops ! i) < sem_nsems (sema st ! ?ix)"
      "\<not> goes (before (base_of st ?ix) sops (sem_pool st) i) (sops ! i)" and
      st': "st' = st\<lparr>sem_pool := (sem_pool st)[base_of st ?ix + unat (sem_num (sops ! i)) :=
        bump (sops ! i) (sem_pool st ! (base_of st ?ix + unat (sem_num (sops ! i))))]\<rparr>"
      using t Sleeps by (auto simp: Let_def)
    have w_simps: "w_ix ?w = ?ix" "w_op ?w = sops ! i" "w_num ?w = unat (sem_num (sops ! i))" "w_uid ?w = uid"
      by (simp_all add: w_ix_def w_op_def w_num_def)
    have n: "unat (sem_num (sops ! i)) < nsem st ?ix" using i(3) by (simp add: nsem_def word_less_nat_alt)
    have in1: "base_of st ?ix + unat (sem_num (sops ! i)) < length (sem_pool st)" using slot_in_pool [OF pinv live n] .
    have "stuck st ?w" if "clean ?w"
    proof -
      have "sem_num b \<noteq> sem_num (sops ! i)" if "b \<in> set (take i sops)" for b
        using \<open>clean ?w\<close> that i(1) by (auto simp: clean_def w_simps in_set_conv_nth)
      then have "wdelta (base_of st ?ix) (take i sops) (base_of st ?ix + unat (sem_num (sops ! i))) = 0"
        by (intro wdelta_outside) (auto simp: word_unat_eq_iff)
      then have "before (base_of st ?ix) sops (sem_pool st) i = sem_of st ?ix (unat (sem_num (sops ! i)))"
        using in1 by (simp add: before_def nth_add_ops sem_of_def)
      then show ?thesis using i(4) by (simp add: stuck_def w_simps)
    qed
    then have "live_inv st' (ws(p \<mapsto> ?w))"
      by (intro live_inv_sleep [OF inv pinv p]) (simp_all add: h n st' sem_of_def w_simps)
    moreover have wk: "wakeups st' = []" using w st' by simp
    moreover have eq: "op_result p uid sops ws r = settle st' (ws(p \<mapsto> ?w))" using Sleeps by (simp add: op_result_def)
    ultimately show ?thesis unfolding eq sys_live_quiet [OF wk] by blast
  qed
qed

text \<open>The runs the promise is for: small sets, no overflow, and no identifier comes back that a stale sleeper still holds.\<close>

fun vector_fits :: "sem_sys \<Rightarrow> proc \<Rightarrow> sem_event \<Rightarrow> bool" where
  "vector_fits s p (Semop c uid n copyin now) =
     (case copyin (nat n) of None \<Rightarrow> True | Some sops \<Rightarrow> fits (ker s) uid sops \<and> card (dom (waits s)) < 65535)"
| "vector_fits s p (Resume intr now) =
     (case waits s p of None \<Rightarrow> True | Some w \<Rightarrow> fits (ker s) (w_uid w) (w_sops w))"
| "vector_fits s p ev = True"

definition no_reuse :: "sem_sys \<Rightarrow> proc \<Rightarrow> sem_event \<Rightarrow> bool" where
  "no_reuse s p ev \<longleftrightarrow> (case sem_step p ev s of None \<Rightarrow> True
     | Some s' \<Rightarrow> (\<forall>q w. waits s q = Some w \<longrightarrow> \<not> holds (ker s) (w_uid w) \<longrightarrow> \<not> holds (ker s') (w_uid w)))"

definition careful :: "sem_sys \<Rightarrow> proc \<Rightarrow> sem_event \<Rightarrow> bool" where
  "careful s p ev \<longleftrightarrow> small_sets s p ev \<and> vector_fits s p ev \<and> no_reuse s p ev"

lemma semval_update: "semval (xs[j := unbump b (xs ! j)] ! m) = semval (xs ! m)"
  by (cases "j < length xs"; cases "j = m") (simp_all add: list_update_beyond)

lemma fits_leave:
  assumes "pool_inv st" and "fits st uid sops" and "holds st uid"
  shows "fits (leave st uid b) uid sops" and "holds (leave st uid b) uid"
proof -
  have lay: "live (leave st uid b) = live st" "nsem (leave st uid b) = nsem st" "base_of (leave st uid b) = base_of st"
    using layout_cong [of "leave st uid b" st] by (simp_all add: leave_def Let_def)
  show h: "holds (leave st uid b) uid" using assms(3) lay by (simp add: holds_def) (simp add: leave_def Let_def)
  have "semval (sem_pool (leave st uid b) ! j) = semval (sem_pool st ! j)" for j
    by (simp add: leave_def Let_def semval_update)
  then show "fits (leave st uid b) uid sops" using assms(2,3) by (simp add: fits_def lay roomy_def)
qed

lemma step_live:
  assumes step: "sem_step p ev s = Some s'" and wf: "well_formed s" and slots: "slots_ok s" and en: "enabled s p ev"
    and ok: "careful s p ev" and inv: "sys_live s"
  shows "sys_live s'"
proof -
  have good: "good (ker s)" and w0: "wakeups (ker s) = []" using wf by (auto simp: well_formed_def)
  have pinv: "pool_inv (ker s)" using good by (simp add: good_def)
  have linv: "live_inv (ker s) (waits s)" using inv by (simp add: sys_live_def)
  show ?thesis
  proof (cases ev)
    case (Semget c key n flg now)
    then obtain r st where st: "semget c key n flg now (ker s) = Some (r, st)" and s': "s' = settle st (waits s)" using step by auto
    from semget_cases [OF st pinv]
    have "live_inv st (\<lambda>q. map_option (deliver (wakeups st)) (waits s q))"
    proof
      assume g: "grown (ker s) st"
      have k: "kept (ker s) st i \<and> quiet (ker s) st i" if "live (ker s) i" for i
        using that grown_layout [OF g] pinv by (simp add: kept_def quiet_def)
      show ?thesis by (rule live_inv_keep [OF linv]) (use k grown_layout(1) [OF g] in auto)
    next
      assume "\<exists>ix. r = Inr (IXSEQ_TO_IPCID ix (sem_perm (sema st ! ix))) \<and> 0 < n \<and> created ix (nat n) (ker s) st"
      then obtain ix where n0: "0 < n" and cr: "created ix (nat n) (ker s) st" by blast
      have k: "kept (ker s) st i \<and> quiet (ker s) st i" if "live (ker s) i" for i
        using that cr by (simp add: kept_def quiet_def created_def nsem_def)
      have dead: "\<not> live (ker s) ix" using cr by (simp add: created_def)
      have "holds st (w_uid w) \<Longrightarrow> False" if "waits s q = Some w" "w_ix w = ix" for q w
      proof -
        assume "holds st (w_uid w)"
        moreover have "\<not> holds (ker s) (w_uid w)" using dead that(2) by (simp add: holds_def w_ix_def)
        ultimately show False using ok step that(1) s' by (auto simp: careful_def no_reuse_def settle_def holds_def live_def)
      qed
      moreover have "semncnt (sem_of st ix k) = 0 \<and> semzcnt (sem_of st ix k) = 0" if "k < nsem st ix" for k
      proof -
        have "unat (of_nat (nat n) :: u16) \<le> nat n" by (simp add: unat_of_nat)
        then have "k < nat n" using that cr by (simp add: created_def nsem_def)
        then show ?thesis using cr by (simp add: created_def sem_of_def zero_sem_def)
      qed
      ultimately have f: "fresh st (waits s) ix" unfolding fresh_def by blast
      show ?thesis by (rule live_inv_keep [OF linv]) (use k f cr in \<open>auto simp: created_def\<close>)
    qed
    then show ?thesis by (simp add: s' sys_live_settle)
  next
    case (Semctl c uid k cmd io now)
    let ?ix = "IPCID_TO_IX uid"
    obtain r st where st: "semctl p c uid k cmd io now (ker s) = Some (r, st)" and s': "s' = settle st (waits s)"
      using step Semctl by auto
    from semctl_cases [OF st pinv]
    have "live_inv st (\<lambda>q. map_option (deliver (wakeups st)) (waits s q))"
    proof (elim disjE exE conjE)
      assume rm: "sem_rmid c ?ix (ker s) = Some st" and live: "live (ker s) ?ix"
      note t = rmid_tables [OF rm pinv live]
      have k: "kept (ker s) st i \<and> quiet (ker s) st i" if "live (ker s) i" "i \<noteq> ?ix" for i
        using t(1) [of i] t(2) [of i] t(3) [of i] t(7) [of i] that by (simp add: kept_def quiet_def live_def)
      show ?thesis by (rule live_inv_keep [OF linv]) (use k t(1,5) in auto)
    next
      assume "alters {} (ker s) st"
      then show ?thesis using live_inv_alters linv by blast
    next
      fix st1 m assume a: "alters {?ix} (ker s) st1" and "map_option (wakeup ?ix) (semundo_clear ?ix m st1) = Some st"
      then obtain st2 where c: "semundo_clear ?ix m st1 = Some st2" "st = wakeup ?ix st2" by auto
      have "alters {?ix} st2 st" by (rule alters_cong) (simp_all add: c(2) wakeup_def)
      then have "alters {?ix} (ker s) st"
        using alters_trans [OF a] same_tables_alters [OF same_tables_clear [OF c(1)]] alters_trans by blast
      then show ?thesis using live_inv_alters [OF _ _ linv] by (simp add: c(2) wakeup_def)
    qed
    then show ?thesis by (simp add: s' sys_live_settle)
  next
    case (Semop c uid n copyin now)
    then have p: "waits s p = None" using en by (auto simp: enabled_def split: option.splits)
    then have wp: "(waits s)(p := None) = waits s" by auto
    obtain r where r: "semop p c uid n copyin now (ker s) = Some r"
      "s' = op_result p uid (case copyin (nat n) of None \<Rightarrow> [] | Some sops \<Rightarrow> sops) (waits s) r" using step Semop by auto
    from r(1) show ?thesis
    proof (cases rule: semop_cases)
      case (1 e)
      then show ?thesis using r(2) w0 linv by (simp add: op_result_def sys_live_settle wp option.map_id)
    next
      case (2 sops)
      have "fits (ker s) uid sops \<and> card (dom (waits s)) < 65535" using ok Semop 2(3) by (simp add: careful_def)
      then show ?thesis
        using attempt_live [OF 2(4) good _ _ linv p _ w0] 2(1-3) r(2) by (simp add: holds_def)
    qed
  next
    case (Resume intr now)
    then obtain w r where w: "waits s p = Some w" and s': "s' = op_result p (w_uid w) (w_sops w) (waits s) r"
      and r: "semop_resume p (w_uid w) (w_sops w) (w_idx w) (w_und w) intr now (ker s) = Some r"
      using step by (auto split: option.splits)
    let ?st = "leave (ker s) (w_uid w) (w_sops w ! w_idx w)" let ?ws = "(waits s)(p := None)"
    have idx: "IPCID_TO_IX (w_uid w) < length (sema (ker s))" using slots w by (simp add: slots_ok_def)
    have up: "op_result p (w_uid w) (w_sops w) (waits s) r = op_result p (w_uid w) (w_sops w) ?ws r"
      by (simp add: op_result_def split: semop_result.split)
    have ret: "sys_live (op_result p uid sops ?ws (Returns e st))" if "live_inv st ?ws" "wakeups st = []" for uid sops e st
      using that by (simp add: op_result_def sys_live_quiet)
    show ?thesis
    proof (cases "holds (ker s) (w_uid w)")
      case False
      then have "\<exists>e. r = Returns e (ker s)" using r resume_eq [OF pinv idx, of p "w_sops w" "w_idx w" "w_und w" intr now] by auto
      then show ?thesis using ret [OF live_inv_gone [OF linv] w0] False w s' up by auto
    next
      case True
      then have n: "unat (sem_num (w_sops w ! w_idx w)) < nsem (ker s) (IPCID_TO_IX (w_uid w))"
        using linv w by (auto simp: live_inv_def w_num_def w_op_def w_ix_def)
      have li: "live_inv ?st ?ws" using live_inv_leave [OF linv pinv w True] by (simp add: w_op_def)
      have wk: "wakeups ?st = []" using w0 by (simp add: leave_def Let_def)
      show ?thesis
      proof (cases intr)
        case True
        then have "r = Returns (Some EINTR) ?st"
          using r resume_eq [OF pinv idx, of p "w_sops w" "w_idx w" "w_und w" intr now] n \<open>holds (ker s) (w_uid w)\<close> by simp
        then show ?thesis using ret [OF li wk] s' up by simp
      next
        case False
        then have a: "semop_attempt p (IPCID_TO_IX (w_uid w)) (w_sops w) now (w_und w) ?st = Some r"
          using r resume_eq [OF pinv idx, of p "w_sops w" "w_idx w" "w_und w" intr now] n \<open>holds (ker s) (w_uid w)\<close> by simp
        have f: "fits (ker s) (w_uid w) (w_sops w)" using ok Resume w by (simp add: careful_def)
        have "p \<in> dom (waits s)" "finite (dom (waits s))" "card (dom (waits s)) \<le> 65535" using w linv by (auto simp: live_inv_def)
        then have "card (dom ?ws) < 65535" using card_Diff1_less [of "dom (waits s)" p] by simp
        then show ?thesis
          using attempt_live [OF a leave_good [OF good] _ _ li _ _ wk] fits_leave [OF pinv f \<open>holds (ker s) (w_uid w)\<close>] s' up by simp
      qed
    qed
  next
    case Exit
    then obtain st where st: "semexit p (ker s) = Some st" and s': "s' = settle st (waits s)" using step by auto
    have "live_inv st (\<lambda>q. map_option (deliver (wakeups st)) (waits s q))"
    proof (cases "sem_pool (ker s) = []")
      case True
      then show ?thesis using st linv w0 by (auto simp: semexit_def option.map_id)
    next
      case False
      obtain S ws where "alters S (ker s) st" "wakeups st = wakeups (ker s) @ ws" "S \<subseteq> set ws"
        using semexit_spec [of "ker s" p] good False st by (auto simp: good_def)
      moreover from this have "S \<subseteq> set (wakeups st)" by auto
      ultimately show ?thesis using live_inv_alters [OF _ _ linv] by blast
    qed
    then show ?thesis by (simp add: s' sys_live_settle)
  qed
qed

section \<open>The promise\<close>

lemma reach_live:
  assumes "sem_reach careful s"
  shows "well_formed s \<and> slots_ok s \<and> sys_live s"
proof -
  have "well_formed s \<and> slots_ok s" using reach_wf [OF assms] by (simp add: careful_def)
  moreover have "sys_live s" using assms
  proof induction
    case (boot m)
    have "\<not> live (sysv_init m) i" for i by (simp add: live_def sysv_init_def)
    then show ?case by (simp add: sys_live_def live_inv_def)
  next
    case (event s p ev s')
    have "well_formed s \<and> slots_ok s" using reach_wf [OF event(1)] by (simp add: careful_def)
    then show ?case using step_live [OF event(4)] event by blast
  qed
  ultimately show ?thesis by blast
qed

text \<open>A vector that goes through does so again after the sleeper has taken its count back.\<close>

lemma passes_leave:
  assumes "\<And>j. j < length pool \<Longrightarrow> semval (pool' ! j) = semval (pool ! j)" and "length pool' = length pool"
    and "base + unat n \<le> length pool" and "passes base n bs pool m"
  shows "passes base n bs pool' m"
  unfolding passes_def
proof (intro allI impI)
  fix k assume k: "k < m"
  have n: "sem_num (bs ! k) < n" "goes (before base bs pool k) (bs ! k)" using assms(4) k by (auto simp: passes_def)
  then have "base + unat (sem_num (bs ! k)) < length pool" using assms(3) by (simp add: word_less_nat_alt)
  then have "semval (before base bs pool' k) = semval (before base bs pool k)"
    using assms(1,2) by (simp add: before_def nth_add_ops)
  then show "sem_num (bs ! k) < n \<and> goes (before base bs pool' k) (bs ! k)" using n by (simp add: goes_def)
qed

lemma passes_returns:
  assumes "semop_attempt p ix sops now und st = Some r" and "pool_inv st" "live st ix"
    and p: "passes (base_of st ix) (sem_nsems (sema st ! ix)) sops (sem_pool st) (length sops)"
  shows "\<exists>e st'. r = Returns e st'"
proof (cases r)
  case (Sleeps i und' st')
  with semop_turn [OF assms(1-3)] have "i < length sops" "\<not> goes (before (base_of st ix) sops (sem_pool st) i) (sops ! i)"
    by (auto simp: Let_def)
  then show ?thesis using p by (auto simp: passes_def)
qed blast

lemma clean_passes_awake:
  assumes "sem_reach careful s" and w: "waits s p = Some w" and "clean w"
    and p: "passes (base_of (ker s) (w_ix w)) (sem_nsems (sema (ker s) ! w_ix w)) (w_sops w) (sem_pool (ker s)) (length (w_sops w))"
  shows "w_awake w"
proof (rule ccontr)
  assume "\<not> w_awake w"
  have r: "well_formed s" "slots_ok s" "live_inv (ker s) (waits s)" using reach_live [OF assms(1)] by (auto simp: sys_live_def)
  then have h: "holds (ker s) (w_uid w)" and st: "stuck (ker s) w" and n: "w_num w < nsem (ker s) (w_ix w)"
    using w \<open>\<not> w_awake w\<close> \<open>clean w\<close> by (auto simp: live_inv_def)
  have i: "w_idx w < length (w_sops w)" using r(1) w by (auto simp: well_formed_def wait_ok_def)
  have pinv: "pool_inv (ker s)" using r(1) by (simp add: well_formed_def good_def)
  have live: "live (ker s) (w_ix w)" using h by (simp add: holds_def w_ix_def)
  have in1: "base_of (ker s) (w_ix w) + w_num w < length (sem_pool (ker s))" using slot_in_pool [OF pinv live n] .
  have "sem_num b \<noteq> sem_num (w_op w)" if "b \<in> set (take (w_idx w) (w_sops w))" for b
    using \<open>clean w\<close> that i by (auto simp: clean_def in_set_conv_nth)
  then have "wdelta (base_of (ker s) (w_ix w)) (take (w_idx w) (w_sops w)) (base_of (ker s) (w_ix w) + w_num w) = 0"
    by (intro wdelta_outside) (auto simp: w_num_def word_unat_eq_iff)
  then have "before (base_of (ker s) (w_ix w)) (w_sops w) (sem_pool (ker s)) (w_idx w) = sem_of (ker s) (w_ix w) (w_num w)"
    using in1 by (simp add: before_def nth_add_ops sem_of_def w_num_def w_op_def)
  moreover have "goes (before (base_of (ker s) (w_ix w)) (w_sops w) (sem_pool (ker s)) (w_idx w)) (w_op w)"
    using p i by (simp add: passes_def w_op_def)
  ultimately show False using st by (simp add: stuck_def)
qed

text \<open>C7: no wake-up is lost. The runs are those in which no set has more than 32768 semaphores; every
  vector that is tried names semaphores its set has, and no sum of its increments carries a value beyond
  65535; fewer than 65535 processes sleep; and no event brings back an identifier that a sleeper of a
  removed set still holds. The sleeper is one that waits for a semaphore its vector has not changed in front
  of the operation it waits for. In every state such a run can reach and in which the allocator does not
  fail, if its whole vector could go ahead it has been woken, so it is enabled, and running it ends its call
  instead of putting it back to sleep.\<close>

theorem semop_no_lost_wakeup:
  assumes "sem_reach careful s" and "waits s p = Some w" and "clean w" and "mem (ker s) = []"
    and "passes (base_of (ker s) (w_ix w)) (sem_nsems (sema (ker s) ! w_ix w)) (w_sops w) (sem_pool (ker s)) (length (w_sops w))"
  shows "enabled s p (Resume False now) \<and> (\<exists>s'. sem_step p (Resume False now) s = Some s' \<and> waits s' p = None)"
proof -
  have aw: "w_awake w" using clean_passes_awake [OF assms(1-3,5)] .
  have r: "well_formed s" "slots_ok s" using reach_live [OF assms(1)] by auto
  then have good: "good (ker s)" by (simp add: well_formed_def)
  then have pinv: "pool_inv (ker s)" by (simp add: good_def)
  have idx: "IPCID_TO_IX (w_uid w) < length (sema (ker s))" using r(2) assms(2) by (simp add: slots_ok_def)
  have en: "enabled s p (Resume False now)" using assms(2) aw by (simp add: enabled_def)
  have "sem_reach small_sets s" using sem_reach_mono [OF assms(1)] by (simp add: careful_def)
  then obtain s' where s': "sem_step p (Resume False now) s = Some s'" using sem_step_total [OF _ en assms(4)] by blast
  then obtain x where x: "semop_resume p (w_uid w) (w_sops w) (w_idx w) (w_und w) False now (ker s) = Some x"
    "s' = op_result p (w_uid w) (w_sops w) (waits s) x" using assms(2) by auto
  let ?st = "leave (ker s) (w_uid w) (w_sops w ! w_idx w)"
  have "\<exists>e st. x = Returns e st"
  proof (cases "holds (ker s) (w_uid w) \<and> unat (sem_num (w_sops w ! w_idx w)) < nsem (ker s) (IPCID_TO_IX (w_uid w))")
    case True
    then have a: "semop_attempt p (w_ix w) (w_sops w) now (w_und w) ?st = Some x" and live: "live ?st (w_ix w)"
      using x(1) resume_eq [OF pinv idx, of p "w_sops w" "w_idx w" "w_und w" False now]
      by (auto simp: w_ix_def leave_live holds_def)
    have pst: "pool_inv ?st" using leave_good [OF good] by (simp add: good_def)
    have lv: "live (ker s) (w_ix w)" using live by (simp add: leave_live)
    have room: "base_of (ker s) (w_ix w) + unat (sem_nsems (sema (ker s) ! w_ix w)) \<le> length (sem_pool (ker s))"
      using pool_invD(1) [OF pinv] pool_invD(3) [OF pinv lv] by (simp add: nsem_def)
    have "passes (base_of (ker s) (w_ix w)) (sem_nsems (sema (ker s) ! w_ix w)) (w_sops w) (sem_pool ?st) (length (w_sops w))"
      by (rule passes_leave [OF _ _ room assms(5)]) (simp_all add: leave_def Let_def semval_update)
    then have "passes (base_of ?st (w_ix w)) (sem_nsems (sema ?st ! w_ix w)) (w_sops w) (sem_pool ?st) (length (w_sops w))"
      by (simp add: leave_def Let_def base_of_def)
    then show ?thesis using passes_returns [OF a pst live] by blast
  next
    case False
    then show ?thesis using x(1) resume_eq [OF pinv idx, of p "w_sops w" "w_idx w" "w_und w" False now] by auto
  qed
  then have "waits s' p = None" using x(2) by (auto simp: op_result_def settle_def)
  then show ?thesis using en s' by blast
qed

section \<open>Examples\<close>

text \<open>The state after the first \<open>semget\<close>, with a given semaphore 0.\<close>

definition set_state :: "sem \<Rightarrow> int \<Rightarrow> sysvsem" where
  "set_state x otime = \<lparr>semtot = 2,
     sema = \<lparr>sem_perm = \<lparr>ipc_uid = 0, ipc_gid = 0, ipc_cuid = 0, ipc_cgid = 0, ipc_mode = SEM_ALLOC, ipc_seq = 1, ipc_key = 0\<rparr>,
       sem_base = 0, sem_nsems = 2, sem_otime = otime, sem_ctime = 7\<rparr> # replicate 7 zero_semid,
     sem_pool = x # replicate 63 zero_sem, semu_list_idx = None, semu = [], wakeups = [], mem = []\<rparr>"

lemma replicate_8: "replicate 8 x = x # replicate 7 x"
  by (simp add: numeral_eq_Suc)

lemma bzero_64: "bzero_sems 0 2 (replicate 64 zero_sem) = zero_sem # replicate 63 zero_sem"
  by (simp add: bzero_sems_def numeral_eq_Suc)

lemma set_state_get: "semget root_cred 0 2 0 7 (sysv_init []) = Some (Inr 0x10000, set_state zero_sem 0)"
  by (simp add: semget_def IPC_PRIVATE_def semget_alloc_def SEMMSL_def SEMMNS_def SEMMNI_def SEMMNS_INC_def SEMMNI_INC_def
    sysv_init_def grow_sem_pool_def grow_sema_array_def round_size_def malloc_def wake_all_def Let_def rd_def
    new_semid_def IXSEQ_TO_IPCID_def zero_semid_def zero_perm_def SEM_ALLOC_def bzero_64 replicate_8 root_cred_def set_state_def)

lemma set_state_live: "live (set_state x t) i \<longleftrightarrow> i = 0"
  by (cases i) (auto simp: live_def set_state_def allocated_def SEM_ALLOC_def zero_semid_def zero_perm_def nth_Cons')

lemma set_state_simps [simp]:
  "nsem (set_state x t) 0 = 2" "base_of (set_state x t) 0 = 0" "sem_nsems (sema (set_state x t) ! 0) = 2"
  "ipc_seq (sem_perm (sema (set_state x t) ! 0)) = 1" "sem_pool (set_state x t) = x # replicate 63 zero_sem"
  by (simp_all add: nsem_def base_of_def set_state_def)

lemma id0 [simp]: "IPCID_TO_IX 0x10000 = 0" "IPCID_TO_SEQ 0x10000 = 1"
  by code_simp+

lemma set_state_holds [simp]: "holds (set_state x t) 0x10000"
  by (simp add: holds_def set_state_live)

lemma set_state_fits:
  "(\<And>b. b \<in> set bs \<Longrightarrow> sem_num b = 0) \<Longrightarrow> uint (semval x) + raise bs 0 < 65536 \<Longrightarrow> fits (set_state x t) 0x10000 bs"
  by (auto simp: fits_def roomy_def)

lemma boot_set: "sem_reach careful \<lparr>ker = set_state zero_sem 0, waits = (\<lambda>_. None)\<rparr>"
proof -
  have step: "sem_step 1 (Semget root_cred 0 2 0 7) boot_sys = Some \<lparr>ker = set_state zero_sem 0, waits = (\<lambda>_. None)\<rparr>"
    by (simp add: boot_sys_def set_state_get settle_def) (simp add: set_state_def)
  have "no_reuse boot_sys 1 (Semget root_cred 0 2 0 7)" unfolding no_reuse_def step by (simp add: boot_sys_def)
  then show ?thesis
    by (intro sem_reach.event [OF boot_reach _ _ step]) (simp_all add: enabled_def careful_def small_sets_def boot_sys_def)
qed

text \<open>A call of \<open>semop\<close> with a vector on semaphore 0.\<close>

lemma reach_semop:
  assumes "sem_reach careful \<lparr>ker = set_state x t, waits = ws\<rparr>"
    and op: "semop p root_cred 0x10000 (int (length bs)) (\<lambda>_. Some bs) 7 (set_state x t) = Some r"
    and res: "op_result p 0x10000 bs ws r = s'" and "ws p = None" and "card (dom ws) < 65535"
    and "\<forall>b \<in> set bs. sem_num b = 0" "uint (semval x) + raise bs 0 < 65536"
    and "\<forall>q w. ws q = Some w \<longrightarrow> w_uid w = 0x10000"
  shows "sem_reach careful s'"
proof -
  let ?s = "\<lparr>ker = set_state x t, waits = ws\<rparr>" let ?ev = "Semop root_cred 0x10000 (int (length bs)) (\<lambda>_. Some bs) 7"
  have step: "sem_step p ?ev ?s = Some s'" using op res by simp
  have "no_reuse ?s p ?ev" unfolding no_reuse_def step using assms(8) set_state_holds by auto
  moreover have "vector_fits ?s p ?ev" using set_state_fits [of bs x t] assms(5-7) by simp
  ultimately show ?thesis
    by (intro sem_reach.event [OF assms(1) _ _ step]) (simp_all add: enabled_def assms(4) careful_def small_sets_def)
qed

definition one_wait :: "sembuf list \<Rightarrow> nat \<Rightarrow> bool \<Rightarrow> proc \<Rightarrow> sem_wait option" where
  "one_wait bs i a = [1 \<mapsto> \<lparr>w_uid = 0x10000, w_sops = bs, w_idx = i, w_und = False, w_awake = a\<rparr>]"

lemma op_sleeps:
  "op_result 1 0x10000 bs (\<lambda>_. None) (Sleeps i False (set_state x t)) = \<lparr>ker = set_state x t, waits = one_wait bs i False\<rparr>"
  by (auto simp: op_result_def settle_def one_wait_def set_state_def deliver_def fun_eq_iff)

lemma op_returns:
  "op_result 2 0x10000 bs (one_wait cs i False) (Returns None ((set_state x t)\<lparr>wakeups := W\<rparr>)) =
     \<lparr>ker = set_state x t, waits = one_wait cs i (0 \<in> set W)\<rparr>"
  by (auto simp: op_result_def settle_def one_wait_def set_state_def deliver_def fun_eq_iff)

lemma op_returns0:
  "op_result 2 0x10000 bs (\<lambda>_. None) (Returns None (set_state x t)) = \<lparr>ker = set_state x t, waits = (\<lambda>_. None)\<rparr>"
  by (auto simp: op_result_def settle_def set_state_def fun_eq_iff)

lemma dom_one_wait [simp]: "dom (one_wait bs i a) = {1}"
  by (simp add: one_wait_def)

lemma one_wait_other [simp]: "one_wait bs i a 2 = None"
  by (simp add: one_wait_def)

lemma one_wait_uid: "\<forall>q w. one_wait bs i a q = Some w \<longrightarrow> w_uid w = 0x10000"
  by (auto simp: one_wait_def split: if_splits)

lemma down_sleeps: "semop 1 root_cred 0x10000 1 (\<lambda>_. Some [sop 0 (-1)]) 7 (set_state zero_sem 0) =
    Some (Sleeps 0 False (set_state (zero_sem\<lparr>semncnt := 1\<rparr>) 0))"
  by code_simp

lemma up_wakes: "semop 2 root_cred 0x10000 1 (\<lambda>_. Some [sop 0 1]) 7 (set_state (zero_sem\<lparr>semncnt := 1\<rparr>) 0) =
    Some (Returns None ((set_state (zero_sem\<lparr>semval := 1, sempid := 2, semncnt := 1\<rparr>) 7)\<lparr>wakeups := [0]\<rparr>))"
  by code_simp

lemma zero_sem_semval [simp]: "semval zero_sem = 0"
  by (simp add: zero_sem_def)

lemma sop_num [simp]: "sem_num (sop k x) = k" "sem_op (sop k x) = word_of_int x"
  by (simp_all add: sop_def)

lemma woken_run: "sem_reach careful \<lparr>ker = set_state (zero_sem\<lparr>semval := 1, sempid := 2, semncnt := 1\<rparr>) 7, waits = one_wait [sop 0 (-1)] 0 True\<rparr>"
proof -
  have 1: "sem_reach careful \<lparr>ker = set_state (zero_sem\<lparr>semncnt := 1\<rparr>) 0, waits = one_wait [sop 0 (-1)] 0 False\<rparr>"
    by (rule reach_semop [OF boot_set _ op_sleeps]) (simp_all add: down_sleeps)
  have "sem_reach careful \<lparr>ker = set_state (zero_sem\<lparr>semval := 1, sempid := 2, semncnt := 1\<rparr>) 7,
      waits = one_wait [sop 0 (-1)] 0 (0 \<in> set [0 :: nat])\<rparr>"
    by (rule reach_semop [OF 1 _ op_returns, of "[sop 0 1]"]) (simp_all add: up_wakes one_wait_uid)
  then show ?thesis by simp
qed

theorem semop_no_lost_wakeup_witness:
  "\<exists>s s'. sem_reach careful s \<and> waits s 1 \<noteq> None \<and> sem_step 1 (Resume False 9) s = Some s' \<and> waits s' 1 = None"
proof -
  let ?k = "set_state (zero_sem\<lparr>semval := 1, sempid := 2, semncnt := 1\<rparr>) 7"
  let ?s = "\<lparr>ker = ?k, waits = one_wait [sop 0 (-1)] 0 True\<rparr>"
  let ?w = "\<lparr>w_uid = 0x10000, w_sops = [sop 0 (-1)], w_idx = 0, w_und = False, w_awake = True\<rparr>"
  have w: "waits ?s 1 = Some ?w" by (simp add: one_wait_def)
  have ix: "w_ix ?w = 0" by (simp add: w_ix_def)
  have "passes (base_of (ker ?s) (w_ix ?w)) (sem_nsems (sema (ker ?s) ! w_ix ?w)) (w_sops ?w) (sem_pool (ker ?s)) (length (w_sops ?w))"
    unfolding ix by (simp add: passes_def before_def goes_def)
  moreover have "clean ?w" by (simp add: clean_def)
  moreover have "mem (ker ?s) = []" by (simp add: set_state_def)
  ultimately obtain s' where "sem_step 1 (Resume False 9) ?s = Some s'" "waits s' 1 = None"
    using semop_no_lost_wakeup [OF woken_run w, of 9] by blast
  then show ?thesis using woken_run w by blast
qed

text \<open>The calls of the run with the lost wake-up.\<close>

lemma up_two: "semop 2 root_cred 0x10000 1 (\<lambda>_. Some [sop 0 2]) 7 (set_state zero_sem 0) =
    Some (Returns None (set_state (zero_sem\<lparr>semval := 2, sempid := 2\<rparr>) 7))"
  by code_simp

lemma zero_sleeps: "semop 1 root_cred 0x10000 2 (\<lambda>_. Some [sop 0 (-1), sop 0 0]) 7 (set_state (zero_sem\<lparr>semval := 2, sempid := 2\<rparr>) 7) =
    Some (Sleeps 1 False (set_state (zero_sem\<lparr>semval := 2, sempid := 2, semzcnt := 1\<rparr>) 7))"
  by code_simp

lemma down_silent: "semop 2 root_cred 0x10000 1 (\<lambda>_. Some [sop 0 (-1)]) 7 (set_state (zero_sem\<lparr>semval := 2, sempid := 2, semzcnt := 1\<rparr>) 7) =
    Some (Returns None ((set_state (zero_sem\<lparr>semval := 1, sempid := 2, semzcnt := 1\<rparr>) 7)\<lparr>wakeups := []\<rparr>))"
  by code_simp

text \<open>C35: 
  The condition on the vector cannot be dropped. Process 2 raises a semaphore to 2. Process 1 asks
  to take one and then to see zero; it finds one left, sleeps for zero and gives back what it
  took. Process 2 takes one: the value is now 1, so the operations of process 1 could go ahead, but
  the code only wakes for the value 0, and process 1 sleeps on.
\<close>

theorem semop_lost_wakeup:
  "\<exists>s w. sem_reach careful s \<and> waits s 1 = Some w \<and> w_sops w = [sop 0 (-1), sop 0 0] \<and> \<not> w_awake w \<and>
     passes (base_of (ker s) (w_ix w)) (sem_nsems (sema (ker s) ! w_ix w)) (w_sops w) (sem_pool (ker s)) (length (w_sops w))"
proof -
  let ?k = "set_state (zero_sem\<lparr>semval := 1, sempid := 2, semzcnt := 1\<rparr>) 7"
  let ?bs = "[sop 0 (-1), sop 0 0]"
  let ?w = "\<lparr>w_uid = 0x10000, w_sops = ?bs, w_idx = 1, w_und = False, w_awake = False\<rparr>"
  have 1: "sem_reach careful \<lparr>ker = set_state (zero_sem\<lparr>semval := 2, sempid := 2\<rparr>) 7, waits = (\<lambda>_. None)\<rparr>"
    by (rule reach_semop [OF boot_set _ op_returns0, of "[sop 0 2]"]) (simp_all add: up_two)
  have 2: "sem_reach careful \<lparr>ker = set_state (zero_sem\<lparr>semval := 2, sempid := 2, semzcnt := 1\<rparr>) 7, waits = one_wait ?bs 1 False\<rparr>"
    by (rule reach_semop [OF 1 _ op_sleeps]) (simp_all add: zero_sleeps)
  have "sem_reach careful \<lparr>ker = ?k, waits = one_wait ?bs 1 (0 \<in> set ([] :: nat list))\<rparr>"
    by (rule reach_semop [OF 2 _ op_returns, of "[sop 0 (-1)]"]) (simp_all add: down_silent [simplified] one_wait_uid)
  then have 3: "sem_reach careful \<lparr>ker = ?k, waits = one_wait ?bs 1 False\<rparr>" by simp
  have ix: "w_ix ?w = 0" by (simp add: w_ix_def)
  have "passes (base_of ?k 0) (sem_nsems (sema ?k ! 0)) ?bs (sem_pool ?k) 2"
    by (simp add: numeral_2_eq_2 passes_Suc goes_def add_op_def)
  then show ?thesis using 3 ix
    by (intro exI [of _ "\<lparr>ker = ?k, waits = one_wait ?bs 1 False\<rparr>"] exI [of _ ?w]) (simp add: one_wait_def numeral_2_eq_2)
qed

end
