(* ===== verification/Spec2Isabelle.thy ===== *)
theory Spec2Isabelle
  imports Wwan Rangelist Lockf Bpf Dhcp_Options Rc4 Cast128 Strtol Libkern_Str Inet_Ntop Crc32 Ip_Ecn In_Cksum
    Clist Qsort Subrs Sort_Callers Utf8_Roundtrip Sysv_Live
begin

text \<open>
  The C code of this repository: one program of its own, the WWAN connection sample, and beside it a
  copy of the XNU kernel sources. Modelled are the parts of the kernel that carry logic of their own
  (data structures, interpreters, parsers, codecs, schedulers of requests); each of them is used by the rest
  of the kernel as a library, so that its callers appear here as sequences of calls. Paths below are
  relative to \<open>src/Utilities/sys32/usr/include\<close> unless they start with \<open>src\<close>.

  Conventions. A C array is a list, and \<open>rd\<close> and \<open>wr\<close> of \<open>Prelude\<close> fail outside of it, so that
  \<open>None\<close> as a result of an operation means an access outside an object, a null pointer or a
  panic: a theorem that a call returns \<open>Some\<close> is a theorem that the code survives. Integers
  whose width matters are words (\<open>u8\<close> to \<open>u64\<close>); the others are \<open>int\<close> or \<open>nat\<close>, with the bound as
  a hypothesis or an invariant. Loops are recursive functions with a termination proof, and loops
  over linked structures that may be cyclic are \<open>partial_function (option)\<close>, with a theorem that they
  return. No definition that models code has fuel but the step counts that \<open>bounded_machine\<close> derives
  from a measure (BPF programs: the instructions behind the program counter; UTF-8 decoding: the bytes
  left); the driver \<open>strsep_all\<close> of \<open>Libkern_Str\<close>, which calls \<open>strsep\<close> again and again, takes the
  number of calls.

  \<^bold>\<open>Parts.\<close>

  \<^item> \<open>Wwan\<close>: \<open>src/Utilities/Apple Sample Code/wwanconnect.c\<close>. The state is the static stream pair; the CoreFoundation calls
    are an environment of answers and a trace of events. The trace of a session obeys the life cycle of a
    stream; the error path does not.
  \<^item> \<open>Rangelist\<close>: \<open>hfs/rangelist.c\<close>. A queue of inclusive ranges as a list with the index of the entry
    \<open>rl_scan\<close> returns. Add and remove keep the list canonical and act on the set of offsets as union and
    difference (locale \<open>range_store\<close>, interpreted on the model), in the situations the code supports.
  \<^item> \<open>Lockf\<close>: \<open>kern/kern_lockf.c\<close>. The chain of granted locks, the queues of blocked requests, the wait channels
    of processes. Every operation of the file, their refinement to a map from owners to byte ranges, the step
    relation of processes that lock, unlock, wait and are woken (\<open>lk_step\<close>), and the same relation with the
    record of what the calls have granted (\<open>lk_run\<close>), on which mutual exclusion is stated. Coalescing can drop
    the locks of others, so grants in \<open>lk_run\<close> are \<open>quiet\<close>: nothing is coalesced or nobody else has locks. A
    request or release fails for want of memory exactly when it has to split a lock. Locks and sleepers that
    coalescing loses, and a cycle of three sleepers that is no deadlock to the scan, are theorems.
  \<^item> \<open>Sysv_Sem\<close>, \<open>Sysv_Calls\<close>: \<open>kern/sysv_sem.c\<close> with \<open>sys/sem.h\<close>, \<open>sys/sem_internal.h\<close>, \<open>sys/ipc.h\<close> and
    \<open>ipcperm\<close>. The record \<open>sysvsem\<close> holds the three growing tables, the chain of undo structures, the
    log of \<open>wakeup\<close> and the answers of the allocator. \<open>Sysv_Pool\<close> and \<open>Sysv_Layout\<close> keep the layout of the
    pool, \<open>Sysv_Undo\<close> the chain, \<open>Sysv_Semop\<close> shows that vectors are atomic, \<open>Sysv_Exit\<close> that undo entries
    record what was done and are applied at exit. \<open>Sysv_Sys\<close> lets processes call, sleep, wake and exit in any
    order (\<open>sem_reach\<close>): as long as no set has more than 32768 semaphores (the code allows 87381, and
    numbers them with a \<open>short\<close>) all states are well formed, and no event panics unless the allocator fails.
    \<open>Sysv_Wake\<close> and \<open>Sysv_Live\<close> show that no wake-up is lost in careful runs (\<open>careful\<close>: no overflow, no
    identifier reused under a sleeper) for vectors that do not wait for what they changed themselves
    (\<open>clean\<close>), and a vector that is not clean for which one is.
  \<^item> \<open>Bpf\<close>: \<open>net/bpf_filter.c\<close>. The filter machine over contiguous packets and mbuf chains, and the validator:
    accepted programs with memory indices in range return on packets without empty mbufs behind the first
    (\<open>packet_ok\<close>; locale \<open>bounded_machine\<close> of \<open>Prelude\<close>).
  \<^item> \<open>Dhcp_Options\<close>: \<open>netinet/dhcp_options.c\<close>. Pointer lists (locale \<open>dyn_array\<close>), the parser of option areas and the writer, which
    are inverse to each other; what the parser reads outside the area.
  \<^item> \<open>In_Cksum\<close>, \<open>Ip_Ecn\<close>, \<open>Inet_Ntop\<close>, \<open>Crc32\<close>: \<open>netinet/in_cksum.c\<close>, \<open>netinet/ip_ecn.c\<close>, \<open>libkern/inet_ntop.c\<close>,
    \<open>libkern/crc32.c\<close>, each against a specification: the one's complement sum of 16-bit words modulo 65535, the
    traffic class, a reader of addresses by RFC 4291, division of polynomials.
  \<^item> \<open>Ciphers\<close>, \<open>Rc4\<close>, \<open>Cast128\<close>: the locales \<open>feistel\<close> and \<open>stream_cipher\<close>, and \<open>crypto/rc4/rc4.c\<close> and
    \<open>crypto/cast128/cast128.c\<close> as their instances, with all S-boxes and the key schedule.
  \<^item> \<open>Strtol\<close>, \<open>Libkern_Str\<close>, \<open>Subrs\<close>: the string routines of \<open>libkern\<close> and \<open>device/subrs.c\<close>.
  \<^item> \<open>Clist\<close>: the ring buffers of \<open>kern/tty_subr.c\<close> with their bitmap of quoted characters, as queues
    (locales \<open>bounded_queue\<close> and \<open>queue_mover\<close>). \<open>b_to_q\<close> touches a byte of quote bits too many when it
    reaches the last place of a ring as the code allocates it; its theorem holds up to there.
  \<^item> \<open>Qsort\<close>, \<open>Sort_Callers\<close>: \<open>kern/qsort.c\<close> (it permutes for any comparison and sorts for a good one,
    locale \<open>sort_order\<close>) and four callers with their comparison functions, from \<open>vfs\<close>.
  \<^item> \<open>Utf_Tables\<close>, \<open>Utfconv\<close>, \<open>Utf_Lookup\<close>, \<open>Utf_Decompose\<close>: the characters of file names (\<open>vfs/vfs_utfconv.c\<close> and its tables):
    the tables are sorted, the searches find what is in them, decomposition returns within its buffers.
  \<^item> \<open>Utf8\<close>, \<open>Utf8_Codec\<close>, \<open>Utf8_Roundtrip\<close>: encoding, decoding, validation and normalization of file names, against
    UTF-8 and UTF-16 as lists of code points. The functional theorems are about the calls without flags; the
    validator stops at the first NUL.

  \<^bold>\<open>Kinds of theorems.\<close> Refinement to an abstract state (\<open>Lockf\<close>, \<open>Clist\<close>, \<open>Rangelist\<close>, \<open>Ip_Ecn\<close>), invariants
  of reachable states by rule induction (\<open>Lockf\<close>, \<open>Sysv_Sys\<close>, \<open>Sysv_Live\<close>), liveness (\<open>Sysv_Live\<close>), round trips
  (\<open>Cast128\<close>, \<open>Rc4\<close>, \<open>Dhcp_Options\<close>, \<open>Utf8_Roundtrip\<close>, \<open>Subrs\<close>), equivalence with a reference (\<open>Crc32\<close>, \<open>In_Cksum\<close>,
  \<open>Utf8_Codec\<close>), termination (\<open>Qsort\<close>, \<open>Utf_Decompose\<close>) and absence of faults on every input. Theorems about errors show where the code
  departs from its purpose.

  \<^bold>\<open>Not modelled.\<close> Virtual memory, Mach IPC, the file systems beyond range lists and names, the network stack beyond the routines
  above, and device drivers work on hardware, disk buffers or shared kernel objects that these sources only
  use through macros and functions of other subsystems. The Objective-C application and the vendored headers (PHP, compiler
  support) are not C code of this program. Inside the modelled files: debug output, statistics, the
  MAC framework and the locking primitives themselves are left out; a call under a lock is one step.
  Simplified: the byte distances that \<open>qsort\<close> keeps in \<open>int\<close> and the sums of offsets in
  \<open>dhcpoa_add\<close> do not overflow here, comparison functions are pure, and the streams CoreFoundation creates
  in \<open>Wwan\<close> are never NULL.
\<close>

end
